(* ===== verification/Prelude.thy ===== *)
theory Prelude
  imports Main "HOL-Library.Word" "HOL-Library.Multiset"
begin

text \<open>
  Shared layer of the development: names for the fixed-width integers of the C++ code, the
  theorem collections the components extend, the error type of the fallible operations, and
  the generic lemmas on lists that several components use.
\<close>

section \<open>Machine integers\<close>

text \<open>
  \<open>uint8_t\<close>, \<open>unsigned\<close> and \<open>uint64_t\<close> wrap around; they are words of that width wherever
  overflow can matter.  Indices, sizes and DIMACS numbers that the code keeps far below the
  limit are \<open>nat\<close> or \<open>int\<close>, with the limit written out where the code tests it.
\<close>

type_synonym u8 = "8 word"
type_synonym u32 = "32 word"
type_synonym u64 = "64 word"

abbreviation INT_MAX :: int where "INT_MAX \<equiv> 2147483647"
abbreviation INT_MIN :: int where "INT_MIN \<equiv> - 2147483648"

section \<open>Collections\<close>

named_theorems lit_simps \<open>arithmetic of literal codes\<close>
named_theorems occ_simps \<open>occurrence lists\<close>
named_theorems gate_simps \<open>gate formula updates\<close>
named_theorems stream_simps \<open>character streams\<close>

section \<open>Errors\<close>

text \<open>
  The ways an operation of the two programs can leave its normal path: an index outside a
  vector (undefined behaviour in C++, made visible here), the exceptions the code throws,
  and, for a loop run with fuel, the fuel running out.
\<close>

datatype err =
    OutOfRange
  | ResourceLimitsExceeded
  | ParseError string
  | OutOfFuel
  | Abort
  | NullPointer

type_synonym 'a res = "err + 'a"

definition bind_res :: "'a res \<Rightarrow> ('a \<Rightarrow> 'b res) \<Rightarrow> 'b res" where
  "bind_res m f = (case m of Inl e \<Rightarrow> Inl e | Inr x \<Rightarrow> f x)"

lemma bind_res_simps [simp]:
  "bind_res (Inl e) f = Inl e"
  "bind_res (Inr x) f = f x"
  by (simp_all add: bind_res_def)

lemma bind_res_eq_Inr:
  "bind_res m f = Inr y \<longleftrightarrow> (\<exists>x. m = Inr x \<and> f x = Inr y)"
  by (cases m) auto

lemma bind_res_cong [fundef_cong]:
  "m = m' \<Longrightarrow> (\<And>x. m' = Inr x \<Longrightarrow> f x = f' x) \<Longrightarrow> bind_res m f = bind_res m' f'"
  by (cases m') auto

text \<open>Checked reads and writes of a vector.\<close>

definition vec_get :: "'a list \<Rightarrow> nat \<Rightarrow> 'a res" where
  "vec_get xs i = (if i < length xs then Inr (xs ! i) else Inl OutOfRange)"

definition vec_set :: "'a list \<Rightarrow> nat \<Rightarrow> 'a \<Rightarrow> 'a list res" where
  "vec_set xs i x = (if i < length xs then Inr (xs[i := x]) else Inl OutOfRange)"

lemma vec_get_ok [simp]: "i < length xs \<Longrightarrow> vec_get xs i = Inr (xs ! i)"
  by (simp add: vec_get_def)

lemma vec_set_ok [simp]: "i < length xs \<Longrightarrow> vec_set xs i x = Inr (xs[i := x])"
  by (simp add: vec_set_def)

lemma vec_get_bad [simp]: "\<not> i < length xs \<Longrightarrow> vec_get xs i = Inl OutOfRange"
  by (simp add: vec_get_def)

lemma vec_set_bad [simp]: "\<not> i < length xs \<Longrightarrow> vec_set xs i x = Inl OutOfRange"
  by (simp add: vec_set_def)

text \<open>A loop over a list whose body can fail.\<close>

fun fold_res :: "('a \<Rightarrow> 's \<Rightarrow> 's res) \<Rightarrow> 'a list \<Rightarrow> 's \<Rightarrow> 's res" where
  "fold_res f [] s = Inr s"
| "fold_res f (x # xs) s = bind_res (f x s) (fold_res f xs)"

lemma fold_res_append:
  "fold_res f (xs @ ys) s = bind_res (fold_res f xs s) (fold_res f ys)"
  by (induction xs arbitrary: s) (auto simp: bind_res_def split: sum.splits)

text \<open>Total correctness of such a loop: an invariant indexed by the elements done so far.\<close>

lemma fold_res_total:
  assumes "I [] s"
    and "\<And>ys x zs t. xs = ys @ x # zs \<Longrightarrow> I ys t \<Longrightarrow> \<exists>t'. f x t = Inr t' \<and> I (ys @ [x]) t'"
  shows "\<exists>t. fold_res f xs s = Inr t \<and> I xs t"
  using assms
proof (induction xs rule: rev_induct)
  case Nil
  then show ?case by simp
next
  case (snoc x xs)
  have "\<exists>t. fold_res f xs s = Inr t \<and> I xs t"
  proof (rule snoc.IH [OF snoc.prems(1)])
    fix ys y zs t
    assume "xs = ys @ y # zs" and "I ys t"
    then show "\<exists>t'. f y t = Inr t' \<and> I (ys @ [y]) t'"
      using snoc.prems(2) [of ys y "zs @ [x]"] by simp
  qed
  then obtain t where "fold_res f xs s = Inr t" and "I xs t" by blast
  with snoc.prems(2) [of xs x "[]" t] show ?case
    by (auto simp: fold_res_append)
qed

text \<open>
  \<open>res_ok E P m\<close>: \<open>m\<close> is an error of \<open>E\<close> or a value with \<open>P\<close>.  With \<open>E = {}\<close> it says that the
  operation succeeds.
\<close>

definition res_ok :: "err set \<Rightarrow> ('a \<Rightarrow> bool) \<Rightarrow> 'a res \<Rightarrow> bool" where
  "res_ok E P m \<longleftrightarrow> (case m of Inl e \<Rightarrow> e \<in> E | Inr x \<Rightarrow> P x)"

lemma res_ok_simps [simp]:
  "res_ok E P (Inl e) \<longleftrightarrow> e \<in> E"
  "res_ok E P (Inr x) \<longleftrightarrow> P x"
  by (simp_all add: res_ok_def)

lemma res_ok_bind:
  assumes "res_ok E P m" and "\<And>x. m = Inr x \<Longrightarrow> P x \<Longrightarrow> res_ok E Q (f x)"
  shows "res_ok E Q (bind_res m f)"
  using assms by (cases m) auto

lemma res_ok_mono:
  "res_ok E P m \<Longrightarrow> (\<And>x. m = Inr x \<Longrightarrow> P x \<Longrightarrow> Q x) \<Longrightarrow> res_ok E Q m"
  by (cases m) auto

lemma res_ok_fold:
  assumes "I [] s"
    and "\<And>ys x zs t. xs = ys @ x # zs \<Longrightarrow> I ys t \<Longrightarrow> res_ok E (I (ys @ [x])) (f x t)"
  shows "res_ok E (I xs) (fold_res f xs s)"
  using assms
proof (induction xs rule: rev_induct)
  case Nil
  then show ?case by simp
next
  case (snoc x xs)
  have "res_ok E (I xs) (fold_res f xs s)"
  proof (rule snoc.IH [OF snoc.prems(1)])
    fix ys y zs t
    assume "xs = ys @ y # zs" and "I ys t"
    then show "res_ok E (I (ys @ [y])) (f y t)"
      using snoc.prems(2) [of ys y "zs @ [x]"] by simp
  qed
  then show ?case
    unfolding fold_res_append
  proof (rule res_ok_bind)
    fix t assume "I xs t"
    with snoc.prems(2) [of xs x "[]" t] show "res_ok E (I (xs @ [x])) (fold_res f [x] t)"
      by (cases "f x t") auto
  qed
qed

section \<open>Lists\<close>

text \<open>The other of two integers, from their exclusive or.\<close>

lemma xor_other:
  "nl = a \<Longrightarrow> xor (xor a b) nl = (b :: int)"
  "nl = b \<Longrightarrow> xor (xor a b) nl = (a :: int)"
  by (simp_all add: xor.assoc xor.commute [of a b])

lemma sum_list_update_nat:
  "i < length xs \<Longrightarrow> sum_list (xs[i := y]) + xs ! i = sum_list xs + (y :: nat)"
  by (induction xs arbitrary: i) (auto split: nat.splits)

lemma distinct_remove_mid:
  "distinct (xs @ y # zs) \<Longrightarrow> distinct (xs @ zs) \<and> set (xs @ zs) = set (xs @ y # zs) - {y}"
  by auto

lemma sorted_wrt_less_distinct: "sorted_wrt (<) (xs :: 'a :: linorder list) \<Longrightarrow> distinct xs"
  using strict_sorted_iff by blast

lemma nth_update_if: "i < length xs \<Longrightarrow> xs[i := x] ! j = (if i = j then x else xs ! j)"
  by (simp add: nth_list_update)

lemma mset_set_split:
  assumes "finite D" and "S \<subseteq> D"
  shows "mset_set D = mset_set (D - S) + mset_set S"
proof -
  have "finite S" using assms finite_subset by blast
  moreover have "D = (D - S) \<union> S" using assms(2) by blast
  ultimately show ?thesis
    using assms(1) mset_set_Union [of "D - S" S] by (simp add: inf_commute Diff_disjoint)
qed

lemma mset_filter_split:
  "mset (filter (\<lambda>x. length (g x) = Suc 0 \<or> 2 \<le> length (g x)) xs)
    = mset (filter (\<lambda>x. length (g x) = Suc 0) xs) + mset (filter (\<lambda>x. 2 \<le> length (g x)) xs)"
  by (induction xs) (auto simp del: mset_filter)

end
