(* ===== verification/Solver_Types.thy ===== *)
theory Solver_Types
  imports Prelude
begin

text \<open>
  Literals of \<open>cnftools/src/util/SolverTypes.h\<close> as natural numbers: \<open>struct Lit\<close> stores
  \<open>2 * var_id + sign\<close>, and for every variable below \<open>2 ^ 31\<close>, the range the DIMACS reader
  admits, nothing wraps.  \<open>Solver_Words\<close> has the same operations on the 32-bit word and proves
  that they agree.
\<close>

section \<open>Literals as natural numbers\<close>

type_synonym lit = nat
type_synonym var = nat
type_synonym clause = "lit list"

definition mk_lit :: "var \<Rightarrow> bool \<Rightarrow> lit" where
  "mk_lit v s = 2 * v + of_bool s"

definition lit_sign :: "lit \<Rightarrow> bool" where
  "lit_sign l = odd l"

definition lit_var :: "lit \<Rightarrow> var" where
  "lit_var l = l div 2"

definition lit_not :: "lit \<Rightarrow> lit" where
  "lit_not l = (if even l then l + 1 else l - 1)"

definition toDimacs :: "lit \<Rightarrow> int" where
  "toDimacs l = (if lit_sign l then - int (lit_var l) else int (lit_var l))"

definition lit_Undef :: lit where
  "lit_Undef = mk_lit 0 False"

lemma lit_var_mk [simp, lit_simps]: "lit_var (mk_lit v s) = v"
  by (cases s) (simp_all add: lit_var_def mk_lit_def)

lemma lit_sign_mk [simp, lit_simps]: "lit_sign (mk_lit v s) = s"
  by (cases s) (simp_all add: lit_sign_def mk_lit_def)

lemma mk_lit_var_sign [simp, lit_simps]: "mk_lit (lit_var l) (lit_sign l) = l"
  by (cases "even l") (auto simp: mk_lit_def lit_var_def lit_sign_def elim: oddE)

lemma lit_not_not [simp, lit_simps]: "lit_not (lit_not l) = l"
  by (auto simp: lit_not_def elim: oddE)

lemma lit_var_not [simp, lit_simps]: "lit_var (lit_not l) = lit_var l"
  by (auto simp: lit_not_def lit_var_def elim: oddE)

lemma lit_sign_not [simp, lit_simps]: "lit_sign (lit_not l) = (\<not> lit_sign l)"
  by (auto simp: lit_not_def lit_sign_def elim: oddE)

lemma lit_not_neq [simp, lit_simps]: "lit_not l \<noteq> l" "l \<noteq> lit_not l"
  by (auto simp: lit_not_def elim: oddE)

lemma lit_not_inj [simp, lit_simps]: "lit_not a = lit_not b \<longleftrightarrow> a = b"
  by (metis lit_not_not)

lemma lit_not_swap: "a = lit_not b \<longleftrightarrow> lit_not a = b"
  by (metis lit_not_not)

lemma lit_eqI:
  assumes "lit_var a = lit_var b" and "lit_sign a = lit_sign b"
  shows "a = b"
proof -
  have "mk_lit (lit_var a) (lit_sign a) = mk_lit (lit_var b) (lit_sign b)"
    by (simp only: assms)
  then show ?thesis by simp
qed

lemma lit_var_eq: "lit_var a = lit_var b \<longleftrightarrow> a = b \<or> a = lit_not b"
proof
  assume v: "lit_var a = lit_var b"
  show "a = b \<or> a = lit_not b"
  proof (cases "lit_sign a = lit_sign b")
    case True
    with v show ?thesis by (blast intro: lit_eqI)
  next
    case False
    then have "lit_sign a = lit_sign (lit_not b)" unfolding lit_sign_not by blast
    moreover have "lit_var a = lit_var (lit_not b)" using v by (simp only: lit_var_not)
    ultimately have "a = lit_not b" by (rule lit_eqI [rotated])
    then show ?thesis ..
  qed
qed auto

lemma lit_not_mk [simp, lit_simps]: "lit_not (mk_lit v s) = mk_lit v (\<not> s)"
  by (rule lit_eqI) simp_all

lemma lit_not_adjacent: "lit_not l < m \<Longrightarrow> l \<noteq> m \<Longrightarrow> l < m"
  by (cases "even l") (auto simp: lit_not_def elim!: oddE)

end
