(* ===== verification/Cnf_Formula.thy ===== *)
theory Cnf_Formula
  imports Solver_Types
begin

text \<open>
  The clause database of \<open>cnftools/src/util/CNFFormula.h\<close>: its record, the clause reader
  that sorts, removes duplicate literals in place and drops tautologies, the renaming of
  variables, and the truth of a clause and of a formula under an assignment.  The invariant
  \<open>wf_cnf\<close> is what the gate components assume of every clause they are given.
\<close>

section \<open>Truth under an assignment\<close>

definition lit_true :: "(var \<Rightarrow> bool) \<Rightarrow> lit \<Rightarrow> bool" where
  "lit_true a l \<longleftrightarrow> a (lit_var l) \<noteq> lit_sign l"

definition cl_true :: "(var \<Rightarrow> bool) \<Rightarrow> clause \<Rightarrow> bool" where
  "cl_true a c \<longleftrightarrow> list_ex (lit_true a) c"

definition cnf_true :: "(var \<Rightarrow> bool) \<Rightarrow> clause list \<Rightarrow> bool" where
  "cnf_true a f \<longleftrightarrow> list_all (cl_true a) f"

lemma lit_true_not [simp]: "lit_true a (lit_not l) = (\<not> lit_true a l)"
  unfolding lit_true_def lit_var_not lit_sign_not by blast

lemma cl_true_iff: "cl_true a c \<longleftrightarrow> (\<exists>l \<in> set c. lit_true a l)"
  by (simp add: cl_true_def list_ex_iff)

lemma cnf_true_iff: "cnf_true a f \<longleftrightarrow> (\<forall>c \<in> set f. cl_true a c)"
  by (simp add: cnf_true_def list_all_iff)

lemma cnf_true_simps [simp]:
  "cnf_true a []"
  "cnf_true a (c # f) \<longleftrightarrow> cl_true a c \<and> cnf_true a f"
  "cnf_true a (f @ g) \<longleftrightarrow> cnf_true a f \<and> cnf_true a g"
  by (simp_all add: cnf_true_def)

lemma cl_true_cong: "set c = set d \<Longrightarrow> cl_true a c = cl_true a d"
  by (simp add: cl_true_iff)

section \<open>class CNFFormula\<close>

record cnf =
  formula :: "clause list"
  variables :: nat

definition cnf_empty :: cnf where
  "cnf_empty = \<lparr>formula = [], variables = 0\<rparr>"

definition nVars :: "cnf \<Rightarrow> nat" where
  "nVars f = variables f"

definition nClauses :: "cnf \<Rightarrow> nat" where
  "nClauses f = length (formula f)"

definition newVar :: "cnf \<Rightarrow> cnf \<times> nat" where
  "newVar f = (f\<lparr>variables := variables f + 1\<rparr>, variables f + 1)"

definition cnf_clear :: "cnf \<Rightarrow> cnf" where
  "cnf_clear f = f\<lparr>formula := []\<rparr>"

text \<open>
  The scan of \<open>readClause\<close> over the sorted literals: \<open>it\<close> is the last literal kept, \<open>jt\<close>
  the one read, \<open>dup\<close> counts the duplicates that the final \<open>resize\<close> cuts off.  \<open>None\<close> is
  the early return for a tautology.
\<close>

function clause_scan :: "clause \<Rightarrow> nat \<Rightarrow> nat \<Rightarrow> nat \<Rightarrow> clause option" where
  "clause_scan xs it jt dup =
     (if jt < length xs then
        (if xs ! it \<noteq> xs ! jt then
           (if lit_var (xs ! it) = lit_var (xs ! jt) then None
            else clause_scan (xs[Suc it := xs ! jt]) (Suc it) (Suc jt) dup)
         else clause_scan xs it (Suc jt) (Suc dup))
      else Some (take (length xs - dup) xs))"
  by pat_completeness auto
termination
  by (relation "measure (\<lambda>(xs, it, jt, dup). length xs - jt)") auto

declare clause_scan.simps [simp del]

definition readClause :: "clause \<Rightarrow> cnf \<Rightarrow> cnf" where
  "readClause c f =
     (if length c > 0 then
        (case clause_scan (sort c) 0 1 0 of
           None \<Rightarrow> f
         | Some d \<Rightarrow>
             f\<lparr>variables := max (variables f) (lit_var (last d)),
               formula := formula f @ [d]\<rparr>)
      else f\<lparr>formula := formula f @ [c]\<rparr>)"

definition readClauses :: "clause list \<Rightarrow> cnf \<Rightarrow> cnf" where
  "readClauses cs f = fold readClause cs f"

definition cnf_of :: "clause list \<Rightarrow> cnf" where
  "cnf_of cs = readClauses cs cnf_empty"

text \<open>
  \<open>normalizeVariableNames\<close> renames in place through the table \<open>name\<close>, in which 0 stands for
  "no name yet"; it hands the names out from \<open>max\<close>, which starts at 0.
\<close>

fun norm_lits :: "clause \<Rightarrow> nat list \<times> nat \<Rightarrow> (clause \<times> nat list \<times> nat) res" where
  "norm_lits [] (name, mx) = Inr ([], name, mx)"
| "norm_lits (l # ls) (name, mx) =
     bind_res (vec_get name (lit_var l)) (\<lambda>n.
       let (name', mx') = (if n = 0 then (name[lit_var l := mx], mx + 1) else (name, mx));
           l' = mk_lit (name' ! lit_var l) (lit_sign l)
       in bind_res (norm_lits ls (name', mx')) (\<lambda>(ls', st). Inr (l' # ls', st)))"

fun norm_clauses :: "clause list \<Rightarrow> nat list \<times> nat \<Rightarrow> (clause list \<times> nat list \<times> nat) res" where
  "norm_clauses [] st = Inr ([], st)"
| "norm_clauses (c # cs) st =
     bind_res (norm_lits c st) (\<lambda>(c', st').
       bind_res (norm_clauses cs st') (\<lambda>(cs', st''). Inr (c' # cs', st'')))"

definition normalizeVariableNames :: "cnf \<Rightarrow> cnf res" where
  "normalizeVariableNames f =
     bind_res (norm_clauses (formula f) (replicate (variables f + 1) 0, 0))
       (\<lambda>(cs, name, mx). Inr \<lparr>formula = cs, variables = mx\<rparr>)"

section \<open>The clause reader\<close>

definition tautology :: "clause \<Rightarrow> bool" where
  "tautology c \<longleftrightarrow> list_ex (\<lambda>l. lit_not l \<in> set c) c"

lemma tautology_iff: "tautology c \<longleftrightarrow> (\<exists>l \<in> set c. lit_not l \<in> set c)"
  by (simp add: tautology_def list_ex_iff)

lemma tautology_cong: "set c = set d \<Longrightarrow> tautology c = tautology d"
  by (simp add: tautology_iff)

lemma tautology_snoc: "tautology (c @ [y]) \<longleftrightarrow> tautology c \<or> lit_not y \<in> set c"
  by (auto simp: tautology_iff)

lemma tautology_true:
  assumes "tautology c"
  shows "cl_true a c"
proof -
  from assms obtain l where l: "l \<in> set c" "lit_not l \<in> set c"
    by (auto simp: tautology_iff)
  show ?thesis
  proof (cases "lit_true a l")
    case True
    with l show ?thesis by (auto simp: cl_true_iff)
  next
    case False
    then have "lit_true a (lit_not l)" by simp
    with l show ?thesis unfolding cl_true_iff by blast
  qed
qed

definition wf_clause :: "clause \<Rightarrow> bool" where
  "wf_clause c \<longleftrightarrow> sorted_wrt (<) c \<and> \<not> tautology c"

definition wf_cnf :: "cnf \<Rightarrow> bool" where
  "wf_cnf f \<longleftrightarrow>
     (\<forall>c \<in> set (formula f). wf_clause c \<and> (\<forall>l \<in> set c. lit_var l \<le> variables f))"

lemma lit_not_cases: "lit_not y = Suc y \<or> y = Suc (lit_not y)"
  by (cases "even y") (auto simp: lit_not_def elim!: oddE)

lemma wf_clause_snoc:
  assumes "wf_clause (xs @ [x])" and "x < y" and "lit_var x \<noteq> lit_var y"
  shows "wf_clause ((xs @ [x]) @ [y])"
proof -
  have less: "p < y" if "p \<in> set (xs @ [x])" for p
    using assms that by (fastforce simp: wf_clause_def sorted_wrt_append)
  have le: "p \<le> x" if "p \<in> set (xs @ [x])" for p
    using assms that by (fastforce simp: wf_clause_def sorted_wrt_append)
  have "lit_not y \<notin> set (xs @ [x])"
  proof
    assume p: "lit_not y \<in> set (xs @ [x])"
    have "lit_not y < y" "lit_not y \<le> x" using less le p by blast+
    with lit_not_cases [of y] assms(2) have "lit_not y = x" by linarith
    with assms(3) show False by (metis lit_var_not)
  qed
  moreover have "\<not> tautology (xs @ [x])" using assms(1) by (simp add: wf_clause_def)
  ultimately have "\<not> tautology ((xs @ [x]) @ [y])" by (metis tautology_snoc)
  with assms less show ?thesis
    by (auto simp: wf_clause_def sorted_wrt_append)
qed

lemma clause_scan_correct:
  assumes "it < jt" and "jt \<le> length xs" and "dup + it + 1 = jt"
    and "wf_clause (take (Suc it) xs)" and "sorted (take (Suc it) xs @ drop jt xs)"
    and "P = set (take (Suc it) xs) \<union> set (drop jt xs)"
  shows "case clause_scan xs it jt dup of
           None \<Rightarrow> \<exists>l \<in> P. lit_not l \<in> P
         | Some d \<Rightarrow> wf_clause d \<and> set d = P"
  using assms
proof (induction xs it jt dup rule: clause_scan.induct)
  case (1 xs it jt dup)
  show ?case
  proof (cases "jt < length xs")
    case False
    with "1.prems" have "length xs - dup = Suc it" by simp
    with False "1.prems" show ?thesis
      by (simp add: clause_scan.simps [of xs])
  next
    case jt: True
    let ?x = "xs ! it" and ?y = "xs ! jt"
    have P': "take (Suc it) xs = take it xs @ [?x]"
      using "1.prems" by (simp add: take_Suc_conv_app_nth)
    have Q': "drop jt xs = ?y # drop (Suc jt) xs"
      using jt by (simp add: Cons_nth_drop_Suc)
    show ?thesis
    proof (cases "?x = ?y")
      case True
      have "case clause_scan xs it (Suc jt) (Suc dup) of
              None \<Rightarrow> \<exists>l \<in> P. lit_not l \<in> P
            | Some d \<Rightarrow> wf_clause d \<and> set d = P"
      proof (rule "1.IH"(2) [OF jt])
        show "sorted (take (Suc it) xs @ drop (Suc jt) xs)"
          using "1.prems"(5) unfolding Q' by (auto simp: sorted_append)
        show "P = set (take (Suc it) xs) \<union> set (drop (Suc jt) xs)"
          using "1.prems"(6) True unfolding Q' P' by auto
      qed (use True "1.prems" jt in auto)
      with True jt show ?thesis by (simp add: clause_scan.simps [of xs it])
    next
      case ne: False
      show ?thesis
      proof (cases "lit_var ?x = lit_var ?y")
        case True
        with ne have "?x = lit_not ?y" by (simp add: lit_var_eq)
        moreover have "?x \<in> P" "?y \<in> P" using "1.prems"(6) P' Q' by auto
        ultimately have "\<exists>l \<in> P. lit_not l \<in> P" by (metis lit_not_not)
        with True ne jt show ?thesis by (simp add: clause_scan.simps [of xs it])
      next
        case False
        let ?xs = "xs[Suc it := ?y]"
        have lt: "?x < ?y"
          using ne "1.prems"(5) unfolding P' Q' by (auto simp: sorted_append)
        have take': "take (Suc (Suc it)) ?xs = take (Suc it) xs @ [?y]"
          using "1.prems" jt by (simp add: take_Suc_conv_app_nth)
        have drop': "drop (Suc jt) ?xs = drop (Suc jt) xs"
          using "1.prems" by simp
        have "case clause_scan ?xs (Suc it) (Suc jt) dup of
                None \<Rightarrow> \<exists>l \<in> P. lit_not l \<in> P
              | Some d \<Rightarrow> wf_clause d \<and> set d = P"
        proof (rule "1.IH"(1) [OF jt ne False])
          show "wf_clause (take (Suc (Suc it)) ?xs)"
            unfolding take' using "1.prems"(4) lt False unfolding P' by (rule wf_clause_snoc)
          show "sorted (take (Suc (Suc it)) ?xs @ drop (Suc jt) ?xs)"
            using "1.prems"(5) unfolding take' drop' Q' by simp
          show "P = set (take (Suc (Suc it)) ?xs) \<union> set (drop (Suc jt) ?xs)"
            using "1.prems"(6) unfolding take' drop' Q' by auto
        qed (use "1.prems" jt in auto)
        with False ne jt show ?thesis by (simp add: clause_scan.simps [of xs it])
      qed
    qed
  qed
qed

lemma clause_scan_sort:
  assumes "c \<noteq> []"
  shows "case clause_scan (sort c) 0 1 0 of
           None \<Rightarrow> tautology c
         | Some d \<Rightarrow> wf_clause d \<and> set d = set c"
proof -
  obtain x xs where sc: "sort c = x # xs"
    using assms by (metis length_sort length_0_conv neq_Nil_conv)
  have "set c = set (take (Suc 0) (sort c)) \<union> set (drop 1 (sort c))"
    by (metis One_nat_def append_take_drop_id set_append set_sort)
  then have "case clause_scan (sort c) 0 1 0 of
      None \<Rightarrow> \<exists>l \<in> set c. lit_not l \<in> set c | Some d \<Rightarrow> wf_clause d \<and> set d = set c"
    by (intro clause_scan_correct)
      (use sc sorted_sort [of c] in \<open>auto simp: wf_clause_def tautology_iff\<close>)
  then show ?thesis by (simp add: tautology_iff split: option.splits)
qed

text \<open>
  What reading one clause does: a tautology is dropped, an empty clause is stored as it is,
  every other clause is stored sorted, without duplicates and with its literals unchanged as
  a set, and \<open>variables\<close> grows to cover them.
\<close>

lemma readClause_tautology:
  assumes "tautology c"
  shows "readClause c f = f"
proof -
  have ne: "c \<noteq> []" using assms by (auto simp: tautology_iff)
  have "clause_scan (sort c) 0 1 0 = None"
  proof (cases "clause_scan (sort c) 0 1 0")
    case (Some d)
    then have "wf_clause d" "set d = set c"
      using clause_scan_sort [OF ne] by simp_all
    then show ?thesis
      using assms tautology_cong [of d c] by (simp add: wf_clause_def)
  qed
  with ne show ?thesis by (simp add: readClause_def)
qed

lemma readClause_stored:
  assumes "\<not> tautology c"
  shows "\<exists>d. wf_clause d \<and> set d = set c \<and> formula (readClause c f) = formula f @ [d]
           \<and> variables (readClause c f)
             = (if c = [] then variables f else max (variables f) (lit_var (last d)))"
proof (cases "c = []")
  case True
  then show ?thesis
    by (intro exI [of _ "[]"]) (simp add: readClause_def wf_clause_def tautology_def)
next
  case False
  from clause_scan_sort [OF this] assms obtain d
    where "clause_scan (sort c) 0 1 0 = Some d" "wf_clause d" "set d = set c"
    by (auto split: option.splits)
  with False show ?thesis by (intro exI [of _ d]) (simp add: readClause_def)
qed

lemma wf_clause_last:
  assumes "wf_clause d" and "l \<in> set d"
  shows "lit_var l \<le> lit_var (last d)"
proof -
  have "d \<noteq> []" using assms(2) by auto
  then have d: "d = butlast d @ [last d]" by simp
  have "sorted_wrt (<) (butlast d @ [last d])"
    using assms(1) d unfolding wf_clause_def by metis
  then have "l \<le> last d"
    using assms(2) d by (metis order.refl less_imp_le sorted_wrt_append Un_iff set_append
        list.set_intros(1) set_ConsD empty_iff list.set(1))
  then show ?thesis by (simp add: lit_var_def div_le_mono)
qed

lemma readClause_wf:
  assumes "wf_cnf f"
  shows "wf_cnf (readClause c f)"
proof (cases "tautology c")
  case True
  with assms show ?thesis by (simp add: readClause_tautology)
next
  case False
  from readClause_stored [OF this, of f] obtain d where
    d: "wf_clause d" "set d = set c" "formula (readClause c f) = formula f @ [d]"
      "variables (readClause c f)
         = (if c = [] then variables f else max (variables f) (lit_var (last d)))"
    by blast
  have "lit_var l \<le> variables (readClause c f)" if "l \<in> set d" for l
    using wf_clause_last [OF d(1) that] d that by (auto simp: le_max_iff_disj)
  moreover have "variables f \<le> variables (readClause c f)" using d(4) by simp
  ultimately show ?thesis
    using assms d(1,3) unfolding wf_cnf_def by (fastforce intro: order_trans)
qed

lemma readClause_sem:
  "cnf_true a (formula (readClause c f)) \<longleftrightarrow> cnf_true a (formula f) \<and> cl_true a c"
proof (cases "tautology c")
  case True
  then show ?thesis by (simp add: readClause_tautology tautology_true)
next
  case False
  from readClause_stored [OF this, of f] obtain d where
    "set d = set c" "formula (readClause c f) = formula f @ [d]"
    by blast
  then show ?thesis using cl_true_cong [of d c] by (auto simp: cnf_true_iff)
qed

lemma readClauses_wf: "wf_cnf f \<Longrightarrow> wf_cnf (readClauses cs f)"
  unfolding readClauses_def by (induction cs arbitrary: f) (simp_all add: readClause_wf)

lemma readClauses_sem:
  "cnf_true a (formula (readClauses cs f)) \<longleftrightarrow> cnf_true a (formula f) \<and> cnf_true a cs"
  unfolding readClauses_def
  by (induction cs arbitrary: f) (simp_all add: readClause_sem)

lemma wf_cnf_empty [simp]: "wf_cnf cnf_empty"
  by (simp add: wf_cnf_def cnf_empty_def)

end
