(* ===== verification/Blocked.thy ===== *)
theory Blocked
  imports Cnf_Formula
begin

text \<open>
  The blocked-clause test that \<open>cnftools/src/gates/OccurrenceList.h\<close> and \<open>BlockList.h\<close> share,
  in its two versions: the merge over sorted clauses that is compiled in
  (\<open>CLAUSES_ARE_SORTED\<close>) and the quadratic one of the \<open>#else\<close> branch.  They are proved equal
  on sorted clauses.  A blocked pair has a tautological resolvent, and a blocked set leaves
  the output variable a value under every assignment.
\<close>

section \<open>The two tests\<close>

text \<open>The merge: the arguments are the suffixes of \<open>c1\<close> from \<open>i\<close> and of \<open>c2\<close> from \<open>j\<close>.\<close>

fun isBlocked :: "lit \<Rightarrow> clause \<Rightarrow> clause \<Rightarrow> bool" where
  "isBlocked p (a # as) (b # bs) =
     (if a \<noteq> p \<and> a = lit_not b then True
      else if a < b then isBlocked p as (b # bs)
      else isBlocked p (a # as) bs)"
| "isBlocked p [] bs = False"
| "isBlocked p as [] = False"

text \<open>The \<open>#else\<close> version.\<close>

definition isBlocked_quadratic :: "lit \<Rightarrow> clause \<Rightarrow> clause \<Rightarrow> bool" where
  "isBlocked_quadratic p c1 c2 =
     list_ex (\<lambda>l1. l1 \<noteq> p \<and> list_ex (\<lambda>l2. l1 = lit_not l2) c2) c1"

lemma isBlocked_quadratic_iff:
  "isBlocked_quadratic p c1 c2 \<longleftrightarrow> (\<exists>l \<in> set c1. l \<noteq> p \<and> lit_not l \<in> set c2)"
  unfolding isBlocked_quadratic_def list_ex_iff by (metis lit_not_not)

lemma isBlocked_sound: "isBlocked p c1 c2 \<Longrightarrow> isBlocked_quadratic p c1 c2"
  by (induction p c1 c2 rule: isBlocked.induct)
    (auto simp: isBlocked_quadratic_iff split: if_splits)

lemma wf_clause_Cons: "wf_clause (a # c) \<Longrightarrow> wf_clause c"
  by (auto simp: wf_clause_def tautology_iff)

lemma isBlocked_complete:
  assumes "wf_clause c1" and "wf_clause c2"
    and "isBlocked_quadratic p c1 c2"
  shows "isBlocked p c1 c2"
  using assms
proof (induction p c1 c2 rule: isBlocked.induct)
  case (1 p a as b bs)
  show ?case
  proof (cases "a \<noteq> p \<and> a = lit_not b")
    case False
    obtain l where l: "l \<in> set (a # as)" "l \<noteq> p" "lit_not l \<in> set (b # bs)"
      using "1.prems"(3) by (auto simp: isBlocked_quadratic_iff)
    have ge: "a \<le> l" "b \<le> lit_not l"
      using l "1.prems"(1,2) by (auto simp: wf_clause_def)
    have taut: "lit_not l \<notin> set (a # as)"
      using l(1) "1.prems"(1) by (auto simp: wf_clause_def tautology_iff)
    show ?thesis
    proof (cases "a < b")
      case True
      have "l \<noteq> a"
      proof
        assume "l = a"
        then have "lit_not a \<noteq> b" using False l(2) by (metis lit_not_not)
        with ge \<open>l = a\<close> True lit_not_cases [of a] show False by auto
      qed
      then have "isBlocked_quadratic p as (b # bs)"
        using l unfolding isBlocked_quadratic_iff by auto
      with "1.IH"(1) [OF False True] "1.prems" wf_clause_Cons have "isBlocked p as (b # bs)" by simp
      with False True show ?thesis by simp
    next
      case ge': False
      have "lit_not l \<noteq> b"
      proof
        assume eq: "lit_not l = b"
        then have "l \<noteq> a" using False l(2) by (metis lit_not_not)
        with ge have "a < l" by simp
        with eq ge' lit_not_cases [of l] have "a = b" by auto
        with taut eq show False by simp
      qed
      then have "isBlocked_quadratic p (a # as) bs"
        using l unfolding isBlocked_quadratic_iff by auto
      with "1.IH"(2) [OF False ge'] "1.prems" wf_clause_Cons have "isBlocked p (a # as) bs" by simp
      with False ge' show ?thesis by simp
    qed
  qed simp
qed (auto simp: isBlocked_quadratic_iff)

theorem isBlocked_eq_quadratic_wf:
  "wf_clause c1 \<Longrightarrow> wf_clause c2 \<Longrightarrow> isBlocked p c1 c2 = isBlocked_quadratic p c1 c2"
  using isBlocked_sound isBlocked_complete by blast

section \<open>What a blocked set means\<close>

text \<open>
  \<open>set_out a p b\<close> is the assignment \<open>a\<close> with the literal \<open>p\<close> given the value \<open>b\<close>;
  \<open>rest_false a p c\<close>: every literal of \<open>c\<close> not over the variable of \<open>p\<close> is false, so \<open>c\<close>
  alone decides \<open>p\<close>.
\<close>

definition set_out :: "(var \<Rightarrow> bool) \<Rightarrow> lit \<Rightarrow> bool \<Rightarrow> var \<Rightarrow> bool" where
  "set_out a p b = a(lit_var p := (b \<noteq> lit_sign p))"

lemma lit_true_set_out_same [simp]: "lit_true (set_out a p b) p = b"
  unfolding lit_true_def set_out_def by auto

lemma lit_true_set_out_other [simp]:
  "lit_var l \<noteq> lit_var p \<Longrightarrow> lit_true (set_out a p b) l = lit_true a l"
  by (simp add: lit_true_def set_out_def)

lemma lit_true_set_out:
  "lit_true (set_out a p b) l =
     (if l = p then b else if l = lit_not p then \<not> b else lit_true a l)"
proof (cases "lit_var l = lit_var p")
  case True
  then consider "l = p" | "l = lit_not p" by (auto simp: lit_var_eq)
  then show ?thesis by cases (simp_all del: lit_not_not)
next
  case False
  then have "l \<noteq> p" "l \<noteq> lit_not p" by auto
  with False show ?thesis by simp
qed

definition blocked_set :: "lit \<Rightarrow> clause list \<Rightarrow> clause list \<Rightarrow> bool" where
  "blocked_set p bwd fwd \<longleftrightarrow> list_all (\<lambda>c1. list_all (isBlocked p c1) fwd) bwd"

lemma blocked_setD:
  assumes "blocked_set p bwd fwd" and "c1 \<in> set bwd" and "c2 \<in> set fwd"
  shows "\<exists>l \<in> set c1. l \<noteq> p \<and> lit_not l \<in> set c2"
proof -
  have "isBlocked p c1 c2" using assms by (auto simp: blocked_set_def list_all_iff)
  then show ?thesis using isBlocked_sound isBlocked_quadratic_iff by blast
qed

text \<open>
  The output of a blocked set is never over-constrained: the clauses that contain \<open>p\<close> and the
  clauses that contain its negation cannot exclude both values.
\<close>

lemma blocked_set_total:
  assumes "blocked_set p bwd fwd"
    and bwd: "\<And>c. c \<in> set bwd \<Longrightarrow> p \<in> set c \<and> wf_clause c"
    and fwd: "\<And>c. c \<in> set fwd \<Longrightarrow> lit_not p \<in> set c"
  shows "\<exists>b. cnf_true (set_out a p b) (bwd @ fwd)"
proof (cases "cnf_true (set_out a p True) fwd")
  case True
  have "cl_true (set_out a p True) c" if "c \<in> set bwd" for c
    using bwd [OF that] unfolding cl_true_iff by (intro bexI [of _ p]) simp_all
  with True have "cnf_true (set_out a p True) (bwd @ fwd)" by (simp add: cnf_true_iff ball_Un)
  then show ?thesis ..
next
  case False
  then obtain c2 where c2: "c2 \<in> set fwd" "\<not> cl_true (set_out a p True) c2"
    by (auto simp: cnf_true_iff)
  have "cl_true (set_out a p False) c" if c: "c \<in> set fwd" for c
    using fwd [OF c] unfolding cl_true_iff
    by (intro bexI [of _ "lit_not p"]) (simp_all add: lit_true_set_out)
  moreover have "cl_true (set_out a p False) c1" if c1: "c1 \<in> set bwd" for c1
  proof -
    obtain l where l: "l \<in> set c1" "l \<noteq> p" "lit_not l \<in> set c2"
      using blocked_setD [OF assms(1) c1 c2(1)] by blast
    have "l \<noteq> lit_not p"
      using bwd [OF c1] l(1) by (auto simp: wf_clause_def tautology_iff)
    with l(2) have v: "lit_var l \<noteq> lit_var p" by (simp add: lit_var_eq)
    have "\<not> lit_true (set_out a p True) (lit_not l)"
      using c2(2) l(3) by (auto simp: cl_true_iff)
    with v have "lit_true (set_out a p False) l" by simp
    with l(1) show ?thesis by (auto simp: cl_true_iff)
  qed
  ultimately have "cnf_true (set_out a p False) (bwd @ fwd)"
    by (simp add: cnf_true_iff ball_Un)
  then show ?thesis ..
qed

end
