(* ===== verification/Occurrence_List.thy ===== *)
theory Occurrence_List
  imports Blocked
begin

text \<open>
  \<open>class OccurrenceList\<close> of \<open>cnftools/src/gates/OccurrenceList.h\<close>.  A \<open>Cl*\<close> is the
  clause's address (its position in the formula, so distinct clauses have distinct
  addresses) with its literals.  Reads and writes of the vectors are checked: an access the
  C++ code would make outside a vector is \<open>Inl OutOfRange\<close>, and the lemmas show that it
  does not happen on the states the analyzer builds.
\<close>

datatype clp = Clp (cl_addr: nat) (cl_lits: clause)

record occ =
  index :: "clp list list"
  unitc :: "clp list"
  max_literal :: lit

section \<open>Operations\<close>

definition occ_push :: "clp \<Rightarrow> lit \<Rightarrow> clp list list \<Rightarrow> clp list list res" where
  "occ_push p l ix = bind_res (vec_get ix l) (\<lambda>xs. vec_set ix l (xs @ [p]))"

text \<open>One clause of the constructor's loop.\<close>

definition occ_add :: "clp \<Rightarrow> occ \<Rightarrow> occ res" where
  "occ_add p oc =
     (if length (cl_lits p) = 1 then Inr (oc\<lparr>unitc := unitc oc @ [p]\<rparr>)
      else bind_res (fold_res (occ_push p) (cl_lits p) (index oc))
             (\<lambda>ix. Inr (oc\<lparr>index := ix\<rparr>)))"

definition clause_pointers :: "cnf \<Rightarrow> clp list" where
  "clause_pointers f = map2 Clp [0 ..< length (formula f)] (formula f)"

definition occ_init :: "cnf \<Rightarrow> occ res" where
  "occ_init f =
     fold_res occ_add (clause_pointers f)
       \<lparr>index = replicate (2 + 2 * nVars f) [], unitc = [], max_literal = mk_lit (nVars f) True\<rparr>"

text \<open>
  \<open>remove\<close>: find the clause (the loop reads \<open>*it\<close> before it compares \<open>it\<close> with the end),
  move the entries behind it one place to the front, erase the last one.
\<close>

function occ_find :: "clp \<Rightarrow> clp list \<Rightarrow> nat \<Rightarrow> nat res" where
  "occ_find p xs i =
     (if i < length xs then (if xs ! i \<noteq> p then occ_find p xs (Suc i) else Inr i)
      else Inl OutOfRange)"
  by pat_completeness auto
termination
  by (relation "measure (\<lambda>(p, xs, i). length xs - i)") auto

function occ_shift :: "clp list \<Rightarrow> nat \<Rightarrow> clp list" where
  "occ_shift xs i =
     (if i + 1 < length xs then occ_shift (xs[i := xs ! (i + 1)]) (i + 1) else xs)"
  by pat_completeness auto
termination
  by (relation "measure (\<lambda>(xs, i). length xs - i)") auto

declare occ_find.simps [simp del] occ_shift.simps [simp del]

definition occ_remove_at :: "clp \<Rightarrow> lit \<Rightarrow> clp list list \<Rightarrow> clp list list res" where
  "occ_remove_at p l ix =
     bind_res (vec_get ix l) (\<lambda>xs.
       if xs \<noteq> [] then bind_res (occ_find p xs 0) (\<lambda>i. vec_set ix l (butlast (occ_shift xs i)))
       else Inr ix)"

definition occ_remove_clause :: "clp \<Rightarrow> clp list list \<Rightarrow> clp list list res" where
  "occ_remove_clause p ix = fold_res (occ_remove_at p) (cl_lits p) ix"

definition occ_remove :: "clp list \<Rightarrow> occ \<Rightarrow> occ res" where
  "occ_remove ps oc =
     bind_res (fold_res occ_remove_clause ps (index oc)) (\<lambda>ix. Inr (oc\<lparr>index := ix\<rparr>))"

definition occ_at :: "occ \<Rightarrow> lit \<Rightarrow> clp list res" where
  "occ_at oc l = vec_get (index oc) l"

definition occ_size :: "occ \<Rightarrow> nat" where
  "occ_size oc = length (index oc)"

definition isBlockedSet :: "lit \<Rightarrow> occ \<Rightarrow> bool res" where
  "isBlockedSet p oc =
     bind_res (occ_at oc p) (\<lambda>bs. bind_res (occ_at oc (lit_not p)) (\<lambda>fs.
       Inr (list_all (\<lambda>c1. list_all (\<lambda>c2. isBlocked p (cl_lits c1) (cl_lits c2)) fs) bs)))"

fun occ_skip :: "clp list list \<Rightarrow> nat \<Rightarrow> nat res" where
  "occ_skip ix 0 = Inr 0"
| "occ_skip ix (Suc m) =
     bind_res (vec_get ix (Suc m)) (\<lambda>xs. if length xs = 0 then occ_skip ix m else Inr (Suc m))"

definition estimateRoots :: "occ \<Rightarrow> (clp list \<times> occ) res" where
  "estimateRoots oc =
     (if length (unitc oc) > 0 then Inr (unitc oc, oc\<lparr>unitc := []\<rparr>)
      else bind_res (occ_skip (index oc) (max_literal oc)) (\<lambda>m.
        let oc1 = oc\<lparr>max_literal := m\<rparr> in
        if m > 0 then
          bind_res (vec_get (index oc) m) (\<lambda>result.
          bind_res (vec_set (index oc) m []) (\<lambda>ix.
          bind_res (occ_remove result (oc1\<lparr>index := ix\<rparr>)) (\<lambda>oc2. Inr (result, oc2))))
        else Inr ([], oc1)))"

section \<open>Removing one entry\<close>

lemma occ_find_ok:
  assumes "p \<in> set (drop i xs)" and "i \<le> length xs"
  shows "\<exists>k. occ_find p xs i = Inr k \<and> i \<le> k \<and> k < length xs \<and> xs ! k = p
           \<and> p \<notin> set (take (k - i) (drop i xs))"
  using assms
proof (induction p xs i rule: occ_find.induct)
  case (1 p xs i)
  have i: "i < length xs" using "1.prems" by (cases "i < length xs") auto
  then have d: "drop i xs = xs ! i # drop (Suc i) xs" by (simp add: Cons_nth_drop_Suc)
  show ?case
  proof (cases "xs ! i = p")
    case True
    with i show ?thesis by (intro exI [of _ i]) (simp add: occ_find.simps [of p xs i])
  next
    case False
    with "1.IH" [OF i] "1.prems" d i obtain k where
      k: "occ_find p xs (Suc i) = Inr k" "Suc i \<le> k" "k < length xs" "xs ! k = p"
        "p \<notin> set (take (k - Suc i) (drop (Suc i) xs))"
      by auto
    have "take (k - i) (drop i xs) = xs ! i # take (k - Suc i) (drop (Suc i) xs)"
      using k(2) d by (simp add: take_Cons' Suc_diff_le flip: diff_Suc_eq_diff_pred)
    with False k i show ?thesis
      by (intro exI [of _ k]) (auto simp: occ_find.simps [of p xs i])
  qed
qed

lemma occ_shift_butlast:
  "i < length xs \<Longrightarrow> butlast (occ_shift xs i) = take i xs @ drop (Suc i) xs"
proof (induction xs i rule: occ_shift.induct)
  case (1 xs i)
  show ?case
  proof (cases "i + 1 < length xs")
    case True
    have "butlast (occ_shift xs i) = butlast (occ_shift (xs[i := xs ! (i + 1)]) (i + 1))"
      using True by (simp add: occ_shift.simps [of xs i])
    also have "\<dots> = take (i + 1) (xs[i := xs ! (i + 1)]) @ drop (i + 2) (xs[i := xs ! (i + 1)])"
      using "1.IH" True by simp
    also have "\<dots> = take i xs @ xs ! (i + 1) # drop (i + 2) xs"
      using True by (simp add: take_Suc_conv_app_nth)
    also have "\<dots> = take i xs @ drop (Suc i) xs"
      using True by (simp add: Cons_nth_drop_Suc)
    finally show ?thesis .
  next
    case False
    with "1.prems" have "length xs = Suc i" by simp
    then show ?thesis
      by (simp add: occ_shift.simps [of xs i] butlast_conv_take)
  qed
qed

lemma remove1_take_drop:
  assumes "k < length xs" and "xs ! k = p" and "p \<notin> set (take k xs)"
  shows "take k xs @ drop (Suc k) xs = remove1 p xs"
  using assms by (metis id_take_nth_drop remove1.simps(2) remove1_append)

lemma occ_remove_at_ok:
  assumes "l < length ix" and "ix ! l = [] \<or> p \<in> set (ix ! l)"
  shows "occ_remove_at p l ix = Inr (ix[l := remove1 p (ix ! l)])"
proof (cases "ix ! l = []")
  case True
  with assms(1) show ?thesis
    by (simp add: occ_remove_at_def) (metis list_update_id)
next
  case False
  with assms obtain k where "occ_find p (ix ! l) 0 = Inr k" "k < length (ix ! l)"
    "ix ! l ! k = p" "p \<notin> set (take k (ix ! l))"
    using occ_find_ok [of p 0 "ix ! l"] by auto
  with False assms(1) show ?thesis
    by (simp add: occ_remove_at_def occ_shift_butlast remove1_take_drop)
qed

section \<open>Removing clauses\<close>

text \<open>The occurrences of \<open>p\<close> disappear from the lists of \<open>p\<close>'s literals, nothing else changes.\<close>

lemma occ_remove_clause_ok:
  assumes "distinct (cl_lits p)"
    and "\<And>l. l \<in> set (cl_lits p) \<Longrightarrow> l < length ix \<and> (ix ! l = [] \<or> p \<in> set (ix ! l))"
    and "\<And>l. l < length ix \<Longrightarrow> distinct (ix ! l)"
    and "\<And>l. l < length ix \<Longrightarrow> p \<in> set (ix ! l) \<Longrightarrow> l \<in> set (cl_lits p)"
  shows "\<exists>ix'. occ_remove_clause p ix = Inr ix' \<and> ix' = map (filter (\<lambda>q. q \<noteq> p)) ix"
proof -
  let ?I = "\<lambda>ys t. length t = length ix
      \<and> (\<forall>l < length ix. t ! l = (if l \<in> set ys then remove1 p (ix ! l) else ix ! l))"
  have "\<exists>t. fold_res (occ_remove_at p) (cl_lits p) ix = Inr t \<and> ?I (cl_lits p) t"
  proof (rule fold_res_total)
    show "?I [] ix" by simp
  next
    fix ys l zs t
    assume split: "cl_lits p = ys @ l # zs" and I: "?I ys t"
    have l: "l < length ix" "ix ! l = [] \<or> p \<in> set (ix ! l)"
      using assms(2) [of l] split by auto
    have "l \<notin> set ys" using assms(1) split by simp
    with l I have tl: "t ! l = ix ! l" by simp
    have "occ_remove_at p l t = Inr (t[l := remove1 p (t ! l)])"
      using l I tl by (intro occ_remove_at_ok) simp_all
    then show "\<exists>t'. occ_remove_at p l t = Inr t' \<and> ?I (ys @ [l]) t'"
      using I l tl by (auto simp: nth_list_update)
  qed
  then obtain t where t: "occ_remove_clause p ix = Inr t" "?I (cl_lits p) t"
    by (auto simp: occ_remove_clause_def)
  have "t ! l = filter (\<lambda>q. q \<noteq> p) (ix ! l)" if "l < length ix" for l
  proof (cases "l \<in> set (cl_lits p)")
    case True
    with t that assms(3) show ?thesis
      by (simp add: distinct_remove1_removeAll removeAll_filter_not_eq eq_commute)
  next
    case False
    with that assms(4) have "p \<notin> set (ix ! l)" by blast
    then have "filter (\<lambda>q. q \<noteq> p) (ix ! l) = ix ! l" by (auto intro: filter_True)
    with t that False show ?thesis by simp
  qed
  with t have "t = map (filter (\<lambda>q. q \<noteq> p)) ix" by (intro nth_equalityI) auto
  with t show ?thesis by blast
qed

text \<open>What the entries of the lists must satisfy for a list of clauses to be removable.\<close>

definition removable :: "clp list \<Rightarrow> clp list list \<Rightarrow> bool" where
  "removable ps ix \<longleftrightarrow>
     (\<forall>p \<in> set ps. distinct (cl_lits p)
        \<and> (\<forall>l \<in> set (cl_lits p). l < length ix \<and> (ix ! l = [] \<or> p \<in> set (ix ! l))))
     \<and> (\<forall>l < length ix. distinct (ix ! l) \<and> (\<forall>p \<in> set (ix ! l). l \<in> set (cl_lits p)))"

lemma removableI:
  assumes "\<And>p. p \<in> set ps \<Longrightarrow> distinct (cl_lits p)"
    and "\<And>p l. p \<in> set ps \<Longrightarrow> l \<in> set (cl_lits p) \<Longrightarrow> l < length ix"
    and "\<And>p l. p \<in> set ps \<Longrightarrow> l \<in> set (cl_lits p) \<Longrightarrow> ix ! l = [] \<or> p \<in> set (ix ! l)"
    and "\<And>l. l < length ix \<Longrightarrow> distinct (ix ! l)"
    and "\<And>p l. l < length ix \<Longrightarrow> p \<in> set (ix ! l) \<Longrightarrow> l \<in> set (cl_lits p)"
  shows "removable ps ix"
  unfolding removable_def using assms by blast

lemma removableD:
  assumes "removable ps ix"
  shows "p \<in> set ps \<Longrightarrow> distinct (cl_lits p)"
    and "p \<in> set ps \<Longrightarrow> l \<in> set (cl_lits p) \<Longrightarrow> l < length ix"
    and "p \<in> set ps \<Longrightarrow> l \<in> set (cl_lits p) \<Longrightarrow> ix ! l = [] \<or> p \<in> set (ix ! l)"
    and "l < length ix \<Longrightarrow> distinct (ix ! l)"
    and "l < length ix \<Longrightarrow> p \<in> set (ix ! l) \<Longrightarrow> l \<in> set (cl_lits p)"
  using assms unfolding removable_def by blast+

lemma removable_step:
  assumes r: "removable (p # ps) ix" and "p \<notin> set ps"
  shows "removable ps (map (filter (\<lambda>q. q \<noteq> p)) ix)"
proof (rule removableI)
  fix q l assume q: "q \<in> set ps" "l \<in> set (cl_lits q)"
  have l: "l < length ix"
    by (rule removableD(2) [OF r, of q]) (use q in auto)
  then show "l < length (map (filter (\<lambda>q. q \<noteq> p)) ix)" by simp
  have "ix ! l = [] \<or> q \<in> set (ix ! l)"
    by (rule removableD(3) [OF r]) (use q in auto)
  moreover have "q \<noteq> p" using assms(2) q by blast
  ultimately show "map (filter (\<lambda>q. q \<noteq> p)) ix ! l = []
      \<or> q \<in> set (map (filter (\<lambda>q. q \<noteq> p)) ix ! l)"
    using l by auto
qed (use removableD [OF r] in auto)

lemma occ_remove_list_ok:
  assumes "removable ps ix" and "distinct ps"
  shows "fold_res occ_remove_clause ps ix = Inr (map (filter (\<lambda>q. q \<notin> set ps)) ix)"
  using assms
proof (induction ps arbitrary: ix)
  case Nil
  then show ?case by simp
next
  case (Cons p ps)
  have "\<exists>ix'. occ_remove_clause p ix = Inr ix' \<and> ix' = map (filter (\<lambda>q. q \<noteq> p)) ix"
  proof (rule occ_remove_clause_ok)
    fix l assume "l \<in> set (cl_lits p)"
    then show "l < length ix \<and> (ix ! l = [] \<or> p \<in> set (ix ! l))"
      using removableD(2,3) [OF Cons.prems(1), of p l] by simp
  qed (use removableD [OF Cons.prems(1)] in auto)
  moreover have "removable ps (map (filter (\<lambda>q. q \<noteq> p)) ix)"
    using Cons.prems by (intro removable_step) auto
  ultimately have "fold_res occ_remove_clause (p # ps) ix
      = Inr (map (filter (\<lambda>q. q \<notin> set ps)) (map (filter (\<lambda>q. q \<noteq> p)) ix))"
    using Cons.IH Cons.prems(2) by auto
  also have "map (filter (\<lambda>q. q \<notin> set ps)) (map (filter (\<lambda>q. q \<noteq> p)) ix)
      = map (filter (\<lambda>q. q \<notin> set (p # ps))) ix"
    by (simp add: filter_filter)
  finally show ?case .
qed

section \<open>The index invariant\<close>

text \<open>
  \<open>occ_ok ix D\<close>: the lists of \<open>ix\<close> hold exactly the clauses of \<open>D\<close>, each once under each of
  its literals.
\<close>

definition occ_ok :: "clp list list \<Rightarrow> clp set \<Rightarrow> bool" where
  "occ_ok ix D \<longleftrightarrow>
     finite D
     \<and> (\<forall>p \<in> D. wf_clause (cl_lits p) \<and> cl_lits p \<noteq> [] \<and> (\<forall>l \<in> set (cl_lits p). l < length ix))
     \<and> (\<forall>l < length ix. distinct (ix ! l) \<and> set (ix ! l) = {p \<in> D. l \<in> set (cl_lits p)})"

lemma occ_okD:
  assumes "occ_ok ix D"
  shows "finite D"
    and "p \<in> D \<Longrightarrow> wf_clause (cl_lits p)"
    and "p \<in> D \<Longrightarrow> cl_lits p \<noteq> []"
    and "p \<in> D \<Longrightarrow> l \<in> set (cl_lits p) \<Longrightarrow> l < length ix"
    and "l < length ix \<Longrightarrow> distinct (ix ! l)"
    and "l < length ix \<Longrightarrow> set (ix ! l) = {p \<in> D. l \<in> set (cl_lits p)}"
  using assms by (auto simp: occ_ok_def)

lemma wf_clause_distinct: "wf_clause c \<Longrightarrow> distinct c"
  by (simp add: wf_clause_def sorted_wrt_less_distinct)

lemma occ_ok_removable:
  assumes "occ_ok ix D" and "set ps \<subseteq> D"
  shows "removable ps ix"
proof (rule removableI)
  fix p l assume "p \<in> set ps" "l \<in> set (cl_lits p)"
  with assms show "l < length ix" and "ix ! l = [] \<or> p \<in> set (ix ! l)"
    using occ_okD(4,6) [OF assms(1)] by auto
qed (use occ_okD [OF assms(1)] assms(2) wf_clause_distinct in auto)

lemma occ_ok_filter:
  assumes "occ_ok ix D"
  shows "occ_ok (map (filter (\<lambda>q. q \<notin> S)) ix) (D - S)"
  unfolding occ_ok_def using occ_okD [OF assms] by auto

lemma occ_remove_correct:
  assumes "occ_ok (index oc) D" and "set ps \<subseteq> D" and "distinct ps"
  shows "\<exists>oc'. occ_remove ps oc = Inr oc' \<and> occ_ok (index oc') (D - set ps)
           \<and> unitc oc' = unitc oc \<and> max_literal oc' = max_literal oc
           \<and> length (index oc') = length (index oc)"
  using occ_remove_list_ok [OF occ_ok_removable [OF assms(1,2)] assms(3)]
    occ_ok_filter [OF assms(1), of "set ps"]
  by (simp add: occ_remove_def)

section \<open>Building the index\<close>

lemma occ_push_all_ok:
  assumes "distinct ls" and "\<And>l. l \<in> set ls \<Longrightarrow> l < length ix"
  shows "\<exists>ix'. fold_res (occ_push p) ls ix = Inr ix' \<and> length ix' = length ix
           \<and> (\<forall>l < length ix. ix' ! l = (if l \<in> set ls then ix ! l @ [p] else ix ! l))"
proof -
  let ?I = "\<lambda>ys t. length t = length ix
      \<and> (\<forall>l < length ix. t ! l = (if l \<in> set ys then ix ! l @ [p] else ix ! l))"
  have "\<exists>t. fold_res (occ_push p) ls ix = Inr t \<and> ?I ls t"
  proof (rule fold_res_total)
    fix ys l zs t
    assume split: "ls = ys @ l # zs" and I: "?I ys t"
    have l: "l < length ix" using assms(2) split by simp
    have "l \<notin> set ys" using assms(1) split by simp
    with I l have tl: "t ! l = ix ! l" by simp
    have "occ_push p l t = Inr (t[l := t ! l @ [p]])" using I l by (simp add: occ_push_def)
    then show "\<exists>t'. occ_push p l t = Inr t' \<and> ?I (ys @ [l]) t'"
      using I l tl by (auto simp: nth_list_update)
  qed simp
  then show ?thesis by blast
qed

text \<open>
  The invariant of the whole object: every indexed clause has at least two literals, and the
  lists above \<open>max_literal\<close> are empty.
\<close>

definition occ_inv :: "occ \<Rightarrow> clp set \<Rightarrow> bool" where
  "occ_inv oc D \<longleftrightarrow>
     occ_ok (index oc) D \<and> (\<forall>p \<in> D. 2 \<le> length (cl_lits p))
     \<and> max_literal oc < length (index oc)
     \<and> (\<forall>l. max_literal oc < l \<and> l < length (index oc) \<longrightarrow> index oc ! l = [])"

definition pointers_inv :: "nat \<Rightarrow> clp list \<Rightarrow> bool" where
  "pointers_inv n ps \<longleftrightarrow>
     distinct ps \<and> (\<forall>p \<in> set ps. wf_clause (cl_lits p) \<and> (\<forall>l \<in> set (cl_lits p). l < 2 + 2 * n))"

lemma length_clause_pointers [simp]: "length (clause_pointers f) = length (formula f)"
  by (simp add: clause_pointers_def)

lemma map_clause_pointers [simp]:
  "map cl_addr (clause_pointers f) = [0 ..< length (formula f)]"
  "map cl_lits (clause_pointers f) = formula f"
  by (auto simp: clause_pointers_def intro!: nth_equalityI)

lemma pointers_inv_init:
  assumes "wf_cnf f"
  shows "pointers_inv (nVars f) (clause_pointers f)"
proof -
  have "distinct (map cl_addr (clause_pointers f))" by simp
  then have "distinct (clause_pointers f)" by (rule distinct_map [THEN iffD1, THEN conjunct1])
  moreover have "wf_clause (cl_lits p) \<and> (\<forall>l \<in> set (cl_lits p). l < 2 + 2 * nVars f)"
    if "p \<in> set (clause_pointers f)" for p
  proof -
    have "cl_lits ` set (clause_pointers f) = set (formula f)"
      by (metis map_clause_pointers(2) set_map)
    with that have c: "cl_lits p \<in> set (formula f)" by blast
    have "l < 2 + 2 * nVars f" if "l \<in> set (cl_lits p)" for l
    proof -
      have "lit_var l \<le> variables f" using assms c that by (auto simp: wf_cnf_def)
      then show ?thesis by (simp add: lit_var_def nVars_def)
    qed
    with assms c show ?thesis by (auto simp: wf_cnf_def)
  qed
  ultimately show ?thesis by (auto simp: pointers_inv_def)
qed

lemma occ_ok_insert:
  assumes ok: "occ_ok ix D" and p: "p \<notin> D" "wf_clause (cl_lits p)" "cl_lits p \<noteq> []"
    and "\<And>l. l \<in> set (cl_lits p) \<Longrightarrow> l < length ix"
    and len: "length ix' = length ix"
    and ix': "\<And>l. l < length ix \<Longrightarrow> ix' ! l = (if l \<in> set (cl_lits p) then ix ! l @ [p] else ix ! l)"
  shows "occ_ok ix' (insert p D)"
proof -
  have "distinct (ix' ! l) \<and> set (ix' ! l) = {q \<in> insert p D. l \<in> set (cl_lits q)}"
    if l: "l < length ix'" for l
    using l len ix' [of l] occ_okD(5,6) [OF ok, of l] p(1) by auto
  then show ?thesis
    unfolding occ_ok_def using occ_okD(1-4) [OF ok] assms(2-6) by auto
qed

lemma occ_init_fold:
  assumes "pointers_inv n ps"
  defines "s \<equiv> \<lparr>index = replicate (2 + 2 * n) [], unitc = [], max_literal = mk_lit n True\<rparr>"
  shows "\<exists>oc. fold_res occ_add ps s = Inr oc
           \<and> occ_ok (index oc) {p \<in> set ps. 2 \<le> length (cl_lits p)}
           \<and> unitc oc = filter (\<lambda>p. length (cl_lits p) = 1) ps
           \<and> length (index oc) = 2 + 2 * n \<and> max_literal oc = mk_lit n True"
proof -
  let ?I = "\<lambda>ys (oc :: occ). occ_ok (index oc) {p \<in> set ys. 2 \<le> length (cl_lits p)}
      \<and> unitc oc = filter (\<lambda>p. length (cl_lits p) = 1) ys
      \<and> length (index oc) = 2 + 2 * n \<and> max_literal oc = mk_lit n True"
  have "\<exists>oc. fold_res occ_add ps s = Inr oc \<and> ?I ps oc"
  proof (rule fold_res_total)
    show "?I [] s" by (simp add: s_def occ_ok_def del: replicate_Suc)
  next
    fix ys p zs and oc :: occ
    assume split: "ps = ys @ p # zs" and I: "?I ys oc"
    have p: "wf_clause (cl_lits p)" "\<And>l. l \<in> set (cl_lits p) \<Longrightarrow> l < length (index oc)"
      "p \<notin> set ys"
      using assms(1) split I by (auto simp: pointers_inv_def)
    show "\<exists>oc'. occ_add p oc = Inr oc' \<and> ?I (ys @ [p]) oc'"
    proof (cases "length (cl_lits p) = 1")
      case True
      then have "{q \<in> set (ys @ [p]). 2 \<le> length (cl_lits q)} = {q \<in> set ys. 2 \<le> length (cl_lits q)}"
        by auto
      with True I show ?thesis by (simp add: occ_add_def)
    next
      case False
      obtain ix' where ix': "fold_res (occ_push p) (cl_lits p) (index oc) = Inr ix'"
        "length ix' = length (index oc)"
        "\<And>l. l < length (index oc) \<Longrightarrow>
          ix' ! l = (if l \<in> set (cl_lits p) then index oc ! l @ [p] else index oc ! l)"
        using occ_push_all_ok [OF wf_clause_distinct [OF p(1)] p(2)] by blast
      have "occ_ok ix' {q \<in> set (ys @ [p]). 2 \<le> length (cl_lits q)}"
      proof (cases "cl_lits p = []")
        case True
        then have "{q \<in> set (ys @ [p]). 2 \<le> length (cl_lits q)}
            = {q \<in> set ys. 2 \<le> length (cl_lits q)}" by auto
        moreover have "ix' = index oc"
          using ix'(2,3) True by (intro nth_equalityI) auto
        ultimately show ?thesis using I by simp
      next
        case ne: False
        then have "length (cl_lits p) \<noteq> 0" by simp
        with False have "2 \<le> length (cl_lits p)" by linarith
        then have "{q \<in> set (ys @ [p]). 2 \<le> length (cl_lits q)}
            = insert p {q \<in> set ys. 2 \<le> length (cl_lits q)}" by auto
        moreover have "occ_ok ix' (insert p {q \<in> set ys. 2 \<le> length (cl_lits q)})"
          using I p ne ix' by (intro occ_ok_insert [of "index oc"]) auto
        ultimately show ?thesis by simp
      qed
      with False I ix' show ?thesis by (simp add: occ_add_def)
    qed
  qed
  then show ?thesis by blast
qed

lemma occ_init_ok:
  assumes "wf_cnf f"
  shows "\<exists>oc. occ_init f = Inr oc
           \<and> occ_inv oc {p \<in> set (clause_pointers f). 2 \<le> length (cl_lits p)}
           \<and> unitc oc = filter (\<lambda>p. length (cl_lits p) = 1) (clause_pointers f)
           \<and> length (index oc) = 2 + 2 * nVars f"
  using occ_init_fold [OF pointers_inv_init [OF assms]]
  by (fastforce simp: occ_init_def occ_inv_def mk_lit_def)

section \<open>Root selection and the blocked-set test\<close>

lemma occ_skip_ok:
  assumes "m < length ix"
  shows "\<exists>k \<le> m. occ_skip ix m = Inr k \<and> (\<forall>l. k < l \<and> l \<le> m \<longrightarrow> ix ! l = [])
           \<and> (0 < k \<longrightarrow> ix ! k \<noteq> [])"
  using assms
proof (induction m)
  case (Suc m)
  show ?case
  proof (cases "ix ! Suc m = []")
    case True
    from Suc obtain k where
      "k \<le> m" "occ_skip ix m = Inr k" "\<forall>l. k < l \<and> l \<le> m \<longrightarrow> ix ! l = []"
      "0 < k \<longrightarrow> ix ! k \<noteq> []"
      by auto
    with True Suc.prems show ?thesis
      by (intro exI [of _ k]) (auto simp: le_Suc_eq)
  next
    case False
    with Suc.prems show ?thesis by (intro exI [of _ "Suc m"]) auto
  qed
qed simp

lemma two_lits_pos:
  assumes "wf_clause c" and "2 \<le> length c"
  shows "\<exists>l \<in> set c. 0 < l"
proof (rule ccontr)
  assume "\<not> (\<exists>l \<in> set c. 0 < l)"
  then have "set c \<subseteq> {0}" by auto
  then have "card (set c) \<le> 1" by (metis card.empty card_insert_disjoint card_mono
      empty_iff finite.intros One_nat_def)
  with assms show False by (simp add: distinct_card wf_clause_distinct)
qed

lemma occ_inv_empty_lists:
  assumes "occ_inv oc D" and "\<And>l. 0 < l \<Longrightarrow> l < length (index oc) \<Longrightarrow> index oc ! l = []"
  shows "D = {}"
proof (rule ccontr)
  assume "D \<noteq> {}"
  then obtain p where p: "p \<in> D" by blast
  have ok: "occ_ok (index oc) D" using assms(1) by (simp add: occ_inv_def)
  obtain l where l: "l \<in> set (cl_lits p)" "0 < l"
    using two_lits_pos [of "cl_lits p"] occ_okD(2) [OF ok p] p assms(1) by (auto simp: occ_inv_def)
  then have "p \<in> set (index oc ! l)" using occ_okD(4,6) [OF ok] p by blast
  moreover have "index oc ! l = []" using assms(2) l occ_okD(4) [OF ok p] by blast
  ultimately show False by simp
qed

lemma estimateRoots_units:
  "unitc oc \<noteq> [] \<Longrightarrow> estimateRoots oc = Inr (unitc oc, oc\<lparr>unitc := []\<rparr>)"
  by (simp add: estimateRoots_def)

text \<open>The clauses of the selected list leave every list; \<open>remove\<close> meets only entries that exist.\<close>

lemma removable_cleared:
  assumes ok: "occ_ok ix D" and m: "m < length ix"
  shows "removable (ix ! m) (ix[m := []])"
proof (rule removableI)
  fix p l assume p: "p \<in> set (ix ! m)" "l \<in> set (cl_lits p)"
  then have D: "p \<in> D" using occ_okD(6) [OF ok m] by simp
  then have l: "l < length ix" using occ_okD(4) [OF ok] p by blast
  then show "l < length (ix[m := []])" by simp
  have "p \<in> set (ix ! l)" using occ_okD(6) [OF ok l] D p by simp
  then show "ix[m := []] ! l = [] \<or> p \<in> set (ix[m := []] ! l)"
    using l by (cases "l = m") simp_all
next
  fix p assume "p \<in> set (ix ! m)"
  then show "distinct (cl_lits p)"
    using occ_okD(2,6) [OF ok] m by (auto intro: wf_clause_distinct)
qed (use occ_okD [OF ok] m in \<open>auto simp: nth_list_update split: if_splits\<close>)

lemma occ_ok_cleared:
  assumes ok: "occ_ok ix D" and m: "m < length ix"
  shows "occ_ok (map (filter (\<lambda>q. q \<notin> set (ix ! m))) (ix[m := []])) (D - set (ix ! m))"
proof -
  have "map (filter (\<lambda>q. q \<notin> set (ix ! m))) (ix[m := []]) = map (filter (\<lambda>q. q \<notin> set (ix ! m))) ix"
    using m by (intro nth_equalityI) (auto simp: nth_list_update filter_empty_conv)
  then show ?thesis using occ_ok_filter [OF ok] by simp
qed

lemma estimateRoots_index:
  assumes inv: "occ_inv oc D" and u: "unitc oc = []"
  shows "\<exists>r oc'. estimateRoots oc = Inr (r, oc') \<and> distinct r \<and> set r \<subseteq> D
           \<and> occ_inv oc' (D - set r) \<and> unitc oc' = []
           \<and> length (index oc') = length (index oc) \<and> (r = [] \<longrightarrow> D = {})"
proof -
  let ?ix = "index oc"
  have ok: "occ_ok ?ix D" and mx: "max_literal oc < length ?ix"
    and above: "\<And>l. max_literal oc < l \<Longrightarrow> l < length ?ix \<Longrightarrow> ?ix ! l = []"
    and two: "\<And>p. p \<in> D \<Longrightarrow> 2 \<le> length (cl_lits p)"
    using inv by (auto simp: occ_inv_def)
  obtain m where m: "m \<le> max_literal oc" "occ_skip ?ix (max_literal oc) = Inr m"
      "\<And>l. m < l \<Longrightarrow> l \<le> max_literal oc \<Longrightarrow> ?ix ! l = []" "0 < m \<Longrightarrow> ?ix ! m \<noteq> []"
    using occ_skip_ok [OF mx] by blast
  have empty: "?ix ! l = []" if "m < l" "l < length ?ix" for l
    using m(3) above that by (cases "l \<le> max_literal oc") auto
  show ?thesis
  proof (cases "0 < m")
    case False
    with empty have "D = {}" by (intro occ_inv_empty_lists [OF inv]) auto
    with False inv u m empty mx show ?thesis
      by (auto simp: estimateRoots_def occ_inv_def)
  next
    case True
    let ?r = "?ix ! m" and ?ix' = "map (filter (\<lambda>q. q \<notin> set (?ix ! m))) (?ix[m := []])"
    have ml: "m < length ?ix" using m(1) mx by simp
    have r: "distinct ?r" "set ?r \<subseteq> D" using occ_okD(5,6) [OF ok ml] by auto
    have "fold_res occ_remove_clause ?r (?ix[m := []]) = Inr ?ix'"
      using removable_cleared [OF ok ml] r(1) by (rule occ_remove_list_ok)
    then have est: "estimateRoots oc = Inr (?r, oc\<lparr>max_literal := m, index := ?ix'\<rparr>)"
      using True u m(2) ml by (simp add: estimateRoots_def occ_remove_def)
    have "occ_inv (oc\<lparr>max_literal := m, index := ?ix'\<rparr>) (D - set ?r)"
      using occ_ok_cleared [OF ok ml] two empty ml
      by (simp add: occ_inv_def nth_list_update)
    with est r m(4) [OF True] u show ?thesis by simp
  qed
qed

lemma isBlockedSet_ok:
  assumes "p < length (index oc)" and "lit_not p < length (index oc)"
  shows "isBlockedSet p oc
    = Inr (blocked_set p (map cl_lits (index oc ! p)) (map cl_lits (index oc ! lit_not p)))"
  using assms by (simp add: isBlockedSet_def occ_at_def blocked_set_def list_all_iff)

lemma occ_remove_inv:
  assumes inv: "occ_inv oc D" and "set ps \<subseteq> D" and "distinct ps"
  shows "\<exists>oc'. occ_remove ps oc = Inr oc' \<and> occ_inv oc' (D - set ps) \<and> unitc oc' = unitc oc
           \<and> length (index oc') = length (index oc)"
proof -
  have ok: "occ_ok (index oc) D" using inv by (simp add: occ_inv_def)
  have "fold_res occ_remove_clause ps (index oc)
      = Inr (map (filter (\<lambda>q. q \<notin> set ps)) (index oc))"
    using occ_ok_removable [OF ok assms(2)] assms(3) by (rule occ_remove_list_ok)
  then show ?thesis
    using inv occ_ok_filter [OF ok, of "set ps"] by (simp add: occ_remove_def occ_inv_def)
qed

end
