(* ===== verification/Gate_Formula.thy ===== *)
theory Gate_Formula
  imports Occurrence_List Decimal
begin

text \<open>
  \<open>enum GateType\<close>, \<open>struct Gate\<close> and \<open>class GateFormula\<close> of \<open>cnftools/src/gates/GateFormula.h\<close>:
  the roots, the gates by output variable, the monotonicity marks and the remainder, and the
  operations that add a root and a gate.
\<close>

datatype gate_type = NONE | GENERIC | MONO | AND | OR | TRIV | EQIV | FULL

record gate =
  gtype :: gate_type
  out :: lit
  fwd :: "clp list"
  bwd :: "clp list"
  notMono :: bool
  inp :: "lit list"

definition gate_default :: gate where
  "gate_default = \<lparr>gtype = NONE, out = lit_Undef, fwd = [], bwd = [], notMono = False, inp = []\<rparr>"

definition isDefined :: "gate \<Rightarrow> bool" where
  "isDefined g \<longleftrightarrow> out g \<noteq> lit_Undef"

definition hasNonMonotonicParent :: "gate \<Rightarrow> bool" where
  "hasNonMonotonicParent g = notMono g"

record gate_formula =
  roots :: "clp list"
  inputs :: "bool list"
  direct :: "bool list"
  gates :: "gate list"
  remainder :: "clp list"
  artificialRoot :: bool
  verbose :: nat

definition gf_init :: "nat \<Rightarrow> nat \<Rightarrow> gate_formula" where
  "gf_init n vb =
     \<lparr>roots = [], inputs = replicate (2 + 2 * n) False, direct = replicate (2 + 2 * n) False,
      gates = replicate (2 + n) gate_default, remainder = [], artificialRoot = False,
      verbose = vb\<rparr>"

section \<open>Roots and gates\<close>

definition mark_input :: "lit \<Rightarrow> gate_formula \<Rightarrow> gate_formula res" where
  "mark_input l g = bind_res (vec_set (inputs g) l True) (\<lambda>v. Inr (g\<lparr>inputs := v\<rparr>))"

definition mark_direct :: "lit \<Rightarrow> gate_formula \<Rightarrow> gate_formula res" where
  "mark_direct l g = bind_res (vec_set (direct g) l True) (\<lambda>v. Inr (g\<lparr>direct := v\<rparr>))"

definition addRoot :: "clp \<Rightarrow> gate_formula \<Rightarrow> gate_formula res" where
  "addRoot p g = fold_res mark_input (cl_lits p) (g\<lparr>roots := roots g @ [p]\<rparr>)"

definition isNestedMonotonic :: "lit \<Rightarrow> gate_formula \<Rightarrow> bool res" where
  "isNestedMonotonic l g =
     bind_res (vec_get (inputs g) l) (\<lambda>a.
       if \<not> a then Inr True
       else bind_res (vec_get (inputs g) (lit_not l)) (\<lambda>b. Inr (\<not> b)))"

text \<open>One round of the loop over \<open>gate.inp\<close>; \<open>nm\<close> is \<open>gate.notMono\<close>.\<close>

definition mark_gate_input :: "bool \<Rightarrow> lit \<Rightarrow> gate_formula \<Rightarrow> gate_formula res" where
  "mark_gate_input nm l g =
     bind_res (mark_input l g) (\<lambda>g. bind_res (mark_direct l g) (\<lambda>g.
       if nm then mark_input (lit_not l) g else Inr g))"

definition addGate ::
  "gate_type \<Rightarrow> lit \<Rightarrow> clp list \<Rightarrow> clp list \<Rightarrow> lit list \<Rightarrow> gate_formula \<Rightarrow> gate_formula res" where
  "addGate ty p fw bw ins g =
     bind_res (vec_get (gates g) (lit_var p)) (\<lambda>_.
     bind_res (isNestedMonotonic p g) (\<lambda>mono.
       let ga = \<lparr>gtype = ty, out = p, fwd = fw, bwd = bw, notMono = \<not> mono, inp = ins\<rparr>
       in fold_res (mark_gate_input (notMono ga)) (inp ga)
            (g\<lparr>gates := (gates g)[lit_var p := ga]\<rparr>)))"

text \<open>What \<open>addGate\<close> prints when \<open>verbose_\<close> is set: the record \<open>select_aux.py\<close> reads.\<close>

definition show_lit :: "lit \<Rightarrow> string" where
  "show_lit l = (if lit_sign l then ''-'' else []) @ show_nat (lit_var l)"

definition show_clause :: "clause \<Rightarrow> string" where
  "show_clause c = concat (map (\<lambda>l. show_lit l @ '' '') c)"

definition gate_type_code :: "gate_type \<Rightarrow> nat" where
  "gate_type_code t =
     (if t = MONO then 10 else if t = GENERIC then 0 else if t = TRIV then 1
      else if t = AND then 2 else if t = OR then 3 else 4)"

definition gate_report :: "gate \<Rightarrow> string" where
  "gate_report g =
     ''GateType '' @ show_nat (gate_type_code (gtype g)) @ '' OutLit '' @ show_lit (out g)
     @ [newline]
     @ concat (map (\<lambda>c. show_clause (cl_lits c) @ ''0 '') (fwd g)) @ [newline]
     @ concat (map (\<lambda>c. show_clause (cl_lits c) @ ''0 '') (bwd g)) @ [newline]
     @ ''endG'' @ [newline]"

section \<open>Queries\<close>

definition getGate :: "lit \<Rightarrow> gate_formula \<Rightarrow> gate res" where
  "getGate p g = vec_get (gates g) (lit_var p)"

definition isGateOutput :: "lit \<Rightarrow> gate_formula \<Rightarrow> bool res" where
  "isGateOutput p g = bind_res (vec_get (gates g) (lit_var p)) (\<lambda>ga. Inr (isDefined ga))"

definition gf_nVars :: "gate_formula \<Rightarrow> nat" where
  "gf_nVars g = length (gates g)"

definition nRoots :: "gate_formula \<Rightarrow> nat" where
  "nRoots g = length (roots g)"

definition nGates :: "gate_formula \<Rightarrow> nat" where
  "nGates g = length (filter isDefined (gates g))"

definition nMonotonicGates :: "gate_formula \<Rightarrow> nat" where
  "nMonotonicGates g = length (filter (\<lambda>x. isDefined x \<and> \<not> hasNonMonotonicParent x) (gates g))"

definition getRoots :: "gate_formula \<Rightarrow> lit list" where
  "getRoots g = concat (map cl_lits (roots g))"

text \<open>\<open>getRoot\<close> asserts that there is one root with one literal.\<close>

definition getRoot :: "gate_formula \<Rightarrow> lit res" where
  "getRoot g =
     (case roots g of
        [r] \<Rightarrow> (case cl_lits r of [l] \<Rightarrow> Inr l | _ \<Rightarrow> Inl Abort)
      | _ \<Rightarrow> Inl Abort)"

section \<open>Frame and effect lemmas\<close>

lemma mark_input_ok:
  "l < length (inputs g) \<Longrightarrow> mark_input l g = Inr (g\<lparr>inputs := (inputs g)[l := True]\<rparr>)"
  by (simp add: mark_input_def)

lemma mark_direct_ok:
  "l < length (direct g) \<Longrightarrow> mark_direct l g = Inr (g\<lparr>direct := (direct g)[l := True]\<rparr>)"
  by (simp add: mark_direct_def)

text \<open>
  \<open>gf_frame g g'\<close>: only marks were set (none was cleared), everything else is as before.
\<close>

definition gf_frame :: "gate_formula \<Rightarrow> gate_formula \<Rightarrow> bool" where
  "gf_frame g g' \<longleftrightarrow>
     roots g' = roots g \<and> gates g' = gates g \<and> remainder g' = remainder g
     \<and> artificialRoot g' = artificialRoot g \<and> verbose g' = verbose g
     \<and> length (inputs g') = length (inputs g) \<and> length (direct g') = length (direct g)
     \<and> (\<forall>l < length (inputs g). inputs g ! l \<longrightarrow> inputs g' ! l)
     \<and> (\<forall>l < length (direct g). direct g ! l \<longrightarrow> direct g' ! l)"

lemma gf_frame_refl [simp]: "gf_frame g g"
  by (simp add: gf_frame_def)

lemma gf_frame_trans [trans]: "gf_frame g g' \<Longrightarrow> gf_frame g' g'' \<Longrightarrow> gf_frame g g''"
  by (simp add: gf_frame_def)

lemma gf_frame_simps:
  assumes "gf_frame g g'"
  shows "roots g' = roots g" "gates g' = gates g" "remainder g' = remainder g"
    "artificialRoot g' = artificialRoot g" "verbose g' = verbose g"
    "length (inputs g') = length (inputs g)" "length (direct g') = length (direct g)"
  using assms by (simp_all add: gf_frame_def)

lemma gf_frame_mono:
  assumes "gf_frame g g'"
  shows "l < length (inputs g) \<Longrightarrow> inputs g ! l \<Longrightarrow> inputs g' ! l"
    and "l < length (direct g) \<Longrightarrow> direct g ! l \<Longrightarrow> direct g' ! l"
  using assms by (simp_all add: gf_frame_def)

lemma mark_input_frame:
  assumes "l < length (inputs g)"
  shows "\<exists>g'. mark_input l g = Inr g' \<and> gf_frame g g' \<and> inputs g' ! l"
  using assms by (simp add: mark_input_ok gf_frame_def nth_list_update)

lemma mark_direct_frame:
  assumes "l < length (direct g)"
  shows "\<exists>g'. mark_direct l g = Inr g' \<and> gf_frame g g' \<and> direct g' ! l"
  using assms by (simp add: mark_direct_ok gf_frame_def nth_list_update)

text \<open>A loop that marks: every element's own effect survives to the end.\<close>

lemma fold_res_frame:
  assumes "\<And>l g'. l \<in> set ls \<Longrightarrow> gf_frame g g' \<Longrightarrow> \<exists>g''. f l g' = Inr g'' \<and> gf_frame g' g'' \<and> Q l g''"
    and "\<And>l g' g''. l \<in> set ls \<Longrightarrow> gf_frame g g' \<Longrightarrow> gf_frame g' g'' \<Longrightarrow> Q l g' \<Longrightarrow> Q l g''"
  shows "\<exists>g'. fold_res f ls g = Inr g' \<and> gf_frame g g' \<and> (\<forall>l \<in> set ls. Q l g')"
proof -
  have "\<exists>t. fold_res f ls g = Inr t \<and> (gf_frame g t \<and> (\<forall>l \<in> set ls. Q l t))"
  proof (rule fold_res_total [where I = "\<lambda>ys t. gf_frame g t \<and> (\<forall>l \<in> set ys. Q l t)"])
    fix ys x zs t
    assume split: "ls = ys @ x # zs" and I: "gf_frame g t \<and> (\<forall>l \<in> set ys. Q l t)"
    then obtain t' where t': "f x t = Inr t'" "gf_frame t t'" "Q x t'"
      using assms(1) [of x t] by auto
    have "Q l t'" if "l \<in> set ys" for l
      using assms(2) [of l t t'] I t'(2) that split by auto
    with t' I gf_frame_trans [of g t t']
    show "\<exists>t'. f x t = Inr t' \<and> gf_frame g t' \<and> (\<forall>l \<in> set (ys @ [x]). Q l t')" by auto
  qed simp
  then show ?thesis by blast
qed

text \<open>The marks one gate input receives.\<close>

definition gate_input_marks :: "bool \<Rightarrow> lit \<Rightarrow> gate_formula \<Rightarrow> bool" where
  "gate_input_marks nm l g \<longleftrightarrow> inputs g ! l \<and> direct g ! l \<and> (nm \<longrightarrow> inputs g ! lit_not l)"

text \<open>Sizes fixed by the constructor.\<close>

definition gf_sized :: "nat \<Rightarrow> gate_formula \<Rightarrow> bool" where
  "gf_sized n g \<longleftrightarrow> length (inputs g) = 2 + 2 * n \<and> length (direct g) = 2 + 2 * n
     \<and> length (gates g) = 2 + n"

lemma gf_sized_init [simp]: "gf_sized n (gf_init n vb)"
  by (simp add: gf_sized_def gf_init_def)

lemma gf_sized_frame: "gf_sized n g \<Longrightarrow> gf_frame g g' \<Longrightarrow> gf_sized n g'"
  by (simp add: gf_sized_def gf_frame_def)

lemma lit_not_bound: "l < 2 + 2 * n \<Longrightarrow> lit_not l < 2 + 2 * n"
  unfolding lit_not_def by presburger

lemma lit_var_bound: "l < 2 + 2 * n \<Longrightarrow> lit_var l < 2 + n"
  by (simp add: lit_var_def)

lemma mark_gate_input_ok:
  assumes "gf_sized n g" and "l < 2 + 2 * n"
  shows "\<exists>g'. mark_gate_input nm l g = Inr g' \<and> gf_frame g g' \<and> gate_input_marks nm l g'"
proof -
  obtain g1 where g1: "mark_input l g = Inr g1" "gf_frame g g1" "inputs g1 ! l"
    using mark_input_frame [of l g] assms by (auto simp: gf_sized_def)
  have s1: "gf_sized n g1" using gf_sized_frame assms(1) g1(2) .
  obtain g2 where g2: "mark_direct l g1 = Inr g2" "gf_frame g1 g2" "direct g2 ! l"
    using mark_direct_frame [of l g1] assms(2) s1 by (auto simp: gf_sized_def)
  have s2: "gf_sized n g2" using gf_sized_frame s1 g2(2) .
  have i2: "inputs g2 ! l" using gf_frame_mono(1) [OF g2(2)] g1(3) s1 assms(2)
    by (simp add: gf_sized_def)
  have f2: "gf_frame g g2" using g1(2) g2(2) by (rule gf_frame_trans)
  show ?thesis
  proof (cases nm)
    case False
    with g1(1) g2 i2 f2 show ?thesis by (simp add: mark_gate_input_def gate_input_marks_def)
  next
    case True
    obtain g3 where g3: "mark_input (lit_not l) g2 = Inr g3" "gf_frame g2 g3" "inputs g3 ! lit_not l"
      using mark_input_frame [of "lit_not l" g2] s2 lit_not_bound [OF assms(2)]
      by (auto simp: gf_sized_def)
    have "inputs g3 ! l" "direct g3 ! l"
      using gf_frame_mono [OF g3(2), of l] i2 g2(3) s2 assms(2) by (simp_all add: gf_sized_def)
    moreover have "gf_frame g g3" using f2 g3(2) by (rule gf_frame_trans)
    ultimately show ?thesis
      using True g1(1) g2(1) g3 by (simp add: mark_gate_input_def gate_input_marks_def)
  qed
qed

lemma addRoot_ok:
  assumes "gf_sized n g" and "\<And>l. l \<in> set (cl_lits p) \<Longrightarrow> l < 2 + 2 * n"
  shows "\<exists>g'. addRoot p g = Inr g' \<and> gf_frame (g\<lparr>roots := roots g @ [p]\<rparr>) g'
           \<and> (\<forall>l \<in> set (cl_lits p). inputs g' ! l)"
  unfolding addRoot_def
proof (rule fold_res_frame)
  let ?g = "g\<lparr>roots := roots g @ [p]\<rparr>"
  fix l g' assume l: "l \<in> set (cl_lits p)" and f: "gf_frame ?g g'"
  then show "\<exists>g''. mark_input l g' = Inr g'' \<and> gf_frame g' g'' \<and> inputs g'' ! l"
    using assms by (intro mark_input_frame) (auto simp: gf_sized_def gf_frame_def)
  fix g'' assume "gf_frame g' g''" "inputs g' ! l"
  then show "inputs g'' ! l"
    using gf_frame_mono(1) [of g' g'' l] l f assms by (auto simp: gf_sized_def gf_frame_def)
qed

lemma isNestedMonotonic_ok:
  assumes "gf_sized n g" and "l < 2 + 2 * n"
  shows "isNestedMonotonic l g = Inr (\<not> inputs g ! l \<or> \<not> inputs g ! lit_not l)"
  using assms lit_not_bound [OF assms(2)] by (simp add: isNestedMonotonic_def gf_sized_def)

text \<open>
  Adding a gate stores it under its output variable, marks its inputs, and, when the output
  is used in both polarities, marks the negated inputs too.
\<close>

lemma addGate_ok:
  assumes "gf_sized n g" and "p < 2 + 2 * n" and "\<And>l. l \<in> set ins \<Longrightarrow> l < 2 + 2 * n"
  shows "\<exists>g' nm. addGate ty p fw bw ins g = Inr g'
           \<and> nm = (inputs g ! p \<and> inputs g ! lit_not p)
           \<and> gf_frame (g\<lparr>gates := (gates g)[lit_var p :=
                \<lparr>gtype = ty, out = p, fwd = fw, bwd = bw, notMono = nm, inp = ins\<rparr>]\<rparr>) g'
           \<and> (\<forall>l \<in> set ins. gate_input_marks nm l g')"
proof -
  let ?nm = "inputs g ! p \<and> inputs g ! lit_not p"
  let ?ga = "\<lparr>gtype = ty, out = p, fwd = fw, bwd = bw, notMono = ?nm, inp = ins\<rparr>"
  let ?g = "g\<lparr>gates := (gates g)[lit_var p := ?ga]\<rparr>"
  have v: "lit_var p < length (gates g)"
    using assms(1,2) lit_var_bound by (simp add: gf_sized_def)
  have eq: "addGate ty p fw bw ins g = fold_res (mark_gate_input ?nm) ins ?g"
    using v isNestedMonotonic_ok [OF assms(1,2)] by (simp add: addGate_def)
  have "\<exists>g'. fold_res (mark_gate_input ?nm) ins ?g = Inr g' \<and> gf_frame ?g g'
      \<and> (\<forall>l \<in> set ins. gate_input_marks ?nm l g')"
  proof (rule fold_res_frame)
    fix l g' assume l: "l \<in> set ins" and f: "gf_frame ?g g'"
    have s: "gf_sized n g'" using assms(1) f by (simp add: gf_sized_def gf_frame_def)
    show "\<exists>g''. mark_gate_input ?nm l g' = Inr g'' \<and> gf_frame g' g'' \<and> gate_input_marks ?nm l g''"
      using mark_gate_input_ok [OF s assms(3) [OF l]] .
    fix g'' assume "gf_frame g' g''" "gate_input_marks ?nm l g'"
    then show "gate_input_marks ?nm l g''"
      using gf_frame_mono [of g' g''] s assms(3) [OF l] lit_not_bound [OF assms(3) [OF l]]
      by (simp add: gate_input_marks_def gf_sized_def)
  qed
  with eq show ?thesis by auto
qed

end
