(* ===== verification/Gate_Patterns.thy ===== *)
theory Gate_Patterns
  imports Gate_Formula
begin

text \<open>
  The gate tests of \<open>cnftools/src/gates/GateAnalyzer.h\<close> that look at the two clause lists of a
  candidate only: the input literals, the comparison of the input variables, the clause
  patterns and the solver call.  The lemmas say which tests imply that the clauses define
  the output as a function of the inputs (\<open>functional\<close>).
\<close>

section \<open>Input literals\<close>

function gil_advance :: "lit list \<Rightarrow> nat \<Rightarrow> lit \<Rightarrow> nat" where
  "gil_advance ins pos l =
     (if pos < length ins \<and> ins ! pos < l then gil_advance ins (Suc pos) l else pos)"
  by pat_completeness auto
termination
  by (relation "measure (\<lambda>(ins, pos, l). length ins - pos)") auto

declare gil_advance.simps [simp del]

text \<open>
  The append branch: copy up to the output literal, skip one literal, copy the rest.  The
  copying loop has no bound of its own, so it reads the end of the clause if no literal
  reaches the output.
\<close>

fun gil_append :: "lit \<Rightarrow> lit list \<Rightarrow> clause \<Rightarrow> lit list res" where
  "gil_append q ins [] = Inl OutOfRange"
| "gil_append q ins (l # ls) = (if l < q then gil_append q (ins @ [l]) ls else Inr (ins @ ls))"

fun gil_clause :: "lit \<Rightarrow> lit list \<Rightarrow> nat \<Rightarrow> clause \<Rightarrow> lit list res" where
  "gil_clause q ins pos [] = Inr ins"
| "gil_clause q ins pos (l # ls) =
     (if l \<noteq> q then
        let pos = gil_advance ins pos l in
        if pos = length ins then gil_append q ins (l # ls)
        else if l < ins ! pos then
          gil_clause q (take pos ins @ l # drop pos ins) (Suc pos) ls
        else gil_clause q ins (Suc pos) ls
      else gil_clause q ins pos ls)"

definition getInputLiterals :: "lit \<Rightarrow> clp list \<Rightarrow> lit list res" where
  "getInputLiterals q cs = fold_res (\<lambda>c ins. gil_clause q ins 0 (cl_lits c)) cs []"

section \<open>Input variables\<close>

definition input_vars :: "lit \<Rightarrow> clp list \<Rightarrow> var set" where
  "input_vars q cs = set (map lit_var (filter (\<lambda>l. l \<noteq> q) (concat (map cl_lits cs))))"

text \<open>The second loop returns 0 at the first new variable that \<open>fwd_vars\<close> lacks.\<close>

fun bwd_vars_within :: "var set \<Rightarrow> var set \<Rightarrow> lit list \<Rightarrow> var set option" where
  "bwd_vars_within fv bv [] = Some bv"
| "bwd_vars_within fv bv (l # ls) =
     (if lit_var l \<notin> bv \<and> lit_var l \<notin> fv then None
      else bwd_vars_within fv (insert (lit_var l) bv) ls)"

definition constrainSameInputVariables :: "lit \<Rightarrow> clp list \<Rightarrow> clp list \<Rightarrow> nat" where
  "constrainSameInputVariables p fw bw =
     (let fv = input_vars (lit_not p) fw in
      case bwd_vars_within fv {} (filter (\<lambda>l. l \<noteq> p) (concat (map cl_lits bw))) of
        None \<Rightarrow> 0
      | Some bv \<Rightarrow> if card bv < card fv then 0 else card fv)"

section \<open>Clause patterns\<close>

definition fixedClauseSize :: "clp list \<Rightarrow> nat \<Rightarrow> bool" where
  "fixedClauseSize f n = list_all (\<lambda>c. length (cl_lits c) = n) f"

text \<open>\<open>uint64_t(1) << input_size\<close> is defined for shifts below 64.\<close>

definition shift_one :: "nat \<Rightarrow> nat res" where
  "shift_one n = (if n < 64 then Inr (2 ^ n) else Inl OutOfRange)"

definition fPattern :: "lit \<Rightarrow> clp list \<Rightarrow> clp list \<Rightarrow> nat \<Rightarrow> gate_type res" where
  "fPattern p fw bw n =
     (if length fw = 1 \<and> fixedClauseSize bw 2 then Inr (if n = 1 then TRIV else OR)
      else if length bw = 1 \<and> fixedClauseSize fw 2 then Inr AND
      else bind_res (shift_one n) (\<lambda>m.
        if length fw + length bw = m \<and> fixedClauseSize fw (n + 1) \<and> fixedClauseSize bw (n + 1)
        then Inr (if n = 2 \<and> length fw = length bw then EQIV else FULL)
        else Inr NONE))"

section \<open>The solver call\<close>

text \<open>
  The IPASIR solver is not part of the repository.  Its state is what the interface
  documents: the clauses added, the clause being added, the assumptions of the next call.
  \<open>sat cls as\<close> is the answer of \<open>ipasir_solve\<close> (10 satisfiable, 20 unsatisfiable).
\<close>

record ipasir =
  ip_clauses :: "int list list"
  ip_pending :: "int list"
  ip_assumed :: "int list"

type_synonym solver = "int list list \<Rightarrow> int list \<Rightarrow> int"

definition ipasir_init :: ipasir where
  "ipasir_init = \<lparr>ip_clauses = [], ip_pending = [], ip_assumed = []\<rparr>"

definition ipasir_add :: "int \<Rightarrow> ipasir \<Rightarrow> ipasir" where
  "ipasir_add x s =
     (if x = 0 then s\<lparr>ip_clauses := ip_clauses s @ [ip_pending s], ip_pending := []\<rparr>
      else s\<lparr>ip_pending := ip_pending s @ [x]\<rparr>)"

definition ipasir_assume :: "int \<Rightarrow> ipasir \<Rightarrow> ipasir" where
  "ipasir_assume x s = s\<lparr>ip_assumed := ip_assumed s @ [x]\<rparr>"

definition ipasir_solve :: "solver \<Rightarrow> ipasir \<Rightarrow> int \<times> ipasir" where
  "ipasir_solve sat s = (sat (ip_clauses s) (ip_assumed s), s\<lparr>ip_assumed := []\<rparr>)"

definition sem_lit :: "lit \<Rightarrow> lit \<Rightarrow> int" where
  "sem_lit p l =
     (if lit_var l \<noteq> lit_var p then toDimacs l else toDimacs (mk_lit (lit_var l) False))"

definition sem_add_clause :: "lit \<Rightarrow> clp \<Rightarrow> ipasir \<Rightarrow> ipasir" where
  "sem_add_clause p c s = ipasir_add 0 (fold (\<lambda>l. ipasir_add (sem_lit p l)) (cl_lits c) s)"

definition fSemantic ::
  "solver \<Rightarrow> lit \<Rightarrow> clp list \<Rightarrow> clp list \<Rightarrow> ipasir \<Rightarrow> gate_type \<times> ipasir" where
  "fSemantic sat p fw bw s =
     (let s1 = fold (sem_add_clause p) bw (fold (sem_add_clause p) fw s);
          s2 = ipasir_assume (toDimacs (mk_lit (lit_var p) True)) s1;
          (result, s3) = ipasir_solve sat s2;
          s4 = ipasir_add (toDimacs (mk_lit (lit_var p) False)) s3
      in (if result = 20 then GENERIC else NONE, s4))"

section \<open>Functional definition of the output\<close>

definition functional :: "lit \<Rightarrow> clause list \<Rightarrow> bool" where
  "functional p cs \<longleftrightarrow> (\<forall>a. \<exists>!b. cnf_true (set_out a p b) cs)"

text \<open>\<open>rest_false a p c\<close>: all literals of \<open>c\<close> over other variables are false under \<open>a\<close>.\<close>

definition rest_false :: "(var \<Rightarrow> bool) \<Rightarrow> lit \<Rightarrow> clause \<Rightarrow> bool" where
  "rest_false a p c \<longleftrightarrow> (\<forall>l \<in> set c. lit_var l \<noteq> lit_var p \<longrightarrow> \<not> lit_true a l)"

text \<open>The clause lists a candidate output comes with.\<close>

definition gate_lists :: "lit \<Rightarrow> clause list \<Rightarrow> clause list \<Rightarrow> bool" where
  "gate_lists p fw bw \<longleftrightarrow>
     (\<forall>c \<in> set fw. wf_clause c \<and> lit_not p \<in> set c) \<and> (\<forall>c \<in> set bw. wf_clause c \<and> p \<in> set c)"

lemma gate_listsD:
  assumes "gate_lists p fw bw"
  shows "c \<in> set fw \<Longrightarrow> wf_clause c" "c \<in> set fw \<Longrightarrow> lit_not p \<in> set c"
    "c \<in> set bw \<Longrightarrow> wf_clause c" "c \<in> set bw \<Longrightarrow> p \<in> set c"
  using assms by (simp_all add: gate_lists_def)

lemma wf_clause_no_compl: "wf_clause c \<Longrightarrow> l \<in> set c \<Longrightarrow> lit_not l \<notin> set c"
  by (auto simp: wf_clause_def tautology_iff)

lemma wf_clause_other_var:
  assumes "wf_clause c" and "p \<in> set c" and "l \<in> set c" and "l \<noteq> p"
  shows "lit_var l \<noteq> lit_var p"
  using assms wf_clause_no_compl [OF assms(1,2)] by (auto simp: lit_var_eq)

text \<open>A false rest fixes the output; with a blocked set the output is then a function.\<close>

lemma functionalI:
  assumes "gate_lists p fw bw" and "blocked_set p bw fw"
    and cover: "\<And>a. \<exists>c \<in> set (bw @ fw). rest_false a p c"
  shows "functional p (bw @ fw)"
  unfolding functional_def
proof (intro allI ex_ex1I)
  fix a
  show "\<exists>b. cnf_true (set_out a p b) (bw @ fw)"
    using assms(1,2) by (intro blocked_set_total) (auto simp: gate_lists_def)
next
  fix a b b'
  assume b: "cnf_true (set_out a p b) (bw @ fw)" and b': "cnf_true (set_out a p b') (bw @ fw)"
  obtain c where c: "c \<in> set (bw @ fw)" "rest_false a p c" using cover by blast
  have val: "if c \<in> set bw then d else \<not> d" if d: "cnf_true (set_out a p d) (bw @ fw)" for d
  proof -
    obtain l where l: "l \<in> set c" "lit_true (set_out a p d) l"
      using d c(1) by (auto simp: cnf_true_iff cl_true_iff)
    have "lit_var l = lit_var p"
      using l c(2) by (cases "lit_var l = lit_var p") (auto simp: rest_false_def)
    then consider "l = p" | "l = lit_not p" by (auto simp: lit_var_eq)
    then show ?thesis
    proof cases
      case 1
      then have "d" using l by simp
      moreover have "c \<in> set bw"
      proof (rule ccontr)
        assume "c \<notin> set bw"
        then have "c \<in> set fw" using c(1) by simp
        then show False
          using 1 l gate_listsD(1,2) [OF assms(1)] wf_clause_no_compl by blast
      qed
      ultimately show ?thesis by simp
    next
      case 2
      then have "\<not> d" using l by (simp add: lit_true_set_out)
      moreover have "c \<notin> set bw"
        using 2 l gate_listsD(3,4) [OF assms(1)] wf_clause_no_compl by blast
      ultimately show ?thesis by simp
    qed
  qed
  show "b = b'" using val [OF b] val [OF b'] by (auto split: if_splits)
qed

section \<open>Same input variables\<close>

abbreviation contents :: "clp list \<Rightarrow> clause list" where
  "contents cs \<equiv> map cl_lits cs"

definition other_vars :: "lit \<Rightarrow> clause list \<Rightarrow> var set" where
  "other_vars q cs = {lit_var l | l c. c \<in> set cs \<and> l \<in> set c \<and> l \<noteq> q}"

lemma input_vars_eq: "input_vars q cs = other_vars q (contents cs)"
  unfolding input_vars_def other_vars_def by auto

lemma finite_other_vars [simp]: "finite (other_vars q (contents cs))"
  by (simp add: input_vars_eq [symmetric] input_vars_def)

lemma bwd_vars_within_Some:
  "bwd_vars_within fv bv ls = Some r \<Longrightarrow> r = bv \<union> lit_var ` set ls \<and> lit_var ` set ls \<subseteq> bv \<union> fv"
proof (induction ls arbitrary: bv)
  case (Cons l ls)
  then have "bwd_vars_within fv (insert (lit_var l) bv) ls = Some r" and
    l: "lit_var l \<in> bv \<union> fv"
    by (auto split: if_splits)
  from Cons.IH [OF this(1)] l show ?case by auto
qed simp

lemma constrainSameInputVariables_pos:
  assumes "constrainSameInputVariables p fw bw = n" and "0 < n"
  shows "other_vars (lit_not p) (contents fw) = other_vars p (contents bw)"
    and "card (other_vars p (contents bw)) = n"
proof -
  let ?F = "other_vars (lit_not p) (contents fw)" and ?B = "other_vars p (contents bw)"
  obtain bv where bv: "bwd_vars_within ?F {} (filter (\<lambda>l. l \<noteq> p) (concat (contents bw))) = Some bv"
    and c: "\<not> card bv < card ?F" "card ?F = n"
    using assms by (auto simp: constrainSameInputVariables_def input_vars_eq Let_def
        split: option.splits if_splits)
  have "bv = lit_var ` set (filter (\<lambda>l. l \<noteq> p) (concat (contents bw)))" "bv \<subseteq> ?F"
    using bwd_vars_within_Some [OF bv] by auto
  moreover have "lit_var ` set (filter (\<lambda>l. l \<noteq> p) (concat (contents bw))) = ?B"
    by (simp flip: input_vars_eq add: input_vars_def)
  ultimately have B: "bv = ?B" "bv \<subseteq> ?F" by simp_all
  with c have "bv = ?F" by (intro card_seteq) auto
  with B c show "?F = ?B" "card ?B = n" by simp_all
qed

section \<open>The or and and patterns\<close>

lemma two_literal_clause:
  assumes "wf_clause c" and "length c = 2" and "p \<in> set c"
  obtains m where "set c = {p, m}" and "lit_var m \<noteq> lit_var p"
proof -
  obtain x y where c: "c = [x, y]"
    using assms(2) by (auto simp: length_Suc_conv numeral_2_eq_2)
  have "x \<noteq> y" using wf_clause_distinct [OF assms(1)] c by simp
  with assms(3) c that [of x] that [of y] show ?thesis
    using wf_clause_other_var [OF assms(1,3)] by auto
qed

lemma other_varsI: "c \<in> set cs \<Longrightarrow> l \<in> set c \<Longrightarrow> l \<noteq> q \<Longrightarrow> lit_var l \<in> other_vars q cs"
  by (auto simp: other_vars_def)

lemma or_pattern_functional:
  assumes g: "gate_lists p [c0] bw" and bl: "blocked_set p bw [c0]"
    and two: "\<And>c. c \<in> set bw \<Longrightarrow> length c = 2"
    and vars: "other_vars (lit_not p) [c0] = other_vars p bw"
  shows "functional p (bw @ [c0])"
proof (rule functionalI [OF g bl])
  fix a
  note gD = gate_listsD [OF g]
  show "\<exists>c \<in> set (bw @ [c0]). rest_false a p c"
  proof (cases "rest_false a p c0")
    case True
    then show ?thesis by (intro bexI [of _ c0]) auto
  next
    case False
    then obtain l where l: "l \<in> set c0" "lit_var l \<noteq> lit_var p" "lit_true a l"
      by (auto simp: rest_false_def)
    then have "lit_var l \<in> other_vars (lit_not p) [c0]" by (intro other_varsI) auto
    then have "lit_var l \<in> other_vars p bw" using vars by simp
    then obtain c m where c: "c \<in> set bw" "m \<in> set c" "m \<noteq> p" "lit_var m = lit_var l"
      by (auto simp: other_vars_def)
    obtain m' where m': "set c = {p, m'}" "lit_var m' \<noteq> lit_var p"
      using two_literal_clause [OF gD(3) two gD(4)] c(1) by blast
    then have mm: "m = m'" using c by auto
    have "lit_not m \<in> set c0"
      using blocked_setD [OF bl c(1), of c0] m' mm by auto
    with wf_clause_no_compl [OF gD(1), of c0 l] l(1) have "lit_not m = l"
      using c(4) by (auto simp: lit_var_eq)
    with l(3) have "\<not> lit_true a m" by auto
    then have "rest_false a p c" using m' mm by (auto simp: rest_false_def)
    with c(1) show ?thesis by (intro bexI [of _ c]) auto
  qed
qed

lemma and_pattern_functional:
  assumes g: "gate_lists p fw [c0]" and bl: "blocked_set p [c0] fw"
    and two: "\<And>c. c \<in> set fw \<Longrightarrow> length c = 2"
    and vars: "other_vars (lit_not p) fw = other_vars p [c0]"
  shows "functional p ([c0] @ fw)"
proof (rule functionalI [OF g bl])
  fix a
  note gD = gate_listsD [OF g]
  show "\<exists>c \<in> set ([c0] @ fw). rest_false a p c"
  proof (cases "rest_false a p c0")
    case True
    then show ?thesis by (intro bexI [of _ c0]) auto
  next
    case False
    then obtain l where l: "l \<in> set c0" "lit_var l \<noteq> lit_var p" "lit_true a l"
      by (auto simp: rest_false_def)
    then have "lit_var l \<in> other_vars p [c0]" by (intro other_varsI) auto
    then have "lit_var l \<in> other_vars (lit_not p) fw" using vars by simp
    then obtain c m where c: "c \<in> set fw" "m \<in> set c" "m \<noteq> lit_not p" "lit_var m = lit_var l"
      by (auto simp: other_vars_def)
    obtain m' where m': "set c = {lit_not p, m'}" "lit_var m' \<noteq> lit_var (lit_not p)"
      using two_literal_clause [OF gD(1) two gD(2)] c(1) by blast
    then have mm: "m = m'" using c by auto
    obtain k where k: "k \<in> set c0" "k \<noteq> p" "lit_not k \<in> set c"
      using blocked_setD [OF bl _ c(1), of c0] by auto
    then have "lit_not k = m" using m' mm by auto
    then have "lit_not m = k" by auto
    with k(1) have "lit_not m \<in> set c0" by simp
    with wf_clause_no_compl [OF gD(3), of c0 l] l(1) have "lit_not m = l"
      using c(4) by (auto simp: lit_var_eq)
    with l(3) have "\<not> lit_true a m" by auto
    then have "rest_false a p c" using m' mm by (auto simp: rest_false_def)
    with c(1) show ?thesis by (intro bexI [of _ c]) auto
  qed
qed

section \<open>The full pattern\<close>

text \<open>
  The input assignment a clause forbids, as the set of its variables that occur negatively;
  for clauses over the same variables it determines the clause's input part.
\<close>

definition neg_vars :: "lit \<Rightarrow> clause \<Rightarrow> var set" where
  "neg_vars p c = {lit_var l | l. l \<in> set c \<and> lit_var l \<noteq> lit_var p \<and> lit_sign l}"

text \<open>\<open>full_over p V c\<close>: besides the output, \<open>c\<close> has exactly one literal of each variable of \<open>V\<close>.\<close>

definition full_over :: "lit \<Rightarrow> var set \<Rightarrow> clause \<Rightarrow> bool" where
  "full_over p V c \<longleftrightarrow> wf_clause c \<and> lit_var p \<notin> V \<and> lit_var ` set c = insert (lit_var p) V"

lemma full_overI:
  assumes wf: "wf_clause c" and q: "q \<in> set c" "lit_var q = lit_var p"
    and len: "length c = card V + 1" and "finite V"
    and sub: "\<And>l. l \<in> set c \<Longrightarrow> l \<noteq> q \<Longrightarrow> lit_var l \<in> V"
    and nV: "lit_var p \<notin> V"
  shows "full_over p V c"
proof -
  have inj: "inj_on lit_var (set c)"
    using wf by (auto simp: inj_on_def lit_var_eq wf_clause_def tautology_iff)
  have "card (lit_var ` set c) = card V + 1"
    using card_image [OF inj] distinct_card [OF wf_clause_distinct [OF wf]] len by simp
  moreover have "card (insert (lit_var p) V) = card V + 1" using \<open>finite V\<close> nV by simp
  moreover have "lit_var ` set c \<subseteq> insert (lit_var p) V" using sub q by blast
  ultimately have "lit_var ` set c = insert (lit_var p) V"
    using \<open>finite V\<close> by (intro card_subset_eq) auto
  with wf nV show ?thesis by (simp add: full_over_def)
qed

lemma full_over_lit:
  assumes "full_over p V c" and "v \<in> V"
  shows "mk_lit v True \<in> set c \<longleftrightarrow> v \<in> neg_vars p c"
    and "mk_lit v False \<in> set c \<longleftrightarrow> v \<notin> neg_vars p c"
proof -
  have ne: "v \<noteq> lit_var p" using assms by (auto simp: full_over_def)
  have "v \<in> lit_var ` set c" using assms by (auto simp: full_over_def)
  then obtain l where l: "l \<in> set c" "lit_var l = v" by auto
  have t: "mk_lit v True \<in> set c \<longleftrightarrow> v \<in> neg_vars p c"
  proof
    assume "mk_lit v True \<in> set c"
    with ne show "v \<in> neg_vars p c"
      unfolding neg_vars_def by (intro CollectI exI [of _ "mk_lit v True"]) simp
  next
    assume "v \<in> neg_vars p c"
    then obtain l where "l \<in> set c" "v = lit_var l" "lit_sign l" by (auto simp: neg_vars_def)
    moreover have "mk_lit (lit_var l) (lit_sign l) = l" by simp
    ultimately show "mk_lit v True \<in> set c" by metis
  qed
  show "mk_lit v True \<in> set c \<longleftrightarrow> v \<in> neg_vars p c" by (rule t)
  have "mk_lit v True \<in> set c \<or> mk_lit v False \<in> set c"
    using l mk_lit_var_sign [of l] by (cases "lit_sign l") auto
  moreover have "\<not> (mk_lit v True \<in> set c \<and> mk_lit v False \<in> set c)"
    using assms(1) wf_clause_no_compl [of c "mk_lit v True"] by (auto simp: full_over_def)
  ultimately show "mk_lit v False \<in> set c \<longleftrightarrow> v \<notin> neg_vars p c" using t by blast
qed

lemma neg_vars_subset: "full_over p V c \<Longrightarrow> neg_vars p c \<subseteq> V"
  by (auto simp: full_over_def neg_vars_def)

lemma full_over_rest_false:
  assumes f: "full_over p V c" and eq: "{v \<in> V. a v} = neg_vars p c"
  shows "rest_false a p c"
  unfolding rest_false_def
proof (intro ballI impI)
  fix l assume l: "l \<in> set c" "lit_var l \<noteq> lit_var p"
  then have V: "lit_var l \<in> V" using f by (auto simp: full_over_def)
  have "lit_sign l = (lit_var l \<in> neg_vars p c)"
  proof (cases "lit_sign l")
    case True
    with l show ?thesis by (auto simp: neg_vars_def)
  next
    case False
    then have "mk_lit (lit_var l) False = l" using mk_lit_var_sign [of l] by simp
    with l have "mk_lit (lit_var l) False \<in> set c" by simp
    with False full_over_lit(2) [OF f V] show ?thesis by simp
  qed
  also have "\<dots> = a (lit_var l)" using V unfolding eq [symmetric] by simp
  finally show "\<not> lit_true a l" by (simp add: lit_true_def)
qed

lemma full_over_eq:
  assumes "full_over p V c" and "full_over p V d" and "neg_vars p c = neg_vars p d"
    and "lit_var l \<in> V"
  shows "l \<in> set c \<longleftrightarrow> l \<in> set d"
  using full_over_lit [OF assms(1,4)] full_over_lit [OF assms(2,4)] assms(3)
    mk_lit_var_sign [of l]
  by (cases "lit_sign l") (auto simp del: mk_lit_var_sign)

lemma wf_clause_set_eq: "wf_clause c \<Longrightarrow> wf_clause d \<Longrightarrow> set c = set d \<Longrightarrow> c = d"
  unfolding wf_clause_def by (meson strict_sorted_equal)

lemma neg_vars_inj:
  assumes g: "gate_lists p fw bw" and bl: "blocked_set p bw fw"
    and full: "\<And>c. c \<in> set (bw @ fw) \<Longrightarrow> full_over p V c"
  shows "inj_on (neg_vars p) (set (bw @ fw))"
proof (rule inj_onI)
  fix c d assume cd: "c \<in> set (bw @ fw)" "d \<in> set (bw @ fw)" and eq: "neg_vars p c = neg_vars p d"
  note same = full_over_eq [OF full [OF cd(1)] full [OF cd(2)] eq]
  have mixed: False if xy: "x \<in> set bw" "y \<in> set fw" "neg_vars p x = neg_vars p y" for x y
  proof -
    obtain l where l: "l \<in> set x" "l \<noteq> p" "lit_not l \<in> set y"
      using blocked_setD [OF bl xy(1,2)] by blast
    have "lit_var l \<noteq> lit_var p"
      using wf_clause_other_var [OF gate_listsD(3) [OF g xy(1)] gate_listsD(4) [OF g xy(1)]] l
      by blast
    then have V: "lit_var l \<in> V"
      using full [of x] xy(1) l(1) by (auto simp: full_over_def)
    have "l \<in> set y"
      using full_over_eq [OF full [of x] full [of y] xy(3) V] xy(1,2) l by simp
    with l(3) show False
      using wf_clause_no_compl [OF gate_listsD(1) [OF g xy(2)]] by blast
  qed
  have out_lit: "l \<in> set c \<longleftrightarrow> l \<in> set d" if v: "lit_var l = lit_var p"
      and side: "c \<in> set bw \<and> d \<in> set bw \<or> c \<in> set fw \<and> d \<in> set fw" for l
  proof -
    have "l = p \<or> l = lit_not p" using v by (simp add: lit_var_eq)
    with side show ?thesis
      using gate_listsD [OF g] wf_clause_no_compl by (metis lit_not_not)
  qed
  have side: "c \<in> set bw \<and> d \<in> set bw \<or> c \<in> set fw \<and> d \<in> set fw"
    using cd mixed eq by (metis Un_iff set_append)
  have "set c = set d"
  proof (intro set_eqI)
    fix l
    show "l \<in> set c \<longleftrightarrow> l \<in> set d"
    proof (cases "lit_var l \<in> V")
      case True
      then show ?thesis by (rule same)
    next
      case False
      then have "l \<in> set c \<or> l \<in> set d \<Longrightarrow> lit_var l = lit_var p"
        using full [OF cd(1)] full [OF cd(2)] by (auto simp: full_over_def)
      with out_lit [OF _ side] show ?thesis by blast
    qed
  qed
  then show "c = d"
    using full [OF cd(1)] full [OF cd(2)] wf_clause_set_eq by (simp add: full_over_def)
qed

lemma full_pattern_functional:
  assumes g: "gate_lists p fw bw" and bl: "blocked_set p bw fw"
    and full: "\<And>c. c \<in> set (bw @ fw) \<Longrightarrow> full_over p V c" and "finite V"
    and dist: "distinct (bw @ fw)" and len: "length fw + length bw = 2 ^ card V"
  shows "functional p (bw @ fw)"
proof (rule functionalI [OF g bl])
  fix a :: "var \<Rightarrow> bool"
  have "card (neg_vars p ` set (bw @ fw)) = card (set (bw @ fw))"
    using neg_vars_inj [OF g bl full] by (rule card_image)
  also have "\<dots> = 2 ^ card V" using distinct_card [OF dist] len by simp
  also have "\<dots> = card (Pow V)" by (simp add: card_Pow \<open>finite V\<close>)
  finally have "card (neg_vars p ` set (bw @ fw)) = card (Pow V)" .
  moreover have "neg_vars p ` set (bw @ fw) \<subseteq> Pow V" using neg_vars_subset [OF full] by blast
  ultimately have "neg_vars p ` set (bw @ fw) = Pow V"
    using \<open>finite V\<close> by (intro card_subset_eq) auto
  then have "{v \<in> V. a v} \<in> neg_vars p ` set (bw @ fw)" by auto
  then obtain c where "c \<in> set (bw @ fw)" "{v \<in> V. a v} = neg_vars p c" by auto
  then show "\<exists>c \<in> set (bw @ fw). rest_false a p c"
    using full_over_rest_false [OF full] by blast
qed

section \<open>The pattern test is sound\<close>

lemma fixedClauseSize_iff: "fixedClauseSize f n \<longleftrightarrow> (\<forall>c \<in> set (contents f). length c = n)"
  by (simp add: fixedClauseSize_def list_all_iff)

lemma fPattern_functional:
  assumes g: "gate_lists p (contents fw) (contents bw)"
    and bl: "blocked_set p (contents bw) (contents fw)"
    and n: "constrainSameInputVariables p fw bw = n" "0 < n"
    and dist: "distinct (contents bw @ contents fw)"
    and ty: "fPattern p fw bw n = Inr ty" "ty \<noteq> NONE"
  shows "functional p (contents bw @ contents fw)"
proof -
  let ?F = "contents fw" and ?B = "contents bw"
  note vars = constrainSameInputVariables_pos [OF n]
  consider (c_or) "length fw = 1" "fixedClauseSize bw 2"
    | (c_and) "length bw = 1" "fixedClauseSize fw 2"
    | (c_full) "length fw + length bw = 2 ^ n" "fixedClauseSize fw (n + 1)" "fixedClauseSize bw (n + 1)"
    using ty by (auto simp: fPattern_def shift_one_def bind_res_eq_Inr split: if_splits)
  then show ?thesis
  proof cases
    case c_or
    then obtain c0 where "?F = [c0]" by (auto simp: length_Suc_conv)
    then show ?thesis
      using or_pattern_functional [of p c0 ?B] g bl vars(1) c_or(2)
      by (metis fixedClauseSize_iff)
  next
    case c_and
    then obtain c0 where "?B = [c0]" by (auto simp: length_Suc_conv)
    then show ?thesis
      using and_pattern_functional [of p ?F c0] g bl vars(1) c_and(2)
      by (metis fixedClauseSize_iff)
  next
    case c_full
    let ?V = "other_vars p ?B"
    note gD = gate_listsD [OF g]
    have pV: "lit_var p \<notin> ?V"
    proof
      assume "lit_var p \<in> ?V"
      then obtain c l where c: "c \<in> set ?B" "l \<in> set c" "l \<noteq> p" "lit_var l = lit_var p"
        unfolding other_vars_def by force
      with wf_clause_other_var [OF gD(3) [OF c(1)] gD(4) [OF c(1)] c(2,3)] show False by simp
    qed
    have "full_over p ?V c" if c: "c \<in> set (?B @ ?F)" for c
    proof (cases "c \<in> set ?B")
      case True
      show ?thesis
      proof (rule full_overI)
        show "wf_clause c" "p \<in> set c" using gD(3,4) True by auto
        show "length c = card ?V + 1" using c_full(3) True vars(2) unfolding fixedClauseSize_iff by metis
        show "lit_var l \<in> ?V" if "l \<in> set c" "l \<noteq> p" for l
          using True that by (rule other_varsI)
      qed (use pV in auto)
    next
      case False
      with c have F: "c \<in> set ?F" by simp
      show ?thesis
      proof (rule full_overI)
        show "wf_clause c" "lit_not p \<in> set c" using gD(1,2) F by auto
        show "length c = card ?V + 1" using c_full(2) F vars(2) unfolding fixedClauseSize_iff by metis
        show "lit_var l \<in> ?V" if "l \<in> set c" "l \<noteq> lit_not p" for l
          unfolding vars(1) [symmetric] using F that by (rule other_varsI)
      qed (use pV in auto)
    qed
    then show ?thesis
      by (rule full_pattern_functional [OF g bl _ _ dist])
        (use c_full(1) vars(2) in auto)
  qed
qed

section \<open>The collected input literals\<close>

lemma gil_advance_all:
  assumes "pos \<le> length ins"
  shows "pos \<le> gil_advance ins pos l \<and> gil_advance ins pos l \<le> length ins
    \<and> (gil_advance ins pos l < length ins \<longrightarrow> l \<le> ins ! gil_advance ins pos l)
    \<and> (\<forall>i. pos \<le> i \<and> i < gil_advance ins pos l \<longrightarrow> ins ! i < l)"
  using assms
proof (induction ins pos l rule: gil_advance.induct)
  case (1 ins pos l)
  show ?case
  proof (cases "pos < length ins \<and> ins ! pos < l")
    case True
    then have eq: "gil_advance ins pos l = gil_advance ins (Suc pos) l"
      by (subst gil_advance.simps) simp
    have IH: "Suc pos \<le> gil_advance ins (Suc pos) l \<and> gil_advance ins (Suc pos) l \<le> length ins
      \<and> (gil_advance ins (Suc pos) l < length ins \<longrightarrow> l \<le> ins ! gil_advance ins (Suc pos) l)
      \<and> (\<forall>i. Suc pos \<le> i \<and> i < gil_advance ins (Suc pos) l \<longrightarrow> ins ! i < l)"
      using "1.IH" [OF True] True by simp
    moreover have "ins ! i < l" if "pos \<le> i" "i < gil_advance ins (Suc pos) l" for i
      using IH True that by (cases "i = pos") auto
    ultimately show ?thesis unfolding eq by simp
  next
    case False
    then have "gil_advance ins pos l = pos" by (subst gil_advance.simps) auto
    with False "1.prems" show ?thesis by auto
  qed
qed

lemma gil_advance_bounds:
  assumes "pos \<le> length ins"
  shows "pos \<le> gil_advance ins pos l" "gil_advance ins pos l \<le> length ins"
    "gil_advance ins pos l < length ins \<Longrightarrow> l \<le> ins ! gil_advance ins pos l"
    "pos \<le> i \<Longrightarrow> i < gil_advance ins pos l \<Longrightarrow> ins ! i < l"
  using gil_advance_all [OF assms] by blast+

text \<open>
  Whatever the order of the output among the literals, the copying loop stays inside the
  clause and only literals of the clause other than the output are added.
\<close>

lemma gil_append_ok:
  assumes "sorted_wrt (<) (l # ls)" and "q \<in> set (l # ls) \<or> q < l"
  shows "\<exists>r. gil_append q ins (l # ls) = Inr r \<and> set ins \<subseteq> set r
           \<and> set r \<subseteq> set ins \<union> (set (l # ls) - {q})"
  using assms
proof (induction ls arbitrary: l ins)
  case (Cons k ks)
  show ?case
  proof (cases "l < q")
    case True
    with Cons.prems have "q \<in> set (k # ks)" "sorted_wrt (<) (k # ks)" by auto
    with Cons.IH [of k "ins @ [l]"] obtain r where
      r: "gil_append q (ins @ [l]) (k # ks) = Inr r" "set (ins @ [l]) \<subseteq> set r"
      "set r \<subseteq> set (ins @ [l]) \<union> (set (k # ks) - {q})"
      by blast
    have "gil_append q ins (l # k # ks) = Inr r"
      using True r(1) by (simp only: gil_append.simps(2) [of q ins l] if_True)
    moreover have "set ins \<subseteq> set r" using r(2) by simp
    moreover have "set r \<subseteq> set ins \<union> (set (l # k # ks) - {q})"
    proof
      fix x assume "x \<in> set r"
      with r(3) have "x \<in> set (ins @ [l]) \<union> (set (k # ks) - {q})" by blast
      with True show "x \<in> set ins \<union> (set (l # k # ks) - {q})" by fastforce
    qed
    ultimately show ?thesis by blast
  next
    case False
    with Cons.prems have "q \<notin> set (k # ks)" by auto
    with False show ?thesis by auto
  qed
qed auto

lemma gil_clause_ok:
  assumes "sorted_wrt (<) ls" and "q \<in> set ls \<or> (\<forall>l \<in> set ls. q < l)" and "pos \<le> length ins"
  shows "\<exists>r. gil_clause q ins pos ls = Inr r \<and> set ins \<subseteq> set r
           \<and> set r \<subseteq> set ins \<union> (set ls - {q})"
  using assms
proof (induction q ins pos ls rule: gil_clause.induct)
  case (2 q ins pos l ls)
  define k where "k = gil_advance ins pos l"
  have sls: "sorted_wrt (<) ls" using "2.prems" by simp
  have b: "k \<le> length ins" unfolding k_def using "2.prems"(3) by (rule gil_advance_bounds(2))
  have eq: "gil_clause q ins pos (l # ls) =
      (if k = length ins then gil_append q ins (l # ls)
       else if l < ins ! k then gil_clause q (take k ins @ l # drop k ins) (Suc k) ls
       else gil_clause q ins (Suc k) ls)" if "l \<noteq> q"
    using that by (simp add: k_def Let_def)
  show ?case
  proof (cases "l = q")
    case True
    with "2.prems"(1) have "\<forall>l \<in> set ls. q < l" by simp
    with "2.IH"(3) [of] True sls "2.prems"(3) show ?thesis by fastforce
  next
    case lq: False
    have tail: "q \<in> set ls \<or> (\<forall>l \<in> set ls. q < l)" using "2.prems"(2) lq by auto
    consider (app) "k = length ins" | (ins) "k < length ins" "l < ins ! k"
      | (skip) "k < length ins" "\<not> l < ins ! k"
      using b by linarith
    then show ?thesis
    proof cases
      case app
      have "q \<in> set (l # ls) \<or> q < l" using "2.prems"(2) by auto
      with gil_append_ok [OF "2.prems"(1), of q ins] show ?thesis
        unfolding eq [OF lq] using app by simp
    next
      case ins
      have "\<exists>r. gil_clause q (take k ins @ l # drop k ins) (Suc k) ls = Inr r
          \<and> set (take k ins @ l # drop k ins) \<subseteq> set r
          \<and> set r \<subseteq> set (take k ins @ l # drop k ins) \<union> (set ls - {q})"
        by (rule "2.IH"(1) [OF lq k_def]) (use ins sls tail in auto)
      moreover have "set (take k ins @ l # drop k ins) = insert l (set ins)"
        by (metis (no_types, lifting) Un_insert_right append_take_drop_id list.simps(15) set_append)
      ultimately show ?thesis unfolding eq [OF lq] using ins lq by fastforce
    next
      case skip
      have "\<exists>r. gil_clause q ins (Suc k) ls = Inr r \<and> set ins \<subseteq> set r
          \<and> set r \<subseteq> set ins \<union> (set ls - {q})"
        by (rule "2.IH"(2) [OF lq k_def]) (use skip sls tail in auto)
      then show ?thesis unfolding eq [OF lq] using skip lq by fastforce
    qed
  qed
qed simp

lemma getInputLiterals_ok:
  assumes "\<And>c. c \<in> set (contents cs) \<Longrightarrow> wf_clause c \<and> q \<in> set c"
  shows "\<exists>r. getInputLiterals q cs = Inr r
           \<and> set r \<subseteq> {l. \<exists>c \<in> set (contents cs). l \<in> set c \<and> l \<noteq> q}"
proof -
  let ?I = "\<lambda>ys r. set r \<subseteq> {l. \<exists>c \<in> set (contents ys). l \<in> set c \<and> l \<noteq> q}"
  have "\<exists>r. fold_res (\<lambda>c ins. gil_clause q ins 0 (cl_lits c)) cs [] = Inr r \<and> ?I cs r"
  proof (rule fold_res_total)
    fix ys c zs r
    assume split: "cs = ys @ c # zs" and I: "?I ys r"
    have "wf_clause (cl_lits c) \<and> q \<in> set (cl_lits c)" using assms split by simp
    then obtain r' where r': "gil_clause q r 0 (cl_lits c) = Inr r'"
      "set r' \<subseteq> set r \<union> (set (cl_lits c) - {q})"
      using gil_clause_ok [of "cl_lits c" q 0 r] by (auto simp: wf_clause_def)
    then show "\<exists>r'. gil_clause q r 0 (cl_lits c) = Inr r' \<and> ?I (ys @ [c]) r'" using I by auto
  qed simp
  then show ?thesis by (simp add: getInputLiterals_def)
qed

text \<open>
  When the output is the last literal of every clause (its variable is the largest, as in a
  Tseitin encoding that numbers a gate after its inputs), the result is complete and sorted.
\<close>

lemma gil_append_last:
  assumes "\<And>k. k \<in> set ls \<Longrightarrow> k < q"
  shows "gil_append q ins (ls @ [q]) = Inr (ins @ ls)"
  using assms by (induction ls arbitrary: ins) auto

lemma sorted_insert_at:
  assumes "sorted_wrt (<) ins" and "pos < length ins" and "(l :: nat) < ins ! pos"
    and "\<And>i. i < pos \<Longrightarrow> ins ! i < l"
  shows "sorted_wrt (<) (take pos ins @ l # drop pos ins)"
proof -
  have "ins = take pos ins @ drop pos ins" by simp
  then have s: "sorted_wrt (<) (take pos ins)" "sorted_wrt (<) (drop pos ins)"
    using assms(1) by (metis sorted_wrt_append)+
  have lo: "x < l" if "x \<in> set (take pos ins)" for x
    using that assms(2,4) by (auto simp: in_set_conv_nth)
  have hi: "l < y" if "y \<in> set (drop pos ins)" for y
  proof -
    obtain j where "j < length (drop pos ins)" "y = drop pos ins ! j"
      using \<open>y \<in> set (drop pos ins)\<close> unfolding in_set_conv_nth by blast
    then have j: "pos + j < length ins" "y = ins ! (pos + j)" using assms(2) by auto
    have "ins ! pos \<le> y"
      using assms(1) j by (cases j) (auto simp: sorted_wrt_nth_less less_imp_le)
    with assms(3) show ?thesis by simp
  qed
  show ?thesis using s lo hi by (fastforce simp: sorted_wrt_append)
qed

lemma gil_clause_last:
  assumes "sorted_wrt (<) (ls @ [q])" and "sorted_wrt (<) ins" and "pos \<le> length ins"
    and "\<And>i l. i < pos \<Longrightarrow> l \<in> set ls \<Longrightarrow> ins ! i < l"
  shows "\<exists>r. gil_clause q ins pos (ls @ [q]) = Inr r \<and> sorted_wrt (<) r
           \<and> set r = set ins \<union> set ls"
  using assms
proof (induction ls arbitrary: ins pos)
  case (Cons l ls)
  define k where "k = gil_advance ins pos l"
  have b: "k \<le> length ins" "k < length ins \<Longrightarrow> l \<le> ins ! k"
    unfolding k_def using gil_advance_bounds(2,3) [OF Cons.prems(3)] by blast+
  have eq: "gil_clause q ins pos ((l # ls) @ [q]) =
      (if k = length ins then gil_append q ins ((l # ls) @ [q])
       else if l < ins ! k then gil_clause q (take k ins @ l # drop k ins) (Suc k) (ls @ [q])
       else gil_clause q ins (Suc k) (ls @ [q]))" if "l \<noteq> q"
    using that by (simp add: k_def Let_def)
  have lq: "l < q" "\<And>x. x \<in> set (l # ls) \<Longrightarrow> x < q" and sls: "sorted_wrt (<) (ls @ [q])"
    and lt: "\<And>x. x \<in> set ls \<Longrightarrow> l < x"
    using Cons.prems(1) by (auto simp: sorted_wrt_append)
  have lo: "ins ! i < l" if "i < k" for i
    using gil_advance_bounds(4) [OF Cons.prems(3) _ that [unfolded k_def]] Cons.prems(4) [of i l]
    by (cases "i < pos") auto
  consider (app) "k = length ins" | (ins) "k < length ins" "l < ins ! k"
    | (skip) "k < length ins" "l = ins ! k"
    using b by linarith
  then show ?case
  proof cases
    case app
    have "x < l" if "x \<in> set ins" for x
      using that lo app by (auto simp: in_set_conv_nth)
    moreover have "sorted_wrt (<) (l # ls)" using Cons.prems(1) by (simp add: sorted_wrt_append)
    ultimately have "sorted_wrt (<) (ins @ l # ls)"
      using Cons.prems(2) by (fastforce simp: sorted_wrt_append)
    moreover have "gil_append q ins ((l # ls) @ [q]) = Inr (ins @ l # ls)"
      using lq(2) by (rule gil_append_last)
    moreover have "l \<noteq> q" using lq(1) by simp
    ultimately show ?thesis using app eq by (intro exI [of _ "ins @ l # ls"]) simp
  next
    case ins
    let ?ins = "take k ins @ l # drop k ins"
    have "sorted_wrt (<) ?ins"
      using Cons.prems(2) ins lo by (rule sorted_insert_at)
    moreover have "?ins ! i < x" if "i < Suc k" "x \<in> set ls" for i x
    proof (cases "i < k")
      case True
      with lo ins have "?ins ! i < l" by (simp add: nth_append)
      with lt [OF that(2)] show ?thesis by simp
    next
      case False
      with that(1) have "i = k" by simp
      with ins lt [OF that(2)] show ?thesis by (simp add: nth_append)
    qed
    ultimately have "\<exists>r. gil_clause q ?ins (Suc k) (ls @ [q]) = Inr r \<and> sorted_wrt (<) r
        \<and> set r = set ?ins \<union> set ls"
      using sls ins by (intro Cons.IH) auto
    moreover have "set ?ins = insert l (set ins)"
      by (metis (no_types, lifting) Un_insert_right append_take_drop_id list.simps(15) set_append)
    ultimately show ?thesis using ins lq eq by auto
  next
    case skip
    have "ins ! i < x" if "i < Suc k" "x \<in> set ls" for i x
      using lo [of i] lt [OF that(2)] skip(2) that(1) by (cases "i < k") (auto simp: less_Suc_eq)
    then have "\<exists>r. gil_clause q ins (Suc k) (ls @ [q]) = Inr r \<and> sorted_wrt (<) r
        \<and> set r = set ins \<union> set ls"
      using sls skip Cons.prems(2) by (intro Cons.IH) auto
    moreover have "l \<in> set ins" using skip by (metis nth_mem)
    ultimately show ?thesis using skip(1) lq eq less_irrefl skip(2) by (metis insert_absorb Un_insert_left Un_insert_right list.simps(15) nat_neq_iff)
  qed
qed simp

lemma getInputLiterals_last:
  assumes "\<And>c. c \<in> set (contents cs) \<Longrightarrow> wf_clause c \<and> c \<noteq> [] \<and> last c = q"
  shows "\<exists>r. getInputLiterals q cs = Inr r \<and> sorted_wrt (<) r
           \<and> set r = {l. \<exists>c \<in> set (contents cs). l \<in> set c \<and> l \<noteq> q}"
proof -
  let ?I = "\<lambda>ys r. sorted_wrt (<) r \<and> set r = {l. \<exists>c \<in> set (contents ys). l \<in> set c \<and> l \<noteq> q}"
  have "\<exists>r. fold_res (\<lambda>c ins. gil_clause q ins 0 (cl_lits c)) cs [] = Inr r \<and> ?I cs r"
  proof (rule fold_res_total)
    fix ys c zs r
    assume split: "cs = ys @ c # zs" and I: "?I ys r"
    have c: "wf_clause (cl_lits c)" "cl_lits c \<noteq> []" "last (cl_lits c) = q"
      using assms split by simp_all
    then have app: "cl_lits c = butlast (cl_lits c) @ [q]" by (metis append_butlast_last_id)
    then have s: "sorted_wrt (<) (butlast (cl_lits c) @ [q])" using c(1) by (simp add: wf_clause_def)
    then have "q \<notin> set (butlast (cl_lits c))" by (auto simp: sorted_wrt_append)
    then have other: "set (butlast (cl_lits c)) = set (cl_lits c) - {q}"
      using app by (metis Diff_insert_absorb Un_insert_right list.simps(15) set_append set_empty2
          empty_set sup_bot.right_neutral)
    obtain r' where r': "gil_clause q r 0 (cl_lits c) = Inr r'" "sorted_wrt (<) r'"
      "set r' = set r \<union> set (butlast (cl_lits c))"
      using gil_clause_last [OF s, of r 0] I app by auto
    then show "\<exists>r'. gil_clause q r 0 (cl_lits c) = Inr r' \<and> ?I (ys @ [c]) r'"
      using I other by auto
  qed simp
  then show ?thesis by (simp add: getInputLiterals_def)
qed

section \<open>The semantic test\<close>

definition dimacs_true :: "(var \<Rightarrow> bool) \<Rightarrow> int \<Rightarrow> bool" where
  "dimacs_true a x \<longleftrightarrow> a (nat \<bar>x\<bar>) = (0 < x)"

definition dimacs_model :: "(var \<Rightarrow> bool) \<Rightarrow> int list list \<Rightarrow> int list \<Rightarrow> bool" where
  "dimacs_model a cls as \<longleftrightarrow>
     (\<forall>c \<in> set cls. \<exists>x \<in> set c. dimacs_true a x) \<and> (\<forall>x \<in> set as. dimacs_true a x)"

text \<open>The documented meaning of the answer 20: no assignment satisfies the clauses and assumptions.\<close>

definition sound_solver :: "solver \<Rightarrow> bool" where
  "sound_solver sat \<longleftrightarrow> (\<forall>cls as. sat cls as = 20 \<longrightarrow> (\<forall>a. \<not> dimacs_model a cls as))"

lemma dimacs_true_toDimacs:
  "0 < lit_var l \<Longrightarrow> dimacs_true a (toDimacs l) = lit_true a l"
  unfolding dimacs_true_def toDimacs_def lit_true_def by (cases "lit_sign l") simp_all

lemma sem_lit_nonzero: "0 < lit_var l \<Longrightarrow> sem_lit p l \<noteq> 0"
  by (auto simp: sem_lit_def toDimacs_def)

lemma fold_ipasir_add:
  assumes "\<And>l. l \<in> set ls \<Longrightarrow> 0 < lit_var l"
  shows "fold (\<lambda>l. ipasir_add (sem_lit p l)) ls s
    = s\<lparr>ip_pending := ip_pending s @ map (sem_lit p) ls\<rparr>"
  using assms by (induction ls arbitrary: s) (simp_all add: ipasir_add_def sem_lit_nonzero)

text \<open>The first literals go to whatever clause is pending.\<close>

lemma sem_add_clause_eq:
  assumes "\<And>l. l \<in> set (cl_lits c) \<Longrightarrow> 0 < lit_var l"
  shows "sem_add_clause p c s
    = s\<lparr>ip_clauses := ip_clauses s @ [ip_pending s @ map (sem_lit p) (cl_lits c)], ip_pending := []\<rparr>"
  using fold_ipasir_add [OF assms] by (simp add: sem_add_clause_def ipasir_add_def)

lemma fold_sem_add_clause:
  assumes "\<And>c l. c \<in> set cs \<Longrightarrow> l \<in> set (cl_lits c) \<Longrightarrow> 0 < lit_var l"
    and "ip_pending s = []"
  shows "fold (sem_add_clause p) cs s
    = s\<lparr>ip_clauses := ip_clauses s @ map (map (sem_lit p)) (contents cs)\<rparr>"
  using assms
proof (induction cs arbitrary: s)
  case (Cons c cs)
  have "sem_add_clause p c s
      = s\<lparr>ip_clauses := ip_clauses s @ [map (sem_lit p) (cl_lits c)], ip_pending := []\<rparr>"
    using sem_add_clause_eq [of c p s] Cons.prems by (metis append_Nil list.set_intros(1))
  moreover have "0 < lit_var l" if "d \<in> set cs" "l \<in> set (cl_lits d)" for d l
    using Cons.prems(1) that by (meson list.set_intros(2))
  ultimately show ?case
    using Cons.IH [of "s\<lparr>ip_clauses := ip_clauses s @ [map (sem_lit p) (cl_lits c)], ip_pending := []\<rparr>"]
      Cons.prems(2) by simp
qed simp

text \<open>On a solver without clauses the answer 20 means that the rests cover every input.\<close>

lemma fSemantic_cover:
  assumes "sound_solver sat" and s: "ip_clauses s = []" "ip_pending s = []" "ip_assumed s = []"
    and pos: "\<And>c l. c \<in> set (fw @ bw) \<Longrightarrow> l \<in> set (cl_lits c) \<Longrightarrow> 0 < lit_var l"
    and pp: "0 < lit_var p"
    and res: "fst (fSemantic sat p fw bw s) = GENERIC"
  shows "\<exists>c \<in> set (contents bw @ contents fw). rest_false a p c"
proof (rule ccontr)
  assume no: "\<not> ?thesis"
  let ?cls = "map (map (sem_lit p)) (contents (fw @ bw))"
  let ?na = "toDimacs (mk_lit (lit_var p) True)"
  let ?a = "a(lit_var p := False)"
  have "fold (sem_add_clause p) (fw @ bw) s = s\<lparr>ip_clauses := ?cls\<rparr>"
    using fold_sem_add_clause [of "fw @ bw" s p] pos s by simp
  then have "fold (sem_add_clause p) bw (fold (sem_add_clause p) fw s) = s\<lparr>ip_clauses := ?cls\<rparr>"
    by simp
  then have "fst (fSemantic sat p fw bw s) = (if sat ?cls [?na] = 20 then GENERIC else NONE)"
    by (simp add: fSemantic_def Let_def ipasir_assume_def ipasir_solve_def s)
  with res have "sat ?cls [?na] = 20" by (auto split: if_splits)
  with assms(1) have "\<not> dimacs_model ?a ?cls [?na]" by (auto simp: sound_solver_def)
  moreover have "dimacs_model ?a ?cls [?na]"
    unfolding dimacs_model_def
  proof (intro conjI ballI)
    fix x assume "x \<in> set [?na]"
    then show "dimacs_true ?a x"
      using dimacs_true_toDimacs [of "mk_lit (lit_var p) True" ?a] pp by (simp add: lit_true_def)
  next
    fix d assume "d \<in> set ?cls"
    then obtain c where c: "c \<in> set (fw @ bw)" "d = map (sem_lit p) (cl_lits c)" by auto
    have "\<not> rest_false a p (cl_lits c)" using no c(1) by auto
    then obtain l where l: "l \<in> set (cl_lits c)" "lit_var l \<noteq> lit_var p" "lit_true a l"
      by (auto simp: rest_false_def)
    have "dimacs_true ?a (sem_lit p l)"
      using l pos [OF c(1) l(1)] by (simp add: sem_lit_def dimacs_true_toDimacs lit_true_def)
    with c(2) l(1) show "\<exists>x \<in> set d. dimacs_true ?a x" by auto
  qed
  ultimately show False by blast
qed

lemma fSemantic_functional:
  assumes "sound_solver sat" and "ip_clauses s = []" "ip_pending s = []" "ip_assumed s = []"
    and "\<And>c l. c \<in> set (fw @ bw) \<Longrightarrow> l \<in> set (cl_lits c) \<Longrightarrow> 0 < lit_var l"
    and "0 < lit_var p"
    and "fst (fSemantic sat p fw bw s) = GENERIC"
    and "gate_lists p (contents fw) (contents bw)"
    and "blocked_set p (contents bw) (contents fw)"
  shows "functional p (contents bw @ contents fw)"
  using assms(8,9) by (rule functionalI) (rule fSemantic_cover [OF assms(1-7)])

text \<open>
  The closing \<open>ipasir_add\<close> has no terminating 0: the call leaves a clause open, to which the
  next call's first literals are appended.
\<close>

lemma fSemantic_leaves_pending:
  assumes "\<And>c l. c \<in> set (fw @ bw) \<Longrightarrow> l \<in> set (cl_lits c) \<Longrightarrow> 0 < lit_var l"
    and "ip_pending s = []" and "0 < lit_var p"
  shows "ip_pending (snd (fSemantic sat p fw bw s)) = [int (lit_var p)]"
  using assms fold_sem_add_clause [of "fw @ bw" s p]
  by (simp add: fSemantic_def Let_def ipasir_assume_def ipasir_solve_def ipasir_add_def
      toDimacs_def)

end
