(* ===== verification/Resource_Limits.thy ===== *)
theory Resource_Limits
  imports Prelude
begin

text \<open>
  \<open>class ResourceLimits\<close> of \<open>cnftools/src/util/ResourceLimits.h\<close>.  The operating system's
  answers (\<open>clock\<close>, \<open>getrusage\<close>) are arguments: the CPU time in seconds and the peak memory in
  megabytes at the moment of the test, both \<open>unsigned\<close>.
\<close>

record limits =
  rlim :: u32
  mlim :: u32
  start_time :: u32

definition limits_init :: "u32 \<Rightarrow> u32 \<Rightarrow> u32 \<Rightarrow> limits" where
  "limits_init r m now = \<lparr>rlim = r, mlim = m, start_time = now\<rparr>"

definition get_runtime :: "limits \<Rightarrow> u32 \<Rightarrow> u32" where
  "get_runtime L now = now - start_time L"

definition within_memory_limit :: "limits \<Rightarrow> u32 \<Rightarrow> bool" where
  "within_memory_limit L mem \<longleftrightarrow> mlim L = 0 \<or> mem \<le> mlim L"

definition within_time_limit :: "limits \<Rightarrow> u32 \<Rightarrow> bool" where
  "within_time_limit L now \<longleftrightarrow> rlim L = 0 \<or> get_runtime L now \<le> rlim L"

definition within_limits :: "limits \<Rightarrow> u32 \<Rightarrow> u32 \<Rightarrow> bool" where
  "within_limits L now mem \<longleftrightarrow> within_time_limit L now \<and> within_memory_limit L mem"

definition within_limits_or_throw :: "limits \<Rightarrow> u32 \<Rightarrow> u32 \<Rightarrow> unit res" where
  "within_limits_or_throw L now mem =
     (if \<not> within_limits L now mem then Inl ResourceLimitsExceeded else Inr ())"

lemma no_limits [simp]: "within_limits_or_throw (limits_init 0 0 t) now mem = Inr ()"
  by (simp add: within_limits_or_throw_def within_limits_def within_time_limit_def
      within_memory_limit_def limits_init_def)

lemma within_limits_or_throw_ok:
  "ResourceLimitsExceeded \<in> E \<Longrightarrow> res_ok E (\<lambda>_. True) (within_limits_or_throw L now mem)"
  by (simp add: within_limits_or_throw_def)

text \<open>
  The runtime is measured modulo \<open>2 ^ 32\<close>: it is the elapsed time as long as that fits, whether
  or not the clock itself wraps in between.
\<close>

lemma get_runtime_elapsed:
  "unat d < 2 ^ 32 \<Longrightarrow> get_runtime (limits_init r m t) (t + d) = d"
  by (simp add: get_runtime_def limits_init_def)

lemma within_time_limit_elapsed:
  "within_time_limit (limits_init r m t) (t + d) \<longleftrightarrow> r = 0 \<or> d \<le> r"
  by (simp add: within_time_limit_def get_runtime_def limits_init_def)

end
