(* ===== verification/Gate_Analyzer.thy ===== *)
theory Gate_Analyzer
  imports Gate_Patterns Resource_Limits
begin

text \<open>
  \<open>class GateAnalyzer\<close> of \<open>cnftools/src/gates/GateAnalyzer.h\<close>: the test and recording of one
  candidate, the breadth-first recognition from a set of root literals, and the loop that
  selects roots until the index is empty.  The template parameter \<open>T\<close> (the clause index) is a
  record of the operations the analyzer calls; \<open>clause_index\<close> states what they promise, and
  \<open>OccurrenceList\<close> is shown to keep it.
\<close>

section \<open>The analyzer\<close>

record 't index_ops =
  ix_at :: "'t \<Rightarrow> lit \<Rightarrow> clp list res"
  ix_size :: "'t \<Rightarrow> nat"
  ix_remove :: "clp list \<Rightarrow> 't \<Rightarrow> 't res"
  ix_isBlockedSet :: "lit \<Rightarrow> 't \<Rightarrow> bool res"
  ix_estimateRoots :: "'t \<Rightarrow> (clp list \<times> 't) res"

definition occ_ops :: "occ index_ops" where
  "occ_ops =
     \<lparr>ix_at = occ_at, ix_size = occ_size, ix_remove = occ_remove, ix_isBlockedSet = isBlockedSet,
      ix_estimateRoots = estimateRoots\<rparr>"

text \<open>
  What the run depends on besides the formula: the configuration, the solver, the limits with
  the clocks' answers at the \<open>k\<close>-th test, whether 60 seconds have passed at the \<open>k\<close>-th test of
  \<open>analyze\<close>, and the iteration orders of \<open>unordered_set\<close>, given the elements in the order of
  their first insertion.
\<close>

record env =
  patterns :: bool
  semantic :: bool
  sat_solver :: solver
  env_limits :: limits
  cpu_time :: "nat \<Rightarrow> u32"
  peak_memory :: "nat \<Rightarrow> u32"
  timed_out :: "nat \<Rightarrow> bool"
  lit_order :: "lit list \<Rightarrow> lit list"
  clause_order :: "clp list \<Rightarrow> clp list"

record 't analyzer =
  ga_solver :: ipasir
  ga_formula :: gate_formula
  ga_index :: 't
  ga_clock :: nat

text \<open>The type \<open>checkAddGate\<close> settles on, and the solver afterwards.\<close>

definition pattern_type ::
  "env \<Rightarrow> lit \<Rightarrow> clp list \<Rightarrow> clp list \<Rightarrow> gate_type res" where
  "pattern_type e p fw bw =
     (if patterns e then
        (let input_size = constrainSameInputVariables p fw bw in
         if input_size > 0 then fPattern p fw bw input_size else Inr NONE)
      else Inr NONE)"

definition semantic_type ::
  "env \<Rightarrow> lit \<Rightarrow> clp list \<Rightarrow> clp list \<Rightarrow> gate_type \<Rightarrow> ipasir \<Rightarrow> gate_type \<times> ipasir" where
  "semantic_type e p fw bw ty s =
     (if ty = NONE \<and> semantic e \<and> length fw > 1 \<and> length bw > 1
      then fSemantic (sat_solver e) p fw bw s else (ty, s))"

definition checkAddGate ::
  "'t index_ops \<Rightarrow> env \<Rightarrow> lit \<Rightarrow> 't analyzer \<Rightarrow> (bool \<times> 't analyzer) res" where
  "checkAddGate T e p st =
     bind_res (ix_at T (ga_index st) (lit_not p)) (\<lambda>fw.
       if length fw > 0 then
         bind_res (ix_isBlockedSet T p (ga_index st)) (\<lambda>blocked.
           if blocked then
             bind_res (ix_at T (ga_index st) p) (\<lambda>bw.
             bind_res (pattern_type e p fw bw) (\<lambda>ty.
               let (ty, s) = semantic_type e p fw bw ty (ga_solver st);
                   st = st\<lparr>ga_solver := s\<rparr>
               in if ty \<noteq> NONE then
                    bind_res (getInputLiterals (lit_not p) fw) (\<lambda>ins.
                    bind_res (addGate ty p fw bw ins (ga_formula st)) (\<lambda>g.
                      Inr (True, st\<lparr>ga_formula := g\<rparr>)))
                  else Inr (False, st)))
           else Inr (False, st))
       else Inr (False, st))"

text \<open>One candidate of the inner loop; the frontier is the list of the literals inserted.\<close>

definition try_candidate ::
  "'t index_ops \<Rightarrow> env \<Rightarrow> lit \<Rightarrow> lit list \<times> 't analyzer \<Rightarrow> (lit list \<times> 't analyzer) res" where
  "try_candidate T e p = (\<lambda>(frontier, st).
     bind_res (checkAddGate T e p st) (\<lambda>(added, st).
       if added then
         bind_res (getGate p (ga_formula st)) (\<lambda>ga.
         bind_res (ix_remove T (fwd ga) (ga_index st)) (\<lambda>ix.
         bind_res (ix_remove T (bwd ga) ix) (\<lambda>ix.
           Inr (frontier @ inp ga, st\<lparr>ga_index := ix\<rparr>))))
       else Inr (frontier, st)))"

definition check_limits :: "env \<Rightarrow> 't analyzer \<Rightarrow> 't analyzer res" where
  "check_limits e st =
     bind_res (within_limits_or_throw (env_limits e) (cpu_time e (ga_clock st))
                 (peak_memory e (ga_clock st)))
       (\<lambda>_. Inr (st\<lparr>ga_clock := ga_clock st + 1\<rparr>))"

fun recognition_loop ::
  "'t index_ops \<Rightarrow> env \<Rightarrow> nat \<Rightarrow> lit list \<Rightarrow> 't analyzer \<Rightarrow> 't analyzer res" where
  "recognition_loop T e fuel candidates st =
     (if candidates = [] then Inr st
      else case fuel of
        0 \<Rightarrow> Inl OutOfFuel
      | Suc fuel \<Rightarrow>
          bind_res (check_limits e st) (\<lambda>st.
          bind_res (fold_res (try_candidate T e) candidates ([], st)) (\<lambda>(frontier, st).
            recognition_loop T e fuel (lit_order e (remdups frontier)) st)))"

declare recognition_loop.simps [simp del]

definition gate_recognition ::
  "'t index_ops \<Rightarrow> env \<Rightarrow> nat \<Rightarrow> lit list \<Rightarrow> 't analyzer \<Rightarrow> 't analyzer res" where
  "gate_recognition T e fuel rts st = recognition_loop T e fuel rts st"

text \<open>One root clause: it becomes a root and its literals become candidates.\<close>

definition take_root :: "clp \<Rightarrow> lit list \<times> 't analyzer \<Rightarrow> (lit list \<times> 't analyzer) res" where
  "take_root p = (\<lambda>(candidates, st).
     bind_res (addRoot p (ga_formula st)) (\<lambda>g.
       Inr (candidates @ cl_lits p, st\<lparr>ga_formula := g\<rparr>)))"

fun analyze_loop ::
  "'t index_ops \<Rightarrow> env \<Rightarrow> nat \<Rightarrow> nat \<Rightarrow> clp list \<Rightarrow> bool \<Rightarrow> 't analyzer \<Rightarrow> 't analyzer res" where
  "analyze_loop T e fuel k root_clauses timeout st =
     (if root_clauses = [] \<or> timeout then Inr st
      else case fuel of
        0 \<Rightarrow> Inl OutOfFuel
      | Suc fuel' \<Rightarrow>
          bind_res (fold_res take_root root_clauses ([], st)) (\<lambda>(candidates, st).
          bind_res (gate_recognition T e fuel candidates st) (\<lambda>st.
          bind_res (ix_estimateRoots T (ga_index st)) (\<lambda>(rs, ix).
            analyze_loop T e fuel' (k + 1) rs (timed_out e k) (st\<lparr>ga_index := ix\<rparr>)))))"

declare analyze_loop.simps [simp del]

text \<open>The clauses left in the index go to the remainder.\<close>

definition collect_remainder :: "'t index_ops \<Rightarrow> env \<Rightarrow> 't analyzer \<Rightarrow> 't analyzer res" where
  "collect_remainder T e st =
     bind_res (fold_res (\<lambda>l acc. bind_res (ix_at T (ga_index st) l) (\<lambda>xs. Inr (acc @ xs)))
                [0 ..< ix_size T (ga_index st)] [])
       (\<lambda>acc. Inr (st\<lparr>ga_formula := (ga_formula st)\<lparr>remainder :=
                  remainder (ga_formula st) @ clause_order e (remdups acc)\<rparr>\<rparr>))"

definition analyze :: "'t index_ops \<Rightarrow> env \<Rightarrow> nat \<Rightarrow> 't analyzer \<Rightarrow> 't analyzer res" where
  "analyze T e fuel st =
     bind_res (ix_estimateRoots T (ga_index st)) (\<lambda>(rs, ix).
     bind_res (analyze_loop T e fuel 0 rs False (st\<lparr>ga_index := ix\<rparr>)) (\<lambda>st.
       collect_remainder T e st))"

text \<open>The constructor on a formula and \<open>analyze\<close>, for the default template argument.\<close>

definition analyzer_init :: "cnf \<Rightarrow> nat \<Rightarrow> occ \<Rightarrow> occ analyzer" where
  "analyzer_init f vb oc =
     \<lparr>ga_solver = ipasir_init, ga_formula = gf_init (nVars f) vb, ga_index = oc, ga_clock = 0\<rparr>"

definition analyze_formula :: "env \<Rightarrow> nat \<Rightarrow> cnf \<Rightarrow> gate_formula res" where
  "analyze_formula e vb f =
     bind_res (occ_init f) (\<lambda>oc.
     bind_res (analyze occ_ops e (nClauses f + 1) (analyzer_init f vb oc)) (\<lambda>st.
       Inr (ga_formula st)))"

section \<open>What the recorded structure means\<close>

definition gate_clps :: "gate_formula \<Rightarrow> clp list" where
  "gate_clps g = concat (map (\<lambda>ga. fwd ga @ bwd ga) (gates g))"

definition outs :: "gate_formula \<Rightarrow> var set" where
  "outs g = {v. v < length (gates g) \<and> fwd (gates g ! v) \<noteq> []}"

definition agree_off :: "var set \<Rightarrow> (var \<Rightarrow> bool) \<Rightarrow> (var \<Rightarrow> bool) \<Rightarrow> bool" where
  "agree_off V a b \<longleftrightarrow> (\<forall>v. v \<notin> V \<longrightarrow> a v = b v)"

text \<open>A recorded gate: its lists contain the output as they should and block each other.\<close>

definition gate_wf :: "var \<Rightarrow> gate \<Rightarrow> bool" where
  "gate_wf v ga \<longleftrightarrow>
     lit_var (out ga) = v \<and> gtype ga \<noteq> NONE \<and> gtype ga \<noteq> MONO
     \<and> (\<forall>l \<in> set (inp ga). \<exists>c \<in> set (contents (fwd ga)). l \<in> set c)
     \<and> gate_lists (out ga) (contents (fwd ga)) (contents (bwd ga))
     \<and> blocked_set (out ga) (contents (bwd ga)) (contents (fwd ga))"

text \<open>
  The structure is an invariant over the set \<open>D\<close> of clauses still indexed: no output occurs in
  \<open>D\<close>, the gates' clauses can be satisfied by choosing the outputs only, and (\<open>fn\<close>) in one way.
\<close>

definition struct_ok :: "bool \<Rightarrow> gate_formula \<Rightarrow> clp set \<Rightarrow> bool" where
  "struct_ok fn g D \<longleftrightarrow>
     (\<forall>v < length (gates g). fwd (gates g ! v) = [] \<longrightarrow> gates g ! v = gate_default)
     \<and> (\<forall>v \<in> outs g. gate_wf v (gates g ! v))
     \<and> (\<forall>p \<in> D. \<forall>l \<in> set (cl_lits p). lit_var l \<notin> outs g)
     \<and> (\<forall>a. \<exists>b. agree_off (outs g) a b \<and> cnf_true b (contents (gate_clps g)))
     \<and> (fn \<longrightarrow> (\<forall>a b. agree_off (outs g) a b \<and> cnf_true a (contents (gate_clps g))
          \<and> cnf_true b (contents (gate_clps g)) \<longrightarrow> a = b))"

lemma struct_okD:
  assumes "struct_ok fn g D"
  shows "v < length (gates g) \<Longrightarrow> fwd (gates g ! v) = [] \<Longrightarrow> gates g ! v = gate_default"
    and "v \<in> outs g \<Longrightarrow> gate_wf v (gates g ! v)"
    and "p \<in> D \<Longrightarrow> l \<in> set (cl_lits p) \<Longrightarrow> lit_var l \<notin> outs g"
    and "\<exists>b. agree_off (outs g) a b \<and> cnf_true b (contents (gate_clps g))"
    and "fn \<Longrightarrow> agree_off (outs g) a b \<Longrightarrow> cnf_true a (contents (gate_clps g)) \<Longrightarrow>
      cnf_true b (contents (gate_clps g)) \<Longrightarrow> a = b"
  using assms unfolding struct_ok_def by blast+

lemma struct_ok_init [simp]: "struct_ok fn (gf_init n vb) D"
proof -
  have g: "gate_clps (gf_init n vb) = []"
    by (simp add: gate_clps_def gf_init_def gate_default_def)
  have o: "outs (gf_init n vb) = {}"
    by (auto simp: outs_def gf_init_def gate_default_def simp del: replicate_Suc)
  show ?thesis
    unfolding struct_ok_def g o by (auto simp: agree_off_def gf_init_def gate_default_def simp del: replicate_Suc)
qed

lemma struct_ok_mono: "struct_ok fn g D \<Longrightarrow> D' \<subseteq> D \<Longrightarrow> struct_ok fn g D'"
  unfolding struct_ok_def by blast

lemma struct_ok_gates: "gates g' = gates g \<Longrightarrow> struct_ok fn g' D = struct_ok fn g D"
  by (simp add: struct_ok_def outs_def gate_clps_def)

lemma mset_concat_update:
  assumes "i < length xs" and "f (xs ! i) = []"
  shows "mset (concat (map f (xs[i := x]))) = mset (concat (map f xs)) + mset (f x)"
proof -
  have "xs = take i xs @ xs ! i # drop (Suc i) xs" using assms(1) by (rule id_take_nth_drop)
  then have "map f xs = map f (take i xs) @ f (xs ! i) # map f (drop (Suc i) xs)"
    by (metis list.map(2) map_append)
  moreover have "map f (xs[i := x]) = map f (take i xs) @ f x # map f (drop (Suc i) xs)"
    using assms(1) by (simp add: upd_conv_take_nth_drop)
  ultimately show ?thesis using assms(2) by simp
qed

lemma gate_clps_update:
  assumes "v < length (gates g)" and "fwd (gates g ! v) = []" "bwd (gates g ! v) = []"
    and "gates g' = (gates g)[v := ga]"
  shows "mset (gate_clps g') = mset (gate_clps g) + mset (fwd ga) + mset (bwd ga)"
  using assms by (simp add: gate_clps_def mset_concat_update)

lemma cnf_true_mset: "mset xs = mset ys \<Longrightarrow> cnf_true a xs = cnf_true a ys"
  by (metis cnf_true_iff set_mset_mset)

text \<open>Truth depends on the variables that occur.\<close>

lemma cl_true_agree:
  assumes "\<And>l. l \<in> set c \<Longrightarrow> a (lit_var l) = b (lit_var l)"
  shows "cl_true a c = cl_true b c"
  using assms by (auto simp: cl_true_iff lit_true_def)

lemma cnf_true_agree:
  assumes "\<And>c l. c \<in> set cs \<Longrightarrow> l \<in> set c \<Longrightarrow> a (lit_var l) = b (lit_var l)"
  shows "cnf_true a cs = cnf_true b cs"
  using assms cl_true_agree [of _ a b] by (simp add: cnf_true_iff)

lemma set_out_agree: "agree_off {lit_var p} a (set_out a p b)"
  by (simp add: agree_off_def set_out_def)

lemma agree_off_set_out:
  assumes "agree_off (insert (lit_var p) V) a b"
  shows "agree_off V (set_out a p (lit_true b p)) b"
  using assms by (auto simp: agree_off_def set_out_def lit_true_def)

lemma set_out_lit_true [simp]: "set_out a p (lit_true a p) = a"
  by (rule ext) (auto simp: set_out_def lit_true_def)

text \<open>
  One gate more: its clauses mention no earlier output, so the earlier gates can be repaired
  after the new output has been chosen, and a functional new gate fixes its output before the
  earlier ones.
\<close>

lemma struct_ok_add:
  assumes ok: "struct_ok fn g D" and v: "lit_var p < length (gates g)"
    and wf: "\<And>c. c \<in> D \<Longrightarrow> wf_clause (cl_lits c)"
    and fw: "set fw = {c \<in> D. lit_not p \<in> set (cl_lits c)}" "fw \<noteq> []"
    and bw: "set bw = {c \<in> D. p \<in> set (cl_lits c)}"
    and bl: "blocked_set p (contents bw) (contents fw)"
    and ty: "ty \<noteq> NONE" "ty \<noteq> MONO"
    and fn: "fn \<Longrightarrow> functional p (contents bw @ contents fw)"
    and ga: "fwd ga = fw" "bwd ga = bw" "out ga = p" "gtype ga = ty"
      "\<And>l. l \<in> set (inp ga) \<Longrightarrow> \<exists>c \<in> set (contents fw). l \<in> set c"
    and g': "gates g' = (gates g)[lit_var p := ga]"
  shows "struct_ok fn g' (D - (set fw \<union> set bw))"
    and "mset (gate_clps g') = mset (gate_clps g) + mset fw + mset bw"
    and "lit_var p \<notin> outs g"
proof -
  let ?v = "lit_var p" and ?new = "contents bw @ contents fw"
  note okD = struct_okD [OF ok]
  have "hd fw \<in> set fw" using fw(2) by simp
  then show nv: "?v \<notin> outs g" using fw(1) okD(3) [of "hd fw" "lit_not p"] by simp
  then have old: "fwd (gates g ! ?v) = []" using v by (simp add: outs_def)
  then have old': "bwd (gates g ! ?v) = []" using okD(1) [OF v] by (simp add: gate_default_def)
  show ms: "mset (gate_clps g') = mset (gate_clps g) + mset fw + mset bw"
    using gate_clps_update [OF v old old' g'] ga by simp
  have outs': "outs g' = insert ?v (outs g)"
    unfolding outs_def g' using v fw(2) ga by (auto simp: nth_list_update split: if_splits)
  have gl: "gate_lists p (contents fw) (contents bw)"
    using fw bw wf by (auto simp: gate_lists_def)
  have true': "cnf_true b (contents (gate_clps g'))
      \<longleftrightarrow> cnf_true b (contents (gate_clps g)) \<and> cnf_true b ?new" for b
    using cnf_true_mset [of "contents (gate_clps g')" "contents (gate_clps g) @ ?new" b] ms
    by simp
  have new_vars: "lit_var l \<notin> outs g" if "c \<in> set ?new" "l \<in> set c" for c l
    using that fw(1) bw okD(3) by auto
  have total: "\<exists>b. cnf_true (set_out a p b) ?new" for a
    using bl gl by (intro blocked_set_total) (auto simp: gate_lists_def)
  have keep: "cnf_true b ?new = cnf_true a ?new" if "agree_off (outs g) a b" for a b
    by (rule cnf_true_agree) (use that new_vars in \<open>auto simp: agree_off_def\<close>)
  show "struct_ok fn g' (D - (set fw \<union> set bw))"
    unfolding struct_ok_def outs'
  proof (intro conjI allI impI ballI)
    fix u assume "u < length (gates g')" "fwd (gates g' ! u) = []"
    then show "gates g' ! u = gate_default"
      using okD(1) [of u] g' ga fw(2) by (cases "u = ?v") auto
  next
    fix u assume u: "u \<in> insert ?v (outs g)"
    show "gate_wf u (gates g' ! u)"
    proof (cases "u = ?v")
      case True
      with v g' ga ty gl bl show ?thesis by (simp add: gate_wf_def)
    next
      case False
      with u okD(2) [of u] g' show ?thesis by simp
    qed
  next
    fix c l assume c: "c \<in> D - (set fw \<union> set bw)" "l \<in> set (cl_lits c)"
    then have "l \<noteq> p" "l \<noteq> lit_not p" using fw(1) bw by auto
    then have "lit_var l \<noteq> ?v" by (simp add: lit_var_eq)
    with c okD(3) show "lit_var l \<notin> insert ?v (outs g)" by auto
  next
    fix a
    obtain x where x: "cnf_true (set_out a p x) ?new" using total by blast
    obtain b where b: "agree_off (outs g) (set_out a p x) b" "cnf_true b (contents (gate_clps g))"
      using okD(4) by blast
    have "cnf_true b ?new" using keep [OF b(1)] x by simp
    moreover have "agree_off (insert ?v (outs g)) a b"
      using b(1) set_out_agree [of p a x] unfolding agree_off_def by auto
    ultimately show "\<exists>b. agree_off (insert ?v (outs g)) a b \<and> cnf_true b (contents (gate_clps g'))"
      using b(2) true' by blast
  next
    fix a b
    assume "fn" and
      H: "agree_off (insert ?v (outs g)) a b \<and> cnf_true a (contents (gate_clps g'))
        \<and> cnf_true b (contents (gate_clps g'))"
    let ?b = "set_out a p (lit_true b p)"
    have ag: "agree_off (outs g) ?b b" using H by (intro agree_off_set_out) blast
    have "cnf_true ?b ?new" using keep [OF ag] H true' by blast
    moreover have "cnf_true (set_out a p (lit_true a p)) ?new" using H true' by simp
    ultimately have "lit_true b p = lit_true a p"
      using fn [OF \<open>fn\<close>] unfolding functional_def by blast
    then have "agree_off (outs g) a b" using ag by simp
    with H true' \<open>fn\<close> show "a = b" using okD(5) by blast
  qed
qed

section \<open>The type of a candidate\<close>

text \<open>
  The variables beside \<open>q\<close> in the clauses of \<open>D\<close> that contain \<open>q\<close>; \<open>narrow\<close> says that there
  are fewer than 64, so that the shift of \<open>fPattern\<close> is defined.
\<close>

definition in_vars :: "lit \<Rightarrow> clp set \<Rightarrow> var set" where
  "in_vars q D = {lit_var l | l c. c \<in> D \<and> q \<in> set (cl_lits c) \<and> l \<in> set (cl_lits c) \<and> l \<noteq> q}"

definition narrow :: "clp set \<Rightarrow> bool" where
  "narrow D \<longleftrightarrow> finite D \<and> (\<forall>q. card (in_vars q D) < 64)"

lemma in_vars_eq:
  "set cs = {c \<in> D. q \<in> set (cl_lits c)} \<Longrightarrow> in_vars q D = other_vars q (contents cs)"
  by (auto simp: in_vars_def other_vars_def)

lemma finite_in_vars:
  assumes "finite D"
  shows "finite (in_vars q D)"
proof -
  obtain cs where "set cs = {c \<in> D. q \<in> set (cl_lits c)}"
    using finite_list [of "{c \<in> D. q \<in> set (cl_lits c)}"] assms by auto
  then show ?thesis by (simp add: in_vars_eq)
qed

lemma narrow_mono:
  assumes "narrow D" and "D' \<subseteq> D"
  shows "narrow D'"
proof -
  have "card (in_vars q D') \<le> card (in_vars q D)" for q
    using assms by (intro card_mono finite_in_vars) (auto simp: narrow_def in_vars_def)
  moreover have "finite D'" using assms by (auto simp: narrow_def intro: finite_subset)
  ultimately show ?thesis using assms(1) by (auto simp: narrow_def intro: le_less_trans)
qed

lemma fPattern_res:
  "n < 64 \<or> OutOfRange \<in> E \<Longrightarrow> res_ok E (\<lambda>ty. ty \<noteq> MONO) (fPattern p fw bw n)"
  by (auto simp: fPattern_def shift_one_def)

lemma pattern_type_ok:
  assumes gl: "gate_lists p (contents fw) (contents bw)"
    and bl: "blocked_set p (contents bw) (contents fw)"
    and E: "OutOfRange \<in> E \<or> card (other_vars (lit_not p) (contents fw)) < 64"
  shows "res_ok E (\<lambda>ty. ty \<noteq> MONO \<and> (ty \<noteq> NONE \<longrightarrow> distinct (contents bw @ contents fw)
      \<longrightarrow> functional p (contents bw @ contents fw))) (pattern_type e p fw bw)"
proof -
  define n where "n = constrainSameInputVariables p fw bw"
  show ?thesis
  proof (cases "patterns e \<and> 0 < n")
    case False
    then show ?thesis by (auto simp: pattern_type_def n_def Let_def)
  next
    case True
    have "card (other_vars (lit_not p) (contents fw)) = n"
      using constrainSameInputVariables_pos [of p fw bw n] True n_def by simp
    then have "res_ok E (\<lambda>ty. ty \<noteq> MONO) (fPattern p fw bw n)" using E by (intro fPattern_res) auto
    moreover have "pattern_type e p fw bw = fPattern p fw bw n"
      using True by (simp add: pattern_type_def n_def)
    ultimately show ?thesis
      using fPattern_functional [OF gl bl n_def [symmetric]] True
      by (auto elim!: res_ok_mono)
  qed
qed

lemma semantic_type_pattern:
  "\<not> semantic e \<Longrightarrow> semantic_type e p fw bw ty s = (ty, s)"
  by (simp add: semantic_type_def)

lemma semantic_type_no_MONO:
  "ty \<noteq> MONO \<Longrightarrow> fst (semantic_type e p fw bw ty s) \<noteq> MONO"
  by (simp add: semantic_type_def fSemantic_def Let_def split: prod.splits)

text \<open>
  What is assumed of the environment: the iteration order of a set lists its elements, each
  once, and the limits can only be exceeded when that error is allowed.
\<close>

definition env_ok :: "env \<Rightarrow> err set \<Rightarrow> bool" where
  "env_ok e Er \<longleftrightarrow>
     (\<forall>xs. distinct xs \<longrightarrow> set (lit_order e xs) = set xs)
     \<and> (\<forall>xs. distinct xs \<longrightarrow> mset (clause_order e xs) = mset xs)
     \<and> (\<forall>k. ResourceLimitsExceeded \<in> Er
          \<or> within_limits (env_limits e) (cpu_time e k) (peak_memory e k))"

lemma env_okD:
  assumes "env_ok e Er"
  shows "distinct xs \<Longrightarrow> set (lit_order e xs) = set xs"
    and "distinct ys \<Longrightarrow> mset (clause_order e ys) = mset ys"
    and "res_ok Er (\<lambda>_. True) (within_limits_or_throw (env_limits e) (cpu_time e k) (peak_memory e k))"
  using assms by (auto simp: env_ok_def within_limits_or_throw_def)

section \<open>The contract of the index\<close>

text \<open>
  \<open>inv ix D U n\<close>: the index \<open>ix\<close> over \<open>n\<close> variables holds the clauses \<open>D\<close> and, waiting to be
  roots, the unit clauses \<open>U\<close>.
\<close>

locale clause_index =
  fixes T :: "'t index_ops"
    and inv :: "'t \<Rightarrow> clp set \<Rightarrow> clp list \<Rightarrow> nat \<Rightarrow> bool"
  assumes inv_finite: "inv ix D U n \<Longrightarrow> finite D"
    and inv_clause: "inv ix D U n \<Longrightarrow> c \<in> D \<Longrightarrow> wf_clause (cl_lits c) \<and> cl_lits c \<noteq> []"
    and inv_bound: "inv ix D U n \<Longrightarrow> c \<in> D \<union> set U \<Longrightarrow> l \<in> set (cl_lits c) \<Longrightarrow> l < 2 + 2 * n"
    and inv_size: "inv ix D U n \<Longrightarrow> ix_size T ix = 2 + 2 * n"
    and inv_at: "inv ix D U n \<Longrightarrow> l < 2 + 2 * n \<Longrightarrow>
      \<exists>xs. ix_at T ix l = Inr xs \<and> distinct xs \<and> set xs = {c \<in> D. l \<in> set (cl_lits c)}"
    and inv_blocked: "inv ix D U n \<Longrightarrow> p < 2 + 2 * n \<Longrightarrow>
      ix_at T ix p = Inr bw \<Longrightarrow> ix_at T ix (lit_not p) = Inr fw \<Longrightarrow>
      ix_isBlockedSet T p ix = Inr (blocked_set p (contents bw) (contents fw))"
    and inv_remove: "inv ix D U n \<Longrightarrow> set ps \<subseteq> D \<Longrightarrow> distinct ps \<Longrightarrow>
      \<exists>ix'. ix_remove T ps ix = Inr ix' \<and> inv ix' (D - set ps) U n"
    and inv_roots_units: "inv ix D U n \<Longrightarrow> U \<noteq> [] \<Longrightarrow>
      \<exists>ix'. ix_estimateRoots T ix = Inr (U, ix') \<and> inv ix' D [] n"
    and inv_roots: "inv ix D [] n \<Longrightarrow>
      \<exists>r ix'. ix_estimateRoots T ix = Inr (r, ix') \<and> distinct r \<and> set r \<subseteq> D
        \<and> inv ix' (D - set r) [] n \<and> (r = [] \<longrightarrow> D = {})"
begin

text \<open>
  The analyzer's invariant: clauses are neither lost nor duplicated (\<open>Cs\<close>), and the structure
  found so far is sound.  \<open>Er\<close> are the errors allowed.
\<close>

definition ga_inv ::
  "env \<Rightarrow> err set \<Rightarrow> bool \<Rightarrow> nat \<Rightarrow> clp multiset \<Rightarrow> clp list \<Rightarrow> clp set \<Rightarrow> 't analyzer \<Rightarrow> bool" where
  "ga_inv e Er fn n Cs U D st \<longleftrightarrow>
     inv (ga_index st) D U n \<and> gf_sized n (ga_formula st) \<and> struct_ok fn (ga_formula st) D
     \<and> mset (roots (ga_formula st)) + mset (gate_clps (ga_formula st)) + mset U + mset_set D = Cs
     \<and> remainder (ga_formula st) = []
     \<and> (fn \<longrightarrow> inj_on cl_lits D \<and> \<not> semantic e) \<and> (OutOfRange \<in> Er \<or> narrow D)"

lemma ga_invD:
  assumes "ga_inv e Er fn n Cs U D st"
  shows "inv (ga_index st) D U n" "gf_sized n (ga_formula st)" "struct_ok fn (ga_formula st) D"
    "mset (roots (ga_formula st)) + mset (gate_clps (ga_formula st)) + mset U + mset_set D = Cs"
    "remainder (ga_formula st) = []" "fn \<Longrightarrow> inj_on cl_lits D" "fn \<Longrightarrow> \<not> semantic e"
    "OutOfRange \<in> Er \<or> narrow D"
  using assms by (simp_all add: ga_inv_def)

text \<open>What \<open>checkAddGate\<close> has recorded when it returns true.\<close>

definition gate_added ::
  "bool \<Rightarrow> nat \<Rightarrow> clp set \<Rightarrow> lit \<Rightarrow> gate_formula \<Rightarrow> gate_formula \<Rightarrow> bool" where
  "gate_added fn n D p g g' \<longleftrightarrow>
     (let ga = gates g' ! lit_var p in
      fwd ga \<noteq> [] \<and> distinct (fwd ga) \<and> distinct (bwd ga) \<and> set (fwd ga) \<subseteq> D \<and> set (bwd ga) \<subseteq> D
      \<and> set (fwd ga) \<inter> set (bwd ga) = {}
      \<and> gf_sized n g' \<and> struct_ok fn g' (D - set (fwd ga) - set (bwd ga))
      \<and> mset (gate_clps g') = mset (gate_clps g) + mset (fwd ga) + mset (bwd ga)
      \<and> roots g' = roots g \<and> remainder g' = remainder g
      \<and> (\<forall>l \<in> set (inp ga). l < 2 + 2 * n))"

lemma candidate_lists:
  assumes I: "ga_inv e Er fn n Cs U D st" and p: "p < 2 + 2 * n"
  shows "\<exists>fw bw. ix_at T (ga_index st) (lit_not p) = Inr fw \<and> ix_at T (ga_index st) p = Inr bw
      \<and> distinct fw \<and> distinct bw \<and> set fw = {c \<in> D. lit_not p \<in> set (cl_lits c)}
      \<and> set bw = {c \<in> D. p \<in> set (cl_lits c)} \<and> set fw \<inter> set bw = {}
      \<and> gate_lists p (contents fw) (contents bw)
      \<and> (fn \<longrightarrow> distinct (contents bw @ contents fw))
      \<and> (OutOfRange \<in> Er \<or> card (other_vars (lit_not p) (contents fw)) < 64)"
proof -
  note D = ga_invD [OF I]
  obtain fw where fw: "ix_at T (ga_index st) (lit_not p) = Inr fw" "distinct fw"
    "set fw = {c \<in> D. lit_not p \<in> set (cl_lits c)}"
    using inv_at [OF D(1) lit_not_bound [OF p]] by blast
  obtain bw where bw: "ix_at T (ga_index st) p = Inr bw" "distinct bw"
    "set bw = {c \<in> D. p \<in> set (cl_lits c)}"
    using inv_at [OF D(1) p] by blast
  have wf: "wf_clause (cl_lits c)" if "c \<in> D" for c using inv_clause [OF D(1) that] by blast
  have dis: "set fw \<inter> set bw = {}"
    using fw(3) bw(3) wf wf_clause_no_compl by fastforce
  have gl: "gate_lists p (contents fw) (contents bw)"
    using fw(3) bw(3) wf by (auto simp: gate_lists_def)
  have "distinct (contents bw @ contents fw)" if "fn"
  proof -
    have "distinct (bw @ fw)" using fw(2) bw(2) dis by auto
    moreover have "inj_on cl_lits (set (bw @ fw))"
      using D(6) [OF that] fw(3) bw(3) by (auto intro: inj_on_subset)
    ultimately have "distinct (contents (bw @ fw))" by (simp only: distinct_map)
    then show ?thesis by simp
  qed
  moreover have "OutOfRange \<in> Er \<or> card (other_vars (lit_not p) (contents fw)) < 64"
    using D(8) in_vars_eq [OF fw(3)] unfolding narrow_def by metis
  ultimately show ?thesis using fw bw dis gl by blast
qed

lemma checkAddGate_ok:
  assumes I: "ga_inv e Er fn n Cs U D st" and p: "p < 2 + 2 * n"
  shows "res_ok Er (\<lambda>(added, st'). ga_index st' = ga_index st
      \<and> (if added then gate_added fn n D p (ga_formula st) (ga_formula st')
         else ga_formula st' = ga_formula st)) (checkAddGate T e p st)"
proof -
  note D = ga_invD [OF I]
  obtain fw bw where at: "ix_at T (ga_index st) (lit_not p) = Inr fw"
      "ix_at T (ga_index st) p = Inr bw"
    and ls: "distinct fw" "distinct bw" "set fw = {c \<in> D. lit_not p \<in> set (cl_lits c)}"
      "set bw = {c \<in> D. p \<in> set (cl_lits c)}" "set fw \<inter> set bw = {}"
    and gl: "gate_lists p (contents fw) (contents bw)"
    and dist: "fn \<Longrightarrow> distinct (contents bw @ contents fw)"
    and nar: "OutOfRange \<in> Er \<or> card (other_vars (lit_not p) (contents fw)) < 64"
    using candidate_lists [OF I p] by blast
  have blk: "ix_isBlockedSet T p (ga_index st) = Inr (blocked_set p (contents bw) (contents fw))"
    using inv_blocked [OF D(1) p at(2,1)] .
  show ?thesis
  proof (cases "fw \<noteq> [] \<and> blocked_set p (contents bw) (contents fw)")
    case False
    with at blk show ?thesis by (auto simp: checkAddGate_def)
  next
    case True
    then have ne: "fw \<noteq> []" and bl: "blocked_set p (contents bw) (contents fw)" by simp_all
    have eq: "checkAddGate T e p st =
        bind_res (pattern_type e p fw bw) (\<lambda>ty.
          let (ty, s) = semantic_type e p fw bw ty (ga_solver st); st = st\<lparr>ga_solver := s\<rparr>
          in if ty \<noteq> NONE then
               bind_res (getInputLiterals (lit_not p) fw) (\<lambda>ins.
               bind_res (addGate ty p fw bw ins (ga_formula st)) (\<lambda>g.
                 Inr (True, st\<lparr>ga_formula := g\<rparr>)))
             else Inr (False, st))"
      using at blk ne bl by (simp add: checkAddGate_def)
    obtain ins where ins: "getInputLiterals (lit_not p) fw = Inr ins"
      "\<And>l. l \<in> set ins \<Longrightarrow> \<exists>c \<in> set (contents fw). l \<in> set c"
      using getInputLiterals_ok [of fw "lit_not p"] gate_listsD(1,2) [OF gl] by blast
    have insb: "l < 2 + 2 * n" if "l \<in> set ins" for l
      using ins(2) [OF that] ls(3) inv_bound [OF D(1)] by auto
    show ?thesis
      unfolding eq
    proof (rule res_ok_bind [OF pattern_type_ok [OF gl bl nar]])
      fix ty
      assume fun_ty: "ty \<noteq> MONO \<and> (ty \<noteq> NONE \<longrightarrow> distinct (contents bw @ contents fw)
        \<longrightarrow> functional p (contents bw @ contents fw))"
      obtain ty' s where st: "semantic_type e p fw bw ty (ga_solver st) = (ty', s)"
        by (cases "semantic_type e p fw bw ty (ga_solver st)")
      have mono: "ty' \<noteq> MONO" using semantic_type_no_MONO [of ty e p fw bw "ga_solver st"] fun_ty st by simp
      show "res_ok Er (\<lambda>(added, st'). ga_index st' = ga_index st
          \<and> (if added then gate_added fn n D p (ga_formula st) (ga_formula st')
             else ga_formula st' = ga_formula st))
        (let (ty, s) = semantic_type e p fw bw ty (ga_solver st); st = st\<lparr>ga_solver := s\<rparr>
          in if ty \<noteq> NONE then
               bind_res (getInputLiterals (lit_not p) fw) (\<lambda>ins.
               bind_res (addGate ty p fw bw ins (ga_formula st)) (\<lambda>g.
                 Inr (True, st\<lparr>ga_formula := g\<rparr>)))
             else Inr (False, st))"
      proof (cases "ty' = NONE")
        case True
        with st show ?thesis by simp
      next
        case False
        obtain g' nm where g': "addGate ty' p fw bw ins (ga_formula st) = Inr g'"
          and fr: "gf_frame ((ga_formula st)\<lparr>gates := (gates (ga_formula st))[lit_var p :=
                \<lparr>gtype = ty', out = p, fwd = fw, bwd = bw, notMono = nm, inp = ins\<rparr>]\<rparr>) g'"
          using addGate_ok [OF D(2) p insb] by blast
        define ga where "ga = \<lparr>gtype = ty', out = p, fwd = fw, bwd = bw, notMono = nm, inp = ins\<rparr>"
        have gates: "gates g' = (gates (ga_formula st))[lit_var p := ga]"
          and rest: "roots g' = roots (ga_formula st)" "remainder g' = remainder (ga_formula st)"
          using gf_frame_simps [OF fr] by (simp_all add: ga_def)
        have v: "lit_var p < length (gates (ga_formula st))"
          using D(2) lit_var_bound [OF p] by (simp add: gf_sized_def)
        have sized: "gf_sized n g'"
          using D(2) fr by (simp add: gf_sized_def gf_frame_def)
        have fnl: "functional p (contents bw @ contents fw)" if "fn"
          using fun_ty dist [OF that] D(7) [OF that] st False
          by (simp add: semantic_type_pattern)
        note add = struct_ok_add [OF D(3) v _ ls(3) ne ls(4) bl False mono fnl, where ga = ga and g' = g']
        have so: "struct_ok fn g' (D - (set fw \<union> set bw))"
          by (rule add(1)) (use inv_clause [OF D(1)] gates ins(2) in \<open>auto simp: ga_def\<close>)
        have ms: "mset (gate_clps g') = mset (gate_clps (ga_formula st)) + mset fw + mset bw"
          by (rule add(2)) (use inv_clause [OF D(1)] gates ins(2) in \<open>auto simp: ga_def\<close>)
        have "gates g' ! lit_var p = ga" using gates v by simp
        then have "gate_added fn n D p (ga_formula st) g'"
          unfolding gate_added_def Let_def
          using ls ne sized so ms rest insb by (auto simp: ga_def Diff_Diff_Int set_diff_eq)
        with st False ins(1) g' show ?thesis by simp
      qed
    qed
  qed
qed

text \<open>A recorded gate takes its clauses out of the index.\<close>

lemma ga_inv_added:
  assumes I: "ga_inv e Er fn n Cs U D st"
    and ad: "gate_added fn n D p (ga_formula st) g'"
    and ga: "ga = gates g' ! lit_var p"
    and ix: "inv ix (D - set (fwd ga) - set (bwd ga)) U n"
    and st': "ga_formula st' = g'" "ga_index st' = ix"
  shows "ga_inv e Er fn n Cs U (D - set (fwd ga) - set (bwd ga)) st'"
proof -
  note D = ga_invD [OF I]
  let ?F = "set (fwd ga)" and ?B = "set (bwd ga)"
  have a: "distinct (fwd ga)" "distinct (bwd ga)" "?F \<subseteq> D" "?B \<subseteq> D" "?F \<inter> ?B = {}"
    "gf_sized n g'" "struct_ok fn g' (D - ?F - ?B)"
    "mset (gate_clps g') = mset (gate_clps (ga_formula st)) + mset (fwd ga) + mset (bwd ga)"
    "roots g' = roots (ga_formula st)" "remainder g' = remainder (ga_formula st)"
    using ad by (auto simp: gate_added_def Let_def ga)
  have fin: "finite D" using inv_finite [OF D(1)] .
  have "mset_set D = mset_set (D - (?F \<union> ?B)) + mset_set (?F \<union> ?B)"
    using fin a by (intro mset_set_split) auto
  also have "mset_set (?F \<union> ?B) = mset (fwd ga) + mset (bwd ga)"
    using a by (simp add: mset_set_Union mset_set_set)
  finally have "mset_set D = mset_set (D - ?F - ?B) + (mset (fwd ga) + mset (bwd ga))"
    by (simp add: Diff_eq Compl_Un inf_assoc)
  then have ms: "mset (roots g') + mset (gate_clps g') + mset U + mset_set (D - ?F - ?B) = Cs"
    using D(4) a(8,9) by (simp add: ac_simps)
  have "fn \<Longrightarrow> inj_on cl_lits (D - ?F - ?B)"
    using D(6) by (intro inj_on_diff)
  moreover have "OutOfRange \<in> Er \<or> narrow (D - ?F - ?B)"
    using D(8) narrow_mono [of D "D - ?F - ?B"] by auto
  ultimately have "fn \<Longrightarrow> inj_on cl_lits (D - ?F - ?B)" "OutOfRange \<in> Er \<or> narrow (D - ?F - ?B)"
    by simp_all
  with ix a ms st' D(5,7) show ?thesis by (simp add: ga_inv_def)
qed

text \<open>What a step of the search does to the invariant: \<open>D\<close> shrinks, strictly when gates are found.\<close>

definition step_ok ::
  "env \<Rightarrow> err set \<Rightarrow> bool \<Rightarrow> nat \<Rightarrow> clp multiset \<Rightarrow> clp list \<Rightarrow> clp set \<Rightarrow>
    lit list \<times> 't analyzer \<Rightarrow> bool" where
  "step_ok e Er fn n Cs U D = (\<lambda>(fr, st). (\<forall>l \<in> set fr. l < 2 + 2 * n)
     \<and> (\<exists>D'. ga_inv e Er fn n Cs U D' st \<and> D' \<subseteq> D \<and> (fr \<noteq> [] \<longrightarrow> D' \<subset> D)))"

lemma try_candidate_ok:
  assumes S: "step_ok e Er fn n Cs U D (fr, st)" and p: "p < 2 + 2 * n"
  shows "res_ok Er (step_ok e Er fn n Cs U D) (try_candidate T e p (fr, st))"
proof -
  obtain D1 where I: "ga_inv e Er fn n Cs U D1 st" and D1: "D1 \<subseteq> D" "fr \<noteq> [] \<Longrightarrow> D1 \<subset> D"
    and fr: "\<forall>l \<in> set fr. l < 2 + 2 * n"
    using S by (auto simp: step_ok_def)
  show ?thesis
    unfolding try_candidate_def prod.case
  proof (rule res_ok_bind [OF checkAddGate_ok [OF I p]])
    fix r :: "bool \<times> 't analyzer"
    assume R: "case r of (added, st') \<Rightarrow> ga_index st' = ga_index st
      \<and> (if added then gate_added fn n D1 p (ga_formula st) (ga_formula st')
         else ga_formula st' = ga_formula st)"
    obtain added st' where r: "r = (added, st')" by (cases r)
    have ix: "ga_index st' = ga_index st"
      and ad: "if added then gate_added fn n D1 p (ga_formula st) (ga_formula st')
        else ga_formula st' = ga_formula st"
      using R r by simp_all
    have "res_ok Er (step_ok e Er fn n Cs U D)
      (if added then bind_res (getGate p (ga_formula st')) (\<lambda>ga.
           bind_res (ix_remove T (fwd ga) (ga_index st)) (\<lambda>ix.
           bind_res (ix_remove T (bwd ga) ix) (\<lambda>ix.
             Inr (fr @ inp ga, st'\<lparr>ga_index := ix\<rparr>))))
         else Inr (fr, st'))"
    proof (cases added)
      case False
      with ad ix I have "ga_inv e Er fn n Cs U D1 st'" by (simp add: ga_inv_def)
      with False D1 fr show ?thesis by (auto simp: step_ok_def)
    next
      case True
      define ga where "ga = gates (ga_formula st') ! lit_var p"
      have ad: "gate_added fn n D1 p (ga_formula st) (ga_formula st')" using ad True by simp
      then have a: "fwd ga \<noteq> []" "distinct (fwd ga)" "distinct (bwd ga)" "set (fwd ga) \<subseteq> D1"
        "set (bwd ga) \<subseteq> D1" "set (fwd ga) \<inter> set (bwd ga) = {}" "gf_sized n (ga_formula st')"
        "\<forall>l \<in> set (inp ga). l < 2 + 2 * n"
        by (auto simp: gate_added_def Let_def ga_def)
      have gg: "getGate p (ga_formula st') = Inr ga"
        using a(7) lit_var_bound [OF p] by (simp add: getGate_def gf_sized_def ga_def)
      obtain ix1 where ix1: "ix_remove T (fwd ga) (ga_index st) = Inr ix1"
        "inv ix1 (D1 - set (fwd ga)) U n"
        using inv_remove [OF ga_invD(1) [OF I] a(4,2)] by blast
      have "set (bwd ga) \<subseteq> D1 - set (fwd ga)" using a(5,6) by blast
      then obtain ix2 where ix2: "ix_remove T (bwd ga) ix1 = Inr ix2"
        "inv ix2 (D1 - set (fwd ga) - set (bwd ga)) U n"
        using inv_remove [OF ix1(2) _ a(3)] by blast
      let ?st = "st'\<lparr>ga_index := ix2\<rparr>" and ?D = "D1 - set (fwd ga) - set (bwd ga)"
      have I': "ga_inv e Er fn n Cs U ?D ?st"
        by (rule ga_inv_added [OF I ad ga_def ix2(2)]) simp_all
      have "?D \<subset> D1" using a(1,4) by (cases "fwd ga") auto
      with D1 have "?D \<subset> D" by blast
      with I' fr a(8) have "step_ok e Er fn n Cs U D (fr @ inp ga, ?st)"
        by (auto simp: step_ok_def intro!: exI [of _ ?D])
      with True gg ix1 ix2 show ?thesis by simp
    qed
    then show "res_ok Er (step_ok e Er fn n Cs U D)
      (case r of (added, st) \<Rightarrow>
         if added then bind_res (getGate p (ga_formula st)) (\<lambda>ga.
           bind_res (ix_remove T (fwd ga) (ga_index st)) (\<lambda>ix.
           bind_res (ix_remove T (bwd ga) ix) (\<lambda>ix.
             Inr (fr @ inp ga, st\<lparr>ga_index := ix\<rparr>))))
         else Inr (fr, st))"
      by (simp only: r ix prod.case)
  qed
qed

lemma try_candidates_ok:
  assumes I: "ga_inv e Er fn n Cs U D st" and cs: "\<And>l. l \<in> set cs \<Longrightarrow> l < 2 + 2 * n"
  shows "res_ok Er (step_ok e Er fn n Cs U D) (fold_res (try_candidate T e) cs ([], st))"
proof (rule res_ok_fold [where I = "\<lambda>_. step_ok e Er fn n Cs U D"])
  show "step_ok e Er fn n Cs U D ([], st)" using I by (auto simp: step_ok_def)
next
  fix ys p zs and t :: "lit list \<times> 't analyzer"
  assume "cs = ys @ p # zs" and S: "step_ok e Er fn n Cs U D t"
  then have "p < 2 + 2 * n" using cs by simp
  with S try_candidate_ok [of e Er fn n Cs U D "fst t" "snd t" p]
  show "res_ok Er (step_ok e Er fn n Cs U D) (try_candidate T e p t)" by simp
qed

text \<open>Each round that finds gates removes clauses, so fuel above their number is enough.\<close>

lemma recognition_loop_ok:
  assumes e: "env_ok e Er" and "ga_inv e Er fn n Cs U D st" and "card D < fuel"
    and "\<And>l. l \<in> set cs \<Longrightarrow> l < 2 + 2 * n"
  shows "res_ok Er (\<lambda>st'. \<exists>D' \<subseteq> D. ga_inv e Er fn n Cs U D' st') (recognition_loop T e fuel cs st)"
  using assms(2-)
proof (induction fuel arbitrary: cs st D)
  case (Suc fuel)
  show ?case
  proof (cases "cs = []")
    case True
    with Suc.prems(1) show ?thesis by (auto simp: recognition_loop.simps)
  next
    case False
    have eq: "recognition_loop T e (Suc fuel) cs st =
        bind_res (check_limits e st) (\<lambda>st.
          bind_res (fold_res (try_candidate T e) cs ([], st)) (\<lambda>(frontier, st).
            recognition_loop T e fuel (lit_order e (remdups frontier)) st))"
      using False by (subst recognition_loop.simps) simp
    have lim: "res_ok Er (ga_inv e Er fn n Cs U D) (check_limits e st)"
      unfolding check_limits_def
      by (rule res_ok_bind [OF env_okD(3) [OF e]]) (use Suc.prems(1) in \<open>simp add: ga_inv_def\<close>)
    show ?thesis
      unfolding eq
    proof (rule res_ok_bind [OF lim])
      fix st1 assume I1: "ga_inv e Er fn n Cs U D st1"
      show "res_ok Er (\<lambda>st'. \<exists>D' \<subseteq> D. ga_inv e Er fn n Cs U D' st')
        (bind_res (fold_res (try_candidate T e) cs ([], st1)) (\<lambda>(frontier, st).
          recognition_loop T e fuel (lit_order e (remdups frontier)) st))"
      proof (rule res_ok_bind [OF try_candidates_ok [OF I1 Suc.prems(3)]], assumption, clarsimp)
        fix fr st2 assume S: "step_ok e Er fn n Cs U D (fr, st2)"
        then obtain D2 where I2: "ga_inv e Er fn n Cs U D2 st2" "D2 \<subseteq> D" "fr \<noteq> [] \<Longrightarrow> D2 \<subset> D"
          and b: "\<forall>l \<in> set fr. l < 2 + 2 * n"
          by (auto simp: step_ok_def)
        have ord: "set (lit_order e (remdups fr)) = set fr"
          using env_okD(1) [OF e, of "remdups fr"] by simp
        show "res_ok Er (\<lambda>st'. \<exists>D' \<subseteq> D. ga_inv e Er fn n Cs U D' st')
            (recognition_loop T e fuel (lit_order e (remdups fr)) st2)"
        proof (cases "fr = []")
          case True
          then have "lit_order e (remdups fr) = []" using ord by simp
          with I2 show ?thesis by (auto simp: recognition_loop.simps)
        next
          case False
          have "finite D" using inv_finite [OF ga_invD(1) [OF Suc.prems(1)]] .
          then have "card D2 < card D" using I2(3) [OF False] by (rule psubset_card_mono)
          then have "res_ok Er (\<lambda>st'. \<exists>D' \<subseteq> D2. ga_inv e Er fn n Cs U D' st')
            (recognition_loop T e fuel (lit_order e (remdups fr)) st2)"
            using Suc.IH [OF I2(1), of "lit_order e (remdups fr)"] Suc.prems(2) b ord by auto
          then show ?thesis by (rule res_ok_mono) (use I2(2) in blast)
        qed
      qed
    qed
  qed
qed simp

text \<open>The root clauses of one round.\<close>

definition taken ::
  "nat \<Rightarrow> 't analyzer \<Rightarrow> clp list \<Rightarrow> lit list \<times> 't analyzer \<Rightarrow> bool" where
  "taken n st rs = (\<lambda>(cs, st'). (\<forall>l \<in> set cs. l < 2 + 2 * n) \<and> ga_index st' = ga_index st
     \<and> gf_sized n (ga_formula st') \<and> roots (ga_formula st') = roots (ga_formula st) @ rs
     \<and> gates (ga_formula st') = gates (ga_formula st)
     \<and> remainder (ga_formula st') = remainder (ga_formula st))"

lemma take_roots_ok:
  assumes "gf_sized n (ga_formula st)"
    and rs: "\<And>c l. c \<in> set rs \<Longrightarrow> l \<in> set (cl_lits c) \<Longrightarrow> l < 2 + 2 * n"
  shows "res_ok Er (taken n st rs) (fold_res take_root rs ([], st))"
proof (rule res_ok_fold)
  show "taken n st [] ([], st)" using assms(1) by (simp add: taken_def)
next
  fix ys c zs and t :: "lit list \<times> 't analyzer"
  assume split: "rs = ys @ c # zs" and I: "taken n st ys t"
  obtain cs st1 where t: "t = (cs, st1)" by (cases t)
  have b: "\<And>l. l \<in> set (cl_lits c) \<Longrightarrow> l < 2 + 2 * n"
    by (rule rs [of c]) (simp_all add: split)
  obtain g' where "addRoot c (ga_formula st1) = Inr g'"
    and fr: "gf_frame ((ga_formula st1)\<lparr>roots := roots (ga_formula st1) @ [c]\<rparr>) g'"
    using addRoot_ok [of n "ga_formula st1" c] I b by (auto simp: taken_def t)
  then show "res_ok Er (taken n st (ys @ [c])) (take_root c t)"
    using I b gf_frame_simps [OF fr] by (auto simp: t take_root_def taken_def gf_sized_def)
qed

text \<open>The clauses chosen as roots move from the waiting ones to the roots.\<close>

lemma ga_inv_taken:
  assumes "ga_inv e Er fn n Cs rs D st" and "taken n st rs (cs, st')"
    and "inv (ga_index st') D [] n"
  shows "ga_inv e Er fn n Cs [] D st'"
  using assms struct_ok_gates [of "ga_formula st'" "ga_formula st" fn D]
  by (simp add: ga_inv_def taken_def gate_clps_def ac_simps)

text \<open>
  The state between two rounds: \<open>rs\<close> are the root clauses just selected, no longer in the index
  and not yet in the formula.
\<close>

definition round_inv ::
  "env \<Rightarrow> err set \<Rightarrow> bool \<Rightarrow> nat \<Rightarrow> clp multiset \<Rightarrow> clp list \<Rightarrow> clp set \<Rightarrow> 't analyzer \<Rightarrow> bool" where
  "round_inv e Er fn n Cs rs D st \<longleftrightarrow>
     inv (ga_index st) D [] n \<and> (\<forall>c \<in> set rs. \<forall>l \<in> set (cl_lits c). l < 2 + 2 * n) \<and> (rs = [] \<longrightarrow> D = {})
     \<and> gf_sized n (ga_formula st) \<and> struct_ok fn (ga_formula st) D
     \<and> mset (roots (ga_formula st)) + mset (gate_clps (ga_formula st)) + mset rs + mset_set D = Cs
     \<and> remainder (ga_formula st) = []
     \<and> (fn \<longrightarrow> inj_on cl_lits D \<and> \<not> semantic e) \<and> (OutOfRange \<in> Er \<or> narrow D)"

lemma round_inv_taken:
  assumes "round_inv e Er fn n Cs rs D st" and "taken n st rs (cs, st')"
  shows "ga_inv e Er fn n Cs [] D st'"
  using assms struct_ok_gates [of "ga_formula st'" "ga_formula st" fn D]
  by (simp add: ga_inv_def round_inv_def taken_def gate_clps_def ac_simps)

lemma round_inv_select:
  assumes I: "ga_inv e Er fn n Cs [] D st"
  shows "\<exists>r ix'. ix_estimateRoots T (ga_index st) = Inr (r, ix')
      \<and> round_inv e Er fn n Cs r (D - set r) (st\<lparr>ga_index := ix'\<rparr>)
      \<and> (r \<noteq> [] \<longrightarrow> D - set r \<subset> D)"
proof -
  note D = ga_invD [OF I]
  obtain r ix' where r: "ix_estimateRoots T (ga_index st) = Inr (r, ix')" "distinct r"
    "set r \<subseteq> D" "inv ix' (D - set r) [] n" "r = [] \<Longrightarrow> D = {}"
    using inv_roots [OF D(1)] by blast
  have fin: "finite D" using inv_finite [OF D(1)] .
  have "mset_set D = mset_set (D - set r) + mset_set (set r)"
    using fin r(3) by (simp add: mset_set_split)
  then have ms: "mset_set D = mset_set (D - set r) + mset r" using r(2) by (simp add: mset_set_set)
  have "struct_ok fn (ga_formula st) (D - set r)"
    using struct_ok_mono [OF D(3)] by blast
  moreover have "fn \<longrightarrow> inj_on cl_lits (D - set r)" "OutOfRange \<in> Er \<or> narrow (D - set r)"
    using D(6) D(8) inj_on_diff narrow_mono [of D "D - set r"] by auto
  moreover have "\<forall>c \<in> set r. \<forall>l \<in> set (cl_lits c). l < 2 + 2 * n"
    using inv_bound [OF D(1)] r(3) by blast
  ultimately have "round_inv e Er fn n Cs r (D - set r) (st\<lparr>ga_index := ix'\<rparr>)"
    using D r(4,5) ms by (auto simp: round_inv_def ac_simps)
  moreover have "r \<noteq> [] \<longrightarrow> D - set r \<subset> D" using r(3) by (cases r) auto
  ultimately show ?thesis using r(1) by blast
qed

lemma analyze_loop_ok:
  assumes e: "env_ok e Er" and "round_inv e Er fn n Cs rs D st" and "card D < fuel"
  shows "res_ok Er (\<lambda>st'. \<exists>rs' D'. round_inv e Er fn n Cs rs' D' st' \<and> (to \<or> rs' = [] \<or> (\<exists>k. timed_out e k)))
    (analyze_loop T e fuel k rs to st)"
  using assms(2-)
proof (induction fuel arbitrary: k rs to st D)
  case (Suc fuel)
  show ?case
  proof (cases "rs = [] \<or> to")
    case True
    with Suc.prems(1) show ?thesis by (auto simp: analyze_loop.simps)
  next
    case False
    have eq: "analyze_loop T e (Suc fuel) k rs to st =
        bind_res (fold_res take_root rs ([], st)) (\<lambda>(candidates, st).
          bind_res (gate_recognition T e (Suc fuel) candidates st) (\<lambda>st.
          bind_res (ix_estimateRoots T (ga_index st)) (\<lambda>(rs, ix).
            analyze_loop T e fuel (k + 1) rs (timed_out e k) (st\<lparr>ga_index := ix\<rparr>))))"
      using False by (subst analyze_loop.simps) simp
    have tk: "res_ok Er (taken n st rs) (fold_res take_root rs ([], st))"
      using Suc.prems(1) by (intro take_roots_ok) (auto simp: round_inv_def)
    show ?thesis
      unfolding eq
    proof (rule res_ok_bind [OF tk], clarify)
      fix cs st1 assume t: "taken n st rs (cs, st1)"
      have I: "ga_inv e Er fn n Cs [] D st1" using round_inv_taken [OF Suc.prems(1) t] .
      have cs: "\<And>l. l \<in> set cs \<Longrightarrow> l < 2 + 2 * n" using t by (auto simp: taken_def)
      show "res_ok Er (\<lambda>st'. \<exists>rs' D'. round_inv e Er fn n Cs rs' D' st'
          \<and> (to \<or> rs' = [] \<or> (\<exists>k. timed_out e k)))
        (bind_res (gate_recognition T e (Suc fuel) cs st1) (\<lambda>st.
          bind_res (ix_estimateRoots T (ga_index st)) (\<lambda>(rs, ix).
            analyze_loop T e fuel (k + 1) rs (timed_out e k) (st\<lparr>ga_index := ix\<rparr>))))"
        unfolding gate_recognition_def
      proof (rule res_ok_bind [OF recognition_loop_ok [OF e I Suc.prems(2) cs]], assumption)
        fix st2 assume "\<exists>D' \<subseteq> D. ga_inv e Er fn n Cs [] D' st2"
        then obtain D2 where D2: "D2 \<subseteq> D" "ga_inv e Er fn n Cs [] D2 st2" by blast
        obtain r ix' where r: "ix_estimateRoots T (ga_index st2) = Inr (r, ix')"
          "round_inv e Er fn n Cs r (D2 - set r) (st2\<lparr>ga_index := ix'\<rparr>)"
          "r \<noteq> [] \<Longrightarrow> D2 - set r \<subset> D2"
          using round_inv_select [OF D2(2)] by blast
        have fin: "finite D" using Suc.prems(1) inv_finite by (auto simp: round_inv_def)
        show "res_ok Er (\<lambda>st'. \<exists>rs' D'. round_inv e Er fn n Cs rs' D' st'
            \<and> (to \<or> rs' = [] \<or> (\<exists>k. timed_out e k)))
          (bind_res (ix_estimateRoots T (ga_index st2)) (\<lambda>(rs, ix).
            analyze_loop T e fuel (k + 1) rs (timed_out e k) (st2\<lparr>ga_index := ix\<rparr>)))"
        proof (cases "r = []")
          case True
          with r(1,2) show ?thesis by (auto simp: analyze_loop.simps)
        next
          case False
          have "card (D2 - set r) < card D"
            using r(3) [OF False] D2(1) fin by (intro psubset_card_mono) auto
          then have "res_ok Er (\<lambda>st'. \<exists>rs' D'. round_inv e Er fn n Cs rs' D' st'
              \<and> (timed_out e k \<or> rs' = [] \<or> (\<exists>k. timed_out e k)))
            (analyze_loop T e fuel (k + 1) r (timed_out e k) (st2\<lparr>ga_index := ix'\<rparr>))"
            using Suc.IH [OF r(2)] Suc.prems(2) by simp
          with r(1) show ?thesis by (auto elim!: res_ok_mono)
        qed
      qed
    qed
  qed
qed simp

text \<open>The closing loop puts every clause of the index into the remainder, once.\<close>

lemma collect_ok:
  assumes e: "env_ok e Er" and I: "inv (ga_index st) D U n"
  shows "\<exists>ps. collect_remainder T e st = Inr (st\<lparr>ga_formula := (ga_formula st)\<lparr>remainder :=
      remainder (ga_formula st) @ ps\<rparr>\<rparr>) \<and> mset ps = mset_set D"
proof -
  let ?f = "\<lambda>l acc. bind_res (ix_at T (ga_index st) l) (\<lambda>xs. Inr (acc @ xs))"
  let ?I = "\<lambda>ls acc. set acc = {c \<in> D. \<exists>l \<in> set ls. l \<in> set (cl_lits c)}"
  have "\<exists>acc. fold_res ?f [0 ..< ix_size T (ga_index st)] [] = Inr acc
      \<and> ?I [0 ..< ix_size T (ga_index st)] acc"
  proof (rule fold_res_total)
    fix ys l zs acc
    assume split: "[0 ..< ix_size T (ga_index st)] = ys @ l # zs" and J: "?I ys acc"
    have "l \<in> set [0 ..< ix_size T (ga_index st)]" unfolding split by simp
    then have "l < 2 + 2 * n" unfolding inv_size [OF I] by auto
    then obtain xs where "ix_at T (ga_index st) l = Inr xs" "set xs = {c \<in> D. l \<in> set (cl_lits c)}"
      using inv_at [OF I] by blast
    with J show "\<exists>acc'. ?f l acc = Inr acc' \<and> ?I (ys @ [l]) acc'" by auto
  qed simp
  then obtain acc where acc: "fold_res ?f [0 ..< ix_size T (ga_index st)] [] = Inr acc"
    "set acc = {c \<in> D. \<exists>l \<in> set [0 ..< ix_size T (ga_index st)]. l \<in> set (cl_lits c)}"
    by blast
  have "\<exists>l < 2 + 2 * n. l \<in> set (cl_lits c)" if "c \<in> D" for c
    using inv_clause [OF I that] inv_bound [OF I, of c "hd (cl_lits c)"] that
    by (intro exI [of _ "hd (cl_lits c)"]) auto
  moreover define m where "m = 2 + 2 * n"
  ultimately have "\<exists>l < m. l \<in> set (cl_lits c)" if "c \<in> D" for c using that by blast
  moreover have "ix_size T (ga_index st) = m" using inv_size [OF I] m_def by simp
  ultimately have "set acc = D" using acc(2) by fastforce
  then have "mset (clause_order e (remdups acc)) = mset_set D"
    using env_okD(2) [OF e, of "remdups acc"] by (metis distinct_remdups mset_set_set set_remdups)
  with acc(1) show ?thesis
    by (intro exI [of _ "clause_order e (remdups acc)"]) (simp add: collect_remainder_def)
qed

text \<open>
  The whole analysis: every clause the index was given is a root, in a gate or in the remainder,
  exactly once, and the structure is sound over the remainder.  When the time runs out, the root
  clauses selected last (\<open>lost\<close>) are missing; otherwise the index ends empty and so does the remainder.
\<close>

lemma analyze_ok:
  assumes e: "env_ok e Er" and I: "ga_inv e Er fn n Cs U D st" and fuel: "card D < fuel"
  shows "res_ok Er (\<lambda>st'. struct_ok fn (ga_formula st') (set (remainder (ga_formula st')))
      \<and> gf_sized n (ga_formula st')
      \<and> (\<exists>lost. mset (roots (ga_formula st')) + mset (gate_clps (ga_formula st'))
           + mset (remainder (ga_formula st')) + mset lost = Cs
           \<and> (lost = [] \<and> remainder (ga_formula st') = [] \<or> lost \<noteq> [] \<and> (\<exists>k. timed_out e k)))) (analyze T e fuel st)"
proof -
  note D = ga_invD [OF I]
  have fin: "finite D" using inv_finite [OF D(1)] .
  have "\<exists>r ix'. ix_estimateRoots T (ga_index st) = Inr (r, ix')
      \<and> (\<exists>D' \<subseteq> D. round_inv e Er fn n Cs r D' (st\<lparr>ga_index := ix'\<rparr>))"
  proof (cases "U = []")
    case True
    with round_inv_select [of e Er fn n Cs D st] I show ?thesis by blast
  next
    case False
    from inv_roots_units [OF D(1) this] obtain ix' where
      ix': "ix_estimateRoots T (ga_index st) = Inr (U, ix')" "inv ix' D [] n" by blast
    have "\<forall>c \<in> set U. \<forall>l \<in> set (cl_lits c). l < 2 + 2 * n" using inv_bound [OF D(1)] by blast
    then have "round_inv e Er fn n Cs U D (st\<lparr>ga_index := ix'\<rparr>)"
      using D ix'(2) False by (simp add: round_inv_def)
    with ix'(1) show ?thesis by blast
  qed
  then obtain r ix' D1 where r: "ix_estimateRoots T (ga_index st) = Inr (r, ix')" "D1 \<subseteq> D"
    "round_inv e Er fn n Cs r D1 (st\<lparr>ga_index := ix'\<rparr>)"
    by blast
  have "card D1 < fuel" using card_mono [OF fin r(2)] fuel by simp
  note loop = analyze_loop_ok [OF e r(3) this, of False 0]
  have eq: "analyze T e fuel st = bind_res (analyze_loop T e fuel 0 r False (st\<lparr>ga_index := ix'\<rparr>))
      (\<lambda>st. collect_remainder T e st)"
    using r(1) by (simp add: analyze_def)
  show ?thesis
    unfolding eq
  proof (rule res_ok_bind [OF loop])
    fix st1
    assume "\<exists>rs' D'. round_inv e Er fn n Cs rs' D' st1 \<and> (False \<or> rs' = [] \<or> (\<exists>k. timed_out e k))"
    then obtain lost D2 where R: "round_inv e Er fn n Cs lost D2 st1"
      and lost: "lost = [] \<or> (\<exists>k. timed_out e k)" by blast
    obtain ps where ps: "collect_remainder T e st1 = Inr (st1\<lparr>ga_formula := (ga_formula st1)
        \<lparr>remainder := remainder (ga_formula st1) @ ps\<rparr>\<rparr>)" "mset ps = mset_set D2"
      using collect_ok [OF e, of st1 D2 "[]" n] R by (auto simp: round_inv_def)
    have "set ps = D2"
      using ps(2) R inv_finite [of "ga_index st1" D2 "[]" n]
      by (metis finite_set_mset_mset_set round_inv_def set_mset_mset)
    moreover have "mset (roots (ga_formula st1)) + mset (gate_clps (ga_formula st1)) + mset ps
        + mset lost = Cs"
      using R ps(2) by (simp add: round_inv_def ac_simps)
    moreover have "lost = [] \<longrightarrow> D2 = {}" using R by (simp add: round_inv_def)
    then have "lost = [] \<longrightarrow> ps = []" using ps(2) by auto
    ultimately show "res_ok Er (\<lambda>st'. struct_ok fn (ga_formula st') (set (remainder (ga_formula st')))
      \<and> gf_sized n (ga_formula st')
      \<and> (\<exists>lost. mset (roots (ga_formula st')) + mset (gate_clps (ga_formula st'))
           + mset (remainder (ga_formula st')) + mset lost = Cs
           \<and> (lost = [] \<and> remainder (ga_formula st') = [] \<or> lost \<noteq> [] \<and> (\<exists>k. timed_out e k)))) (collect_remainder T e st1)"
      using R ps(1) lost struct_ok_gates [of "(ga_formula st1)\<lparr>remainder := ps\<rparr>" "ga_formula st1" fn D2]
      by (auto simp: round_inv_def gf_sized_def gate_clps_def intro!: exI [of _ lost])
  qed
qed

end

section \<open>The occurrence list keeps the contract\<close>

definition occ_contract :: "occ \<Rightarrow> clp set \<Rightarrow> clp list \<Rightarrow> nat \<Rightarrow> bool" where
  "occ_contract oc D U n \<longleftrightarrow>
     occ_inv oc D \<and> unitc oc = U \<and> length (index oc) = 2 + 2 * n
     \<and> (\<forall>c \<in> set U. \<forall>l \<in> set (cl_lits c). l < 2 + 2 * n)"

lemma occ_invD: "occ_inv oc D \<Longrightarrow> occ_ok (index oc) D"
  by (simp add: occ_inv_def)

interpretation ol: clause_index occ_ops occ_contract
proof unfold_locales
  fix oc D U n assume I: "occ_contract oc D U n"
  then have ok: "occ_ok (index oc) D" and len: "length (index oc) = 2 + 2 * n"
    and inv: "occ_inv oc D" and u: "unitc oc = U"
    by (auto simp: occ_contract_def occ_inv_def)
  show "finite D" using occ_okD(1) [OF ok] .
  show "ix_size occ_ops oc = 2 + 2 * n" using len by (simp add: occ_ops_def occ_size_def)
  show "wf_clause (cl_lits c) \<and> cl_lits c \<noteq> []" if "c \<in> D" for c
    using occ_okD(2,3) [OF ok that] by blast
  show "l < 2 + 2 * n" if "c \<in> D \<union> set U" "l \<in> set (cl_lits c)" for c l
    using that occ_okD(4) [OF ok, of c l] I len by (auto simp: occ_contract_def)
  show "\<exists>xs. ix_at occ_ops oc l = Inr xs \<and> distinct xs \<and> set xs = {c \<in> D. l \<in> set (cl_lits c)}"
    if "l < 2 + 2 * n" for l
    using occ_okD(5,6) [OF ok, of l] that len by (simp add: occ_ops_def occ_at_def)
  show "ix_isBlockedSet occ_ops p oc = Inr (blocked_set p (contents bw) (contents fw))"
    if "p < 2 + 2 * n" "ix_at occ_ops oc p = Inr bw" "ix_at occ_ops oc (lit_not p) = Inr fw"
    for p bw fw
    using that isBlockedSet_ok [of p oc] lit_not_bound [OF that(1)] len
    by (simp add: occ_ops_def occ_at_def)
  show "\<exists>oc'. ix_remove occ_ops ps oc = Inr oc' \<and> occ_contract oc' (D - set ps) U n"
    if "set ps \<subseteq> D" "distinct ps" for ps
    using occ_remove_inv [OF inv that] I by (auto simp: occ_ops_def occ_contract_def)
  show "\<exists>oc'. ix_estimateRoots occ_ops oc = Inr (U, oc') \<and> occ_contract oc' D [] n" if "U \<noteq> []"
    using estimateRoots_units [of oc] that u I by (simp add: occ_ops_def occ_contract_def occ_inv_def)
next
  fix oc D n assume I: "occ_contract oc D [] n"
  then show "\<exists>r oc'. ix_estimateRoots occ_ops oc = Inr (r, oc') \<and> distinct r \<and> set r \<subseteq> D
      \<and> occ_contract oc' (D - set r) [] n \<and> (r = [] \<longrightarrow> D = {})"
    using estimateRoots_index [of oc D] by (auto simp: occ_ops_def occ_contract_def)
qed

section \<open>The analysis of a formula\<close>

definition nonempty_pointers :: "cnf \<Rightarrow> clp list" where
  "nonempty_pointers f = filter (\<lambda>p. cl_lits p \<noteq> []) (clause_pointers f)"

definition long_pointers :: "cnf \<Rightarrow> clp set" where
  "long_pointers f = {p \<in> set (clause_pointers f). 2 \<le> length (cl_lits p)}"

lemma distinct_clause_pointers: "distinct (clause_pointers f)"
  using distinct_map [of cl_addr "clause_pointers f"] by simp

lemma analyzer_init_inv:
  assumes "wf_cnf f" and fn: "fn \<Longrightarrow> distinct (formula f) \<and> \<not> semantic e"
    and nar: "OutOfRange \<in> Er \<or> narrow (long_pointers f)"
  shows "\<exists>oc U. occ_init f = Inr oc \<and>
    ol.ga_inv e Er fn (nVars f) (mset (nonempty_pointers f)) U (long_pointers f) (analyzer_init f vb oc)"
proof -
  let ?ps = "clause_pointers f"
  obtain oc where oc: "occ_init f = Inr oc" "occ_inv oc (long_pointers f)"
    "unitc oc = filter (\<lambda>p. length (cl_lits p) = 1) ?ps" "length (index oc) = 2 + 2 * nVars f"
    using occ_init_ok [OF assms(1)] by (auto simp: long_pointers_def)
  let ?U = "filter (\<lambda>p. length (cl_lits p) = 1) ?ps"
  have b: "l < 2 + 2 * nVars f" if "c \<in> set ?U" "l \<in> set (cl_lits c)" for c l
    using pointers_inv_init [OF assms(1)] that by (auto simp: pointers_inv_def)
  have "(cs \<noteq> []) = (length cs = 1 \<or> 2 \<le> length cs)" for cs :: clause
    by (cases cs; cases "tl cs") auto
  then have "nonempty_pointers f = filter (\<lambda>p. length (cl_lits p) = 1 \<or> 2 \<le> length (cl_lits p)) ?ps"
    unfolding nonempty_pointers_def by (intro filter_cong) auto
  then have "mset (nonempty_pointers f)
      = mset ?U + mset (filter (\<lambda>p. 2 \<le> length (cl_lits p)) ?ps)"
    by (simp del: mset_filter add: mset_filter_split)
  also have "mset (filter (\<lambda>p. 2 \<le> length (cl_lits p)) ?ps) = mset_set (long_pointers f)"
    using distinct_clause_pointers [of f] by (simp add: long_pointers_def mset_set_set flip: set_filter)
  finally have ms: "mset (nonempty_pointers f) = mset ?U + mset_set (long_pointers f)" .
  have inj: "inj_on cl_lits (long_pointers f)" if "fn"
  proof -
    have "distinct (map cl_lits ?ps)" using fn [OF that] by simp
    then have "inj_on cl_lits (set ?ps)" by (simp add: distinct_map del: map_clause_pointers)
    then show ?thesis by (rule inj_on_subset) (auto simp: long_pointers_def)
  qed
  have init: "gate_clps (gf_init n vb) = []" "roots (gf_init n vb) = []"
    "remainder (gf_init n vb) = []" "gf_sized n (gf_init n vb)" for n
    by (simp_all add: gate_clps_def gf_init_def gate_default_def gf_sized_def del: replicate_Suc)
  have "ol.ga_inv e Er fn (nVars f) (mset (nonempty_pointers f)) ?U (long_pointers f)
      (analyzer_init f vb oc)"
    unfolding ol.ga_inv_def analyzer_init_def
    using oc b ms inj fn nar
    by (auto simp: occ_contract_def init simp del: mset_filter)
  with oc(1) show ?thesis by blast
qed

lemma card_long_pointers: "card (long_pointers f) < nClauses f + 1"
proof -
  have "card (long_pointers f) \<le> card (set (clause_pointers f))"
    by (intro card_mono) (auto simp: long_pointers_def)
  also have "\<dots> \<le> nClauses f" using card_length [of "clause_pointers f"] by (simp add: nClauses_def)
  finally show ?thesis by simp
qed

lemma analyze_formula_ok:
  assumes "wf_cnf f" and e: "env_ok e Er"
    and fn: "fn \<Longrightarrow> distinct (formula f) \<and> \<not> semantic e"
    and nar: "OutOfRange \<in> Er \<or> narrow (long_pointers f)"
  shows "res_ok Er (\<lambda>g. struct_ok fn g (set (remainder g)) \<and> gf_sized (nVars f) g
      \<and> (\<exists>lost. mset (roots g) + mset (gate_clps g) + mset (remainder g) + mset lost
           = mset (nonempty_pointers f)
           \<and> (lost = [] \<and> remainder g = [] \<or> lost \<noteq> [] \<and> (\<exists>k. timed_out e k))))
    (analyze_formula e vb f)"
proof -
  obtain oc U where oc: "occ_init f = Inr oc" and
    I: "ol.ga_inv e Er fn (nVars f) (mset (nonempty_pointers f)) U (long_pointers f)
      (analyzer_init f vb oc)"
    using analyzer_init_inv [OF assms(1), of fn e Er vb] fn nar by blast
  have eq: "analyze_formula e vb f
      = bind_res (analyze occ_ops e (nClauses f + 1) (analyzer_init f vb oc)) (\<lambda>st. Inr (ga_formula st))"
    using oc by (simp add: analyze_formula_def)
  show ?thesis
    unfolding eq
    by (rule res_ok_bind [OF ol.analyze_ok [OF e I card_long_pointers]]) simp
qed

end
