(* ===== verification/Gate_Stats.thy ===== *)
theory Gate_Stats
  imports Gate_Analyzer
begin

text \<open>
  \<open>class GateStats\<close> of \<open>cnftools/src/features/GateStats.h\<close>: the levels of the gates, the counts by
  type and the lines \<open>printf\<close> writes, which are the auxiliary-variable file that CaDiCaL reads.
  The distributions pushed to \<open>record\<close> are floating point and not modelled.

  \<open>levels\<close> has \<open>n_vars\<close> elements but is used up to index \<open>n_vars\<close>.  The model keeps the word
  behind the vector as one more cell, with whatever it holds at the start (\<open>junk\<close>), and notes
  every access to it in \<open>overrun\<close>.
\<close>

record levels_mem =
  cells :: "nat list"
  n_cells :: nat
  overrun :: bool

definition levels_init :: "nat \<Rightarrow> nat \<Rightarrow> levels_mem" where
  "levels_init n junk = \<lparr>cells = replicate n 0 @ [junk], n_cells = n, overrun = False\<rparr>"

definition lv_read :: "nat \<Rightarrow> levels_mem \<Rightarrow> (nat \<times> levels_mem) res" where
  "lv_read i m = bind_res (vec_get (cells m) i) (\<lambda>x.
     Inr (x, m\<lparr>overrun := overrun m \<or> \<not> i < n_cells m\<rparr>))"

definition lv_write :: "nat \<Rightarrow> nat \<Rightarrow> levels_mem \<Rightarrow> levels_mem res" where
  "lv_write i x m = bind_res (vec_set (cells m) i x) (\<lambda>xs.
     Inr (m\<lparr>cells := xs, overrun := overrun m \<or> \<not> i < n_cells m\<rparr>))"

section \<open>Levels\<close>

definition level_step ::
  "gate_formula \<Rightarrow> nat \<Rightarrow> lit \<Rightarrow> lit list \<times> levels_mem \<Rightarrow> (lit list \<times> levels_mem) res" where
  "level_step g level l = (\<lambda>(nxt, m).
     bind_res (getGate l g) (\<lambda>ga.
       if isDefined ga then
         bind_res (lv_read (lit_var l) m) (\<lambda>(x, m).
           if x = 0 then bind_res (lv_write (lit_var l) level m) (\<lambda>m. Inr (nxt @ inp ga, m))
           else Inr (nxt, m))
       else Inr (nxt, m)))"

fun level_loop :: "gate_formula \<Rightarrow> nat \<Rightarrow> nat \<Rightarrow> lit list \<Rightarrow> levels_mem \<Rightarrow> levels_mem res" where
  "level_loop g fuel level current m =
     (if current = [] then Inr m
      else case fuel of
        0 \<Rightarrow> Inl OutOfFuel
      | Suc fuel \<Rightarrow>
          bind_res (fold_res (level_step g (level + 1)) current ([], m)) (\<lambda>(nxt, m).
            level_loop g fuel (level + 1) nxt m))"

declare level_loop.simps [simp del]

section \<open>Counts and output\<close>

record gate_stats =
  n_gates :: nat
  n_roots :: nat
  n_none :: nat
  n_generic :: nat
  n_mono :: nat
  n_and :: nat
  n_or :: nat
  n_triv :: nat
  n_equiv :: nat
  n_full :: nat
  levels_by :: "(gate_type \<times> nat) list"
  printed :: string

definition stats_init :: "gate_formula \<Rightarrow> gate_stats" where
  "stats_init g =
     \<lparr>n_gates = nGates g, n_roots = nRoots g, n_none = 0, n_generic = 0, n_mono = 0, n_and = 0,
      n_or = 0, n_triv = 0, n_equiv = 0, n_full = 0, levels_by = [], printed = []\<rparr>"

definition print_line :: "nat \<Rightarrow> string \<Rightarrow> gate_stats \<Rightarrow> gate_stats" where
  "print_line i tag s = s\<lparr>printed := printed s @ show_nat i @ '' '' @ tag @ [newline]\<rparr>"

text \<open>The \<open>switch\<close>: count, print; the level is pushed to the vector of the type.\<close>

definition count_type :: "nat \<Rightarrow> gate_type \<Rightarrow> gate_stats \<Rightarrow> gate_stats" where
  "count_type i ty s =
     (case ty of
        NONE \<Rightarrow> s\<lparr>n_none := n_none s + 1\<rparr>
      | GENERIC \<Rightarrow> print_line i ''GEN'' (s\<lparr>n_generic := n_generic s + 1\<rparr>)
      | AND \<Rightarrow> print_line i ''AND'' (s\<lparr>n_and := n_and s + 1\<rparr>)
      | OR \<Rightarrow> print_line i ''OR'' (s\<lparr>n_or := n_or s + 1\<rparr>)
      | TRIV \<Rightarrow> print_line i ''TRI'' (s\<lparr>n_triv := n_triv s + 1\<rparr>)
      | EQIV \<Rightarrow> print_line i ''EQV'' (s\<lparr>n_equiv := n_equiv s + 1\<rparr>)
      | FULL \<Rightarrow> print_line i ''FUL'' (s\<lparr>n_full := n_full s + 1\<rparr>)
      | MONO \<Rightarrow> s)"

definition stats_step ::
  "gate_formula \<Rightarrow> nat \<Rightarrow> gate_stats \<times> levels_mem \<Rightarrow> (gate_stats \<times> levels_mem) res" where
  "stats_step g i = (\<lambda>(s, m).
     bind_res (getGate (mk_lit i False) g) (\<lambda>ga.
       let s = count_type i (gtype ga) s in
       if gtype ga = MONO then Inr (s, m)
       else bind_res (lv_read i m) (\<lambda>(x, m).
         Inr (s\<lparr>levels_by := levels_by s @ [(gtype ga, x)]\<rparr>, m))))"

definition stats_of :: "gate_formula \<Rightarrow> nat \<Rightarrow> nat \<Rightarrow> (gate_stats \<times> levels_mem) res" where
  "stats_of g n junk =
     bind_res (level_loop g (n + 2) 0 (getRoots g) (levels_init n junk)) (\<lambda>m.
       fold_res (stats_step g) [1 ..< n + 1] (stats_init g, m))"

definition gate_stats_analyze ::
  "env \<Rightarrow> nat \<Rightarrow> nat \<Rightarrow> cnf \<Rightarrow> (gate_stats \<times> levels_mem) res" where
  "gate_stats_analyze e vb junk f =
     bind_res (analyze_formula (e\<lparr>patterns := True, semantic := True\<rparr>) vb f) (\<lambda>g.
       stats_of g (nVars f) junk)"

section \<open>The level loop ends\<close>

definition lv_ok :: "nat \<Rightarrow> levels_mem \<Rightarrow> bool" where
  "lv_ok n m \<longleftrightarrow> length (cells m) = n + 1 \<and> n_cells m = n"

definition unseen :: "levels_mem \<Rightarrow> nat" where
  "unseen m = length (filter (\<lambda>x. x = 0) (cells m))"

lemma lv_ok_init [simp]: "lv_ok n (levels_init n junk)"
  by (simp add: lv_ok_def levels_init_def)

lemma unseen_init: "unseen (levels_init n junk) \<le> n + 1"
  by (simp add: unseen_def levels_init_def)

lemma unseen_update:
  assumes "i < length xs" and "xs ! i = (0 :: nat)" and "x \<noteq> 0"
  shows "length (filter (\<lambda>x. x = 0) (xs[i := x])) < length (filter (\<lambda>x. x = 0) xs)"
proof -
  define A B where "A = take i xs" and "B = drop (Suc i) xs"
  have "xs = A @ 0 # B"
    using id_take_nth_drop [OF assms(1)] assms(2) by (simp add: A_def B_def)
  moreover have "xs[i := x] = A @ x # B"
    using assms(1) by (simp add: upd_conv_take_nth_drop A_def B_def)
  ultimately show ?thesis using assms(3) by simp
qed

text \<open>Every input literal of the recorded gates is in range, and so are the roots.\<close>

definition gates_bounded :: "nat \<Rightarrow> gate_formula \<Rightarrow> bool" where
  "gates_bounded n g \<longleftrightarrow>
     gf_sized n g \<and> (\<forall>ga \<in> set (gates g). isDefined ga \<longrightarrow> (\<forall>l \<in> set (inp ga). lit_var l \<le> n))
     \<and> (\<forall>c \<in> set (roots g). \<forall>l \<in> set (cl_lits c). lit_var l \<le> n)"

definition level_inv :: "nat \<Rightarrow> levels_mem \<Rightarrow> lit list \<times> levels_mem \<Rightarrow> bool" where
  "level_inv n m0 = (\<lambda>(nxt, m). lv_ok n m \<and> (\<forall>l \<in> set nxt. lit_var l \<le> n)
     \<and> unseen m \<le> unseen m0 \<and> (nxt \<noteq> [] \<longrightarrow> unseen m < unseen m0))"

lemma level_step_ok:
  assumes g: "gates_bounded n g" and l: "lit_var l \<le> n" and I: "level_inv n m0 (nxt, m)"
  shows "res_ok {} (level_inv n m0) (level_step g (Suc k) l (nxt, m))"
proof -
  have len: "length (cells m) = n + 1" "length (gates g) = 2 + n"
    using I g by (auto simp: level_inv_def lv_ok_def gates_bounded_def gf_sized_def)
  let ?ga = "gates g ! lit_var l"
  have get: "getGate l g = Inr ?ga" using l len by (simp add: getGate_def)
  have mem: "?ga \<in> set (gates g)" using l len by (intro nth_mem) simp
  have v: "lit_var l < length (cells m)" using l len by simp
  show ?thesis
  proof (cases "isDefined ?ga \<and> cells m ! lit_var l = 0")
    case True
    have "\<forall>l \<in> set (inp ?ga). lit_var l \<le> n" using g mem True by (auto simp: gates_bounded_def)
    moreover have "unseen (m\<lparr>cells := (cells m)[lit_var l := Suc k], overrun := b\<rparr>) < unseen m" for b
      using unseen_update [OF v] True by (simp add: unseen_def)
    then have "unseen (m\<lparr>cells := (cells m)[lit_var l := Suc k], overrun := b\<rparr>) < unseen m0" for b
      using I by (auto simp: level_inv_def intro: less_le_trans)
    ultimately show ?thesis
      using True I get v len
      by (auto simp: level_step_def lv_read_def lv_write_def level_inv_def lv_ok_def less_imp_le)
  next
    case False
    then show ?thesis
      using I get v by (auto simp: level_step_def lv_read_def level_inv_def lv_ok_def unseen_def)
  qed
qed

lemma level_loop_ok:
  assumes g: "gates_bounded n g" and "lv_ok n m" and "unseen m < fuel"
    and "\<And>l. l \<in> set ls \<Longrightarrow> lit_var l \<le> n"
  shows "res_ok {} (lv_ok n) (level_loop g fuel k ls m)"
  using assms(2-)
proof (induction fuel arbitrary: k ls m)
  case (Suc fuel)
  show ?case
  proof (cases "ls = []")
    case True
    with Suc.prems show ?thesis by (simp add: level_loop.simps)
  next
    case False
    have eq: "level_loop g (Suc fuel) k ls m =
        bind_res (fold_res (level_step g (k + 1)) ls ([], m)) (\<lambda>(nxt, m).
            level_loop g fuel (k + 1) nxt m)"
      using False by (subst level_loop.simps) simp
    have fold: "res_ok {} (level_inv n m) (fold_res (level_step g (k + 1)) ls ([], m))"
    proof (rule res_ok_fold [where I = "\<lambda>_. level_inv n m"])
      show "level_inv n m ([], m)" using Suc.prems by (simp add: level_inv_def)
    next
      fix ys l zs and t :: "lit list \<times> levels_mem"
      assume "ls = ys @ l # zs" and I: "level_inv n m t"
      then have "lit_var l \<le> n" using Suc.prems(3) [of l] by simp
      with level_step_ok [OF g, of l m "fst t" "snd t" k] I
      show "res_ok {} (level_inv n m) (level_step g (k + 1) l t)" by simp
    qed
    show ?thesis
      unfolding eq
    proof (rule res_ok_bind [OF fold], clarify)
      fix nxt m1 assume I: "level_inv n m (nxt, m1)"
      show "res_ok {} (lv_ok n) (level_loop g fuel (k + 1) nxt m1)"
      proof (cases "nxt = []")
        case True
        with I show ?thesis by (simp add: level_loop.simps level_inv_def)
      next
        case False
        with I Suc.prems(2) show ?thesis
          by (intro Suc.IH) (auto simp: level_inv_def)
      qed
    qed
  qed
qed simp

section \<open>What is printed\<close>

definition type_tag :: "gate_type \<Rightarrow> string option" where
  "type_tag ty =
     (case ty of NONE \<Rightarrow> None | MONO \<Rightarrow> None | GENERIC \<Rightarrow> Some ''GEN'' | AND \<Rightarrow> Some ''AND''
      | OR \<Rightarrow> Some ''OR'' | TRIV \<Rightarrow> Some ''TRI'' | EQIV \<Rightarrow> Some ''EQV'' | FULL \<Rightarrow> Some ''FUL'')"

definition aux_line :: "gate_formula \<Rightarrow> nat \<Rightarrow> string" where
  "aux_line g i =
     (case type_tag (gtype (gates g ! i)) of None \<Rightarrow> []
      | Some tag \<Rightarrow> show_nat i @ '' '' @ tag @ [newline])"

definition aux_vars :: "gate_formula \<Rightarrow> nat \<Rightarrow> nat list" where
  "aux_vars g n = filter (\<lambda>i. type_tag (gtype (gates g ! i)) \<noteq> None) [1 ..< n + 1]"

definition counts_sum :: "gate_stats \<Rightarrow> nat" where
  "counts_sum s = n_none s + n_generic s + n_and s + n_or s + n_triv s + n_equiv s + n_full s"

text \<open>The counter of a gate type; none is kept for \<open>MONO\<close>.\<close>

definition type_count :: "gate_stats \<Rightarrow> gate_type \<Rightarrow> nat" where
  "type_count s ty =
     (case ty of NONE \<Rightarrow> n_none s | GENERIC \<Rightarrow> n_generic s | AND \<Rightarrow> n_and s | OR \<Rightarrow> n_or s
      | TRIV \<Rightarrow> n_triv s | EQIV \<Rightarrow> n_equiv s | FULL \<Rightarrow> n_full s | MONO \<Rightarrow> 0)"

lemma stats_step_ok:
  assumes "gf_sized n g" and "lv_ok n m" and "i \<le> n"
  shows "\<exists>s' m'. stats_step g i (s, m) = Inr (s', m') \<and> lv_ok n m'
    \<and> printed s' = printed s @ aux_line g i
    \<and> counts_sum s' = counts_sum s + (if gtype (gates g ! i) = MONO then 0 else 1)
    \<and> (\<forall>ty. type_count s' ty
        = type_count s ty + (if gtype (gates g ! i) = ty \<and> ty \<noteq> MONO then 1 else 0))
    \<and> (overrun m' \<longleftrightarrow> overrun m \<or> i = n \<and> gtype (gates g ! i) \<noteq> MONO)"
proof -
  have "getGate (mk_lit i False) g = Inr (gates g ! i)"
    using assms by (simp add: getGate_def gf_sized_def)
  moreover have "i < length (cells m)" "n_cells m = n" using assms by (simp_all add: lv_ok_def)
  ultimately show ?thesis
    using assms(2,3)
    by (cases "gtype (gates g ! i)")
      (auto simp: stats_step_def count_type_def lv_read_def lv_ok_def print_line_def aux_line_def
        type_tag_def counts_sum_def type_count_def Let_def split: gate_type.splits)
qed

lemma stats_of_ok:
  assumes g: "gates_bounded n g"
  shows "\<exists>s m. stats_of g n junk = Inr (s, m)
    \<and> printed s = concat (map (aux_line g) [1 ..< n + 1])
    \<and> (0 < n \<and> gtype (gates g ! n) \<noteq> MONO \<longrightarrow> overrun m)
    \<and> counts_sum s = length (filter (\<lambda>i. gtype (gates g ! i) \<noteq> MONO) [1 ..< n + 1])
    \<and> (\<forall>ty. ty \<noteq> MONO \<longrightarrow>
        type_count s ty = length (filter (\<lambda>i. gtype (gates g ! i) = ty) [1 ..< n + 1]))"
proof -
  have "\<And>l. l \<in> set (getRoots g) \<Longrightarrow> lit_var l \<le> n"
    using g by (auto simp: getRoots_def gates_bounded_def)
  then have "res_ok {} (lv_ok n) (level_loop g (n + 2) 0 (getRoots g) (levels_init n junk))"
    using unseen_init [of n junk] by (intro level_loop_ok [OF g]) auto
  then obtain m where m: "level_loop g (n + 2) 0 (getRoots g) (levels_init n junk) = Inr m" "lv_ok n m"
    by (cases "level_loop g (n + 2) 0 (getRoots g) (levels_init n junk)") auto
  have sz: "gf_sized n g" using g by (simp add: gates_bounded_def)
  let ?I = "\<lambda>is (s, m). lv_ok n m \<and> printed s = concat (map (aux_line g) is)
    \<and> (n \<in> set is \<and> gtype (gates g ! n) \<noteq> MONO \<longrightarrow> overrun m)
    \<and> counts_sum s = length (filter (\<lambda>i. gtype (gates g ! i) \<noteq> MONO) is)
    \<and> (\<forall>ty. ty \<noteq> MONO \<longrightarrow> type_count s ty = length (filter (\<lambda>i. gtype (gates g ! i) = ty) is))"
  have "\<exists>t. fold_res (stats_step g) [1 ..< n + 1] (stats_init g, m) = Inr t \<and> ?I [1 ..< n + 1] t"
  proof (rule fold_res_total)
    show "?I [] (stats_init g, m)" using m(2) by (auto simp: stats_init_def counts_sum_def type_count_def split: gate_type.splits)
  next
    fix ys i zs t assume split: "[1 ..< n + 1] = ys @ i # zs" and I: "?I ys t"
    have "i \<in> set [1 ..< n + 1]" unfolding split by simp
    then have i: "i \<le> n" by auto
    obtain s1 m1 where t: "t = (s1, m1)" by (cases t)
    with I have "lv_ok n m1" by simp
    from stats_step_ok [OF sz this i, of s1] I t
    show "\<exists>t'. stats_step g i t = Inr t' \<and> ?I (ys @ [i]) t'" by auto
  qed
  then obtain s1 m1 where "fold_res (stats_step g) [1 ..< n + 1] (stats_init g, m) = Inr (s1, m1)"
    "?I [1 ..< n + 1] (s1, m1)" by fast
  moreover from this have "0 < n \<Longrightarrow> n \<in> set [1 ..< n + 1]" by simp
  ultimately show ?thesis using m(1) by (auto simp: stats_of_def simp del: upt_Suc)
qed

section \<open>The structure the analyzer delivers\<close>

lemma env_ok_UNIV: "env_ok e Er \<Longrightarrow> env_ok e UNIV"
  by (simp add: env_ok_def)

lemma gate_clps_nth: "v < length (gates g) \<Longrightarrow> c \<in> set (fwd (gates g ! v)) \<Longrightarrow> c \<in> set (gate_clps g)"
  by (auto simp: gate_clps_def intro!: bexI [of _ "gates g ! v"])

lemma analyze_gates_bounded:
  assumes wf: "wf_cnf f" and e: "env_ok e Er" and r: "analyze_formula e vb f = Inr g"
  shows "gates_bounded (nVars f) g"
proof -
  have A: "struct_ok False g (set (remainder g))" "gf_sized (nVars f) g"
    and "\<exists>lost. mset (roots g) + mset (gate_clps g) + mset (remainder g) + mset lost
        = mset (nonempty_pointers f)"
    using analyze_formula_ok [OF wf env_ok_UNIV [OF e], of False vb] r by auto
  then obtain lost where "mset (roots g @ gate_clps g @ remainder g @ lost) = mset (nonempty_pointers f)"
    by (auto simp: ac_simps)
  then have "set (roots g @ gate_clps g @ remainder g @ lost) = set (nonempty_pointers f)"
    by (rule mset_eq_setD)
  then have sub: "set (roots g) \<union> set (gate_clps g) \<subseteq> set (clause_pointers f)"
    by (auto simp: nonempty_pointers_def)
  have bound: "lit_var l \<le> nVars f" if "c \<in> set (clause_pointers f)" "l \<in> set (cl_lits c)" for c l
  proof -
    have "cl_lits c \<in> set (formula f)"
      using that(1) map_clause_pointers(2) [of f] by (metis image_eqI list.set_map)
    with wf that(2) show ?thesis by (auto simp: wf_cnf_def nVars_def)
  qed
  have "lit_var l \<le> nVars f" if ga: "ga \<in> set (gates g)" "isDefined ga" "l \<in> set (inp ga)" for ga l
  proof -
    obtain v where v: "v < length (gates g)" "ga = gates g ! v" using ga(1) by (auto simp: in_set_conv_nth)
    have "fwd ga \<noteq> []"
      using struct_okD(1) [OF A(1) v(1)] ga(2) v(2) by (auto simp: isDefined_def gate_default_def)
    then have "v \<in> outs g" using v by (simp add: outs_def)
    then obtain c where "c \<in> set (fwd ga)" "l \<in> set (cl_lits c)"
      using struct_okD(2) [OF A(1)] v(2) ga(3) by (auto simp: gate_wf_def)
    with sub bound gate_clps_nth [OF v(1)] v(2) show ?thesis by blast
  qed
  then show ?thesis using A(2) sub bound unfolding gates_bounded_def by blast
qed

text \<open>No gate is recorded as \<open>MONO\<close>: neither \<open>fPattern\<close> nor \<open>fSemantic\<close> returns that type.\<close>

lemma analyze_no_MONO:
  assumes "wf_cnf f" and "env_ok e Er" and "analyze_formula e vb f = Inr g" and "i \<le> nVars f"
  shows "gtype (gates g ! i) \<noteq> MONO"
proof -
  have A: "struct_ok False g (set (remainder g))" and "gf_sized (nVars f) g"
    using analyze_formula_ok [OF assms(1) env_ok_UNIV [OF assms(2)], of False vb] assms(3) by auto
  then have i: "i < length (gates g)" using assms(4) by (simp add: gf_sized_def)
  show ?thesis
  proof (cases "fwd (gates g ! i) = []")
    case True
    then show ?thesis using struct_okD(1) [OF A i] by (simp add: gate_default_def)
  next
    case False
    with i have "i \<in> outs g" by (simp add: outs_def)
    then show ?thesis using struct_okD(2) [OF A] by (simp add: gate_wf_def)
  qed
qed

text \<open>C16. On every structure the analysis delivers, \<open>GateStats\<close> ends its loop over levels and prints
  one line for every variable with a recognised gate, in increasing order, and nothing else; its
  counters of variables without a gate and of the six gate types add up to the number of variables.\<close>

theorem stats_of_prints:
  assumes "wf_cnf f" and "env_ok e Er" and "analyze_formula e vb f = Inr g"
  shows "\<exists>s m. stats_of g (nVars f) junk = Inr (s, m)
    \<and> printed s = concat (map (aux_line g) [1 ..< nVars f + 1])
    \<and> counts_sum s = nVars f"
proof -
  have "filter (\<lambda>i. gtype (gates g ! i) \<noteq> MONO) [1 ..< nVars f + 1] = [1 ..< nVars f + 1]"
    using analyze_no_MONO [OF assms] by (auto simp: filter_id_conv simp del: upt_Suc)
  with stats_of_ok [OF analyze_gates_bounded [OF assms], of junk] show ?thesis by (auto simp del: upt_Suc)
qed

end
