(* ===== verification/Gate_Theorems.thy ===== *)
theory Gate_Theorems
  imports Gate_Stats
begin

text \<open>
  The properties of the gate analysis as a whole (\<open>analyze_formula\<close>, the constructor of
  \<open>GateAnalyzer\<close> followed by \<open>analyze\<close>), with the inputs on which their hypotheses hold.
\<close>

section \<open>Example inputs\<close>

text \<open>An environment without limits; patterns only.\<close>

definition plain_env :: env where
  "plain_env =
     \<lparr>patterns = True, semantic = False, sat_solver = \<lambda>_ _. 0, env_limits = limits_init 0 0 0,
      cpu_time = \<lambda>_. 0, peak_memory = \<lambda>_. 0, timed_out = \<lambda>_. False, lit_order = \<lambda>xs. xs,
      clause_order = \<lambda>xs. xs\<rparr>"

lemma plain_env_ok: "env_ok plain_env Er"
  by (simp add: env_ok_def plain_env_def within_limits_def within_time_limit_def
      within_memory_limit_def limits_init_def)

text \<open>The unit clause 1 and the and gate 1 = 2 and 3.\<close>

definition and_cnf :: cnf where
  "and_cnf = cnf_of [[2], [3, 4], [6, 3], [5, 2, 7, 5]]"

lemma wf_cnf_of: "wf_cnf (cnf_of cs)"
  by (simp add: cnf_of_def readClauses_wf)

lemma and_cnf_eq: "and_cnf = \<lparr>formula = [[2], [3, 4], [3, 6], [2, 5, 7]], variables = 3\<rparr>"
  unfolding and_cnf_def by code_simp

definition and_structure :: gate_formula where
  "and_structure =
     (case analyze_formula plain_env 0 and_cnf of Inl _ \<Rightarrow> gf_init 0 0 | Inr g \<Rightarrow> g)"

lemma analyze_and_cnf: "analyze_formula plain_env 0 and_cnf = Inr and_structure"
  unfolding and_structure_def and_cnf_def by code_simp

lemma narrow_small:
  assumes "finite D" and "\<And>c l. c \<in> D \<Longrightarrow> l \<in> set (cl_lits c) \<Longrightarrow> lit_var l < 63"
  shows "narrow D"
proof -
  have "card (in_vars q D) \<le> card {..<63 :: nat}" for q
    using assms(2) by (intro card_mono) (auto simp: in_vars_def)
  then have "card (in_vars q D) < 64" for q
    by (rule order.strict_trans1) simp
  with assms(1) show ?thesis by (simp add: narrow_def)
qed

lemma narrow_and_cnf: "narrow (long_pointers and_cnf)"
proof (rule narrow_small)
  show "finite (long_pointers and_cnf)" by (simp add: long_pointers_def)
  fix c l assume "c \<in> long_pointers and_cnf" "l \<in> set (cl_lits c)"
  then show "lit_var l < 63"
    by (auto simp: long_pointers_def and_cnf_eq clause_pointers_def upt_rec lit_var_def)
qed

lemma wf_and_cnf: "wf_cnf and_cnf"
  unfolding and_cnf_def by (rule wf_cnf_of)

lemma distinct_and_cnf: "distinct (formula and_cnf)"
  by (simp add: and_cnf_eq)

lemma nonempty_contents: "contents (nonempty_pointers f) = filter (\<lambda>c. c \<noteq> []) (formula f)"
  using filter_map [of "\<lambda>c. c \<noteq> []" cl_lits "clause_pointers f"]
  by (simp add: nonempty_pointers_def comp_def)

section \<open>Properties\<close>

text \<open>C10. As long as the limits are not exceeded (\<open>env_ok e {}\<close>) and no candidate has 64 or more input
  variables (\<open>narrow\<close>; \<open>fPattern\<close> shifts a 64-bit one by their number), the analysis of a formula as
  the reader stores it returns: no read or write outside a vector happens, no loop runs on, and no
  exception is thrown.\<close>

theorem analyze_formula_returns:
  assumes "wf_cnf f" and "env_ok e {}" and "narrow (long_pointers f)"
  shows "\<exists>g. analyze_formula e vb f = Inr g"
  using analyze_formula_ok [OF assms(1,2), of False vb] assms(3)
  by (cases "analyze_formula e vb f") auto

theorem analyze_formula_returns_witness: "\<exists>g. analyze_formula plain_env 0 and_cnf = Inr g"
  by (rule analyze_formula_returns [OF wf_and_cnf plain_env_ok narrow_and_cnf])

text \<open>C13. With resource limits, and as long as no candidate has 64 or more input variables, the
  analysis either returns or throws \<open>ResourceLimitsExceeded\<close>; no other error is possible.\<close>

theorem analyze_formula_errors:
  assumes "wf_cnf f" and "env_ok e {ResourceLimitsExceeded}" and "narrow (long_pointers f)"
    and "analyze_formula e vb f = Inl err"
  shows "err = ResourceLimitsExceeded"
  using analyze_formula_ok [OF assms(1,2), of False vb] assms(3,4) by simp

definition tight_env :: env where
  "tight_env = plain_env\<lparr>env_limits := limits_init 5 0 0, cpu_time := \<lambda>k. 10\<rparr>"

lemma tight_env_ok: "env_ok tight_env {ResourceLimitsExceeded}"
  by (simp add: env_ok_def tight_env_def plain_env_def)

lemma tight_env_throws:
  "analyze_formula tight_env 0 and_cnf = Inl ResourceLimitsExceeded"
  unfolding and_cnf_def by code_simp

theorem analyze_formula_errors_witness:
  "analyze_formula tight_env 0 and_cnf = Inl ResourceLimitsExceeded \<and>
   ResourceLimitsExceeded = (ResourceLimitsExceeded :: err)"
  using analyze_formula_errors [OF wf_and_cnf tight_env_ok narrow_and_cnf tight_env_throws]
    tight_env_throws by simp

text \<open>C6. The analysis loses no clause and duplicates none: the roots, the clauses of the gates
  and the remainder are together the non-empty clauses of the formula, each as often as it is
  there, provided the 60 seconds of \<open>analyze\<close> do not run out and the analysis returns.\<close>

theorem analyze_formula_partition:
  assumes "wf_cnf f" and "env_ok e Er" and "\<And>k. \<not> timed_out e k"
    and "analyze_formula e vb f = Inr g"
  shows "mset (contents (roots g @ gate_clps g @ remainder g)) = mset (filter (\<lambda>c. c \<noteq> []) (formula f))"
proof -
  have "env_ok e UNIV" using assms(2) by (simp add: env_ok_def)
  then have "mset (roots g @ gate_clps g @ remainder g) = mset (nonempty_pointers f)"
    using analyze_formula_ok [OF assms(1), of e UNIV False vb] assms(3,4) by (auto simp: ac_simps)
  then have "mset (contents (roots g @ gate_clps g @ remainder g))
      = mset (contents (nonempty_pointers f))"
    by (metis mset_map)
  then show ?thesis by (simp add: nonempty_contents)
qed

theorem analyze_formula_partition_witness:
  "mset (contents (roots and_structure @ gate_clps and_structure @ remainder and_structure))
    = mset (filter (\<lambda>c. c \<noteq> []) (formula and_cnf))"
  by (rule analyze_formula_partition [OF wf_and_cnf plain_env_ok _ analyze_and_cnf])
    (simp add: plain_env_def)

text \<open>C12. The recognised gates never restrict the other variables: every assignment can be
  changed on gate outputs only so that all clauses of all gates hold, and that change does not
  touch the remainder, where no output occurs.  This covers the semantic gates too, whatever the
  solver answers.\<close>

theorem analyze_formula_gates_satisfiable:
  assumes "wf_cnf f" and "env_ok e Er" and "analyze_formula e vb f = Inr g"
  shows "\<exists>b. agree_off (outs g) a b \<and> cnf_true b (contents (gate_clps g))
      \<and> cnf_true b (contents (remainder g)) = cnf_true a (contents (remainder g))"
proof -
  have "env_ok e UNIV" using assms(2) by (simp add: env_ok_def)
  then have S: "struct_ok False g (set (remainder g))"
    using analyze_formula_ok [OF assms(1), of e UNIV False vb] assms(3) by auto
  obtain b where b: "agree_off (outs g) a b" "cnf_true b (contents (gate_clps g))"
    using struct_okD(4) [OF S] by blast
  have "cnf_true b (contents (remainder g)) = cnf_true a (contents (remainder g))"
  proof (rule cnf_true_agree)
    fix c l assume "c \<in> set (contents (remainder g))" "l \<in> set c"
    then have "lit_var l \<notin> outs g" using struct_okD(3) [OF S] by auto
    with b(1) show "b (lit_var l) = a (lit_var l)" by (auto simp: agree_off_def)
  qed
  with b show ?thesis by blast
qed

theorem analyze_formula_gates_satisfiable_witness:
  "\<exists>b. agree_off (outs and_structure) (\<lambda>_. True) b \<and> cnf_true b (contents (gate_clps and_structure))
      \<and> cnf_true b (contents (remainder and_structure))
        = cnf_true (\<lambda>_. True) (contents (remainder and_structure))"
  by (rule analyze_formula_gates_satisfiable [OF wf_and_cnf plain_env_ok analyze_and_cnf])

text \<open>C11. With pattern recognition only, on a formula without duplicate clauses, the gates
  define their outputs: the other variables can be chosen freely and determine exactly one
  assignment of the outputs under which all gate clauses hold.\<close>

theorem analyze_formula_gates_define:
  assumes "wf_cnf f" and "distinct (formula f)" and "env_ok e Er" and "\<not> semantic e"
    and "analyze_formula e vb f = Inr g"
  shows "\<exists>!b. agree_off (outs g) a b \<and> cnf_true b (contents (gate_clps g))"
proof -
  have "env_ok e UNIV" using assms(3) by (simp add: env_ok_def)
  then have S: "struct_ok True g (set (remainder g))"
    using analyze_formula_ok [OF assms(1), of e UNIV True vb] assms(2,4,5) by auto
  show ?thesis
  proof (rule ex_ex1I)
    show "\<exists>b. agree_off (outs g) a b \<and> cnf_true b (contents (gate_clps g))"
      using struct_okD(4) [OF S] .
  next
    fix b c
    assume "agree_off (outs g) a b \<and> cnf_true b (contents (gate_clps g))"
      and "agree_off (outs g) a c \<and> cnf_true c (contents (gate_clps g))"
    then show "b = c"
      using struct_okD(5) [OF S, of b c] by (auto simp: agree_off_def)
  qed
qed

theorem analyze_formula_gates_define_witness:
  "\<exists>!b. agree_off (outs and_structure) (\<lambda>_. False) b
      \<and> cnf_true b (contents (gate_clps and_structure))"
  by (rule analyze_formula_gates_define
      [OF wf_and_cnf distinct_and_cnf plain_env_ok _ analyze_and_cnf])
    (simp add: plain_env_def)

text \<open>C14. A remainder is never complete: whenever the analysis returns with a clause in the remainder, the 60 seconds have run out, and the root clauses selected just before are missing
  from the result.  They have left the index, and \<open>analyze\<close> adds them neither to the roots nor to the
  remainder, so that roots, gates and remainder are fewer clauses than the formula has.\<close>

theorem analyze_remainder_lost:
  assumes "wf_cnf f" and "env_ok e Er" and "analyze_formula e vb f = Inr g" and "remainder g \<noteq> []"
  shows "(\<exists>k. timed_out e k) \<and>
    mset (contents (roots g @ gate_clps g @ remainder g)) \<subset># mset (filter (\<lambda>c. c \<noteq> []) (formula f))"
proof -
  have "env_ok e UNIV" using assms(2) by (simp add: env_ok_def)
  then obtain lost where lost: "lost \<noteq> []" "\<exists>k. timed_out e k"
    and ms: "mset (roots g) + mset (gate_clps g) + mset (remainder g) + mset lost = mset (nonempty_pointers f)"
    using analyze_formula_ok [OF assms(1), of e UNIV False vb] assms(3,4) by auto
  have "mset (filter (\<lambda>c. c \<noteq> []) (formula f))
      = mset (contents (roots g @ gate_clps g @ remainder g)) + mset (contents lost)"
    using arg_cong [OF ms, of "image_mset cl_lits"]
    by (simp add: nonempty_contents ac_simps flip: mset_map [of cl_lits "nonempty_pointers f"])
  with lost show ?thesis by (simp add: subset_mset.less_le)
qed

definition late_env :: env where
  "late_env = plain_env\<lparr>timed_out := \<lambda>_. True\<rparr>"

definition late_cnf :: cnf where
  "late_cnf = cnf_of [[2], [4, 6], [8, 10]]"

lemma late_run:
  "case analyze_formula late_env 0 late_cnf of Inl _ \<Rightarrow> False
   | Inr g \<Rightarrow> contents (roots g) = [[2]] \<and> contents (remainder g) = [[4, 6]] \<and> gate_clps g = []"
  unfolding late_env_def late_cnf_def by code_simp

theorem analyze_remainder_lost_witness:
  "\<exists>g. analyze_formula late_env 0 late_cnf = Inr g \<and>
     mset (contents (roots g @ gate_clps g @ remainder g)) \<subset># mset (filter (\<lambda>c. c \<noteq> []) (formula late_cnf))"
proof -
  obtain g where g: "analyze_formula late_env 0 late_cnf = Inr g" "remainder g \<noteq> []"
    using late_run by (auto split: sum.splits)
  have "env_ok late_env {}" using plain_env_ok [of "{}"] by (simp add: env_ok_def late_env_def)
  from analyze_remainder_lost [OF _ this g] g(1) show ?thesis
    unfolding late_cnf_def using wf_cnf_of by blast
qed

definition dup_cnf :: cnf where
  "dup_cnf = cnf_of [[2], [3, 4, 6], [3, 4, 6], [2, 5, 7], [2, 5, 7]]"

text \<open>C15. With duplicate clauses the full pattern is not a definition: two copies of one forward
  clause and two of one backward clause pass the count \<open>2 ^ 2\<close> and are recorded as an
  equivalence gate, although they leave the output open.\<close>

theorem duplicate_clauses_not_functional:
  "case analyze_formula plain_env 0 dup_cnf of
     Inl _ \<Rightarrow> False
   | Inr g \<Rightarrow> gtype (gates g ! 1) = EQIV \<and> out (gates g ! 1) = 2
       \<and> \<not> functional 2 (contents (bwd (gates g ! 1)) @ contents (fwd (gates g ! 1)))"
proof -
  have run: "case analyze_formula plain_env 0 dup_cnf of
     Inl _ \<Rightarrow> False
   | Inr g \<Rightarrow> gtype (gates g ! 1) = EQIV \<and> out (gates g ! 1) = 2
       \<and> contents (bwd (gates g ! 1)) @ contents (fwd (gates g ! 1))
         = [[2, 5, 7], [2, 5, 7], [3, 4, 6], [3, 4, 6]]"
    unfolding dup_cnf_def by code_simp
  have both: "cnf_true (set_out (\<lambda>v. v = 2) 2 True) [[2, 5, 7], [2, 5, 7], [3, 4, 6], [3, 4, 6]]"
    "cnf_true (set_out (\<lambda>v. v = 2) 2 False) [[2, 5, 7], [2, 5, 7], [3, 4, 6], [3, 4, 6]]"
    by code_simp+
  have "\<not> functional 2 [[2, 5, 7], [2, 5, 7], [3, 4, 6], [3, 4, 6]]"
    unfolding functional_def using both by blast
  with run show ?thesis by (auto split: sum.splits)
qed

theorem stats_of_prints_witness:
  "\<exists>s m. stats_of and_structure (nVars and_cnf) 7 = Inr (s, m)
    \<and> printed s = concat (map (aux_line and_structure) [1 ..< nVars and_cnf + 1])
    \<and> counts_sum s = nVars and_cnf"
  by (rule stats_of_prints [OF wf_and_cnf plain_env_ok analyze_and_cnf])

text \<open>C17. \<open>levels\<close> is one element short: whenever the last variable is counted, the vector is read
  behind its end.\<close>

theorem levels_overrun:
  assumes "gates_bounded n g" and "0 < n" and "gtype (gates g ! n) \<noteq> MONO"
  shows "\<exists>s m. stats_of g n junk = Inr (s, m) \<and> overrun m"
  using stats_of_ok [OF assms(1), of junk] assms(2,3) by blast

theorem levels_overrun_witness:
  "\<exists>s m. stats_of and_structure 3 0 = Inr (s, m) \<and> overrun m"
proof (rule levels_overrun)
  show "gates_bounded 3 and_structure"
    using analyze_gates_bounded [OF wf_and_cnf plain_env_ok analyze_and_cnf]
    by (simp add: and_cnf_eq nVars_def)
  show "gtype (gates and_structure ! 3) \<noteq> MONO"
    unfolding and_structure_def and_cnf_def by code_simp
qed simp

end
