(* ===== verification/Solver_Words.thy ===== *)
theory Solver_Words
  imports Solver_Types
begin

text \<open>
  \<open>struct Var\<close>, \<open>struct Lit\<close> and \<open>class lbool\<close> of \<open>cnftools/src/util/SolverTypes.h\<close> on the machine
  words they store, wrap-around included, and their agreement with the literals on \<open>nat\<close>
  that the gate components use.
\<close>

unbundle bit_operations_syntax

section \<open>struct Var and struct Lit on 32-bit words\<close>

record Var =
  var_id :: u32

definition Var_of :: "u32 \<Rightarrow> Var" where
  "Var_of i = \<lparr>var_id = i\<rparr>"

text \<open>Conversion of \<open>unsigned\<close> to \<open>int\<close> reads the two's complement.\<close>

definition Var_int :: "Var \<Rightarrow> int" where
  "Var_int v = sint (var_id v)"

definition Var_succ :: "Var \<Rightarrow> Var" where
  "Var_succ v = v\<lparr>var_id := var_id v + 1\<rparr>"

text \<open>The postfix increment returns the old value beside the new one.\<close>

definition Var_post_succ :: "Var \<Rightarrow> Var \<times> Var" where
  "Var_post_succ v = (v, v\<lparr>var_id := var_id v + 1\<rparr>)"

record Lit =
  lit_x :: u32

definition Lit_of :: "u32 \<Rightarrow> bool \<Rightarrow> Lit" where
  "Lit_of v s = \<lparr>lit_x = 2 * v + of_bool s\<rparr>"

definition Lit_sign :: "Lit \<Rightarrow> bool" where
  "Lit_sign l \<longleftrightarrow> lit_x l AND 1 \<noteq> 0"

definition Lit_var :: "Lit \<Rightarrow> Var" where
  "Lit_var l = Var_of (drop_bit 1 (lit_x l))"

definition Lit_positive :: "Lit \<Rightarrow> Lit" where
  "Lit_positive l = Lit_of (var_id (Lit_var l)) False"

definition Lit_negative :: "Lit \<Rightarrow> Lit" where
  "Lit_negative l = Lit_of (var_id (Lit_var l)) True"

definition Lit_toDimacs :: "Lit \<Rightarrow> int" where
  "Lit_toDimacs l =
     (if Lit_sign l then (- 1) * Var_int (Lit_var l) else Var_int (Lit_var l))"

definition Lit_compl :: "Lit \<Rightarrow> Lit" where
  "Lit_compl l = \<lparr>lit_x = lit_x l XOR 1\<rparr>"

definition Lit_xor :: "Lit \<Rightarrow> bool \<Rightarrow> Lit" where
  "Lit_xor l b = \<lparr>lit_x = lit_x l XOR (if b then 1 else 0)\<rparr>"

definition Lit_less :: "Lit \<Rightarrow> Lit \<Rightarrow> bool" where
  "Lit_less p q \<longleftrightarrow> lit_x p < lit_x q"

definition Lit_inc :: "Lit \<Rightarrow> Lit" where
  "Lit_inc l = l\<lparr>lit_x := lit_x l + 1\<rparr>"

definition Lit_dec :: "Lit \<Rightarrow> Lit" where
  "Lit_dec l = l\<lparr>lit_x := lit_x l - 1\<rparr>"

section \<open>The two encodings agree\<close>

lemma Lit_of_unat:
  assumes "unat v < 2 ^ 31"
  shows "unat (lit_x (Lit_of v s)) = mk_lit (unat v) s"
proof -
  have "unat (2 * v) = 2 * unat v"
    using assms by (simp add: unat_word_ariths)
  then show ?thesis
    using assms by (cases s) (simp_all add: Lit_of_def mk_lit_def unat_word_ariths)
qed

lemma Lit_var_unat: "unat (var_id (Lit_var l)) = lit_var (unat (lit_x l))"
  by (simp add: Lit_var_def Var_of_def lit_var_def drop_bit_eq_div unat_div)

lemma Lit_sign_unat: "Lit_sign l = lit_sign (unat (lit_x l))"
proof -
  have "unat (lit_x l AND 1) = unat (lit_x l) mod 2"
    by (simp add: and_one_eq unat_mod)
  then have "(lit_x l AND 1 = 0) = (unat (lit_x l) mod 2 = 0)"
    by (metis unat_eq_zero)
  then show ?thesis
    by (simp add: Lit_sign_def lit_sign_def odd_iff_mod_2_eq_one)
qed

section \<open>class lbool\<close>

record lbool =
  lb_value :: u8

definition lbool_raw :: "u8 \<Rightarrow> lbool" where
  "lbool_raw v = \<lparr>lb_value = v\<rparr>"

definition lbool_of :: "bool \<Rightarrow> lbool" where
  "lbool_of x = \<lparr>lb_value = of_bool (\<not> x)\<rparr>"

definition l_True :: lbool where "l_True = lbool_raw 0"
definition l_False :: lbool where "l_False = lbool_raw 1"
definition l_Undef :: lbool where "l_Undef = lbool_raw 2"

text \<open>The comparison, with the integer conversions of \<open>!\<close> and \<open>==\<close> written out.\<close>

definition lbool_eq :: "lbool \<Rightarrow> lbool \<Rightarrow> bool" where
  "lbool_eq a b \<longleftrightarrow>
     ((lb_value b AND 2) AND (lb_value a AND 2))
     OR (of_bool (lb_value b AND 2 = 0) AND of_bool (lb_value a = lb_value b)) \<noteq> 0"

definition lbool_neq :: "lbool \<Rightarrow> lbool \<Rightarrow> bool" where
  "lbool_neq a b \<longleftrightarrow> \<not> lbool_eq a b"

definition lbool_xor :: "lbool \<Rightarrow> bool \<Rightarrow> lbool" where
  "lbool_xor a b = (if lb_value a = 2 then l_Undef else lbool_raw (lb_value a XOR of_bool b))"

text \<open>
  The connectives look the result up in a 32-bit constant, two bits for every pair of values; a
  shift by 32 or more (only for raw values above 3) is undefined.
\<close>

definition lbool_select :: "u32 \<Rightarrow> u8 \<Rightarrow> lbool res" where
  "lbool_select table sel =
     (if unat sel < 32 then Inr (lbool_raw (ucast (drop_bit (unat sel) table) AND 3))
      else Inl OutOfRange)"

definition lbool_and :: "lbool \<Rightarrow> lbool \<Rightarrow> lbool res" where
  "lbool_and a b =
     lbool_select 0xF7F755F4 (push_bit 1 (lb_value a) OR push_bit 3 (lb_value b))"

definition lbool_or :: "lbool \<Rightarrow> lbool \<Rightarrow> lbool res" where
  "lbool_or a b =
     lbool_select 0xFCFCF400 (push_bit 1 (lb_value a) OR push_bit 3 (lb_value b))"

definition lbool_bits_or :: "lbool \<Rightarrow> lbool \<Rightarrow> u8" where
  "lbool_bits_or a b = lb_value a OR lb_value b"

definition lbool_bits_and :: "lbool \<Rightarrow> lbool \<Rightarrow> u8" where
  "lbool_bits_and a b = lb_value a AND lb_value b"

text \<open>The three truth values a byte below 4 stands for, and Kleene's connectives on them.\<close>

definition lb_val :: "lbool \<Rightarrow> bool option" where
  "lb_val a = (if lb_value a = 0 then Some True else if lb_value a = 1 then Some False else None)"

definition lb_ok :: "lbool \<Rightarrow> bool" where
  "lb_ok a \<longleftrightarrow> lb_value a < 4"

fun kleene_and :: "bool option \<Rightarrow> bool option \<Rightarrow> bool option" where
  "kleene_and (Some False) _ = Some False"
| "kleene_and _ (Some False) = Some False"
| "kleene_and (Some True) (Some True) = Some True"
| "kleene_and _ _ = None"

definition kleene_not :: "bool option \<Rightarrow> bool option" where
  "kleene_not = map_option Not"

definition kleene_or :: "bool option \<Rightarrow> bool option \<Rightarrow> bool option" where
  "kleene_or x y = kleene_not (kleene_and (kleene_not x) (kleene_not y))"

definition lb_all :: "lbool list" where
  "lb_all = [lbool_raw 0, lbool_raw 1, lbool_raw 2, lbool_raw 3]"

lemma lb_ok_all:
  assumes "lb_ok a"
  shows "a \<in> set lb_all"
proof -
  have "unat (lb_value a) < 4" using assms by (simp add: lb_ok_def word_less_nat_alt)
  then consider "unat (lb_value a) = 0" | "unat (lb_value a) = 1" | "unat (lb_value a) = 2"
    | "unat (lb_value a) = 3" by linarith
  then have "lb_value a \<in> {0, 1, 2, 3}"
    by cases (simp_all add: word_unat_eq_iff)
  then show ?thesis by (cases a) (auto simp: lb_all_def lbool_raw_def)
qed

lemma lbool_tables:
  "list_all (\<lambda>a. list_all (\<lambda>b.
      (case lbool_and a b of Inl _ \<Rightarrow> False
         | Inr c \<Rightarrow> lb_ok c \<and> lb_val c = kleene_and (lb_val a) (lb_val b))
    \<and> (case lbool_or a b of Inl _ \<Rightarrow> False
         | Inr c \<Rightarrow> lb_ok c \<and> lb_val c = kleene_or (lb_val a) (lb_val b))
    \<and> lbool_eq a b = (lb_val a = lb_val b)) lb_all) lb_all"
  by code_simp

lemma lbool_table:
  assumes "lb_ok a" and "lb_ok b"
  shows "\<exists>c. lbool_and a b = Inr c \<and> lb_ok c \<and> lb_val c = kleene_and (lb_val a) (lb_val b)"
    and "\<exists>c. lbool_or a b = Inr c \<and> lb_ok c \<and> lb_val c = kleene_or (lb_val a) (lb_val b)"
    and "lbool_eq a b = (lb_val a = lb_val b)"
proof -
  have "(case lbool_and a b of Inl _ \<Rightarrow> False
         | Inr c \<Rightarrow> lb_ok c \<and> lb_val c = kleene_and (lb_val a) (lb_val b))
    \<and> (case lbool_or a b of Inl _ \<Rightarrow> False
         | Inr c \<Rightarrow> lb_ok c \<and> lb_val c = kleene_or (lb_val a) (lb_val b))
    \<and> lbool_eq a b = (lb_val a = lb_val b)"
    using lbool_tables lb_ok_all [OF assms(1)] lb_ok_all [OF assms(2)] unfolding list_all_iff by blast
  then show "\<exists>c. lbool_and a b = Inr c \<and> lb_ok c \<and> lb_val c = kleene_and (lb_val a) (lb_val b)"
    and "\<exists>c. lbool_or a b = Inr c \<and> lb_ok c \<and> lb_val c = kleene_or (lb_val a) (lb_val b)"
    and "lbool_eq a b = (lb_val a = lb_val b)"
    by (cases "lbool_and a b"; cases "lbool_or a b"; simp)+
qed

text \<open>The lookup tables of \<open>&&\<close>, \<open>||\<close> and \<open>==\<close> are Kleene's three-valued and, or and
  equality: for every pair of values, both encodings of undefined included, no shift is out of
  range and the result is a value again.\<close>

theorem lbool_kleene:
  assumes "lb_ok a" and "lb_ok b"
  shows "(\<exists>c. lbool_and a b = Inr c \<and> lb_ok c \<and> lb_val c = kleene_and (lb_val a) (lb_val b))
    \<and> (\<exists>c. lbool_or a b = Inr c \<and> lb_ok c \<and> lb_val c = kleene_or (lb_val a) (lb_val b))
    \<and> lbool_eq a b = (lb_val a = lb_val b)"
  using lbool_table [OF assms] by blast

theorem lbool_kleene_witness:
  "(\<exists>c. lbool_and l_Undef l_False = Inr c \<and> lb_ok c
      \<and> lb_val c = kleene_and (lb_val l_Undef) (lb_val l_False))
    \<and> (\<exists>c. lbool_or l_Undef l_False = Inr c \<and> lb_ok c
      \<and> lb_val c = kleene_or (lb_val l_Undef) (lb_val l_False))
    \<and> lbool_eq l_Undef l_False = (lb_val l_Undef = lb_val l_False)"
  by (rule lbool_kleene)
    (simp_all add: lb_ok_def l_Undef_def l_False_def lbool_raw_def)

end
