(* ===== verification/Stamp.thy ===== *)
theory Stamp
  imports Prelude
begin

text \<open>
  \<open>Stamp<T>\<close> of \<open>cnftools/src/util/Stamp.h\<close>: a set of indices that is emptied in constant time by
  raising the current stamp, until the stamp reaches the largest value of the unsigned type
  \<open>T\<close> and the vector is overwritten.  \<open>T\<close> is a word of any width.
\<close>

record (overloaded) 'a stamp =
  stamped :: "'a word list"
  stamp_value :: "'a word"

definition stamp_clear :: "'a::len stamp \<Rightarrow> 'a stamp" where
  "stamp_clear s =
     (if stamp_value s < - 1 then s\<lparr>stamp_value := stamp_value s + 1\<rparr>
      else s\<lparr>stamped := replicate (length (stamped s)) 0, stamp_value := 0 + 1\<rparr>)"

definition stamp_default :: "'a::len stamp" where
  "stamp_default = stamp_clear \<lparr>stamped = [], stamp_value = 0\<rparr>"

definition stamp_new :: "nat \<Rightarrow> 'a::len stamp" where
  "stamp_new n =
     (let s = stamp_default;
          s = s\<lparr>stamped := stamped s @ replicate (n - length (stamped s)) 0\<rparr>
      in stamp_clear (s\<lparr>stamp_value := 0\<rparr>))"

definition stamp_grow :: "'a::len stamp \<Rightarrow> 'a stamp" where
  "stamp_grow s = s\<lparr>stamped := stamped s @ [0]\<rparr>"

definition stamp_grow_to :: "nat \<Rightarrow> 'a::len stamp \<Rightarrow> 'a stamp" where
  "stamp_grow_to n s =
     (if length (stamped s) < n
      then s\<lparr>stamped := stamped s @ replicate (n - length (stamped s)) 0\<rparr> else s)"

definition stamp_size :: "'a::len stamp \<Rightarrow> nat" where
  "stamp_size s = length (stamped s)"

text \<open>The assertions on the index; without them the access is out of range.\<close>

definition stamp_unset :: "nat \<Rightarrow> 'a::len stamp \<Rightarrow> 'a stamp res" where
  "stamp_unset i s = bind_res (vec_set (stamped s) i 0) (\<lambda>v. Inr (s\<lparr>stamped := v\<rparr>))"

definition stamp_set :: "nat \<Rightarrow> 'a::len stamp \<Rightarrow> 'a stamp res" where
  "stamp_set i s = bind_res (vec_set (stamped s) i (stamp_value s)) (\<lambda>v. Inr (s\<lparr>stamped := v\<rparr>))"

definition isStamped :: "nat \<Rightarrow> 'a::len stamp \<Rightarrow> bool res" where
  "isStamped i s = bind_res (vec_get (stamped s) i) (\<lambda>x. Inr (x = stamp_value s))"

text \<open>\<open>Stamp<bool>\<close> has its own \<open>clear\<close>.\<close>

definition stamp_clear_bool :: "1 stamp \<Rightarrow> 1 stamp" where
  "stamp_clear_bool s = s\<lparr>stamped := replicate (length (stamped s)) 0, stamp_value := 1\<rparr>"

section \<open>The interface\<close>

text \<open>
  A set of indices below a size, as the graph traversals use it.  \<open>elems\<close> is the abstract set.
\<close>

locale visited_set =
  fixes inv :: "'s \<Rightarrow> bool"
    and elems :: "'s \<Rightarrow> nat set"
    and cap :: "'s \<Rightarrow> nat"
    and mark :: "nat \<Rightarrow> 's \<Rightarrow> 's res"
    and test :: "nat \<Rightarrow> 's \<Rightarrow> bool res"
    and reset :: "'s \<Rightarrow> 's"
  assumes elems_cap: "inv s \<Longrightarrow> elems s \<subseteq> {..<cap s}"
    and mark_ok: "inv s \<Longrightarrow> i < cap s \<Longrightarrow>
      \<exists>s'. mark i s = Inr s' \<and> inv s' \<and> cap s' = cap s \<and> elems s' = insert i (elems s)"
    and test_ok: "inv s \<Longrightarrow> i < cap s \<Longrightarrow> test i s = Inr (i \<in> elems s)"
    and reset_ok: "inv s \<Longrightarrow> inv (reset s) \<and> cap (reset s) = cap s \<and> elems (reset s) = {}"
begin

text \<open>Marking a list of indices and testing one.\<close>

lemma mark_all:
  assumes "inv s" and "\<And>i. i \<in> set is \<Longrightarrow> i < cap s"
  shows "\<exists>s'. fold_res mark is s = Inr s' \<and> inv s' \<and> cap s' = cap s
    \<and> elems s' = elems s \<union> set is"
proof -
  let ?I = "\<lambda>ys t. inv t \<and> cap t = cap s \<and> elems t = elems s \<union> set ys"
  have "\<exists>t. fold_res mark is s = Inr t \<and> ?I is t"
  proof (rule fold_res_total)
    show "?I [] s" using assms(1) by simp
  next
    fix ys i zs t assume "is = ys @ i # zs" and I: "?I ys t"
    then have "i < cap t" using assms(2) [of i] by simp
    with mark_ok [of t i] I show "\<exists>t'. mark i t = Inr t' \<and> ?I (ys @ [i]) t'" by auto
  qed
  then show ?thesis .
qed

text \<open>Earlier marks never survive a reset.\<close>

lemma marked_after_reset:
  assumes "inv s" and "\<And>j. j \<in> set is \<Longrightarrow> j < cap s" and "i < cap s"
  shows "\<exists>s'. fold_res mark is (reset s) = Inr s' \<and> test i s' = Inr (i \<in> set is)"
  using mark_all [of "reset s" "is"] reset_ok [OF assms(1)] assms(2,3) test_ok
  by (metis Un_empty_left)

text \<open>The number of indices not yet marked, the measure of the traversals.\<close>

lemma mark_decreases:
  assumes "inv s" and "i < cap s" and "i \<notin> elems s" and "mark i s = Inr s'"
  shows "card ({..<cap s'} - elems s') < card ({..<cap s} - elems s)"
proof -
  have s': "cap s' = cap s" "elems s' = insert i (elems s)"
    using mark_ok [OF assms(1,2)] assms(4) by auto
  show ?thesis unfolding s' using assms(2,3) by (intro psubset_card_mono) auto
qed

end

section \<open>Stamp implements it\<close>

text \<open>The invariant: no entry is above the stamp, and the stamp is not the cleared value.\<close>

definition stamp_inv :: "'a::len stamp \<Rightarrow> bool" where
  "stamp_inv s \<longleftrightarrow> stamp_value s \<noteq> 0 \<and> (\<forall>x \<in> set (stamped s). x \<le> stamp_value s)"

definition stamp_elems :: "'a::len stamp \<Rightarrow> nat set" where
  "stamp_elems s = {i. i < length (stamped s) \<and> stamped s ! i = stamp_value s}"

lemma stamp_clear_less:
  fixes s :: "'a::len stamp"
  assumes "stamp_value s < - 1"
  shows "stamp_value s < stamp_value s + 1"
proof -
  have "unat (stamp_value s) < unat (- 1 :: 'a::len word)" using assms by (simp only: word_less_nat_alt)
  then have "unat (stamp_value s) + 1 < 2 ^ LENGTH('a)" by (simp add: unsigned_minus_1_eq_mask mask_eq_exp_minus_1)
  then have "unat (stamp_value s + 1) = unat (stamp_value s) + 1" by (simp add: unat_word_ariths)
  then show ?thesis by (simp add: word_less_nat_alt)
qed

lemma stamp_clear_ok:
  assumes "stamp_inv s \<or> stamp_value s = 0 \<and> (\<forall>x \<in> set (stamped s). x = 0)"
  shows "stamp_inv (stamp_clear s)" "stamp_elems (stamp_clear s) = {}"
    "length (stamped (stamp_clear s)) = length (stamped s)"
proof -
  have le: "\<forall>x \<in> set (stamped s). x \<le> stamp_value s" using assms by (auto simp: stamp_inv_def)
  have "stamp_inv (stamp_clear s) \<and> stamp_elems (stamp_clear s) = {}
    \<and> length (stamped (stamp_clear s)) = length (stamped s)"
  proof (cases "stamp_value s < - 1")
    case True
    then have less: "stamp_value s < stamp_value s + 1" by (rule stamp_clear_less)
    then have "stamp_value s + 1 \<noteq> 0" by auto
    moreover have "\<forall>x \<in> set (stamped s). x < stamp_value s + 1"
      using le less by (auto intro: le_less_trans)
    ultimately show ?thesis
      using True by (auto simp: stamp_clear_def stamp_inv_def stamp_elems_def in_set_conv_nth
          intro: less_imp_le)
  next
    case False
    then show ?thesis by (auto simp: stamp_clear_def stamp_inv_def stamp_elems_def)
  qed
  then show "stamp_inv (stamp_clear s)" "stamp_elems (stamp_clear s) = {}"
    "length (stamped (stamp_clear s)) = length (stamped s)" by blast+
qed

lemma stamp_new_ok:
  "stamp_inv (stamp_new n :: 'a::len stamp)" "stamp_elems (stamp_new n :: 'a stamp) = {}"
  "stamp_size (stamp_new n :: 'a stamp) = n"
proof -
  have d: "stamped (stamp_default :: 'a stamp) = []"
    by (simp add: stamp_default_def stamp_clear_def)
  let ?s = "(stamp_default :: 'a stamp)\<lparr>stamped := replicate n 0, stamp_value := 0\<rparr>"
  have eq: "stamp_new n = stamp_clear ?s" by (simp add: stamp_new_def Let_def d)
  show "stamp_inv (stamp_new n :: 'a stamp)" "stamp_elems (stamp_new n :: 'a stamp) = {}"
    "stamp_size (stamp_new n :: 'a stamp) = n"
    unfolding eq stamp_size_def using stamp_clear_ok [of ?s] by simp_all
qed

lemma stamp_unset_ok:
  assumes "stamp_inv s" and "i < stamp_size s"
  shows "\<exists>s'. stamp_unset i s = Inr s' \<and> stamp_inv s' \<and> stamp_elems s' = stamp_elems s - {i}"
proof -
  have "set ((stamped s)[i := 0]) \<subseteq> insert 0 (set (stamped s))"
    by (rule set_update_subset_insert)
  then show ?thesis
    using assms by (auto simp: stamp_unset_def stamp_inv_def stamp_size_def stamp_elems_def
        nth_list_update split: if_splits)
qed

lemma stamp_grow_ok:
  assumes "stamp_inv s"
  shows "stamp_inv (stamp_grow s)" "stamp_elems (stamp_grow s) = stamp_elems s"
    "stamp_inv (stamp_grow_to n s)" "stamp_elems (stamp_grow_to n s) = stamp_elems s"
  using assms
  by (auto simp: stamp_inv_def stamp_grow_def stamp_grow_to_def stamp_elems_def nth_append
      less_Suc_eq split: if_splits)

interpretation st: visited_set stamp_inv stamp_elems stamp_size stamp_set isStamped stamp_clear
proof unfold_locales
  fix s :: "'a::len stamp" and i
  assume inv: "stamp_inv s"
  show "stamp_elems s \<subseteq> {..<stamp_size s}" by (auto simp: stamp_elems_def stamp_size_def)
  show "stamp_inv (stamp_clear s) \<and> stamp_size (stamp_clear s) = stamp_size s
      \<and> stamp_elems (stamp_clear s) = {}"
    using stamp_clear_ok [of s] inv by (simp add: stamp_size_def)
  assume i: "i < stamp_size s"
  then show "isStamped i s = Inr (i \<in> stamp_elems s)"
    by (simp add: isStamped_def stamp_elems_def stamp_size_def)
  have "set ((stamped s)[i := stamp_value s]) \<subseteq> insert (stamp_value s) (set (stamped s))"
    by (rule set_update_subset_insert)
  then show "\<exists>s'. stamp_set i s = Inr s' \<and> stamp_inv s' \<and> stamp_size s' = stamp_size s
      \<and> stamp_elems s' = insert i (stamp_elems s)"
    using inv i by (auto simp: stamp_set_def stamp_inv_def stamp_size_def stamp_elems_def
        nth_list_update split: if_splits)
qed

text \<open>C18. \<open>clear\<close> empties the set in every state reachable by the operations, at the wrap-around
  of the stamp too: after \<open>clear\<close> and a sequence of \<open>set\<close>s exactly the indices just set are
  stamped, whatever was stamped before.\<close>

theorem stamp_clear_forgets:
  assumes "stamp_inv (s :: 'a::len stamp)" and "\<And>j. j \<in> set is \<Longrightarrow> j < stamp_size s"
    and "i < stamp_size s"
  shows "\<exists>s'. fold_res stamp_set is (stamp_clear s) = Inr s' \<and> isStamped i s' = Inr (i \<in> set is)"
  using assms by (rule st.marked_after_reset)

theorem stamp_clear_forgets_witness:
  "\<exists>s'. fold_res stamp_set [2, 0] (stamp_clear \<lparr>stamped = [255, 3, 255 :: u8], stamp_value = 255\<rparr>)
      = Inr s' \<and> isStamped 1 s' = Inr (1 \<in> set [2, 0 :: nat])"
  by (rule stamp_clear_forgets) (auto simp: stamp_inv_def stamp_size_def)

end
