(* ===== verification/Gate_Transform.thy ===== *)
theory Gate_Transform
  imports Gate_Analyzer Stamp
begin

text \<open>
  The transformations of a finished gate structure in \<open>cnftools/src/gates/GateFormula.h\<close>:
  \<open>normalizeRoots\<close>, which turns the roots and the remainder into one gate with a unit root, and
  \<open>getPrunedProblem\<close>, which collects the clauses of the branches a model satisfies.
\<close>

section \<open>normalizeRoots\<close>

text \<open>
  \<open>c->push_back\<close> changes the clause objects of the formula in place; the gate gets copies,
  allocated at the addresses from \<open>fresh\<close> on.  The result holds the structure and the changed
  clause objects.
\<close>

definition push_lit :: "lit \<Rightarrow> clp \<Rightarrow> clp" where
  "push_lit l c = Clp (cl_addr c) (cl_lits c @ [l])"

definition normalizeRoots :: "nat \<Rightarrow> gate_formula \<Rightarrow> (gate_formula \<times> clp list) res" where
  "normalizeRoots fresh g =
     (let root = length (gates g) - 1;
          cls = roots g @ remainder g;
          pushed = map (push_lit (mk_lit root True)) cls;
          copies = map2 (\<lambda>k c. Clp k (cl_lits c)) [fresh + 1 ..< fresh + 1 + length cls] pushed;
          ins = sorted_list_of_set (set (concat (map cl_lits cls)))
      in bind_res (vec_get (gates g) root) (\<lambda>ga.
           let ga = ga\<lparr>out := mk_lit root False, notMono := False,
                       fwd := fwd ga @ copies, inp := inp ga @ ins\<rparr>
           in Inr (g\<lparr>gates := (gates g)[root := ga], remainder := [],
                     roots := [Clp fresh [out ga]], artificialRoot := True\<rparr>, pushed)))"

section \<open>getPrunedProblem\<close>

text \<open>
  \<open>std::copy (first, last, result.end ())\<close> writes behind the end of the vector unless the range
  is empty.
\<close>

definition copy_to_end :: "'a list \<Rightarrow> 'a list \<Rightarrow> 'a list res" where
  "copy_to_end xs result = (if xs = [] then Inr result else Inl OutOfRange)"

fun prune_loop ::
  "gate_formula \<Rightarrow> u8 list \<Rightarrow> nat \<Rightarrow> lit list \<Rightarrow> 8 stamp \<Rightarrow> clp list \<Rightarrow> clp list res" where
  "prune_loop g model fuel literals visited result =
     (if literals = [] then Inr result
      else case fuel of
        0 \<Rightarrow> Inl OutOfFuel
      | Suc fuel \<Rightarrow>
          (let l = last literals; literals = butlast literals in
           bind_res (vec_get (gates g) (lit_var l)) (\<lambda>ga.
             if \<not> isDefined ga then prune_loop g model fuel literals visited result
             else
               bind_res (isStamped (lit_var l) visited) (\<lambda>seen.
               bind_res (if hasNonMonotonicParent ga then Inr True
                         else bind_res (vec_get model l) (\<lambda>x. Inr (x \<noteq> 0))) (\<lambda>relevant.
                 if \<not> seen \<and> relevant then
                   bind_res (copy_to_end (fwd ga) result) (\<lambda>result.
                   bind_res (if hasNonMonotonicParent ga then copy_to_end (bwd ga) result
                             else Inr result) (\<lambda>result.
                   bind_res (stamp_set (lit_var l) visited) (\<lambda>visited.
                     prune_loop g model fuel (literals @ inp ga) visited result)))
                 else prune_loop g model fuel literals visited result)))))"

declare prune_loop.simps [simp del]

definition prune_fuel :: "gate_formula \<Rightarrow> nat" where
  "prune_fuel g = length (getRoots g) + 1"

definition getPrunedProblem :: "gate_formula \<Rightarrow> u8 list \<Rightarrow> clp list res" where
  "getPrunedProblem g model =
     bind_res (prune_loop g model (prune_fuel g) (remdups_adj (sort (getRoots g)))
                 (stamp_new (length (gates g))) (roots g))
       (\<lambda>result. Inr (result @ remainder g))"

section \<open>Normalised roots say the same\<close>

lemma cl_true_snoc: "cl_true a (c @ [l]) \<longleftrightarrow> cl_true a c \<or> lit_true a l"
  by (auto simp: cl_true_iff)

lemma contents_copies:
  "length ks = length cs \<Longrightarrow> contents (map2 (\<lambda>k c. Clp k (cl_lits c)) ks cs) = contents cs"
  by (induction ks cs rule: list_induct2) simp_all

lemma cnf_true_pushed:
  "cnf_true a (contents (map (push_lit l) cs)) \<longleftrightarrow> lit_true a l \<or> cnf_true a (contents cs)"
  by (induction cs) (auto simp: push_lit_def cl_true_snoc)

text \<open>
  The clauses of the normalised structure: the unit root, the implications from it, and the old
  gates.
\<close>

lemma normalizeRoots_ok:
  assumes ne: "gates g \<noteq> []" and root: "gates g ! (length (gates g) - 1) = gate_default"
  shows "\<exists>g' pushed. normalizeRoots fresh g = Inr (g', pushed) \<and> remainder g' = []
    \<and> (\<forall>a. cnf_true a (contents (roots g' @ gate_clps g'))
         \<longleftrightarrow> a (length (gates g) - 1) \<and> cnf_true a (contents (roots g @ remainder g))
             \<and> cnf_true a (contents (gate_clps g)))"
proof -
  let ?r = "length (gates g) - 1" and ?cls = "roots g @ remainder g"
  let ?pushed = "map (push_lit (mk_lit ?r True)) ?cls"
  let ?copies = "map2 (\<lambda>k c. Clp k (cl_lits c)) [fresh + 1 ..< fresh + 1 + length ?cls] ?pushed"
  let ?ins = "sorted_list_of_set (set (concat (map cl_lits ?cls)))"
  let ?ga = "gate_default\<lparr>out := mk_lit ?r False, notMono := False, fwd := ?copies, inp := ?ins\<rparr>"
  let ?g = "g\<lparr>gates := (gates g)[?r := ?ga], remainder := [], roots := [Clp fresh [mk_lit ?r False]],
      artificialRoot := True\<rparr>"
  have r: "?r < length (gates g)" using ne by simp
  have run: "normalizeRoots fresh g = Inr (?g, ?pushed)"
    using r root by (simp add: normalizeRoots_def Let_def gate_default_def)
  have "mset (gate_clps ?g) = mset (gate_clps g) + mset (fwd ?ga) + mset (bwd ?ga)"
    by (rule gate_clps_update [OF r]) (use root in \<open>simp_all add: gate_default_def\<close>)
  moreover have f: "fwd ?ga = ?copies" "bwd ?ga = []" by (simp_all add: gate_default_def)
  ultimately have "mset (gate_clps ?g) = mset (gate_clps g @ ?copies)"
    unfolding f by (simp only: mset_append mset.simps add_0_right)
  then have "mset (contents (gate_clps ?g)) = mset (contents (gate_clps g @ ?copies))"
    by (simp only: mset_map)
  then have ms: "mset (contents (gate_clps ?g)) = mset (contents (gate_clps g) @ contents ?copies)"
    by (simp only: map_append)
  have copies: "contents ?copies = contents ?pushed" by (rule contents_copies) (simp del: upt_Suc)
  have "cnf_true a (contents (roots ?g @ gate_clps ?g))
      \<longleftrightarrow> a ?r \<and> cnf_true a (contents ?cls) \<and> cnf_true a (contents (gate_clps g))" for a
  proof -
    have "cnf_true a (contents (gate_clps ?g))
        \<longleftrightarrow> cnf_true a (contents (gate_clps g)) \<and> cnf_true a (contents ?pushed)"
      using cnf_true_mset [OF ms, of a] copies by simp
    moreover have "cnf_true a (contents ?pushed) \<longleftrightarrow> \<not> a ?r \<or> cnf_true a (contents ?cls)"
      using cnf_true_pushed [of a "mk_lit ?r True" ?cls] by (simp add: lit_true_def)
    moreover have "cl_true a [mk_lit ?r False] = a ?r" by (simp add: cl_true_iff lit_true_def)
    ultimately show ?thesis by auto
  qed
  with run show ?thesis by auto
qed

text \<open>C19. \<open>normalizeRoots\<close> keeps the meaning: the assignments that satisfy the new unit root and
  all gates are those that satisfy the old roots, remainder and gates and set the fresh root
  variable.\<close>

theorem normalizeRoots_equivalent:
  assumes "gates g \<noteq> []" and "gates g ! (length (gates g) - 1) = gate_default"
  shows "\<exists>g' pushed. normalizeRoots fresh g = Inr (g', pushed) \<and> remainder g' = []
    \<and> (\<forall>a. cnf_true a (contents (roots g' @ gate_clps g'))
         \<longleftrightarrow> a (length (gates g) - 1) \<and> cnf_true a (contents (roots g @ remainder g))
             \<and> cnf_true a (contents (gate_clps g)))"
  using assms by (rule normalizeRoots_ok)

definition two_roots :: gate_formula where
  "two_roots = (gf_init 2 0)\<lparr>roots := [Clp 0 [2]], remainder := [Clp 1 [3, 4]]\<rparr>"

theorem normalizeRoots_equivalent_witness:
  "\<exists>g' pushed. normalizeRoots 9 two_roots = Inr (g', pushed) \<and> remainder g' = []
    \<and> (\<forall>a. cnf_true a (contents (roots g' @ gate_clps g'))
         \<longleftrightarrow> a (length (gates two_roots) - 1)
             \<and> cnf_true a (contents (roots two_roots @ remainder two_roots))
             \<and> cnf_true a (contents (gate_clps two_roots)))"
  by (rule normalizeRoots_equivalent) (simp_all add: two_roots_def gf_init_def del: replicate_Suc)

section \<open>The pruned problem\<close>

text \<open>The literals whose gate the loop would copy.\<close>

definition prune_selects :: "gate_formula \<Rightarrow> u8 list \<Rightarrow> lit \<Rightarrow> bool" where
  "prune_selects g model l \<longleftrightarrow>
     isDefined (gates g ! lit_var l)
     \<and> (hasNonMonotonicParent (gates g ! lit_var l) \<or> model ! l \<noteq> 0)"

lemma prune_loop_char:
  assumes b: "\<And>l. l \<in> set ls \<Longrightarrow> lit_var l < length (gates g) \<and> l < length model"
    and vis: "stamp_inv v" "stamp_elems v = {}" "stamp_size v = length (gates g)"
    and def: "\<And>l. l \<in> set ls \<Longrightarrow> isDefined (gates g ! lit_var l) \<Longrightarrow> fwd (gates g ! lit_var l) \<noteq> []"
    and "length ls < fuel"
  shows "prune_loop g model fuel ls v result =
    (if \<exists>l \<in> set ls. prune_selects g model l then Inl OutOfRange else Inr result)"
  using assms(1,5-)
proof (induction ls arbitrary: fuel rule: rev_induct)
  case Nil
  then show ?case by (simp add: prune_loop.simps)
next
  case (snoc l ls)
  then obtain k where k: "fuel = Suc k" by (cases fuel) auto
  have l: "lit_var l < length (gates g)" "l < length model" using snoc.prems(1) [of l] by auto
  have IH: "prune_loop g model k ls v result =
    (if \<exists>l \<in> set ls. prune_selects g model l then Inl OutOfRange else Inr result)"
    using snoc.prems k by (intro snoc.IH) auto
  have seen: "isStamped (lit_var l) v = Inr False"
    using st.test_ok [OF vis(1), of "lit_var l"] vis l by simp
  show ?case
  proof (cases "prune_selects g model l")
    case True
    then have "isDefined (gates g ! lit_var l)" by (simp add: prune_selects_def)
    then have f: "fwd (gates g ! lit_var l) \<noteq> []" using snoc.prems(2) [of l] by simp
    have "prune_loop g model fuel (ls @ [l]) v result = Inl OutOfRange"
      using True seen l f k
      by (subst prune_loop.simps)
        (auto simp: prune_selects_def copy_to_end_def)
    with True show ?thesis by simp
  next
    case False
    have "prune_loop g model fuel (ls @ [l]) v result = prune_loop g model k ls v result"
      using False seen l k
      by (subst prune_loop.simps)
        (auto simp: prune_selects_def)
    with IH False show ?thesis by simp
  qed
qed

text \<open>C20. \<open>getPrunedProblem\<close> never delivers the clauses of a branch: it returns the roots and the
  remainder when no root literal selects a gate, and otherwise writes behind the end of
  \<open>result\<close>.\<close>

theorem getPrunedProblem_char:
  assumes "\<And>l. l \<in> set (getRoots g) \<Longrightarrow> lit_var l < length (gates g) \<and> l < length model"
    and "\<And>l. l \<in> set (getRoots g) \<Longrightarrow> isDefined (gates g ! lit_var l) \<Longrightarrow> fwd (gates g ! lit_var l) \<noteq> []"
  shows "getPrunedProblem g model =
    (if \<exists>l \<in> set (getRoots g). prune_selects g model l then Inl OutOfRange
     else Inr (roots g @ remainder g))"
proof -
  let ?ls = "remdups_adj (sort (getRoots g))"
  have s: "set ?ls = set (getRoots g)" by simp
  have "length ?ls \<le> length (getRoots g)"
    by (metis length_sort remdups_adj_length)
  then have "prune_loop g model (prune_fuel g) ?ls (stamp_new (length (gates g))) (roots g) =
    (if \<exists>l \<in> set ?ls. prune_selects g model l then Inl OutOfRange else Inr (roots g))"
    using assms stamp_new_ok [where ?'a = 8] by (intro prune_loop_char) (auto simp: prune_fuel_def)
  then show ?thesis by (simp add: getPrunedProblem_def s)
qed

definition pruned_example :: gate_formula where
  "pruned_example = (gf_init 3 0)\<lparr>roots := [Clp 0 [2]],
     gates := (gates (gf_init 3 0))[1 := \<lparr>gtype = AND, out = 2, fwd = [Clp 1 [3, 4], Clp 2 [3, 6]],
       bwd = [Clp 3 [2, 5, 7]], notMono = False, inp = [4, 6]\<rparr>]\<rparr>"

theorem getPrunedProblem_char_witness:
  "getPrunedProblem pruned_example [0, 0, 1, 0, 1, 0, 1, 0] =
    (if \<exists>l \<in> set (getRoots pruned_example). prune_selects pruned_example [0, 0, 1, 0, 1, 0, 1, 0] l
     then Inl OutOfRange else Inr (roots pruned_example @ remainder pruned_example))"
  by (rule getPrunedProblem_char)
    (simp_all add: pruned_example_def gf_init_def getRoots_def lit_var_def)

end
