(* ===== verification/Rfc1321.thy ===== *)
theory Rfc1321
  imports Prelude Complex_Main
begin

text \<open>
  The MD5 message digest as RFC 1321 defines it, independent of the code: the 64 steps by their
  number, the additive constants as the integer part of \<open>4294967296 * abs (sin i)\<close>, little-endian
  numbers as sums of powers of 256.  \<open>Md5\<close> proves that \<open>cnftools/lib/md5\<close> computes it.

  The constants are evaluated in fixed-point arithmetic with a proved error bound
  (\<open>sine_constants\<close>), so that a table of them can be checked.
\<close>

unbundle bit_operations_syntax

section \<open>The definition\<close>

type_synonym md5_state = "u32 \<times> u32 \<times> u32 \<times> u32"

definition rfc_number :: "u8 list \<Rightarrow> u32" where
  "rfc_number bs = of_nat (horner_sum unat 256 bs)"

definition rfc_bytes :: "nat \<Rightarrow> nat \<Rightarrow> u8 list" where
  "rfc_bytes k n = map (\<lambda>i. of_nat (n div 256 ^ i)) [0 ..< k]"

definition rfc_init :: md5_state where
  "rfc_init = (rfc_number [0x01, 0x23, 0x45, 0x67], rfc_number [0x89, 0xAB, 0xCD, 0xEF],
     rfc_number [0xFE, 0xDC, 0xBA, 0x98], rfc_number [0x76, 0x54, 0x32, 0x10])"

definition rfc_T :: "nat \<Rightarrow> u32" where
  "rfc_T i = of_int \<lfloor>4294967296 * \<bar>sin (real i)\<bar>\<rfloor>"

definition rfc_fun :: "nat \<Rightarrow> u32 \<Rightarrow> u32 \<Rightarrow> u32 \<Rightarrow> u32" where
  "rfc_fun i x y z =
     (if i < 16 then (x AND y) OR (NOT x AND z)
      else if i < 32 then (x AND z) OR (y AND NOT z)
      else if i < 48 then x XOR y XOR z
      else y XOR (x OR NOT z))"

definition rfc_index :: "nat \<Rightarrow> nat" where
  "rfc_index i =
     (if i < 16 then i
      else if i < 32 then (5 * i + 1) mod 16
      else if i < 48 then (3 * i + 5) mod 16
      else 7 * i mod 16)"

definition rfc_shift :: "nat \<Rightarrow> nat" where
  "rfc_shift i = [[7, 12, 17, 22], [5, 9, 14, 20], [4, 11, 16, 23], [6, 10, 15, 21]] ! (i div 16) ! (i mod 4)"

text \<open>
  Step \<open>i\<close> (from 0): \<open>a = b + ((a + f(b, c, d) + X[k] + T[i + 1]) <<< s)\<close>, and the registers change
  their names for the next step.
\<close>

definition rfc_step :: "u32 list \<Rightarrow> md5_state \<Rightarrow> nat \<Rightarrow> md5_state" where
  "rfc_step X = (\<lambda>(a, b, c, d) i.
     (d, b + word_rotl (rfc_shift i) (a + rfc_fun i b c d + X ! rfc_index i + rfc_T (i + 1)), b, c))"

definition rfc_compress :: "md5_state \<Rightarrow> u8 list \<Rightarrow> md5_state" where
  "rfc_compress = (\<lambda>(a, b, c, d) blk.
     let X = map (\<lambda>j. rfc_number (take 4 (drop (4 * j) blk))) [0 ..< 16];
         (a', b', c', d') = foldl (rfc_step X) (a, b, c, d) [0 ..< 64]
     in (a + a', b + b', c + c', d + d'))"

function rfc_absorb :: "md5_state \<Rightarrow> u8 list \<Rightarrow> md5_state \<times> u8 list" where
  "rfc_absorb q xs =
     (if 64 \<le> length xs then rfc_absorb (rfc_compress q (take 64 xs)) (drop 64 xs) else (q, xs))"
  by pat_completeness auto
termination
  by (relation "measure (\<lambda>(q, xs). length xs)") auto

declare rfc_absorb.simps [simp del]

text \<open>A one bit, zeros up to 56 modulo 64 bytes, and the length in bits modulo \<open>2 ^ 64\<close>.\<close>

definition rfc_pad :: "u8 list \<Rightarrow> u8 list" where
  "rfc_pad m = m @ 0x80 # replicate ((119 - length m mod 64) mod 64) 0 @ rfc_bytes 8 (8 * length m)"

definition rfc_md5 :: "u8 list \<Rightarrow> u8 list" where
  "rfc_md5 m =
     (case rfc_absorb rfc_init (rfc_pad m) of ((a, b, c, d), _) \<Rightarrow>
        rfc_bytes 4 (unat a) @ rfc_bytes 4 (unat b) @ rfc_bytes 4 (unat c) @ rfc_bytes 4 (unat d))"

lemma rfc_pad_blocks: "length (rfc_pad m) mod 64 = 0"
proof -
  define r where "r = length m mod 64"
  have "r < 64" by (simp add: r_def)
  then have "(r + 9 + (119 - r) mod 64) mod 64 = 0"
    by (cases "r < 56") (simp_all add: le_mod_geq)
  then have "(length m + 9 + (119 - r) mod 64) mod 64 = 0"
    unfolding r_def by (metis mod_add_left_eq)
  then show ?thesis by (simp add: rfc_pad_def rfc_bytes_def r_def ac_simps)
qed

section \<open>Absorbing in pieces\<close>

lemma rfc_absorb_append:
  "rfc_absorb r (xs @ ys) = (let (q, rest) = rfc_absorb r xs in rfc_absorb q (rest @ ys))"
proof (induction r xs rule: rfc_absorb.induct)
  case (1 r xs)
  show ?case
  proof (cases "64 \<le> length xs")
    case True
    then show ?thesis
      using 1 by (simp add: rfc_absorb.simps [of r xs] rfc_absorb.simps [of r "xs @ ys"])
  next
    case False
    then show ?thesis by (simp add: rfc_absorb.simps [of r xs])
  qed
qed

lemma rfc_absorb_rest_length: "length (snd (rfc_absorb r xs)) = length xs mod 64"
proof (induction r xs rule: rfc_absorb.induct)
  case (1 r xs)
  then show ?case
    by (cases "64 \<le> length xs") (simp_all add: rfc_absorb.simps [of r xs] le_mod_geq)
qed

lemma rfc_absorb_short: "length xs < 64 \<Longrightarrow> rfc_absorb r xs = (r, xs)"
  by (simp add: rfc_absorb.simps)

lemma rfc_absorb_block: "length xs = 64 \<Longrightarrow> rfc_absorb r (xs @ ys) = rfc_absorb (rfc_compress r xs) ys"
  by (simp add: rfc_absorb.simps [of r])

section \<open>The sine of the natural numbers in fixed point\<close>

text \<open>
  Scaled by \<open>2 ^ 80\<close>: \<open>(s, c, e)\<close> approximates the sine and the cosine of \<open>n\<close> up to \<open>e\<close>; a step adds 1
  to the angle.
\<close>

definition sine_scale :: int where "sine_scale = 0x100000000000000000000"
definition sine_1 :: int where "sine_1 = 0xd76aa47848677020c6ea"
definition cosine_1 :: int where "cosine_1 = 0x8a51407da8345c91c246"

definition sine_step :: "int \<times> int \<times> int \<Rightarrow> int \<times> int \<times> int" where
  "sine_step = (\<lambda>(s, c, e).
     ((s * cosine_1 + c * sine_1) div sine_scale, (c * cosine_1 - s * sine_1) div sine_scale,
      7 * e div 5 + 4))"

definition sine_approx :: "nat \<Rightarrow> int \<times> int \<times> int \<Rightarrow> bool" where
  "sine_approx n = (\<lambda>(s, c, e).
     \<bar>of_int sine_scale * sin (real n) - of_int s\<bar> \<le> of_int e
     \<and> \<bar>of_int sine_scale * cos (real n) - of_int c\<bar> \<le> of_int e)"

lemma sine_approx_0: "sine_approx 0 (0, sine_scale, 0)"
  by (simp add: sine_approx_def)

lemma sine_1_bound: "\<bar>of_int sine_scale * sin 1 - of_int sine_1\<bar> \<le> (1 :: real)"
proof -
  let ?t = "\<Sum>m<26. sin_coeff m * 1 ^ m :: real"
  have t: "?t = 13052233190723859821607001 / 15511210043330985984000000"
    by (simp add: lessThan_nat_numeral lessThan_Suc sin_coeff_def fact_numeral)
  have "\<bar>sin 1 - ?t\<bar> \<le> inverse (fact 26)" using Maclaurin_sin_bound [of 1 26] by simp
  also have "\<dots> \<le> 1 / 0x1000000000000000000000" by (simp add: fact_numeral)
  finally show ?thesis
    unfolding t sine_scale_def sine_1_def abs_le_iff by simp
qed

lemma cosine_1_bound: "\<bar>of_int sine_scale * cos 1 - of_int cosine_1\<bar> \<le> (1 :: real)"
proof -
  let ?t = "\<Sum>m<26. cos_coeff m * 1 ^ m :: real"
  have t: "?t = 335229702128671164345673 / 620448401733239439360000"
    by (simp add: lessThan_nat_numeral lessThan_Suc cos_coeff_def fact_numeral)
  obtain w :: real where "cos 1 = ?t + w / fact 26 * 1 ^ 26" and w: "\<bar>w\<bar> \<le> 1"
    using Maclaurin_cos_expansion [of 1 26] abs_cos_le_one by metis
  then have "cos 1 - ?t = w / fact 26" by simp
  then have "\<bar>cos 1 - ?t\<bar> = \<bar>w\<bar> * inverse (fact 26)"
    by (simp add: divide_inverse abs_mult)
  also have "\<dots> \<le> 1 * inverse (fact 26)" using w by (intro mult_right_mono) simp_all
  also have "\<dots> \<le> 1 / 0x1000000000000000000000" by (simp add: fact_numeral)
  finally show ?thesis
    unfolding t sine_scale_def cosine_1_def abs_le_iff by simp
qed

text \<open>One step multiplies the error by less than \<open>7 / 5\<close>.\<close>

lemma fixed_product:
  fixes k s c e u v :: real and a b :: real
  assumes k: "0 < k" and ab: "\<bar>a\<bar> + \<bar>b\<bar> \<le> 7 / 5 * k"
    and s: "\<bar>k * u - s\<bar> \<le> e" and c: "\<bar>k * v - c\<bar> \<le> e"
    and p: "\<bar>k * p - a\<bar> \<le> 1" and q: "\<bar>k * q - b\<bar> \<le> 1" and uv: "\<bar>u\<bar> \<le> 1" "\<bar>v\<bar> \<le> 1"
  shows "\<bar>k * (u * p + v * q) - (s * a + c * b) / k\<bar> \<le> 7 / 5 * e + 2"
proof -
  have e: "0 \<le> e" using s by linarith
  define w x y z where "w = (k * u - s) * (a / k)" and "x = (k * v - c) * (b / k)"
    and "y = u * (k * p - a)" and "z = v * (k * q - b)"
  have sum: "k * (u * p + v * q) - (s * a + c * b) / k = w + x + y + z"
    using k by (simp add: w_def x_def y_def z_def field_simps)
  have "\<bar>w\<bar> \<le> e * (\<bar>a\<bar> / k)"
    unfolding w_def abs_mult using s k by (intro mult_mono) auto
  moreover have "\<bar>x\<bar> \<le> e * (\<bar>b\<bar> / k)"
    unfolding x_def abs_mult using c k by (intro mult_mono) auto
  moreover have "e * (\<bar>a\<bar> / k) + e * (\<bar>b\<bar> / k) = e * ((\<bar>a\<bar> + \<bar>b\<bar>) / k)"
    by (simp add: add_divide_distrib distrib_left)
  moreover have "e * ((\<bar>a\<bar> + \<bar>b\<bar>) / k) \<le> e * (7 / 5)"
    using e ab k by (intro mult_left_mono) (simp_all add: divide_le_eq)
  ultimately have "\<bar>w\<bar> + \<bar>x\<bar> \<le> 7 / 5 * e" by linarith
  moreover have "\<bar>y\<bar> \<le> 1" "\<bar>z\<bar> \<le> 1"
    unfolding y_def z_def abs_mult using uv p q by (simp_all add: mult_le_one)
  ultimately show ?thesis unfolding sum by linarith
qed

lemma div_bound: "0 < k \<Longrightarrow> \<bar>of_int x / of_int k - of_int (x div k)\<bar> \<le> (1 :: real)"
  for x k :: int
proof -
  assume "0 < k"
  have "(of_int x :: real) = of_int (x div k * k + x mod k)" by (simp only: div_mult_mod_eq)
  then have "(of_int x :: real) = of_int (x div k) * of_int k + of_int (x mod k)"
    by (simp only: of_int_add of_int_mult)
  then have "of_int x / of_int k - of_int (x div k) = (of_int (x mod k) / of_int k :: real)"
    using \<open>0 < k\<close> by (simp add: add_divide_distrib)
  moreover have "0 \<le> (of_int (x mod k) / of_int k :: real)" "of_int (x mod k) / of_int k \<le> (1 :: real)"
    using \<open>0 < k\<close> pos_mod_bound [of k x] pos_mod_sign [of k x] by (simp_all add: divide_le_eq less_imp_le)
  ultimately show ?thesis by simp
qed

lemma sine_approx_step:
  assumes "sine_approx n q"
  shows "sine_approx (Suc n) (sine_step q)"
proof -
  obtain s c e where q: "q = (s, c, e)" by (cases q)
  let ?k = "of_int sine_scale :: real"
  have k: "0 < ?k" "0 < sine_scale" by (simp_all add: sine_scale_def)
  have ab: "\<bar>of_int cosine_1\<bar> + \<bar>of_int sine_1\<bar> \<le> 7 / 5 * ?k"
    "\<bar>of_int cosine_1\<bar> + \<bar>- of_int sine_1\<bar> \<le> 7 / 5 * ?k"
    by (simp_all add: sine_scale_def sine_1_def cosine_1_def)
  have s: "\<bar>?k * sin (real n) - of_int s\<bar> \<le> of_int e" and c: "\<bar>?k * cos (real n) - of_int c\<bar> \<le> of_int e"
    using assms by (simp_all add: q sine_approx_def)
  have ms: "\<bar>?k * - sin 1 - - of_int sine_1\<bar> \<le> (1 :: real)" using sine_1_bound by simp
  have sum: "sin (real (Suc n)) = sin (real n) * cos 1 + cos (real n) * sin 1"
    "cos (real (Suc n)) = cos (real n) * cos 1 + sin (real n) * - sin 1"
    using sin_add [of "real n" 1] cos_add [of "real n" 1] by (simp_all add: add.commute)
  have S: "\<bar>?k * sin (real (Suc n)) - (of_int s * of_int cosine_1 + of_int c * of_int sine_1) / ?k\<bar>
      \<le> 7 / 5 * of_int e + 2"
    unfolding sum by (rule fixed_product [OF k(1) ab(1) s c cosine_1_bound sine_1_bound]) simp_all
  have C: "\<bar>?k * cos (real (Suc n)) - (of_int c * of_int cosine_1 + of_int s * - of_int sine_1) / ?k\<bar>
      \<le> 7 / 5 * of_int e + 2"
    unfolding sum by (rule fixed_product [OF k(1) ab(2) c s cosine_1_bound ms]) simp_all
  have "\<bar>(of_int s * of_int cosine_1 + of_int c * of_int sine_1) / ?k
      - of_int ((s * cosine_1 + c * sine_1) div sine_scale)\<bar> \<le> 1"
    using div_bound [OF k(2), of "s * cosine_1 + c * sine_1"] by simp
  moreover have "\<bar>(of_int c * of_int cosine_1 + of_int s * - of_int sine_1) / ?k
      - of_int ((c * cosine_1 - s * sine_1) div sine_scale)\<bar> \<le> 1"
    using div_bound [OF k(2), of "c * cosine_1 - s * sine_1"] by simp
  moreover have "7 / 5 * of_int e + 3 \<le> (of_int (7 * e div 5 + 4) :: real)"
    using div_bound [of 5 "7 * e"] by simp
  ultimately show ?thesis
    using S C unfolding q sine_approx_def sine_step_def by (simp only: prod.case) linarith
qed

text \<open>A table is checked against both ends of the interval.\<close>

fun sine_check :: "int \<times> int \<times> int \<Rightarrow> int list \<Rightarrow> bool" where
  "sine_check q [] = True"
| "sine_check q (t # ts) =
     (let q = sine_step q in
      (case q of (s, c, e) \<Rightarrow> t * 0x1000000000000 + e \<le> \<bar>s\<bar> \<and> \<bar>s\<bar> + e < (t + 1) * 0x1000000000000)
      \<and> sine_check q ts)"

lemma sine_floor:
  assumes a: "sine_approx n (s, c, e)" and "t * 0x1000000000000 + e \<le> \<bar>s\<bar>"
    and "\<bar>s\<bar> + e < (t + 1) * 0x1000000000000"
  shows "\<lfloor>4294967296 * \<bar>sin (real n)\<bar>\<rfloor> = t"
proof -
  let ?k = "of_int sine_scale :: real"
  have "\<bar>\<bar>?k * sin (real n)\<bar> - \<bar>of_int s\<bar>\<bar> \<le> of_int e"
    using a abs_triangle_ineq3 [of "?k * sin (real n)" "of_int s"] by (simp add: sine_approx_def)
  moreover have "\<bar>?k * sin (real n)\<bar> = 0x1000000000000 * (4294967296 * \<bar>sin (real n)\<bar>)"
    by (simp add: sine_scale_def abs_mult)
  moreover have "of_int (t * 0x1000000000000 + e) \<le> (of_int \<bar>s\<bar> :: real)"
    "(of_int (\<bar>s\<bar> + e) :: real) < of_int ((t + 1) * 0x1000000000000)"
    using assms(2,3) by (simp_all only: of_int_le_iff of_int_less_iff)
  ultimately show ?thesis by (intro floor_unique) auto
qed

lemma sine_check_nth:
  "sine_check q ts \<Longrightarrow> sine_approx n q \<Longrightarrow> i < length ts \<Longrightarrow>
     \<lfloor>4294967296 * \<bar>sin (real (n + i + 1))\<bar>\<rfloor> = ts ! i"
proof (induction q ts arbitrary: n i rule: sine_check.induct)
  case (2 q t ts)
  obtain s c e where q: "sine_step q = (s, c, e)" by (cases "sine_step q")
  have a: "sine_approx (Suc n) (s, c, e)" using sine_approx_step [OF "2.prems"(2)] by (simp add: q)
  show ?case
  proof (cases i)
    case 0
    with "2.prems"(1) q sine_floor [OF a, of t] show ?thesis by simp
  next
    case (Suc j)
    with "2.prems" "2.IH" [OF refl, of "Suc n" j] a q show ?thesis by simp
  qed
qed simp

lemma sine_constants:
  "sine_check (0, sine_scale, 0) ts \<Longrightarrow> i < length ts \<Longrightarrow> rfc_T (i + 1) = of_int (ts ! i)"
  using sine_check_nth [OF _ sine_approx_0, of ts i] by (simp add: rfc_T_def)

end
