(* ===== verification/Md5.thy ===== *)
theory Md5
  imports Rfc1321
begin

text \<open>
  The MD5 implementation of \<open>cnftools/lib/md5/md5.cpp\<close> with the tables and step functions of
  \<open>md5_loc.h\<close>: progressive processing with a buffer of left-over bytes, padding, the length
  counter in two 32-bit words, and the hexadecimal form of a signature.  The result is proved to
  be the digest of RFC 1321 (\<open>rfc_md5\<close> of \<open>Rfc1321\<close>) of the bytes passed to \<open>process\<close>.

  Bytes are 8-bit words and the host is little endian (\<open>MD5_BIG_ENDIAN\<close> is not set).  Lengths and
  positions are \<open>unsigned\<close> and wrap around as in the code; a read behind the input is \<open>OutOfRange\<close>.
\<close>

unbundle bit_operations_syntax

section \<open>Tables and steps\<close>

definition md5_T :: "u32 list" where
  "md5_T =
    [0xd76aa478, 0xe8c7b756, 0x242070db, 0xc1bdceee, 0xf57c0faf, 0x4787c62a, 0xa8304613, 0xfd469501,
     0x698098d8, 0x8b44f7af, 0xffff5bb1, 0x895cd7be, 0x6b901122, 0xfd987193, 0xa679438e, 0x49b40821,
     0xf61e2562, 0xc040b340, 0x265e5a51, 0xe9b6c7aa, 0xd62f105d, 0x02441453, 0xd8a1e681, 0xe7d3fbc8,
     0x21e1cde6, 0xc33707d6, 0xf4d50d87, 0x455a14ed, 0xa9e3e905, 0xfcefa3f8, 0x676f02d9, 0x8d2a4c8a,
     0xfffa3942, 0x8771f681, 0x6d9d6122, 0xfde5380c, 0xa4beea44, 0x4bdecfa9, 0xf6bb4b60, 0xbebfbc70,
     0x289b7ec6, 0xeaa127fa, 0xd4ef3085, 0x04881d05, 0xd9d4d039, 0xe6db99e5, 0x1fa27cf8, 0xc4ac5665,
     0xf4292244, 0x432aff97, 0xab9423a7, 0xfc93a039, 0x655b59c3, 0x8f0ccc92, 0xffeff47d, 0x85845dd1,
     0x6fa87e4f, 0xfe2ce6e0, 0xa3014314, 0x4e0811a1, 0xf7537e82, 0xbd3af235, 0x2ad7d2bb, 0xeb86d391]"

definition md5_S1 :: "nat list" where "md5_S1 = [7, 12, 17, 22]"
definition md5_S2 :: "nat list" where "md5_S2 = [5, 9, 14, 20]"
definition md5_S3 :: "nat list" where "md5_S3 = [4, 11, 16, 23]"
definition md5_S4 :: "nat list" where "md5_S4 = [6, 10, 15, 21]"

definition cyclic_left_rotate :: "u32 \<Rightarrow> nat \<Rightarrow> u32" where
  "cyclic_left_rotate x n = push_bit n x OR drop_bit (32 - n) x"

definition md5_F :: "u32 \<Rightarrow> u32 \<Rightarrow> u32 \<Rightarrow> u32" where "md5_F x y z = (x AND y) OR (NOT x AND z)"
definition md5_G :: "u32 \<Rightarrow> u32 \<Rightarrow> u32 \<Rightarrow> u32" where "md5_G x y z = (x AND z) OR (y AND NOT z)"
definition md5_H :: "u32 \<Rightarrow> u32 \<Rightarrow> u32 \<Rightarrow> u32" where "md5_H x y z = x XOR y XOR z"
definition md5_I :: "u32 \<Rightarrow> u32 \<Rightarrow> u32 \<Rightarrow> u32" where "md5_I x y z = y XOR (x OR NOT z)"

text \<open>\<open>FF\<close> to \<open>II\<close>: the new value of the first register.\<close>

definition md5_FF :: "u32 \<Rightarrow> u32 \<Rightarrow> u32 \<Rightarrow> u32 \<Rightarrow> u32 \<Rightarrow> nat \<Rightarrow> nat \<Rightarrow> u32" where
  "md5_FF a b c d xk s i = cyclic_left_rotate (a + (md5_F b c d + xk + md5_T ! i)) (md5_S1 ! s) + b"

definition md5_GG :: "u32 \<Rightarrow> u32 \<Rightarrow> u32 \<Rightarrow> u32 \<Rightarrow> u32 \<Rightarrow> nat \<Rightarrow> nat \<Rightarrow> u32" where
  "md5_GG a b c d xk s i = cyclic_left_rotate (a + (md5_G b c d + xk + md5_T ! i)) (md5_S2 ! s) + b"

definition md5_HH :: "u32 \<Rightarrow> u32 \<Rightarrow> u32 \<Rightarrow> u32 \<Rightarrow> u32 \<Rightarrow> nat \<Rightarrow> nat \<Rightarrow> u32" where
  "md5_HH a b c d xk s i = cyclic_left_rotate (a + (md5_H b c d + xk + md5_T ! i)) (md5_S3 ! s) + b"

definition md5_II :: "u32 \<Rightarrow> u32 \<Rightarrow> u32 \<Rightarrow> u32 \<Rightarrow> u32 \<Rightarrow> nat \<Rightarrow> nat \<Rightarrow> u32" where
  "md5_II a b c d xk s i = cyclic_left_rotate (a + (md5_I b c d + xk + md5_T ! i)) (md5_S4 ! s) + b"

section \<open>One block\<close>

datatype regs = Regs (reg_A: u32) (reg_B: u32) (reg_C: u32) (reg_D: u32)

text \<open>\<open>memcpy\<close> of four bytes into an \<open>unsigned int\<close>, and back.\<close>

definition le32 :: "u8 list \<Rightarrow> u32" where
  "le32 bs = ucast (bs ! 0) OR push_bit 8 (ucast (bs ! 1)) OR push_bit 16 (ucast (bs ! 2))
     OR push_bit 24 (ucast (bs ! 3))"

definition bytes32 :: "u32 \<Rightarrow> u8 list" where
  "bytes32 x = [ucast x, ucast (drop_bit 8 x), ucast (drop_bit 16 x), ucast (drop_bit 24 x)]"

definition block_words :: "u8 list \<Rightarrow> u32 list" where
  "block_words blk = map (\<lambda>i. le32 (take 4 (drop (4 * i) blk))) [0 ..< 16]"

text \<open>
  The four rounds.  Four consecutive calls take the registers as (A, B, C, D), (D, A, B, C),
  (C, D, A, B) and (B, C, D, A); \<open>four\<close> does them with the given step function on the message
  words \<open>k0\<close> to \<open>k3\<close>, from the table index \<open>i\<close> on.
\<close>

type_synonym step_fun = "u32 \<Rightarrow> u32 \<Rightarrow> u32 \<Rightarrow> u32 \<Rightarrow> u32 \<Rightarrow> nat \<Rightarrow> nat \<Rightarrow> u32"

definition four :: "step_fun \<Rightarrow> u32 list \<Rightarrow> nat \<times> nat \<times> nat \<times> nat \<Rightarrow> nat \<Rightarrow> regs \<Rightarrow> regs" where
  "four f X ks i r =
     (case ks of (k0, k1, k2, k3) \<Rightarrow> case r of Regs A B C D \<Rightarrow>
        let A = f A B C D (X ! k0) 0 i;
            D = f D A B C (X ! k1) 1 (i + 1);
            C = f C D A B (X ! k2) 2 (i + 2);
            B = f B C D A (X ! k3) 3 (i + 3)
        in Regs A B C D)"

definition round1 :: "u32 list \<Rightarrow> regs \<Rightarrow> regs" where
  "round1 X = four md5_FF X (12, 13, 14, 15) 12 \<circ> four md5_FF X (8, 9, 10, 11) 8
     \<circ> four md5_FF X (4, 5, 6, 7) 4 \<circ> four md5_FF X (0, 1, 2, 3) 0"

definition round2 :: "u32 list \<Rightarrow> regs \<Rightarrow> regs" where
  "round2 X = four md5_GG X (13, 2, 7, 12) 28 \<circ> four md5_GG X (9, 14, 3, 8) 24
     \<circ> four md5_GG X (5, 10, 15, 4) 20 \<circ> four md5_GG X (1, 6, 11, 0) 16"

definition round3 :: "u32 list \<Rightarrow> regs \<Rightarrow> regs" where
  "round3 X = four md5_HH X (9, 12, 15, 2) 44 \<circ> four md5_HH X (13, 0, 3, 6) 40
     \<circ> four md5_HH X (1, 4, 7, 10) 36 \<circ> four md5_HH X (5, 8, 11, 14) 32"

definition round4 :: "u32 list \<Rightarrow> regs \<Rightarrow> regs" where
  "round4 X = four md5_II X (4, 11, 2, 9) 60 \<circ> four md5_II X (8, 15, 6, 13) 56
     \<circ> four md5_II X (12, 3, 10, 1) 52 \<circ> four md5_II X (0, 7, 14, 5) 48"

definition md5_compress :: "regs \<Rightarrow> u8 list \<Rightarrow> regs" where
  "md5_compress r blk =
     (let X = block_words blk; q = round4 X (round3 X (round2 X (round1 X r)))
      in Regs (reg_A q + reg_A r) (reg_B q + reg_B r) (reg_C q + reg_C r) (reg_D q + reg_D r))"

section \<open>The object\<close>

record md5 =
  md5_regs :: regs
  message_lo :: u32
  message_hi :: u32
  stored :: "u8 list"
  finished :: bool
  signature :: "u8 list"

definition BLOCK_SIZE :: nat where "BLOCK_SIZE = 64"

definition md5_initialise :: md5 where
  "md5_initialise =
     \<lparr>md5_regs = Regs 0x67452301 0xefcdab89 0x98badcfe 0x10325476, message_lo = 0, message_hi = 0,
      stored = [], finished = False, signature = []\<rparr>"

text \<open>The length counter with its carry.\<close>

definition add_length :: "u32 \<Rightarrow> md5 \<Rightarrow> md5" where
  "add_length k s =
     (let hi = (if message_lo s + k < message_lo s then message_hi s + 1 else message_hi s)
      in s\<lparr>message_hi := hi, message_lo := message_lo s + k\<rparr>)"

definition process_block :: "u8 list \<Rightarrow> md5 \<Rightarrow> md5" where
  "process_block blk s =
     (let s = add_length 64 s in s\<lparr>md5_regs := md5_compress (md5_regs s) blk\<rparr>)"

text \<open>
  \<open>memcpy\<close> of \<open>n\<close> bytes of the input from the position \<open>off\<close> on; the input may end before.
\<close>

definition read_bytes :: "u8 list \<Rightarrow> u32 \<Rightarrow> u32 \<Rightarrow> u8 list res" where
  "read_bytes input off n =
     (if unat off + unat n \<le> length input then Inr (take (unat n) (drop (unat off) input))
      else Inl OutOfRange)"

text \<open>
  The loop over whole blocks.  \<open>processed\<close> and its sum with \<open>BLOCK_SIZE\<close> are \<open>unsigned\<close>: for an
  \<open>input_length\<close> of at least \<open>2 ^ 32 - 64\<close> the sum wraps around to a small number and the test
  never fails, so the loop need not end (\<open>None\<close>).
\<close>

partial_function (option) process_blocks ::
  "u8 list \<Rightarrow> u32 \<Rightarrow> u32 \<Rightarrow> md5 \<Rightarrow> (md5 \<times> u32) res option" where [code]:
  "process_blocks input input_length processed s =
     (if processed + of_nat BLOCK_SIZE \<le> input_length then
        (case read_bytes input processed (of_nat BLOCK_SIZE) of
           Inl f \<Rightarrow> Some (Inl f)
         | Inr blk \<Rightarrow>
             process_blocks input input_length (processed + of_nat BLOCK_SIZE) (process_block blk s))
      else Some (Inr (s, processed)))"

text \<open>
  \<open>process\<close> on the bytes \<open>input\<close>, whose number is converted to \<open>unsigned\<close> at the call: complete the
  stored block, process whole blocks, store the rest.  When nothing is left over \<open>stored_size\<close>
  becomes 0, also when the input was empty.  The array \<open>stored\<close> has room for two blocks.
\<close>

definition complete_block :: "u8 list \<Rightarrow> u32 \<Rightarrow> md5 \<Rightarrow> (md5 \<times> u32) res" where
  "complete_block input input_length s =
     (let stored_size = of_nat (length (stored s)) in
      if stored_size \<noteq> 0 \<and> of_nat BLOCK_SIZE \<le> input_length + stored_size then
        let n = of_nat BLOCK_SIZE - stored_size in
        bind_res (read_bytes input 0 n) (\<lambda>bs.
          Inr (process_block (stored s @ bs) (s\<lparr>stored := []\<rparr>), n))
      else Inr (s, 0))"

definition store_rest :: "u8 list \<Rightarrow> u32 \<Rightarrow> u32 \<Rightarrow> md5 \<Rightarrow> md5 res" where
  "store_rest input input_length processed s =
     (if processed \<noteq> input_length then
        bind_res (read_bytes input processed (input_length - processed)) (\<lambda>bs.
          if length (stored s @ bs) \<le> 2 * BLOCK_SIZE then Inr (s\<lparr>stored := stored s @ bs\<rparr>)
          else Inl OutOfRange)
      else Inr (s\<lparr>stored := []\<rparr>))"

definition md5_process :: "u8 list \<Rightarrow> md5 \<Rightarrow> md5 res option" where
  "md5_process input s =
     (if \<not> finished s then
        (let input_length = of_nat (length input) in
         case complete_block input input_length s of
           Inl f \<Rightarrow> Some (Inl f)
         | Inr (s, processed) \<Rightarrow>
             (case process_blocks input input_length processed s of
                None \<Rightarrow> None
              | Some (Inl f) \<Rightarrow> Some (Inl f)
              | Some (Inr (s, processed)) \<Rightarrow> Some (store_rest input input_length processed s)))
      else Some (Inr s))"

text \<open>Successive calls, one for each piece.\<close>

fun md5_pieces :: "u8 list list \<Rightarrow> md5 \<Rightarrow> md5 res option" where
  "md5_pieces [] s = Some (Inr s)"
| "md5_pieces (c # cs) s =
     (case md5_process c s of Some (Inr t) \<Rightarrow> md5_pieces cs t | r \<Rightarrow> r)"

definition md5_result :: "regs \<Rightarrow> u8 list" where
  "md5_result r = bytes32 (reg_A r) @ bytes32 (reg_B r) @ bytes32 (reg_C r) @ bytes32 (reg_D r)"

definition pad_size :: "nat \<Rightarrow> nat" where
  "pad_size n =
     (let pad = int BLOCK_SIZE - 8 - int n in nat (if pad \<le> 0 then pad + int BLOCK_SIZE else pad))"

definition size_low :: "md5 \<Rightarrow> u32" where
  "size_low s = push_bit 3 (message_lo s AND 0x1FFFFFFF)"

definition size_high :: "md5 \<Rightarrow> u32" where
  "size_high s = push_bit 3 (message_hi s) OR drop_bit 29 (message_lo s AND 0xE0000000)"

definition md5_trailer :: "md5 \<Rightarrow> u8 list" where
  "md5_trailer s =
     0x80 # replicate (pad_size (length (stored s)) - 1) 0
     @ bytes32 (size_low s) @ bytes32 (size_high s)"

definition md5_finish :: "md5 \<Rightarrow> md5" where
  "md5_finish s =
     (if \<not> finished s then
        (let s = add_length (of_nat (length (stored s))) s;
             st = stored s @ md5_trailer s;
             s = process_block (take BLOCK_SIZE st) (s\<lparr>stored := st\<rparr>);
             s = (if BLOCK_SIZE < length (stored s)
                  then process_block (drop BLOCK_SIZE (stored s)) s else s)
         in s\<lparr>signature := md5_result (md5_regs s), finished := True\<rparr>)
      else s)"

definition get_sig :: "md5 \<Rightarrow> u8 list option" where
  "get_sig s = (if finished s then Some (signature s) else None)"

section \<open>Hexadecimal signatures\<close>

definition HEX_STRING :: string where "HEX_STRING = ''0123456789abcdef''"

text \<open>
  \<open>str_len\<close> bounds the characters written; the terminating 0 is written when there is room.
\<close>

fun sig_chars :: "u8 list \<Rightarrow> nat \<Rightarrow> string" where
  "sig_chars [] room = (if 0 < room then [CHR 0x00] else [])"
| "sig_chars (b # bs) room =
     (if room \<le> 1 then (if 0 < room then [CHR 0x00] else [])
      else HEX_STRING ! (unat b div 16) # HEX_STRING ! (unat b mod 16) # sig_chars bs (room - 2))"

definition sig_to_string :: "u8 list \<Rightarrow> nat \<Rightarrow> string" where
  "sig_to_string sig str_len = sig_chars (take 16 sig) str_len"

text \<open>\<open>strchr\<close> finds the terminating 0 too; for any other character it returns \<open>NULL\<close>.\<close>

fun index_of :: "char \<Rightarrow> string \<Rightarrow> nat res" where
  "index_of c [] = (if c = CHR 0x00 then Inr 0 else Inl OutOfRange)"
| "index_of c (d # ds) = (if c = d then Inr 0 else bind_res (index_of c ds) (\<lambda>k. Inr (Suc k)))"

fun sig_bytes :: "nat \<Rightarrow> string \<Rightarrow> u8 list res" where
  "sig_bytes 0 cs = Inr []"
| "sig_bytes (Suc n) (c # d # cs) =
     bind_res (index_of c HEX_STRING) (\<lambda>high.
     bind_res (index_of d HEX_STRING) (\<lambda>low.
     bind_res (sig_bytes n cs) (\<lambda>bs. Inr (of_nat (high * 16 + low) # bs))))"
| "sig_bytes (Suc n) cs = Inl OutOfRange"

definition sig_from_string :: "string \<Rightarrow> u8 list res" where
  "sig_from_string cs = sig_bytes 16 cs"

section \<open>Blocks\<close>

text \<open>The code's compression function is that of RFC 1321, its table included.\<close>

definition tup :: "regs \<Rightarrow> md5_state" where
  "tup r = (reg_A r, reg_B r, reg_C r, reg_D r)"

lemma tup_simps [simp]: "tup (Regs a b c d) = (a, b, c, d)"
  by (simp add: tup_def)

text \<open>The table is the one of RFC 1321: the integer parts of \<open>4294967296 * abs (sin i)\<close>.\<close>

lemma md5_T_sine:
  assumes "i < 64"
  shows "md5_T ! i = rfc_T (i + 1)"
proof -
  have "sine_check (0, sine_scale, 0) (map uint md5_T)" by code_simp
  moreover have "length md5_T = 64" by (simp add: md5_T_def)
  ultimately show ?thesis using sine_constants [of "map uint md5_T" i] assms by simp
qed

lemma cyclic_left_rotate_rotl:
  assumes "0 < n" and "n < 32"
  shows "cyclic_left_rotate x n = word_rotl n x"
proof (rule bit_word_eqI)
  fix i assume i: "i < LENGTH(32)"
  show "bit (cyclic_left_rotate x n) i = bit (word_rotl n x) i"
  proof (cases "n \<le> i")
    case True
    then have "(i + (32 - n)) mod 32 = i - n" using i assms by (simp add: le_mod_geq)
    moreover have "\<not> bit x (32 - n + i)" using True assms by (auto dest: bit_imp_le_length)
    ultimately show ?thesis
      using True i assms by (simp add: cyclic_left_rotate_def bit_simps)
  next
    case False
    then have "(i + (32 - n)) mod 32 = 32 - n + i" using i assms by simp
    with False i assms show ?thesis by (simp add: cyclic_left_rotate_def bit_simps)
  qed
qed

lemma le32_number:
  "rfc_number [a, b, c, d] = le32 [a, b, c, d]"
proof -
  have u: "of_nat (unat x) = (ucast x :: u32)" for x :: u8 by (simp add: unsigned_of_nat)
  have "rfc_number [a, b, c, d] = ucast a + (push_bit 8 (ucast b) + (push_bit 16 (ucast c) + push_bit 24 (ucast d)))"
    by (simp add: rfc_number_def u push_bit_eq_mult algebra_simps)
  also have "push_bit 16 (ucast c) + push_bit 24 (ucast d) = (push_bit 16 (ucast c) OR push_bit 24 (ucast d) :: u32)"
    by (rule disjunctive_add) (auto simp: bit_simps dest: bit_imp_le_length)
  also have "push_bit 8 (ucast b) + (push_bit 16 (ucast c) OR push_bit 24 (ucast d))
      = (push_bit 8 (ucast b) OR (push_bit 16 (ucast c) OR push_bit 24 (ucast d)) :: u32)"
    by (rule disjunctive_add) (auto simp: bit_simps dest: bit_imp_le_length)
  also have "ucast a + (push_bit 8 (ucast b) OR (push_bit 16 (ucast c) OR push_bit 24 (ucast d)))
      = (ucast a OR (push_bit 8 (ucast b) OR (push_bit 16 (ucast c) OR push_bit 24 (ucast d))) :: u32)"
    by (rule disjunctive_add) (auto simp: bit_simps dest: bit_imp_le_length)
  finally show ?thesis by (simp add: le32_def or.assoc)
qed

lemma four_bytes: "length xs = 4 \<Longrightarrow> \<exists>a b c d. xs = [a, b, c, d]"
  by (auto simp: length_Suc_conv numeral_eq_Suc)

lemma block_words_number:
  assumes "length blk = 64"
  shows "block_words blk = map (\<lambda>j. rfc_number (take 4 (drop (4 * j) blk))) [0 ..< 16]"
proof -
  have "le32 (take 4 (drop (4 * j) blk)) = rfc_number (take 4 (drop (4 * j) blk))" if "j < 16" for j
  proof -
    have "length (take 4 (drop (4 * j) blk)) = 4" using assms that by simp
    then show ?thesis using four_bytes le32_number by metis
  qed
  then show ?thesis by (simp add: block_words_def)
qed

text \<open>Four steps of a round, by the number \<open>i\<close> of the first.\<close>

definition four_ok :: "step_fun \<Rightarrow> nat \<times> nat \<times> nat \<times> nat \<Rightarrow> nat \<Rightarrow> bool" where
  "four_ok f ks i \<longleftrightarrow>
     (\<forall>X r. foldl (rfc_step X) (tup r) [i, i + 1, i + 2, i + 3] = tup (four f X ks i r))"

lemma four_okI:
  assumes "\<And>X a b c d. rfc_step X (a, b, c, d) i = (d, f a b c d (X ! k0) 0 i, b, c)"
    and "\<And>X a b c d. rfc_step X (a, b, c, d) (i + 1) = (d, f a b c d (X ! k1) 1 (i + 1), b, c)"
    and "\<And>X a b c d. rfc_step X (a, b, c, d) (i + 2) = (d, f a b c d (X ! k2) 2 (i + 2), b, c)"
    and "\<And>X a b c d. rfc_step X (a, b, c, d) (i + 3) = (d, f a b c d (X ! k3) 3 (i + 3), b, c)"
  shows "four_ok f (k0, k1, k2, k3) i"
proof -
  have "foldl (rfc_step X) (tup r) [i, i + 1, i + 2, i + 3] = tup (four f X (k0, k1, k2, k3) i r)" for X r
    by (cases r) (simp only: foldl_Nil foldl_Cons tup_simps assms four_def Let_def prod.case regs.case)
  then show ?thesis by (simp add: four_ok_def)
qed

lemma step_rotl:
  "0 < n \<Longrightarrow> n < 32 \<Longrightarrow> i < 64 \<Longrightarrow>
     b + word_rotl n (a + f + x + rfc_T (i + 1)) = cyclic_left_rotate (a + (f + x + md5_T ! i)) n + b"
  by (simp add: cyclic_left_rotate_rotl md5_T_sine add.assoc add.commute [of b])

text \<open>The step functions of the code are the steps of their round.\<close>

lemma shift_S:
  "i < 16 \<Longrightarrow> rfc_shift i = md5_S1 ! (i mod 4)"
  "16 \<le> i \<Longrightarrow> i < 32 \<Longrightarrow> rfc_shift i = md5_S2 ! (i mod 4)"
  "32 \<le> i \<Longrightarrow> i < 48 \<Longrightarrow> rfc_shift i = md5_S3 ! (i mod 4)"
  "48 \<le> i \<Longrightarrow> i < 64 \<Longrightarrow> rfc_shift i = md5_S4 ! (i mod 4)"
proof -
  have "i div 16 = k" if "16 * k \<le> i" "i < 16 * k + 16" for k using that by linarith
  from this [of 0] this [of 1] this [of 2] this [of 3]
  show "i < 16 \<Longrightarrow> rfc_shift i = md5_S1 ! (i mod 4)"
    "16 \<le> i \<Longrightarrow> i < 32 \<Longrightarrow> rfc_shift i = md5_S2 ! (i mod 4)"
    "32 \<le> i \<Longrightarrow> i < 48 \<Longrightarrow> rfc_shift i = md5_S3 ! (i mod 4)"
    "48 \<le> i \<Longrightarrow> i < 64 \<Longrightarrow> rfc_shift i = md5_S4 ! (i mod 4)"
    by (simp_all add: rfc_shift_def md5_S1_def md5_S2_def md5_S3_def md5_S4_def)
qed

lemma shift_range: "i < 64 \<Longrightarrow> 0 < rfc_shift i \<and> rfc_shift i < 32"
proof -
  assume "i < 64"
  have "list_all (\<lambda>i. 0 < rfc_shift i \<and> rfc_shift i < 32) [0 ..< 64]" by code_simp
  with \<open>i < 64\<close> show ?thesis by (simp add: list_all_iff)
qed

lemma code_steps:
  "i < 16 \<Longrightarrow> rfc_step X (a, b, c, d) i = (d, md5_FF a b c d (X ! rfc_index i) (i mod 4) i, b, c)"
  "16 \<le> i \<Longrightarrow> i < 32 \<Longrightarrow> rfc_step X (a, b, c, d) i = (d, md5_GG a b c d (X ! rfc_index i) (i mod 4) i, b, c)"
  "32 \<le> i \<Longrightarrow> i < 48 \<Longrightarrow> rfc_step X (a, b, c, d) i = (d, md5_HH a b c d (X ! rfc_index i) (i mod 4) i, b, c)"
  "48 \<le> i \<Longrightarrow> i < 64 \<Longrightarrow> rfc_step X (a, b, c, d) i = (d, md5_II a b c d (X ! rfc_index i) (i mod 4) i, b, c)"
proof -
  have r: "0 < rfc_shift i \<and> rfc_shift i < 32" if "i < 64" using that by (rule shift_range)
  show "i < 16 \<Longrightarrow> rfc_step X (a, b, c, d) i = (d, md5_FF a b c d (X ! rfc_index i) (i mod 4) i, b, c)"
    using r step_rotl [of "rfc_shift i" i b a "md5_F b c d" "X ! rfc_index i"]
    by (simp add: rfc_step_def rfc_fun_def md5_FF_def md5_F_def shift_S(1))
  show "16 \<le> i \<Longrightarrow> i < 32 \<Longrightarrow> rfc_step X (a, b, c, d) i = (d, md5_GG a b c d (X ! rfc_index i) (i mod 4) i, b, c)"
    using r step_rotl [of "rfc_shift i" i b a "md5_G b c d" "X ! rfc_index i"]
    by (simp add: rfc_step_def rfc_fun_def md5_GG_def md5_G_def shift_S(2))
  show "32 \<le> i \<Longrightarrow> i < 48 \<Longrightarrow> rfc_step X (a, b, c, d) i = (d, md5_HH a b c d (X ! rfc_index i) (i mod 4) i, b, c)"
    using r step_rotl [of "rfc_shift i" i b a "md5_H b c d" "X ! rfc_index i"]
    by (simp add: rfc_step_def rfc_fun_def md5_HH_def md5_H_def shift_S(3))
  show "48 \<le> i \<Longrightarrow> i < 64 \<Longrightarrow> rfc_step X (a, b, c, d) i = (d, md5_II a b c d (X ! rfc_index i) (i mod 4) i, b, c)"
    using r step_rotl [of "rfc_shift i" i b a "md5_I b c d" "X ! rfc_index i"]
    by (simp add: rfc_step_def rfc_fun_def md5_II_def md5_I_def shift_S(4))
qed

lemma round1_ok: "foldl (rfc_step X) (tup r) [0 ..< 16] = tup (round1 X r)"
proof -
  have "four_ok md5_FF (0, 1, 2, 3) 0" "four_ok md5_FF (4, 5, 6, 7) 4"
    "four_ok md5_FF (8, 9, 10, 11) 8" "four_ok md5_FF (12, 13, 14, 15) 12"
    by (intro four_okI; simp add: code_steps rfc_index_def del: add_2_eq_Suc')+
  moreover have "[0 ..< 16] = [0, 0 + 1, 0 + 2, 0 + 3] @ [4, 4 + 1, 4 + 2, 4 + 3]
      @ [8, 8 + 1, 8 + 2, 8 + 3] @ [12, 12 + 1, 12 + 2, 12 + 3 :: nat]"
    by (simp add: upt_rec)
  ultimately show ?thesis by (simp only: foldl_append four_ok_def round1_def comp_def)
qed

lemma round2_ok: "foldl (rfc_step X) (tup r) [16 ..< 32] = tup (round2 X r)"
proof -
  have "four_ok md5_GG (1, 6, 11, 0) 16" "four_ok md5_GG (5, 10, 15, 4) 20"
    "four_ok md5_GG (9, 14, 3, 8) 24" "four_ok md5_GG (13, 2, 7, 12) 28"
    by (intro four_okI; simp add: code_steps rfc_index_def del: add_2_eq_Suc')+
  moreover have "[16 ..< 32] = [16, 16 + 1, 16 + 2, 16 + 3] @ [20, 20 + 1, 20 + 2, 20 + 3]
      @ [24, 24 + 1, 24 + 2, 24 + 3] @ [28, 28 + 1, 28 + 2, 28 + 3 :: nat]"
    by (simp add: upt_rec)
  ultimately show ?thesis by (simp only: foldl_append four_ok_def round2_def comp_def)
qed

lemma round3_ok: "foldl (rfc_step X) (tup r) [32 ..< 48] = tup (round3 X r)"
proof -
  have "four_ok md5_HH (5, 8, 11, 14) 32" "four_ok md5_HH (1, 4, 7, 10) 36"
    "four_ok md5_HH (13, 0, 3, 6) 40" "four_ok md5_HH (9, 12, 15, 2) 44"
    by (intro four_okI; simp add: code_steps rfc_index_def del: add_2_eq_Suc')+
  moreover have "[32 ..< 48] = [32, 32 + 1, 32 + 2, 32 + 3] @ [36, 36 + 1, 36 + 2, 36 + 3]
      @ [40, 40 + 1, 40 + 2, 40 + 3] @ [44, 44 + 1, 44 + 2, 44 + 3 :: nat]"
    by (simp add: upt_rec)
  ultimately show ?thesis by (simp only: foldl_append four_ok_def round3_def comp_def)
qed

lemma round4_ok: "foldl (rfc_step X) (tup r) [48 ..< 64] = tup (round4 X r)"
proof -
  have "four_ok md5_II (0, 7, 14, 5) 48" "four_ok md5_II (12, 3, 10, 1) 52"
    "four_ok md5_II (8, 15, 6, 13) 56" "four_ok md5_II (4, 11, 2, 9) 60"
    by (intro four_okI; simp add: code_steps rfc_index_def del: add_2_eq_Suc')+
  moreover have "[48 ..< 64] = [48, 48 + 1, 48 + 2, 48 + 3] @ [52, 52 + 1, 52 + 2, 52 + 3]
      @ [56, 56 + 1, 56 + 2, 56 + 3] @ [60, 60 + 1, 60 + 2, 60 + 3 :: nat]"
    by (simp add: upt_rec)
  ultimately show ?thesis by (simp only: foldl_append four_ok_def round4_def comp_def)
qed

lemma compress_rfc:
  assumes "length blk = 64"
  shows "tup (md5_compress r blk) = rfc_compress (tup r) blk"
proof -
  define X where "X = map (\<lambda>j. rfc_number (take 4 (drop (4 * j) blk))) [0 ..< 16]"
  have X: "block_words blk = X" using block_words_number [OF assms] by (simp only: X_def)
  have "[0 ..< 64] = [0 ..< 16] @ [16 ..< 32] @ [32 ..< 48] @ [48 ..< 64 :: nat]"
    by (simp add: upt_rec)
  then have f: "foldl (rfc_step X) (tup r) [0 ..< 64] = tup (round4 X (round3 X (round2 X (round1 X r))))"
    by (simp only: foldl_append round1_ok round2_ok round3_ok round4_ok)
  show ?thesis
    using f by (simp add: rfc_compress_def md5_compress_def X Let_def tup_def add.commute flip: X_def)
qed

lemma rfc_init_regs: "tup (md5_regs md5_initialise) = rfc_init"
  by (simp add: rfc_init_def md5_initialise_def rfc_number_def)

lemma byte_of_nat:
  "8 * i + 8 \<le> LENGTH('a) \<Longrightarrow> of_nat (n div 256 ^ i) = (ucast (drop_bit (8 * i) (of_nat n :: 'a::len word)) :: u8)"
proof (rule bit_word_eqI)
  fix j assume "8 * i + 8 \<le> LENGTH('a)" "j < LENGTH(8)"
  moreover have "n div 256 ^ i = drop_bit (8 * i) n" by (simp add: drop_bit_eq_div power_mult)
  ultimately show "bit (of_nat (n div 256 ^ i) :: u8) j
      = bit (ucast (drop_bit (8 * i) (of_nat n :: 'a word)) :: u8) j"
    by (auto simp: bit_simps)
qed

lemma bytes32_number: "bytes32 x = rfc_bytes 4 (unat x)"
proof -
  have "of_nat (unat x div 256 ^ i) = (ucast (drop_bit (8 * i) x) :: u8)" if "i < 4" for i
    using byte_of_nat [where 'a = 32, of i "unat x"] that by simp
  from this [of 0] this [of 1] this [of 2] this [of 3] show ?thesis
    by (simp add: bytes32_def rfc_bytes_def upt_rec del: of_nat_unat)
qed

lemma md5_result_rfc:
  "md5_result r = (case tup r of (a, b, c, d) \<Rightarrow>
     rfc_bytes 4 (unat a) @ rfc_bytes 4 (unat b) @ rfc_bytes 4 (unat c) @ rfc_bytes 4 (unat d))"
  by (simp add: md5_result_def tup_def bytes32_number)

lemma bytes32_low: "k \<le> 24 \<Longrightarrow> (ucast (drop_bit k (ucast (w :: u64) :: u32)) :: u8) = ucast (drop_bit k w)"
  by (rule bit_word_eqI) (auto simp: bit_simps)

lemma length_number:
  "rfc_bytes 8 n = bytes32 (ucast (of_nat n :: u64)) @ bytes32 (ucast (drop_bit 32 (of_nat n :: u64)))"
proof -
  let ?w = "of_nat n :: u64"
  have "of_nat (n div 256 ^ i) = (ucast (drop_bit (8 * i) ?w) :: u8)" if "i < 8" for i
    using byte_of_nat [where 'a = 64, of i n] that by simp
  then have "rfc_bytes 8 n = map (\<lambda>i. ucast (drop_bit (8 * i) ?w)) [0 ..< 8]"
    by (simp add: rfc_bytes_def)
  also have "\<dots> = bytes32 (ucast ?w) @ bytes32 (ucast (drop_bit 32 ?w))"
    using bytes32_low [of 0] bytes32_low [of 8] bytes32_low [of 16] bytes32_low [of 24]
    by (simp add: bytes32_def upt_rec drop_bit_drop_bit)
  finally show ?thesis .
qed

section \<open>The length counter\<close>

definition len64 :: "md5 \<Rightarrow> u64" where
  "len64 s = ucast (message_lo s) + 2 ^ 32 * ucast (message_hi s)"

lemma uint_lt32: "uint (x :: u32) < 4294967296" "0 \<le> uint x"
  using uint_bounded [of x] by simp_all

lemma uint_ucast64 [simp]: "uint (ucast (x :: u32) :: u64) = uint x"
  by (simp add: uint_up_ucast is_up)

lemma uint_len64: "uint (len64 s) = uint (message_lo s) + 4294967296 * uint (message_hi s)"
proof -
  have "uint (4294967296 * ucast (message_hi s) :: u64) = 4294967296 * uint (message_hi s)"
    using uint_lt32 [of "message_hi s"] by (simp add: uint_word_ariths)
  then show ?thesis
    using uint_lt32 [of "message_hi s"] uint_lt32 [of "message_lo s"]
    by (simp add: len64_def uint_word_ariths)
qed

lemma carry_arith:
  fixes a k h :: int
  assumes "0 \<le> a" "a < 4294967296" "0 \<le> k" "k < 4294967296" "0 \<le> h" "h < 4294967296"
  shows "(a + k) mod 4294967296
      + 4294967296 * (if (a + k) mod 4294967296 < a then (h + 1) mod 4294967296 else h)
    = (a + 4294967296 * h + k) mod 18446744073709551616"
proof (cases "a + k < 4294967296")
  case True
  with assms have "(a + k) mod 4294967296 = a + k" by simp
  with assms show ?thesis by simp
next
  case False
  have "(a + k - 4294967296 + 4294967296) mod 4294967296 = (a + k - 4294967296) mod 4294967296"
    by (rule mod_add_self2)
  also have "\<dots> = a + k - 4294967296" using assms False by (intro mod_pos_pos_trivial) simp_all
  finally have m: "(a + k) mod 4294967296 = a + k - 4294967296" by simp
  show ?thesis
  proof (cases "h + 1 < 4294967296")
    case True
    with assms m False show ?thesis by simp
  next
    case h: False
    with assms have h': "h = 4294967295" by simp
    have "a + 4294967296 * h + k = (a + k - 4294967296) + 18446744073709551616" by (simp add: h')
    then have "(a + 4294967296 * h + k) mod 18446744073709551616
        = ((a + k - 4294967296) + 18446744073709551616) mod 18446744073709551616"
      by (simp only:)
    also have "\<dots> = (a + k - 4294967296) mod 18446744073709551616" by (rule mod_add_self2)
    also have "\<dots> = a + k - 4294967296" using assms False by (intro mod_pos_pos_trivial) simp_all
    finally have r: "(a + 4294967296 * h + k) mod 18446744073709551616 = a + k - 4294967296" .
    show ?thesis unfolding r m using assms False by (simp add: h')
  qed
qed

lemma len64_add: "len64 (add_length k s) = len64 s + ucast k"
proof -
  have less: "(message_lo s + k < message_lo s)
      = ((uint (message_lo s) + uint k) mod 4294967296 < uint (message_lo s))"
    by (simp add: word_less_def uint_word_ariths)
  have "uint (len64 (add_length k s))
      = (uint (message_lo s) + uint k) mod 4294967296 + 4294967296
        * (if (uint (message_lo s) + uint k) mod 4294967296 < uint (message_lo s)
           then (uint (message_hi s) + 1) mod 4294967296 else uint (message_hi s))"
    by (simp add: uint_len64 add_length_def Let_def less uint_word_ariths)
  also have "\<dots> = (uint (message_lo s) + 4294967296 * uint (message_hi s) + uint k)
      mod 18446744073709551616"
    by (rule carry_arith) (use uint_lt32 in auto)
  also have "\<dots> = uint (len64 s + ucast k)"
    by (simp add: uint_word_ariths uint_len64)
  finally show ?thesis by (simp only: word_uint_eq_iff)
qed

text \<open>The two words of the bit length.\<close>

lemma len64_or: "len64 s = ucast (message_lo s) OR push_bit 32 (ucast (message_hi s))"
proof -
  have "ucast (message_lo s) + push_bit 32 (ucast (message_hi s) :: u64)
      = ucast (message_lo s) OR push_bit 32 (ucast (message_hi s))"
    by (rule disjunctive_add) (auto simp: bit_simps dest: bit_imp_le_length)
  then show ?thesis by (simp add: len64_def push_bit_eq_mult mult.commute)
qed

lemma size_words:
  "ucast (8 * len64 s) = size_low s" "ucast (drop_bit 32 (8 * len64 s)) = size_high s"
proof -
  have e: "bit (8 * x) n \<longleftrightarrow> 3 \<le> n \<and> n < 64 \<and> bit x (n - 3)" for x :: u64 and n
  proof -
    have "8 * x = push_bit 3 x" by (simp add: push_bit_eq_mult)
    then show ?thesis by (simp only: bit_push_bit_iff) (auto dest: bit_imp_le_length)
  qed
  have m: "(0x1FFFFFFF :: u32) = mask 29" "(0xE0000000 :: u32) = push_bit 29 (mask 3)"
    by (simp_all add: mask_eq_exp_minus_1 push_bit_eq_mult)
  show "ucast (8 * len64 s) = size_low s"
    unfolding size_low_def m len64_or
    by (rule bit_eqI) (auto simp: bit_simps e dest: bit_imp_le_length)
  show "ucast (drop_bit 32 (8 * len64 s)) = size_high s"
    unfolding size_high_def m len64_or
    by (rule bit_eqI) (auto simp: bit_simps e dest: bit_imp_le_length)
qed

section \<open>Progressive processing\<close>

text \<open>The object has taken in the bytes \<open>m\<close>.\<close>

definition md5_holds :: "md5 \<Rightarrow> u8 list \<Rightarrow> bool" where
  "md5_holds s m \<longleftrightarrow>
     \<not> finished s \<and> rfc_absorb rfc_init m = (tup (md5_regs s), stored s)
     \<and> len64 s = of_nat (length m - length (stored s))"

lemma md5_holds_init: "md5_holds md5_initialise []"
  using rfc_init_regs by (simp add: md5_holds_def md5_initialise_def rfc_absorb_short len64_def)

lemma md5_holds_stored: "md5_holds s m \<Longrightarrow> length (stored s) = length m mod 64"
  using rfc_absorb_rest_length [of rfc_init m] by (simp add: md5_holds_def)

lemma process_block_fields [simp]:
  "md5_regs (process_block b s) = md5_compress (md5_regs s) b"
  "stored (process_block b s) = stored s" "finished (process_block b s) = finished s"
  by (simp_all add: process_block_def add_length_def Let_def)

lemma process_block_len [simp]: "len64 (process_block b s) = len64 s + 64"
proof -
  have "len64 (process_block b s) = len64 (add_length 64 s)"
    by (simp add: process_block_def Let_def len64_def)
  then show ?thesis by (simp add: len64_add)
qed

lemma len64_stored [simp]: "len64 (s\<lparr>stored := x\<rparr>) = len64 s"
  by (simp add: len64_def)

text \<open>Sums of positions below \<open>2 ^ 32\<close> do not wrap around.\<close>

lemma unat_of_nat32: "n < 0x100000000 \<Longrightarrow> unat (of_nat n :: u32) = n"
  by (simp add: unat_of_nat)

lemma unat_add_block:
  "unat p + 64 < 0x100000000 \<Longrightarrow> unat (p + 64 :: u32) = unat p + 64"
  by (subst unat_add_lem [THEN iffD1]) simp_all

lemma read_bytes_ok:
  "unat p + unat n \<le> length input \<Longrightarrow> read_bytes input p n = Inr (take (unat n) (drop (unat p) input))"
  by (simp add: read_bytes_def)

lemma process_blocks_absorb:
  assumes "length input < 0xFFFFFFC0" and "unat p \<le> length input"
  shows "\<exists>t q. process_blocks input (of_nat (length input)) p s = Some (Inr (t, q))
     \<and> unat p \<le> unat q \<and> unat q \<le> length input
     \<and> rfc_absorb (tup (md5_regs s)) (drop (unat p) input) = (tup (md5_regs t), drop (unat q) input)
     \<and> stored t = stored s \<and> finished t = finished s \<and> len64 t = len64 s + of_nat (unat q - unat p)"
  using assms(2)
proof (induction "length input - unat p" arbitrary: p s rule: less_induct)
  case less
  let ?L = "of_nat (length input) :: u32" and ?xs = "drop (unat p) input"
  have L: "unat ?L = length input" using assms(1) by (simp add: unat_of_nat32)
  have p64: "unat (p + 64) = unat p + 64" using less.prems assms(1) by (intro unat_add_block) simp
  then have le: "p + 64 \<le> ?L \<longleftrightarrow> unat p + 64 \<le> length input" by (simp add: word_le_nat_alt L)
  show ?case
  proof (cases "unat p + 64 \<le> length input")
    case True
    let ?b = "take 64 ?xs"
    have run: "process_blocks input ?L p s = process_blocks input ?L (p + 64) (process_block ?b s)"
      using True le by (subst process_blocks.simps) (simp add: BLOCK_SIZE_def read_bytes_ok)
    have "length input - unat (p + 64) < length input - unat p" "unat (p + 64) \<le> length input"
      using True p64 by simp_all
    from less.hyps [OF this, of "process_block ?b s"] obtain t q where
      t: "process_blocks input ?L (p + 64) (process_block ?b s) = Some (Inr (t, q))"
        "unat p + 64 \<le> unat q" "unat q \<le> length input"
        "rfc_absorb (tup (md5_compress (md5_regs s) ?b)) (drop (unat p + 64) input)
          = (tup (md5_regs t), drop (unat q) input)"
        "stored t = stored s" "finished t = finished s"
        "len64 t = len64 s + 64 + of_nat (unat q - (unat p + 64))"
      by (auto simp: p64)
    have "length ?b = 64" using True by simp
    then have "rfc_absorb (tup (md5_regs s)) (?b @ drop 64 ?xs)
        = rfc_absorb (tup (md5_compress (md5_regs s) ?b)) (drop 64 ?xs)"
      by (simp only: rfc_absorb_block compress_rfc)
    moreover have "drop 64 ?xs = drop (unat p + 64) input" by (simp add: add.commute)
    ultimately have a: "rfc_absorb (tup (md5_regs s)) ?xs = (tup (md5_regs t), drop (unat q) input)"
      using t(4) by (metis append_take_drop_id)
    have "unat q - unat p = 64 + (unat q - (unat p + 64))" using t(2) by simp
    then have "(of_nat (unat q - unat p) :: u64) = 64 + of_nat (unat q - (unat p + 64))"
      by (simp only: of_nat_add of_nat_numeral)
    then have l: "len64 t = len64 s + of_nat (unat q - unat p)" using t(7) by (simp add: add.assoc)
    have "unat p \<le> unat q" using t(2) by simp
    then show ?thesis unfolding run using t(1,3,5,6) a l by blast
  next
    case False
    then have "process_blocks input ?L p s = Some (Inr (s, p))"
      using le by (subst process_blocks.simps) (simp add: BLOCK_SIZE_def)
    moreover have "rfc_absorb (tup (md5_regs s)) ?xs = (tup (md5_regs s), ?xs)"
      using False by (intro rfc_absorb_short) simp
    ultimately show ?thesis using less.prems by simp
  qed
qed

lemma store_rest_ok:
  assumes "length input < 0xFFFFFFC0" and "unat q \<le> length input"
    and "length (stored s) + (length input - unat q) \<le> 128"
  shows "store_rest input (of_nat (length input)) q s = Inr (s\<lparr>stored :=
     (if drop (unat q) input \<noteq> [] then stored s @ drop (unat q) input else [])\<rparr>)"
proof -
  let ?L = "of_nat (length input) :: u32"
  have L: "unat ?L = length input" using assms(1) by (simp add: unat_of_nat32)
  have ne: "q \<noteq> ?L \<longleftrightarrow> drop (unat q) input \<noteq> []"
    using assms(2) L by (auto simp: word_unat_eq_iff)
  have "q \<le> ?L" using assms(2) by (simp add: word_le_nat_alt L)
  then have d: "unat (?L - q) = length input - unat q" by (simp add: unat_sub L)
  then have "read_bytes input q (?L - q) = Inr (drop (unat q) input)"
    using assms(2) by (simp add: read_bytes_ok)
  then show ?thesis using ne assms(2,3) by (auto simp: store_rest_def BLOCK_SIZE_def)
qed

text \<open>What \<open>complete_block\<close> leaves: the same bytes taken in, and no stored byte if it made a block.\<close>

lemma complete_block_ok:
  assumes h: "md5_holds s m" and L: "length input < 0xFFFFFFC0"
  shows "\<exists>t p. complete_block input (of_nat (length input)) s = Inr (t, p) \<and> unat p \<le> length input
     \<and> rfc_absorb rfc_init (m @ input) = rfc_absorb (tup (md5_regs t)) (stored t @ drop (unat p) input)
     \<and> (stored t = [] \<or> length (stored t) + length input < 64 \<and> p = 0) \<and> \<not> finished t
     \<and> len64 t = of_nat (length m + unat p - length (stored t)) \<and> length (stored t) \<le> length m"
proof -
  let ?n = "length (stored s)" and ?L = "of_nat (length input) :: u32"
  have st: "?n < 64" and lm: "?n \<le> length m" using md5_holds_stored [OF h] by simp_all
  have nf: "\<not> finished s" and l0: "len64 s = of_nat (length m - ?n)" using h by (simp_all add: md5_holds_def)
  have a: "rfc_absorb rfc_init (m @ input) = rfc_absorb (tup (md5_regs s)) (stored s @ input)"
    using h by (simp add: md5_holds_def rfc_absorb_append [of rfc_init])
  have n: "unat (of_nat ?n :: u32) = ?n" using st by (simp add: unat_of_nat32)
  have "unat (?L + of_nat ?n) = length input + ?n"
    using L st n by (subst unat_add_lem [THEN iffD1]) (simp_all add: unat_of_nat32)
  then have full: "64 \<le> ?L + of_nat ?n \<longleftrightarrow> 64 \<le> length input + ?n" by (simp add: word_le_nat_alt)
  have z: "(of_nat ?n :: u32) \<noteq> 0 \<longleftrightarrow> stored s \<noteq> []" using n by (auto simp: word_unat_eq_iff)
  show ?thesis
  proof (cases "stored s \<noteq> [] \<and> 64 \<le> length input + ?n")
    case True
    define k :: u32 where "k = 64 - of_nat ?n"
    have k: "unat k = 64 - ?n" unfolding k_def using st n by (subst unat_sub) (simp_all add: word_le_nat_alt)
    define b where "b = stored s @ take (64 - ?n) input"
    have b: "length b = 64" using True st by (auto simp: b_def)
    have run: "complete_block input ?L s = Inr (process_block b (s\<lparr>stored := []\<rparr>), k)"
    proof -
      have "read_bytes input 0 k = Inr (take (64 - ?n) input)"
        using True k by (subst read_bytes_ok) auto
      then show ?thesis
        using True full z by (simp add: complete_block_def Let_def BLOCK_SIZE_def b_def flip: k_def)
    qed
    have "rfc_absorb (tup (md5_regs s)) (b @ drop (64 - ?n) input)
        = rfc_absorb (tup (md5_compress (md5_regs s) b)) (drop (64 - ?n) input)"
      using b by (simp only: rfc_absorb_block compress_rfc)
    then have "rfc_absorb rfc_init (m @ input) = rfc_absorb (tup (md5_compress (md5_regs s) b)) (drop (unat k) input)"
      using a by (simp add: b_def k)
    moreover have "len64 s + 64 = of_nat (length m + unat k)"
    proof -
      have "length m + unat k = (length m - ?n) + 64" using lm st k by simp
      then show ?thesis using l0 by (simp only: of_nat_add of_nat_numeral)
    qed
    ultimately show ?thesis using run True nf k by (simp add: le_diff_conv)
  next
    case False
    then have "complete_block input ?L s = Inr (s, 0)"
      using full z by (auto simp: complete_block_def Let_def BLOCK_SIZE_def)
    moreover have "stored s = [] \<or> length (stored s) + length input < 64" using False by auto
    ultimately show ?thesis using a nf l0 lm by simp
  qed
qed

lemma md5_process_holds:
  assumes h: "md5_holds s m" and ne: "input \<noteq> []" and L: "length input < 0xFFFFFFC0"
  shows "\<exists>t. md5_process input s = Some (Inr t) \<and> md5_holds t (m @ input)"
proof -
  let ?L = "of_nat (length input) :: u32"
  obtain s1 p where c: "complete_block input ?L s = Inr (s1, p)" "unat p \<le> length input"
    "rfc_absorb rfc_init (m @ input) = rfc_absorb (tup (md5_regs s1)) (stored s1 @ drop (unat p) input)"
    "stored s1 = [] \<or> length (stored s1) + length input < 64 \<and> p = 0" "\<not> finished s1"
    "len64 s1 = of_nat (length m + unat p - length (stored s1))" "length (stored s1) \<le> length m"
    using complete_block_ok [OF h L] by blast
  obtain t q where t: "process_blocks input ?L p s1 = Some (Inr (t, q))" "unat p \<le> unat q" "unat q \<le> length input"
    "rfc_absorb (tup (md5_regs s1)) (drop (unat p) input) = (tup (md5_regs t), drop (unat q) input)"
    "stored t = stored s1" "finished t = finished s1" "len64 t = len64 s1 + of_nat (unat q - unat p)"
    using process_blocks_absorb [OF L c(2), of s1] by blast
  have rest: "length input - unat q < 64"
    using rfc_absorb_rest_length [of "tup (md5_regs s1)" "drop (unat p) input"] t(4) by simp
  have "length (stored t) + (length input - unat q) \<le> 128" using rest c(4) t(5) by auto
  note sr = store_rest_ok [OF L t(3) this]
  let ?u = "t\<lparr>stored := (if drop (unat q) input \<noteq> [] then stored t @ drop (unat q) input else [])\<rparr>"
  have "md5_process input s = Some (Inr ?u)"
    using h c(1) t(1) sr by (simp add: md5_process_def md5_holds_def Let_def)
  moreover have "md5_holds ?u (m @ input)"
  proof (cases "stored s1 = []")
    case True
    have "len64 t = of_nat (length m + unat p) + of_nat (unat q - unat p)" using c(6) t(7) True by simp
    also have "\<dots> = of_nat (length m + unat p + (unat q - unat p))" by (simp only: of_nat_add)
    also have "length m + unat p + (unat q - unat p) = length m + unat q" using t(2) by simp
    finally have "len64 ?u = of_nat (length (m @ input) - length (stored ?u))"
      using t(3,5) True by simp
    then show ?thesis using True c(3,5) t(4,5,6) by (simp add: md5_holds_def)
  next
    case False
    then have p: "p = 0" "length (stored s1) + length input < 64" using c(4) by simp_all
    then have "rfc_absorb (tup (md5_regs s1)) input = (tup (md5_regs s1), input)" by (intro rfc_absorb_short) simp
    then have q: "drop (unat q) input = input" "tup (md5_regs t) = tup (md5_regs s1)" using t(4) p(1) by simp_all
    then have "unat q = 0" using ne by (metis diff_is_0_eq' diff_zero length_0_conv length_drop neq0_conv
          diff_less length_greater_0_conv less_irrefl)
    then have "len64 t = of_nat (length m - length (stored s1))" using c(6) t(7) p(1) by simp
    moreover have "rfc_absorb rfc_init (m @ input) = (tup (md5_regs t), stored t @ input)"
      using c(3) p t(5) q(2) by (simp add: rfc_absorb_short)
    ultimately show ?thesis using ne q c(5,7) t(5,6) by (simp add: md5_holds_def)
  qed
  ultimately show ?thesis by blast
qed

section \<open>The result\<close>

lemma pad_size_eq:
  "n < 64 \<Longrightarrow> pad_size n = Suc ((119 - n) mod 64)"
proof -
  assume n: "n < 64"
  show ?thesis
  proof (cases "n < 56")
    case True
    then have "(119 - n) mod 64 = 55 - n" by (simp add: le_mod_geq)
    with True show ?thesis by (simp add: pad_size_def BLOCK_SIZE_def Let_def)
  next
    case False
    with n have "(119 - n) mod 64 = 119 - n" by simp
    with False n show ?thesis by (simp add: pad_size_def BLOCK_SIZE_def Let_def)
  qed
qed

lemma length_bytes32 [simp]: "length (bytes32 x) = 4"
  by (simp add: bytes32_def)

lemma padded_length:
  "n < 64 \<Longrightarrow> n + Suc ((119 - n) mod 64) + 8 = (if n < 56 then 64 else 128)"
proof -
  assume n: "n < 64"
  show ?thesis
  proof (cases "n < 56")
    case True
    then have "(119 - n) mod 64 = 55 - n" by (simp add: le_mod_geq)
    with True show ?thesis by simp
  next
    case False
    with n show ?thesis by simp
  qed
qed

lemma md5_finish_holds:
  assumes h: "md5_holds s m"
  shows "signature (md5_finish s) = rfc_md5 m" "finished (md5_finish s)"
proof -
  let ?t = "length (stored s)"
  define s1 where "s1 = add_length (of_nat ?t) s"
  have t: "?t = length m mod 64" "?t < 64" using md5_holds_stored [OF h] by simp_all
  have nf: "\<not> finished s" using h by (simp add: md5_holds_def)
  have uc: "ucast (of_nat ?t :: u32) = (of_nat ?t :: u64)"
    using t(2) by (simp add: unsigned_of_nat take_bit_nat_eq_self)
  have "len64 s1 = of_nat (length m - ?t) + of_nat ?t"
    using h by (simp add: s1_def len64_add uc md5_holds_def)
  also have "\<dots> = of_nat (length m)" using t by (simp flip: of_nat_add)
  finally have len: "len64 s1 = of_nat (length m)" .
  define tail where "tail = 0x80 # replicate ((119 - ?t) mod 64) 0 @ bytes32 (size_low s1) @ bytes32 (size_high s1)"
  have "rfc_bytes 8 (8 * length m) = bytes32 (size_low s1) @ bytes32 (size_high s1)"
    using size_words [of s1] by (simp add: length_number len)
  then have pad: "rfc_pad m = m @ tail"
    using t(1) by (simp add: rfc_pad_def tail_def)
  define st where "st = stored s @ tail"
  have lst: "length st = (if ?t < 56 then 64 else 128)"
    using padded_length [OF t(2)] by (simp add: st_def tail_def)
  have a: "rfc_absorb rfc_init (rfc_pad m) = rfc_absorb (tup (md5_regs s)) st"
    using h rfc_absorb_append [of rfc_init m tail]
    by (simp add: pad md5_holds_def st_def)
  have sig: "md5_result r = rfc_md5 m" if "rfc_absorb (tup (md5_regs s)) st = (tup r, [])" for r
    using that by (simp add: rfc_md5_def a md5_result_rfc split: prod.splits)
  have f1: "md5_regs s1 = md5_regs s" "stored s1 = stored s" by (simp_all add: s1_def add_length_def Let_def)
  have trailer: "md5_trailer s1 = tail"
    using t(2) by (simp add: md5_trailer_def f1(2) pad_size_eq tail_def)
  define s2 where "s2 = process_block (take 64 st) (s1\<lparr>stored := st\<rparr>)"
  have run: "md5_finish s = (let s = (if 64 < length (stored s2) then process_block (drop 64 (stored s2)) s2
      else s2) in s\<lparr>signature := md5_result (md5_regs s), finished := True\<rparr>)"
    unfolding md5_finish_def BLOCK_SIZE_def s1_def [symmetric] Let_def using nf
    by (simp add: f1(2) trailer st_def [symmetric] s2_def [symmetric])
  show "finished (md5_finish s)" by (simp add: run Let_def)
  show "signature (md5_finish s) = rfc_md5 m"
  proof (cases "?t < 56")
    case True
    then have l: "length st = 64" using lst by simp
    then have "rfc_absorb (tup (md5_regs s)) st = (tup (md5_compress (md5_regs s) st), [])"
      using rfc_absorb_block [of st "tup (md5_regs s)" "[]"] by (simp add: rfc_absorb_short compress_rfc)
    from sig [OF this] l show ?thesis by (simp add: run Let_def s2_def f1)
  next
    case False
    then have l: "length st = 128" using lst by simp
    let ?r = "md5_compress (md5_regs s) (take 64 st)"
    have "rfc_absorb (tup (md5_regs s)) st = rfc_absorb (tup (md5_regs s)) (take 64 st @ drop 64 st)" by simp
    also have "\<dots> = rfc_absorb (tup ?r) (drop 64 st @ [])"
      using rfc_absorb_block [of "take 64 st" "tup (md5_regs s)" "drop 64 st"] l by (simp add: compress_rfc)
    also have "\<dots> = (tup (md5_compress ?r (drop 64 st)), [])"
      using rfc_absorb_block [of "drop 64 st" "tup ?r" "[]"] l by (simp add: rfc_absorb_short compress_rfc)
    finally show ?thesis using sig l by (simp add: run Let_def s2_def f1)
  qed
qed

lemma md5_pieces_holds:
  assumes "md5_holds s m" and "\<And>c. c \<in> set cs \<Longrightarrow> c \<noteq> [] \<and> length c < 0xFFFFFFC0"
  shows "\<exists>t. md5_pieces cs s = Some (Inr t) \<and> md5_holds t (m @ concat cs)"
  using assms
proof (induction cs arbitrary: s m)
  case (Cons c cs)
  then obtain t where t: "md5_process c s = Some (Inr t)" "md5_holds t (m @ c)"
    using md5_process_holds [of s m c] by auto
  with Cons.IH [OF t(2)] Cons.prems(2) show ?case by auto
qed simp

text \<open>C21. Progressive hashing computes MD5: however the input is cut into pieces for \<open>process\<close>, each
  non-empty and shorter than \<open>2 ^ 32 - 64\<close> bytes, all calls return without a read behind the piece or
  a write behind \<open>stored\<close>, and \<open>finish\<close> yields the digest RFC 1321 defines for their concatenation.
  That definition is independent of the code, down to the additive constants, which are the integer
  parts of \<open>2 ^ 32 * abs (sin i)\<close>.\<close>

theorem md5_progressive:
  assumes "\<And>c. c \<in> set cs \<Longrightarrow> c \<noteq> [] \<and> length c < 0xFFFFFFC0"
  shows "\<exists>t. md5_pieces cs md5_initialise = Some (Inr t) \<and> get_sig (md5_finish t) = Some (rfc_md5 (concat cs))"
proof -
  obtain t where t: "md5_pieces cs md5_initialise = Some (Inr t)" "md5_holds t (concat cs)"
    using md5_pieces_holds [OF md5_holds_init, of cs] assms by auto
  with md5_finish_holds [OF t(2)] show ?thesis by (simp add: get_sig_def)
qed

theorem md5_progressive_witness:
  "\<exists>t. md5_pieces [[97], [98, 99]] md5_initialise = Some (Inr t)
     \<and> get_sig (md5_finish t) = Some (rfc_md5 (concat [[97], [98, 99]]))"
  by (rule md5_progressive) auto

text \<open>
  The bound is needed: with no stored bytes, a piece of \<open>2 ^ 32 - 64\<close> bytes or more (as many as an
  \<open>unsigned\<close> can count) is read behind its end.  \<open>processed + BLOCK_SIZE\<close> wraps around to 0 after the
  last whole block, the test of the loop holds once more, and a block is taken that is not there.
\<close>

lemma blocks_overrun:
  assumes "0xFFFFFFC0 \<le> length input" and "length input < 0x100000000" and "unat p = 64 * k"
  shows "process_blocks input (of_nat (length input)) p s = Some (Inl OutOfRange)"
  using assms(3)
proof (induction "0x4000000 - k" arbitrary: p k s rule: less_induct)
  case less
  let ?L = "of_nat (length input) :: u32"
  have L: "unat ?L = length input" using assms(2) by (simp add: unat_of_nat32)
  have "unat p < 0x100000000" using unsigned_less [of p] by simp
  then have k: "k < 0x4000000" using less.prems by simp
  show ?case
  proof (cases "k = 0x3FFFFFF")
    case True
    then have "unat p = 0xFFFFFFC0" using less.prems by simp
    then have "p = 0xFFFFFFC0" by (simp add: word_unat_eq_iff)
    moreover have "(0xFFFFFFC0 + 64 :: u32) = 0" by code_simp
    ultimately have "p + 64 = 0" by (simp only:)
    then have "process_blocks input ?L p s = (case read_bytes input p 64 of Inl f \<Rightarrow> Some (Inl f)
        | Inr blk \<Rightarrow> process_blocks input ?L (p + 64) (process_block blk s))"
      by (subst process_blocks.simps) (simp add: BLOCK_SIZE_def split: sum.split)
    moreover have "read_bytes input p 64 = Inl OutOfRange"
      using \<open>unat p = 0xFFFFFFC0\<close> assms(2) by (simp add: read_bytes_def)
    ultimately show ?thesis by simp
  next
    case False
    with k have k': "k + 1 < 0x4000000" by simp
    then have p64: "unat (p + 64) = 64 * (k + 1)" using less.prems by (subst unat_add_block) simp_all
    then have le: "p + 64 \<le> ?L" using k' assms(1) by (simp add: word_le_nat_alt L)
    have "unat p + 64 \<le> length input" using p64 less.prems k' assms(1) by simp
    then have "process_blocks input ?L p s
        = process_blocks input ?L (p + 64) (process_block (take 64 (drop (unat p) input)) s)"
      using le by (subst process_blocks.simps) (simp add: BLOCK_SIZE_def read_bytes_ok)
    also have "\<dots> = Some (Inl OutOfRange)" using k' p64 by (intro less.hyps [of "k + 1"]) simp_all
    finally show ?thesis .
  qed
qed

theorem md5_process_overrun:
  assumes "\<not> finished s" and "stored s = []"
    and "0xFFFFFFC0 \<le> length input" and "length input < 0x100000000"
  shows "md5_process input s = Some (Inl OutOfRange)"
proof -
  have "complete_block input (of_nat (length input)) s = Inr (s, 0)"
    using assms(2) by (simp add: complete_block_def)
  then show ?thesis
    using assms blocks_overrun [of input 0 0 s] by (simp add: md5_process_def Let_def)
qed

theorem md5_process_overrun_witness:
  "md5_process (replicate 0xFFFFFFFF 0) md5_initialise = Some (Inl OutOfRange)"
  by (rule md5_process_overrun) (simp_all add: md5_initialise_def)

text \<open>An empty piece is not neutral: \<open>process\<close> with no input discards the stored bytes.\<close>

lemma md5_process_empty_discards:
  assumes "\<not> finished s" and "length (stored s) < 64"
  shows "md5_process [] s = Some (Inr (s\<lparr>stored := []\<rparr>))"
proof -
  have "\<not> (64 :: u32) \<le> of_nat (length (stored s))"
    using assms(2) by (simp add: word_le_nat_alt unat_of_nat32)
  then have "complete_block [] 0 s = Inr (s, 0)"
    by (simp add: complete_block_def BLOCK_SIZE_def Let_def)
  moreover have "process_blocks [] 0 0 s = Some (Inr (s, 0))"
    by (subst process_blocks.simps) (simp add: BLOCK_SIZE_def)
  ultimately show ?thesis using assms(1) by (simp add: md5_process_def store_rest_def)
qed

section \<open>The hexadecimal form\<close>

lemma index_of_HEX:
  assumes "n < 16"
  shows "index_of (HEX_STRING ! n) HEX_STRING = Inr n"
proof -
  have "list_all (\<lambda>n. index_of (HEX_STRING ! n) HEX_STRING = Inr n) [0 ..< 16]"
    by code_simp
  with assms show ?thesis by (auto simp: list_all_iff)
qed

lemma sig_bytes_chars:
  assumes "2 * length bs < room"
  shows "sig_bytes (length bs) (sig_chars bs room) = Inr bs"
  using assms
proof (induction bs arbitrary: room)
  case (Cons b bs)
  have b: "unat b < 256" using unsigned_less [of b] by simp
  then have h: "unat b div 16 < 16" by simp
  have "(of_nat (unat b div 16) * 16 + of_nat (unat b mod 16) :: u8)
      = of_nat (unat b div 16 * 16 + unat b mod 16)"
    by (simp only: of_nat_add of_nat_mult of_nat_numeral)
  also have "\<dots> = of_nat (unat b)" by (simp only: div_mult_mod_eq)
  finally have "(of_nat (unat b div 16) * 16 + of_nat (unat b mod 16) :: u8) = b" by simp
  with Cons h show ?case by (simp add: index_of_HEX)
qed simp

text \<open>C22. A signature survives the way to its hexadecimal string and back.\<close>

theorem sig_string_roundtrip:
  assumes "length sig = 16"
  shows "sig_from_string (sig_to_string sig 33) = Inr sig"
  using sig_bytes_chars [of sig 33] assms by (simp add: sig_from_string_def sig_to_string_def)

theorem sig_string_roundtrip_witness:
  "sig_from_string (sig_to_string (replicate 16 0xA5) 33) = Inr (replicate 16 0xA5)"
  by (rule sig_string_roundtrip) simp

end
