(* ===== verification/Stream_Buffer.thy ===== *)
theory Stream_Buffer
  imports Decimal
begin

text \<open>
  \<open>class StreamBuffer\<close> of \<open>cnftools/src/util/StreamBuffer.h\<close>: the refilled buffer, its read
  position and the functions the readers call.  \<open>archive_read_data\<close> is the list of the bytes
  that are still to be read, of which it delivers as many as are asked for, as long as there are
  any.  The fresh buffer is uninitialised memory: an argument.

  \<open>text_stream\<close> is the contract the readers rely on; a \<open>StreamBuffer\<close> keeps it when every word of
  the file is shorter than the buffer and the file ends with white space.
\<close>

section \<open>The buffer\<close>

record sbuf =
  sb_buf :: string
  sb_pos :: nat
  sb_end :: nat
  sb_eof_flag :: bool
  sb_rest :: string

definition sb_eof :: "sbuf \<Rightarrow> bool" where
  "sb_eof s \<longleftrightarrow> sb_end s \<le> sb_pos s \<and> sb_eof_flag s"

text \<open>The loop that aligns \<open>end\<close> with the end of a word reads before the buffer at 0.\<close>

fun sb_align :: "string \<Rightarrow> nat \<Rightarrow> nat res" where
  "sb_align buf 0 = Inl OutOfRange"
| "sb_align buf (Suc n) = (if is_space (buf ! n) then Inr (Suc n) else sb_align buf n)"

definition check_refill_buffer :: "sbuf \<Rightarrow> sbuf res" where
  "check_refill_buffer s =
     (if sb_end s \<le> sb_pos s \<and> \<not> sb_eof_flag s then
        (let n = length (sb_buf s);
             keep = 0 < sb_end s \<and> sb_end s < n;
             buf = (if keep then drop (sb_end s) (sb_buf s) @ drop (n - sb_end s) (sb_buf s)
                    else sb_buf s);
             e = (if keep then n - sb_end s else 0);
             data = take (n - e) (sb_rest s);
             buf = take e buf @ data @ drop (e + length data) buf;
             rest = drop (n - e) (sb_rest s);
             e = e + length data
         in if e < n then
              Inr (s\<lparr>sb_buf := buf, sb_pos := 0, sb_end := e, sb_eof_flag := True, sb_rest := rest\<rparr>)
            else bind_res (sb_align buf e) (\<lambda>e.
              Inr (s\<lparr>sb_buf := buf, sb_pos := 0, sb_end := e, sb_rest := rest\<rparr>)))
      else Inr s)"

text \<open>The constructor, once the archive is open: \<open>junk\<close> is the memory \<open>new char[]\<close> returns.\<close>

definition sb_open :: "string \<Rightarrow> string \<Rightarrow> sbuf res" where
  "sb_open junk file =
     check_refill_buffer
       \<lparr>sb_buf = junk, sb_pos = 0, sb_end = 0, sb_eof_flag = False, sb_rest = file\<rparr>"

definition buffer_size :: nat where
  "buffer_size = 16384"

definition incPos :: "nat \<Rightarrow> sbuf \<Rightarrow> sbuf res" where
  "incPos k s = check_refill_buffer (s\<lparr>sb_pos := sb_pos s + k\<rparr>)"

definition sb_char :: "sbuf \<Rightarrow> char res" where
  "sb_char s = vec_get (sb_buf s) (sb_pos s)"

definition sb_peek :: "sbuf \<Rightarrow> char res" where
  "sb_peek s = (if sb_eof s then Inr (CHR 0xFF) else sb_char s)"

text \<open>The two skipping loops; each round consumes a character.\<close>

fun skip_while :: "(char \<Rightarrow> bool) \<Rightarrow> nat \<Rightarrow> sbuf \<Rightarrow> sbuf res" where
  "skip_while P fuel s =
     (if sb_eof s then Inr s
      else bind_res (sb_char s) (\<lambda>c.
        if P c then
          (case fuel of 0 \<Rightarrow> Inl OutOfFuel
           | Suc fuel \<Rightarrow> bind_res (incPos 1 s) (skip_while P fuel))
        else Inr s))"

declare skip_while.simps [simp del]

definition sb_fuel :: "sbuf \<Rightarrow> nat" where
  "sb_fuel s = length (sb_buf s) + length (sb_rest s)"

definition skipWhitespace :: "sbuf \<Rightarrow> sbuf res" where
  "skipWhitespace s = skip_while is_space (sb_fuel s) s"

definition skipLine :: "sbuf \<Rightarrow> sbuf res" where
  "skipLine s =
     bind_res (skip_while (\<lambda>c. \<not> is_space c \<or> is_blank c) (sb_fuel s) s) skipWhitespace"

definition expected_msg :: "string \<Rightarrow> char \<Rightarrow> string" where
  "expected_msg str c = ''PARSE ERROR! Expected '' @ [CHR 0x27] @ str @ [CHR 0x27] @ '' but found '' @ [c]"

fun skipString :: "string \<Rightarrow> sbuf \<Rightarrow> sbuf res" where
  "skipString [] s = Inr s"
| "skipString (c # cs) s =
     bind_res (sb_char s) (\<lambda>b.
       if c \<noteq> b \<or> sb_eof s then Inl (ParseError (expected_msg (c # cs) b))
       else bind_res (incPos 1 s) (skipString cs))"

section \<open>Integers\<close>

text \<open>
  \<open>strtol\<close> with base 10 on the characters from the read position on: an optional sign and the
  longest run of digits.  The result is the number and the length of the text converted, 0 when
  there are no digits.  It stops at the first other character; if there is none in the buffer it
  reads on behind it.
\<close>

fun scan_digits :: "string \<Rightarrow> nat res" where
  "scan_digits [] = Inl OutOfRange"
| "scan_digits (c # cs) = (if is_digit c then bind_res (scan_digits cs) (\<lambda>k. Inr (Suc k)) else Inr 0)"

definition sign_split :: "string \<Rightarrow> int \<times> string" where
  "sign_split cs =
     (case cs of c # ds \<Rightarrow>
        if c = CHR ''-'' then (- 1, ds) else if c = CHR ''+'' then (1, ds) else (1, cs)
      | [] \<Rightarrow> (1, cs))"

definition strtol :: "string \<Rightarrow> (int \<times> nat) res" where
  "strtol cs =
     (let (sgn, ds) = sign_split cs in
      bind_res (scan_digits ds) (\<lambda>k.
        Inr (if k = 0 then (0, 0)
             else (sgn * int (digits_val 0 (take k ds)), length cs - length ds + k))))"

text \<open>\<open>errno\<close> is \<open>ERANGE\<close> when the number does not fit \<open>long\<close>, and the result is its bound.\<close>

abbreviation LONG_MAX :: int where "LONG_MAX \<equiv> 9223372036854775807"
abbreviation LONG_MIN :: int where "LONG_MIN \<equiv> - 9223372036854775808"

definition clamp_long :: "int \<Rightarrow> int" where
  "clamp_long v = (if v > LONG_MAX then LONG_MAX else if v < LONG_MIN then LONG_MIN else v)"

definition range_msg :: "int \<Rightarrow> string" where
  "range_msg v =
     ''PARSE ERROR! Variable out of supported range (32 bits): '' @ show_int (clamp_long v)"

definition out_of_range :: "int \<Rightarrow> bool" where
  "out_of_range v \<longleftrightarrow> clamp_long v \<noteq> v \<or> \<bar>clamp_long v\<bar> \<ge> (2 ^ 32 - 1) div 2"

definition readInteger :: "sbuf \<Rightarrow> (int \<times> sbuf) res" where
  "readInteger s =
     bind_res (skipWhitespace s) (\<lambda>s.
       if sb_eof s then Inr (0, s)
       else bind_res (strtol (drop (sb_pos s) (sb_buf s))) (\<lambda>(number, len).
         if out_of_range number then Inl (ParseError (range_msg number))
         else if len > 0 then bind_res (incPos len s) (\<lambda>s. Inr (number, s))
         else bind_res (sb_char s) (\<lambda>c.
           Inl (ParseError (''PARSE ERROR! Unexpected character '' @ [c])))))"

section \<open>The contract\<close>

record 's stream_ops =
  so_eof :: "'s \<Rightarrow> bool"
  so_peek :: "'s \<Rightarrow> char res"
  so_next :: "'s \<Rightarrow> 's res"
  so_skipWhitespace :: "'s \<Rightarrow> 's res"
  so_skipLine :: "'s \<Rightarrow> 's res"
  so_skipString :: "string \<Rightarrow> 's \<Rightarrow> 's res"
  so_readInteger :: "'s \<Rightarrow> (int \<times> 's) res"

definition sb_ops :: "sbuf stream_ops" where
  "sb_ops =
     \<lparr>so_eof = sb_eof, so_peek = sb_peek, so_next = incPos 1, so_skipWhitespace = skipWhitespace,
      so_skipLine = skipLine, so_skipString = skipString, so_readInteger = readInteger\<rparr>"

text \<open>The same functions on the text that is left.\<close>

definition skip_space :: "string \<Rightarrow> string" where
  "skip_space cs = dropWhile is_space cs"

definition skip_line :: "string \<Rightarrow> string" where
  "skip_line cs = skip_space (dropWhile (\<lambda>c. \<not> is_space c \<or> is_blank c) cs)"

definition read_int :: "string \<Rightarrow> (int \<times> string) res" where
  "read_int cs =
     (let cs = skip_space cs in
      if cs = [] then Inr (0, [])
      else let (sgn, ds) = sign_split cs;
               digits = takeWhile is_digit ds;
               v = sgn * int (digits_val 0 digits)
           in if out_of_range v then Inl (ParseError (range_msg v))
              else if digits \<noteq> [] then Inr (v, dropWhile is_digit ds)
              else Inl (ParseError (''PARSE ERROR! Unexpected character '' @ [hd cs])))"

locale text_stream =
  fixes S :: "'s stream_ops"
    and inv :: "'s \<Rightarrow> bool"
    and content :: "'s \<Rightarrow> string"
  assumes eof_content: "inv s \<Longrightarrow> so_eof S s = (content s = [])"
    and peek_content: "inv s \<Longrightarrow> content s \<noteq> [] \<Longrightarrow> so_peek S s = Inr (hd (content s))"
    and next_content: "inv s \<Longrightarrow> content s \<noteq> [] \<Longrightarrow>
      \<exists>s'. so_next S s = Inr s' \<and> inv s' \<and> content s' = tl (content s)"
    and space_content: "inv s \<Longrightarrow>
      \<exists>s'. so_skipWhitespace S s = Inr s' \<and> inv s' \<and> content s' = skip_space (content s)"
    and line_content: "inv s \<Longrightarrow>
      \<exists>s'. so_skipLine S s = Inr s' \<and> inv s' \<and> content s' = skip_line (content s)"
    and int_content: "inv s \<Longrightarrow> read_int (content s) = Inr (x, cs) \<Longrightarrow>
      \<exists>s'. so_readInteger S s = Inr (x, s') \<and> inv s' \<and> content s' = cs"
    and int_error: "inv s \<Longrightarrow> read_int (content s) = Inl err \<Longrightarrow> so_readInteger S s = Inl err"
    and string_content: "inv s \<Longrightarrow> content s = str @ cs \<Longrightarrow>
      \<exists>s'. so_skipString S str s = Inr s' \<and> inv s' \<and> content s' = cs"

section \<open>The buffer keeps the contract\<close>

definition sb_content :: "sbuf \<Rightarrow> string" where
  "sb_content s =
     (if sb_eof_flag s then take (sb_end s - sb_pos s) (drop (sb_pos s) (sb_buf s))
      else drop (sb_pos s) (sb_buf s) @ sb_rest s)"

text \<open>Every stretch of \<open>n\<close> characters has white space, and so has the end of the text.\<close>

definition words_below :: "nat \<Rightarrow> string \<Rightarrow> bool" where
  "words_below n cs \<longleftrightarrow> (\<forall>i. i + n \<le> length cs \<longrightarrow> (\<exists>j < n. is_space (cs ! (i + j))))"

definition ends_blank :: "string \<Rightarrow> bool" where
  "ends_blank cs \<longleftrightarrow> (cs \<noteq> [] \<longrightarrow> is_space (last cs))"

definition sb_inv :: "sbuf \<Rightarrow> bool" where
  "sb_inv s \<longleftrightarrow>
     sb_pos s \<le> sb_end s \<and> sb_end s \<le> length (sb_buf s) \<and> 0 < length (sb_buf s)
     \<and> words_below (length (sb_buf s)) (sb_content s) \<and> ends_blank (sb_content s)
     \<and> (if sb_eof_flag s then sb_end s < length (sb_buf s) \<and> sb_rest s = []
        else sb_pos s < sb_end s \<and> is_space (sb_buf s ! (sb_end s - 1)))"

lemma words_below_drop: "words_below n cs \<Longrightarrow> words_below n (drop k cs)"
proof -
  assume w: "words_below n cs"
  show ?thesis
    unfolding words_below_def
  proof (intro allI impI)
    fix i assume i: "i + n \<le> length (drop k cs)"
    show "\<exists>j < n. is_space (drop k cs ! (i + j))"
    proof (cases "k \<le> length cs")
      case True
      with i have "(k + i) + n \<le> length cs" by simp
      then obtain j where "j < n" "is_space (cs ! (k + i + j))"
        using w unfolding words_below_def by blast
      with True show ?thesis by (intro exI [of _ j]) (simp add: add.assoc)
    next
      case False
      with i have n: "i = 0" "n = 0" by simp_all
      have "\<exists>j < n. is_space (cs ! (0 + j))" using spec [OF w [unfolded words_below_def], of 0] n by simp
      with n show ?thesis by simp
    qed
  qed
qed

lemma ends_blank_drop: "ends_blank cs \<Longrightarrow> ends_blank (drop k cs)"
  by (auto simp: ends_blank_def)

lemma sb_align_ok:
  assumes "\<exists>j < n. is_space (buf ! j)"
  shows "\<exists>e. sb_align buf n = Inr e \<and> 0 < e \<and> e \<le> n \<and> is_space (buf ! (e - 1))"
  using assms
proof (induction n)
  case (Suc n)
  show ?case
  proof (cases "is_space (buf ! n)")
    case True
    then show ?thesis by simp
  next
    case False
    with Suc obtain e where "sb_align buf n = Inr e \<and> 0 < e \<and> e \<le> n \<and> is_space (buf ! (e - 1))"
      by (metis less_Suc_eq)
    with False show ?thesis by auto
  qed
qed simp

text \<open>Refilling an exhausted buffer keeps the text that is left.\<close>

lemma refill_exhausted:
  assumes len: "0 < length (sb_buf s)" and e: "sb_end s \<le> length (sb_buf s)" "sb_pos s = sb_end s"
    and ne: "\<not> sb_eof_flag s"
    and left: "T = (if sb_end s = 0 then sb_rest s else drop (sb_end s) (sb_buf s) @ sb_rest s)"
    and w: "words_below (length (sb_buf s)) T" "ends_blank T"
  shows "\<exists>s'. check_refill_buffer s = Inr s' \<and> sb_inv s' \<and> sb_content s' = T
    \<and> length (sb_buf s') = length (sb_buf s)"
proof -
  define n where "n = length (sb_buf s)"
  define pre where "pre = (if 0 < sb_end s \<and> sb_end s < n then drop (sb_end s) (sb_buf s) else [])"
  define buf where "buf = (if 0 < sb_end s \<and> sb_end s < n
      then drop (sb_end s) (sb_buf s) @ drop (n - sb_end s) (sb_buf s) else sb_buf s)"
  define k where "k = length pre"
  have T: "T = pre @ sb_rest s" using left e len by (auto simp: pre_def n_def)
  have k: "k = (if 0 < sb_end s \<and> sb_end s < n then n - sb_end s else 0)" "k < n"
    using len by (auto simp: k_def pre_def n_def)
  have lb: "length buf = n" "take k buf = pre"
    using e by (auto simp: buf_def n_def k_def pre_def)
  define data where "data = take (n - k) (sb_rest s)"
  define buf' where "buf' = take k buf @ data @ drop (k + length data) buf"
  define e' where "e' = k + length data"
  have run: "check_refill_buffer s =
      (if e' < n then Inr (s\<lparr>sb_buf := buf', sb_pos := 0, sb_end := e', sb_eof_flag := True,
            sb_rest := drop (n - k) (sb_rest s)\<rparr>)
       else bind_res (sb_align buf' e') (\<lambda>e.
            Inr (s\<lparr>sb_buf := buf', sb_pos := 0, sb_end := e, sb_rest := drop (n - k) (sb_rest s)\<rparr>)))"
    using e ne k(1)
    by (simp add: check_refill_buffer_def Let_def buf_def buf'_def data_def e'_def flip: n_def)
  have ld: "length data = min (n - k) (length (sb_rest s))" by (simp add: data_def)
  have lb': "length buf' = n" using k(2) lb(1) ld by (simp add: buf'_def)
  have front: "take e' buf' = pre @ data"
    using lb by (simp add: buf'_def e'_def k_def)
  show ?thesis
  proof (cases "e' < n")
    case True
    then have rest: "sb_rest s = data" "drop (n - k) (sb_rest s) = []"
      using ld k(2) by (auto simp: e'_def data_def)
    let ?s = "s\<lparr>sb_buf := buf', sb_pos := 0, sb_end := e', sb_eof_flag := True,
        sb_rest := drop (n - k) (sb_rest s)\<rparr>"
    have c: "sb_content ?s = T" using front T rest by (simp add: sb_content_def)
    have "sb_inv ?s" using True lb' c w rest(2) len by (simp add: sb_inv_def n_def)
    with True run c lb' show ?thesis by (auto simp: n_def)
  next
    case False
    then have e'n: "e' = n" using ld k(2) by (auto simp: e'_def)
    then have b': "buf' = pre @ data" using front lb' by simp
    have split: "T = buf' @ drop (n - k) (sb_rest s)" using T b' by (simp add: data_def)
    then have "n \<le> length T" using lb' by simp
    then obtain j where "j < n" "is_space (T ! j)"
      using w(1) by (auto simp: words_below_def n_def dest: spec [of _ 0])
    then have "\<exists>j < n. is_space (buf' ! j)" using split lb' by (auto simp: nth_append)
    then obtain a where a: "sb_align buf' n = Inr a" "0 < a" "a \<le> n" "is_space (buf' ! (a - 1))"
      using sb_align_ok by blast
    let ?s = "s\<lparr>sb_buf := buf', sb_pos := 0, sb_end := a, sb_rest := drop (n - k) (sb_rest s)\<rparr>"
    have c: "sb_content ?s = T" using split ne by (simp add: sb_content_def)
    have "sb_inv ?s" using a lb' c w ne len by (simp add: sb_inv_def n_def)
    with a(1) e'n run c lb' show ?thesis by (auto simp: n_def)
  qed
qed

lemma sb_content_pos:
  assumes "sb_inv s"
  shows "sb_content s = [] \<longleftrightarrow> sb_eof s"
  using assms by (auto simp: sb_inv_def sb_content_def sb_eof_def)

text \<open>Moving the position inside the aligned part of the buffer.\<close>

lemma incPos_ok:
  assumes inv: "sb_inv s" and k: "sb_pos s + k \<le> sb_end s"
  shows "\<exists>s'. incPos k s = Inr s' \<and> sb_inv s' \<and> sb_content s' = drop k (sb_content s)
    \<and> length (sb_buf s') = length (sb_buf s)"
proof -
  let ?s = "s\<lparr>sb_pos := sb_pos s + k\<rparr>" and ?n = "length (sb_buf s)"
  have e: "sb_end s \<le> ?n" "0 < ?n" using inv by (auto simp: sb_inv_def)
  have c: "sb_content ?s = drop k (sb_content s)"
  proof (cases "sb_eof_flag s")
    case True
    then show ?thesis by (simp add: sb_content_def drop_take add.commute)
  next
    case False
    have "k \<le> length (drop (sb_pos s) (sb_buf s))" using k e by simp
    then show ?thesis using False by (simp add: sb_content_def add.commute)
  qed
  have w: "words_below ?n (drop k (sb_content s))" "ends_blank (drop k (sb_content s))"
    using inv words_below_drop ends_blank_drop by (auto simp: sb_inv_def)
  show ?thesis
  proof (cases "sb_pos s + k = sb_end s \<and> \<not> sb_eof_flag s")
    case True
    then have "0 < sb_end s" using inv by (auto simp: sb_inv_def)
    moreover have "sb_content ?s = drop (sb_end s) (sb_buf s) @ sb_rest s"
      using True by (simp add: sb_content_def)
    ultimately have "\<exists>s'. check_refill_buffer ?s = Inr s' \<and> sb_inv s' \<and> sb_content s' = drop k (sb_content s)
        \<and> length (sb_buf s') = length (sb_buf ?s)"
      using e True w c by (intro refill_exhausted) auto
    then show ?thesis by (simp add: incPos_def)
  next
    case False
    then have "check_refill_buffer ?s = Inr ?s" using k by (auto simp: check_refill_buffer_def)
    moreover have "sb_inv ?s"
      using inv k False w c by (auto simp: sb_inv_def)
    ultimately show ?thesis using c by (simp add: incPos_def)
  qed
qed

lemma sb_char_ok:
  assumes "sb_inv s" and "\<not> sb_eof s"
  shows "sb_char s = Inr (hd (sb_content s))" "sb_content s \<noteq> []" "sb_pos s < sb_end s"
proof -
  show lt: "sb_pos s < sb_end s" using assms by (auto simp: sb_inv_def sb_eof_def)
  then have len: "sb_pos s < length (sb_buf s)" using assms(1) by (auto simp: sb_inv_def)
  show "sb_content s \<noteq> []" using sb_content_pos [OF assms(1)] assms(2) by blast
  show "sb_char s = Inr (hd (sb_content s))"
    using lt len by (simp add: sb_char_def sb_content_def hd_drop_conv_nth hd_append)
qed

lemma sb_fuel_content: "length (sb_content s) \<le> sb_fuel s"
  by (auto simp: sb_content_def sb_fuel_def)

lemma skip_while_ok:
  assumes "sb_inv s" and "length (sb_content s) \<le> fuel"
  shows "\<exists>s'. skip_while P fuel s = Inr s' \<and> sb_inv s' \<and> sb_content s' = dropWhile P (sb_content s)
    \<and> length (sb_buf s') = length (sb_buf s)"
  using assms
proof (induction fuel arbitrary: s)
  case 0
  then have "sb_eof s" using sb_content_pos by simp
  with 0 show ?case by (simp add: skip_while.simps)
next
  case (Suc fuel)
  show ?case
  proof (cases "sb_eof s")
    case True
    with Suc.prems sb_content_pos [of s] show ?thesis by (simp add: skip_while.simps)
  next
    case False
    note ch = sb_char_ok [OF Suc.prems(1) False]
    obtain c cs where c: "sb_content s = c # cs" using ch(2) by (cases "sb_content s") auto
    show ?thesis
    proof (cases "P c")
      case False': False
      have "skip_while P (Suc fuel) s = Inr s"
        using False ch(1) c False' by (subst skip_while.simps) simp
      with c False' Suc.prems(1) show ?thesis by simp
    next
      case True
      obtain s1 where s1: "incPos 1 s = Inr s1" "sb_inv s1" "sb_content s1 = cs"
        "length (sb_buf s1) = length (sb_buf s)"
        using incPos_ok [OF Suc.prems(1), of 1] ch(3) c by auto
      have "skip_while P (Suc fuel) s = skip_while P fuel s1"
        using False ch(1) c True s1(1) by (subst skip_while.simps) simp
      with Suc.IH [OF s1(2)] s1 c True Suc.prems(2) show ?thesis by auto
    qed
  qed
qed

lemma skipWhitespace_ok:
  assumes "sb_inv s"
  shows "\<exists>s'. skipWhitespace s = Inr s' \<and> sb_inv s' \<and> sb_content s' = skip_space (sb_content s)"
  using skip_while_ok [OF assms sb_fuel_content] by (auto simp: skipWhitespace_def skip_space_def)

lemma skipLine_ok:
  assumes "sb_inv s"
  shows "\<exists>s'. skipLine s = Inr s' \<and> sb_inv s' \<and> sb_content s' = skip_line (sb_content s)"
proof -
  obtain s1 where s1: "skip_while (\<lambda>c. \<not> is_space c \<or> is_blank c) (sb_fuel s) s = Inr s1" "sb_inv s1"
    "sb_content s1 = dropWhile (\<lambda>c. \<not> is_space c \<or> is_blank c) (sb_content s)"
    using skip_while_ok [OF assms sb_fuel_content, of "\<lambda>c. \<not> is_space c \<or> is_blank c"] by blast
  with skipWhitespace_ok [OF s1(2)] show ?thesis by (auto simp: skipLine_def skip_line_def)
qed

lemma skipString_ok:
  assumes "sb_inv s" and "sb_content s = str @ cs"
  shows "\<exists>s'. skipString str s = Inr s' \<and> sb_inv s' \<and> sb_content s' = cs"
  using assms
proof (induction str arbitrary: s)
  case (Cons c str)
  then have ne: "\<not> sb_eof s" using sb_content_pos [of s] by simp
  note ch = sb_char_ok [OF Cons.prems(1) ne]
  obtain s1 where s1: "incPos 1 s = Inr s1" "sb_inv s1" "sb_content s1 = str @ cs"
    using incPos_ok [OF Cons.prems(1), of 1] ch(3) Cons.prems(2) by auto
  have "skipString (c # str) s = skipString str s1"
    using ch(1) ne s1(1) Cons.prems(2) by simp
  with Cons.IH [OF s1(2,3)] show ?case by simp
qed simp

text \<open>
  \<open>strtol\<close> reads the buffer, not the text; white space before the end of the aligned part keeps
  the two the same.
\<close>

lemma scan_digits_prefix:
  assumes "\<exists>c \<in> set xs. \<not> is_digit c"
  shows "scan_digits (xs @ ys) = Inr (length (takeWhile is_digit xs))"
  using assms by (induction xs) auto

lemma takeWhile_append_stop: "\<exists>c \<in> set xs. \<not> P c \<Longrightarrow> takeWhile P (xs @ ys) = takeWhile P xs"
  by (induction xs) auto

lemma dropWhile_append_stop: "\<exists>c \<in> set xs. \<not> P c \<Longrightarrow> dropWhile P (xs @ ys) = dropWhile P xs @ ys"
  by (induction xs) auto

lemma space_not_sign: "is_space c \<Longrightarrow> c \<noteq> CHR ''-''" "is_space c \<Longrightarrow> c \<noteq> CHR ''+''"
  by (auto simp: is_space_def)

lemma sign_split_append:
  assumes "xs \<noteq> []"
  shows "sign_split (xs @ ys) = (fst (sign_split xs), snd (sign_split xs) @ ys)"
  using assms by (cases xs) (auto simp: sign_split_def)

lemma sign_split_length: "length (snd (sign_split cs)) \<le> length cs"
  "length cs \<le> length (snd (sign_split cs)) + 1"
  by (auto simp: sign_split_def split: list.splits)

lemma sign_split_drop: "snd (sign_split cs) = drop (length cs - length (snd (sign_split cs))) cs"
  by (auto simp: sign_split_def split: list.splits)

lemma sign_split_space:
  assumes "\<exists>c \<in> set xs. is_space c"
  shows "\<exists>c \<in> set (snd (sign_split xs)). is_space c"
  using assms space_not_sign by (auto simp: sign_split_def split: list.splits)

lemma strtol_prefix:
  assumes sp: "\<exists>c \<in> set xs. is_space c"
  defines "ds \<equiv> snd (sign_split xs)"
  defines "k \<equiv> length (takeWhile is_digit ds)"
  shows "strtol (xs @ ys) = Inr (if k = 0 then (0, 0)
      else (fst (sign_split xs) * int (digits_val 0 (takeWhile is_digit ds)), length xs - length ds + k))"
proof -
  have ne: "xs \<noteq> []" using sp by auto
  have "\<exists>c \<in> set ds. is_space c" using sign_split_space [OF sp] by (simp add: ds_def)
  then have nd: "\<exists>c \<in> set ds. \<not> is_digit c" using digit_not_space by blast
  have "scan_digits (ds @ ys) = Inr k" using scan_digits_prefix [OF nd] by (simp add: k_def)
  moreover have "take k (ds @ ys) = takeWhile is_digit ds"
    by (simp add: k_def takeWhile_eq_take [symmetric] length_takeWhile_le)
  moreover have "length (xs @ ys) - length (ds @ ys) = length xs - length ds" by simp
  ultimately show ?thesis
    using sign_split_append [OF ne, of ys] by (simp add: strtol_def ds_def)
qed

lemma drop_sign_digits:
  "drop (length cs - length (snd (sign_split cs)) + length (takeWhile is_digit (snd (sign_split cs)))) cs
    = dropWhile is_digit (snd (sign_split cs))"
proof -
  let ?ds = "snd (sign_split cs)"
  have "dropWhile is_digit ?ds = drop (length (takeWhile is_digit ?ds)) ?ds" by (rule dropWhile_eq_drop)
  also have "\<dots> = drop (length (takeWhile is_digit ?ds)) (drop (length cs - length ?ds) cs)"
    using sign_split_drop [of cs] by simp
  finally show ?thesis by (simp add: add.commute)
qed

text \<open>The aligned part of the buffer, up to \<open>end\<close>, is a prefix of the text with white space.\<close>

lemma aligned_part:
  assumes inv: "sb_inv s" and ne: "\<not> sb_eof s"
  obtains xs ys zs where "drop (sb_pos s) (sb_buf s) = xs @ ys" "sb_content s = xs @ zs"
    "length xs = sb_end s - sb_pos s" "\<exists>c \<in> set xs. is_space c"
proof -
  let ?xs = "take (sb_end s - sb_pos s) (drop (sb_pos s) (sb_buf s))"
  let ?ys = "drop (sb_end s - sb_pos s) (drop (sb_pos s) (sb_buf s))"
  have lt: "sb_pos s < sb_end s" "sb_end s \<le> length (sb_buf s)"
    using inv ne by (auto simp: sb_inv_def sb_eof_def)
  have len: "length ?xs = sb_end s - sb_pos s" using lt by simp
  have split: "drop (sb_pos s) (sb_buf s) = ?xs @ ?ys" by (rule append_take_drop_id [symmetric])
  show ?thesis
  proof (cases "sb_eof_flag s")
    case True
    then have c: "sb_content s = ?xs" by (simp add: sb_content_def)
    have "is_space (last ?xs)" "?xs \<noteq> []"
      using inv c sb_content_pos [OF inv] ne by (auto simp: sb_inv_def ends_blank_def)
    then have "\<exists>c \<in> set ?xs. is_space c" by (meson last_in_set)
    with that [of ?xs ?ys "[]"] split c len show ?thesis by simp
  next
    case False
    then have "is_space (sb_buf s ! (sb_end s - 1))" using inv by (simp add: sb_inv_def)
    moreover have "sb_buf s ! (sb_end s - 1) \<in> set ?xs"
      using lt by (auto simp: in_set_conv_nth intro!: exI [of _ "sb_end s - 1 - sb_pos s"])
    ultimately have "\<exists>c \<in> set ?xs. is_space c" by blast
    with that [of ?xs ?ys "?ys @ sb_rest s"] split len False show ?thesis
      by (simp add: sb_content_def)
  qed
qed

lemma readInteger_eq:
  assumes inv: "sb_inv s"
  shows "case read_int (sb_content s) of
      Inl err \<Rightarrow> readInteger s = Inl err
    | Inr (x, cs) \<Rightarrow> \<exists>s'. readInteger s = Inr (x, s') \<and> sb_inv s' \<and> sb_content s' = cs"
proof -
  obtain s1 where s1: "skipWhitespace s = Inr s1" "sb_inv s1" "sb_content s1 = skip_space (sb_content s)"
    using skipWhitespace_ok [OF inv] by blast
  show ?thesis
  proof (cases "sb_eof s1")
    case True
    then have "skip_space (sb_content s) = []" using sb_content_pos [OF s1(2)] s1(3) by simp
    with True s1 show ?thesis by (simp add: readInteger_def read_int_def)
  next
    case False
    obtain xs ys zs where sp: "drop (sb_pos s1) (sb_buf s1) = xs @ ys" "sb_content s1 = xs @ zs"
      "length xs = sb_end s1 - sb_pos s1" "\<exists>c \<in> set xs. is_space c"
      using aligned_part [OF s1(2) False] by blast
    define ds where "ds = snd (sign_split xs)"
    define dg where "dg = takeWhile is_digit ds"
    define v where "v = fst (sign_split xs) * int (digits_val 0 dg)"
    define len where "len = length xs - length ds + length dg"
    have ne: "xs \<noteq> []" using sp(4) by auto
    have "\<exists>c \<in> set ds. is_space c" using sign_split_space [OF sp(4)] by (simp add: ds_def)
    then have nd: "\<exists>c \<in> set ds. \<not> is_digit c" using digit_not_space by blast
    have st: "strtol (drop (sb_pos s1) (sb_buf s1)) = Inr (if dg = [] then (0, 0) else (v, len))"
      using strtol_prefix [OF sp(4), of ys] sp(1) by (simp add: ds_def dg_def v_def len_def)
    have split: "sign_split (sb_content s1) = (fst (sign_split xs), ds @ zs)"
      using sign_split_append [OF ne, of zs] sp(2) by (simp add: ds_def)
    have tw: "takeWhile is_digit (ds @ zs) = dg" using takeWhile_append_stop [OF nd] by (simp add: dg_def)
    have ri: "read_int (sb_content s) =
        (if out_of_range v then Inl (ParseError (range_msg v))
         else if dg \<noteq> [] then Inr (v, dropWhile is_digit (ds @ zs))
         else Inl (ParseError (''PARSE ERROR! Unexpected character '' @ [hd (sb_content s1)])))"
    proof -
      have "sb_content s1 \<noteq> []" using sb_content_pos [OF s1(2)] False by simp
      then show ?thesis using split tw s1(3) by (simp add: read_int_def v_def)
    qed
    have rd: "readInteger s =
        (if out_of_range (if dg = [] then 0 else v)
         then Inl (ParseError (range_msg (if dg = [] then 0 else v)))
         else if dg \<noteq> [] \<and> 0 < len then bind_res (incPos len s1) (\<lambda>s. Inr (v, s))
         else bind_res (sb_char s1) (\<lambda>c.
           Inl (ParseError (''PARSE ERROR! Unexpected character '' @ [c]))))"
      using s1(1) False st by (simp add: readInteger_def)
    have v0: "dg = [] \<Longrightarrow> v = 0" by (simp add: v_def)
    have len0: "dg \<noteq> [] \<Longrightarrow> 0 < len" by (simp add: len_def)
    have consumed: "drop len (xs @ zs) = dropWhile is_digit (ds @ zs)"
      using drop_sign_digits [of "xs @ zs"] split sp(2) tw by (simp add: len_def)
    have "length dg < length ds"
      using nd by (metis dg_def length_takeWhile_le nat_less_le takeWhile_eq_all_conv takeWhile_eq_take
          take_all_iff)
    then have "len \<le> length xs"
      using sign_split_length(1) [of xs] by (simp add: len_def ds_def)
    then have pos: "sb_pos s1 + len \<le> sb_end s1" using sp(3) s1(2) unfolding sb_inv_def by linarith
    show ?thesis
    proof (cases "out_of_range v \<or> dg = []")
      case True
      then show ?thesis
        using ri rd v0 len0 sb_char_ok [OF s1(2) False] by auto
    next
      case False
      obtain s2 where "incPos len s1 = Inr s2" "sb_inv s2" "sb_content s2 = drop len (sb_content s1)"
        using incPos_ok [OF s1(2) pos] by blast
      with False ri rd len0 consumed sp(2) show ?thesis by simp
    qed
  qed
qed

interpretation sb: text_stream sb_ops sb_inv sb_content
proof unfold_locales
  fix s assume inv: "sb_inv s"
  show "so_eof sb_ops s = (sb_content s = [])" using sb_content_pos [OF inv] by (simp add: sb_ops_def)
  show "\<exists>s'. so_skipWhitespace sb_ops s = Inr s' \<and> sb_inv s' \<and> sb_content s' = skip_space (sb_content s)"
    using skipWhitespace_ok [OF inv] by (simp add: sb_ops_def)
  show "\<exists>s'. so_skipLine sb_ops s = Inr s' \<and> sb_inv s' \<and> sb_content s' = skip_line (sb_content s)"
    using skipLine_ok [OF inv] by (simp add: sb_ops_def)
  show "\<exists>s'. so_readInteger sb_ops s = Inr (x, s') \<and> sb_inv s' \<and> sb_content s' = cs"
    if "read_int (sb_content s) = Inr (x, cs)" for x cs
    using readInteger_eq [OF inv] that by (simp add: sb_ops_def)
  show "so_readInteger sb_ops s = Inl err" if "read_int (sb_content s) = Inl err" for err
    using readInteger_eq [OF inv] that by (simp add: sb_ops_def)
  show "\<exists>s'. so_skipString sb_ops str s = Inr s' \<and> sb_inv s' \<and> sb_content s' = cs"
    if "sb_content s = str @ cs" for str cs
    using skipString_ok [OF inv that] by (simp add: sb_ops_def)
  assume ne: "sb_content s \<noteq> []"
  then have "\<not> sb_eof s" using sb_content_pos [OF inv] by simp
  note ch = sb_char_ok [OF inv this]
  show "so_peek sb_ops s = Inr (hd (sb_content s))"
    using ch(1) \<open>\<not> sb_eof s\<close> by (simp add: sb_ops_def sb_peek_def)
  show "\<exists>s'. so_next sb_ops s = Inr s' \<and> sb_inv s' \<and> sb_content s' = tl (sb_content s)"
    using incPos_ok [OF inv, of 1] ch(3) by (auto simp: sb_ops_def drop_Suc)
qed

lemma sb_open_ok:
  assumes "words_below (length junk) file" and "ends_blank file" and "junk \<noteq> []"
  shows "\<exists>s. sb_open junk file = Inr s \<and> sb_inv s \<and> sb_content s = file"
proof -
  let ?s = "\<lparr>sb_buf = junk, sb_pos = 0, sb_end = 0, sb_eof_flag = False, sb_rest = file\<rparr>"
  have "\<exists>s'. check_refill_buffer ?s = Inr s' \<and> sb_inv s' \<and> sb_content s' = file
      \<and> length (sb_buf s') = length (sb_buf ?s)"
    using assms by (intro refill_exhausted) auto
  then show ?thesis by (auto simp: sb_open_def)
qed

end
