(* ===== verification/Dimacs_Reader.thy ===== *)
theory Dimacs_Reader
  imports Cnf_Formula Stream_Buffer
begin

text \<open>
  The readers of DIMACS text: \<open>CNFFormula::readDimacsFromFile\<close> (\<open>cnftools/src/util/CNFFormula.h\<close>)
  and the loop it shares with \<open>gbd_hash_from_dimacs\<close> (\<open>util/GBDHash.h\<close>).  They are written over
  the operations of a stream and proved inside its contract: what they deliver is
  \<open>clauses_of\<close> of the text, and a formula printed in DIMACS is read back.
\<close>

section \<open>The loops\<close>

text \<open>\<open>for (int plit = in.readInteger (); plit != 0; plit = in.readInteger ())\<close>\<close>

fun read_ints :: "'s stream_ops \<Rightarrow> nat \<Rightarrow> 's \<Rightarrow> (int list \<times> 's) res" where
  "read_ints S fuel s =
     bind_res (so_readInteger S s) (\<lambda>(plit, s).
       if plit = 0 then Inr ([], s)
       else case fuel of
         0 \<Rightarrow> Inl OutOfFuel
       | Suc fuel \<Rightarrow> bind_res (read_ints S fuel s) (\<lambda>(xs, s). Inr (plit # xs, s)))"

declare read_ints.simps [simp del]

text \<open>The loop of both readers; \<open>act\<close> is what they do with a clause.\<close>

fun dimacs_loop :: "'s stream_ops \<Rightarrow> (int list \<Rightarrow> 'a \<Rightarrow> 'a) \<Rightarrow> nat \<Rightarrow> 's \<Rightarrow> 'a \<Rightarrow> 'a res" where
  "dimacs_loop S act fuel s a =
     (if so_eof S s then Inr a
      else bind_res (so_skipWhitespace S s) (\<lambda>s.
        if so_eof S s then Inr a
        else bind_res (so_peek S s) (\<lambda>c.
          case fuel of
            0 \<Rightarrow> Inl OutOfFuel
          | Suc k \<Rightarrow>
              (if c = CHR ''p'' \<or> c = CHR ''c''
               then bind_res (so_skipLine S s) (\<lambda>s. dimacs_loop S act k s a)
               else bind_res (read_ints S fuel s) (\<lambda>(xs, s). dimacs_loop S act k s (act xs a))))))"

declare dimacs_loop.simps [simp del]

definition in_lit :: "int \<Rightarrow> lit" where
  "in_lit x = mk_lit (nat \<bar>x\<bar>) (x < 0)"

definition readDimacsFromFile :: "'s stream_ops \<Rightarrow> nat \<Rightarrow> 's \<Rightarrow> cnf \<Rightarrow> cnf res" where
  "readDimacsFromFile S fuel s f = dimacs_loop S (\<lambda>xs. readClause (map in_lit xs)) fuel s f"

definition read_file :: "string \<Rightarrow> string \<Rightarrow> cnf res" where
  "read_file junk file =
     bind_res (sb_open junk file) (\<lambda>s. readDimacsFromFile sb_ops (length file + 1) s cnf_empty)"

section \<open>The clauses of a text\<close>

lemma skip_space_le: "length (skip_space cs) \<le> length cs"
  by (simp add: skip_space_def length_dropWhile_le)

lemma skip_line_le: "length (skip_line cs) \<le> length cs"
  unfolding skip_line_def by (rule order.trans [OF skip_space_le]) (rule length_dropWhile_le)

lemma skip_space_Nil [simp]: "skip_space [] = []"
  by (simp add: skip_space_def)

lemma skip_space_idem [simp]: "skip_space (skip_space cs) = skip_space cs"
  by (simp add: skip_space_def)

lemma skip_space_hd: "skip_space cs \<noteq> [] \<Longrightarrow> \<not> is_space (hd (skip_space cs))"
  unfolding skip_space_def by (rule hd_dropWhile)

lemma skip_line_shorter:
  assumes "cs \<noteq> []" and "\<not> is_space (hd cs)"
  shows "length (skip_line cs) < length cs"
proof -
  obtain c ds where cs: "cs = c # ds" using assms(1) by (cases cs) auto
  have "length (skip_line cs) \<le> length (dropWhile (\<lambda>c. \<not> is_space c \<or> is_blank c) cs)"
    unfolding skip_line_def by (rule skip_space_le)
  also have "\<dots> \<le> length ds" using cs assms(2) by (simp add: length_dropWhile_le)
  finally show ?thesis using cs by simp
qed

lemma read_int_shorter:
  assumes "read_int cs = Inr (x, ds)" and "skip_space cs \<noteq> []"
  shows "length ds < length cs"
proof -
  obtain sgn es where s: "sign_split (skip_space cs) = (sgn, es)" by (cases "sign_split (skip_space cs)")
  have le: "length es \<le> length (skip_space cs)" using sign_split_length(1) [of "skip_space cs"] s by simp
  have d: "takeWhile is_digit es \<noteq> []" "ds = dropWhile is_digit es"
    using assms s by (auto simp: read_int_def Let_def split: if_splits)
  then have "length ds < length es"
    by (metis add_less_cancel_right add_0 length_append length_greater_0_conv takeWhile_dropWhile_id)
  with le skip_space_le [of cs] show ?thesis by linarith
qed

lemma read_int_nonzero: "read_int cs = Inr (x, ds) \<Longrightarrow> x \<noteq> 0 \<Longrightarrow> skip_space cs \<noteq> []"
  by (auto simp: read_int_def)

function ints_of :: "string \<Rightarrow> (int list \<times> string) res" where
  "ints_of cs =
     (case read_int cs of
        Inl e \<Rightarrow> Inl e
      | Inr (x, ds) \<Rightarrow>
          if x = 0 then Inr ([], ds)
          else bind_res (ints_of ds) (\<lambda>(xs, es). Inr (x # xs, es)))"
  by pat_completeness auto
termination
  by (relation "measure length") (auto simp: read_int_shorter read_int_nonzero)

declare ints_of.simps [simp del]

lemma ints_of_le: "ints_of cs = Inr (xs, ds) \<Longrightarrow> length ds \<le> length cs"
proof (induction cs arbitrary: xs ds rule: ints_of.induct)
  case (1 cs)
  obtain x es where r: "read_int cs = Inr (x, es)"
    using "1.prems" by (subst (asm) ints_of.simps) (auto split: sum.splits)
  have le: "length es \<le> length cs"
  proof (cases "skip_space cs = []")
    case True
    with r show ?thesis by (auto simp: read_int_def)
  next
    case False
    with read_int_shorter [OF r] show ?thesis by simp
  qed
  show ?case
  proof (cases "x = 0")
    case True
    with "1.prems" r le show ?thesis by (subst (asm) ints_of.simps) auto
  next
    case False
    obtain ys where "ints_of es = Inr (ys, ds)"
      using "1.prems" r False by (subst (asm) ints_of.simps) (auto simp: bind_res_eq_Inr)
    with "1.IH" [OF r refl False] le show ?thesis by fastforce
  qed
qed

lemma ints_of_shorter:
  assumes "ints_of cs = Inr (xs, ds)" and "skip_space cs \<noteq> []"
  shows "length ds < length cs"
proof -
  obtain x es where r: "read_int cs = Inr (x, es)"
    using assms(1) by (subst (asm) ints_of.simps) (auto split: sum.splits)
  have lt: "length es < length cs" using read_int_shorter [OF r assms(2)] .
  show ?thesis
  proof (cases "x = 0")
    case True
    with assms(1) r lt show ?thesis by (subst (asm) ints_of.simps) auto
  next
    case False
    obtain ys where "ints_of es = Inr (ys, ds)"
      using assms(1) r False by (subst (asm) ints_of.simps) (auto simp: bind_res_eq_Inr)
    with ints_of_le lt show ?thesis by (meson le_less_trans)
  qed
qed

text \<open>The clauses of a DIMACS text, or the first error.\<close>

function clauses_of :: "string \<Rightarrow> int list list res" where
  "clauses_of cs =
     (let ds = skip_space cs in
      if ds = [] then Inr []
      else if hd ds = CHR ''p'' \<or> hd ds = CHR ''c'' then clauses_of (skip_line ds)
      else case ints_of ds of
          Inl e \<Rightarrow> Inl e
        | Inr (xs, es) \<Rightarrow> bind_res (clauses_of es) (\<lambda>r. Inr (xs # r)))"
  by pat_completeness auto
termination
proof (relation "measure length", goal_cases)
  case (2 cs ds)
  have "length (skip_line ds) < length ds" by (rule skip_line_shorter) (use 2 skip_space_hd in auto)
  with 2 skip_space_le [of cs] show ?case by simp
next
  case (3 cs ds p xs es)
  have "length es < length ds" by (rule ints_of_shorter [of _ xs]) (use 3 in auto)
  with 3 skip_space_le [of cs] show ?case by simp
qed simp

declare clauses_of.simps [simp del]

section \<open>The loops on any stream\<close>

context text_stream
begin

lemma read_ints_ok:
  assumes "inv s" and "length (content s) < fuel"
  shows "case ints_of (content s) of
      Inl e \<Rightarrow> read_ints S fuel s = Inl e
    | Inr (xs, cs) \<Rightarrow> \<exists>s'. read_ints S fuel s = Inr (xs, s') \<and> inv s' \<and> content s' = cs"
  using assms
proof (induction fuel arbitrary: s)
  case (Suc fuel)
  show ?case
  proof (cases "read_int (content s)")
    case (Inl e)
    then have "so_readInteger S s = Inl e" using int_error Suc.prems(1) by blast
    with Inl show ?thesis by (simp add: ints_of.simps [of "content s"] read_ints.simps [of S "Suc fuel"])
  next
    case (Inr p)
    then obtain x cs where r: "read_int (content s) = Inr (x, cs)" by (cases p) auto
    obtain s1 where s1: "so_readInteger S s = Inr (x, s1)" "inv s1" "content s1 = cs"
      using int_content [OF Suc.prems(1) r] by blast
    show ?thesis
    proof (cases "x = 0")
      case True
      with r s1 show ?thesis
        by (simp add: ints_of.simps [of "content s"] read_ints.simps [of S "Suc fuel"])
    next
      case False
      have "length cs < length (content s)"
        using read_int_shorter [OF r read_int_nonzero [OF r False]] .
      then have "length (content s1) < fuel" using s1(3) Suc.prems(2) by simp
      note IH = Suc.IH [OF s1(2) this]
      have i: "ints_of (content s) = bind_res (ints_of cs) (\<lambda>(xs, es). Inr (x # xs, es))"
        using r False by (simp add: ints_of.simps [of "content s"])
      have l: "read_ints S (Suc fuel) s = bind_res (read_ints S fuel s1) (\<lambda>(xs, s). Inr (x # xs, s))"
        using s1(1) False by (simp add: read_ints.simps [of S "Suc fuel"])
      show ?thesis
        using IH s1(3) unfolding i l by (cases "ints_of cs") auto
    qed
  qed
qed simp

lemma dimacs_loop_ok:
  assumes "inv s" and "length (content s) < fuel"
  shows "dimacs_loop S act fuel s a
    = bind_res (clauses_of (content s)) (\<lambda>cls. Inr (fold act cls a))"
  using assms
proof (induction fuel arbitrary: s a)
  case (Suc fuel)
  obtain s1 where s1: "so_skipWhitespace S s = Inr s1" "inv s1" "content s1 = skip_space (content s)"
    using space_content [OF Suc.prems(1)] by blast
  show ?case
  proof (cases "skip_space (content s) = []")
    case True
    then have "clauses_of (content s) = Inr []" by (simp add: clauses_of.simps)
    moreover have "so_eof S s1" using eof_content [OF s1(2)] s1(3) True by simp
    ultimately show ?thesis
      using s1(1) by (simp add: dimacs_loop.simps [of S act "Suc fuel"])
  next
    case False
    then have ne: "\<not> so_eof S s" "\<not> so_eof S s1"
      using eof_content [OF Suc.prems(1)] eof_content [OF s1(2)] s1(3) by auto
    have pk: "so_peek S s1 = Inr (hd (content s1))"
      using peek_content [OF s1(2)] s1(3) False by simp
    have step: "dimacs_loop S act (Suc fuel) s a =
        (if hd (content s1) = CHR ''p'' \<or> hd (content s1) = CHR ''c''
         then bind_res (so_skipLine S s1) (\<lambda>s. dimacs_loop S act fuel s a)
         else bind_res (read_ints S (Suc fuel) s1) (\<lambda>(xs, s). dimacs_loop S act fuel s (act xs a)))"
      using s1(1) ne pk by (subst dimacs_loop.simps) simp
    have cl: "clauses_of (content s) =
        (if hd (content s1) = CHR ''p'' \<or> hd (content s1) = CHR ''c'' then clauses_of (skip_line (content s1))
         else case ints_of (content s1) of
            Inl e \<Rightarrow> Inl e
          | Inr (xs, es) \<Rightarrow> bind_res (clauses_of es) (\<lambda>r. Inr (xs # r)))"
      using False s1(3) by (subst clauses_of.simps) (simp add: Let_def)
    have hd: "content s1 \<noteq> []" "\<not> is_space (hd (content s1))"
      using False s1(3) skip_space_hd by auto
    have l1: "length (content s1) \<le> fuel"
      using skip_space_le [of "content s"] Suc.prems(2) s1(3) by simp
    show ?thesis
    proof (cases "hd (content s1) = CHR ''p'' \<or> hd (content s1) = CHR ''c''")
      case True
      obtain s2 where s2: "so_skipLine S s1 = Inr s2" "inv s2" "content s2 = skip_line (content s1)"
        using line_content [OF s1(2)] by blast
      have "length (content s2) < fuel"
        using skip_line_shorter [OF hd] l1 s2(3) by simp
      with Suc.IH [OF s2(2)] True step cl s2(1,3) show ?thesis by simp
    next
      case no: False
      have "length (content s1) < Suc fuel" using l1 by simp
      note R = read_ints_ok [OF s1(2) this]
      show ?thesis
      proof (cases "ints_of (content s1)")
        case (Inl e)
        with R no step cl show ?thesis by simp
      next
        case (Inr p)
        then obtain xs cs where i: "ints_of (content s1) = Inr (xs, cs)" by (cases p) auto
        with R obtain s2 where s2: "read_ints S (Suc fuel) s1 = Inr (xs, s2)" "inv s2" "content s2 = cs"
          by auto
        have "skip_space (content s1) \<noteq> []" using s1(3) False by simp
        then have "length (content s2) < fuel" using ints_of_shorter [OF i] l1 s2(3) by simp
        note IH = Suc.IH [OF s2(2) this, of "act xs a"]
        have "dimacs_loop S act (Suc fuel) s a = dimacs_loop S act fuel s2 (act xs a)"
          using no step s2(1) by simp
        moreover have "clauses_of (content s) = bind_res (clauses_of cs) (\<lambda>r. Inr (xs # r))"
          using no cl i by simp
        ultimately show ?thesis using IH s2(3) by (cases "clauses_of cs") simp_all
      qed
    qed
  qed
qed simp

end

section \<open>Reading a file\<close>

lemma fold_readClause: "fold (\<lambda>xs. readClause (map in_lit xs)) cls f = readClauses (map (map in_lit) cls) f"
  by (simp add: readClauses_def fold_map comp_def)

lemma read_file_eq:
  assumes "words_below (length junk) file" and "ends_blank file" and "junk \<noteq> []"
  shows "read_file junk file
    = bind_res (clauses_of file) (\<lambda>cls. Inr (cnf_of (map (map in_lit) cls)))"
proof -
  obtain s where s: "sb_open junk file = Inr s" "sb_inv s" "sb_content s = file"
    using sb_open_ok [OF assms] by blast
  then show ?thesis
    using sb.dimacs_loop_ok [OF s(2), of "length file + 1" "\<lambda>xs. readClause (map in_lit xs)" cnf_empty]
    by (simp add: read_file_def readDimacsFromFile_def fold_readClause cnf_of_def)
qed

section \<open>Printed formulas\<close>

definition clause_line :: "int list \<Rightarrow> string" where
  "clause_line c = concat (map (\<lambda>x. show_int x @ '' '') c) @ ''0'' @ [newline]"

definition header_line :: "int \<Rightarrow> int \<Rightarrow> string" where
  "header_line nv nc = ''p cnf '' @ show_int nv @ '' '' @ show_int nc @ [newline]"

definition dimacs_text :: "int \<Rightarrow> int list list \<Rightarrow> string" where
  "dimacs_text nv cls = header_line nv (int (length cls)) @ concat (map clause_line cls)"

definition small_lit :: "int \<Rightarrow> bool" where
  "small_lit x \<longleftrightarrow> x \<noteq> 0 \<and> \<bar>x\<bar> < INT_MAX"

lemma not_space_digit_sign: "c \<in> set (show_int x) \<Longrightarrow> \<not> is_space c"
  using show_nat_digits digit_not_space
  by (auto simp: show_int_def is_space_def split: if_splits)

lemma is_digit_space [simp]: "\<not> is_digit (CHR '' '')" "\<not> is_digit newline"
  by (simp_all add: is_digit_def)

definition number_end :: "string \<Rightarrow> bool" where
  "number_end cs \<longleftrightarrow> cs = [] \<or> \<not> is_digit (hd cs)"

lemma number_end_simps [simp]: "number_end (CHR '' '' # cs)" "number_end (newline # cs)"
  by (simp_all add: number_end_def)

lemma show_nat_takeWhile:
  assumes "number_end cs"
  shows "takeWhile is_digit (show_nat n @ cs) = show_nat n"
    and "dropWhile is_digit (show_nat n @ cs) = cs"
  using assms
  by (cases cs; simp add: takeWhile_append2 dropWhile_append2 show_nat_digits number_end_def)+

lemma show_nat_hd: "is_digit (hd (show_nat n))" "hd (show_nat n) \<noteq> CHR ''-''" "hd (show_nat n) \<noteq> CHR ''+''"
proof -
  have "hd (show_nat n) \<in> set (show_nat n)" by simp
  then show d: "is_digit (hd (show_nat n))" by (rule show_nat_digits)
  then show "hd (show_nat n) \<noteq> CHR ''-''" "hd (show_nat n) \<noteq> CHR ''+''"
    by (auto simp: is_digit_def)
qed

lemma show_int_hd_not_space: "\<not> is_space (hd (show_int x))" "show_int x \<noteq> []"
proof -
  show ne: "show_int x \<noteq> []" by (simp add: show_int_def)
  then have "hd (show_int x) \<in> set (show_int x)" by (rule hd_in_set)
  then show "\<not> is_space (hd (show_int x))" by (rule not_space_digit_sign)
qed

lemma sign_split_show_int:
  "sign_split (show_int x @ cs)
    = (if x < 0 then (- 1, show_nat (nat (- x)) @ cs) else (1, show_nat (nat x) @ cs))"
proof (cases "x < 0")
  case False
  obtain d ds where "show_nat (nat x) = d # ds" by (cases "show_nat (nat x)") auto
  with False show_nat_hd [of "nat x"] show ?thesis by (simp add: show_int_def sign_split_def)
qed (simp add: show_int_def sign_split_def)

lemma out_of_range_small: "\<bar>x\<bar> < INT_MAX \<Longrightarrow> \<not> out_of_range x"
  by (auto simp: out_of_range_def clamp_long_def)

lemma skip_space_nonspace: "cs \<noteq> [] \<Longrightarrow> \<not> is_space (hd cs) \<Longrightarrow> skip_space cs = cs"
  by (cases cs) (auto simp: skip_space_def)

lemma is_space_simps [simp]: "is_space (CHR '' '')" "is_space newline"
  by (simp_all add: is_space_def)

lemma skip_space_Cons [simp]: "is_space c \<Longrightarrow> skip_space (c # cs) = skip_space cs"
  by (simp add: skip_space_def)

lemma read_int_space [simp]: "is_space c \<Longrightarrow> read_int (c # cs) = read_int cs"
  by (simp add: read_int_def)

lemma read_int_show:
  assumes "\<bar>x\<bar> < INT_MAX" and e: "number_end cs"
  shows "read_int (show_int x @ cs) = Inr (x, cs)"
proof -
  let ?t = "show_int x @ cs"
  have sp: "skip_space ?t = ?t"
    using show_int_hd_not_space [of x] by (intro skip_space_nonspace) auto
  define n where "n = (if x < 0 then nat (- x) else nat x)"
  have x: "x = (if x < 0 then - 1 else 1) * int n" by (auto simp: n_def)
  have "sign_split ?t = ((if x < 0 then - 1 else 1), show_nat n @ cs)"
    using sign_split_show_int [of x cs] by (simp add: n_def)
  moreover have "show_int x \<noteq> []" by (rule show_int_hd_not_space)
  ultimately have "read_int ?t =
      (let v = (if x < 0 then - 1 else 1) * int (digits_val 0 (show_nat n))
       in if out_of_range v then Inl (ParseError (range_msg v)) else Inr (v, cs))"
    unfolding read_int_def sp Let_def using show_nat_takeWhile [OF e, of n] by simp
  also have "digits_val 0 (show_nat n) = n" by (rule digits_val_show_nat)
  finally show ?thesis using out_of_range_small [OF assms(1)] x by (simp add: Let_def)
qed

lemma show_int_0: "show_int 0 = ''0''"
proof -
  have "char_of (48 :: nat) = CHR ''0''" by code_simp
  then show ?thesis by (simp add: show_int_def show_nat.simps digit_char_def)
qed

lemma ints_of_space [simp]: "is_space c \<Longrightarrow> ints_of (c # cs) = ints_of cs"
  by (simp add: ints_of.simps [of "c # cs"] ints_of.simps [of cs])

lemma ints_of_clause_line:
  assumes "list_all small_lit c"
  shows "ints_of (clause_line c @ cs) = Inr (c, newline # cs)"
  using assms
proof (induction c)
  case Nil
  have "read_int (''0'' @ newline # cs) = Inr (0, newline # cs)"
    using read_int_show [of 0 "newline # cs"] by (simp add: show_int_0)
  then show ?case by (subst ints_of.simps) (simp add: clause_line_def)
next
  case (Cons x c)
  have x: "\<bar>x\<bar> < INT_MAX" "x \<noteq> 0" using Cons.prems by (simp_all add: small_lit_def)
  have split: "clause_line (x # c) @ cs = show_int x @ CHR '' '' # clause_line c @ cs"
    by (simp add: clause_line_def)
  have "read_int (show_int x @ CHR '' '' # clause_line c @ cs) = Inr (x, CHR '' '' # clause_line c @ cs)"
    by (rule read_int_show [OF x(1)]) simp
  with Cons x show ?case unfolding split by (subst ints_of.simps) simp
qed

lemma clauses_of_skip: "clauses_of (skip_space cs) = clauses_of cs"
  by (simp add: clauses_of.simps [of cs] clauses_of.simps [of "skip_space cs"])

lemma clauses_of_newline [simp]: "clauses_of (newline # cs) = clauses_of cs"
  using clauses_of_skip [of "newline # cs"] clauses_of_skip [of cs] by simp

lemma clause_line_hd:
  "clause_line c \<noteq> []" "is_digit (hd (clause_line c)) \<or> hd (clause_line c) = CHR ''-''"
proof -
  show "clause_line c \<noteq> []" by (simp add: clause_line_def)
  show "is_digit (hd (clause_line c)) \<or> hd (clause_line c) = CHR ''-''"
  proof (cases c)
    case Nil
    then show ?thesis by (simp add: clause_line_def is_digit_def)
  next
    case (Cons x xs)
    have "is_digit (hd (show_int x)) \<or> hd (show_int x) = CHR ''-''"
      using show_nat_hd by (simp add: show_int_def)
    then show ?thesis using Cons show_int_hd_not_space [of x] by (simp add: clause_line_def)
  qed
qed

lemma clauses_of_clause_line:
  assumes "list_all small_lit c"
  shows "clauses_of (clause_line c @ cs) = bind_res (clauses_of cs) (\<lambda>r. Inr (c # r))"
proof -
  have h: "is_digit (hd (clause_line c @ cs)) \<or> hd (clause_line c @ cs) = CHR ''-''"
    using clause_line_hd [of c] by simp
  then have ns: "\<not> is_space (hd (clause_line c @ cs))" by (auto simp: is_digit_def is_space_def)
  have ne: "clause_line c @ cs \<noteq> []" using clause_line_hd [of c] by simp
  have sp: "skip_space (clause_line c @ cs) = clause_line c @ cs"
    by (rule skip_space_nonspace [OF ne ns])
  have pc: "hd (clause_line c @ cs) \<noteq> CHR ''p''" "hd (clause_line c @ cs) \<noteq> CHR ''c''"
    using h by (auto simp: is_digit_def)
  have "clauses_of (clause_line c @ cs) = (case ints_of (clause_line c @ cs) of
      Inl e \<Rightarrow> Inl e | Inr (xs, es) \<Rightarrow> bind_res (clauses_of es) (\<lambda>r. Inr (xs # r)))"
    by (subst clauses_of.simps, unfold sp Let_def) (simp only: ne pc if_False simp_thms)
  then show ?thesis by (simp only: ints_of_clause_line [OF assms]) simp
qed

text \<open>A line of text without a line break in it, after a \<open>p\<close> or a \<open>c\<close>.\<close>

definition plain_line :: "string \<Rightarrow> bool" where
  "plain_line cs \<longleftrightarrow> list_all (\<lambda>c. \<not> is_space c \<or> is_blank c) cs"

lemma clauses_of_skipped_line:
  assumes "c = CHR ''p'' \<or> c = CHR ''c''" and "plain_line ls"
  shows "clauses_of (c # ls @ newline # cs) = clauses_of cs"
proof -
  have ns: "\<not> is_space c" using assms(1) by (auto simp: is_space_def)
  have "dropWhile (\<lambda>c. \<not> is_space c \<or> is_blank c) (c # ls @ newline # cs) = newline # cs"
    using ns assms(2)
    by (simp add: plain_line_def list_all_iff dropWhile_append2 is_blank_def)
  then have "skip_line (c # ls @ newline # cs) = skip_space cs" by (simp add: skip_line_def)
  moreover have "skip_space (c # ls @ newline # cs) = c # ls @ newline # cs"
    using ns by (intro skip_space_nonspace) auto
  ultimately show ?thesis
    using assms(1) clauses_of_skip [of cs] by (subst clauses_of.simps) simp
qed

lemma plain_show_int: "plain_line (show_int x)"
  using not_space_digit_sign by (auto simp: plain_line_def list_all_iff)

lemma plain_append [simp]: "plain_line (a @ b) \<longleftrightarrow> plain_line a \<and> plain_line b"
  by (simp add: plain_line_def)

lemma clauses_of_header: "clauses_of (header_line nv nc @ cs) = clauses_of cs"
proof -
  have "plain_line ('' cnf '' @ show_int nv @ '' '' @ show_int nc)"
    using plain_show_int by (auto simp: plain_line_def is_space_def is_blank_def)
  then show ?thesis
    using clauses_of_skipped_line [of "CHR ''p''" "'' cnf '' @ show_int nv @ '' '' @ show_int nc" cs]
    by (simp add: header_line_def)
qed

lemma clauses_of_lines:
  assumes "list_all (list_all small_lit) cls"
  shows "clauses_of (concat (map clause_line cls) @ cs) = bind_res (clauses_of cs) (\<lambda>r. Inr (cls @ r))"
  using assms
proof (induction cls)
  case Nil
  then show ?case by (cases "clauses_of cs") simp_all
next
  case (Cons c cls)
  then have "list_all small_lit c" by simp
  from clauses_of_clause_line [OF this, of "concat (map clause_line cls) @ cs"] Cons
  show ?case by (cases "clauses_of cs") simp_all
qed

lemma clauses_of_Nil [simp]: "clauses_of [] = Inr []"
  by (simp add: clauses_of.simps)

lemma clauses_of_dimacs_text:
  assumes "list_all (list_all small_lit) cls"
  shows "clauses_of (dimacs_text nv cls) = Inr cls"
  using clauses_of_lines [OF assms, of "[]"] by (simp add: dimacs_text_def clauses_of_header)

section \<open>Round trip\<close>

lemma words_below_piece:
  assumes "length p \<le> n" and "p \<noteq> []" and "is_space (last p)" and "words_below n cs"
  shows "words_below n (p @ cs)"
  unfolding words_below_def
proof (intro allI impI)
  fix i assume i: "i + n \<le> length (p @ cs)"
  show "\<exists>j < n. is_space ((p @ cs) ! (i + j))"
  proof (cases "i < length p")
    case True
    let ?j = "length p - 1 - i"
    have "(p @ cs) ! (i + ?j) = last p" using True assms(2) by (simp add: nth_append last_conv_nth)
    moreover have "?j < n" using True assms(1) by linarith
    ultimately show ?thesis using assms(3) by (intro exI [of _ ?j]) simp
  next
    case False
    define k where "k = i - length p"
    have i': "i = length p + k" using False by (simp add: k_def)
    then have "k + n \<le> length cs" using i by simp
    then obtain j where "j < n" "is_space (cs ! (k + j))"
      using assms(4) unfolding words_below_def by blast
    then show ?thesis by (intro exI [of _ j]) (simp add: i' add.assoc)
  qed
qed

lemma words_below_Nil: "0 < n \<Longrightarrow> words_below n []"
  by (simp add: words_below_def)

lemma show_nat_length: "0 < k \<Longrightarrow> n < 10 ^ k \<Longrightarrow> length (show_nat n) \<le> k"
proof (induction n arbitrary: k rule: show_nat.induct)
  case (1 n)
  show ?case
  proof (cases "n < 10")
    case True
    with "1.prems" show ?thesis by (simp add: show_nat.simps [of n])
  next
    case False
    then obtain m where k: "k = Suc m" "0 < m"
      using "1.prems" by (cases k; cases "k - 1") auto
    have "n div 10 < 10 ^ m" using "1.prems" k by (simp add: less_mult_imp_div_less)
    with "1.IH" False k show ?thesis by (simp add: show_nat.simps [of n])
  qed
qed

lemma show_int_length: "\<bar>x\<bar> < INT_MAX \<Longrightarrow> length (show_int x) \<le> 11"
proof -
  assume x: "\<bar>x\<bar> < INT_MAX"
  have "nat \<bar>x\<bar> < 10 ^ 10" using x by simp
  then have "length (show_nat (nat \<bar>x\<bar>)) \<le> 10" by (rule show_nat_length [rotated]) simp
  then show ?thesis by (cases "x < 0") (simp_all add: show_int_def abs_if split: if_splits)
qed

lemma words_below_number:
  assumes "\<bar>x\<bar> < INT_MAX" and "12 \<le> n" and "is_space c" and "words_below n cs"
  shows "words_below n (show_int x @ c # cs)"
  using words_below_piece [of "show_int x @ [c]" n cs] show_int_length [OF assms(1)] assms by simp

lemma words_below_line:
  assumes "list_all small_lit c" and "12 \<le> n" and "words_below n cs"
  shows "words_below n (clause_line c @ cs)"
  using assms
proof (induction c)
  case Nil
  then show ?case using words_below_piece [of "clause_line []" n cs] by (simp add: clause_line_def)
next
  case (Cons x c)
  then have "\<bar>x\<bar> < INT_MAX" "words_below n (clause_line c @ cs)" by (simp_all add: small_lit_def)
  from words_below_number [OF this(1) Cons.prems(2) is_space_simps(1) this(2)]
  show ?case by (simp add: clause_line_def)
qed

lemma words_below_dimacs_text:
  assumes "\<bar>nv\<bar> < INT_MAX" and "int (length cls) < INT_MAX" and "list_all (list_all small_lit) cls"
    and n: "12 \<le> n"
  shows "words_below n (dimacs_text nv cls)"
proof -
  let ?ls = "concat (map clause_line cls)"
  have "words_below n ?ls"
    using assms(3)
  proof (induction cls)
    case Nil
    show ?case using n by (simp add: words_below_Nil)
  next
    case (Cons c cls)
    then show ?case using words_below_line [of c n] n by simp
  qed
  then have "words_below n (show_int (int (length cls)) @ newline # ?ls)"
    using words_below_number [of "int (length cls)" n newline ?ls] assms by simp
  then have "words_below n (show_int nv @ CHR '' '' # show_int (int (length cls)) @ newline # ?ls)"
    using words_below_number [of nv n "CHR '' ''"] assms by simp
  from words_below_piece [OF _ _ _ words_below_piece [OF _ _ _ this, of "''cnf ''"], of "''p ''"] n
  show ?thesis by (simp add: dimacs_text_def header_line_def)
qed

lemma ends_blank_dimacs_text: "ends_blank (dimacs_text nv cls)"
proof (cases cls rule: rev_cases)
  case Nil
  then show ?thesis by (simp add: dimacs_text_def header_line_def ends_blank_def)
next
  case (snoc cls' c)
  then show ?thesis by (simp add: dimacs_text_def clause_line_def ends_blank_def)
qed

text \<open>C23. A formula printed in DIMACS, a header with any counts and every clause on a line of its own,
  is read back: through a buffer of any contents and of at least 12 characters (the code has 16384),
  refilled wherever it runs out, \<open>readDimacsFromFile\<close> returns the \<open>CNFFormula\<close> that \<open>readClause\<close>
  makes of exactly these clauses, with no error and within the fuel.\<close>

theorem read_file_dimacs_text:
  assumes "12 \<le> length junk" and "\<bar>nv\<bar> < INT_MAX" and "int (length cls) < INT_MAX"
    and "list_all (list_all small_lit) cls"
  shows "read_file junk (dimacs_text nv cls) = Inr (cnf_of (map (map in_lit) cls))"
proof -
  have "junk \<noteq> []" using assms(1) by auto
  with words_below_dimacs_text [OF assms(2-4,1)] ends_blank_dimacs_text show ?thesis
    by (simp add: read_file_eq clauses_of_dimacs_text [OF assms(4)])
qed

theorem read_file_dimacs_text_witness:
  "read_file (replicate 12 (CHR ''x'')) (dimacs_text 3 [[1, - 2], [], [3, 2, - 1]])
    = Inr (cnf_of (map (map in_lit) [[1, - 2], [], [3, 2, - 1]]))"
  by (rule read_file_dimacs_text) (simp_all add: small_lit_def)

end
