(* ===== verification/Dimacs_Parser.thy ===== *)
theory Dimacs_Parser
  imports Decimal
begin

text \<open>
  The parsers of CaDiCaL (\<open>cadical/src/parse.cpp\<close>): DIMACS and INCCNF files, competition
  solutions, and the list of gate variables (\<open>parse_aux\<close>).  A file is its name, the line
  number \<open>File::get\<close> keeps, and the characters that are left; \<open>EOF\<close> is \<open>None\<close>.  The calls
  the parsers make of the solver (\<open>add\<close>, \<open>reserve\<close>, \<open>set_long_option\<close>, \<open>add_aux\<close>) are
  recorded in their results.
\<close>

section \<open>Files\<close>

record pfile =
  pf_name :: string
  pf_line :: nat
  pf_rest :: string

definition parse_char :: "pfile \<Rightarrow> char option \<times> pfile" where
  "parse_char f =
     (case pf_rest f of
        [] \<Rightarrow> (None, f)
      | c # cs \<Rightarrow>
          (Some c, f\<lparr>pf_rest := cs, pf_line := (if c = newline then pf_line f + 1 else pf_line f)\<rparr>))"

text \<open>The macro \<open>PER\<close>.\<close>

definition per :: "pfile \<Rightarrow> string \<Rightarrow> 'a res" where
  "per f msg = Inl (ParseError
     (pf_name f @ '':'' @ show_nat (pf_line f) @ '': parse error: '' @ msg))"

lemma parse_char_shorter:
  "parse_char f = (Some c, g) \<Longrightarrow> length (pf_rest g) < length (pf_rest f)"
  by (auto simp: parse_char_def split: list.splits)

lemma parse_char_shorter' [simp]:
  "(Some c, g) = parse_char f \<Longrightarrow> length (pf_rest g) < length (pf_rest f)"
  by (metis parse_char_shorter)

definition is_dig :: "char option \<Rightarrow> bool" where
  "is_dig ch = (case ch of None \<Rightarrow> False | Some c \<Rightarrow> is_digit c)"

definition dig :: "char option \<Rightarrow> int" where
  "dig ch = (case ch of None \<Rightarrow> 0 | Some c \<Rightarrow> int (digit_val c))"

definition is_sp :: "char option \<Rightarrow> bool" where
  "is_sp ch = (case ch of None \<Rightarrow> False | Some c \<Rightarrow> is_space c)"

abbreviation CR :: char where "CR \<equiv> CHR 0x0D"
abbreviation TAB :: char where "TAB \<equiv> CHR 0x09"
abbreviation quote :: string where "quote \<equiv> [CHR 0x27]"

definition ws :: "char option \<Rightarrow> bool" where
  "ws ch \<longleftrightarrow> ch = Some (CHR '' '') \<or> ch = Some newline \<or> ch = Some TAB \<or> ch = Some CR"

definition blank :: "char option \<Rightarrow> bool" where
  "blank ch \<longleftrightarrow> ch = Some (CHR '' '') \<or> ch = Some TAB"

section \<open>Strings and numbers\<close>

fun parse_string :: "string \<Rightarrow> char \<Rightarrow> pfile \<Rightarrow> pfile res" where
  "parse_string [] prev f = Inr f"
| "parse_string (p # ps) prev f =
     (case parse_char f of (ch, f) \<Rightarrow>
        if ch = Some p then parse_string ps p f
        else if p = CHR '' '' then per f (''expected space after '' @ quote @ [prev] @ quote)
        else per f (''expected '' @ quote @ [p] @ quote @ '' after '' @ quote @ [prev] @ quote))"

text \<open>
  The loop both number parsers run after the first digit; \<open>msg\<close> is their complaint about a
  number above \<open>INT_MAX\<close>.
\<close>

function digits_loop :: "string \<Rightarrow> int \<Rightarrow> pfile \<Rightarrow> (char option \<times> int \<times> pfile) res" where
  "digits_loop msg n f =
     (case parse_char f of
        (None, f) \<Rightarrow> Inr (None, n, f)
      | (Some c, f) \<Rightarrow>
          if is_digit c then
            (let d = int (digit_val c) in
             if INT_MAX div 10 < n \<or> INT_MAX - d < 10 * n then per f msg
             else digits_loop msg (10 * n + d) f)
          else Inr (Some c, n, f))"
  by pat_completeness auto
termination
  by (relation "measure (\<lambda>(msg, n, f). length (pf_rest f))") auto

declare digits_loop.simps [simp del]

text \<open>\<open>ch\<close> is the first digit; the character after the number is returned with it.\<close>

definition parse_positive_int ::
  "string \<Rightarrow> char option \<Rightarrow> pfile \<Rightarrow> (char option \<times> int \<times> pfile) res" where
  "parse_positive_int name ch f =
     digits_loop (''too large '' @ quote @ name @ quote @ '' in header'') (dig ch) f"

datatype strictness = FORCED | RELAXED | STRICT

definition cube_token :: string where
  "cube_token = ''unexpected '' @ quote @ ''a'' @ quote @ '' in CNF''"

definition parse_sign :: "char option \<Rightarrow> pfile \<Rightarrow> (int \<times> char option \<times> pfile) res" where
  "parse_sign ch f =
     (if ch = Some (CHR ''-'') then
        (case parse_char f of (ch, f) \<Rightarrow>
           if \<not> is_dig ch then per f (''expected digit after '' @ quote @ ''-'' @ quote)
           else Inr (- 1, ch, f))
      else if \<not> is_dig ch then per f (''expected digit or '' @ quote @ ''-'' @ quote)
      else Inr (1, ch, f))"

definition lit_end ::
  "strictness \<Rightarrow> int \<Rightarrow> int \<Rightarrow> int \<Rightarrow> char option \<Rightarrow> pfile \<Rightarrow> (char option \<times> int \<times> int \<times> pfile) res" where
  "lit_end strict vars sg lit ch f =
     (case (if ch = Some CR then parse_char f else (ch, f)) of (ch, f) \<Rightarrow>
        if ch \<noteq> Some (CHR ''c'') \<and> ch \<noteq> Some (CHR '' '') \<and> ch \<noteq> Some TAB \<and> ch \<noteq> Some newline
           \<and> ch \<noteq> None
        then per f (''expected white space after '' @ quote @ show_int (sg * lit) @ quote)
        else if vars < lit \<and> strict \<noteq> FORCED
        then per f (''literal '' @ show_int (sg * lit) @ '' exceeds maximum variable '' @ show_int vars)
        else Inr (ch, sg * lit, if vars < lit then lit else vars, f))"

definition parse_lit ::
  "strictness \<Rightarrow> char option \<Rightarrow> int \<Rightarrow> pfile \<Rightarrow> (char option \<times> int \<times> int \<times> pfile) res" where
  "parse_lit strict ch vars f =
     (if ch = Some (CHR ''a'') then Inl (ParseError cube_token)
      else bind_res (parse_sign ch f) (\<lambda>(sg, ch, f).
        bind_res (digits_loop ''literal too large'' (dig ch) f) (\<lambda>(ch, lit, f).
          lit_end strict vars sg lit ch f)))"

section \<open>Skipping\<close>

text \<open>Up to the end of the line; the result says whether it was found.\<close>

function skip_to_newline :: "pfile \<Rightarrow> bool \<times> pfile" where
  "skip_to_newline f =
     (case parse_char f of
        (None, f) \<Rightarrow> (False, f)
      | (Some c, f) \<Rightarrow> if c = newline then (True, f) else skip_to_newline f)"
  by pat_completeness auto
termination
  by (relation "measure (\<lambda>f. length (pf_rest f))") auto

declare skip_to_newline.simps [simp del]

text \<open>\<open>do ch = parse_char (); while (P (ch))\<close>\<close>

function next_not :: "(char option \<Rightarrow> bool) \<Rightarrow> pfile \<Rightarrow> char option \<times> pfile" where
  "next_not P f =
     (case parse_char f of
        (None, f) \<Rightarrow> (None, f)
      | (Some c, f) \<Rightarrow> if P (Some c) then next_not P f else (Some c, f))"
  by pat_completeness auto
termination
  by (relation "measure (\<lambda>(P, f). length (pf_rest f))") auto

declare next_not.simps [simp del]

text \<open>The rest of a header line: white space up to the line break, \<open>ch\<close> the next character.\<close>

function rest_of_header :: "string \<Rightarrow> char option \<Rightarrow> pfile \<Rightarrow> pfile res" where
  "rest_of_header msg ch f =
     (if ch = Some newline then Inr f
      else if ch \<noteq> Some CR \<and> \<not> is_sp ch then per f msg
      else case parse_char f of
        (None, f) \<Rightarrow> per f msg
      | (Some c, f) \<Rightarrow> rest_of_header msg (Some c) f)"
  by pat_completeness auto
termination
proof (relation "measure (\<lambda>x. length (pf_rest (snd (snd x))))", goal_cases)
  case (2 msg ch f y g c)
  then have "parse_char f = (Some c, g)" by simp
  from parse_char_shorter [OF this] show ?case by simp
qed simp

declare rest_of_header.simps [simp del]

lemma skip_to_newline_le: "skip_to_newline f = (b, g) \<Longrightarrow> length (pf_rest g) \<le> length (pf_rest f)"
proof (induction f rule: skip_to_newline.induct)
  case (1 f)
  obtain ch h where p: "parse_char f = (ch, h)" by (cases "parse_char f")
  show ?case
  proof (cases ch)
    case None
    with p have "h = f" by (auto simp: parse_char_def split: list.splits)
    with "1.prems" p None show ?thesis by (subst (asm) skip_to_newline.simps) simp
  next
    case (Some c)
    with p have lt: "length (pf_rest h) < length (pf_rest f)" by (simp add: parse_char_shorter)
    show ?thesis
    proof (cases "c = newline")
      case True
      with "1.prems" p Some have "g = h" by (subst (asm) skip_to_newline.simps) simp
      with lt show ?thesis by simp
    next
      case False
      with "1.prems" p Some have "skip_to_newline h = (b, g)" by (subst (asm) skip_to_newline.simps) simp
      from "1.IH" [OF p [symmetric] Some False this] lt show ?thesis by simp
    qed
  qed
qed


lemma parse_char_le: "parse_char f = (ch, g) \<Longrightarrow> length (pf_rest g) \<le> length (pf_rest f)"
  by (auto simp: parse_char_def split: list.splits)

lemma digits_loop_le: "digits_loop msg n f = Inr (ch, m, g) \<Longrightarrow> length (pf_rest g) \<le> length (pf_rest f)"
proof (induction msg n f rule: digits_loop.induct)
  case (1 msg n f)
  obtain c h where p: "parse_char f = (c, h)" by (cases "parse_char f")
  note le = parse_char_le [OF p]
  show ?case
  proof (cases "is_dig c")
    case False
    then have "g = h"
      using "1.prems" p by (subst (asm) digits_loop.simps) (auto simp: is_dig_def split: option.splits)
    with le show ?thesis by simp
  next
    case True
    then obtain c' where c: "c = Some c'" "is_digit c'" by (auto simp: is_dig_def split: option.splits)
    let ?d = "int (digit_val c')"
    have ok: "\<not> (INT_MAX div 10 < n \<or> INT_MAX - ?d < 10 * n)"
      using "1.prems" p c by (subst (asm) digits_loop.simps) (auto simp: per_def Let_def split: if_splits)
    then have "digits_loop msg (10 * n + ?d) h = Inr (ch, m, g)"
      using "1.prems" p c by (subst (asm) digits_loop.simps) (simp add: Let_def)
    from "1.IH" [OF p [symmetric] c(1) c(2) refl ok this] le show ?thesis by simp
  qed
qed

lemma parse_sign_le: "parse_sign ch f = Inr (sg, ch', g) \<Longrightarrow> length (pf_rest g) \<le> length (pf_rest f)"
  by (auto simp: parse_sign_def per_def dest: parse_char_le split: if_splits prod.splits)

lemma lit_end_le:
  "lit_end strict vars sg lit ch f = Inr (ch', l, v, g) \<Longrightarrow> length (pf_rest g) \<le> length (pf_rest f)"
  by (cases "parse_char f") (auto simp: lit_end_def per_def dest: parse_char_le split: if_splits)

lemma parse_lit_le:
  assumes "parse_lit strict ch vars f = Inr (ch', lit, vars', g)"
  shows "length (pf_rest g) \<le> length (pf_rest f)"
proof -
  obtain sg c1 f1 where p: "parse_sign ch f = Inr (sg, c1, f1)"
    using assms by (auto simp: parse_lit_def bind_res_eq_Inr split: if_splits)
  obtain c2 l f2 where d: "digits_loop ''literal too large'' (dig c1) f1 = Inr (c2, l, f2)"
    using assms p by (auto simp: parse_lit_def bind_res_eq_Inr split: if_splits)
  have "lit_end strict vars sg l c2 f2 = Inr (ch', lit, vars', g)"
    using assms p d by (simp add: parse_lit_def split: if_splits)
  with parse_sign_le [OF p] digits_loop_le [OF d] lit_end_le show ?thesis by (meson order.trans)
qed

section \<open>The header of a DIMACS file\<close>

function comment_text :: "string \<Rightarrow> pfile \<Rightarrow> (string \<times> pfile) res" where
  "comment_text buf f =
     (case parse_char f of
        (None, f) \<Rightarrow> per f ''unexpected end-of-file in header comment''
      | (Some c, f) \<Rightarrow>
          if c = newline then Inr (buf, f)
          else comment_text (if c \<noteq> CR then buf @ [c] else buf) f)"
  by pat_completeness auto
termination
  by (relation "measure (\<lambda>(buf, f). length (pf_rest f))") auto

declare comment_text.simps [simp del]

lemma comment_text_le: "comment_text buf f = Inr (b, g) \<Longrightarrow> length (pf_rest g) \<le> length (pf_rest f)"
proof (induction buf f rule: comment_text.induct)
  case (1 buf f)
  obtain ch h where p: "parse_char f = (ch, h)" by (cases "parse_char f")
  note le = parse_char_le [OF p]
  obtain c where ch: "ch = Some c"
    using "1.prems" p by (subst (asm) comment_text.simps) (cases ch; simp add: per_def)
  show ?case
  proof (cases "c = newline")
    case True
    with "1.prems" p ch have "g = h" by (subst (asm) comment_text.simps) simp
    with le show ?thesis by simp
  next
    case False
    with "1.prems" p ch have "comment_text (if c \<noteq> CR then buf @ [c] else buf) h = Inr (b, g)"
      by (subst (asm) comment_text.simps) simp
    from "1.IH" [OF p [symmetric] ch False this] le show ?thesis by simp
  qed
qed

text \<open>An option embedded in a comment starts at its first \<open>-\<close>; \<open>c_str\<close> ends at a 0.\<close>

definition option_of :: "string \<Rightarrow> string option" where
  "option_of buf =
     (let s = dropWhile (\<lambda>c. c \<noteq> CHR 0x00 \<and> c \<noteq> CHR ''-'') buf in
      if s = [] \<or> hd s = CHR 0x00 then None else Some (takeWhile (\<lambda>c. c \<noteq> CHR 0x00) s))"

function header_comments ::
  "strictness \<Rightarrow> string list \<Rightarrow> pfile \<Rightarrow> (char option \<times> string list \<times> pfile) res" where
  "header_comments strict opts f =
     (case parse_char f of
        (None, f) \<Rightarrow> Inr (None, opts, f)
      | (Some c, f) \<Rightarrow>
          if strict \<noteq> STRICT \<and> ws (Some c) then header_comments strict opts f
          else if c \<noteq> CHR ''c'' then Inr (Some c, opts, f)
          else bind_res (comment_text [] f) (\<lambda>(buf, f).
            header_comments strict
              (case option_of buf of None \<Rightarrow> opts | Some s \<Rightarrow> opts @ [s]) f))"
  by pat_completeness auto
termination
proof (relation "measure (\<lambda>x. length (pf_rest (snd (snd x))))", goal_cases)
  case (2 strict opts f ch g c)
  then have "parse_char f = (Some c, g)" by simp
  from parse_char_shorter [OF this] show ?case by simp
next
  case (3 strict opts f ch g c y buf h)
  then have "parse_char f = (Some c, g)" and "comment_text [] g = Inr (buf, h)" by simp_all
  from parse_char_shorter [OF this(1)] comment_text_le [OF this(2)] show ?case by simp
qed simp

declare header_comments.simps [simp del]

definition quoted :: "string \<Rightarrow> string" where
  "quoted s = quote @ s @ quote"

definition p_cnf :: "int \<Rightarrow> string" where
  "p_cnf vars = ''p cnf '' @ show_int vars"

text \<open>After \<open>p c\<close>: the rest of the keyword, the maximum variable and the number of clauses.\<close>

definition digits_at ::
  "string \<Rightarrow> string \<Rightarrow> char option \<times> pfile \<Rightarrow> (char option \<times> int \<times> pfile) res" where
  "digits_at msg name = (\<lambda>(ch, f).
     if \<not> is_dig ch then per f msg else parse_positive_int name ch f)"

definition strict_cnf_header :: "pfile \<Rightarrow> (int \<times> int \<times> pfile) res" where
  "strict_cnf_header f =
     bind_res (parse_string ''nf '' (CHR ''c'') f) (\<lambda>f.
     bind_res (digits_at (''expected digit after '' @ quoted ''p cnf '') ''<max-var>'' (parse_char f))
       (\<lambda>(ch, vars, f).
     if ch \<noteq> Some (CHR '' '') then per f (''expected '' @ quoted '' '' @ '' after '' @ quoted (p_cnf vars))
     else bind_res (digits_at (''expected digit after '' @ quoted (p_cnf vars @ '' '')) ''<num-clauses>''
            (parse_char f)) (\<lambda>(ch, clauses, f).
     if ch \<noteq> Some newline
     then per f (''expected new-line after '' @ quoted (p_cnf vars @ '' '' @ show_int clauses))
     else Inr (vars, clauses, f))))"

definition relaxed_cnf_header :: "pfile \<Rightarrow> (int \<times> int \<times> pfile) res" where
  "relaxed_cnf_header f =
     (case parse_char f of (ch, f) \<Rightarrow>
     if ch \<noteq> Some (CHR ''n'') then per f (''expected '' @ quoted ''n'' @ '' after '' @ quoted ''p c'')
     else case parse_char f of (ch, f) \<Rightarrow>
     if ch \<noteq> Some (CHR ''f'') then per f (''expected '' @ quoted ''f'' @ '' after '' @ quoted ''p cn'')
     else case parse_char f of (ch, f) \<Rightarrow>
     if \<not> is_sp ch then per f (''expected space after '' @ quoted ''p cnf'')
     else bind_res (digits_at (''expected digit after '' @ quoted ''p cnf '') ''<max-var>'' (next_not is_sp f))
       (\<lambda>(ch, vars, f).
     if \<not> is_sp ch then per f (''expected space after '' @ quoted (p_cnf vars))
     else bind_res (digits_at (''expected digit after '' @ quoted (p_cnf vars @ '' '')) ''<num-clauses>''
            (next_not is_sp f)) (\<lambda>(ch, clauses, f).
     bind_res (rest_of_header (''expected new-line after '' @ quoted (p_cnf vars @ '' '' @ show_int clauses)) ch f)
       (\<lambda>f. Inr (vars, clauses, f)))))"

text \<open>
  The calls of the solver and the values the parser leaves behind.  \<open>dm_inccnf\<close> is the flag
  behind \<open>parse_inccnf_too\<close>, \<open>dm_cubes\<close> the vector behind \<open>cubes\<close>; both pointers may be null.
\<close>

record dimacs_out =
  dm_options :: "string list"
  dm_reserved :: "int list"
  dm_added :: "int list"
  dm_vars :: int
  dm_inccnf :: "bool option"
  dm_cubes :: "int list option"

record header =
  hd_strict :: strictness
  hd_inccnf :: bool
  hd_vars :: int
  hd_clauses :: int
  hd_reserved :: "int list"

definition inccnf_header :: "strictness \<Rightarrow> pfile \<Rightarrow> pfile res" where
  "inccnf_header strict f =
     bind_res (parse_string ''nccnf'' (CHR ''i'') f) (\<lambda>f.
     case parse_char f of (ch, f) \<Rightarrow>
     let msg = ''expected new-line after '' @ quoted ''p inccnf'' in
     if strict = STRICT then (if ch \<noteq> Some newline then per f msg else Inr f)
     else rest_of_header msg ch f)"

definition after_p :: "strictness \<Rightarrow> pfile \<Rightarrow> (char option \<times> pfile) res" where
  "after_p strict f =
     (case parse_char f of (ch, f) \<Rightarrow>
      if strict = STRICT then
        (if ch \<noteq> Some (CHR '' '') then per f (''expected space after '' @ quoted ''p'')
         else Inr (parse_char f))
      else if \<not> blank ch then per f (''expected white space after '' @ quoted ''p'')
      else Inr (next_not blank f))"

definition parse_header :: "strictness \<Rightarrow> bool option \<Rightarrow> pfile \<Rightarrow> (header \<times> pfile) res" where
  "parse_header strict inccnf f =
     bind_res (after_p strict f) (\<lambda>(ch, f).
       if ch = Some (CHR ''c'') then
         bind_res (if strict = STRICT then strict_cnf_header f else relaxed_cnf_header f)
           (\<lambda>(vars, clauses, f).
              Inr (\<lparr>hd_strict = strict, hd_inccnf = False, hd_vars = vars, hd_clauses = clauses,
                    hd_reserved = (if strict \<noteq> FORCED then [vars] else [])\<rparr>, f))
       else if inccnf = None then per f (''expected '' @ quoted ''c'' @ '' after '' @ quoted ''p '')
       else if ch = Some (CHR ''i'') then
         bind_res (inccnf_header strict f) (\<lambda>f.
           Inr (\<lparr>hd_strict = FORCED, hd_inccnf = True, hd_vars = 0, hd_clauses = 0,
                 hd_reserved = []\<rparr>, f))
       else per f (''expected '' @ quoted ''c'' @ '' or '' @ quoted ''i'' @ '' after '' @ quoted ''p ''))"

section \<open>The body of a DIMACS file\<close>

record body =
  b_vars :: int
  b_lit :: int
  b_parsed :: int
  b_added :: "int list"

definition skip_lit_comment :: "char option \<Rightarrow> pfile \<Rightarrow> pfile res" where
  "skip_lit_comment ch f =
     (if ch = Some (CHR ''c'') then
        (case skip_to_newline f of (found, f) \<Rightarrow>
           if found then Inr f else per f ''unexpected end-of-file in comment'')
      else Inr f)"

text \<open>One literal: \<open>add\<close> it, and count the clauses when it is 0.\<close>

definition body_lit :: "header \<Rightarrow> char option \<Rightarrow> body \<Rightarrow> pfile \<Rightarrow> (body \<times> pfile) res" where
  "body_lit h ch b f =
     bind_res (parse_lit (hd_strict h) ch (b_vars b) f) (\<lambda>(ch, lit, vars, f).
     bind_res (skip_lit_comment ch f) (\<lambda>f.
       let count = \<not> hd_inccnf h \<and> lit = 0;
           b' = b\<lparr>b_vars := vars, b_lit := lit, b_added := b_added b @ [lit],
                  b_parsed := (if count then b_parsed b + 1 else b_parsed b)\<rparr>
       in if count \<and> b_parsed b \<ge> hd_clauses h \<and> hd_strict h \<noteq> FORCED then per f ''too many clauses''
          else Inr (b', f)))"

lemma skip_lit_comment_le:
  "skip_lit_comment ch f = Inr g \<Longrightarrow> length (pf_rest g) \<le> length (pf_rest f)"
  by (cases "skip_to_newline f") (auto simp: skip_lit_comment_def per_def dest: skip_to_newline_le split: if_splits)

lemma body_lit_elim:
  assumes "body_lit h ch b f = Inr (b', g)"
  obtains ch' lit vars f1 where "parse_lit (hd_strict h) ch (b_vars b) f = Inr (ch', lit, vars, f1)"
    and "skip_lit_comment ch' f1 = Inr g"
    and "b' = b\<lparr>b_vars := vars, b_lit := lit, b_added := b_added b @ [lit],
        b_parsed := (if \<not> hd_inccnf h \<and> lit = 0 then b_parsed b + 1 else b_parsed b)\<rparr>"
    and "\<not> hd_inccnf h \<Longrightarrow> lit = 0 \<Longrightarrow> hd_strict h \<noteq> FORCED \<Longrightarrow> b_parsed b < hd_clauses h"
proof -
  obtain ch' lit vars f1 where p: "parse_lit (hd_strict h) ch (b_vars b) f = Inr (ch', lit, vars, f1)"
    using assms by (auto simp: body_lit_def bind_res_eq_Inr)
  obtain g' where s: "skip_lit_comment ch' f1 = Inr g'"
    using assms p by (auto simp: body_lit_def bind_res_eq_Inr)
  show thesis
    using assms by (intro that [OF p]) (auto simp: body_lit_def p s Let_def per_def split: if_splits)
qed

lemma body_lit_le: "body_lit h ch b f = Inr (b', g) \<Longrightarrow> length (pf_rest g) \<le> length (pf_rest f)"
  by (erule body_lit_elim) (meson order.trans parse_lit_le skip_lit_comment_le)

function body_loop :: "header \<Rightarrow> body \<Rightarrow> pfile \<Rightarrow> (char option \<times> body \<times> pfile) res" where
  "body_loop h b f =
     (case parse_char f of
        (None, f) \<Rightarrow> Inr (None, b, f)
      | (Some c, f) \<Rightarrow>
          if ws (Some c) then body_loop h b f
          else if c = CHR ''c'' then
            (case skip_to_newline f of (found, f) \<Rightarrow>
               if found then body_loop h b f else Inr (None, b, f))
          else if c = CHR ''a'' \<and> hd_inccnf h then Inr (Some c, b, f)
          else bind_res (body_lit h (Some c) b f) (\<lambda>(b, f). body_loop h b f))"
  by pat_completeness auto
termination
proof (relation "measure (\<lambda>x. length (pf_rest (snd (snd x))))", goal_cases)
  case (2 h b f ch g c)
  then have "parse_char f = (Some c, g)" by simp
  from parse_char_shorter [OF this] show ?case by simp
next
  case (3 h b f ch g c found k)
  then have "parse_char f = (Some c, g)" and "skip_to_newline g = (found, k)" by simp_all
  from parse_char_shorter [OF this(1)] skip_to_newline_le [OF this(2)] show ?case by simp
next
  case (4 h b f ch g c y b' k)
  then have "parse_char f = (Some c, g)" and "body_lit h (Some c) b g = Inr (b', k)" by simp_all
  from parse_char_shorter [OF this(1)] body_lit_le [OF this(2)] show ?case by simp
qed simp

declare body_loop.simps [simp del]

section \<open>Cubes\<close>

text \<open>
  Behind the 0 of a cube: on to the next \<open>a\<close> or the end of the file.  A comment is skipped
  with its line break, which is then taken for the character that should be an \<open>a\<close>.
\<close>

function cube_sep :: "pfile \<Rightarrow> (bool \<times> pfile) res" where
  "cube_sep f =
     (case parse_char f of
        (None, f) \<Rightarrow> Inr (False, f)
      | (Some c, f) \<Rightarrow>
          if ws (Some c) then cube_sep f
          else if c = CHR ''c'' then
            (case skip_to_newline f of (found, f) \<Rightarrow>
               if found then per f (''expected '' @ quoted ''a'' @ '' or end-of-file after zero'')
               else Inr (False, f))
          else if c \<noteq> CHR ''a'' then per f (''expected '' @ quoted ''a'' @ '' or end-of-file after zero'')
          else Inr (True, f))"
  by pat_completeness auto
termination
  by (relation "measure (\<lambda>f. length (pf_rest f))") auto

declare cube_sep.simps [simp del]

lemma cube_sep_le: "cube_sep f = Inr (b, g) \<Longrightarrow> length (pf_rest g) \<le> length (pf_rest f)"
proof (induction f rule: cube_sep.induct)
  case (1 f)
  obtain ch h where p: "parse_char f = (ch, h)" by (cases "parse_char f")
  note le = parse_char_le [OF p]
  show ?case
  proof (cases "\<exists>c. ch = Some c \<and> ws (Some c)")
    case True
    then obtain c where c: "ch = Some c" "ws (Some c)" by blast
    then have "cube_sep h = Inr (b, g)" using "1.prems" p by (subst (asm) cube_sep.simps) simp
    from "1.IH" [OF p [symmetric] c(1) c(2) this] le show ?thesis by simp
  next
    case False
    obtain found k where s: "skip_to_newline h = (found, k)" by (cases "skip_to_newline h")
    have "g = h \<or> g = k"
      using "1.prems" p s False
      by (subst (asm) cube_sep.simps) (auto simp: per_def split: option.splits if_splits)
    with le skip_to_newline_le [OF s] show ?thesis by auto
  qed
qed

text \<open>A literal of a cube; \<open>ch\<close> may be \<open>EOF\<close>.\<close>

definition cube_lit ::
  "strictness \<Rightarrow> int \<Rightarrow> char option \<Rightarrow> pfile \<Rightarrow> (int \<times> int \<times> pfile) res" where
  "cube_lit strict vars ch f =
     (case parse_lit strict ch vars f of
        Inl e \<Rightarrow> if e = ParseError cube_token then per f (''two '' @ quoted ''a'' @ '' in a row'') else Inl e
      | Inr (ch, lit, vars, f) \<Rightarrow> bind_res (skip_lit_comment ch f) (\<lambda>f. Inr (lit, vars, f)))"

lemma cube_lit_le:
  "cube_lit strict vars ch f = Inr (lit, v, g) \<Longrightarrow> length (pf_rest g) \<le> length (pf_rest f)"
  by (auto simp: cube_lit_def per_def bind_res_eq_Inr split: sum.splits if_splits
      dest!: parse_lit_le skip_lit_comment_le)

lemma cube_lit_EOF: "cube_lit strict vars None f \<noteq> Inr r"
  by (simp add: cube_lit_def parse_lit_def parse_sign_def is_dig_def per_def)

function cube_loop ::
  "strictness \<Rightarrow> int \<Rightarrow> int \<Rightarrow> int list \<Rightarrow> pfile \<Rightarrow> (int \<times> int \<times> int list \<times> pfile) res" where
  "cube_loop strict vars lit cubes f =
     (case parse_char f of (ch, f) \<Rightarrow>
        if ws ch then cube_loop strict vars lit cubes f
        else if ch = Some (CHR ''c'') then
          (case skip_to_newline f of (found, f) \<Rightarrow>
             if found then cube_loop strict vars lit cubes f else Inr (vars, lit, cubes, f))
        else bind_res (cube_lit strict vars ch f) (\<lambda>(lit, vars, f).
          if lit \<noteq> 0 then cube_loop strict vars lit (cubes @ [lit]) f
          else bind_res (cube_sep f) (\<lambda>(again, f).
            if again then cube_loop strict vars INT_MIN (cubes @ [lit]) f
            else Inr (vars, lit, cubes @ [lit], f))))"
  by pat_completeness auto
termination
proof (relation "measure (\<lambda>x. length (pf_rest (snd (snd (snd (snd x))))))", goal_cases)
  case (2 strict vars lit cubes f ch g)
  then have "parse_char f = (ch, g)" "ch \<noteq> None" by (auto simp: ws_def)
  then show ?case using parse_char_shorter by auto
next
  case (3 strict vars lit cubes f ch g found k)
  then have "parse_char f = (Some (CHR ''c''), g)" "skip_to_newline g = (found, k)" by simp_all
  from parse_char_shorter [OF this(1)] skip_to_newline_le [OF this(2)] show ?case by simp
next
  case (4 strict vars lit cubes f ch g x l y v k)
  then have p: "parse_char f = (ch, g)" and l: "cube_lit strict vars ch g = Inr (l, v, k)" by simp_all
  then obtain c where "ch = Some c" using cube_lit_EOF by (cases ch) auto
  with parse_char_shorter p have "length (pf_rest g) < length (pf_rest f)" by auto
  with cube_lit_le [OF l] show ?case by simp
next
  case (5 strict vars lit cubes f ch g x l y v k z again m)
  then have p: "parse_char f = (ch, g)" and l: "cube_lit strict vars ch g = Inr (l, v, k)"
    and s: "cube_sep k = Inr (again, m)" by simp_all
  then obtain c where "ch = Some c" using cube_lit_EOF by (cases ch) auto
  with parse_char_shorter p have "length (pf_rest g) < length (pf_rest f)" by auto
  with cube_lit_le [OF l] cube_sep_le [OF s] show ?case by simp
qed simp

declare cube_loop.simps [simp del]

section \<open>The whole file\<close>

definition parse_dimacs ::
  "bool option \<Rightarrow> int list option \<Rightarrow> strictness \<Rightarrow> pfile \<Rightarrow> (dimacs_out \<times> pfile) res" where
  "parse_dimacs inccnf cubes strict f =
     bind_res (header_comments strict [] f) (\<lambda>(ch, opts, f).
     if ch \<noteq> Some (CHR ''p'') then per f (''expected '' @ quoted ''c'' @ '' or '' @ quoted ''p'')
     else bind_res (parse_header strict inccnf f) (\<lambda>(h, f).
     bind_res (body_loop h \<lparr>b_vars = hd_vars h, b_lit = 0, b_parsed = 0, b_added = []\<rparr> f)
       (\<lambda>(ch, b, f).
     if b_lit b \<noteq> 0 then per f (''last clause without terminating '' @ quoted ''0'')
     else if \<not> hd_inccnf h \<and> b_parsed b < hd_clauses h \<and> hd_strict h \<noteq> FORCED
     then per f ''clause missing''
     else let out = \<lparr>dm_options = opts, dm_reserved = hd_reserved h, dm_added = b_added b,
                     dm_vars = b_vars b,
                     dm_inccnf = (case inccnf of None \<Rightarrow> None | Some _ \<Rightarrow> Some (ch = Some (CHR ''a''))),
                     dm_cubes = cubes\<rparr>
          in if ch \<noteq> Some (CHR ''a'') then Inr (out, f)
             else bind_res (cube_loop (hd_strict h) (b_vars b) (b_lit b) [] f) (\<lambda>(vars, lit, cs, f).
               if lit \<noteq> 0 then per f (''last cube without terminating '' @ quoted ''0'')
               else Inr (out\<lparr>dm_vars := vars,
                         dm_cubes := (case cubes of None \<Rightarrow> None | Some old \<Rightarrow> Some (old @ cs))\<rparr>, f)))))"

end
