(* ===== verification/Aux_Parser.thy ===== *)
theory Aux_Parser
  imports Dimacs_Parser
begin

text \<open>
  The two other parsers of \<open>cadical/src/parse.cpp\<close>: \<open>parse_solution\<close> for solutions in the
  competition format and \<open>parse_aux\<close>, the list of gate variables the decision heuristics
  ignore.
\<close>

section \<open>Solutions\<close>

text \<open>\<open>solution\<close> has \<open>max_var + 1\<close> elements, allocated before \<open>parse_lit\<close> may raise \<open>max_var\<close>.\<close>

record sol =
  so_vals :: "int list"
  so_max_var :: int
  so_count :: nat

definition sol_init :: "int \<Rightarrow> sol" where
  "sol_init max_var = \<lparr>so_vals = replicate (nat (max_var + 1)) 0, so_max_var = max_var, so_count = 0\<rparr>"

definition sol_lit :: "int \<Rightarrow> sol \<Rightarrow> pfile \<Rightarrow> sol res" where
  "sol_lit lit s f =
     bind_res (vec_get (so_vals s) (nat \<bar>lit\<bar>)) (\<lambda>old.
       if old \<noteq> 0 then per f (''variable '' @ show_int \<bar>lit\<bar> @ '' occurs twice'')
       else bind_res (vec_set (so_vals s) (nat \<bar>lit\<bar>) (if lit < 0 then - 1 else 1)) (\<lambda>vals.
         Inr (s\<lparr>so_vals := vals, so_count := so_count s + 1\<rparr>)))"

lemma digits_loop_shorter:
  "digits_loop msg n f = Inr (Some c, m, g) \<Longrightarrow> length (pf_rest g) < length (pf_rest f)"
proof (induction msg n f rule: digits_loop.induct)
  case (1 msg n f)
  obtain ch h where p: "parse_char f = (ch, h)" by (cases "parse_char f")
  obtain d where ch: "ch = Some d" using "1.prems" p by (subst (asm) digits_loop.simps) (cases ch; simp)
  have lt: "length (pf_rest h) < length (pf_rest f)" using p ch by (simp add: parse_char_shorter)
  show ?case
  proof (cases "is_digit d")
    case False
    then have "g = h" using "1.prems" p ch by (subst (asm) digits_loop.simps) simp
    with lt show ?thesis by simp
  next
    case True
    have "digits_loop msg (10 * n + int (digit_val d)) h = Inr (Some c, m, g)"
      using "1.prems" p ch True
      by (subst (asm) digits_loop.simps) (auto simp: per_def Let_def split: if_splits)
    from digits_loop_le [OF this] lt show ?thesis by simp
  qed
qed

lemma parse_lit_shorter:
  assumes "parse_lit strict ch vars f = Inr (Some c, lit, vars', g)"
  shows "length (pf_rest g) < length (pf_rest f)"
proof -
  obtain sg c1 f1 where p: "parse_sign ch f = Inr (sg, c1, f1)"
    using assms by (auto simp: parse_lit_def bind_res_eq_Inr split: if_splits)
  obtain c2 l f2 where d: "digits_loop ''literal too large'' (dig c1) f1 = Inr (c2, l, f2)"
    using assms p by (auto simp: parse_lit_def bind_res_eq_Inr split: if_splits)
  have e: "lit_end strict vars sg l c2 f2 = Inr (Some c, lit, vars', g)"
    using assms p d by (simp add: parse_lit_def split: if_splits)
  then have "c2 \<noteq> None" by (auto simp: lit_end_def per_def split: if_splits)
  with d digits_loop_shorter have "length (pf_rest f2) < length (pf_rest f1)" by blast
  with parse_sign_le [OF p] lit_end_le [OF e] show ?thesis by linarith
qed

lemma parse_lit_EOF: "parse_lit strict None vars f \<noteq> Inr r"
  by (simp add: parse_lit_def parse_sign_def is_dig_def per_def)

text \<open>
  The \<open>do\<close> loop over a value line.  \<open>continue\<close> goes to its condition \<open>ch != '\n'\<close>; the result
  is the last literal, 0 behind the end of the solution.
\<close>

function sol_line :: "char option \<Rightarrow> int \<Rightarrow> sol \<Rightarrow> pfile \<Rightarrow> (int \<times> sol \<times> pfile) res" where
  "sol_line ch lit s f =
     (if blank ch then
        (case parse_char f of (ch, f) \<Rightarrow>
           if ch = Some newline then Inr (lit, s, f) else sol_line ch lit s f)
      else bind_res (parse_lit FORCED ch (so_max_var s) f) (\<lambda>(ch, lit, max_var, f).
        let s = s\<lparr>so_max_var := max_var\<rparr> in
        if ch = Some (CHR ''c'') then per f ''unexpected comment''
        else if lit = 0 then Inr (lit, s, f)
        else bind_res (sol_lit lit s f) (\<lambda>s.
          case (if ch = Some CR then parse_char f else (ch, f)) of (ch, f) \<Rightarrow>
            if ch = Some newline then Inr (lit, s, f)
            else sol_line ch lit s f)))"
  by pat_completeness auto
termination
proof (relation "measure (\<lambda>(ch, lit, s, f). 2 * length (pf_rest f) + (if ch = None then 0 else 1))", goal_cases)
  case (2 ch lit s f c g)
  then have p: "parse_char f = (c, g)" and ch: "ch \<noteq> None" by (auto simp: blank_def)
  show ?case
  proof (cases c)
    case None
    with parse_char_le [OF p] ch show ?thesis by (cases ch) simp_all
  next
    case (Some d)
    with parse_char_shorter [of f d g] p ch show ?thesis by (cases ch) simp_all
  qed
next
  case (3 ch lit s f x c y l z v g s' s'' c' g')
  then have p: "parse_lit FORCED ch (so_max_var s) f = Inr (c, l, v, g)"
    and pc: "(if c = Some CR then parse_char g else (c, g)) = (c', g')" by simp_all
  then have ch: "ch \<noteq> None" by (metis parse_lit_EOF)
  have le: "length (pf_rest g') \<le> length (pf_rest g)"
    using pc by (auto dest: parse_char_le split: if_splits)
  show ?case
  proof (cases "c = None")
    case True
    with pc have "c' = None" by simp
    with le parse_lit_le [OF p] ch show ?thesis by (cases ch) simp_all
  next
    case False
    with p parse_lit_shorter have "length (pf_rest g) < length (pf_rest f)" by blast
    with le show ?thesis by (cases c') simp_all
  qed
qed simp

declare sol_line.simps [simp del]

lemma sol_line_le: "sol_line ch lit s f = Inr (l, t, g) \<Longrightarrow> length (pf_rest g) \<le> length (pf_rest f)"
proof (induction ch lit s f rule: sol_line.induct)
  case (1 ch lit s f)
  show ?case
  proof (cases "blank ch")
    case True
    obtain c h where p: "parse_char f = (c, h)" by (cases "parse_char f")
    note le = parse_char_le [OF p]
    show ?thesis
    proof (cases "c = Some newline")
      case nl: True
      with "1.prems" p True have "g = h" by (subst (asm) sol_line.simps) simp
      with le show ?thesis by simp
    next
      case False
      then have "sol_line c lit s h = Inr (l, t, g)"
        using "1.prems" p True by (subst (asm) sol_line.simps) simp
      from "1.IH"(1) [OF True p [symmetric] False this] le show ?thesis by simp
    qed
  next
    case False
    obtain c lit' v f1 where p: "parse_lit FORCED ch (so_max_var s) f = Inr (c, lit', v, f1)"
      using "1.prems" False by (subst (asm) sol_line.simps) (auto simp: bind_res_eq_Inr)
    note le = parse_lit_le [OF p]
    let ?s = "s\<lparr>so_max_var := v\<rparr>"
    have nc: "c \<noteq> Some (CHR ''c'')"
      using "1.prems" False p by (subst (asm) sol_line.simps) (auto simp: per_def Let_def)
    show ?thesis
    proof (cases "lit' = 0")
      case True
      then have "g = f1" using "1.prems" False p nc by (subst (asm) sol_line.simps) (simp add: Let_def)
      with le show ?thesis by simp
    next
      case nz: False
      obtain t1 where t1: "sol_lit lit' ?s f1 = Inr t1"
        using "1.prems" False p nc nz
        by (subst (asm) sol_line.simps) (auto simp: Let_def bind_res_eq_Inr)
      obtain c2 f2 where pc: "(if c = Some CR then parse_char f1 else (c, f1)) = (c2, f2)" by fastforce
      have le2: "length (pf_rest f2) \<le> length (pf_rest f1)"
        using pc by (auto dest: parse_char_le split: if_splits)
      have run: "(if c2 = Some newline then Inr (lit', t1, f2) else sol_line c2 lit' t1 f2) = Inr (l, t, g)"
        using "1.prems" False p nc nz t1 pc by (subst (asm) sol_line.simps) (simp add: Let_def)
      show ?thesis
      proof (cases "c2 = Some newline")
        case True
        with run le le2 show ?thesis by simp
      next
        case nn: False
        with run have "sol_line c2 lit' t1 f2 = Inr (l, t, g)" by simp
        from "1.IH"(2) [OF False p refl refl refl refl nc nz t1 pc [symmetric] nn this] le le2
        show ?thesis by simp
      qed
    qed
  qed
qed

function sol_lines :: "sol \<Rightarrow> pfile \<Rightarrow> (sol \<times> pfile) res" where
  "sol_lines s f =
     (case parse_char f of
        (None, f) \<Rightarrow> per f (''expected '' @ quoted ''v'' @ '' at start-of-line'')
      | (Some c, f) \<Rightarrow>
          if c \<noteq> CHR ''v'' then per f (''expected '' @ quoted ''v'' @ '' at start-of-line'')
          else case parse_char f of (ch, f) \<Rightarrow>
          if ch \<noteq> Some (CHR '' '') then per f (''expected '' @ quoted '' '' @ '' after '' @ quoted ''v'')
          else case parse_char f of (ch, f) \<Rightarrow>
          bind_res (sol_line ch 0 s f) (\<lambda>(lit, s, f). if lit = 0 then Inr (s, f) else sol_lines s f))"
  by pat_completeness auto
termination
proof (relation "measure (\<lambda>x. length (pf_rest (snd x)))", goal_cases)
  case (2 s f c0 f1 c c1 f2 c2 f3 x l y s' f4)
  then have "parse_char f = (Some c, f1)" "parse_char f1 = (c1, f2)" "parse_char f2 = (c2, f3)"
    "sol_line c2 0 s f3 = Inr (l, s', f4)" by simp_all
  from parse_char_shorter [OF this(1)] parse_char_le [OF this(2)] parse_char_le [OF this(3)]
    sol_line_le [OF this(4)]
  show ?case by simp
qed simp

declare sol_lines.simps [simp del]

text \<open>Comments up to the \<open>s\<close> line.\<close>

function sol_comments :: "pfile \<Rightarrow> pfile res" where
  "sol_comments f =
     (case parse_char f of
        (None, f) \<Rightarrow> per f (''missing '' @ quoted ''s'' @ '' line'')
      | (Some c, f) \<Rightarrow>
          if c = CHR ''c'' then
            (case skip_to_newline f of (found, f) \<Rightarrow>
               if found then sol_comments f else per f ''unexpected end-of-file in comment'')
          else if c = CHR ''s'' then Inr f
          else per f (''expected '' @ quoted ''c'' @ '' or '' @ quoted ''s''))"
  by pat_completeness auto
termination
proof (relation "measure (\<lambda>f. length (pf_rest f))", goal_cases)
  case (2 f ch g c found k)
  then have "parse_char f = (Some c, g)" "skip_to_newline g = (found, k)" by simp_all
  from parse_char_shorter [OF this(1)] skip_to_newline_le [OF this(2)] show ?case by simp
qed simp

declare sol_comments.simps [simp del]

definition parse_solution :: "int \<Rightarrow> pfile \<Rightarrow> (sol \<times> pfile) res" where
  "parse_solution max_var f =
     bind_res (sol_comments f) (\<lambda>f.
     bind_res (parse_string '' SATISFIABLE'' (CHR ''s'') f) (\<lambda>f.
     case parse_char f of (ch, f) \<Rightarrow>
     case (if ch = Some CR then parse_char f else (ch, f)) of (ch, f) \<Rightarrow>
     if ch \<noteq> Some newline then per f (''expected new-line after '' @ quoted ''s SATISFIABLE'')
     else sol_lines (sol_init max_var) f))"

section \<open>Gate variables\<close>

record aux_counts =
  NUM_EQV :: nat
  NUM_DEF :: nat
  NUM_ITE :: nat
  NUM_AND :: nat
  NUM_XOR :: nat
  NUM_FUL :: nat
  NUM_OR :: nat
  NUM_TRI :: nat
  NUM_GEN :: nat

definition counts_zero :: aux_counts where
  "counts_zero =
     \<lparr>NUM_EQV = 0, NUM_DEF = 0, NUM_ITE = 0, NUM_AND = 0, NUM_XOR = 0, NUM_FUL = 0, NUM_OR = 0,
      NUM_TRI = 0, NUM_GEN = 0\<rparr>"

text \<open>The chain of \<open>parse_char () == ... &&\<close> behind the first letter of a gate type.\<close>

fun expect_chars :: "string \<Rightarrow> pfile \<Rightarrow> bool \<times> pfile" where
  "expect_chars [] f = (True, f)"
| "expect_chars (p # ps) f =
     (case parse_char f of (ch, f) \<Rightarrow> if ch = Some p then expect_chars ps f else (False, f))"

definition type_error :: "nat \<Rightarrow> pfile \<Rightarrow> 'a res" where
  "type_error line f = per f (''Syntax error on line '' @ show_nat line @ '', invalid gate type.'')"

text \<open>The \<open>switch\<close> over the first letter; any other letter is accepted.\<close>

definition gate_letters :: "char option \<Rightarrow> (string \<times> (aux_counts \<Rightarrow> aux_counts)) option" where
  "gate_letters ch =
     (if ch = Some (CHR ''A'') then Some (''ND'', \<lambda>n. n\<lparr>NUM_AND := NUM_AND n + 1\<rparr>)
      else if ch = Some (CHR ''F'') then Some (''UL'', \<lambda>n. n\<lparr>NUM_FUL := NUM_FUL n + 1\<rparr>)
      else if ch = Some (CHR ''O'') then Some (''R'', \<lambda>n. n\<lparr>NUM_OR := NUM_OR n + 1\<rparr>)
      else if ch = Some (CHR ''T'') then Some (''RI'', \<lambda>n. n\<lparr>NUM_TRI := NUM_TRI n + 1\<rparr>)
      else if ch = Some (CHR ''G'') then Some (''EN'', \<lambda>n. n\<lparr>NUM_GEN := NUM_GEN n + 1\<rparr>)
      else if ch = Some (CHR ''E'') then Some (''QV'', \<lambda>n. n\<lparr>NUM_EQV := NUM_EQV n + 1\<rparr>)
      else if ch = Some (CHR ''X'') then Some (''OR'', \<lambda>n. n\<lparr>NUM_XOR := NUM_XOR n + 1\<rparr>)
      else if ch = Some (CHR ''D'') then Some (''EF'', \<lambda>n. n\<lparr>NUM_DEF := NUM_DEF n + 1\<rparr>)
      else if ch = Some (CHR ''I'') then Some (''TE'', \<lambda>n. n\<lparr>NUM_ITE := NUM_ITE n + 1\<rparr>)
      else None)"

definition parse_gate_type :: "nat \<Rightarrow> aux_counts \<Rightarrow> pfile \<Rightarrow> (aux_counts \<times> pfile) res" where
  "parse_gate_type line n f =
     (case parse_char f of (ch, f) \<Rightarrow>
      case gate_letters ch of
        None \<Rightarrow> Inr (n, f)
      | Some (letters, upd) \<Rightarrow>
          (case expect_chars letters f of (ok, f) \<Rightarrow>
             if ok then Inr (upd n, f) else type_error line f))"

text \<open>
  A line with a number: the variable joins the set (\<open>External::add_aux\<close>), then the gate type is
  read.  The set is a list in the order of the calls; after an error the solver is not run.
\<close>

definition parse_aux_line ::
  "char option \<Rightarrow> nat \<Rightarrow> int list \<Rightarrow> aux_counts \<Rightarrow> pfile \<Rightarrow> (int list \<times> aux_counts \<times> pfile) res" where
  "parse_aux_line ch line aux n f =
     bind_res (parse_positive_int ''<aux>'' ch f) (\<lambda>(ch, curr_aux, f).
     let aux = aux @ [curr_aux] in
     bind_res (parse_gate_type line n f) (\<lambda>(n, f).
     case parse_char f of (ch, f) \<Rightarrow>
       if ch \<noteq> Some newline then type_error line f else Inr (aux, n, f)))"

lemma parse_positive_int_le:
  "parse_positive_int name ch f = Inr (c, n, g) \<Longrightarrow> length (pf_rest g) \<le> length (pf_rest f)"
  by (auto simp: parse_positive_int_def dest: digits_loop_le)

lemma expect_chars_le: "expect_chars ps f = (b, g) \<Longrightarrow> length (pf_rest g) \<le> length (pf_rest f)"
proof (induction ps arbitrary: f)
  case (Cons p ps)
  obtain ch h where pc: "parse_char f = (ch, h)" by (cases "parse_char f")
  with Cons parse_char_le [OF pc] show ?case by (fastforce split: if_splits)
qed simp

lemma parse_gate_type_le:
  assumes "parse_gate_type line n f = Inr (m, g)"
  shows "length (pf_rest g) \<le> length (pf_rest f)"
proof -
  obtain ch h where pc: "parse_char f = (ch, h)" by (cases "parse_char f")
  show ?thesis
  proof (cases "gate_letters ch")
    case None
    with assms pc parse_char_le [OF pc] show ?thesis by (simp add: parse_gate_type_def)
  next
    case (Some x)
    then obtain ls c where x: "gate_letters ch = Some (ls, c)" by (cases x) auto
    obtain ok k where e: "expect_chars ls h = (ok, k)" by (cases "expect_chars ls h")
    from assms pc x e have "g = k"
      by (simp add: parse_gate_type_def type_error_def per_def split: if_splits)
    with parse_char_le [OF pc] expect_chars_le [OF e] show ?thesis by simp
  qed
qed

lemma parse_aux_line_le:
  assumes "parse_aux_line ch line aux n f = Inr (aux', m, g)"
  shows "length (pf_rest g) \<le> length (pf_rest f)"
proof -
  obtain c i f1 where p: "parse_positive_int ''<aux>'' ch f = Inr (c, i, f1)"
    using assms by (auto simp: parse_aux_line_def bind_res_eq_Inr)
  obtain n1 f2 where t: "parse_gate_type line n f1 = Inr (n1, f2)"
    using assms p by (auto simp: parse_aux_line_def bind_res_eq_Inr Let_def)
  obtain c3 f3 where pc: "parse_char f2 = (c3, f3)" by (cases "parse_char f2")
  have "g = f3"
    using assms p t pc by (simp add: parse_aux_line_def type_error_def per_def Let_def split: if_splits)
  with parse_positive_int_le [OF p] parse_gate_type_le [OF t] parse_char_le [OF pc] show ?thesis by simp
qed

function aux_loop :: "nat \<Rightarrow> int list \<Rightarrow> aux_counts \<Rightarrow> pfile \<Rightarrow> (int list \<times> aux_counts \<times> pfile) res" where
  "aux_loop line aux n f =
     (case parse_char f of
        (None, f) \<Rightarrow> Inr (aux, n, f)
      | (Some c, f) \<Rightarrow>
          if blank (Some c) then aux_loop line aux n f
          else if is_digit c then
            bind_res (parse_aux_line (Some c) line aux n f) (\<lambda>(aux, n, f). aux_loop (line + 1) aux n f)
          else per f (''Syntax error on line '' @ show_nat line))"
  by pat_completeness auto
termination
proof (relation "measure (\<lambda>x. length (pf_rest (snd (snd (snd x)))))", goal_cases)
  case (2 line aux n f ch g c)
  then have "parse_char f = (Some c, g)" by simp
  from parse_char_shorter [OF this] show ?case by simp
next
  case (3 line aux n f ch g c x aux' y n' k)
  then have "parse_char f = (Some c, g)" "parse_aux_line (Some c) line aux n g = Inr (aux', n', k)"
    by simp_all
  from parse_char_shorter [OF this(1)] parse_aux_line_le [OF this(2)] show ?case by simp
qed simp

declare aux_loop.simps [simp del]

definition parse_aux :: "pfile \<Rightarrow> (int list \<times> aux_counts) res" where
  "parse_aux f = bind_res (aux_loop 1 [] counts_zero f) (\<lambda>(aux, n, f). Inr (aux, n))"

end
