(* ===== verification/Parser_Theorems.thy ===== *)
theory Parser_Theorems
  imports Dimacs_Reader Aux_Parser Gate_Theorems
begin

text \<open>
  What CaDiCaL's parsers do with the files the tools print: DIMACS formulas, and the list of
  gate variables of \<open>GateStats\<close>.  All the lemmas are about a file at a given position.
\<close>

section \<open>Files at a position\<close>

definition pf :: "string \<Rightarrow> nat \<Rightarrow> string \<Rightarrow> pfile" where
  "pf nm n cs = \<lparr>pf_name = nm, pf_line = n, pf_rest = cs\<rparr>"

lemma parse_char_pf [simp]:
  "parse_char (pf nm n []) = (None, pf nm n [])"
  "parse_char (pf nm n (c # cs)) = (Some c, pf nm (if c = newline then n + 1 else n) cs)"
  by (simp_all add: parse_char_def pf_def)

lemma per_pf: "per (pf nm n cs) msg = per (pf nm n []) msg"
  by (simp add: per_def pf_def)

lemma is_dig_simps [simp]: "is_dig None = False" "is_dig (Some c) = is_digit c"
  by (simp_all add: is_dig_def)

lemma dig_Some [simp]: "dig (Some c) = int (digit_val c)"
  by (simp add: dig_def)

lemma digit_not [simp]: "is_digit c \<Longrightarrow> c \<noteq> newline"
  by (auto simp: is_digit_def)

section \<open>Numbers\<close>

lemma digits_loop_eq:
  assumes "list_all is_digit ds" and "number_end rs" and "int k \<le> INT_MAX"
  shows "digits_loop msg (int k) (pf nm n (ds @ rs)) =
    (if int (digits_val k ds) \<le> INT_MAX
     then case parse_char (pf nm n rs) of (ch, f) \<Rightarrow> Inr (ch, int (digits_val k ds), f)
     else per (pf nm n []) msg)"
  using assms
proof (induction ds arbitrary: k)
  case Nil
  then show ?case
    by (cases rs) (auto simp: digits_loop.simps [of msg "int k"] number_end_def)
next
  case (Cons d ds)
  let ?k = "10 * k + digit_val d"
  have lt: "digit_val d < 10" using Cons.prems(1) by (simp add: digit_val_less)
  have of: "INT_MAX div 10 < int k \<or> INT_MAX - int (digit_val d) < 10 * int k \<longleftrightarrow> \<not> int ?k \<le> INT_MAX"
    using lt by auto
  have step: "digits_loop msg (int k) (pf nm n ((d # ds) @ rs)) =
      (if \<not> int ?k \<le> INT_MAX then per (pf nm n (ds @ rs)) msg
       else digits_loop msg (int ?k) (pf nm n (ds @ rs)))"
    using Cons.prems(1)
    unfolding of [symmetric] using Cons.prems(1)
    by (subst digits_loop.simps) (simp add: Let_def)
  show ?case
  proof (cases "int ?k \<le> INT_MAX")
    case True
    with Cons.prems have "digits_loop msg (int ?k) (pf nm n (ds @ rs)) =
        (if int (digits_val ?k ds) \<le> INT_MAX
         then case parse_char (pf nm n rs) of (ch, f) \<Rightarrow> Inr (ch, int (digits_val ?k ds), f)
         else per (pf nm n []) msg)"
      by (intro Cons.IH) auto
    with True step show ?thesis by simp
  next
    case False
    then have "\<not> int (digits_val ?k ds) \<le> INT_MAX"
      using digits_val_mono [of ?k ds] by linarith
    with False step show ?thesis by (simp add: per_pf [of nm n "ds @ rs"])
  qed
qed

text \<open>C27. \<open>parse_positive_int\<close> reads exactly the numbers up to \<open>INT_MAX\<close>: its test before the
  multiplication neither lets a larger number through nor rejects one that fits.\<close>

theorem parse_positive_int_exact:
  assumes "list_all is_digit (d # ds)" and "number_end rs"
  shows "parse_positive_int name (Some d) (pf nm n (ds @ rs)) =
    (if int (digits_val 0 (d # ds)) \<le> INT_MAX
     then case parse_char (pf nm n rs) of (ch, f) \<Rightarrow> Inr (ch, int (digits_val 0 (d # ds)), f)
     else per (pf nm n []) (''too large '' @ quote @ name @ quote @ '' in header''))"
proof -
  have "digit_val d < 10" using assms(1) by (simp add: digit_val_less)
  with assms digits_loop_eq [of ds rs "digit_val d" _ nm n] show ?thesis
    by (simp add: parse_positive_int_def)
qed

theorem parse_positive_int_exact_witness:
  "parse_positive_int ''<aux>'' (Some (CHR ''4'')) (pf ''f'' 1 (''2'' @ '' AND'')) =
    (if int (digits_val 0 ''42'') \<le> INT_MAX
     then case parse_char (pf ''f'' 1 '' AND'') of (ch, f) \<Rightarrow> Inr (ch, int (digits_val 0 ''42''), f)
     else per (pf ''f'' 1 []) (''too large '' @ quote @ ''<aux>'' @ quote @ '' in header''))"
  by (rule parse_positive_int_exact) (simp_all add: is_digit_def)

lemma show_nat_split: "\<exists>d ds. show_nat n = d # ds \<and> list_all is_digit (d # ds)"
  using show_nat_digits [of _ n] by (cases "show_nat n") (auto simp: list_all_iff)

lemma parse_number:
  assumes "show_nat k @ rs = d # cs" and "int k \<le> INT_MAX" and "number_end rs"
  shows "is_digit d" and "digits_loop msg (dig (Some d)) (pf nm n cs) =
      (case parse_char (pf nm n rs) of (ch, f) \<Rightarrow> Inr (ch, int k, f))"
proof -
  obtain d' ds where k: "show_nat k = d' # ds" "list_all is_digit (d' # ds)"
    using show_nat_split by blast
  with assms(1) have cs: "d' = d" "cs = ds @ rs" by auto
  with k show "is_digit d" by simp
  have v: "digits_val (digit_val d) ds = k"
    using digits_val_show_nat [of k] k(1) cs(1) by simp
  have "digit_val d < 10" using \<open>is_digit d\<close> by (rule digit_val_less)
  then show "digits_loop msg (dig (Some d)) (pf nm n cs) =
      (case parse_char (pf nm n rs) of (ch, f) \<Rightarrow> Inr (ch, int k, f))"
    using digits_loop_eq [of ds rs "digit_val d" msg nm n] k cs v assms(2,3) by simp
qed

lemma parse_lit_show:
  assumes x: "show_int x @ t # rs = d # cs" and t: "t = CHR '' '' \<or> t = newline"
    and "\<bar>x\<bar> \<le> INT_MAX" and "strict = FORCED \<or> \<bar>x\<bar> \<le> vars"
  shows "parse_lit strict (Some d) vars (pf nm n cs)
    = Inr (Some t, x, max vars \<bar>x\<bar>, pf nm (if t = newline then n + 1 else n) rs)"
proof -
  define k where "k = nat \<bar>x\<bar>"
  have k: "int k = \<bar>x\<bar>" "int k \<le> INT_MAX" "vars < int k \<longrightarrow> strict = FORCED"
    using assms(3,4) by (auto simp: k_def)
  have ne: "number_end (t # rs)" using t by (auto simp: number_end_def)
  have fin: "lit_end strict vars (if x < 0 then - 1 else 1) (int k) (Some t)
      (pf nm (if t = newline then n + 1 else n) rs)
      = Inr (Some t, x, max vars \<bar>x\<bar>, pf nm (if t = newline then n + 1 else n) rs)"
    using t k by (auto simp: lit_end_def)
  show ?thesis
  proof (cases "x < 0")
    case True
    then have x': "d = CHR ''-''" "cs = show_nat k @ t # rs"
      using x by (auto simp: show_int_def k_def)
    obtain d' cs' where s: "show_nat k @ t # rs = d' # cs'"
      by (cases "show_nat k @ t # rs") auto
    note N = parse_number [OF s k(2) ne]
    have "d' \<noteq> newline" using N(1) by simp
    with N x' s fin True show ?thesis by (simp add: parse_lit_def parse_sign_def)
  next
    case False
    then have s: "show_nat k @ t # rs = d # cs" using x by (simp add: show_int_def k_def)
    note N = parse_number [OF s k(2) ne]
    have "d \<noteq> CHR ''a''" "d \<noteq> CHR ''-''" using N(1) by (auto simp: is_digit_def)
    with N fin False show ?thesis by (simp add: parse_lit_def parse_sign_def)
  qed
qed

section \<open>Clause lines\<close>

text \<open>A literal of a clause line that starts the rest of the file.\<close>

definition lit_start :: "char \<Rightarrow> bool" where
  "lit_start d \<longleftrightarrow> is_digit d \<or> d = CHR ''-''"

lemma lit_start_show: "show_int x @ rs = d # cs \<Longrightarrow> lit_start d"
proof -
  assume "show_int x @ rs = d # cs"
  then have "hd (show_int x) = d" using show_int_hd_not_space(2) [of x] by (cases "show_int x") auto
  then show ?thesis using show_nat_hd by (auto simp: lit_start_def show_int_def split: if_splits)
qed

lemma lit_start_simps:
  "lit_start d \<Longrightarrow> \<not> ws (Some d) \<and> d \<noteq> CHR ''c'' \<and> d \<noteq> CHR ''a'' \<and> d \<noteq> newline"
  by (auto simp: lit_start_def ws_def is_digit_def)

definition add_lit :: "header \<Rightarrow> int \<Rightarrow> body \<Rightarrow> body" where
  "add_lit h lit b =
     b\<lparr>b_lit := lit, b_added := b_added b @ [lit],
       b_parsed := (if \<not> hd_inccnf h \<and> lit = 0 then b_parsed b + 1 else b_parsed b)\<rparr>"

lemma body_loop_lit:
  assumes t: "t = CHR '' '' \<or> t = newline" and "\<bar>x\<bar> \<le> INT_MAX" and "\<bar>x\<bar> \<le> b_vars b"
    and "x = 0 \<Longrightarrow> b_parsed b < hd_clauses h"
  shows "body_loop h b (pf nm n (show_int x @ t # rs))
    = body_loop h (add_lit h x b) (pf nm (if t = newline then n + 1 else n) rs)"
proof -
  obtain d cs where x: "show_int x @ t # rs = d # cs" by (cases "show_int x @ t # rs") auto
  have d: "\<not> ws (Some d)" "d \<noteq> CHR ''c''" "d \<noteq> CHR ''a''" "d \<noteq> newline"
    using lit_start_simps [OF lit_start_show [OF x]] by simp_all
  have "t \<noteq> CHR ''c''" using t by auto
  moreover have "max (b_vars b) \<bar>x\<bar> = b_vars b" using assms(3) by simp
  ultimately have "body_lit h (Some d) b (pf nm n cs)
      = Inr (add_lit h x b, pf nm (if t = newline then n + 1 else n) rs)"
    using parse_lit_show [OF x t assms(2), of "hd_strict h" "b_vars b" nm n] assms(3,4)
    by (auto simp: body_lit_def skip_lit_comment_def add_lit_def Let_def)
  with d x show ?thesis by (subst body_loop.simps) simp
qed

definition lits_ok :: "int \<Rightarrow> int list \<Rightarrow> bool" where
  "lits_ok nv c \<longleftrightarrow> list_all (\<lambda>x. x \<noteq> 0 \<and> \<bar>x\<bar> \<le> nv) c"

lemma add_lit_fields [simp]:
  "b_vars (add_lit h x b) = b_vars b" "b_added (add_lit h x b) = b_added b @ [x]"
  "b_lit (add_lit h x b) = x"
  "b_parsed (add_lit h x b) = (if \<not> hd_inccnf h \<and> x = 0 then b_parsed b + 1 else b_parsed b)"
  by (simp_all add: add_lit_def)

lemma body_loop_clause:
  assumes "lits_ok (b_vars b) c" and "0 \<le> b_vars b" and "b_vars b \<le> INT_MAX" and "b_parsed b < hd_clauses h"
  shows "body_loop h b (pf nm n (clause_line c @ rs))
    = body_loop h (fold (add_lit h) (c @ [0]) b) (pf nm (n + 1) rs)"
  using assms
proof (induction c arbitrary: b)
  case Nil
  have "clause_line [] @ rs = show_int 0 @ newline # rs" by (simp add: clause_line_def show_int_0)
  with Nil body_loop_lit [of newline 0 b h nm n rs] show ?case by simp
next
  case (Cons x c)
  have split: "clause_line (x # c) @ rs = show_int x @ CHR '' '' # clause_line c @ rs"
    by (simp add: clause_line_def)
  have x: "x \<noteq> 0" "\<bar>x\<bar> \<le> b_vars b" using Cons.prems(1) by (simp_all add: lits_ok_def)
  have "body_loop h b (pf nm n (clause_line (x # c) @ rs))
      = body_loop h (add_lit h x b) (pf nm n (clause_line c @ rs))"
    unfolding split using body_loop_lit [of "CHR '' ''" x b h nm n "clause_line c @ rs"] x Cons.prems by simp
  also have "\<dots> = body_loop h (fold (add_lit h) (c @ [0]) (add_lit h x b)) (pf nm (n + 1) rs)"
    using Cons.prems x by (intro Cons.IH) (auto simp: lits_ok_def)
  finally show ?case by simp
qed

lemma fold_add_lit:
  "b_vars (fold (add_lit h) xs b) = b_vars b"
  "b_added (fold (add_lit h) xs b) = b_added b @ xs"
  "b_parsed (fold (add_lit h) xs b)
    = b_parsed b + (if hd_inccnf h then 0 else int (length (filter ((=) 0) xs)))"
  by (induction xs arbitrary: b) auto

lemma lits_ok_nonzero: "lits_ok nv c \<Longrightarrow> filter ((=) 0) c = []"
  by (auto simp: lits_ok_def list_all_iff filter_empty_conv)

lemma body_loop_clauses:
  assumes "list_all (lits_ok (b_vars b)) cls" and "0 \<le> b_vars b" and "b_vars b \<le> INT_MAX"
    and "\<not> hd_inccnf h" and "b_parsed b + int (length cls) \<le> hd_clauses h"
  shows "body_loop h b (pf nm n (concat (map clause_line cls)))
    = Inr (None, fold (add_lit h) (concat (map (\<lambda>c. c @ [0]) cls)) b, pf nm (n + length cls) [])"
  using assms
proof (induction cls arbitrary: b n)
  case Nil
  then show ?case by (subst body_loop.simps) simp
next
  case (Cons c cls)
  let ?b = "fold (add_lit h) (c @ [0]) b"
  have c: "lits_ok (b_vars b) c" using Cons.prems by simp
  have b: "b_vars ?b = b_vars b" "b_parsed ?b = b_parsed b + 1"
    using Cons.prems lits_ok_nonzero [OF c] by (simp_all only: fold_add_lit) simp_all
  have "body_loop h b (pf nm n (concat (map clause_line (c # cls))))
      = body_loop h ?b (pf nm (n + 1) (concat (map clause_line cls)))"
    using body_loop_clause [OF c, of h nm n "concat (map clause_line cls)"] Cons.prems by simp
  also have "\<dots> = Inr (None, fold (add_lit h) (concat (map (\<lambda>c. c @ [0]) cls)) ?b,
      pf nm (n + 1 + length cls) [])"
    using Cons.prems b by (intro Cons.IH) auto
  finally show ?case by simp
qed

section \<open>The header line\<close>

lemma read_number:
  assumes "show_nat k @ t # rs = d # cs" and "int k \<le> INT_MAX" and "\<not> is_digit t"
  shows "is_digit d" and "d \<noteq> newline"
    and "parse_positive_int name (Some d) (pf nm n cs)
      = Inr (Some t, int k, pf nm (if t = newline then n + 1 else n) rs)"
proof -
  have "number_end (t # rs)" using assms(3) by (simp add: number_end_def)
  note N = parse_number [OF assms(1,2) this]
  show "is_digit d" by (rule N(1))
  then show "d \<noteq> newline" by simp
  show "parse_positive_int name (Some d) (pf nm n cs)
      = Inr (Some t, int k, pf nm (if t = newline then n + 1 else n) rs)"
    using N(2) [of "''too large '' @ quote @ name @ quote @ '' in header''" nm n] by (simp add: parse_positive_int_def)
qed

lemma is_sp_simps [simp]: "is_sp (Some c) = is_space c" "is_sp None = False"
  by (simp_all add: is_sp_def)

lemma cnf_header_ok:
  fixes rs :: string
  assumes "int v \<le> INT_MAX" and "int k \<le> INT_MAX"
  defines "cs \<equiv> ''nf '' @ show_nat v @ CHR '' '' # show_nat k @ newline # rs"
  shows "strict_cnf_header (pf nm n cs) = Inr (int v, int k, pf nm (n + 1) rs)"
    and "relaxed_cnf_header (pf nm n cs) = Inr (int v, int k, pf nm (n + 1) rs)"
proof -
  obtain d1 cs1 where v: "show_nat v @ CHR '' '' # show_nat k @ newline # rs = d1 # cs1"
    by (cases "show_nat v @ CHR '' '' # show_nat k @ newline # rs") auto
  obtain d2 cs2 where k: "show_nat k @ newline # rs = d2 # cs2"
    by (cases "show_nat k @ newline # rs") auto
  note V = read_number [OF v assms(1) is_digit_space(1)]
  note K = read_number [OF k assms(2) is_digit_space(2)]
  have cs: "cs = CHR ''n'' # CHR ''f'' # CHR '' '' # d1 # cs1" using v by (simp add: cs_def)
  have V3: "parse_positive_int name (Some d1) (pf nm n cs1) = Inr (Some (CHR '' ''), int v, pf nm n (d2 # cs2))" for name
    using V(3) [of name nm n] k by simp
  note K3 = K(3) [of _ nm n]
  show "strict_cnf_header (pf nm n cs) = Inr (int v, int k, pf nm (n + 1) rs)"
    using V(1,2) V3 K(1,2) K3 by (simp add: cs strict_cnf_header_def digits_at_def)
  have sp: "\<not> is_space d1" "\<not> is_space d2" using V(1) K(1) by (simp_all add: digit_not_space)
  have nx: "next_not is_sp (pf nm n (d1 # cs1)) = (Some d1, pf nm n cs1)"
    "next_not is_sp (pf nm n (d2 # cs2)) = (Some d2, pf nm n cs2)"
    using sp V(2) K(2) by (simp_all add: next_not.simps)
  have rh: "rest_of_header msg (Some newline) (pf nm (n + 1) rs) = Inr (pf nm (n + 1) rs)" for msg
    by (subst rest_of_header.simps) simp
  have cs': "parse_char (pf nm n cs) = (Some (CHR ''n''), pf nm n (CHR ''f'' # CHR '' '' # d1 # cs1))"
    by (simp add: cs)
  show "relaxed_cnf_header (pf nm n cs) = Inr (int v, int k, pf nm (n + 1) rs)"
    using V(1) V3 K(1) K3 nx rh unfolding relaxed_cnf_header_def cs' digits_at_def by simp
qed

lemma parse_header_ok:
  assumes "int v \<le> INT_MAX" and "int k \<le> INT_MAX"
  shows "parse_header strict inccnf (pf nm n ('' cnf '' @ show_nat v @ CHR '' '' # show_nat k @ newline # rs))
    = Inr (\<lparr>hd_strict = strict, hd_inccnf = False, hd_vars = int v, hd_clauses = int k,
            hd_reserved = (if strict \<noteq> FORCED then [int v] else [])\<rparr>, pf nm (n + 1) rs)"
proof -
  define cs where "cs = ''nf '' @ show_nat v @ CHR '' '' # show_nat k @ newline # rs"
  have split: "'' cnf '' @ show_nat v @ CHR '' '' # show_nat k @ newline # rs = CHR '' '' # CHR ''c'' # cs"
    by (simp add: cs_def)
  have "after_p strict (pf nm n (CHR '' '' # CHR ''c'' # cs)) = Inr (Some (CHR ''c''), pf nm n cs)"
    by (simp add: after_p_def blank_def next_not.simps)
  moreover have "(if strict = STRICT then strict_cnf_header (pf nm n cs) else relaxed_cnf_header (pf nm n cs))
      = Inr (int v, int k, pf nm (n + 1) rs)"
    using cnf_header_ok [OF assms, of nm n rs] by (simp add: cs_def)
  ultimately show ?thesis unfolding split parse_header_def by simp
qed

lemma show_int_nat: "show_int (int n) = show_nat n"
  by (simp add: show_int_def)

text \<open>C24. CaDiCaL accepts every printed formula in all three modes of strictness, reads the header
  as printed, reports no option, and adds exactly the literals of the clauses, each clause closed by
  a 0; it agrees with the reader of the gate tools on the same text (\<open>read_file_dimacs_text\<close>).\<close>

theorem parse_dimacs_dimacs_text:
  assumes "int nv \<le> INT_MAX" and "int (length cls) \<le> INT_MAX" and "list_all (lits_ok (int nv)) cls"
  shows "parse_dimacs inccnf cubes strict (pf nm n (dimacs_text (int nv) cls)) =
    Inr (\<lparr>dm_options = [], dm_reserved = (if strict \<noteq> FORCED then [int nv] else []),
          dm_added = concat (map (\<lambda>c. c @ [0]) cls), dm_vars = int nv,
          dm_inccnf = (case inccnf of None \<Rightarrow> None | Some _ \<Rightarrow> Some False), dm_cubes = cubes\<rparr>,
         pf nm (n + 1 + length cls) [])"
proof -
  let ?ls = "concat (map clause_line cls)"
  let ?cs = "'' cnf '' @ show_nat nv @ CHR '' '' # show_nat (length cls) @ newline # ?ls"
  have printed: "dimacs_text (int nv) cls = CHR ''p'' # ?cs"
    by (simp add: dimacs_text_def header_line_def show_int_nat)
  have hc: "header_comments strict [] (pf nm n (CHR ''p'' # ?cs)) = Inr (Some (CHR ''p''), [], pf nm n ?cs)"
    by (subst header_comments.simps) (simp add: ws_def)
  let ?h = "\<lparr>hd_strict = strict, hd_inccnf = False, hd_vars = int nv, hd_clauses = int (length cls),
            hd_reserved = (if strict \<noteq> FORCED then [int nv] else [])\<rparr>"
  let ?b = "\<lparr>b_vars = int nv, b_lit = 0, b_parsed = 0, b_added = []\<rparr>"
  let ?xs = "concat (map (\<lambda>c. c @ [0]) cls)"
  let ?e = "fold (add_lit ?h) ?xs ?b"
  have bl: "body_loop ?h ?b (pf nm (n + 1) ?ls) = Inr (None, ?e, pf nm (n + 1 + length cls) [])"
    using assms by (intro body_loop_clauses) auto
  have last: "b_lit ?e = 0"
  proof (cases cls rule: rev_cases)
    case (snoc xs x)
    then show ?thesis by simp
  qed simp
  have "filter ((=) 0) ?xs = concat (map (\<lambda>c. filter ((=) 0) (c @ [0])) cls)"
    by (simp add: filter_concat comp_def)
  also have "\<dots> = replicate (length cls) 0"
    using assms(3) by (induction cls) (auto simp: lits_ok_nonzero)
  finally have cnt: "b_parsed ?e = int (length cls)" by (simp add: fold_add_lit)
  show ?thesis
    unfolding printed parse_dimacs_def hc using parse_header_ok [OF assms(1,2), of strict inccnf nm n ?ls] bl last cnt
    by (cases inccnf) (simp_all add: fold_add_lit Let_def)
qed

theorem parse_dimacs_dimacs_text_witness:
  "parse_dimacs None None STRICT (pf ''f'' 1 (dimacs_text (int (3 :: nat)) [[1, - 2], [], [3, 2]])) =
    Inr (\<lparr>dm_options = [], dm_reserved = (if STRICT \<noteq> FORCED then [int (3 :: nat)] else []),
          dm_added = concat (map (\<lambda>c. c @ [0]) [[1, - 2], [], [3, 2]]), dm_vars = int (3 :: nat),
          dm_inccnf = (case (None :: bool option) of None \<Rightarrow> None | Some _ \<Rightarrow> Some False), dm_cubes = None\<rparr>,
         pf ''f'' (1 + 1 + length [[1, - 2], [], [3, 2 :: int]]) [])"
  by (rule parse_dimacs_dimacs_text ) (simp_all add: lits_ok_def)

section \<open>The list of gate variables\<close>

definition count_gate :: "gate_type \<Rightarrow> aux_counts \<Rightarrow> aux_counts" where
  "count_gate ty n =
     (case ty of NONE \<Rightarrow> n | MONO \<Rightarrow> n | GENERIC \<Rightarrow> n\<lparr>NUM_GEN := NUM_GEN n + 1\<rparr>
      | AND \<Rightarrow> n\<lparr>NUM_AND := NUM_AND n + 1\<rparr> | OR \<Rightarrow> n\<lparr>NUM_OR := NUM_OR n + 1\<rparr>
      | TRIV \<Rightarrow> n\<lparr>NUM_TRI := NUM_TRI n + 1\<rparr> | EQIV \<Rightarrow> n\<lparr>NUM_EQV := NUM_EQV n + 1\<rparr>
      | FULL \<Rightarrow> n\<lparr>NUM_FUL := NUM_FUL n + 1\<rparr>)"

lemma parse_gate_type_tag:
  assumes "type_tag ty = Some tag"
  shows "parse_gate_type line n (pf nm k (tag @ rs)) = Inr (count_gate ty n, pf nm k rs)"
  using assms
  by (cases ty) (auto simp: type_tag_def parse_gate_type_def gate_letters_def count_gate_def)

lemma aux_loop_line:
  assumes "type_tag ty = Some tag" and "int i \<le> INT_MAX"
  shows "aux_loop line aux n (pf nm k (show_nat i @ '' '' @ tag @ [newline] @ rs))
    = aux_loop (line + 1) (aux @ [int i]) (count_gate ty n) (pf nm (k + 1) rs)"
proof -
  let ?rs = "tag @ newline # rs"
  obtain d cs where i: "show_nat i @ CHR '' '' # ?rs = d # cs"
    by (cases "show_nat i @ CHR '' '' # ?rs") auto
  note N = read_number [OF i assms(2) is_digit_space(1)]
  have "parse_aux_line (Some d) line aux n (pf nm k cs)
      = Inr (aux @ [int i], count_gate ty n, pf nm (k + 1) rs)"
    using N(3) [of "''<aux>''" nm k] parse_gate_type_tag [OF assms(1), of line n nm k "newline # rs"]
    by (simp add: parse_aux_line_def)
  moreover have "\<not> blank (Some d)" using N(1) by (auto simp: blank_def is_digit_def)
  ultimately show ?thesis using i N(1,2) by (subst aux_loop.simps) simp
qed

lemma aux_loop_lines:
  assumes "list_all (\<lambda>i. int i \<le> INT_MAX) is"
  shows "\<exists>k. aux_loop line aux n (pf nm m (concat (map (aux_line g) is)))
    = Inr (aux @ map int (filter (\<lambda>i. type_tag (gtype (gates g ! i)) \<noteq> None) is),
           fold (\<lambda>i. count_gate (gtype (gates g ! i))) is n, pf nm k [])"
  using assms
proof (induction "is" arbitrary: line aux n m)
  case Nil
  then show ?case by (auto simp: aux_loop.simps)
next
  case (Cons i "is")
  let ?ty = "gtype (gates g ! i)"
  let ?rs = "concat (map (aux_line g) is)"
  show ?case
  proof (cases "type_tag ?ty")
    case None
    then have "aux_line g i = []" "count_gate ?ty n = n"
      by (auto simp: aux_line_def type_tag_def count_gate_def split: gate_type.splits)
    with Cons None show ?thesis by simp
  next
    case (Some tag)
    then have "aux_line g i @ ?rs = show_nat i @ '' '' @ tag @ [newline] @ ?rs" by (simp add: aux_line_def)
    then have "aux_loop line aux n (pf nm m (concat (map (aux_line g) (i # is))))
        = aux_loop (line + 1) (aux @ [int i]) (count_gate ?ty n) (pf nm (m + 1) ?rs)"
      using aux_loop_line [OF Some, of i line aux n nm m ?rs] Cons.prems by simp
    moreover have "list_all (\<lambda>i. int i \<le> INT_MAX) is" using Cons.prems by simp
    ultimately show ?thesis
      using Cons.IH [of "line + 1" "aux @ [int i]" "count_gate ?ty n" "m + 1"] Some by simp
  qed
qed

lemma fold_count_gate:
  "fold (\<lambda>i. count_gate (gtype (gates g ! i))) is n =
    (let k = \<lambda>ty. length (filter (\<lambda>i. gtype (gates g ! i) = ty) is) in
     \<lparr>NUM_EQV = NUM_EQV n + k EQIV, NUM_DEF = NUM_DEF n, NUM_ITE = NUM_ITE n, NUM_AND = NUM_AND n + k AND,
      NUM_XOR = NUM_XOR n, NUM_FUL = NUM_FUL n + k FULL, NUM_OR = NUM_OR n + k OR,
      NUM_TRI = NUM_TRI n + k TRIV, NUM_GEN = NUM_GEN n + k GENERIC\<rparr>)"
proof (induction "is" arbitrary: n)
  case (Cons i "is")
  then show ?case by (cases "gtype (gates g ! i)") (simp_all add: count_gate_def Let_def)
qed (simp add: Let_def)

text \<open>C26. The two programs agree on the file between them: what \<open>GateStats\<close> prints for the gates
  it finds is accepted by \<open>parse_aux\<close>, which marks exactly the variables with a recognised gate
  and counts every gate type as \<open>GateStats\<close> did.\<close>

theorem parse_aux_printed_gates:
  assumes "wf_cnf f" and "env_ok e Er" and "analyze_formula e vb f = Inr g"
    and "int (nVars f) \<le> INT_MAX" and "stats_of g (nVars f) junk = Inr (s, m)"
  shows "parse_aux (pf nm 1 (printed s)) =
    Inr (map int (aux_vars g (nVars f)),
         \<lparr>NUM_EQV = n_equiv s, NUM_DEF = 0, NUM_ITE = 0, NUM_AND = n_and s, NUM_XOR = 0,
          NUM_FUL = n_full s, NUM_OR = n_or s, NUM_TRI = n_triv s, NUM_GEN = n_generic s\<rparr>)"
proof -
  let ?is = "[1 ..< nVars f + 1]"
  note S = stats_of_ok [OF analyze_gates_bounded [OF assms(1-3)], of junk]
  have pr: "printed s = concat (map (aux_line g) ?is)"
    and cnt: "\<forall>ty. ty \<noteq> MONO \<longrightarrow> type_count s ty = length (filter (\<lambda>i. gtype (gates g ! i) = ty) ?is)"
    using S assms(5) by auto
  have "list_all (\<lambda>i. int i \<le> INT_MAX) ?is" using assms(4) by (auto simp: list_all_iff)
  from aux_loop_lines [OF this, of 1 "[]" counts_zero nm 1 g] obtain k where
    "aux_loop 1 [] counts_zero (pf nm 1 (printed s))
      = Inr (map int (aux_vars g (nVars f)), fold (\<lambda>i. count_gate (gtype (gates g ! i))) ?is counts_zero, pf nm k [])"
    unfolding pr aux_vars_def by auto
  moreover have "fold (\<lambda>i. count_gate (gtype (gates g ! i))) ?is counts_zero =
      \<lparr>NUM_EQV = n_equiv s, NUM_DEF = 0, NUM_ITE = 0, NUM_AND = n_and s, NUM_XOR = 0,
       NUM_FUL = n_full s, NUM_OR = n_or s, NUM_TRI = n_triv s, NUM_GEN = n_generic s\<rparr>"
    using cnt [rule_format, of EQIV] cnt [rule_format, of AND] cnt [rule_format, of FULL]
      cnt [rule_format, of OR] cnt [rule_format, of TRIV] cnt [rule_format, of GENERIC]
    unfolding fold_count_gate Let_def by (simp add: type_count_def counts_zero_def del: upt_Suc)
  ultimately show ?thesis by (simp add: parse_aux_def)
qed

theorem parse_aux_printed_gates_witness:
  "\<exists>s m. stats_of and_structure (nVars and_cnf) 0 = Inr (s, m)
    \<and> parse_aux (pf ''f'' 1 (printed s)) =
    Inr (map int (aux_vars and_structure (nVars and_cnf)),
         \<lparr>NUM_EQV = n_equiv s, NUM_DEF = 0, NUM_ITE = 0, NUM_AND = n_and s, NUM_XOR = 0,
          NUM_FUL = n_full s, NUM_OR = n_or s, NUM_TRI = n_triv s, NUM_GEN = n_generic s\<rparr>)"
proof -
  have n: "int (nVars and_cnf) \<le> INT_MAX" by (simp add: and_cnf_eq nVars_def)
  obtain s m where s: "stats_of and_structure (nVars and_cnf) 0 = Inr (s, m)"
    using stats_of_ok [OF analyze_gates_bounded [OF wf_and_cnf plain_env_ok analyze_and_cnf], of 0] by blast
  with parse_aux_printed_gates [OF wf_and_cnf plain_env_ok analyze_and_cnf n s] show ?thesis by blast
qed

text \<open>A comment line between two cubes is rejected: the line break that ends it is taken for
  the character that should start the next cube, although comments are skipped everywhere else.\<close>

theorem comment_behind_cube_rejected:
  assumes "newline \<notin> set ls"
  shows "cube_sep (pf nm n (newline # CHR ''c'' # ls @ newline # rs))
    = per (pf nm (n + 2) []) (''expected '' @ quoted ''a'' @ '' or end-of-file after zero'')"
proof -
  have sk: "skip_to_newline (pf nm k (ls @ newline # rs)) = (True, pf nm (k + 1) rs)" for k
    using assms
  proof (induction ls)
    case Nil
    show ?case by (subst skip_to_newline.simps) simp
  next
    case (Cons c ls)
    then show ?case by (subst skip_to_newline.simps) auto
  qed
  have "cube_sep (pf nm n (newline # CHR ''c'' # ls @ newline # rs))
      = cube_sep (pf nm (n + 1) (CHR ''c'' # ls @ newline # rs))"
    by (subst cube_sep.simps) (simp add: ws_def)
  also have "\<dots> = per (pf nm (n + 2) rs) (''expected '' @ quoted ''a'' @ '' or end-of-file after zero'')"
    by (subst cube_sep.simps) (simp add: ws_def sk)
  finally show ?thesis by (simp only: per_pf [of nm "n + 2" rs])
qed

theorem comment_behind_cube_rejected_witness:
  "cube_sep (pf ''f'' 3 (newline # CHR ''c'' # ''x'' @ newline # ''a 2 0''))
    = per (pf ''f'' (3 + 2) []) (''expected '' @ quoted ''a'' @ '' or end-of-file after zero'')"
  by (rule comment_behind_cube_rejected) simp

section \<open>Solutions\<close>

definition value_line :: "int list \<Rightarrow> string" where
  "value_line xs = ''v '' @ clause_line xs"

definition solution_text :: "int list \<Rightarrow> string" where
  "solution_text xs = ''s SATISFIABLE'' @ [newline] @ value_line xs"

definition store_lit :: "int \<Rightarrow> sol \<Rightarrow> sol" where
  "store_lit x s =
     s\<lparr>so_vals := (so_vals s)[nat \<bar>x\<bar> := (if x < 0 then - 1 else 1)], so_count := so_count s + 1\<rparr>"

lemma sol_line_step:
  assumes "x \<noteq> 0" and "\<bar>x\<bar> \<le> INT_MAX"
  shows "(case parse_char (pf nm n (show_int x @ CHR '' '' # rs)) of (ch, f) \<Rightarrow> sol_line ch lit s f) =
    bind_res (sol_lit x (s\<lparr>so_max_var := max (so_max_var s) \<bar>x\<bar>\<rparr>) (pf nm n rs)) (\<lambda>s.
      case parse_char (pf nm n rs) of (ch, f) \<Rightarrow>
        if ch = Some newline then Inr (x, s, f) else sol_line ch x s f)"
proof -
  obtain d cs where x: "show_int x @ CHR '' '' # rs = d # cs" by (cases "show_int x @ CHR '' '' # rs") auto
  have d: "\<not> blank (Some d)" "d \<noteq> newline"
    using lit_start_simps [OF lit_start_show [OF x]] by (auto simp: blank_def ws_def)
  have p: "parse_lit FORCED (Some d) (so_max_var s) (pf nm n cs)
      = Inr (Some (CHR '' ''), x, max (so_max_var s) \<bar>x\<bar>, pf nm n rs)"
    using parse_lit_show [OF x _ assms(2), of FORCED] by simp
  have "sol_line (Some (CHR '' '')) x s' (pf nm n rs) = (case parse_char (pf nm n rs) of (ch, f) \<Rightarrow>
        if ch = Some newline then Inr (x, s', f) else sol_line ch x s' f)" for s'
    by (subst sol_line.simps) (simp add: blank_def)
  with x d p assms(1) show ?thesis by (subst sol_line.simps) (simp add: Let_def)
qed

lemma clause_line_not_newline: "\<exists>d cs. clause_line xs @ rs = d # cs \<and> d \<noteq> newline"
proof -
  obtain d cs where "clause_line xs = d # cs" using clause_line_hd(1) [of xs] by (cases "clause_line xs") auto
  moreover from this have "d \<noteq> newline" using clause_line_hd(2) [of xs] by (auto simp: is_digit_def)
  ultimately show ?thesis by simp
qed

lemma sol_line_lits:
  assumes "int (length (so_vals s)) = so_max_var s + 1" and "so_max_var s \<le> INT_MAX"
    and "lits_ok (so_max_var s) xs" and "distinct (map abs xs)"
    and "\<And>x. x \<in> set xs \<Longrightarrow> so_vals s ! nat \<bar>x\<bar> = 0" and "0 \<le> so_max_var s"
  shows "(case parse_char (pf nm n (clause_line xs @ rs)) of (ch, f) \<Rightarrow> sol_line ch lit s f)
    = Inr (0, fold store_lit xs s, pf nm (n + 1) rs)"
  using assms
proof (induction xs arbitrary: s lit)
  case Nil
  have "show_int 0 @ newline # rs = CHR ''0'' # newline # rs" by (simp add: show_int_0)
  from parse_lit_show [OF this, of FORCED "so_max_var s" nm n] Nil.prems(6)
  show ?case by (subst sol_line.simps) (simp add: clause_line_def blank_def Let_def)
next
  case (Cons x xs)
  have x: "x \<noteq> 0" "\<bar>x\<bar> \<le> so_max_var s" using Cons.prems(3) by (simp_all add: lits_ok_def)
  have "nat \<bar>x\<bar> < length (so_vals s)" using x(2) Cons.prems(1) by linarith
  then have st: "sol_lit x (s\<lparr>so_max_var := max (so_max_var s) \<bar>x\<bar>\<rparr>) f = Inr (store_lit x s)" for f
    using Cons.prems(5) [of x] x(2) by (simp add: sol_lit_def store_lit_def)
  obtain d cs where d: "clause_line xs @ rs = d # cs" "d \<noteq> newline"
    using clause_line_not_newline by blast
  have "\<bar>x\<bar> \<le> INT_MAX" using x(2) Cons.prems(2) by simp
  from sol_line_step [OF x(1) this, of lit s nm n "clause_line xs @ rs"]
  have "(case parse_char (pf nm n (clause_line (x # xs) @ rs)) of (ch, f) \<Rightarrow> sol_line ch lit s f)
      = (case parse_char (pf nm n (clause_line xs @ rs)) of (ch, f) \<Rightarrow> sol_line ch x (store_lit x s) f)"
    using d by (simp add: st clause_line_def)
  also have "\<dots> = Inr (0, fold store_lit xs (store_lit x s), pf nm (n + 1) rs)"
  proof (rule Cons.IH)
    show "so_vals (store_lit x s) ! nat \<bar>y\<bar> = 0" if "y \<in> set xs" for y
    proof -
      have "\<bar>x\<bar> \<noteq> \<bar>y\<bar>" using Cons.prems(4) that by auto
      then have "nat \<bar>x\<bar> \<noteq> nat \<bar>y\<bar>" by simp
      with Cons.prems(5) [of y] that show ?thesis by (simp add: store_lit_def)
    qed
  qed (use Cons.prems in \<open>simp_all add: store_lit_def lits_ok_def\<close>)
  finally show ?case by simp
qed

lemma solution_head:
  "parse_solution max_var (pf nm n (''s SATISFIABLE'' @ newline # cs)) = sol_lines (sol_init max_var) (pf nm (n + 1) cs)"
proof -
  have "sol_comments (pf nm n (''s SATISFIABLE'' @ newline # cs)) = Inr (pf nm n ('' SATISFIABLE'' @ newline # cs))"
    by (subst sol_comments.simps) simp
  then show ?thesis by (simp add: parse_solution_def)
qed

text \<open>C28. A printed solution is read back: the array behind \<open>solution\<close> holds the sign of every printed
  literal and 0 elsewhere, as long as the variables are within \<open>max_var\<close>.\<close>

theorem parse_solution_printed:
  assumes "0 \<le> max_var" and "max_var \<le> INT_MAX" and "lits_ok max_var xs" and "distinct (map abs xs)"
  shows "parse_solution max_var (pf nm n (solution_text xs)) =
    Inr (\<lparr>so_vals = fold (\<lambda>x vs. vs[nat \<bar>x\<bar> := if x < 0 then - 1 else 1]) xs (replicate (nat (max_var + 1)) 0),
          so_max_var = max_var, so_count = length xs\<rparr>, pf nm (n + 2) [])"
proof -
  have "(case parse_char (pf nm (n + 1) (clause_line xs @ [])) of (ch, f) \<Rightarrow> sol_line ch 0 (sol_init max_var) f)
      = Inr (0, fold store_lit xs (sol_init max_var), pf nm (n + 1 + 1) [])"
  proof (rule sol_line_lits)
    show "so_vals (sol_init max_var) ! nat \<bar>x\<bar> = 0" if "x \<in> set xs" for x
    proof -
      have "\<bar>x\<bar> \<le> max_var" using that assms(3) by (auto simp: lits_ok_def list_all_iff)
      then have "nat \<bar>x\<bar> < nat (max_var + 1)" by simp
      then show ?thesis by (simp add: sol_init_def del: replicate.simps)
    qed
  qed (use assms in \<open>simp_all add: sol_init_def\<close>)
  moreover have "fold store_lit xs s =
      s\<lparr>so_vals := fold (\<lambda>x vs. vs[nat \<bar>x\<bar> := if x < 0 then - 1 else 1]) xs (so_vals s),
        so_count := so_count s + length xs\<rparr>" for s
    by (induction xs arbitrary: s) (simp_all add: store_lit_def)
  moreover obtain c0 f0 where "parse_char (pf nm (n + 1) (clause_line xs)) = (c0, f0)" by fastforce
  ultimately show ?thesis
    by (simp add: solution_text_def solution_head [simplified] value_line_def sol_init_def sol_lines.simps)
qed

theorem parse_solution_printed_witness:
  "parse_solution 3 (pf ''f'' 1 (solution_text [- 1, 3])) =
    Inr (\<lparr>so_vals = fold (\<lambda>x vs. vs[nat \<bar>x\<bar> := if x < 0 then - 1 else 1]) [- 1, 3] (replicate (nat (3 + 1)) 0),
          so_max_var = 3, so_count = length [- 1, 3 :: int]\<rparr>, pf ''f'' (1 + 2) [])"
  by (rule parse_solution_printed) (simp_all add: lits_ok_def)

text \<open>C29. A literal beyond \<open>max_var\<close> is not rejected: \<open>parse_solution\<close> passes \<open>false\<close> for the strictness,
  which is \<open>FORCED\<close>, so \<open>parse_lit\<close> raises \<open>max_var\<close> and the access behind the array follows.\<close>

theorem parse_solution_out_of_range:
  assumes "0 \<le> max_var" and "max_var < \<bar>x\<bar>" and "\<bar>x\<bar> \<le> INT_MAX"
  shows "parse_solution max_var (pf nm n (solution_text [x])) = Inl OutOfRange"
proof -
  have "x \<noteq> 0" using assms by auto
  have "sol_lit x ((sol_init max_var)\<lparr>so_max_var := \<bar>x\<bar>\<rparr>) f = Inl OutOfRange" for f
    using assms by (simp add: sol_lit_def sol_init_def)
  moreover have "max max_var \<bar>x\<bar> = \<bar>x\<bar>" using assms by simp
  ultimately have "(case parse_char (pf nm (n + 1) (show_int x @ CHR '' '' # clause_line [])) of (ch, f) \<Rightarrow>
      sol_line ch 0 (sol_init max_var) f) = Inl OutOfRange"
    using sol_line_step [OF \<open>x \<noteq> 0\<close> assms(3), of 0 "sol_init max_var" nm "n + 1" "clause_line []"]
    by (simp add: sol_init_def)
  moreover obtain c0 f0 where
    "parse_char (pf nm (n + 1) (show_int x @ CHR '' '' # clause_line [])) = (c0, f0)" by fastforce
  ultimately show ?thesis
    by (simp add: solution_text_def solution_head [simplified] value_line_def clause_line_def sol_lines.simps)
qed

theorem parse_solution_out_of_range_witness:
  "parse_solution 3 (pf ''f'' 1 (solution_text [5])) = Inl OutOfRange"
  by (rule parse_solution_out_of_range) simp_all

section \<open>Whatever is accepted\<close>

lemma digits_loop_ge: "digits_loop msg n f = Inr (ch, m, g) \<Longrightarrow> 0 \<le> n \<Longrightarrow> n \<le> INT_MAX \<Longrightarrow> 0 \<le> m \<and> m \<le> INT_MAX"
proof (induction msg n f rule: digits_loop.induct)
  case (1 msg n f)
  obtain c h where p: "parse_char f = (c, h)" by (cases "parse_char f")
  show ?case
  proof (cases "is_dig c")
    case False
    then have "m = n"
      using "1.prems" p by (subst (asm) digits_loop.simps) (auto simp: is_dig_def split: option.splits)
    with "1.prems" show ?thesis by simp
  next
    case True
    then obtain c' where c: "c = Some c'" "is_digit c'" by (auto simp: is_dig_def split: option.splits)
    let ?d = "int (digit_val c')"
    have ok: "\<not> (INT_MAX div 10 < n \<or> INT_MAX - ?d < 10 * n)"
      using "1.prems"(1) p c by (subst (asm) digits_loop.simps) (auto simp: per_def Let_def split: if_splits)
    then have "digits_loop msg (10 * n + ?d) h = Inr (ch, m, g)"
      using "1.prems"(1) p c by (subst (asm) digits_loop.simps) (simp add: Let_def)
    from "1.IH" [OF p [symmetric] c(1) c(2) refl ok this] ok "1.prems"(2) show ?thesis by simp
  qed
qed

lemma dig_bounds: "0 \<le> dig ch" "is_dig ch \<Longrightarrow> dig ch \<le> 9"
  using digit_val_less by (auto simp: dig_def is_dig_def split: option.splits) fastforce

lemma parse_lit_bounds:
  assumes "parse_lit strict ch vars f = Inr (ch', lit, vars', g)" and "vars \<le> INT_MAX"
  shows "\<bar>lit\<bar> \<le> vars'" and "vars \<le> vars'" and "vars' \<le> INT_MAX" and "strict \<noteq> FORCED \<Longrightarrow> vars' = vars"
proof -
  obtain sg c1 f1 where p: "parse_sign ch f = Inr (sg, c1, f1)"
    using assms by (auto simp: parse_lit_def bind_res_eq_Inr split: if_splits)
  obtain c2 l f2 where d: "digits_loop ''literal too large'' (dig c1) f1 = Inr (c2, l, f2)"
    using assms p by (auto simp: parse_lit_def bind_res_eq_Inr split: if_splits)
  have e: "lit_end strict vars sg l c2 f2 = Inr (ch', lit, vars', g)"
    using assms p d by (simp add: parse_lit_def split: if_splits)
  have sg: "is_dig c1" "\<bar>sg\<bar> = 1" using p by (auto simp: parse_sign_def per_def split: if_splits prod.splits)
  then have "dig c1 \<le> INT_MAX" using dig_bounds(2) [of c1] by linarith
  then have l: "0 \<le> l" "l \<le> INT_MAX" using digits_loop_ge [OF d dig_bounds(1)] by auto
  have "lit = sg * l \<and> vars' = (if vars < l then l else vars) \<and> (vars < l \<longrightarrow> strict = FORCED)"
    using e by (auto simp: lit_end_def per_def split: if_splits prod.splits)
  moreover have "\<bar>sg * l\<bar> = l" using sg(2) l(1) by (simp add: abs_mult)
  ultimately show "\<bar>lit\<bar> \<le> vars'" "vars \<le> vars'" "vars' \<le> INT_MAX" "strict \<noteq> FORCED \<Longrightarrow> vars' = vars"
    using l(2) assms(2) by auto
qed

definition body_ok :: "header \<Rightarrow> body \<Rightarrow> bool" where
  "body_ok h b \<longleftrightarrow>
     b_vars b \<le> INT_MAX \<and> list_all (\<lambda>x. \<bar>x\<bar> \<le> b_vars b) (b_added b)
     \<and> b_lit b = (if b_added b = [] then 0 else last (b_added b))
     \<and> (hd_strict h \<noteq> FORCED \<longrightarrow> b_vars b = hd_vars h)
     \<and> (\<not> hd_inccnf h \<longrightarrow> b_parsed b = int (length (filter ((=) 0) (b_added b))))
     \<and> (\<not> hd_inccnf h \<and> hd_strict h \<noteq> FORCED \<and> 0 \<le> hd_clauses h \<longrightarrow> b_parsed b \<le> hd_clauses h)"

lemma body_lit_ok:
  assumes "body_lit h ch b f = Inr (b', g)" and "body_ok h b"
  shows "body_ok h b'"
proof -
  obtain ch' lit vars f1 where p: "parse_lit (hd_strict h) ch (b_vars b) f = Inr (ch', lit, vars, f1)"
    and b': "b' = b\<lparr>b_vars := vars, b_lit := lit, b_added := b_added b @ [lit],
        b_parsed := (if \<not> hd_inccnf h \<and> lit = 0 then b_parsed b + 1 else b_parsed b)\<rparr>"
    and cl: "\<not> hd_inccnf h \<Longrightarrow> lit = 0 \<Longrightarrow> hd_strict h \<noteq> FORCED \<Longrightarrow> b_parsed b < hd_clauses h"
    using assms(1) by (rule body_lit_elim) blast
  have "b_vars b \<le> INT_MAX" using assms(2) by (simp add: body_ok_def)
  note B = parse_lit_bounds [OF p this]
  have "list_all (\<lambda>x. \<bar>x\<bar> \<le> vars) (b_added b)"
    using assms(2) B(2) by (auto simp: body_ok_def list_all_iff)
  with assms(2) B cl show ?thesis by (auto simp: body_ok_def b')
qed

lemma body_loop_ok: "body_loop h b f = Inr (ch, b', g) \<Longrightarrow> body_ok h b \<Longrightarrow> body_ok h b'"
proof (induction h b f rule: body_loop.induct)
  case (1 h b f)
  obtain c k where p: "parse_char f = (c, k)" by (cases "parse_char f")
  show ?case
  proof (cases c)
    case None
    with "1.prems" p show ?thesis by (subst (asm) body_loop.simps) simp
  next
    case (Some d)
    note IH = "1.IH" [OF p [symmetric] Some]
    consider "ws (Some d)" | "\<not> ws (Some d)" "d = CHR ''c''"
      | "\<not> ws (Some d)" "d \<noteq> CHR ''c''" "d = CHR ''a'' \<and> hd_inccnf h"
      | "\<not> ws (Some d)" "d \<noteq> CHR ''c''" "\<not> (d = CHR ''a'' \<and> hd_inccnf h)" by blast
    then show ?thesis
    proof cases
      case 1
      then have "body_loop h b k = Inr (ch, b', g)"
        using "1.prems"(1) p Some by (subst (asm) body_loop.simps) simp
      with IH(1) 1 "1.prems"(2) show ?thesis by blast
    next
      case 2
      obtain found k2 where s: "skip_to_newline k = (found, k2)" by (cases "skip_to_newline k")
      have "(if found then body_loop h b k2 else Inr (None, b, k2)) = Inr (ch, b', g)"
        using "1.prems"(1) p Some 2 s by (subst (asm) body_loop.simps) simp
      with IH(2) [OF 2 s [symmetric]] "1.prems"(2) show ?thesis by (cases found) auto
    next
      case 3
      with "1.prems" p Some show ?thesis by (subst (asm) body_loop.simps) simp
    next
      case 4
      obtain b1 k1 where l: "body_lit h (Some d) b k = Inr (b1, k1)"
        and r: "body_loop h b1 k1 = Inr (ch, b', g)"
        using "1.prems"(1) p Some 4 by (subst (asm) body_loop.simps) (auto simp: bind_res_eq_Inr)
      have "body_ok h b1" using body_lit_ok [OF l "1.prems"(2)] .
      with IH(3) [OF 4 l refl r] show ?thesis by blast
    qed
  qed
qed

lemma body_loop_end: "body_loop h b f = Inr (ch, b', g) \<Longrightarrow> ch = Some (CHR ''a'') \<Longrightarrow> hd_inccnf h"
proof (induction h b f rule: body_loop.induct)
  case (1 h b f)
  obtain c k where p: "parse_char f = (c, k)" by (cases "parse_char f")
  show ?case
  proof (cases c)
    case None
    with "1.prems" p show ?thesis by (subst (asm) body_loop.simps) simp
  next
    case (Some d)
    note IH = "1.IH" [OF p [symmetric] Some]
    obtain found k2 where s: "skip_to_newline k = (found, k2)" by (cases "skip_to_newline k")
    consider "ws (Some d)" | "\<not> ws (Some d)" "d = CHR ''c''"
      | "hd_inccnf h"
      | "\<not> ws (Some d)" "d \<noteq> CHR ''c''" "\<not> (d = CHR ''a'' \<and> hd_inccnf h)" by blast
    then show ?thesis
    proof cases
      case 1
      then have "body_loop h b k = Inr (ch, b', g)"
        using "1.prems"(1) p Some by (subst (asm) body_loop.simps) simp
      with IH(1) 1 "1.prems"(2) show ?thesis by blast
    next
      case 2
      have "(if found then body_loop h b k2 else Inr (None, b, k2)) = Inr (ch, b', g)"
        using "1.prems"(1) p Some 2 s by (subst (asm) body_loop.simps) simp
      with IH(2) [OF 2 s [symmetric]] "1.prems"(2) show ?thesis by (cases found) auto
    next
      case 4
      obtain b1 k1 where l: "body_lit h (Some d) b k = Inr (b1, k1)"
        and r: "body_loop h b1 k1 = Inr (ch, b', g)"
        using "1.prems"(1) p Some 4 by (subst (asm) body_loop.simps) (auto simp: bind_res_eq_Inr)
      from IH(3) [OF 4 l refl r] "1.prems"(2) show ?thesis by blast
    qed
  qed
qed

lemma parse_positive_int_bounds:
  "parse_positive_int name ch f = Inr (c, n, g) \<Longrightarrow> is_dig ch \<Longrightarrow> 0 \<le> n \<and> n \<le> INT_MAX"
  using digits_loop_ge dig_bounds [of ch] by (fastforce simp: parse_positive_int_def)

lemma digits_at_bounds: "digits_at msg name p = Inr (c, n, g) \<Longrightarrow> 0 \<le> n \<and> n \<le> INT_MAX"
  using parse_positive_int_bounds by (auto simp: digits_at_def per_def split: prod.splits if_splits)

lemma strict_cnf_header_bounds:
  assumes "strict_cnf_header f = Inr (v, k, g)"
  shows "v \<le> INT_MAX \<and> 0 \<le> k"
proof -
  obtain f1 c2 f3 where
    1: "parse_string ''nf '' (CHR ''c'') f = Inr f1"
    and 2: "digits_at (''expected digit after '' @ quoted ''p cnf '') ''<max-var>'' (parse_char f1) = Inr (c2, v, f3)"
    using assms unfolding strict_cnf_header_def
    by (auto simp: bind_res_eq_Inr per_def simp del: append.simps split: if_splits)
  obtain msg c4 f5 where "digits_at msg ''<num-clauses>'' (parse_char f3) = Inr (c4, k, f5)"
    using assms unfolding strict_cnf_header_def 1 bind_res_simps 2
    by (auto simp: bind_res_eq_Inr per_def simp del: append.simps split: if_splits)
  with 2 digits_at_bounds show ?thesis by blast
qed

lemma relaxed_cnf_header_bounds:
  assumes "relaxed_cnf_header f = Inr (v, k, g)"
  shows "v \<le> INT_MAX \<and> 0 \<le> k"
proof -
  obtain c1 f1 where 1: "parse_char f = (c1, f1)" by fastforce
  obtain c2 f2 where 2: "parse_char f1 = (c2, f2)" by fastforce
  obtain c3 f3 where 3: "parse_char f2 = (c3, f3)" by fastforce
  obtain c5 f5 where
    5: "digits_at (''expected digit after '' @ quoted ''p cnf '') ''<max-var>'' (next_not is_sp f3) = Inr (c5, v, f5)"
    using assms unfolding relaxed_cnf_header_def 1 prod.case 2 3
    by (auto simp: bind_res_eq_Inr per_def simp del: append.simps split: if_splits)
  obtain msg c7 f7 where "digits_at msg ''<num-clauses>'' (next_not is_sp f5) = Inr (c7, k, f7)"
    using assms unfolding relaxed_cnf_header_def 1 prod.case 2 3 5 bind_res_simps
    by (auto simp: bind_res_eq_Inr per_def simp del: append.simps split: if_splits)
  with 5 digits_at_bounds show ?thesis by blast
qed

lemmas cnf_header_bounds = strict_cnf_header_bounds relaxed_cnf_header_bounds

lemma parse_header_bounds:
  assumes "parse_header strict None f = Inr (h, g)"
  shows "hd_strict h = strict \<and> \<not> hd_inccnf h \<and> hd_vars h \<le> INT_MAX \<and> 0 \<le> hd_clauses h
    \<and> (strict \<noteq> FORCED \<longrightarrow> hd_reserved h = [hd_vars h])"
proof -
  obtain ch k where a: "after_p strict f = Inr (ch, k)"
    using assms by (auto simp: parse_header_def bind_res_eq_Inr)
  obtain v c k2 where "(if strict = STRICT then strict_cnf_header k else relaxed_cnf_header k) = Inr (v, c, k2)"
    and h: "h = \<lparr>hd_strict = strict, hd_inccnf = False, hd_vars = v, hd_clauses = c,
                    hd_reserved = (if strict \<noteq> FORCED then [v] else [])\<rparr>"
    using assms a by (auto simp: parse_header_def bind_res_eq_Inr per_def split: if_splits)
  with cnf_header_bounds [of k v c k2] show ?thesis by (auto split: if_splits)
qed

text \<open>C25. Whatever text is accepted as a CNF, the calls the parser makes are well-formed: every literal
  is within the maximum variable it reports (with \<open>FORCED\<close> it raises it, otherwise it is the number
  it has reserved), the maximum fits an \<open>int\<close>, and the last clause is closed by its 0.\<close>

theorem parse_dimacs_accepts:
  assumes "parse_dimacs None cubes strict f = Inr (dm, g)"
  shows "list_all (\<lambda>x. \<bar>x\<bar> \<le> dm_vars dm) (dm_added dm) \<and> dm_vars dm \<le> INT_MAX
    \<and> (dm_added dm \<noteq> [] \<longrightarrow> last (dm_added dm) = 0)
    \<and> (strict \<noteq> FORCED \<longrightarrow> dm_reserved dm = [dm_vars dm])"
proof -
  obtain opts f1 where "header_comments strict [] f = Inr (Some (CHR ''p''), opts, f1)"
    using assms by (auto simp: parse_dimacs_def bind_res_eq_Inr per_def split: if_splits)
  note run1 = assms [unfolded parse_dimacs_def this, simplified]
  obtain h f2 where h: "parse_header strict None f1 = Inr (h, f2)"
    using run1 by (auto simp: bind_res_eq_Inr)
  note H = parse_header_bounds [OF h]
  let ?b = "\<lparr>b_vars = hd_vars h, b_lit = 0, b_parsed = 0, b_added = []\<rparr>"
  obtain ch b f3 where b: "body_loop h ?b f2 = Inr (ch, b, f3)"
    using run1 h by (auto simp: bind_res_eq_Inr)
  have B: "body_ok h b" using H by (intro body_loop_ok [OF b]) (simp add: body_ok_def)
  have ch: "ch \<noteq> Some (CHR ''a'')"
    using body_loop_end [OF b] H by blast
  have lit: "b_lit b = 0" using run1 h b by (auto simp: per_def split: if_splits)
  have dm: "dm_added dm = b_added b" "dm_vars dm = b_vars b" "dm_reserved dm = hd_reserved h"
    using run1 h b ch lit by (auto simp: per_def Let_def split: if_splits)
  from B H lit show ?thesis by (auto simp: body_ok_def dm)
qed

theorem parse_dimacs_accepts_witness:
  "let dm = fst (projr (parse_dimacs None None RELAXED (pf ''f'' 1 (dimacs_text 3 [[1, - 2], [3]]))))
   in list_all (\<lambda>x. \<bar>x\<bar> \<le> dm_vars dm) (dm_added dm) \<and> dm_vars dm \<le> INT_MAX
    \<and> (dm_added dm \<noteq> [] \<longrightarrow> last (dm_added dm) = 0)
    \<and> (RELAXED \<noteq> FORCED \<longrightarrow> dm_reserved dm = [dm_vars dm])"
proof -
  have n: "int (3 :: nat) \<le> INT_MAX" "int (length [[1, - 2], [3 :: int]]) \<le> INT_MAX"
    "list_all (lits_ok (int 3)) [[1, - 2], [3 :: int]]" by (simp_all add: lits_ok_def)
  obtain dm g where r: "parse_dimacs None None RELAXED (pf ''f'' 1 (dimacs_text 3 [[1, - 2], [3]])) = Inr (dm, g)"
    using parse_dimacs_dimacs_text [OF n, of None None RELAXED "''f''" 1] by simp
  from parse_dimacs_accepts [OF this] r show ?thesis by simp
qed

end
