(* ===== verification/Proof_Checker.thy ===== *)
theory Proof_Checker
  imports Prelude
begin

text \<open>
  The online DRUP proof checker of CaDiCaL (\<open>cadical/src/checker.hpp\<close>, \<open>checker.cpp\<close>).

  Clauses live in a heap from addresses to objects; using a freed address is \<open>OutOfRange\<close>.  A
  collision chain is the list of the addresses on it.  \<open>vals\<close>, \<open>watchers\<close> and \<open>marks\<close> are
  functions of the literal (the code indexes arrays with it, or with \<open>l2u\<close> of it), so an access is
  not checked against \<open>size_vars\<close>; that the literals used as indices are below it is stated by
  \<open>within_arrays\<close> in \<open>Proof_Checker_Theorems\<close>.  A fatal message is \<open>Abort\<close>.  Statistics and log
  messages are left out.
\<close>

section \<open>State\<close>

record cclause =
  cc_hash :: u64
  cc_size :: nat
  cc_lits :: "int list"

record cwatch =
  cw_blit :: int
  cw_size :: nat
  cw_clause :: nat

record checker =
  ck_size_vars :: int
  ck_vals :: "int \<Rightarrow> int"
  ck_watchers :: "int \<Rightarrow> cwatch list"
  ck_marks :: "int \<Rightarrow> bool"
  ck_inconsistent :: bool
  ck_num_clauses :: nat
  ck_num_garbage :: nat
  ck_table :: "nat list list"
  ck_garbage :: "nat list"
  ck_unsimplified :: "int list"
  ck_simplified :: "int list"
  ck_trail :: "int list"
  ck_next :: nat
  ck_nonces :: "u64 list"
  ck_last_hash :: u64
  ck_heap :: "nat \<Rightarrow> cclause option"
  ck_fresh :: nat

definition l2u :: "int \<Rightarrow> nat" where
  "l2u lit = nat (2 * (\<bar>lit\<bar> - 1) + (if lit < 0 then 1 else 0))"

lemma l2u_inj: "a \<noteq> 0 \<Longrightarrow> b \<noteq> 0 \<Longrightarrow> l2u a = l2u b \<Longrightarrow> a = b"
proof -
  assume "a \<noteq> 0" "b \<noteq> 0" and e: "l2u a = l2u b"
  then have "2 * (\<bar>a\<bar> - 1) + (if a < 0 then 1 else 0) = 2 * (\<bar>b\<bar> - 1) + (if b < 0 then 1 else 0)"
    by (auto simp: l2u_def nat_eq_iff split: if_splits)
  then show "a = b" by (simp split: if_splits) presburger+
qed

definition checker_init :: "u64 list \<Rightarrow> checker" where
  "checker_init nonces =
     \<lparr>ck_size_vars = 0, ck_vals = (\<lambda>_. 0), ck_watchers = (\<lambda>_. []), ck_marks = (\<lambda>_. False),
      ck_inconsistent = False, ck_num_clauses = 0, ck_num_garbage = 0, ck_table = [],
      ck_garbage = [], ck_unsimplified = [], ck_simplified = [], ck_trail = [], ck_next = 0,
      ck_nonces = nonces, ck_last_hash = 0, ck_heap = (\<lambda>_. None), ck_fresh = 0\<rparr>"

definition deref :: "checker \<Rightarrow> nat \<Rightarrow> cclause res" where
  "deref s p = (case ck_heap s p of None \<Rightarrow> Inl OutOfRange | Some c \<Rightarrow> Inr c)"

definition set_clause :: "nat \<Rightarrow> cclause \<Rightarrow> checker \<Rightarrow> checker" where
  "set_clause p c s = s\<lparr>ck_heap := (ck_heap s)(p \<mapsto> c)\<rparr>"

definition push_watch :: "int \<Rightarrow> cwatch \<Rightarrow> checker \<Rightarrow> checker" where
  "push_watch lit w s = s\<lparr>ck_watchers := (ck_watchers s)(lit := ck_watchers s lit @ [w])\<rparr>"

section \<open>Importing a clause\<close>

function enlarge_size :: "int \<Rightarrow> int \<Rightarrow> int" where
  "enlarge_size idx n = (if 0 < n \<and> n \<le> idx then enlarge_size idx (2 * n) else n)"
  by pat_completeness auto
termination
  by (relation "measure (\<lambda>(idx, n). nat (idx + 1 - n))") auto

declare enlarge_size.simps [simp del]

definition enlarge_vars :: "int \<Rightarrow> checker \<Rightarrow> checker" where
  "enlarge_vars idx s =
     (let old = ck_size_vars s; new = enlarge_size idx (if old \<noteq> 0 then 2 * old else 2) in
      s\<lparr>ck_size_vars := new,
        ck_vals := (\<lambda>l. if - old \<le> l \<and> l < old then ck_vals s l else 0)\<rparr>)"

definition import_literal :: "int \<Rightarrow> checker \<Rightarrow> checker" where
  "import_literal lit s =
     (let s = (if ck_size_vars s \<le> \<bar>lit\<bar> then enlarge_vars \<bar>lit\<bar> s else s) in
      s\<lparr>ck_simplified := ck_simplified s @ [lit], ck_unsimplified := ck_unsimplified s @ [lit]\<rparr>)"

definition import_clause :: "int list \<Rightarrow> checker \<Rightarrow> checker" where
  "import_clause c s = fold import_literal c s"

text \<open>The order of \<open>lit_smaller\<close> as a sort key.\<close>

definition lit_smaller :: "int \<Rightarrow> int \<Rightarrow> bool" where
  "lit_smaller a b = (if \<bar>a\<bar> < \<bar>b\<bar> then True else if \<bar>a\<bar> > \<bar>b\<bar> then False else a < b)"

definition lit_key :: "int \<Rightarrow> int" where
  "lit_key a = 2 * \<bar>a\<bar> + (if 0 < a then 1 else 0)"

lemma lit_smaller_key: "lit_smaller a b \<longleftrightarrow> lit_key a < lit_key b"
  by (auto simp: lit_smaller_def lit_key_def)

text \<open>The loop of \<open>tautological\<close>: \<open>None\<close> when the clause is satisfied or has a literal and its negation.\<close>

fun taut_loop :: "(int \<Rightarrow> int) \<Rightarrow> int \<Rightarrow> int list \<Rightarrow> int list option" where
  "taut_loop vals prev [] = Some []"
| "taut_loop vals prev (lit # lits) =
     (if lit = prev then taut_loop vals prev lits
      else if lit = - prev then None
      else if vals lit > 0 then None
      else map_option (\<lambda>ls. lit # ls) (taut_loop vals lit lits))"

text \<open>The literals written to the front of the vector before the loop returns early.\<close>

fun taut_written :: "(int \<Rightarrow> int) \<Rightarrow> int \<Rightarrow> int list \<Rightarrow> int list" where
  "taut_written vals prev [] = []"
| "taut_written vals prev (lit # lits) =
     (if lit = prev then taut_written vals prev lits
      else if lit = - prev \<or> vals lit > 0 then []
      else lit # taut_written vals lit lits)"

definition tautological :: "checker \<Rightarrow> bool \<times> checker" where
  "tautological s =
     (let sorted = sort_key lit_key (ck_simplified s) in
      case taut_loop (ck_vals s) 0 sorted of
        None \<Rightarrow>
          (let ws = taut_written (ck_vals s) 0 sorted
           in (True, s\<lparr>ck_simplified := ws @ drop (length ws) sorted\<rparr>))
      | Some lits \<Rightarrow> (False, s\<lparr>ck_simplified := lits\<rparr>))"

section \<open>The hash table\<close>

text \<open>\<open>reduce_hash\<close>: with an empty table its loop does not end.\<close>

fun reduce_loop :: "nat \<Rightarrow> u64 \<Rightarrow> nat \<Rightarrow> nat \<Rightarrow> u64 res" where
  "reduce_loop fuel r shift n =
     (if (2 :: int) ^ shift > int n then
        (case fuel of 0 \<Rightarrow> Inl OutOfFuel
         | Suc fuel \<Rightarrow> reduce_loop fuel (xor r (drop_bit shift r)) (shift div 2) n)
      else Inr r)"

declare reduce_loop.simps [simp del]

definition reduce_hash :: "u64 \<Rightarrow> nat \<Rightarrow> nat res" where
  "reduce_hash hash n =
     bind_res (reduce_loop 6 hash 32 n) (\<lambda>r. Inr (and (unat r) (n - 1)))"

fun hash_loop :: "u64 list \<Rightarrow> nat \<Rightarrow> u64 \<Rightarrow> int list \<Rightarrow> u64" where
  "hash_loop nonces j tmp [] = tmp"
| "hash_loop nonces j tmp (lit # lits) =
     hash_loop nonces (if j + 1 = length nonces then 0 else j + 1) (tmp + nonces ! j * of_int lit) lits"

definition compute_hash :: "checker \<Rightarrow> u64 \<times> checker" where
  "compute_hash s =
     (let h = hash_loop (ck_nonces s) 0 0 (ck_simplified s) in (h, s\<lparr>ck_last_hash := h\<rparr>))"

text \<open>The position of the clause in its chain: the bucket and the index in it.\<close>

fun find_chain :: "checker \<Rightarrow> u64 \<Rightarrow> nat \<Rightarrow> nat list \<Rightarrow> nat option res" where
  "find_chain s hash n [] = Inr None"
| "find_chain s hash n (p # ps) =
     bind_res (deref s p) (\<lambda>c.
       if cc_hash c = hash \<and> cc_size c = n \<and> list_all (ck_marks s) (take n (cc_lits c)) then Inr (Some 0)
       else bind_res (find_chain s hash n ps) (\<lambda>i. Inr (map_option Suc i)))"

definition find_clause :: "checker \<Rightarrow> ((nat \<times> nat option) \<times> checker) res" where
  "find_clause s =
     (case compute_hash s of (hash, s) \<Rightarrow>
      bind_res (reduce_hash hash (length (ck_table s))) (\<lambda>h.
      let s = s\<lparr>ck_marks := fold (\<lambda>l m. m(l := True)) (ck_simplified s) (ck_marks s)\<rparr> in
      bind_res (vec_get (ck_table s) h) (\<lambda>chain.
      bind_res (find_chain s hash (length (ck_simplified s)) chain) (\<lambda>i.
        Inr ((h, i), s\<lparr>ck_marks := fold (\<lambda>l m. m(l := False)) (ck_simplified s) (ck_marks s)\<rparr>)))))"

definition insert_chain :: "checker \<Rightarrow> nat \<Rightarrow> nat list list \<Rightarrow> nat list list res" where
  "insert_chain s p table =
     bind_res (deref s p) (\<lambda>c.
     bind_res (reduce_hash (cc_hash c) (length table)) (\<lambda>h.
     bind_res (vec_get table h) (\<lambda>chain. vec_set table h (p # chain))))"

definition enlarge_clauses :: "checker \<Rightarrow> checker res" where
  "enlarge_clauses s =
     (let new = (if ck_table s \<noteq> [] then 2 * length (ck_table s) else 1) in
      bind_res (fold_res (insert_chain s) (concat (ck_table s)) (replicate new []))
        (\<lambda>table. Inr (s\<lparr>ck_table := table\<rparr>)))"

text \<open>\<open>new_clause\<close>: two unassigned literals, if there are, move to the front and are watched.\<close>

definition pick_watch :: "(int \<Rightarrow> int) \<Rightarrow> nat \<Rightarrow> int list \<Rightarrow> int list" where
  "pick_watch vals i lits =
     (if vals (lits ! i) = 0 then lits
      else case List.find (\<lambda>j. vals (lits ! j) = 0) [i + 1 ..< length lits] of
          None \<Rightarrow> lits
        | Some j \<Rightarrow> lits[i := lits ! j, j := lits ! i])"

definition new_clause :: "checker \<Rightarrow> nat \<times> checker" where
  "new_clause s =
     (let lits = pick_watch (ck_vals s) 1 (pick_watch (ck_vals s) 0 (ck_simplified s));
          n = length (ck_simplified s);
          p = ck_fresh s;
          s = set_clause p \<lparr>cc_hash = ck_last_hash s, cc_size = n, cc_lits = lits\<rparr>
                (s\<lparr>ck_fresh := p + 1, ck_num_clauses := ck_num_clauses s + 1\<rparr>);
          s = push_watch (lits ! 0) \<lparr>cw_blit = lits ! 1, cw_size = n, cw_clause = p\<rparr> s
      in (p, push_watch (lits ! 1) \<lparr>cw_blit = lits ! 0, cw_size = n, cw_clause = p\<rparr> s))"

definition insert_clause :: "checker \<Rightarrow> checker res" where
  "insert_clause s =
     bind_res (if ck_num_clauses s = length (ck_table s) then enlarge_clauses s else Inr s) (\<lambda>s.
     case compute_hash s of (hash, s) \<Rightarrow>
     bind_res (reduce_hash hash (length (ck_table s))) (\<lambda>h.
     case new_clause s of (p, s) \<Rightarrow>
     bind_res (vec_get (ck_table s) h) (\<lambda>chain.
     bind_res (vec_set (ck_table s) h (p # chain)) (\<lambda>table. Inr (s\<lparr>ck_table := table\<rparr>)))))"

section \<open>Assignment and propagation\<close>

definition assign :: "int \<Rightarrow> checker \<Rightarrow> checker" where
  "assign lit s =
     s\<lparr>ck_vals := (ck_vals s)(lit := 1, - lit := - 1), ck_trail := ck_trail s @ [lit]\<rparr>"

definition assume_lit :: "int \<Rightarrow> checker \<Rightarrow> checker" where
  "assume_lit lit s = (if ck_vals s lit > 0 then s else assign lit s)"

definition unassign :: "int \<Rightarrow> checker \<Rightarrow> checker" where
  "unassign lit s = s\<lparr>ck_vals := (ck_vals s)(lit := 0, - lit := 0)\<rparr>"

definition backtrack :: "nat \<Rightarrow> checker \<Rightarrow> checker" where
  "backtrack previously_propagated s =
     (fold unassign (rev (drop previously_propagated (ck_trail s))) s)
       \<lparr>ck_trail := take previously_propagated (ck_trail s), ck_next := previously_propagated\<rparr>"

text \<open>
  A watch of the list of the literal \<open>nl\<close>, which has become false.  The result is whether there
  is no conflict, and the watch when it stays in the list.  First a clause of more than two
  literals: the other watched literal comes to the front.
\<close>

definition prop_large :: "int \<Rightarrow> cwatch \<Rightarrow> cclause \<Rightarrow> checker \<Rightarrow> bool \<times> cwatch option \<times> checker" where
  "prop_large nl w c s =
     (let other = xor (xor (cc_lits c ! 0) (cc_lits c ! 1)) nl; other_val = ck_vals s other in
      if other_val > 0 then (True, Some (w\<lparr>cw_blit := other\<rparr>), s)
      else
        let lits = (cc_lits c)[0 := other, 1 := nl] in
        case List.find (\<lambda>k. ck_vals s (lits ! k) \<ge> 0) [2 ..< cw_size w] of
          Some k \<Rightarrow>
            (True, None,
             set_clause (cw_clause w) (c\<lparr>cc_lits := lits[1 := lits ! k, k := lits ! 1]\<rparr>)
               (push_watch (lits ! k) \<lparr>cw_blit = nl, cw_size = cc_size c, cw_clause = cw_clause w\<rparr> s))
        | None \<Rightarrow>
            let s = set_clause (cw_clause w) (c\<lparr>cc_lits := lits\<rparr>) s in
            if other_val = 0 then (True, Some w, assign other s) else (False, Some w, s))"

definition prop_watch :: "int \<Rightarrow> cwatch \<Rightarrow> checker \<Rightarrow> (bool \<times> cwatch option \<times> checker) res" where
  "prop_watch lit w s =
     (let blit = cw_blit w; blit_val = ck_vals s blit in
      if blit_val > 0 then Inr (True, Some w, s)
      else if cw_size w = 2 then
        (if blit_val < 0 then Inr (False, Some w, s) else Inr (True, Some w, assign blit s))
      else bind_res (deref s (cw_clause w)) (\<lambda>c.
        if cc_size c = 0 then Inr (True, None, s) else Inr (prop_large (- lit) w c s)))"

fun prop_list ::
  "int \<Rightarrow> cwatch list \<Rightarrow> cwatch list \<Rightarrow> checker \<Rightarrow> (bool \<times> cwatch list \<times> checker) res" where
  "prop_list lit [] kept s = Inr (True, kept, s)"
| "prop_list lit (w # ws) kept s =
     bind_res (prop_watch lit w s) (\<lambda>(ok, k, s).
       let kept = kept @ (case k of None \<Rightarrow> [] | Some w \<Rightarrow> [w]) in
       if ok then prop_list lit ws kept s else Inr (False, kept @ ws, s))"

definition prop_lit :: "int \<Rightarrow> checker \<Rightarrow> (bool \<times> checker) res" where
  "prop_lit lit s =
     bind_res (prop_list lit (ck_watchers s (- lit)) [] s) (\<lambda>(ok, ws, s).
       Inr (ok, s\<lparr>ck_watchers := (ck_watchers s)(- lit := ws)\<rparr>))"

fun propagate :: "nat \<Rightarrow> checker \<Rightarrow> (bool \<times> checker) res" where
  "propagate fuel s =
     (if ck_next s < length (ck_trail s) then
        (case fuel of 0 \<Rightarrow> Inl OutOfFuel
         | Suc fuel \<Rightarrow>
             bind_res (prop_lit (ck_trail s ! ck_next s) (s\<lparr>ck_next := ck_next s + 1\<rparr>)) (\<lambda>(ok, s).
               if ok then propagate fuel s else Inr (False, s)))
      else Inr (True, s))"

declare propagate.simps [simp del]

definition propagate_all :: "checker \<Rightarrow> (bool \<times> checker) res" where
  "propagate_all s = propagate (nat (ck_size_vars s)) s"

text \<open>Is the clause implied by unit propagation?\<close>

definition check :: "checker \<Rightarrow> (bool \<times> checker) res" where
  "check s =
     (if ck_inconsistent s then Inr (True, s)
      else bind_res (propagate_all (fold (\<lambda>lit. assume_lit (- lit)) (ck_simplified s) s)) (\<lambda>(ok, s').
        Inr (\<not> ok, backtrack (ck_next s) s')))"

section \<open>Adding clauses\<close>

text \<open>The literal that is not false: 0 when there is none, \<open>INT_MIN\<close> when there are several.\<close>

fun unit_scan :: "(int \<Rightarrow> int) \<Rightarrow> int \<Rightarrow> int list \<Rightarrow> int" where
  "unit_scan vals u [] = u"
| "unit_scan vals u (lit # lits) =
     (if vals lit < 0 then unit_scan vals u lits
      else if u \<noteq> 0 then INT_MIN
      else unit_scan vals lit lits)"

definition add_clause :: "checker \<Rightarrow> checker res" where
  "add_clause s =
     (let u = unit_scan (ck_vals s) 0 (ck_simplified s);
          s = (if ck_simplified s = [] then s\<lparr>ck_inconsistent := True\<rparr> else s)
      in if u = 0 then Inr (s\<lparr>ck_inconsistent := True\<rparr>)
         else if u \<noteq> INT_MIN then
           bind_res (propagate_all (assign u s)) (\<lambda>(ok, s).
             Inr (if ok then s else s\<lparr>ck_inconsistent := True\<rparr>))
         else insert_clause s)"

definition clear_import :: "checker \<Rightarrow> checker" where
  "clear_import s = s\<lparr>ck_simplified := [], ck_unsimplified := []\<rparr>"

definition add_original_clause :: "int list \<Rightarrow> checker \<Rightarrow> checker res" where
  "add_original_clause c s =
     (if ck_inconsistent s then Inr s
      else case tautological (import_clause c s) of (taut, s) \<Rightarrow>
        bind_res (if taut then Inr s else add_clause s) (\<lambda>s. Inr (clear_import s)))"

definition add_derived_clause :: "int list \<Rightarrow> checker \<Rightarrow> checker res" where
  "add_derived_clause c s =
     (if ck_inconsistent s then Inr s
      else case tautological (import_clause c s) of (taut, s) \<Rightarrow>
        bind_res
          (if taut then Inr s
           else bind_res (check s) (\<lambda>(ok, s). if ok then add_clause s else Inl Abort))
          (\<lambda>s. Inr (clear_import s)))"

section \<open>Deleting clauses\<close>

definition clause_satisfied :: "checker \<Rightarrow> cclause \<Rightarrow> bool" where
  "clause_satisfied s c \<longleftrightarrow> list_ex (\<lambda>l. ck_vals s l > 0) (take (cc_size c) (cc_lits c))"

text \<open>Satisfied clauses leave their chain for the garbage list.\<close>

fun sweep_chain :: "nat list \<Rightarrow> checker \<Rightarrow> (nat list \<times> checker) res" where
  "sweep_chain [] s = Inr ([], s)"
| "sweep_chain (p # ps) s =
     bind_res (deref s p) (\<lambda>c.
       if clause_satisfied s c then
         sweep_chain ps ((set_clause p (c\<lparr>cc_size := 0\<rparr>) s)
           \<lparr>ck_garbage := p # ck_garbage s, ck_num_garbage := ck_num_garbage s + 1,
            ck_num_clauses := ck_num_clauses s - 1\<rparr>)
       else bind_res (sweep_chain ps s) (\<lambda>(qs, s). Inr (p # qs, s)))"

fun sweep_table :: "nat list list \<Rightarrow> checker \<Rightarrow> (nat list list \<times> checker) res" where
  "sweep_table [] s = Inr ([], s)"
| "sweep_table (ps # pss) s =
     bind_res (sweep_chain ps s) (\<lambda>(qs, s).
     bind_res (sweep_table pss s) (\<lambda>(qss, s). Inr (qs # qss, s)))"

fun live_watches :: "checker \<Rightarrow> cwatch list \<Rightarrow> cwatch list res" where
  "live_watches s [] = Inr []"
| "live_watches s (w # ws) =
     bind_res (deref s (cw_clause w)) (\<lambda>c.
     bind_res (live_watches s ws) (\<lambda>vs. Inr (if cc_size c \<noteq> 0 then w # vs else vs)))"

definition clean_watcher :: "int \<Rightarrow> checker \<Rightarrow> checker res" where
  "clean_watcher lit s =
     (if lit = 0 then Inr s
      else bind_res (live_watches s (ck_watchers s lit)) (\<lambda>ws.
        Inr (s\<lparr>ck_watchers := (ck_watchers s)(lit := ws)\<rparr>)))"

definition free_clause :: "nat \<Rightarrow> checker \<Rightarrow> checker res" where
  "free_clause p s =
     bind_res (deref s p) (\<lambda>c.
       let s = (if cc_size c \<noteq> 0 then s\<lparr>ck_num_clauses := ck_num_clauses s - 1\<rparr>
                else s\<lparr>ck_num_garbage := ck_num_garbage s - 1\<rparr>)
       in Inr (s\<lparr>ck_heap := (ck_heap s)(p := None)\<rparr>))"

definition collect_garbage_clauses :: "checker \<Rightarrow> checker res" where
  "collect_garbage_clauses s =
     bind_res (sweep_table (ck_table s) s) (\<lambda>(table, s).
     bind_res (fold_res clean_watcher [- ck_size_vars s + 1 .. ck_size_vars s - 1] (s\<lparr>ck_table := table\<rparr>)) (\<lambda>s.
     bind_res (fold_res free_clause (ck_garbage s) s) (\<lambda>s. Inr (s\<lparr>ck_garbage := []\<rparr>))))"

definition unlink_clause :: "nat \<Rightarrow> nat \<Rightarrow> checker \<Rightarrow> checker res" where
  "unlink_clause h i s =
     bind_res (vec_get (ck_table s) h) (\<lambda>chain.
     bind_res (vec_get chain i) (\<lambda>p.
     bind_res (deref s p) (\<lambda>c.
       Inr ((set_clause p (c\<lparr>cc_size := 0\<rparr>) s)
         \<lparr>ck_table := (ck_table s)[h := take i chain @ drop (i + 1) chain],
          ck_garbage := p # ck_garbage s, ck_num_garbage := ck_num_garbage s + 1,
          ck_num_clauses := ck_num_clauses s - 1\<rparr>))))"

definition delete_clause :: "int list \<Rightarrow> checker \<Rightarrow> checker res" where
  "delete_clause c s =
     (if ck_inconsistent s then Inr s
      else case tautological (import_clause c s) of (taut, s) \<Rightarrow>
        bind_res
          (if taut then Inr s
           else bind_res (find_clause s) (\<lambda>((h, i), s).
             case i of None \<Rightarrow> Inl Abort
             | Some i \<Rightarrow>
                 bind_res (unlink_clause h i s) (\<lambda>s.
                   if 2 * int (ck_num_garbage s) > max (int (length (ck_table s))) (ck_size_vars s)
                   then collect_garbage_clauses s else Inr s)))
          (\<lambda>s. Inr (clear_import s)))"

datatype proof_event = Original "int list" | Derived "int list" | Deleted "int list"

fun checker_step :: "proof_event \<Rightarrow> checker \<Rightarrow> checker res" where
  "checker_step (Original c) s = add_original_clause c s"
| "checker_step (Derived c) s = add_derived_clause c s"
| "checker_step (Deleted c) s = delete_clause c s"

end
