(* ===== verification/Assignments.thy ===== *)
theory Assignments
  imports Prelude
begin

text \<open>
  Assignments of the variables and the truth of DIMACS literals and clauses under them: the
  meaning that the theorems on CaDiCaL refer to.
\<close>

definition lit_on :: "(nat \<Rightarrow> bool) \<Rightarrow> int \<Rightarrow> bool" where
  "lit_on a l = (if l > 0 then a (nat l) else \<not> a (nat (- l)))"

definition cl_on :: "(nat \<Rightarrow> bool) \<Rightarrow> int list \<Rightarrow> bool" where
  "cl_on a c \<longleftrightarrow> list_ex (lit_on a) c"

definition ent :: "(nat \<Rightarrow> bool) set \<Rightarrow> int list \<Rightarrow> bool" where
  "ent M c \<longleftrightarrow> (\<forall>a \<in> M. cl_on a c)"

lemma lit_on_neg [simp]: "l \<noteq> 0 \<Longrightarrow> lit_on a (- l) \<longleftrightarrow> \<not> lit_on a l"
  by (auto simp: lit_on_def)

lemma ent_set: "set c \<subseteq> set d \<Longrightarrow> ent M c \<Longrightarrow> ent M d"
  by (fastforce simp: ent_def cl_on_def list_ex_iff)

lemma ent_mono: "N \<subseteq> M \<Longrightarrow> ent M c \<Longrightarrow> ent N c"
  by (auto simp: ent_def)

text \<open>Making a literal true.\<close>

definition set_lit :: "int \<Rightarrow> (nat \<Rightarrow> bool) \<Rightarrow> nat \<Rightarrow> bool" where
  "set_lit l a = a(nat \<bar>l\<bar> := l > 0)"

lemma set_lit_same [simp]: "l \<noteq> 0 \<Longrightarrow> lit_on (set_lit l a) l"
  by (auto simp: set_lit_def lit_on_def)

lemma set_lit_neg [simp]: "l \<noteq> 0 \<Longrightarrow> \<not> lit_on (set_lit l a) (- l)"
  by (auto simp: set_lit_def lit_on_def)

lemma set_lit_other: "\<bar>k\<bar> \<noteq> \<bar>l\<bar> \<Longrightarrow> lit_on (set_lit l a) k \<longleftrightarrow> lit_on a k"
  by (auto simp: set_lit_def lit_on_def nat_eq_iff split: if_splits)

lemma set_lit_true: "l \<noteq> 0 \<Longrightarrow> lit_on a l \<Longrightarrow> set_lit l a = a"
  by (auto simp: set_lit_def lit_on_def fun_eq_iff split: if_splits)

end
