(* ===== verification/Proof_Checker_Sound.thy ===== *)
theory Proof_Checker_Sound
  imports Proof_Checker Assignments
begin

text \<open>
  Soundness and memory safety of the proof checker.  \<open>M\<close> is a set of assignments, the models of
  the original clauses: every literal on the trail, every clause in the heap that is not
  garbage and every watch of a binary clause (even of a deleted one) holds in all of them.
\<close>

section \<open>The invariant\<close>

definition asg_ok :: "(nat \<Rightarrow> bool) set \<Rightarrow> checker \<Rightarrow> bool" where
  "asg_ok M s \<longleftrightarrow>
     (\<forall>l. ck_vals s l = (if l \<in> set (ck_trail s) then 1 else if - l \<in> set (ck_trail s) then - 1 else 0))
     \<and> (\<forall>l \<in> set (ck_trail s). l \<noteq> 0 \<and> \<bar>l\<bar> < ck_size_vars s \<and> (\<forall>a \<in> M. lit_on a l))
     \<and> distinct (map abs (ck_trail s)) \<and> ck_next s \<le> length (ck_trail s) \<and> 0 \<le> ck_size_vars s"

definition clause_ok :: "(nat \<Rightarrow> bool) set \<Rightarrow> int \<Rightarrow> cclause \<Rightarrow> bool" where
  "clause_ok M n c \<longleftrightarrow>
     2 \<le> cc_size c \<and> cc_size c = length (cc_lits c) \<and> distinct (cc_lits c) \<and> ent M (cc_lits c)
     \<and> (\<forall>l \<in> set (cc_lits c). l \<noteq> 0 \<and> \<bar>l\<bar> < n)"

definition heap_ok :: "(nat \<Rightarrow> bool) set \<Rightarrow> checker \<Rightarrow> bool" where
  "heap_ok M s \<longleftrightarrow>
     (\<forall>p c. ck_heap s p = Some c \<longrightarrow> p < ck_fresh s \<and> (cc_size c \<noteq> 0 \<longrightarrow> clause_ok M (ck_size_vars s) c))"

definition watch_ok :: "(nat \<Rightarrow> bool) set \<Rightarrow> checker \<Rightarrow> int \<Rightarrow> cwatch \<Rightarrow> bool" where
  "watch_ok M s l w \<longleftrightarrow>
     2 \<le> cw_size w \<and> cw_blit w \<noteq> 0 \<and> \<bar>cw_blit w\<bar> < ck_size_vars s
     \<and> (cw_size w = 2 \<longrightarrow> ent M [l, cw_blit w])
     \<and> (\<exists>c. ck_heap s (cw_clause w) = Some c
          \<and> (cc_size c \<noteq> 0 \<longrightarrow> cw_size w = cc_size c
              \<and> (2 < cw_size w \<longrightarrow> l = cc_lits c ! 0 \<or> l = cc_lits c ! 1)))"

definition large_clauses :: "cwatch list \<Rightarrow> nat list" where
  "large_clauses ws = map cw_clause (filter (\<lambda>w. 2 < cw_size w) ws)"

definition list_ok :: "(nat \<Rightarrow> bool) set \<Rightarrow> checker \<Rightarrow> int \<Rightarrow> cwatch list \<Rightarrow> bool" where
  "list_ok M s l ws \<longleftrightarrow>
     (ws \<noteq> [] \<longrightarrow> l \<noteq> 0 \<and> \<bar>l\<bar> < ck_size_vars s) \<and> (\<forall>w \<in> set ws. watch_ok M s l w)
     \<and> distinct (large_clauses ws)"

definition watches_ok :: "(nat \<Rightarrow> bool) set \<Rightarrow> checker \<Rightarrow> bool" where
  "watches_ok M s \<longleftrightarrow> (\<forall>l. list_ok M s l (ck_watchers s l))"

definition ck_inv :: "(nat \<Rightarrow> bool) set \<Rightarrow> (nat \<Rightarrow> bool) set \<Rightarrow> checker \<Rightarrow> bool" where
  "ck_inv M A s \<longleftrightarrow> A \<subseteq> M \<and> asg_ok A s \<and> heap_ok M s \<and> watches_ok M s"

lemma large_clauses_simps [simp]:
  "large_clauses [] = []"
  "large_clauses (w # ws) = (if 2 < cw_size w then cw_clause w # large_clauses ws else large_clauses ws)"
  "large_clauses (ws @ vs) = large_clauses ws @ large_clauses vs"
  by (simp_all add: large_clauses_def)

lemma large_clausesI: "w \<in> set ws \<Longrightarrow> 2 < cw_size w \<Longrightarrow> cw_clause w \<in> set (large_clauses ws)"
  by (simp add: large_clauses_def)

lemma vals_pos: "asg_ok M s \<Longrightarrow> ck_vals s l > 0 \<longleftrightarrow> l \<in> set (ck_trail s)"
  by (auto simp: asg_ok_def)

lemma trail_not_both: "asg_ok M s \<Longrightarrow> l \<in> set (ck_trail s) \<Longrightarrow> - l \<notin> set (ck_trail s)"
proof
  assume a: "asg_ok M s" "l \<in> set (ck_trail s)" "- l \<in> set (ck_trail s)"
  then have d: "distinct (map abs (ck_trail s))" "l \<noteq> 0" by (auto simp: asg_ok_def)
  from d(1) have "inj_on abs (set (ck_trail s))" by (simp add: distinct_map)
  from inj_onD [OF this _ a(2,3)] have "l = - l" by simp
  with d(2) show False by simp
qed

lemma vals_neg: "asg_ok M s \<Longrightarrow> ck_vals s l < 0 \<longleftrightarrow> - l \<in> set (ck_trail s)"
  using trail_not_both [of M s l] by (auto simp: asg_ok_def)

lemma vals_zero: "asg_ok M s \<Longrightarrow> ck_vals s l = 0 \<longleftrightarrow> l \<notin> set (ck_trail s) \<and> - l \<notin> set (ck_trail s)"
  by (auto simp: asg_ok_def)

lemma trail_true: "asg_ok M s \<Longrightarrow> l \<in> set (ck_trail s) \<Longrightarrow> a \<in> M \<Longrightarrow> lit_on a l"
  by (simp add: asg_ok_def)

lemma false_lit: "asg_ok M s \<Longrightarrow> ck_vals s l < 0 \<Longrightarrow> a \<in> M \<Longrightarrow> \<not> lit_on a l"
  using trail_true [of M s "- l" a] vals_neg [of M s l] by (cases "l = 0") (auto simp: asg_ok_def)

lemma assign_asg_ok:
  assumes "asg_ok M s" and "l \<noteq> 0" and "\<bar>l\<bar> < ck_size_vars s" and "ck_vals s l = 0"
    and "\<And>a. a \<in> M \<Longrightarrow> lit_on a l"
  shows "asg_ok M (assign l s)"
proof -
  have n: "l \<notin> set (ck_trail s)" "- l \<notin> set (ck_trail s)" using assms(4) vals_zero [OF assms(1)] by auto
  have "\<bar>l\<bar> \<notin> abs ` set (ck_trail s)"
  proof
    assume "\<bar>l\<bar> \<in> abs ` set (ck_trail s)"
    then obtain m where "m \<in> set (ck_trail s)" "\<bar>l\<bar> = \<bar>m\<bar>" by blast
    with n show False by (auto simp: abs_eq_iff)
  qed
  with assms n show ?thesis by (auto simp: asg_ok_def assign_def)
qed

lemma assign_fields [simp]:
  "ck_heap (assign l s) = ck_heap s" "ck_watchers (assign l s) = ck_watchers s"
  "ck_size_vars (assign l s) = ck_size_vars s" "ck_fresh (assign l s) = ck_fresh s"
  "ck_table (assign l s) = ck_table s" "ck_garbage (assign l s) = ck_garbage s"
  "ck_trail (assign l s) = ck_trail s @ [l]" "ck_inconsistent (assign l s) = ck_inconsistent s"
  "ck_simplified (assign l s) = ck_simplified s" "ck_next (assign l s) = ck_next s"
  by (simp_all add: assign_def)

text \<open>The invariant does not look at the other fields.\<close>

lemma inv_cong:
  assumes "ck_inv M A s" and "ck_vals t = ck_vals s" and "ck_trail t = ck_trail s" and "ck_next t \<le> length (ck_trail t)"
    and "ck_size_vars t = ck_size_vars s" and "ck_heap t = ck_heap s" and "ck_fresh t = ck_fresh s"
    and "ck_watchers t = ck_watchers s"
  shows "ck_inv M A t"
  using assms by (simp add: ck_inv_def asg_ok_def heap_ok_def watches_ok_def list_ok_def watch_ok_def)

lemma inv_assign:
  assumes "ck_inv M A s" and "l \<noteq> 0" and "\<bar>l\<bar> < ck_size_vars s" and "ck_vals s l = 0"
    and "\<And>a. a \<in> A \<Longrightarrow> lit_on a l"
  shows "ck_inv M A (assign l s)"
  using assms assign_asg_ok [of A s l]
  by (simp add: ck_inv_def heap_ok_def watches_ok_def list_ok_def watch_ok_def)

section \<open>A watch\<close>

text \<open>The state in which the list of \<open>l\<close> is \<open>ws\<close>.\<close>

definition with_watches :: "checker \<Rightarrow> int \<Rightarrow> cwatch list \<Rightarrow> checker" where
  "with_watches s l ws = s\<lparr>ck_watchers := (ck_watchers s)(l := ws)\<rparr>"

lemma with_watches_fields [simp]:
  "ck_heap (with_watches s l ws) = ck_heap s" "ck_watchers (with_watches s l ws) = (ck_watchers s)(l := ws)"
  "ck_size_vars (with_watches s l ws) = ck_size_vars s" "ck_fresh (with_watches s l ws) = ck_fresh s"
  "ck_table (with_watches s l ws) = ck_table s" "ck_garbage (with_watches s l ws) = ck_garbage s"
  "ck_trail (with_watches s l ws) = ck_trail s" "ck_inconsistent (with_watches s l ws) = ck_inconsistent s"
  "ck_simplified (with_watches s l ws) = ck_simplified s" "ck_next (with_watches s l ws) = ck_next s"
  "ck_vals (with_watches s l ws) = ck_vals s"
  by (simp_all add: with_watches_def)

lemma assign_with_watches: "assign b (with_watches s l ws) = with_watches (assign b s) l ws"
  by (simp add: assign_def with_watches_def)

text \<open>Which parts of the state propagation leaves alone.\<close>

definition frame :: "checker \<Rightarrow> checker \<Rightarrow> bool" where
  "frame s t \<longleftrightarrow>
     ck_size_vars t = ck_size_vars s \<and> ck_fresh t = ck_fresh s \<and> ck_table t = ck_table s
     \<and> ck_garbage t = ck_garbage s \<and> ck_inconsistent t = ck_inconsistent s
     \<and> ck_simplified t = ck_simplified s \<and> ck_num_clauses t = ck_num_clauses s
     \<and> ck_num_garbage t = ck_num_garbage s
     \<and> (\<exists>xs. ck_trail t = ck_trail s @ xs)
     \<and> (\<forall>p. map_option cc_size (ck_heap t p) = map_option cc_size (ck_heap s p))"

lemma frame_refl [simp]: "frame s s"
  by (simp add: frame_def)

lemma frame_trans: "frame s t \<Longrightarrow> frame t u \<Longrightarrow> frame s u"
  by (auto simp: frame_def)

lemma frame_assign [simp]: "frame s (assign l s)"
  by (simp add: frame_def assign_def)

lemma frame_set_clause: "ck_heap s p = Some c \<Longrightarrow> cc_size d = cc_size c \<Longrightarrow> frame s (set_clause p d s)"
  by (simp add: frame_def set_clause_def)

lemma frame_watchers: "frame s t \<Longrightarrow> frame s (t\<lparr>ck_watchers := W\<rparr>)"
  by (simp add: frame_def)

text \<open>Other literals of a clause first: the new first two literals cover its watches.\<close>

lemma inv_reorder:
  assumes "ck_inv M A s" and h: "ck_heap s p = Some c" and "cc_size c \<noteq> 0"
    and L: "set L = set (cc_lits c)" "length L = length (cc_lits c)" "distinct L"
    and w: "\<And>l w. w \<in> set (ck_watchers s l) \<Longrightarrow> cw_clause w = p \<Longrightarrow> 2 < cw_size w \<Longrightarrow> l = L ! 0 \<or> l = L ! 1"
  shows "ck_inv M A (set_clause p (c\<lparr>cc_lits := L\<rparr>) s)"
proof -
  have c: "clause_ok M (ck_size_vars s) c" using assms by (simp add: ck_inv_def heap_ok_def)
  then have "ent M L" using L(1) ent_set [of "cc_lits c" L M] by (simp add: clause_ok_def)
  with c L have c': "clause_ok M (ck_size_vars s) (c\<lparr>cc_lits := L\<rparr>)" by (simp add: clause_ok_def)
  let ?t = "set_clause p (c\<lparr>cc_lits := L\<rparr>) s"
  have "watch_ok M ?t l v" if "v \<in> set (ck_watchers s l)" for l v
  proof -
    have "list_ok M s l (ck_watchers s l)" using assms(1) by (simp add: ck_inv_def watches_ok_def)
    then have o: "watch_ok M s l v" using that by (simp add: list_ok_def)
    show ?thesis
    proof (cases "cw_clause v = p")
      case True
      with o h w [OF that True] assms(3) show ?thesis by (auto simp: watch_ok_def set_clause_def)
    next
      case False
      with o show ?thesis by (simp add: watch_ok_def set_clause_def)
    qed
  qed
  moreover have "heap_ok M ?t" using assms(1) c' h by (auto simp: ck_inv_def heap_ok_def set_clause_def)
  ultimately show ?thesis
    using assms(1) by (simp add: ck_inv_def watches_ok_def list_ok_def asg_ok_def set_clause_def)
qed


definition watch_result ::
  "(nat \<Rightarrow> bool) set \<Rightarrow> (nat \<Rightarrow> bool) set \<Rightarrow> int \<Rightarrow> cwatch list \<Rightarrow> cwatch list \<Rightarrow> checker \<Rightarrow> bool \<times> cwatch option \<times> checker \<Rightarrow> bool" where
  "watch_result M A nl kept ws s = (\<lambda>(ok, k, t).
     ck_inv M A (with_watches t nl (kept @ (case k of None \<Rightarrow> [] | Some w \<Rightarrow> [w]) @ ws))
     \<and> frame s t \<and> (\<not> ok \<longrightarrow> A = {}) \<and> ck_next t = ck_next s)"

lemma watch_result_simp [simp]:
  "watch_result M A nl kept ws s (ok, k, t) \<longleftrightarrow>
     ck_inv M A (with_watches t nl (kept @ (case k of None \<Rightarrow> [] | Some w \<Rightarrow> [w]) @ ws))
     \<and> frame s t \<and> (\<not> ok \<longrightarrow> A = {}) \<and> ck_next t = ck_next s"
  by (simp add: watch_result_def)

lemma list_ok_cong:
  "ck_heap t = ck_heap s \<Longrightarrow> ck_size_vars t = ck_size_vars s \<Longrightarrow> list_ok M t l ws \<longleftrightarrow> list_ok M s l ws"
  by (simp add: list_ok_def watch_ok_def)

lemma list_ok_with_watches [simp]: "list_ok M (with_watches s k W) l ws \<longleftrightarrow> list_ok M s l ws"
  by (rule list_ok_cong) simp_all

lemma asg_heap_with_watches [simp]:
  "asg_ok M (with_watches s k W) \<longleftrightarrow> asg_ok M s" "heap_ok M (with_watches s k W) \<longleftrightarrow> heap_ok M s"
  by (simp_all add: asg_ok_def heap_ok_def)

lemma inv_with_watches:
  "ck_inv M A (with_watches s l W) \<longleftrightarrow>
     A \<subseteq> M \<and> asg_ok A s \<and> heap_ok M s \<and> list_ok M s l W \<and> (\<forall>k. k \<noteq> l \<longrightarrow> list_ok M s k (ck_watchers s k))"
proof -
  have "(\<forall>k. list_ok M s k (((ck_watchers s)(l := W)) k))
      \<longleftrightarrow> list_ok M s l W \<and> (\<forall>k. k \<noteq> l \<longrightarrow> list_ok M s k (ck_watchers s k))"
    by (metis fun_upd_apply)
  then show ?thesis by (simp add: ck_inv_def watches_ok_def)
qed

lemma list_ok_sub:
  "list_ok M s l (us @ w # ws) \<Longrightarrow> list_ok M s l (us @ ws)"
  "list_ok M s l (us @ w # ws) \<Longrightarrow> watch_ok M s l w \<and> l \<noteq> 0 \<and> \<bar>l\<bar> < ck_size_vars s"
  by (auto simp: list_ok_def split: if_splits)

lemma prop_watch_binary:
  assumes i: "ck_inv M A (with_watches s nl (kept @ w # ws))" and nl: "nl \<noteq> 0" "- nl \<in> set (ck_trail s)"
    and n: "\<not> ck_vals s (cw_blit w) > 0" and two: "cw_size w = 2"
  shows "res_ok {} (watch_result M A nl kept ws s) (prop_watch (- nl) w s)"
proof -
  let ?b = "cw_blit w"
  have a: "asg_ok A s" using i by (simp add: ck_inv_def asg_ok_def)
  have w: "watch_ok M s nl w" using i list_ok_sub(2) by (auto simp: inv_with_watches)
  then have b: "?b \<noteq> 0" "\<bar>?b\<bar> < ck_size_vars s" and e: "ent M [nl, ?b]"
    using two by (auto simp: watch_ok_def)
  have "A \<subseteq> M" using i by (simp add: ck_inv_def)
  then have imp: "lit_on m ?b" if "m \<in> A" for m
    using e that trail_true [OF a nl(2) that] nl(1) by (auto simp: ent_def cl_on_def)
  show ?thesis
  proof (cases "ck_vals s ?b < 0")
    case True
    then have "A = {}" using false_lit [OF a True] imp by blast
    with True n two i show ?thesis
      by (simp add: prop_watch_def)
  next
    case False
    then have "ck_vals s ?b = 0" using n by simp
    then have "ck_inv M A (assign ?b (with_watches s nl (kept @ w # ws)))"
      using b imp by (intro inv_assign [OF i]) simp_all
    with False n two show ?thesis
      by (simp add: prop_watch_def assign_with_watches)
  qed
qed

lemma prop_watch_drop:
  assumes "ck_inv M A (with_watches s nl (kept @ w # ws))"
  shows "ck_inv M A (with_watches s nl (kept @ ws))"
  using assms list_ok_sub(1) by (auto simp: inv_with_watches)

lemma set_clause_fields [simp]:
  "ck_vals (set_clause p c s) = ck_vals s" "ck_trail (set_clause p c s) = ck_trail s"
  "ck_watchers (set_clause p c s) = ck_watchers s" "ck_next (set_clause p c s) = ck_next s"
  "ck_size_vars (set_clause p c s) = ck_size_vars s" "ck_fresh (set_clause p c s) = ck_fresh s"
  by (simp_all add: set_clause_def)

lemma push_watch_fields [simp]:
  "ck_vals (push_watch l w s) = ck_vals s" "ck_trail (push_watch l w s) = ck_trail s"
  "ck_heap (push_watch l w s) = ck_heap s" "ck_next (push_watch l w s) = ck_next s"
  "ck_size_vars (push_watch l w s) = ck_size_vars s" "ck_fresh (push_watch l w s) = ck_fresh s"
  "ck_watchers (push_watch l w s) = (ck_watchers s)(l := ck_watchers s l @ [w])"
  by (simp_all add: push_watch_def)

lemma push_eq_with_watches: "push_watch l w s = with_watches s l (ck_watchers s l @ [w])"
  by (simp add: push_watch_def with_watches_def)

lemma find_Some: "List.find P xs = Some x \<Longrightarrow> x \<in> set xs \<and> P x"
  by (induction xs) (auto split: if_splits)

lemma find_None: "List.find P xs = None \<Longrightarrow> x \<in> set xs \<Longrightarrow> \<not> P x"
  by (induction xs) (auto split: if_splits)

text \<open>What a watch of a large clause that is not garbage says.\<close>

lemma large_watch:
  assumes "ck_inv M A s" and "w \<in> set (ck_watchers s nl)" and "ck_heap s (cw_clause w) = Some c"
    and "cc_size c \<noteq> 0" and "cw_size w \<noteq> 2"
  defines "other \<equiv> xor (xor (cc_lits c ! 0) (cc_lits c ! 1)) nl"
  defines "L \<equiv> (cc_lits c)[0 := other, 1 := nl]"
  shows "clause_ok M (ck_size_vars s) c" and "cw_size w = length (cc_lits c)" and "2 < length (cc_lits c)"
    and "other \<in> set (cc_lits c)" and "{cc_lits c ! 0, cc_lits c ! 1} = {other, nl}"
    and "set L = set (cc_lits c)" and "length L = length (cc_lits c)" and "distinct L"
    and "L ! 0 = other" and "L ! 1 = nl" and "other \<noteq> nl"
proof -
  let ?ls = "cc_lits c"
  have "list_ok M s nl (ck_watchers s nl)" using assms(1) by (simp add: ck_inv_def watches_ok_def)
  then have w: "watch_ok M s nl w" using assms(2) by (simp add: list_ok_def)
  show c: "clause_ok M (ck_size_vars s) c" using assms by (simp add: ck_inv_def heap_ok_def)
  show len: "cw_size w = length ?ls" "2 < length ?ls"
    using w c assms(3-5) by (auto simp: watch_ok_def clause_ok_def)
  have d: "distinct ?ls" using c by (simp add: clause_ok_def)
  have "nl = ?ls ! 0 \<or> nl = ?ls ! 1" using w len assms(3,4) by (auto simp: watch_ok_def)
  then consider "nl = ?ls ! 0" "other = ?ls ! 1" | "nl = ?ls ! 1" "other = ?ls ! 0"
    unfolding other_def using xor_other by blast
  note cs = this
  obtain a b r where ls: "?ls = a # b # r" using len by (cases ?ls; cases "tl ?ls") auto
  have "L = other # nl # r" by (simp add: L_def ls)
  with cs ls d show "other \<in> set ?ls" "{?ls ! 0, ?ls ! 1} = {other, nl}" "set L = set ?ls"
    "length L = length ?ls" "distinct L" "L ! 0 = other" "L ! 1 = nl" "other \<noteq> nl"
    by auto
qed

lemma distinct_nth_ne: "distinct L \<Longrightarrow> 2 \<le> k \<Longrightarrow> k < length L \<Longrightarrow> L ! k \<noteq> L ! 0 \<and> L ! k \<noteq> L ! 1"
proof -
  assume d: "distinct L" "2 \<le> k" "k < length L"
  then have "0 < length L" "1 < length L" by linarith+
  with d nth_eq_iff_index_eq [of L k 0] nth_eq_iff_index_eq [of L k 1] show ?thesis by auto
qed

lemma prop_watch_large:
  assumes i: "ck_inv M A (with_watches s nl (kept @ w # ws))" and nl: "nl \<noteq> 0" "- nl \<in> set (ck_trail s)"
    and n: "\<not> ck_vals s (cw_blit w) > 0" and two: "cw_size w \<noteq> 2"
  shows "res_ok {} (watch_result M A nl kept ws s) (prop_watch (- nl) w s)"
proof -
  let ?W = "kept @ w # ws" and ?p = "cw_clause w"
  let ?s = "with_watches s nl ?W"
  have a: "asg_ok A s" and L0: "list_ok M s nl ?W" using i by (simp_all add: inv_with_watches)
  obtain c where h: "ck_heap s ?p = Some c"
    using list_ok_sub(2) [OF L0] by (auto simp: watch_ok_def)
  show ?thesis
  proof (cases "cc_size c = 0")
    case True
    with n two h prop_watch_drop [OF i] show ?thesis by (simp add: prop_watch_def deref_def)
  next
    case False
    define other where "other = xor (xor (cc_lits c ! 0) (cc_lits c ! 1)) nl"
    define L where "L = (cc_lits c)[0 := other, 1 := nl]"
    have "w \<in> set (ck_watchers ?s nl)" "ck_heap ?s ?p = Some c" using h by simp_all
    note C = large_watch [OF i this False two, folded other_def, folded L_def]
    have other: "other \<noteq> 0" "\<bar>other\<bar> < ck_size_vars s" using C(1,4) by (auto simp: clause_ok_def)
    have inv1: "ck_inv M A (set_clause ?p (c\<lparr>cc_lits := L\<rparr>) ?s)"
    proof (rule inv_reorder [OF i _ False C(6) C(7) C(8)])
      fix l v assume v: "v \<in> set (ck_watchers ?s l)" "cw_clause v = ?p" "2 < cw_size v"
      have "list_ok M s l (ck_watchers ?s l)" using i by (cases "l = nl") (simp_all add: inv_with_watches)
      then have "watch_ok M s l v" using v(1) by (auto simp: list_ok_def)
      with v h False have "l \<in> {cc_lits c ! 0, cc_lits c ! 1}" by (auto simp: watch_ok_def)
      then show "l = L ! 0 \<or> l = L ! 1" using C(5,9,10) by auto
    qed (use h in simp)
    have run0: "prop_watch (- nl) w s = Inr (prop_large nl w c s)"
      using n two h False by (simp add: prop_watch_def deref_def)
    have run: "prop_large nl w c s =
        (if ck_vals s other > 0 then (True, Some (w\<lparr>cw_blit := other\<rparr>), s)
         else case List.find (\<lambda>k. ck_vals s (L ! k) \<ge> 0) [2 ..< cw_size w] of
              Some k \<Rightarrow>
                (True, None,
                  set_clause ?p (c\<lparr>cc_lits := L[1 := L ! k, k := L ! 1]\<rparr>)
                    (push_watch (L ! k) \<lparr>cw_blit = nl, cw_size = cc_size c, cw_clause = ?p\<rparr> s))
            | None \<Rightarrow>
                let s' = set_clause ?p (c\<lparr>cc_lits := L\<rparr>) s in
                if ck_vals s other = 0 then (True, Some w, assign other s') else (False, Some w, s'))"
      unfolding prop_large_def L_def other_def Let_def by (rule refl)
    consider (sat) "ck_vals s other > 0"
      | (repl) k where "\<not> ck_vals s other > 0" "List.find (\<lambda>k. ck_vals s (L ! k) \<ge> 0) [2 ..< cw_size w] = Some k"
      | (all) "\<not> ck_vals s other > 0" "List.find (\<lambda>k. ck_vals s (L ! k) \<ge> 0) [2 ..< cw_size w] = None"
      by (cases "List.find (\<lambda>k. ck_vals s (L ! k) \<ge> 0) [2 ..< cw_size w]") auto
    then show ?thesis
    proof cases
      case sat
      have "list_ok M s nl (kept @ w\<lparr>cw_blit := other\<rparr> # ws)"
        using L0 two other by (auto simp: list_ok_def watch_ok_def)
      then have "ck_inv M A (with_watches s nl (kept @ w\<lparr>cw_blit := other\<rparr> # ws))"
        using i by (simp add: inv_with_watches)
      with sat run0 run show ?thesis by simp
    next
      case all
      have eq: "set_clause ?p (c\<lparr>cc_lits := L\<rparr>) ?s = with_watches (set_clause ?p (c\<lparr>cc_lits := L\<rparr>) s) nl ?W"
        by (simp add: set_clause_def with_watches_def)
      have false: "ck_vals s l < 0" if l: "l \<in> set L" "l \<noteq> other" for l
      proof -
        obtain k where k: "k < length L" "l = L ! k" using l(1) by (auto simp: in_set_conv_nth)
        then have "k \<noteq> 0" using l(2) C(9) by metis
        show ?thesis
        proof (cases "k = 1")
          case True
          then show ?thesis using k C(10) nl(2) vals_neg [OF a] by simp
        next
          case False
          then have "k \<in> set [2 ..< cw_size w]" using \<open>k \<noteq> 0\<close> k C(2,7) by auto
          from find_None [OF all(2) this] k show ?thesis by simp
        qed
      qed
      have imp: "lit_on m other" if "m \<in> A" for m
      proof -
        have "m \<in> M" using that i by (auto simp: ck_inv_def)
        then have "cl_on m (cc_lits c)" using C(1) by (auto simp: clause_ok_def ent_def)
        then obtain l where "l \<in> set L" "lit_on m l" using C(6) by (auto simp: cl_on_def list_ex_iff)
        with false [of l] false_lit [OF a _ that] show ?thesis by blast
      qed
      have fr: "frame s (set_clause ?p (c\<lparr>cc_lits := L\<rparr>) s)" by (rule frame_set_clause [OF h]) simp
      show ?thesis
      proof (cases "ck_vals s other = 0")
        case True
        then have "ck_inv M A (assign other (set_clause ?p (c\<lparr>cc_lits := L\<rparr>) ?s))"
          using other imp by (intro inv_assign [OF inv1]) simp_all
        with True all run0 run fr show ?thesis
          unfolding eq assign_with_watches by (auto simp: Let_def intro: frame_trans)
      next
        case False
        then have "ck_vals s other < 0" using all(1) by simp
        then have "A = {}" using false_lit [OF a] imp by blast
        with False all run0 run fr inv1 show ?thesis unfolding eq by (simp add: Let_def)
      qed
    next
      case (repl k)
      have k: "2 \<le> k" "k < length L" "ck_vals s (L ! k) \<ge> 0"
        using find_Some [OF repl(2)] C(2,7) by auto
      let ?r = "L ! k" and ?N = "L[1 := L ! k, k := L ! 1]"
      let ?new = "\<lparr>cw_blit = nl, cw_size = cc_size c, cw_clause = ?p\<rparr>"
      have r: "?r \<noteq> other" "?r \<noteq> nl" "?r \<in> set (cc_lits c)"
        using distinct_nth_ne [OF C(8) k(1,2)] C(6,9,10) k(2) nth_mem by auto
      have r': "?r \<noteq> 0" "\<bar>?r\<bar> < ck_size_vars s" using C(1) r(3) by (auto simp: clause_ok_def)
      have Lr: "list_ok M s ?r (ck_watchers s ?r)" using i r(2) by (simp add: inv_with_watches)
      have sz: "cc_size c = cw_size w" "2 < cc_size c" using C(1-3) by (auto simp: clause_ok_def)
      have notin: "?p \<notin> set (large_clauses (ck_watchers s ?r))"
      proof
        assume "?p \<in> set (large_clauses (ck_watchers s ?r))"
        then obtain v where "v \<in> set (ck_watchers s ?r)" "cw_clause v = ?p" "2 < cw_size v"
          by (auto simp: large_clauses_def)
        with Lr h False have "?r \<in> {cc_lits c ! 0, cc_lits c ! 1}" by (auto simp: list_ok_def watch_ok_def)
        with C(5) r show False by simp
      qed
      let ?u = "set_clause ?p (c\<lparr>cc_lits := ?N\<rparr>) (with_watches s nl (kept @ ws))"
      have N: "set ?N = set (cc_lits c)" "length ?N = length (cc_lits c)" "distinct ?N"
        "?N ! 0 = other" "?N ! 1 = ?r"
        using C(6-9) k by (simp_all add: set_swap distinct_swap nth_list_update)
      have gone: "?p \<notin> set (large_clauses (kept @ ws))"
        using L0 sz by (auto simp: list_ok_def)
      have inv2: "ck_inv M A ?u"
      proof (rule inv_reorder [OF prop_watch_drop [OF i] _ False N(1) N(2) N(3)])
        fix l v assume v: "v \<in> set (ck_watchers (with_watches s nl (kept @ ws)) l)" "cw_clause v = ?p" "2 < cw_size v"
        have "l \<noteq> nl"
        proof
          assume "l = nl"
          with v large_clausesI [of v "kept @ ws"] gone show False by simp
        qed
        with v i have "watch_ok M s l v" by (auto simp: inv_with_watches list_ok_def)
        with v h False have "l \<in> {cc_lits c ! 0, cc_lits c ! 1}" by (auto simp: watch_ok_def)
        with \<open>l \<noteq> nl\<close> C(5) N(4) show "l = ?N ! 0 \<or> l = ?N ! 1" by auto
      qed (use h in simp)
      have nlr: "nl \<noteq> 0 \<and> \<bar>nl\<bar> < ck_size_vars s" using list_ok_sub(2) [OF L0] by simp
      have "watch_ok M ?u ?r ?new"
        using sz nlr N(5) False by (simp add: watch_ok_def set_clause_def)
      moreover have "list_ok M ?u ?r (ck_watchers s ?r)"
        using inv2 r(2) by (auto simp: ck_inv_def watches_ok_def dest: spec [of _ ?r])
      ultimately have "list_ok M ?u ?r (ck_watchers s ?r @ [?new])"
        using notin r' by (auto simp: list_ok_def set_clause_def)
      with inv2 have "ck_inv M A (with_watches ?u ?r (ck_watchers s ?r @ [?new]))"
        by (simp add: inv_with_watches ck_inv_def watches_ok_def)
      moreover have "with_watches ?u ?r (ck_watchers s ?r @ [?new])
          = with_watches (set_clause ?p (c\<lparr>cc_lits := ?N\<rparr>) (push_watch ?r ?new s)) nl (kept @ ws)"
        using r(2) by (simp add: with_watches_def set_clause_def push_watch_def fun_upd_twist)
      moreover have "frame s (set_clause ?p (c\<lparr>cc_lits := ?N\<rparr>) (push_watch ?r ?new s))"
        using h by (simp add: frame_def set_clause_def push_watch_def)
      ultimately show ?thesis using repl run0 run by simp
    qed
  qed
qed

section \<open>Propagation\<close>

lemma prop_watch_ok:
  assumes i: "ck_inv M A (with_watches s nl (kept @ w # ws))" and nl: "nl \<noteq> 0" "- nl \<in> set (ck_trail s)"
  shows "res_ok {} (watch_result M A nl kept ws s) (prop_watch (- nl) w s)"
proof (cases "ck_vals s (cw_blit w) > 0")
  case True
  with i show ?thesis by (simp add: prop_watch_def)
next
  case False
  then show ?thesis
    using prop_watch_binary [OF i nl] prop_watch_large [OF i nl] by blast
qed

definition list_result ::
  "(nat \<Rightarrow> bool) set \<Rightarrow> (nat \<Rightarrow> bool) set \<Rightarrow> int \<Rightarrow> checker \<Rightarrow> bool \<times> cwatch list \<times> checker \<Rightarrow> bool" where
  "list_result M A nl s = (\<lambda>(ok, ws, t).
     ck_inv M A (with_watches t nl ws) \<and> frame s t \<and> (\<not> ok \<longrightarrow> A = {}) \<and> ck_next t = ck_next s)"

lemma prop_list_ok:
  assumes "ck_inv M A (with_watches s nl (kept @ ws))" and "nl \<noteq> 0" and "- nl \<in> set (ck_trail s)"
  shows "res_ok {} (list_result M A nl s) (prop_list (- nl) ws kept s)"
  using assms
proof (induction ws arbitrary: kept s)
  case Nil
  then show ?case by (simp add: list_result_def)
next
  case (Cons w ws)
  from prop_watch_ok [OF Cons.prems] obtain ok k t
    where p: "prop_watch (- nl) w s = Inr (ok, k, t)" and r: "watch_result M A nl kept ws s (ok, k, t)"
    by (cases "prop_watch (- nl) w s") auto
  let ?kept = "kept @ (case k of None \<Rightarrow> [] | Some w \<Rightarrow> [w])"
  have inv: "ck_inv M A (with_watches t nl (?kept @ ws))" and fr: "frame s t" using r by simp_all
  show ?case
  proof (cases ok)
    case True
    have "- nl \<in> set (ck_trail t)" using fr Cons.prems(3) by (auto simp: frame_def)
    from Cons.IH [OF inv Cons.prems(2) this]
    have "res_ok {} (list_result M A nl t) (prop_list (- nl) ws ?kept t)" .
    then have "res_ok {} (list_result M A nl s) (prop_list (- nl) ws ?kept t)"
      using fr r by (auto elim!: res_ok_mono simp: list_result_def intro: frame_trans)
    with p True show ?thesis by simp
  next
    case False
    with p r show ?thesis by (auto simp: list_result_def)
  qed
qed

definition prop_result :: "(nat \<Rightarrow> bool) set \<Rightarrow> (nat \<Rightarrow> bool) set \<Rightarrow> checker \<Rightarrow> bool \<times> checker \<Rightarrow> bool" where
  "prop_result M A s = (\<lambda>(ok, t). ck_inv M A t \<and> frame s t \<and> (\<not> ok \<longrightarrow> A = {}))"

lemma prop_lit_ok:
  assumes "ck_inv M A s" and "lit \<in> set (ck_trail s)"
  shows "res_ok {} (\<lambda>(ok, t). prop_result M A s (ok, t) \<and> ck_next t = ck_next s) (prop_lit lit s)"
proof -
  have "lit \<noteq> 0" using assms by (auto simp: ck_inv_def asg_ok_def)
  have "ck_inv M A (with_watches s (- lit) ([] @ ck_watchers s (- lit)))"
    using assms(1) by (simp add: with_watches_def)
  from prop_list_ok [OF this] \<open>lit \<noteq> 0\<close> assms(2)
  have "res_ok {} (list_result M A (- lit) s) (prop_list lit (ck_watchers s (- lit)) [] s)" by simp
  then show ?thesis
    unfolding prop_lit_def
    by (rule res_ok_bind) (auto simp: list_result_def prop_result_def with_watches_def frame_def)
qed

lemma trail_short:
  assumes "asg_ok M s"
  shows "length (ck_trail s) \<le> nat (ck_size_vars s)"
proof -
  have "abs ` set (ck_trail s) \<subseteq> {1 ..< ck_size_vars s}"
    using assms by (fastforce simp: asg_ok_def)
  from card_mono [OF _ this] have "card (abs ` set (ck_trail s)) \<le> nat (ck_size_vars s - 1)" by simp
  moreover have "card (set (map abs (ck_trail s))) = length (ck_trail s)"
    using assms distinct_card [of "map abs (ck_trail s)"] by (simp add: asg_ok_def)
  ultimately show ?thesis by simp
qed

lemma propagate_ok:
  assumes "ck_inv M A s" and "nat (ck_size_vars s) - ck_next s \<le> fuel"
  shows "res_ok {} (prop_result M A s) (propagate fuel s)"
  using assms
proof (induction fuel arbitrary: s)
  case 0
  then have "\<not> ck_next s < length (ck_trail s)" using trail_short [of A s] by (simp add: ck_inv_def)
  with 0 show ?case by (simp add: propagate.simps [of 0] prop_result_def)
next
  case (Suc fuel)
  show ?case
  proof (cases "ck_next s < length (ck_trail s)")
    case False
    with Suc.prems show ?thesis by (simp add: propagate.simps [of "Suc fuel"] prop_result_def)
  next
    case True
    let ?s = "s\<lparr>ck_next := ck_next s + 1\<rparr>" and ?l = "ck_trail s ! ck_next s"
    have i: "ck_inv M A ?s" by (rule inv_cong [OF Suc.prems(1)]) (use True in auto)
    have "?l \<in> set (ck_trail ?s)" using True by simp
    from prop_lit_ok [OF i this] obtain ok t where p: "prop_lit ?l ?s = Inr (ok, t)"
      and r: "prop_result M A ?s (ok, t)" and n: "ck_next t = ck_next s + 1"
      by (cases "prop_lit ?l ?s") auto
    have fr: "frame s t" using r by (simp add: prop_result_def frame_def)
    show ?thesis
    proof (cases ok)
      case False
      with True p r fr show ?thesis by (auto simp: propagate.simps [of "Suc fuel"] prop_result_def)
    next
      case ok: True
      have "ck_size_vars t = ck_size_vars s" using fr by (simp add: frame_def)
      then have "res_ok {} (prop_result M A t) (propagate fuel t)"
        using r n Suc.prems(2) by (intro Suc.IH) (auto simp: prop_result_def)
      then have "res_ok {} (prop_result M A s) (propagate fuel t)"
        using fr by (auto elim!: res_ok_mono simp: prop_result_def intro: frame_trans)
      with True p ok show ?thesis by (simp add: propagate.simps [of "Suc fuel"])
    qed
  qed
qed

lemma propagate_all_ok: "ck_inv M A s \<Longrightarrow> res_ok {} (prop_result M A s) (propagate_all s)"
  unfolding propagate_all_def by (rule propagate_ok) simp_all

end
