(* ===== verification/Proof_Checker_Add.thy ===== *)
theory Proof_Checker_Add
  imports Proof_Checker_Sound
begin

text \<open>
  The implication check of the proof checker, the import of clauses, and the insertion of a
  clause with the hash table it goes to.
\<close>

section \<open>Backtracking\<close>

lemma unassign_fold:
  "ck_vals (fold unassign ls s) l = (if l \<in> set ls \<or> - l \<in> set ls then 0 else ck_vals s l)"
  by (induction ls arbitrary: s) (auto simp: unassign_def)

lemma unassign_fold_fields [simp]:
  "ck_heap (fold unassign ls s) = ck_heap s" "ck_watchers (fold unassign ls s) = ck_watchers s"
  "ck_size_vars (fold unassign ls s) = ck_size_vars s" "ck_fresh (fold unassign ls s) = ck_fresh s"
  "ck_table (fold unassign ls s) = ck_table s" "ck_garbage (fold unassign ls s) = ck_garbage s"
  "ck_trail (fold unassign ls s) = ck_trail s" "ck_inconsistent (fold unassign ls s) = ck_inconsistent s"
  "ck_simplified (fold unassign ls s) = ck_simplified s" "ck_num_clauses (fold unassign ls s) = ck_num_clauses s"
  "ck_num_garbage (fold unassign ls s) = ck_num_garbage s" "ck_last_hash (fold unassign ls s) = ck_last_hash s"
  "ck_nonces (fold unassign ls s) = ck_nonces s"
  by (induction ls arbitrary: s) (simp_all add: unassign_def)

lemma backtrack_fields [simp]:
  "ck_heap (backtrack n s) = ck_heap s" "ck_watchers (backtrack n s) = ck_watchers s"
  "ck_size_vars (backtrack n s) = ck_size_vars s" "ck_fresh (backtrack n s) = ck_fresh s"
  "ck_table (backtrack n s) = ck_table s" "ck_garbage (backtrack n s) = ck_garbage s"
  "ck_trail (backtrack n s) = take n (ck_trail s)" "ck_inconsistent (backtrack n s) = ck_inconsistent s"
  "ck_simplified (backtrack n s) = ck_simplified s" "ck_num_clauses (backtrack n s) = ck_num_clauses s"
  "ck_num_garbage (backtrack n s) = ck_num_garbage s" "ck_last_hash (backtrack n s) = ck_last_hash s"
  "ck_nonces (backtrack n s) = ck_nonces s" "ck_next (backtrack n s) = n"
  by (simp_all add: backtrack_def)

lemma backtrack_inv:
  assumes i: "ck_inv M A t" and n: "n \<le> length (ck_trail t)"
    and M: "\<And>l a. l \<in> set (take n (ck_trail t)) \<Longrightarrow> a \<in> M \<Longrightarrow> lit_on a l"
  shows "ck_inv M M (backtrack n t)"
proof -
  let ?ys = "take n (ck_trail t)" and ?zs = "drop n (ck_trail t)"
  have a: "asg_ok A t" using i by (simp add: ck_inv_def)
  have tr: "ck_trail t = ?ys @ ?zs" by simp
  have d: "distinct (map abs ?ys @ map abs ?zs)"
    using a unfolding asg_ok_def by (metis append_take_drop_id map_append)
  have apart: "l \<notin> set ?zs \<and> - l \<notin> set ?zs" if "l \<in> set ?ys \<or> - l \<in> set ?ys" for l
  proof -
    have "\<bar>l\<bar> \<in> abs ` set ?ys" using that by (metis abs_minus_cancel imageI)
    then have "\<bar>l\<bar> \<notin> abs ` set ?zs" using d by (auto simp: image_iff)
    then show ?thesis by (metis abs_minus_cancel imageI)
  qed
  have "ck_vals (backtrack n t) l = (if l \<in> set ?ys then 1 else if - l \<in> set ?ys then - 1 else 0)" for l
  proof -
    have u: "set (ck_trail t) = set ?ys \<union> set ?zs" using tr by (metis set_append)
    have v: "ck_vals t l = (if l \<in> set (ck_trail t) then 1 else if - l \<in> set (ck_trail t) then - 1 else 0)"
      using a by (simp add: asg_ok_def)
    show ?thesis using apart [of l] by (auto simp: backtrack_def unassign_fold v u)
  qed
  moreover have "distinct (map abs ?ys)" using d by simp
  moreover have "set ?ys \<subseteq> set (ck_trail t)" by (rule set_take_subset)
  ultimately have "asg_ok M (backtrack n t)"
    using a n M by (auto simp: asg_ok_def backtrack_def)
  with i show ?thesis
    by (simp add: ck_inv_def heap_ok_def watches_ok_def list_ok_def watch_ok_def backtrack_def)
qed

section \<open>The implication check\<close>

text \<open>What \<open>tautological\<close> leaves in \<open>simplified\<close> when it returns false.\<close>

definition simple :: "checker \<Rightarrow> bool" where
  "simple s \<longleftrightarrow> distinct (ck_simplified s)
     \<and> (\<forall>l \<in> set (ck_simplified s).
          l \<noteq> 0 \<and> \<bar>l\<bar> < ck_size_vars s \<and> \<bar>l\<bar> \<le> INT_MAX \<and> - l \<notin> set (ck_simplified s) \<and> \<not> ck_vals s l > 0)"

lemma inv_sub: "ck_inv M A s \<Longrightarrow> B \<subseteq> A \<Longrightarrow> ck_inv M B s"
  by (auto simp: ck_inv_def asg_ok_def)

lemma assume_all:
  assumes "ck_inv M A s" and "\<And>l. l \<in> set ls \<Longrightarrow> l \<noteq> 0 \<and> \<bar>l\<bar> < ck_size_vars s \<and> - l \<notin> set ls \<and> \<not> ck_vals s l > 0"
    and "\<And>l a. l \<in> set ls \<Longrightarrow> a \<in> A \<Longrightarrow> \<not> lit_on a l"
  shows "ck_inv M A (fold (\<lambda>lit. assume_lit (- lit)) ls s) \<and> frame s (fold (\<lambda>lit. assume_lit (- lit)) ls s)"
  using assms
proof (induction ls arbitrary: s)
  case Nil
  then show ?case by simp
next
  case (Cons l ls)
  have a: "asg_ok A s" using Cons.prems(1) by (simp add: ck_inv_def)
  have l: "l \<noteq> 0" "\<bar>l\<bar> < ck_size_vars s" "\<not> ck_vals s l > 0" using Cons.prems(2) [of l] by auto
  have nl: "\<not> ck_vals s (- l) < 0" using l(3) vals_pos [OF a, of l] vals_neg [OF a, of "- l"] by simp
  let ?t = "assume_lit (- l) s"
  have t: "ck_inv M A ?t" "frame s ?t"
    using l nl Cons.prems(1,3) inv_assign [of M A s "- l"] by (auto simp: assume_lit_def)
  have sz: "ck_size_vars ?t = ck_size_vars s" using t(2) by (simp add: frame_def)
  have "m \<noteq> 0 \<and> \<bar>m\<bar> < ck_size_vars ?t \<and> - m \<notin> set ls \<and> \<not> ck_vals ?t m > 0" if m: "m \<in> set ls" for m
  proof -
    have p: "m \<noteq> 0 \<and> \<bar>m\<bar> < ck_size_vars s \<and> - m \<notin> set (l # ls) \<and> \<not> ck_vals s m > 0"
      using m Cons.prems(2) [of m] by simp
    then have "- l \<noteq> m" by auto
    with p sz show ?thesis by (auto simp: assume_lit_def assign_def)
  qed
  from Cons.IH [OF t(1) this] Cons.prems(3) t(2) show ?case by (auto intro: frame_trans)
qed

lemma frame_backtrack:
  assumes "frame s t" and "n \<le> length (ck_trail s)"
  shows "ck_trail (backtrack n t) = take n (ck_trail s)" and "ck_size_vars (backtrack n t) = ck_size_vars s"
    and "ck_simplified (backtrack n t) = ck_simplified s"
proof -
  obtain xs where "ck_trail t = ck_trail s @ xs" using assms(1) by (auto simp: frame_def)
  then show "ck_trail (backtrack n t) = take n (ck_trail s)" using assms(2) by simp
  show "ck_size_vars (backtrack n t) = ck_size_vars s" "ck_simplified (backtrack n t) = ck_simplified s"
    using assms(1) by (simp_all only: backtrack_fields frame_def)
qed

text \<open>
  The checker keeps its invariant, does not fail, and accepts a clause only if it is implied.
\<close>

definition checker_frame :: "checker \<Rightarrow> checker \<Rightarrow> bool" where
  "checker_frame s t \<longleftrightarrow>
     ck_size_vars t = ck_size_vars s \<and> ck_fresh t = ck_fresh s \<and> ck_table t = ck_table s
     \<and> ck_garbage t = ck_garbage s \<and> ck_inconsistent t = ck_inconsistent s
     \<and> ck_simplified t = ck_simplified s \<and> ck_num_clauses t = ck_num_clauses s
     \<and> ck_num_garbage t = ck_num_garbage s
     \<and> (\<forall>p. map_option cc_size (ck_heap t p) = map_option cc_size (ck_heap s p))"

lemma frame_checker_frame: "frame s t \<Longrightarrow> checker_frame s t"
  by (simp add: frame_def checker_frame_def)

lemma checker_frame_backtrack: "checker_frame s t \<Longrightarrow> checker_frame s (backtrack n t)"
  by (simp add: checker_frame_def)

lemma check_ok:
  assumes i: "ck_inv M M s" and c: "simple s" and "\<not> ck_inconsistent s"
  shows "res_ok {} (\<lambda>(ok, t). ck_inv M M t \<and> checker_frame s t \<and> simple t \<and> (ok \<longrightarrow> ent M (ck_simplified s))) (check s)"
proof -
  let ?A = "{a \<in> M. \<not> cl_on a (ck_simplified s)}"
  let ?s = "fold (\<lambda>lit. assume_lit (- lit)) (ck_simplified s) s"
  have a: "asg_ok M s" using i by (simp add: ck_inv_def)
  have n: "ck_next s \<le> length (ck_trail s)" using a by (simp add: asg_ok_def)
  have A: "ck_inv M ?A s" by (rule inv_sub [OF i]) auto
  have "ck_inv M ?A ?s \<and> frame s ?s"
  proof (rule assume_all [OF A])
    show "l \<noteq> 0 \<and> \<bar>l\<bar> < ck_size_vars s \<and> - l \<notin> set (ck_simplified s) \<and> \<not> ck_vals s l > 0"
      if "l \<in> set (ck_simplified s)" for l using c that by (simp add: simple_def)
    show "\<not> lit_on a l" if "l \<in> set (ck_simplified s)" "a \<in> ?A" for l a
      using that by (auto simp: cl_on_def list_ex_iff)
  qed
  then have s: "ck_inv M ?A ?s" "frame s ?s" by blast+
  from propagate_all_ok [OF s(1)]
  have "res_ok {} (\<lambda>(ok, t). ck_inv M M t \<and> checker_frame s t \<and> simple t \<and> (ok \<longrightarrow> ent M (ck_simplified s)))
      (bind_res (propagate_all ?s) (\<lambda>(ok, s'). Inr (\<not> ok, backtrack (ck_next s) s')))"
  proof (rule res_ok_bind)
    fix r assume "prop_result M ?A ?s r"
    then obtain ok t where r: "r = (ok, t)" and t: "ck_inv M ?A t" "frame ?s t" "\<not> ok \<Longrightarrow> ?A = {}"
      by (cases r) (auto simp: prop_result_def)
    have f: "frame s t" using s(2) t(2) by (rule frame_trans)
    then obtain xs where xs: "ck_trail t = ck_trail s @ xs" by (auto simp: frame_def)
    have "set (take (ck_next s) (ck_trail t)) \<subseteq> set (ck_trail s)"
      using n set_take_subset [of "ck_next s" "ck_trail s"] by (simp add: xs)
    then have b: "ck_inv M M (backtrack (ck_next s) t)"
      using n xs trail_true [OF a] by (intro backtrack_inv [OF t(1)]) auto
    have eq: "ck_trail (backtrack (ck_next s) t) = take (ck_next s) (ck_trail s)"
      by (rule frame_backtrack(1) [OF f n])
    have "simple (backtrack (ck_next s) t)"
      unfolding simple_def
    proof (intro conjI ballI)
      fix l assume "l \<in> set (ck_simplified (backtrack (ck_next s) t))"
      then have l: "l \<in> set (ck_simplified s)" using frame_backtrack(3) [OF f n] by simp
      have "l \<notin> set (ck_trail s)" using l c vals_pos [OF a] by (auto simp: simple_def)
      then have "l \<notin> set (ck_trail (backtrack (ck_next s) t))" unfolding eq by (auto dest: in_set_takeD)
      moreover have "asg_ok M (backtrack (ck_next s) t)" using b by (simp add: ck_inv_def)
      ultimately show "\<not> ck_vals (backtrack (ck_next s) t) l > 0" using vals_pos by metis
    qed (use c f in \<open>auto simp: simple_def frame_def\<close>)
    moreover have "ent M (ck_simplified s)" if "\<not> ok" using t(3) [OF that] by (auto simp: ent_def)
    ultimately show "res_ok {} (\<lambda>(ok, t). ck_inv M M t \<and> checker_frame s t \<and> simple t \<and> (ok \<longrightarrow> ent M (ck_simplified s)))
        (case r of (ok, s') \<Rightarrow> Inr (\<not> ok, backtrack (ck_next s) s'))"
      using b checker_frame_backtrack [OF frame_checker_frame [OF f]] by (auto simp: r)
  qed
  with assms(3) show ?thesis by (simp add: check_def)
qed

section \<open>Importing a clause\<close>

lemma enlarge_size_above: "0 < n \<Longrightarrow> idx < enlarge_size idx n"
  by (induction idx n rule: enlarge_size.induct) (subst enlarge_size.simps, auto)

lemma inv_enlarge:
  assumes "ck_inv M A s"
  shows "ck_inv M A (enlarge_vars idx s)" and "idx < ck_size_vars (enlarge_vars idx s)"
proof -
  let ?new = "enlarge_size idx (if ck_size_vars s \<noteq> 0 then 2 * ck_size_vars s else 2)"
  have a: "asg_ok A s" using assms by (simp add: ck_inv_def)
  then have old: "0 \<le> ck_size_vars s" by (simp add: asg_ok_def)
  have ge: "n \<le> enlarge_size idx n" if "0 < n" for n
    using that by (induction idx n rule: enlarge_size.induct) (subst enlarge_size.simps, force)
  then have new: "ck_size_vars s \<le> ?new" using old by (smt (verit))
  have "ck_vals s l = 0" if "\<not> (- ck_size_vars s \<le> l \<and> l < ck_size_vars s)" for l
  proof -
    have "\<not> \<bar>l\<bar> < ck_size_vars s" using that by auto
    then have "l \<notin> set (ck_trail s)" "- l \<notin> set (ck_trail s)" using a by (auto simp: asg_ok_def)
    then show ?thesis by (simp add: vals_zero [OF a])
  qed
  then have v: "(\<lambda>l. if - ck_size_vars s \<le> l \<and> l < ck_size_vars s then ck_vals s l else 0) = ck_vals s"
    by (intro ext) auto
  have e: "enlarge_vars idx s = s\<lparr>ck_size_vars := ?new\<rparr>"
    by (simp add: enlarge_vars_def Let_def v)
  have "asg_ok A (s\<lparr>ck_size_vars := ?new\<rparr>)" using a new by (fastforce simp: asg_ok_def)
  moreover have "heap_ok M (s\<lparr>ck_size_vars := ?new\<rparr>)"
    using assms new by (fastforce simp: ck_inv_def heap_ok_def clause_ok_def)
  moreover have "watches_ok M (s\<lparr>ck_size_vars := ?new\<rparr>)"
    unfolding watches_ok_def
  proof
    fix l
    have "list_ok M s l (ck_watchers s l)" using assms by (simp add: ck_inv_def watches_ok_def)
    with new show "list_ok M (s\<lparr>ck_size_vars := ?new\<rparr>) l (ck_watchers (s\<lparr>ck_size_vars := ?new\<rparr>) l)"
      by (fastforce simp: list_ok_def watch_ok_def)
  qed
  ultimately show "ck_inv M A (enlarge_vars idx s)" using assms by (simp add: e ck_inv_def)
  show "idx < ck_size_vars (enlarge_vars idx s)" using old enlarge_size_above by (simp add: e)
qed

definition import_frame :: "checker \<Rightarrow> checker \<Rightarrow> bool" where
  "import_frame s t \<longleftrightarrow>
     ck_fresh t = ck_fresh s \<and> ck_table t = ck_table s \<and> ck_garbage t = ck_garbage s
     \<and> ck_inconsistent t = ck_inconsistent s \<and> ck_num_clauses t = ck_num_clauses s
     \<and> ck_num_garbage t = ck_num_garbage s \<and> ck_heap t = ck_heap s \<and> ck_size_vars s \<le> ck_size_vars t"

lemma import_literal_ok:
  assumes "ck_inv M A s"
  shows "ck_inv M A (import_literal l s)" and "\<bar>l\<bar> < ck_size_vars (import_literal l s)"
    and "ck_simplified (import_literal l s) = ck_simplified s @ [l]" and "import_frame s (import_literal l s)"
proof -
  let ?s = "if ck_size_vars s \<le> \<bar>l\<bar> then enlarge_vars \<bar>l\<bar> s else s"
  have e: "import_literal l s = ?s\<lparr>ck_simplified := ck_simplified ?s @ [l], ck_unsimplified := ck_unsimplified ?s @ [l]\<rparr>"
    by (simp add: import_literal_def Let_def)
  have i: "ck_inv M A ?s" "\<bar>l\<bar> < ck_size_vars ?s" using assms inv_enlarge [OF assms, of "\<bar>l\<bar>"] by auto
  then have "ck_next ?s \<le> length (ck_trail ?s)" by (simp add: ck_inv_def asg_ok_def)
  then show "ck_inv M A (import_literal l s)" unfolding e by (intro inv_cong [OF i(1)]) simp_all
  show "\<bar>l\<bar> < ck_size_vars (import_literal l s)" using i(2) unfolding e by simp
  show "ck_simplified (import_literal l s) = ck_simplified s @ [l]" "import_frame s (import_literal l s)"
    using i(2) by (auto simp: e enlarge_vars_def Let_def import_frame_def)
qed

lemma import_clause_ok:
  assumes "ck_inv M A s"
  shows "ck_inv M A (import_clause c s) \<and> (\<forall>l \<in> set c. \<bar>l\<bar> < ck_size_vars (import_clause c s))
    \<and> ck_simplified (import_clause c s) = ck_simplified s @ c \<and> import_frame s (import_clause c s)"
  using assms
proof (induction c arbitrary: s)
  case Nil
  then show ?case by (simp add: import_clause_def import_frame_def)
next
  case (Cons l c)
  note l = import_literal_ok [OF Cons.prems, of l]
  have e: "import_clause (l # c) s = import_clause c (import_literal l s)" by (simp add: import_clause_def)
  show ?case using Cons.IH [OF l(1)] l unfolding e by (auto simp: import_frame_def)
qed

text \<open>The scan of the sorted literals.\<close>

lemma key_abs: "lit_key a \<le> lit_key b \<Longrightarrow> \<bar>a\<bar> \<le> \<bar>b\<bar>"
  by (auto simp: lit_key_def split: if_splits)

lemma taut_loop_Some:
  assumes "taut_loop vals prev ls = Some rs" and "sorted (map lit_key (prev # ls))"
  shows "sorted_wrt (\<lambda>a b. \<bar>a\<bar> < \<bar>b\<bar>) (prev # rs) \<and> set rs \<subseteq> set ls \<and> set ls \<subseteq> insert prev (set rs)
    \<and> (\<forall>r \<in> set rs. \<not> vals r > 0)"
  using assms
proof (induction vals prev ls arbitrary: rs rule: taut_loop.induct)
  case (1 vals prev)
  then show ?case by simp
next
  case (2 vals prev lit lits)
  show ?case
  proof (cases "lit = prev")
    case True
    with 2 show ?thesis by auto
  next
    case False
    with "2.prems"(1) obtain qs where c: "lit \<noteq> - prev" "\<not> vals lit > 0" "rs = lit # qs"
      and q: "taut_loop vals lit lits = Some qs" by (auto split: if_splits)
    have "\<bar>prev\<bar> \<le> \<bar>lit\<bar>" using "2.prems"(2) key_abs by simp
    then have lt: "\<bar>prev\<bar> < \<bar>lit\<bar>" using False c(1) by (auto simp: abs_eq_iff order_le_less)
    have "sorted_wrt (\<lambda>a b. \<bar>a\<bar> < \<bar>b\<bar>) (lit # qs) \<and> set qs \<subseteq> set lits \<and> set lits \<subseteq> insert lit (set qs)
        \<and> (\<forall>r \<in> set qs. \<not> vals r > 0)"
      using "2.IH"(2) [OF False c(1,2) q] "2.prems"(2) by simp
    with lt c show ?thesis by auto
  qed
qed

lemma taut_loop_None:
  assumes "taut_loop vals prev ls = None"
  shows "(\<exists>l \<in> set ls. vals l > 0) \<or> (\<exists>l \<in> set (prev # ls). l \<noteq> 0 \<and> - l \<in> set ls)"
  using assms
proof (induction vals prev ls rule: taut_loop.induct)
  case (1 vals prev)
  then show ?case by simp
next
  case (2 vals prev lit lits)
  show ?case
  proof (cases "lit = prev \<or> lit \<noteq> - prev \<and> \<not> vals lit > 0")
    case True
    with 2 show ?thesis by (auto split: if_splits)
  next
    case False
    then show ?thesis by auto
  qed
qed

definition lits_ok :: "int list \<Rightarrow> bool" where
  "lits_ok c \<longleftrightarrow> (\<forall>l \<in> set c. l \<noteq> 0 \<and> \<bar>l\<bar> \<le> INT_MAX)"

lemma import_taut:
  assumes i: "ck_inv M M s" and "ck_simplified s = []" and c: "lits_ok c"
    and t: "tautological (import_clause c s) = (b, t)"
  shows "ck_inv M M t \<and> import_frame s t \<and> (if b then ent M c else simple t \<and> set (ck_simplified t) = set c)"
proof -
  let ?s = "import_clause c s" and ?ls = "sort_key lit_key c"
  have s: "ck_inv M M ?s" "\<forall>l \<in> set c. \<bar>l\<bar> < ck_size_vars ?s" "ck_simplified ?s = c" "import_frame s ?s"
    using import_clause_ok [OF i, of c] assms(2) by auto
  have a: "asg_ok M ?s" using s(1) by (simp add: ck_inv_def)
  have eqt: "\<exists>q. t = ?s\<lparr>ck_simplified := q\<rparr>" using t by (auto simp: tautological_def Let_def split: option.splits)
  then have inv: "ck_inv M M t" "import_frame s t"
    using s(1,4) a by (auto intro!: inv_cong [OF s(1)] simp: asg_ok_def import_frame_def)
  show ?thesis
  proof (cases "taut_loop (ck_vals ?s) 0 ?ls")
    case None
    from taut_loop_None [OF this]
    have "(\<exists>l \<in> set c. ck_vals ?s l > 0) \<or> (\<exists>l \<in> set c. l \<noteq> 0 \<and> - l \<in> set c)" by auto
    then have "ent M c"
      using trail_true [OF a] vals_pos [OF a] lit_on_neg unfolding ent_def cl_on_def list_ex_iff by metis
    with None t inv s(3) show ?thesis by (auto simp: tautological_def Let_def)
  next
    case (Some rs)
    have "\<forall>l \<in> set c. 0 \<le> lit_key l" by (auto simp: lit_key_def)
    then have "sorted (map lit_key (0 # ?ls))" by (auto simp: lit_key_def)
    from taut_loop_Some [OF Some this] c
    have r: "sorted_wrt (\<lambda>a b. \<bar>a\<bar> < \<bar>b\<bar>) rs" "set rs = set c" "\<forall>r \<in> set rs. \<not> ck_vals ?s r > 0"
      by (auto simp: lits_ok_def)
    from r(1) have d: "distinct (map abs rs)"
      by (induction rs) auto
    have "- l \<notin> set rs" if "l \<in> set rs" for l
    proof
      assume n: "- l \<in> set rs"
      from d have "inj_on abs (set rs)" by (simp add: distinct_map)
      from inj_onD [OF this _ that n] have "l = - l" by simp
      with that r(2) c show False by (auto simp: lits_ok_def)
    qed
    with r d s(2,3) c inv Some t show ?thesis
      by (auto simp: tautological_def Let_def simple_def distinct_map lits_ok_def)
  qed
qed

section \<open>The hash table\<close>

text \<open>Every object is on a chain or on the garbage list, once; the counters agree.\<close>

definition table_ok :: "checker \<Rightarrow> bool" where
  "table_ok s \<longleftrightarrow>
     distinct (concat (ck_table s) @ ck_garbage s)
     \<and> (\<forall>p \<in> set (concat (ck_table s)). \<exists>n. map_option cc_size (ck_heap s p) = Some n \<and> n \<noteq> 0)
     \<and> (\<forall>p \<in> set (ck_garbage s). map_option cc_size (ck_heap s p) = Some 0)
     \<and> dom (ck_heap s) = set (concat (ck_table s) @ ck_garbage s)
     \<and> ck_num_clauses s = length (concat (ck_table s)) \<and> ck_num_garbage s = length (ck_garbage s)"

lemma table_ok_cong:
  assumes "table_ok s" and "ck_table t = ck_table s" and "ck_garbage t = ck_garbage s"
    and "ck_num_clauses t = ck_num_clauses s" and "ck_num_garbage t = ck_num_garbage s"
    and "\<And>p. map_option cc_size (ck_heap t p) = map_option cc_size (ck_heap s p)"
  shows "table_ok t"
proof -
  have "dom (ck_heap t) = dom (ck_heap s)"
    using assms(6) by (auto simp: dom_def) (metis option.map_disc_iff option.distinct(1) option.exhaust)+
  then show ?thesis using assms by (simp add: table_ok_def)
qed

lemma and_less: "0 < n \<Longrightarrow> and a (n - 1) < (n :: nat)"
proof -
  assume n: "0 < n"
  have "int (and a (n - 1)) \<le> int (n - 1)" unfolding of_nat_and_eq by (rule AND_upper2) simp
  with n show ?thesis by linarith
qed

lemma reduce_loop_ends: "0 < n \<Longrightarrow> shift < 2 ^ fuel \<Longrightarrow> \<exists>r'. reduce_loop fuel r shift n = Inr r'"
proof (induction fuel arbitrary: r shift)
  case 0
  then show ?case by (simp add: reduce_loop.simps [of 0])
next
  case (Suc fuel)
  then have "shift div 2 < 2 ^ fuel" by simp
  with Suc show ?case by (simp add: reduce_loop.simps [of "Suc fuel"])
qed

lemma reduce_hash_ok: "0 < n \<Longrightarrow> \<exists>h < n. reduce_hash hash n = Inr h"
  using reduce_loop_ends [of n 32 6 hash] and_less [of n] by (auto simp: reduce_hash_def)

text \<open>With an empty table the loop runs for ever, whatever the fuel.\<close>

lemma reduce_loop_empty: "reduce_loop fuel r shift 0 = Inl OutOfFuel"
  by (induction fuel arbitrary: r shift) (simp_all add: reduce_loop.simps [of _ _ _ 0])

lemma reduce_hash_empty: "reduce_hash hash 0 = Inl OutOfFuel"
  by (simp add: reduce_hash_def reduce_loop_empty)

text \<open>Pushing a pointer on a chain.\<close>

lemma set_chain:
  "h < length t \<Longrightarrow> mset (concat (t[h := p # t ! h])) = add_mset p (mset (concat t))"
proof (induction t arbitrary: h)
  case (Cons a t)
  then show ?case by (cases h) auto
qed simp

lemma insert_chain_ok:
  assumes "table \<noteq> []" and "ck_heap s p \<noteq> None"
  shows "res_ok {} (\<lambda>t. length t = length table \<and> mset (concat t) = add_mset p (mset (concat table)))
    (insert_chain s p table)"
proof -
  obtain c where c: "ck_heap s p = Some c" using assms(2) by auto
  from assms(1) reduce_hash_ok [of "length table" "cc_hash c"] obtain h
    where "h < length table" "reduce_hash (cc_hash c) (length table) = Inr h" by auto
  with c show ?thesis by (simp add: insert_chain_def deref_def set_chain)
qed

lemma enlarge_clauses_ok:
  assumes "\<And>p. p \<in> set (concat (ck_table s)) \<Longrightarrow> ck_heap s p \<noteq> None"
  shows "res_ok {} (\<lambda>t. \<exists>table. t = s\<lparr>ck_table := table\<rparr> \<and> table \<noteq> [] \<and> mset (concat table) = mset (concat (ck_table s)))
    (enlarge_clauses s)"
proof -
  let ?n = "if ck_table s \<noteq> [] then 2 * length (ck_table s) else 1"
  have "res_ok {} (\<lambda>t. t \<noteq> [] \<and> mset (concat t) = mset (concat (ck_table s)))
      (fold_res (insert_chain s) (concat (ck_table s)) (replicate ?n []))"
  proof (rule res_ok_fold [where I = "\<lambda>xs t. t \<noteq> [] \<and> mset (concat t) = mset xs"])
    show "replicate ?n [] \<noteq> [] \<and> mset (concat (replicate ?n [])) = mset []" by (auto simp: concat_eq_Nil_conv)
  next
    fix ys x zs t
    assume "concat (ck_table s) = ys @ x # zs" and t: "t \<noteq> [] \<and> mset (concat t) = mset ys"
    then have "ck_heap s x \<noteq> None" using assms [of x] by simp
    with t insert_chain_ok [of t s x] show "res_ok {} (\<lambda>t. t \<noteq> [] \<and> mset (concat t) = mset (ys @ [x])) (insert_chain s x t)"
      by (auto elim!: res_ok_mono)
  qed
  then show ?thesis unfolding enlarge_clauses_def Let_def by (rule res_ok_bind) auto
qed

section \<open>A new clause\<close>

lemma pick_watch_mset: "i < length lits \<Longrightarrow> mset (pick_watch vals i lits) = mset lits"
  by (auto simp: pick_watch_def mset_swap dest!: find_Some split: option.splits)

lemma pick_watch_length [simp]: "length (pick_watch vals i lits) = length lits"
  by (simp add: pick_watch_def split: option.splits)

text \<open>The two picks: a permutation of the clause.\<close>

definition picked :: "(int \<Rightarrow> int) \<Rightarrow> int list \<Rightarrow> int list" where
  "picked vals c = pick_watch vals 1 (pick_watch vals 0 c)"

lemma picked_perm:
  assumes "2 \<le> length c"
  shows "mset (picked vals c) = mset c" and "length (picked vals c) = length c" and "set (picked vals c) = set c"
proof -
  have l: "0 < length c" "1 < length (pick_watch vals 0 c)" using assms by (linarith, simp)
  show m: "mset (picked vals c) = mset c"
    unfolding picked_def pick_watch_mset [OF l(2)] pick_watch_mset [OF l(1)] by (rule refl)
  show "length (picked vals c) = length c" by (simp add: picked_def)
  show "set (picked vals c) = set c" using m by (rule mset_eq_setD)
qed

lemma new_clause_eq:
  "new_clause s =
     (let lits = picked (ck_vals s) (ck_simplified s); n = length lits; p = ck_fresh s;
          c = \<lparr>cc_hash = ck_last_hash s, cc_size = n, cc_lits = lits\<rparr>;
          s = set_clause p c (s\<lparr>ck_fresh := p + 1, ck_num_clauses := ck_num_clauses s + 1\<rparr>) in
      (p, push_watch (lits ! 1) \<lparr>cw_blit = lits ! 0, cw_size = n, cw_clause = p\<rparr>
            (push_watch (lits ! 0) \<lparr>cw_blit = lits ! 1, cw_size = n, cw_clause = p\<rparr> s)))"
  by (simp add: new_clause_def Let_def picked_def)

lemma watch_heap_grows:
  assumes "watch_ok M s l w" and "heap_ok M s"
    and "ck_heap t = (ck_heap s)(ck_fresh s \<mapsto> c)" and "ck_size_vars t = ck_size_vars s"
  shows "watch_ok M t l w" and "cw_clause w \<noteq> ck_fresh s"
proof -
  obtain c' where "ck_heap s (cw_clause w) = Some c'" using assms(1) by (auto simp: watch_ok_def)
  then have "cw_clause w < ck_fresh s" using assms(2) by (simp add: heap_ok_def)
  then show "cw_clause w \<noteq> ck_fresh s" by simp
  with assms show "watch_ok M t l w" by (auto simp: watch_ok_def)
qed

lemma list_push:
  assumes "list_ok M t l ws" and "watch_ok M t l w" and "l \<noteq> 0" and "\<bar>l\<bar> < ck_size_vars t"
    and "cw_clause w \<notin> cw_clause ` set ws"
  shows "list_ok M t l (ws @ [w])"
  using assms by (auto simp: list_ok_def large_clauses_def)

lemma new_clause_inv:
  assumes i: "ck_inv M M s" and c: "simple s" and e: "ent M (ck_simplified s)" and two: "2 \<le> length (ck_simplified s)"
  shows "\<exists>t. new_clause s = (ck_fresh s, t) \<and> ck_inv M M t \<and> ck_table t = ck_table s \<and> ck_garbage t = ck_garbage s
    \<and> ck_num_clauses t = ck_num_clauses s + 1 \<and> ck_num_garbage t = ck_num_garbage s
    \<and> ck_inconsistent t = ck_inconsistent s \<and> ck_simplified t = ck_simplified s
    \<and> (\<exists>d. ck_heap t = (ck_heap s)(ck_fresh s \<mapsto> d) \<and> cc_size d \<noteq> 0)"
proof -
  define lits where "lits = picked (ck_vals s) (ck_simplified s)"
  define p where "p = ck_fresh s"
  define d where "d = \<lparr>cc_hash = ck_last_hash s, cc_size = length lits, cc_lits = lits\<rparr>"
  define w0 where "w0 = \<lparr>cw_blit = lits ! 1, cw_size = length lits, cw_clause = p\<rparr>"
  define w1 where "w1 = \<lparr>cw_blit = lits ! 0, cw_size = length lits, cw_clause = p\<rparr>"
  define s1 where "s1 = set_clause p d (s\<lparr>ck_fresh := p + 1, ck_num_clauses := ck_num_clauses s + 1\<rparr>)"
  let ?t = "push_watch (lits ! 1) w1 (push_watch (lits ! 0) w0 s1)"
  have run: "new_clause s = (p, ?t)"
    by (simp add: new_clause_eq Let_def lits_def p_def d_def w0_def w1_def s1_def)
  note L = picked_perm [OF two, of "ck_vals s", folded lits_def]
  have dis: "distinct lits" using c L(1) by (metis simple_def mset_eq_imp_distinct_iff)
  have ent: "ent M lits" using e L(3) ent_set [of "ck_simplified s" lits M] by simp
  have rng: "l \<noteq> 0 \<and> \<bar>l\<bar> < ck_size_vars s" if "l \<in> set lits" for l using that L(3) c by (simp add: simple_def)
  have len: "2 \<le> length lits" using L(2) two by simp
  then have mem: "lits ! 0 \<in> set lits" "lits ! 1 \<in> set lits" by (auto intro: nth_mem)
  have "0 < length lits" "1 < length lits" using len by linarith+
  then have ne: "lits ! 0 \<noteq> lits ! 1" using dis nth_eq_iff_index_eq [of lits 0 1] by simp
  have h: "heap_ok M s" and lo: "\<And>l. list_ok M s l (ck_watchers s l)" using i by (simp_all add: ck_inv_def watches_ok_def)
  have co: "clause_ok M (ck_size_vars s) d" using len dis ent rng by (auto simp: clause_ok_def d_def)
  have heap: "ck_heap ?t = (ck_heap s)(p \<mapsto> d)" "ck_size_vars ?t = ck_size_vars s" by (simp_all add: s1_def set_clause_def)
  have h': "heap_ok M ?t" using h co by (auto simp: heap_ok_def s1_def set_clause_def p_def intro: less_SucI)
  have old: "list_ok M ?t l (ck_watchers s l)" for l
    using lo [of l] watch_heap_grows(1) [OF _ h, of l _ ?t d] heap by (auto simp: list_ok_def p_def)
  have fresh: "p \<notin> cw_clause ` set (ck_watchers s l)" for l
    using lo [of l] watch_heap_grows(2) [OF _ h heap [unfolded p_def]] unfolding list_ok_def p_def by (metis imageE)
  have pair: "ent M [lits ! 0, lits ! 1]" "ent M [lits ! 1, lits ! 0]" if "length lits = 2"
  proof -
    have "lits = [lits ! 0, lits ! 1]" using that by (intro nth_equalityI) (auto simp: less_2_cases_iff nth_Cons')
    with ent show "ent M [lits ! 0, lits ! 1]" by metis
    then show "ent M [lits ! 1, lits ! 0]" by (auto simp: ent_def cl_on_def)
  qed
  have w: "watch_ok M ?t (lits ! 0) w0" "watch_ok M ?t (lits ! 1) w1"
    using len pair rng mem by (auto simp: watch_ok_def w0_def w1_def heap s1_def set_clause_def d_def)
  have "list_ok M ?t (lits ! 0) (ck_watchers s (lits ! 0) @ [w0])"
    using rng [OF mem(1)] fresh by (intro list_push old w) (auto simp: w0_def s1_def)
  moreover have "list_ok M ?t (lits ! 1) (ck_watchers s (lits ! 1) @ [w1])"
    using rng [OF mem(2)] fresh by (intro list_push old w) (auto simp: w1_def s1_def)
  moreover have "ck_watchers ?t = (ck_watchers s)
      (lits ! 0 := ck_watchers s (lits ! 0) @ [w0], lits ! 1 := ck_watchers s (lits ! 1) @ [w1])"
    using ne by (simp add: s1_def)
  ultimately have "watches_ok M ?t" using old by (simp add: watches_ok_def)
  moreover have "asg_ok M ?t" using i by (simp add: ck_inv_def asg_ok_def s1_def)
  ultimately have "ck_inv M M ?t" using h' by (simp add: ck_inv_def)
  moreover have "cc_size d \<noteq> 0" using len by (auto simp: d_def)
  ultimately show ?thesis using run
    by (auto simp: p_def [symmetric] heap(1) s1_def set_clause_def push_watch_def)
qed

section \<open>Adding a clause\<close>

lemma unit_scan_eq:
  assumes "\<And>l. l \<in> set ls \<Longrightarrow> l \<noteq> 0"
  shows "unit_scan vals u ls =
    (if u = 0 then (case filter (\<lambda>l. \<not> vals l < 0) ls of [] \<Rightarrow> 0 | [v] \<Rightarrow> v | _ \<Rightarrow> INT_MIN)
     else if filter (\<lambda>l. \<not> vals l < 0) ls = [] then u else INT_MIN)"
  using assms
  by (induction vals u ls rule: unit_scan.induct) (auto split: list.splits)

lemma inv_anti:
  assumes "ck_inv M A s" and "N \<subseteq> M"
  shows "ck_inv N (A \<inter> N) s"
  using assms ent_mono [OF assms(2)]
  by (auto simp: ck_inv_def asg_ok_def heap_ok_def watches_ok_def list_ok_def watch_ok_def clause_ok_def)

text \<open>
  The state between two proof lines.  An inconsistent checker ignores all that follows: there is
  no model.
\<close>

definition settled :: "(nat \<Rightarrow> bool) set \<Rightarrow> checker \<Rightarrow> bool" where
  "settled M s \<longleftrightarrow> (if ck_inconsistent s then M = {} else ck_inv M M s \<and> table_ok s)"

lemma insert_clause_ok:
  assumes i: "ck_inv M M s" and t: "table_ok s" and c: "simple s" and e: "ent M (ck_simplified s)"
    and two: "2 \<le> length (ck_simplified s)"
  shows "res_ok {} (\<lambda>t. ck_inv M M t \<and> table_ok t \<and> ck_inconsistent t = ck_inconsistent s) (insert_clause s)"
proof -
  let ?Q = "\<lambda>t. ck_inv M M t \<and> table_ok t \<and> ck_inconsistent t = ck_inconsistent s"
  let ?P = "\<lambda>t. \<exists>table. t = s\<lparr>ck_table := table\<rparr> \<and> table \<noteq> [] \<and> mset (concat table) = mset (concat (ck_table s))"
  have dom: "ck_heap s p \<noteq> None" if "p \<in> set (concat (ck_table s))" for p
    using t that unfolding table_ok_def by (metis Un_iff domIff set_append)
  have "res_ok {} ?P (if ck_num_clauses s = length (ck_table s) then enlarge_clauses s else Inr s)"
  proof (cases "ck_num_clauses s = length (ck_table s)")
    case True
    with enlarge_clauses_ok [of s] dom show ?thesis by simp
  next
    case False
    then have "ck_table s \<noteq> []" using t by (auto simp: table_ok_def)
    with False show ?thesis by (auto intro: exI [of _ "ck_table s"])
  qed
  then show ?thesis
    unfolding insert_clause_def
  proof (rule res_ok_bind)
    fix u assume "?P u"
    then obtain table where u: "u = s\<lparr>ck_table := table\<rparr>" "table \<noteq> []" "mset (concat table) = mset (concat (ck_table s))"
      by blast
    define hash where "hash = fst (compute_hash u)"
    let ?v = "u\<lparr>ck_last_hash := hash\<rparr>"
    have ch: "compute_hash u = (hash, ?v)" by (simp add: compute_hash_def Let_def hash_def)
    have nx: "ck_next s \<le> length (ck_trail s)" using i by (simp add: ck_inv_def asg_ok_def)
    have iv: "ck_inv M M ?v" by (rule inv_cong [OF i]) (use nx in \<open>simp_all add: u\<close>)
    have sv: "simple ?v" "ent M (ck_simplified ?v)" "2 \<le> length (ck_simplified ?v)" using c e two by (simp_all add: u simple_def)
    obtain h where h: "h < length table" "reduce_hash hash (length table) = Inr h"
      using reduce_hash_ok [of "length table" hash] u(2) by auto
    from new_clause_inv [OF iv sv] obtain w d where n: "new_clause ?v = (ck_fresh s, w)" and iw: "ck_inv M M w"
      and w: "ck_table w = table" "ck_garbage w = ck_garbage s" "ck_num_clauses w = ck_num_clauses s + 1"
        "ck_num_garbage w = ck_num_garbage s" "ck_inconsistent w = ck_inconsistent s"
        "ck_heap w = (ck_heap s)(ck_fresh s \<mapsto> d)" "cc_size d \<noteq> 0"
      by (auto simp: u)
    let ?table = "table[h := ck_fresh s # table ! h]"
    have nw: "ck_next w \<le> length (ck_trail w)" using iw by (simp add: ck_inv_def asg_ok_def)
    have m: "mset (concat ?table) = add_mset (ck_fresh s) (mset (concat (ck_table s)))"
      using set_chain [OF h(1)] u(3) by simp
    have st: "set (concat ?table) = insert (ck_fresh s) (set (concat (ck_table s)))"
      using arg_cong [OF m, of set_mset] by simp
    have fr: "ck_heap s (ck_fresh s) = None"
    proof (rule ccontr)
      assume "ck_heap s (ck_fresh s) \<noteq> None"
      then show False using i by (auto simp: ck_inv_def heap_ok_def)
    qed
    have nin: "ck_fresh s \<notin> set (concat (ck_table s) @ ck_garbage s)"
      using t fr unfolding table_ok_def by (metis domIff)
    have "mset (concat ?table @ ck_garbage s) = add_mset (ck_fresh s) (mset (concat (ck_table s) @ ck_garbage s))"
      using m by simp
    then have "distinct (concat ?table @ ck_garbage s) = distinct (ck_fresh s # concat (ck_table s) @ ck_garbage s)"
      by (intro mset_eq_imp_distinct_iff) simp
    then have dis: "distinct (concat ?table @ ck_garbage s)" using nin t by (simp add: table_ok_def)
    have len: "length (concat ?table) = length (concat (ck_table s)) + 1" using arg_cong [OF m, of size] by simp
    have "table_ok (w\<lparr>ck_table := ?table\<rparr>)"
      unfolding table_ok_def
    proof (intro conjI)
      show "\<forall>p \<in> set (concat (ck_table (w\<lparr>ck_table := ?table\<rparr>))). \<exists>n. map_option cc_size (ck_heap (w\<lparr>ck_table := ?table\<rparr>) p) = Some n \<and> n \<noteq> 0"
      proof
        fix p assume "p \<in> set (concat (ck_table (w\<lparr>ck_table := ?table\<rparr>)))"
        then have "p = ck_fresh s \<or> p \<noteq> ck_fresh s \<and> p \<in> set (concat (ck_table s))" using st by auto
        with t w(6,7) show "\<exists>n. map_option cc_size (ck_heap (w\<lparr>ck_table := ?table\<rparr>) p) = Some n \<and> n \<noteq> 0"
          by (auto simp: table_ok_def simp del: set_concat)
      qed
      show "\<forall>p \<in> set (ck_garbage (w\<lparr>ck_table := ?table\<rparr>)). map_option cc_size (ck_heap (w\<lparr>ck_table := ?table\<rparr>) p) = Some 0"
        using t nin w(2,6) by (auto simp: table_ok_def simp del: set_concat)
      have "dom (ck_heap s) = set (concat (ck_table s)) \<union> set (ck_garbage s)"
        using t by (simp add: table_ok_def del: set_concat)
      then show "dom (ck_heap (w\<lparr>ck_table := ?table\<rparr>)) = set (concat (ck_table (w\<lparr>ck_table := ?table\<rparr>)) @ ck_garbage (w\<lparr>ck_table := ?table\<rparr>))"
        using st w(2,6) by (simp del: set_concat)
    qed (use dis len t w in \<open>simp_all add: table_ok_def\<close>)
    moreover have "ck_inv M M (w\<lparr>ck_table := ?table\<rparr>)" by (rule inv_cong [OF iw]) (use nw in simp_all)
    moreover have "ck_table ?v = table" by (simp add: u)
    ultimately show "res_ok {} ?Q (case compute_hash u of (hash, s) \<Rightarrow>
       bind_res (reduce_hash hash (length (ck_table s))) (\<lambda>h.
       case new_clause s of (p, s) \<Rightarrow>
       bind_res (vec_get (ck_table s) h) (\<lambda>chain.
       bind_res (vec_set (ck_table s) h (p # chain)) (\<lambda>table. Inr (s\<lparr>ck_table := table\<rparr>)))))"
      using h n w by (simp add: ch)
  qed
qed

lemma add_clause_ok:
  assumes i: "ck_inv M M s" and t: "table_ok s" and c: "simple s" and e: "ent M (ck_simplified s)"
    and inc: "\<not> ck_inconsistent s"
  shows "res_ok {} (settled M) (add_clause s)"
proof -
  let ?nf = "filter (\<lambda>l. \<not> ck_vals s l < 0) (ck_simplified s)"
  have a: "asg_ok M s" using i by (simp add: ck_inv_def)
  have l: "l \<noteq> 0 \<and> \<bar>l\<bar> < ck_size_vars s \<and> l \<noteq> INT_MIN \<and> \<not> ck_vals s l > 0" if "l \<in> set (ck_simplified s)" for l
    using c that by (auto simp: simple_def)
  have u: "unit_scan (ck_vals s) 0 (ck_simplified s) = (case ?nf of [] \<Rightarrow> 0 | [v] \<Rightarrow> v | _ \<Rightarrow> INT_MIN)"
    using unit_scan_eq [of "ck_simplified s" "ck_vals s" 0] l by simp
  have sat: "\<exists>l \<in> set ?nf. lit_on m l" if m: "m \<in> M" for m
  proof -
    obtain l where "l \<in> set (ck_simplified s)" "lit_on m l" using e m by (auto simp: ent_def cl_on_def list_ex_iff)
    with false_lit [OF a _ m] show ?thesis by auto
  qed
  consider (none) "?nf = []" | (one) v where "?nf = [v]" | (more) v w r where "?nf = v # w # r"
    by (metis neq_Nil_conv)
  then show ?thesis
  proof cases
    case none
    with sat have "M = {}" by auto
    with none u show ?thesis by (simp add: add_clause_def Let_def settled_def)
  next
    case (one v)
    then have "v \<in> set ?nf" by simp
    then have v: "v \<in> set (ck_simplified s)" "\<not> ck_vals s v < 0" by auto
    with l [OF v(1)] have v0: "ck_vals s v = 0" by simp
    have "ck_inv M M (assign v s)"
      using l [OF v(1)] v0 sat one by (intro inv_assign [OF i]) auto
    from propagate_all_ok [OF this]
    have "res_ok {} (settled M) (bind_res (propagate_all (assign v s)) (\<lambda>(ok, s).
             Inr (if ok then s else s\<lparr>ck_inconsistent := True\<rparr>)))"
    proof (rule res_ok_bind)
      fix r assume "prop_result M M (assign v s) r"
      then obtain ok t' where r: "r = (ok, t')" "ck_inv M M t'" "frame (assign v s) t'" "\<not> ok \<Longrightarrow> M = {}"
        by (cases r) (auto simp: prop_result_def)
      then have "frame s t'" using frame_trans [OF frame_assign] by blast
      then have "table_ok t'" "ck_inconsistent t' = ck_inconsistent s"
        using table_ok_cong [OF t, of t'] by (auto simp: frame_def)
      with r inc show "res_ok {} (settled M) (case r of (ok, s) \<Rightarrow> Inr (if ok then s else s\<lparr>ck_inconsistent := True\<rparr>))"
        by (auto simp: settled_def)
    qed
    moreover have "ck_simplified s \<noteq> []" using v(1) by auto
    ultimately show ?thesis using one u l [OF v(1)] by (simp add: add_clause_def Let_def)
  next
    case (more v w r)
    have "2 \<le> length ?nf" using more by simp
    then have two: "2 \<le> length (ck_simplified s)" using length_filter_le le_trans by blast
    then have "ck_simplified s \<noteq> []" by auto
    with more u insert_clause_ok [OF i t c e two] inc show ?thesis
      by (auto elim!: res_ok_mono simp: add_clause_def Let_def settled_def)
  qed
qed

end
