(* ===== verification/Proof_Checker_Delete.thy ===== *)
theory Proof_Checker_Delete
  imports Proof_Checker_Add
begin

text \<open>
  Deletion of clauses and garbage collection in the proof checker, and the theorems on whole
  proofs.
\<close>

section \<open>Finding a clause\<close>

lemma find_chain_ok:
  assumes "\<And>p. p \<in> set ps \<Longrightarrow> ck_heap s p \<noteq> None"
  shows "res_ok {} (\<lambda>i. case i of None \<Rightarrow> True | Some j \<Rightarrow> j < length ps) (find_chain s hash n ps)"
  using assms
proof (induction ps)
  case Nil
  then show ?case by simp
next
  case (Cons p ps)
  from Cons.prems [of p] obtain c where c: "ck_heap s p = Some c" by auto
  have "res_ok {} (\<lambda>i. case i of None \<Rightarrow> True | Some j \<Rightarrow> j < length (p # ps))
      (bind_res (find_chain s hash n ps) (\<lambda>i. Inr (map_option Suc i)))"
    by (rule res_ok_bind [OF Cons.IH]) (use Cons.prems in \<open>auto split: option.splits\<close>)
  with c show ?case by (simp add: deref_def)
qed

lemma table_heap: "table_ok s \<Longrightarrow> p \<in> set (concat (ck_table s)) \<Longrightarrow> ck_heap s p \<noteq> None"
  unfolding table_ok_def by (metis Un_iff domIff set_append)

lemma find_clause_ok:
  assumes t: "table_ok s" and "ck_table s \<noteq> []"
  obtains h i marks hash where "find_clause s = Inr ((h, i), s\<lparr>ck_last_hash := hash, ck_marks := marks\<rparr>)"
    and "h < length (ck_table s)" and "\<forall>j. i = Some j \<longrightarrow> j < length (ck_table s ! h)"
proof -
  define hash where "hash = fst (compute_hash s)"
  have ch: "compute_hash s = (hash, s\<lparr>ck_last_hash := hash\<rparr>)" by (simp add: compute_hash_def Let_def hash_def)
  obtain h where h: "h < length (ck_table s)" "reduce_hash hash (length (ck_table s)) = Inr h"
    using reduce_hash_ok [of "length (ck_table s)" hash] assms(2) by auto
  let ?u = "s\<lparr>ck_last_hash := hash, ck_marks := fold (\<lambda>l m. m(l := True)) (ck_simplified s) (ck_marks s)\<rparr>"
  have "res_ok {} (\<lambda>i. case i of None \<Rightarrow> True | Some j \<Rightarrow> j < length (ck_table s ! h))
      (find_chain ?u hash (length (ck_simplified s)) (ck_table s ! h))"
  proof (rule find_chain_ok)
    fix p assume "p \<in> set (ck_table s ! h)"
    then have "p \<in> set (concat (ck_table s))" using h(1) by auto
    from table_heap [OF t this] show "ck_heap ?u p \<noteq> None" by simp
  qed
  then obtain i where i: "find_chain ?u hash (length (ck_simplified s)) (ck_table s ! h) = Inr i"
      "case i of None \<Rightarrow> True | Some j \<Rightarrow> j < length (ck_table s ! h)"
    by (cases "find_chain ?u hash (length (ck_simplified s)) (ck_table s ! h)") auto
  then have "find_clause s = Inr ((h, i), s\<lparr>ck_last_hash := hash,
      ck_marks := fold (\<lambda>l m. m(l := False)) (ck_simplified s) (fold (\<lambda>l m. m(l := True)) (ck_simplified s) (ck_marks s))\<rparr>)"
    using h by (simp add: find_clause_def ch Let_def)
  moreover have "\<forall>j. i = Some j \<longrightarrow> j < length (ck_table s ! h)" using i(2) by (cases i) auto
  ultimately show thesis by (rule that [OF _ h(1)])
qed

section \<open>Moving a clause to the garbage list\<close>

lemma inv_kill:
  assumes i: "ck_inv M A s" and h: "ck_heap s p = Some c"
  shows "ck_inv M A (set_clause p (c\<lparr>cc_size := 0\<rparr>) s)"
proof -
  let ?t = "set_clause p (c\<lparr>cc_size := 0\<rparr>) s"
  have "watch_ok M ?t l w" if "watch_ok M s l w" for l w
    using that h by (cases "cw_clause w = p") (auto simp: watch_ok_def set_clause_def)
  moreover have "heap_ok M ?t" using i h by (auto simp: ck_inv_def heap_ok_def set_clause_def)
  ultimately show ?thesis
    using i by (auto simp: ck_inv_def asg_ok_def watches_ok_def list_ok_def)
qed

definition dropped :: "nat \<Rightarrow> cclause \<Rightarrow> checker \<Rightarrow> checker" where
  "dropped p c s = (set_clause p (c\<lparr>cc_size := 0\<rparr>) s)
     \<lparr>ck_garbage := p # ck_garbage s, ck_num_garbage := ck_num_garbage s + 1,
      ck_num_clauses := ck_num_clauses s - 1\<rparr>"

lemma dropped_fields [simp]:
  "ck_table (dropped p c s) = ck_table s" "ck_inconsistent (dropped p c s) = ck_inconsistent s"
  "ck_simplified (dropped p c s) = ck_simplified s" "ck_size_vars (dropped p c s) = ck_size_vars s"
  by (simp_all add: dropped_def set_clause_def)

lemma dropped_inv:
  assumes "ck_inv M A s" and "ck_heap s p = Some c"
  shows "ck_inv M A (dropped p c s)"
proof -
  have i: "ck_inv M A (set_clause p (c\<lparr>cc_size := 0\<rparr>) s)" by (rule inv_kill [OF assms])
  then have "ck_next (set_clause p (c\<lparr>cc_size := 0\<rparr>) s) \<le> length (ck_trail (set_clause p (c\<lparr>cc_size := 0\<rparr>) s))"
    by (simp only: ck_inv_def asg_ok_def)
  then show ?thesis unfolding dropped_def by (intro inv_cong [OF i]) simp_all
qed

lemma table_ok_perm:
  assumes "table_ok (s\<lparr>ck_table := T\<rparr>)" and "mset (concat T) = mset (concat T')"
  shows "table_ok (s\<lparr>ck_table := T'\<rparr>)"
proof -
  have "distinct (concat T @ ck_garbage s) = distinct (concat T' @ ck_garbage s)"
    by (rule mset_eq_imp_distinct_iff) (use assms(2) in simp)
  moreover have "set (concat T) = set (concat T')" using assms(2) by (rule mset_eq_setD)
  moreover have "length (concat T) = length (concat T')" using assms(2) by (rule mset_eq_length)
  ultimately show ?thesis using assms(1) by (simp add: table_ok_def del: set_concat)
qed

lemma dropped_table:
  assumes "table_ok (s\<lparr>ck_table := [ps @ p # qs]\<rparr>)" and "ck_heap s p = Some c"
  shows "table_ok ((dropped p c s)\<lparr>ck_table := [ps @ qs]\<rparr>)"
  using assms by (auto simp: table_ok_def dropped_def set_clause_def dom_def)

section \<open>Sweeping the table\<close>

definition swept :: "checker \<Rightarrow> checker \<Rightarrow> bool" where
  "swept s t \<longleftrightarrow> ck_inconsistent t = ck_inconsistent s \<and> ck_simplified t = ck_simplified s \<and> ck_size_vars t = ck_size_vars s"

lemma sweep_chain_ok:
  assumes "ck_inv M M s" and "table_ok (s\<lparr>ck_table := [pre @ ps @ post]\<rparr>)"
  shows "res_ok {} (\<lambda>(qs, t). ck_inv M M t \<and> swept s t \<and> table_ok (t\<lparr>ck_table := [pre @ qs @ post]\<rparr>)) (sweep_chain ps s)"
  using assms
proof (induction ps arbitrary: s pre)
  case Nil
  then show ?case by (simp add: swept_def)
next
  case (Cons p ps)
  have "ck_heap s p \<noteq> None" using table_heap [OF Cons.prems(2), of p] by simp
  then obtain c where c: "ck_heap s p = Some c" by auto
  show ?case
  proof (cases "clause_satisfied s c")
    case True
    let ?t = "dropped p c s"
    have i: "ck_inv M M ?t" by (rule dropped_inv [OF Cons.prems(1) c])
    have t: "table_ok (?t\<lparr>ck_table := [pre @ ps @ post]\<rparr>)"
      using dropped_table [where s = s and ps = pre and p = p and qs = "ps @ post", OF _ c] Cons.prems(2) by simp
    have "res_ok {} (\<lambda>(qs, t). ck_inv M M t \<and> swept s t \<and> table_ok (t\<lparr>ck_table := [pre @ qs @ post]\<rparr>)) (sweep_chain ps ?t)"
      using Cons.IH [OF i t] by (rule res_ok_mono) (auto simp: swept_def)
    with True c show ?thesis by (simp add: deref_def dropped_def)
  next
    case False
    from Cons.IH [OF Cons.prems(1), of "pre @ [p]"] Cons.prems(2)
    have "res_ok {} (\<lambda>(qs, t). ck_inv M M t \<and> swept s t \<and> table_ok (t\<lparr>ck_table := [(pre @ [p]) @ qs @ post]\<rparr>)) (sweep_chain ps s)"
      by simp
    then have "res_ok {} (\<lambda>(qs, t). ck_inv M M t \<and> swept s t \<and> table_ok (t\<lparr>ck_table := [pre @ qs @ post]\<rparr>))
        (bind_res (sweep_chain ps s) (\<lambda>(qs, s). Inr (p # qs, s)))"
      by (rule res_ok_bind) auto
    with False c show ?thesis by (simp add: deref_def)
  qed
qed

lemma table_flat: "table_ok (s\<lparr>ck_table := [concat T]\<rparr>) \<longleftrightarrow> table_ok (s\<lparr>ck_table := T\<rparr>)"
  by (simp add: table_ok_def del: set_concat)

lemma sweep_table_ok:
  assumes "ck_inv M M s" and "table_ok (s\<lparr>ck_table := [pre @ concat T]\<rparr>)"
  shows "res_ok {} (\<lambda>(T', t). ck_inv M M t \<and> swept s t \<and> length T' = length T \<and> table_ok (t\<lparr>ck_table := [pre @ concat T']\<rparr>))
    (sweep_table T s)"
  using assms
proof (induction T arbitrary: s pre)
  case Nil
  then show ?case by (simp add: swept_def)
next
  case (Cons ps T)
  from sweep_chain_ok [OF Cons.prems(1), of pre ps "concat T"] Cons.prems(2)
  obtain qs u where u: "sweep_chain ps s = Inr (qs, u)" "ck_inv M M u" "swept s u"
    "table_ok (u\<lparr>ck_table := [pre @ qs @ concat T]\<rparr>)"
    by (cases "sweep_chain ps s") auto
  from Cons.IH [OF u(2), of "pre @ qs"] u(4)
  have "res_ok {} (\<lambda>(T', t). ck_inv M M t \<and> swept u t \<and> length T' = length T \<and> table_ok (t\<lparr>ck_table := [(pre @ qs) @ concat T']\<rparr>))
      (sweep_table T u)" by simp
  then have "res_ok {} (\<lambda>(T', t). ck_inv M M t \<and> swept s t \<and> length T' = length (ps # T) \<and> table_ok (t\<lparr>ck_table := [pre @ concat T']\<rparr>))
      (bind_res (sweep_table T u) (\<lambda>(qss, s). Inr (qs # qss, s)))"
    by (rule res_ok_bind) (use u(3) in \<open>auto simp: swept_def\<close>)
  with u(1) show ?case by simp
qed

section \<open>Flushing the watch lists and freeing the garbage\<close>

definition live :: "checker \<Rightarrow> cwatch \<Rightarrow> bool" where
  "live s w \<longleftrightarrow> map_option cc_size (ck_heap s (cw_clause w)) \<noteq> Some 0"

lemma live_watches_eq:
  assumes "\<And>w. w \<in> set ws \<Longrightarrow> ck_heap s (cw_clause w) \<noteq> None"
  shows "live_watches s ws = Inr (filter (live s) ws)"
  using assms
proof (induction ws)
  case Nil
  then show ?case by simp
next
  case (Cons w ws)
  from Cons.prems [of w] obtain c where "ck_heap s (cw_clause w) = Some c" by auto
  with Cons show ?case by (simp add: deref_def live_def)
qed

lemma large_clauses_filter:
  "distinct (large_clauses ws) \<Longrightarrow> distinct (large_clauses (filter P ws)) \<and> set (large_clauses (filter P ws)) \<subseteq> set (large_clauses ws)"
  by (induction ws) (auto split: if_splits)

lemma list_ok_filter: "list_ok M s l ws \<Longrightarrow> list_ok M s l (filter P ws)"
  using large_clauses_filter [of ws P] by (auto simp: list_ok_def)

lemma clean_watcher_ok:
  assumes "ck_inv M M s"
  shows "clean_watcher l s = Inr (with_watches s l (if l = 0 then ck_watchers s l else filter (live s) (ck_watchers s l)))"
    and "ck_inv M M (with_watches s l (filter (live s) (ck_watchers s l)))"
proof -
  have lo: "list_ok M s k (ck_watchers s k)" for k using assms by (simp add: ck_inv_def watches_ok_def)
  have "ck_heap s (cw_clause w) \<noteq> None" if "w \<in> set (ck_watchers s l)" for w
    using lo [of l] that by (auto simp: list_ok_def watch_ok_def)
  from live_watches_eq [OF this]
  show "clean_watcher l s = Inr (with_watches s l (if l = 0 then ck_watchers s l else filter (live s) (ck_watchers s l)))"
    by (simp add: clean_watcher_def with_watches_def)
  show "ck_inv M M (with_watches s l (filter (live s) (ck_watchers s l)))"
    unfolding inv_with_watches using assms lo list_ok_filter [OF lo] by (simp add: ck_inv_def)
qed

lemma clean_all_ok:
  assumes "ck_inv M M s"
  shows "res_ok {} (\<lambda>t. \<exists>W. t = s\<lparr>ck_watchers := W\<rparr> \<and> ck_inv M M t \<and> (\<forall>l w. w \<in> set (W l) \<longrightarrow> live s w))
    (fold_res clean_watcher [- ck_size_vars s + 1 .. ck_size_vars s - 1] s)"
proof -
  let ?ls = "[- ck_size_vars s + 1 .. ck_size_vars s - 1]"
  let ?I = "\<lambda>ys t. \<exists>W. t = s\<lparr>ck_watchers := W\<rparr> \<and> ck_inv M M t \<and> (\<forall>l \<in> set ys. \<forall>w \<in> set (W l). live s w)"
  have "res_ok {} (?I ?ls) (fold_res clean_watcher ?ls s)"
  proof (rule res_ok_fold)
    show "?I [] s" using assms by (auto intro: exI [of _ "ck_watchers s"])
  next
    fix ys x zs t assume "?I ys t"
    then obtain W where W: "t = s\<lparr>ck_watchers := W\<rparr>" "ck_inv M M t" "\<forall>l \<in> set ys. \<forall>w \<in> set (W l). live s w" by blast
    have zero: "W 0 = []"
    proof -
      have "list_ok M t 0 (W 0)" using W(1,2) by (simp add: ck_inv_def watches_ok_def)
      then show ?thesis by (auto simp: list_ok_def)
    qed
    have lv: "live t = live s" by (simp add: W(1) live_def fun_eq_iff)
    let ?W = "W(x := filter (live s) (W x))"
    have "with_watches t x (filter (live t) (ck_watchers t x)) = s\<lparr>ck_watchers := ?W\<rparr>"
      by (simp add: with_watches_def W(1) lv [unfolded W(1)])
    moreover have "clean_watcher x t = Inr (with_watches t x (filter (live t) (ck_watchers t x)))"
      using clean_watcher_ok(1) [OF W(2), of x] zero by (auto simp: W(1))
    moreover have "ck_inv M M (with_watches t x (filter (live t) (ck_watchers t x)))" by (rule clean_watcher_ok(2) [OF W(2)])
    ultimately show "res_ok {} (?I (ys @ [x])) (clean_watcher x t)" using W(3) by (auto intro!: exI [of _ ?W] split: if_splits)
  qed
  then show ?thesis
  proof (rule res_ok_mono)
    fix t assume "?I ?ls t"
    then obtain W where W: "t = s\<lparr>ck_watchers := W\<rparr>" "ck_inv M M t" "\<forall>l \<in> set ?ls. \<forall>w \<in> set (W l). live s w" by blast
    have "live s w" if w: "w \<in> set (W l)" for l w
    proof -
      have "list_ok M t l (W l)" using W(1,2) by (simp add: ck_inv_def watches_ok_def)
      then have "\<bar>l\<bar> < ck_size_vars s" using w W(1) by (auto simp: list_ok_def)
      then have "l \<in> set ?ls" by auto
      with W(3) w show ?thesis by blast
    qed
    with W show "\<exists>W. t = s\<lparr>ck_watchers := W\<rparr> \<and> ck_inv M M t \<and> (\<forall>l w. w \<in> set (W l) \<longrightarrow> live s w)" by blast
  qed
qed

lemma free_all:
  assumes "distinct ps" and "\<And>p. p \<in> set ps \<Longrightarrow> map_option cc_size (ck_heap s p) = Some 0"
  shows "fold_res free_clause ps s =
    Inr (s\<lparr>ck_heap := (\<lambda>p. if p \<in> set ps then None else ck_heap s p), ck_num_garbage := ck_num_garbage s - length ps\<rparr>)"
  using assms
proof (induction ps arbitrary: s)
  case Nil
  then show ?case by simp
next
  case (Cons p ps)
  from Cons.prems(2) [of p] obtain c where c: "ck_heap s p = Some c" "cc_size c = 0" by auto
  let ?t = "s\<lparr>ck_num_garbage := ck_num_garbage s - 1, ck_heap := (ck_heap s)(p := None)\<rparr>"
  have f: "free_clause p s = Inr ?t" using c by (simp add: free_clause_def deref_def)
  have "fold_res free_clause ps ?t = Inr (?t\<lparr>ck_heap := (\<lambda>q. if q \<in> set ps then None else ck_heap ?t q),
      ck_num_garbage := ck_num_garbage ?t - length ps\<rparr>)"
  proof (rule Cons.IH)
    fix q assume "q \<in> set ps"
    with Cons.prems show "map_option cc_size (ck_heap ?t q) = Some 0" by (cases "q = p") auto
  qed (use Cons.prems in simp)
  moreover have "(\<lambda>q. if q \<in> set ps then None else ck_heap ?t q) = (\<lambda>q. if q \<in> set (p # ps) then None else ck_heap s q)"
    by auto
  ultimately show ?case by (simp add: f)
qed

lemma collect_garbage_ok:
  assumes i: "ck_inv M M s" and t: "table_ok s"
  shows "res_ok {} (\<lambda>t. ck_inv M M t \<and> swept s t \<and> table_ok t) (collect_garbage_clauses s)"
proof -
  have "table_ok (s\<lparr>ck_table := [[] @ concat (ck_table s)]\<rparr>)" using t by (simp add: table_flat)
  from sweep_table_ok [OF i this] obtain T u where u: "sweep_table (ck_table s) s = Inr (T, u)" "ck_inv M M u" "swept s u"
    "table_ok (u\<lparr>ck_table := T\<rparr>)"
    by (cases "sweep_table (ck_table s) s") (auto simp: table_flat)
  let ?u = "u\<lparr>ck_table := T\<rparr>"
  have nx: "ck_next u \<le> length (ck_trail u)" using u(2) by (simp add: ck_inv_def asg_ok_def)
  have iu: "ck_inv M M ?u" by (rule inv_cong [OF u(2)]) (use nx in simp_all)
  from clean_all_ok [OF iu] obtain W where
    W: "fold_res clean_watcher [- ck_size_vars ?u + 1 .. ck_size_vars ?u - 1] ?u = Inr (?u\<lparr>ck_watchers := W\<rparr>)"
      "ck_inv M M (?u\<lparr>ck_watchers := W\<rparr>)" "\<forall>l w. w \<in> set (W l) \<longrightarrow> live ?u w"
    by (cases "fold_res clean_watcher [- ck_size_vars ?u + 1 .. ck_size_vars ?u - 1] ?u") auto
  let ?v = "?u\<lparr>ck_watchers := W\<rparr>" and ?H = "\<lambda>p. if p \<in> set (ck_garbage u) then None else ck_heap u p"
  have g: "distinct (ck_garbage u)" "\<And>p. p \<in> set (ck_garbage u) \<Longrightarrow> map_option cc_size (ck_heap u p) = Some 0"
    using u(4) by (auto simp: table_ok_def)
  have "fold_res free_clause (ck_garbage ?v) ?v = Inr (?v\<lparr>ck_heap := ?H, ck_num_garbage := ck_num_garbage u - length (ck_garbage u)\<rparr>)"
  proof -
    have "ck_heap ?v = ck_heap u" by simp
    from free_all [of "ck_garbage u" ?v, unfolded this] g show ?thesis by simp
  qed
  moreover let ?w = "?v\<lparr>ck_heap := ?H, ck_num_garbage := ck_num_garbage u - length (ck_garbage u), ck_garbage := []\<rparr>"
  have "ck_inv M M ?w"
  proof -
    have "list_ok M ?w l (W l)" for l
    proof -
      have lo: "list_ok M ?v l (W l)" using W(2) by (simp add: ck_inv_def watches_ok_def)
      have "watch_ok M ?w l x" if x: "x \<in> set (W l)" for x
      proof -
        have "watch_ok M ?v l x" using lo x by (simp add: list_ok_def)
        moreover have "cw_clause x \<notin> set (ck_garbage u)" using W(3) x g(2) [of "cw_clause x"] by (fastforce simp: live_def)
        ultimately show ?thesis by (auto simp: watch_ok_def)
      qed
      with lo show ?thesis by (simp add: list_ok_def)
    qed
    moreover have "heap_ok M ?w" using W(2) by (auto simp: ck_inv_def heap_ok_def)
    moreover have "asg_ok M ?w" using W(2) by (simp add: ck_inv_def asg_ok_def)
    ultimately show ?thesis by (simp add: ck_inv_def watches_ok_def)
  qed
  moreover have "table_ok ?w"
  proof -
    have dj: "set (concat T) \<inter> set (ck_garbage u) = {}" and dm: "dom (ck_heap u) = set (concat T) \<union> set (ck_garbage u)"
      using u(4) by (simp_all add: table_ok_def del: set_concat)
    have "dom ?H = set (concat T)"
    proof -
      have "dom ?H = dom (ck_heap u) - set (ck_garbage u)" by (auto simp: dom_def)
      with dj dm show ?thesis by blast
    qed
    moreover have "\<exists>n. map_option cc_size (?H p) = Some n \<and> n \<noteq> 0" if "p \<in> set (concat T)" for p
      using that dj u(4) by (auto simp: table_ok_def simp del: set_concat)
    ultimately show ?thesis using u(4) by (simp add: table_ok_def del: set_concat)
  qed
  ultimately show ?thesis using u(1,3) W(1) by (simp add: collect_garbage_clauses_def swept_def)
qed

section \<open>Deleting a clause\<close>

lemma unlink_ok:
  assumes i: "ck_inv M M s" and t: "table_ok s" and h: "h < length (ck_table s)" and j: "j < length (ck_table s ! h)"
  shows "res_ok {} (\<lambda>t. ck_inv M M t \<and> table_ok t \<and> swept s t) (unlink_clause h j s)"
proof -
  let ?ch = "ck_table s ! h"
  let ?p = "?ch ! j"
  let ?T = "(ck_table s)[h := take j ?ch @ drop (j + 1) ?ch]"
  have "?p \<in> set (concat (ck_table s))" using h j by (auto intro!: bexI [of _ ?ch])
  from table_heap [OF t this] obtain c where c: "ck_heap s ?p = Some c" by auto
  have ch: "?ch = take j ?ch @ ?p # drop (j + 1) ?ch" using j by (simp add: id_take_nth_drop)
  have T: "ck_table s = take h (ck_table s) @ ?ch # drop (h + 1) (ck_table s)" using h by (simp add: id_take_nth_drop)
  let ?pre = "concat (take h (ck_table s)) @ take j ?ch" and ?post = "drop (j + 1) ?ch @ concat (drop (h + 1) (ck_table s))"
  have full: "concat (ck_table s) = ?pre @ ?p # ?post"
  proof -
    have "concat (ck_table s) = concat (take h (ck_table s)) @ ?ch @ concat (drop (h + 1) (ck_table s))"
      by (subst T) simp
    also have "\<dots> = concat (take h (ck_table s)) @ (take j ?ch @ ?p # drop (j + 1) ?ch) @ concat (drop (h + 1) (ck_table s))"
      using ch by simp
    finally show ?thesis by simp
  qed
  have rest: "concat ?T = ?pre @ ?post" using h by (simp add: upd_conv_take_nth_drop)
  have "table_ok (s\<lparr>ck_table := [?pre @ ?p # ?post]\<rparr>)" using t full table_flat [where s = s and T = "ck_table s"] by simp
  from dropped_table [OF this c] have "table_ok ((dropped ?p c s)\<lparr>ck_table := [concat ?T]\<rparr>)" by (simp only: rest)
  then have tt: "table_ok ((dropped ?p c s)\<lparr>ck_table := ?T\<rparr>)" by (simp only: table_flat)
  have id: "ck_inv M M (dropped ?p c s)" by (rule dropped_inv [OF i c])
  then have "ck_next (dropped ?p c s) \<le> length (ck_trail (dropped ?p c s))" by (simp only: ck_inv_def asg_ok_def)
  then have "ck_inv M M ((dropped ?p c s)\<lparr>ck_table := ?T\<rparr>)" by (intro inv_cong [OF id]) simp_all
  moreover have "unlink_clause h j s = Inr ((dropped ?p c s)\<lparr>ck_table := ?T\<rparr>)"
    using h j c by (simp add: unlink_clause_def deref_def dropped_def set_clause_def)
  ultimately show ?thesis using tt by (simp add: swept_def)
qed

text \<open>The state between two proof lines, with nothing imported.\<close>

definition resting :: "(nat \<Rightarrow> bool) set \<Rightarrow> checker \<Rightarrow> bool" where
  "resting M s \<longleftrightarrow> settled M s \<and> (\<not> ck_inconsistent s \<longrightarrow> ck_simplified s = [])"

lemma clear_resting: "settled M s \<Longrightarrow> resting M (clear_import s)"
proof -
  assume s: "settled M s"
  have "ck_inv M M (clear_import s)" if "ck_inv M M s"
    using that by (intro inv_cong [OF that]) (auto simp: clear_import_def ck_inv_def asg_ok_def)
  moreover have "table_ok (clear_import s)" if "table_ok s" using that by (simp add: table_ok_def clear_import_def)
  ultimately show ?thesis using s by (auto simp: resting_def settled_def clear_import_def)
qed

lemma import_start:
  assumes "resting M s" and "\<not> ck_inconsistent s" and "lits_ok c"
  obtains b t where "tautological (import_clause c s) = (b, t)" and "ck_inv M M t" and "import_frame s t" and "table_ok t"
    and "\<not> ck_inconsistent t" and "if b then ent M c else simple t \<and> set (ck_simplified t) = set c"
proof -
  obtain b t where bt: "tautological (import_clause c s) = (b, t)" by fastforce
  have s: "ck_inv M M s" "table_ok s" "ck_simplified s = []" using assms by (auto simp: resting_def settled_def)
  note i = import_taut [OF s(1,3) assms(3) bt]
  then have "table_ok t" by (intro table_ok_cong [OF s(2)]) (auto simp: import_frame_def)
  with i bt assms(2) show ?thesis by (intro that [of b t]) (auto simp: import_frame_def)
qed

lemma delete_clause_ok:
  assumes "resting M s" and "lits_ok c" and "ck_table s \<noteq> []"
  shows "res_ok {Abort} (resting M) (delete_clause c s)"
proof (cases "ck_inconsistent s")
  case True
  with assms show ?thesis by (simp add: delete_clause_def)
next
  case False
  from import_start [OF assms(1) False assms(2)] obtain b t where
    bt: "tautological (import_clause c s) = (b, t)" and i: "ck_inv M M t" and fr: "import_frame s t" and tt: "table_ok t"
    and nc: "\<not> ck_inconsistent t" and c: "if b then ent M c else simple t \<and> set (ck_simplified t) = set c" by blast
  have ne: "ck_table t \<noteq> []" using assms(3) fr by (simp add: import_frame_def)
  show ?thesis
  proof (cases b)
    case True
    have "settled M t" using i tt nc by (simp add: settled_def)
    with True bt False show ?thesis by (simp add: delete_clause_def clear_resting)
  next
    case nb: False
    obtain h j marks hash where
      f: "find_clause t = Inr ((h, j), t\<lparr>ck_last_hash := hash, ck_marks := marks\<rparr>)" "h < length (ck_table t)"
         "\<forall>k. j = Some k \<longrightarrow> k < length (ck_table t ! h)" by (rule find_clause_ok [OF tt ne])
    let ?t = "t\<lparr>ck_last_hash := hash, ck_marks := marks\<rparr>"
    have "ck_next t \<le> length (ck_trail t)" using i by (simp add: ck_inv_def asg_ok_def)
    then have it: "ck_inv M M ?t" by (intro inv_cong [OF i]) simp_all
    have tt': "table_ok ?t" using tt by (simp add: table_ok_def)
    show ?thesis
    proof (cases j)
      case None
      with f nb bt False show ?thesis by (simp add: delete_clause_def)
    next
      case (Some k)
      have "res_ok {} (\<lambda>u. ck_inv M M u \<and> table_ok u \<and> swept ?t u) (unlink_clause h k ?t)"
        by (rule unlink_ok [OF it tt']) (use f Some in simp_all)
      then have "res_ok {} (settled M) (bind_res (unlink_clause h k ?t) (\<lambda>s.
                   if 2 * int (ck_num_garbage s) > max (int (length (ck_table s))) (ck_size_vars s)
                   then collect_garbage_clauses s else Inr s))"
      proof (rule res_ok_bind)
        fix u assume u: "ck_inv M M u \<and> table_ok u \<and> swept ?t u"
        then have "\<not> ck_inconsistent u" using nc by (simp add: swept_def)
        with u collect_garbage_ok [of M u] show "res_ok {} (settled M)
          (if 2 * int (ck_num_garbage u) > max (int (length (ck_table u))) (ck_size_vars u)
                   then collect_garbage_clauses u else Inr u)"
          by (auto elim!: res_ok_mono simp: settled_def swept_def)
      qed
      then obtain u where "bind_res (unlink_clause h k ?t) (\<lambda>s.
                   if 2 * int (ck_num_garbage s) > max (int (length (ck_table s))) (ck_size_vars s)
                   then collect_garbage_clauses s else Inr s) = Inr u" "settled M u"
        by (cases "bind_res (unlink_clause h k ?t) (\<lambda>s.
                   if 2 * int (ck_num_garbage s) > max (int (length (ck_table s))) (ck_size_vars s)
                   then collect_garbage_clauses s else Inr s)") auto
      with f Some nb bt False show ?thesis by (simp add: delete_clause_def clear_resting)
    qed
  qed
qed

lemma delete_empty_table:
  assumes "\<not> ck_inconsistent s" and "ck_table s = []" and "\<not> fst (tautological (import_clause c s))"
  shows "delete_clause c s = Inl OutOfFuel"
proof -
  obtain t where t: "tautological (import_clause c s) = (False, t)" using assms(3) by (cases "tautological (import_clause c s)") auto
  have "ck_table (import_clause c s) = ck_table s" for c
  proof (induction c arbitrary: s)
    case Nil
    then show ?case by (simp add: import_clause_def)
  next
    case (Cons l c)
    show ?case using Cons [of "import_literal l s"]
      by (simp add: import_clause_def import_literal_def enlarge_vars_def Let_def)
  qed
  then have "ck_table t = []" using t assms(2) by (auto simp: tautological_def Let_def split: option.splits)
  with assms(1) t show ?thesis
    by (simp add: delete_clause_def find_clause_def compute_hash_def Let_def reduce_hash_empty)
qed

section \<open>Whole proofs\<close>

lemma add_original_ok:
  assumes "resting M s" and "lits_ok c"
  shows "res_ok {} (resting (M \<inter> {a. cl_on a c})) (add_original_clause c s)"
proof (cases "ck_inconsistent s")
  case True
  with assms show ?thesis by (simp add: add_original_clause_def resting_def settled_def)
next
  case False
  let ?N = "M \<inter> {a. cl_on a c}"
  from import_start [OF assms(1) False assms(2)] obtain b t where
    bt: "tautological (import_clause c s) = (b, t)" and i: "ck_inv M M t" and fr: "import_frame s t" and tt: "table_ok t"
    and nc: "\<not> ck_inconsistent t" and c: "if b then ent M c else simple t \<and> set (ck_simplified t) = set c" by blast
  have N: "M \<inter> ?N = ?N" by blast
  have iN: "ck_inv ?N ?N t" using inv_anti [OF i, of ?N] N by auto
  have "res_ok {} (settled ?N) (if b then Inr t else add_clause t)"
  proof (cases b)
    case True
    with iN tt nc show ?thesis by (simp add: settled_def)
  next
    case nb: False
    have "ent ?N c" by (simp add: ent_def)
    then have "ent ?N (ck_simplified t)" using nb c ent_set [of c "ck_simplified t"] by simp
    with add_clause_ok [OF iN tt _ this nc] nb c show ?thesis by simp
  qed
  then have "res_ok {} (resting ?N) (bind_res (if b then Inr t else add_clause t) (\<lambda>s. Inr (clear_import s)))"
    by (rule res_ok_bind) (simp add: clear_resting)
  with bt False show ?thesis by (simp add: add_original_clause_def)
qed

lemma add_derived_ok:
  assumes "resting M s" and "lits_ok c"
  shows "res_ok {Abort} (\<lambda>t. resting M t \<and> ent M c) (add_derived_clause c s)"
proof (cases "ck_inconsistent s")
  case True
  with assms show ?thesis by (simp add: add_derived_clause_def resting_def settled_def ent_def)
next
  case False
  from import_start [OF assms(1) False assms(2)] obtain b t where
    bt: "tautological (import_clause c s) = (b, t)" and i: "ck_inv M M t" and fr: "import_frame s t" and tt: "table_ok t"
    and nc: "\<not> ck_inconsistent t" and c: "if b then ent M c else simple t \<and> set (ck_simplified t) = set c" by blast
  have "res_ok {Abort} (\<lambda>t. settled M t \<and> ent M c)
      (if b then Inr t else bind_res (check t) (\<lambda>(ok, s). if ok then add_clause s else Inl Abort))"
  proof (cases b)
    case True
    with i tt nc c show ?thesis by (simp add: settled_def)
  next
    case nb: False
    from check_ok [OF i _ nc] nb c obtain ok u where u: "check t = Inr (ok, u)" "ck_inv M M u" "checker_frame t u" "simple u"
      "ok \<Longrightarrow> ent M (ck_simplified t)"
      by (cases "check t") auto
    have su: "ck_simplified u = ck_simplified t" and nu: "\<not> ck_inconsistent u" using u(3) nc by (auto simp: checker_frame_def)
    have tu: "table_ok u" by (rule table_ok_cong [OF tt]) (use u(3) in \<open>simp_all add: checker_frame_def\<close>)
    show ?thesis
    proof (cases ok)
      case True
      with u(5) have e: "ent M (ck_simplified t)" by simp
      then have "ent M c" using nb c ent_set [of "ck_simplified t" c] by simp
      with add_clause_ok [OF u(2) tu u(4) _ nu] e su True u(1) nb show ?thesis by (auto elim!: res_ok_mono simp: res_ok_def split: sum.splits)
    next
      case False
      with u(1) nb show ?thesis by simp
    qed
  qed
  then have "res_ok {Abort} (\<lambda>t. resting M t \<and> ent M c)
      (bind_res (if b then Inr t else bind_res (check t) (\<lambda>(ok, s). if ok then add_clause s else Inl Abort)) (\<lambda>s. Inr (clear_import s)))"
    by (rule res_ok_bind) (simp add: clear_resting)
  with bt False show ?thesis by (simp add: add_derived_clause_def)
qed

end
