(* ===== verification/Proof_Checker_Theorems.thy ===== *)
theory Proof_Checker_Theorems
  imports Proof_Checker_Delete
begin

text \<open>
  What the proof checker guarantees for a whole proof: a run of \<open>checker_step\<close> from the initial
  state over the original, derived and deleted clauses.
\<close>

fun event_clause :: "proof_event \<Rightarrow> int list" where
  "event_clause (Original c) = c"
| "event_clause (Derived c) = c"
| "event_clause (Deleted c) = c"

definition run_checker :: "u64 list \<Rightarrow> proof_event list \<Rightarrow> checker res" where
  "run_checker nonces evs = fold_res checker_step evs (checker_init nonces)"

definition models :: "proof_event list \<Rightarrow> (nat \<Rightarrow> bool) set" where
  "models evs = {a. \<forall>c. Original c \<in> set evs \<longrightarrow> cl_on a c}"

definition events_ok :: "proof_event list \<Rightarrow> bool" where
  "events_ok evs \<longleftrightarrow> list_all (\<lambda>e. lits_ok (event_clause e)) evs"

lemma models_snoc [simp]:
  "models (evs @ [Original c]) = models evs \<inter> {a. cl_on a c}"
  "models (evs @ [Derived c]) = models evs" "models (evs @ [Deleted c]) = models evs"
  by (auto simp: models_def)

lemma init_resting: "resting UNIV (checker_init nonces)"
  by (simp add: resting_def settled_def checker_init_def ck_inv_def asg_ok_def heap_ok_def watches_ok_def
      list_ok_def table_ok_def)

text \<open>The ways a line of the proof can fail.\<close>

definition step_errors :: "proof_event \<Rightarrow> checker \<Rightarrow> err set" where
  "step_errors e s = (case e of Original c \<Rightarrow> {} | Derived c \<Rightarrow> {Abort}
     | Deleted c \<Rightarrow> (if ck_table s = [] then {OutOfFuel} else {Abort}))"

lemma step_ok:
  assumes "resting (models evs) s" and "lits_ok (event_clause e)"
  shows "res_ok (step_errors e s) (\<lambda>t. resting (models (evs @ [e])) t \<and> (\<forall>c. e = Derived c \<longrightarrow> ent (models evs) c)) (checker_step e s)"
proof (cases e)
  case (Original c)
  with add_original_ok [OF assms(1), of c] assms(2) show ?thesis by (simp add: step_errors_def)
next
  case (Derived c)
  with add_derived_ok [OF assms(1), of c] assms(2) show ?thesis by (simp add: step_errors_def)
next
  case (Deleted c)
  show ?thesis
  proof (cases "ck_table s = []")
    case False
    with Deleted delete_clause_ok [OF assms(1), of c] assms(2) show ?thesis by (simp add: step_errors_def)
  next
    case True
    show ?thesis
    proof (cases "ck_inconsistent s \<or> \<not> fst (tautological (import_clause c s))")
      case fin: True
      with Deleted assms delete_empty_table [of s c] \<open>ck_table s = []\<close> show ?thesis
        by (cases "ck_inconsistent s") (simp_all add: step_errors_def delete_clause_def resting_def)
    next
      case False
      then have "\<not> ck_inconsistent s" by simp
      have "lits_ok c" using assms(2) Deleted by simp
      from import_start [OF assms(1) \<open>\<not> ck_inconsistent s\<close> this] obtain b t where
        t: "tautological (import_clause c s) = (b, t)" "ck_inv (models evs) (models evs) t" "table_ok t" "\<not> ck_inconsistent t"
        by metis
      with False have "delete_clause c s = Inr (clear_import t)" by (simp add: delete_clause_def)
      moreover have "settled (models evs) t" using t by (simp add: settled_def)
      ultimately show ?thesis using Deleted by (simp add: clear_resting)
    qed
  qed
qed

lemma run_resting:
  assumes "run_checker nonces evs = Inr s" and "events_ok evs"
  shows "resting (models evs) s"
  using assms
proof (induction evs arbitrary: s rule: rev_induct)
  case Nil
  then show ?case using init_resting [of nonces] by (simp add: run_checker_def models_def)
next
  case (snoc e evs)
  then obtain t where t: "run_checker nonces evs = Inr t" "checker_step e t = Inr s"
    by (auto simp: run_checker_def fold_res_append bind_res_eq_Inr)
  with snoc step_ok [of evs t e] show ?case by (simp add: events_ok_def)
qed

section \<open>Properties\<close>

text \<open>C7. Whenever the checker accepts a derived clause, the clause holds in every model of the
original clauses added before it.\<close>

theorem accepted_clause_implied:
  assumes "run_checker nonces (evs @ [Derived c]) = Inr s" and "events_ok (evs @ [Derived c])"
    and "\<And>d. Original d \<in> set evs \<Longrightarrow> cl_on a d"
  shows "cl_on a c"
proof -
  obtain t where t: "run_checker nonces evs = Inr t" "checker_step (Derived c) t = Inr s"
    using assms(1) by (auto simp: run_checker_def fold_res_append bind_res_eq_Inr simp del: checker_step.simps)
  have "resting (models evs) t" by (rule run_resting [OF t(1)]) (use assms(2) in \<open>simp add: events_ok_def\<close>)
  from step_ok [OF this, of "Derived c"] t(2) assms(2) have "ent (models evs) c"
    by (simp add: events_ok_def del: checker_step.simps)
  then show ?thesis using assms(3) by (simp add: ent_def models_def)
qed

definition demo_nonces :: "u64 list" where
  "demo_nonces = [3, 5, 7, 9]"

definition demo_proof :: "proof_event list" where
  "demo_proof = [Original [1], Original [-1, 2], Original [-2, 3, -1]]"

lemma demo_runs: "\<exists>s. run_checker demo_nonces (demo_proof @ [Derived [3]]) = Inr s"
proof -
  have "case run_checker demo_nonces (demo_proof @ [Derived [3]]) of Inr s \<Rightarrow> True | Inl e \<Rightarrow> False"
    by code_simp
  then show ?thesis by (auto split: sum.splits)
qed

theorem accepted_clause_implied_witness:
  "cl_on (\<lambda>v. v \<le> 3) [3]"
proof -
  obtain s where s: "run_checker demo_nonces (demo_proof @ [Derived [3]]) = Inr s" using demo_runs by blast
  show ?thesis
  proof (rule accepted_clause_implied [OF s])
    show "events_ok (demo_proof @ [Derived [3]])" by code_simp
    show "cl_on (\<lambda>v. v \<le> 3) d" if "Original d \<in> set demo_proof" for d
      using that by (auto simp: demo_proof_def cl_on_def lit_on_def)
  qed
qed

text \<open>C30. When the checker says that the formula is inconsistent, the original clauses have no model.\<close>

theorem inconsistent_unsatisfiable:
  assumes "run_checker nonces evs = Inr s" and "events_ok evs" and "ck_inconsistent s"
  shows "\<exists>c. Original c \<in> set evs \<and> \<not> cl_on a c"
proof -
  have "resting (models evs) s" by (rule run_resting [OF assms(1,2)])
  with assms(3) have "models evs = {}" by (simp add: resting_def settled_def)
  then show ?thesis by (auto simp: models_def)
qed

definition demo_conflict :: "proof_event list" where
  "demo_conflict = [Original [1], Original [-1, 2], Original [-2, -1]]"

theorem inconsistent_unsatisfiable_witness:
  "\<exists>c. Original c \<in> set demo_conflict \<and> \<not> cl_on (\<lambda>v. v = 1) c"
proof -
  have "case run_checker demo_nonces demo_conflict of Inr s \<Rightarrow> ck_inconsistent s | Inl e \<Rightarrow> False"
    by code_simp
  then obtain s where s: "run_checker demo_nonces demo_conflict = Inr s" "ck_inconsistent s"
    by (auto split: sum.splits)
  show ?thesis by (rule inconsistent_unsatisfiable [OF s(1) _ s(2)]) code_simp
qed

text \<open>
  The arrays \<open>vals\<close>, \<open>watchers\<close> and \<open>marks\<close> serve the literals from \<open>- size_vars + 1\<close> to
  \<open>size_vars - 1\<close> without 0.  In \<open>within_arrays\<close> every literal the checker keeps is one of these: those
  with a value, on the trail, in the clauses that are not garbage, with a watch list, in a watch.
\<close>

definition array_lit :: "checker \<Rightarrow> int \<Rightarrow> bool" where
  "array_lit s l \<longleftrightarrow> l \<noteq> 0 \<and> \<bar>l\<bar> < ck_size_vars s"

definition within_arrays :: "checker \<Rightarrow> bool" where
  "within_arrays s \<longleftrightarrow>
     (\<forall>l. ck_vals s l \<noteq> 0 \<longrightarrow> array_lit s l)
     \<and> (\<forall>l \<in> set (ck_trail s). array_lit s l)
     \<and> (\<forall>p c. ck_heap s p = Some c \<and> cc_size c \<noteq> 0 \<longrightarrow>
          cc_size c = length (cc_lits c) \<and> (\<forall>l \<in> set (cc_lits c). array_lit s l))
     \<and> (\<forall>l w. w \<in> set (ck_watchers s l) \<longrightarrow> array_lit s l \<and> array_lit s (cw_blit w))"

lemma inv_within_arrays:
  assumes "ck_inv M A s"
  shows "within_arrays s"
proof -
  have a: "asg_ok A s" and h: "heap_ok M s" and w: "\<And>l. list_ok M s l (ck_watchers s l)"
    using assms by (simp_all add: ck_inv_def watches_ok_def)
  have trail: "array_lit s l" if "l \<in> set (ck_trail s)" for l
    using a that by (simp add: asg_ok_def array_lit_def)
  have "array_lit s l" if "ck_vals s l \<noteq> 0" for l
    using vals_zero [OF a, of l] that trail [of l] trail [of "- l"] by (auto simp: array_lit_def)
  moreover have "cc_size c = length (cc_lits c) \<and> (\<forall>l \<in> set (cc_lits c). array_lit s l)"
    if "ck_heap s p = Some c" "cc_size c \<noteq> 0" for p c
    using h that by (simp add: heap_ok_def clause_ok_def array_lit_def)
  moreover have "array_lit s l \<and> array_lit s (cw_blit v)" if "v \<in> set (ck_watchers s l)" for l v
    using w [of l] that by (auto simp: list_ok_def watch_ok_def array_lit_def)
  ultimately show ?thesis using trail unfolding within_arrays_def by blast
qed

text \<open>C31. After any accepted part of a proof, while the checker is not inconsistent: once the next
line is imported, every literal of the line and every literal the checker keeps lies within the arrays
indexed by literals, which \<open>import_literal\<close> has enlarged.  The line then succeeds, or is reported: a
derived clause that is not implied by propagation, a deleted clause that is not there.  No line reads
a freed clause or a bucket outside the hash table, or needs more fuel, except a deletion while the
table is empty.\<close>

theorem checker_failures:
  assumes "run_checker nonces evs = Inr s" and "events_ok (evs @ [e])"
  shows "(\<not> ck_inconsistent s \<longrightarrow> within_arrays (import_clause (event_clause e) s)
      \<and> (\<forall>l \<in> set (event_clause e). array_lit (import_clause (event_clause e) s) l))
    \<and> (case checker_step e s of
      Inl Abort \<Rightarrow> (\<forall>c. e \<noteq> Original c)
    | Inl OutOfFuel \<Rightarrow> (\<exists>c. e = Deleted c) \<and> ck_table s = []
    | Inl f \<Rightarrow> False
    | Inr t \<Rightarrow> ck_inconsistent t \<or> within_arrays t)"
proof (rule conjI)
  let ?s = "import_clause (event_clause e) s"
  have r: "resting (models evs) s" by (rule run_resting [OF assms(1)]) (use assms(2) in \<open>simp add: events_ok_def\<close>)
  have l: "lits_ok (event_clause e)" using assms(2) by (simp add: events_ok_def)
  show "\<not> ck_inconsistent s \<longrightarrow> within_arrays ?s \<and> (\<forall>l \<in> set (event_clause e). array_lit ?s l)"
  proof
    assume "\<not> ck_inconsistent s"
    then have "ck_inv (models evs) (models evs) s" using r by (simp add: resting_def settled_def)
    from import_clause_ok [OF this, of "event_clause e"]
    show "within_arrays ?s \<and> (\<forall>l \<in> set (event_clause e). array_lit ?s l)"
      using l inv_within_arrays by (auto simp: lits_ok_def array_lit_def)
  qed
  have "ck_inconsistent t \<or> within_arrays t" if "resting (models (evs @ [e])) t" for t
    using that inv_within_arrays by (auto simp: resting_def settled_def split: if_splits)
  with step_ok [OF r l] show "case checker_step e s of
      Inl Abort \<Rightarrow> (\<forall>c. e \<noteq> Original c)
    | Inl OutOfFuel \<Rightarrow> (\<exists>c. e = Deleted c) \<and> ck_table s = []
    | Inl f \<Rightarrow> False
    | Inr t \<Rightarrow> ck_inconsistent t \<or> within_arrays t"
    by (auto simp: step_errors_def res_ok_def split: sum.splits proof_event.splits if_splits)
qed

theorem checker_failures_witness:
  "within_arrays (import_clause [1, 2] (checker_init demo_nonces))
    \<and> (case checker_step (Deleted [1, 2]) (checker_init demo_nonces) of
      Inl Abort \<Rightarrow> (\<forall>c. Deleted [1, 2] \<noteq> Original c)
    | Inl OutOfFuel \<Rightarrow> (\<exists>c. Deleted [1, 2] = Deleted c) \<and> ck_table (checker_init demo_nonces) = []
    | Inl f \<Rightarrow> False
    | Inr t \<Rightarrow> ck_inconsistent t \<or> within_arrays t)"
proof -
  have "run_checker demo_nonces [] = Inr (checker_init demo_nonces)" by (simp add: run_checker_def)
  moreover have "events_ok ([] @ [Deleted [1, 2]])" by (simp add: events_ok_def lits_ok_def)
  moreover have "\<not> ck_inconsistent (checker_init demo_nonces)" by (simp add: checker_init_def)
  ultimately show ?thesis using checker_failures [of demo_nonces "[]" _ "Deleted [1, 2]"] by simp
qed

text \<open>C32. Between two lines every clause object is on exactly one collision chain, or on the garbage
list with size 0; the counters agree; every watch points to a clause object and every large clause
that is not garbage is watched by its first two literals only.\<close>

theorem checker_memory:
  assumes "run_checker nonces evs = Inr s" and "events_ok evs" and "\<not> ck_inconsistent s"
  shows "distinct (concat (ck_table s) @ ck_garbage s)
    \<and> dom (ck_heap s) = set (concat (ck_table s) @ ck_garbage s)
    \<and> ck_num_clauses s = length (concat (ck_table s)) \<and> ck_num_garbage s = length (ck_garbage s)
    \<and> (\<forall>l w. w \<in> set (ck_watchers s l) \<longrightarrow> (\<exists>c. ck_heap s (cw_clause w) = Some c
          \<and> (cc_size c = 0 \<or> cc_size c = length (cc_lits c) \<and> cc_size c = cw_size w
               \<and> (2 < cw_size w \<longrightarrow> l \<in> {cc_lits c ! 0, cc_lits c ! 1}))))"
proof -
  from run_resting [OF assms(1,2)] assms(3) have i: "ck_inv (models evs) (models evs) s" "table_ok s"
    by (simp_all add: resting_def settled_def)
  have w: "\<exists>c. ck_heap s (cw_clause w) = Some c
          \<and> (cc_size c = 0 \<or> cc_size c = length (cc_lits c) \<and> cc_size c = cw_size w
               \<and> (2 < cw_size w \<longrightarrow> l \<in> {cc_lits c ! 0, cc_lits c ! 1}))" if "w \<in> set (ck_watchers s l)" for l w
  proof -
    have "watch_ok (models evs) s l w" using i(1) that by (auto simp: ck_inv_def watches_ok_def list_ok_def)
    then obtain c where c: "ck_heap s (cw_clause w) = Some c"
        "cc_size c \<noteq> 0 \<longrightarrow> cw_size w = cc_size c \<and> (2 < cw_size w \<longrightarrow> l = cc_lits c ! 0 \<or> l = cc_lits c ! 1)"
      by (auto simp: watch_ok_def)
    have "cc_size c \<noteq> 0 \<longrightarrow> cc_size c = length (cc_lits c)" using i(1) c(1) by (auto simp: ck_inv_def heap_ok_def clause_ok_def)
    with c show ?thesis by auto
  qed
  then show ?thesis using i(2) by (simp add: table_ok_def)
qed

lemma demo_consistent: "\<exists>s. run_checker demo_nonces [Original [1, 2]] = Inr s \<and> \<not> ck_inconsistent s"
proof -
  have "case run_checker demo_nonces [Original [1, 2]] of Inr s \<Rightarrow> \<not> ck_inconsistent s | Inl e \<Rightarrow> False"
    by code_simp
  then show ?thesis by (auto split: sum.splits)
qed

theorem checker_memory_witness:
  "\<exists>s. run_checker demo_nonces [Original [1, 2]] = Inr s \<and> dom (ck_heap s) = set (concat (ck_table s) @ ck_garbage s)"
proof -
  obtain s where s: "run_checker demo_nonces [Original [1, 2]] = Inr s" "\<not> ck_inconsistent s" using demo_consistent by blast
  have "events_ok [Original [1, 2]]" by code_simp
  from checker_memory [OF s(1) this s(2)] s(1) show ?thesis by blast
qed



end
