(* ===== verification/Extension.thy ===== *)
theory Extension
  imports Assignments
begin

text \<open>
  The extension stack of CaDiCaL and the reconstruction of a model of the original formula
  (\<open>cadical/src/extend.cpp\<close>), with the external literal marks and \<open>ival\<close> of \<open>external.hpp\<close>.
  The stack is a list of integers; each entry is a zero, the witness literals, a zero and the
  clause.  A loop that reads the stack backward from its end is a function of the reversed list.
\<close>

section \<open>Marks and values\<close>

definition elit2ulit :: "int \<Rightarrow> nat" where
  "elit2ulit elit = 2 * nat (\<bar>elit\<bar> - 1) + (if elit < 0 then 1 else 0)"

definition marked :: "bool list \<Rightarrow> int \<Rightarrow> bool" where
  "marked mp elit = (if elit2ulit elit < length mp then mp ! elit2ulit elit else False)"

definition grow_to :: "nat \<Rightarrow> bool list \<Rightarrow> bool list" where
  "grow_to n xs = (if length xs \<le> n then xs @ replicate (n + 1 - length xs) False else xs)"

definition mark :: "bool list \<Rightarrow> int \<Rightarrow> bool list" where
  "mark mp elit = (grow_to (elit2ulit elit) mp)[elit2ulit elit := True]"

definition unmark :: "bool list \<Rightarrow> int \<Rightarrow> bool list" where
  "unmark mp elit = (if elit2ulit elit < length mp then mp[elit2ulit elit := False] else mp)"

definition ival :: "int \<Rightarrow> bool list \<Rightarrow> int \<Rightarrow> int" where
  "ival max_var vals elit =
     (let eidx = \<bar>elit\<bar>;
          r = (if eidx > max_var then - 1
               else if nat eidx \<ge> length vals then - 1
               else if vals ! nat eidx then eidx else - eidx)
      in if elit < 0 then - r else r)"

section \<open>Pushing on the stack\<close>

definition externalize :: "(nat \<Rightarrow> int) \<Rightarrow> int \<Rightarrow> int" where
  "externalize i2e lit = (let r = i2e (nat \<bar>lit\<bar>) in if lit < 0 then - r else r)"

record ext_stack =
  x_extension :: "int list"
  x_witness :: "bool list"

definition push_zero :: "'a ext_stack_scheme \<Rightarrow> 'a ext_stack_scheme" where
  "push_zero x = x\<lparr>x_extension := x_extension x @ [0]\<rparr>"

definition push_clause_literal :: "(nat \<Rightarrow> int) \<Rightarrow> int \<Rightarrow> 'a ext_stack_scheme \<Rightarrow> 'a ext_stack_scheme" where
  "push_clause_literal i2e ilit x = x\<lparr>x_extension := x_extension x @ [externalize i2e ilit]\<rparr>"

definition push_witness_literal :: "(nat \<Rightarrow> int) \<Rightarrow> int \<Rightarrow> 'a ext_stack_scheme \<Rightarrow> 'a ext_stack_scheme" where
  "push_witness_literal i2e ilit x =
     (let elit = externalize i2e ilit; x = x\<lparr>x_extension := x_extension x @ [elit]\<rparr> in
      if marked (x_witness x) elit then x else x\<lparr>x_witness := mark (x_witness x) elit\<rparr>)"

definition push_clause :: "(nat \<Rightarrow> int) \<Rightarrow> int list \<Rightarrow> 'a ext_stack_scheme \<Rightarrow> 'a ext_stack_scheme" where
  "push_clause i2e c x = fold (push_clause_literal i2e) c (push_zero x)"

definition push_clause_pivot :: "(nat \<Rightarrow> int) \<Rightarrow> int list \<Rightarrow> int \<Rightarrow> 'a ext_stack_scheme \<Rightarrow> 'a ext_stack_scheme" where
  "push_clause_pivot i2e c pivot x = push_clause i2e c (push_witness_literal i2e pivot (push_zero x))"

definition push_binary_clause :: "(nat \<Rightarrow> int) \<Rightarrow> int \<Rightarrow> int \<Rightarrow> 'a ext_stack_scheme \<Rightarrow> 'a ext_stack_scheme" where
  "push_binary_clause i2e pivot other x =
     push_clause_literal i2e other (push_clause_literal i2e pivot
       (push_zero (push_witness_literal i2e pivot (push_zero x))))"

section \<open>The extension of an assignment\<close>

text \<open>The first loop: the values of the internal solver.\<close>

definition copy_val :: "(nat \<Rightarrow> int) \<Rightarrow> (int \<Rightarrow> int) \<Rightarrow> nat \<Rightarrow> bool list \<Rightarrow> bool list" where
  "copy_val e2i internal_val i vals =
     (if e2i i = 0 then vals else (grow_to i vals)[i := internal_val (e2i i) > 0])"

fun scan_clause :: "(int \<Rightarrow> int) \<Rightarrow> bool \<Rightarrow> int list \<Rightarrow> (bool \<times> int list) res" where
  "scan_clause val satisfied [] = Inl OutOfRange"
| "scan_clause val satisfied (lit # r) =
     (if lit = 0 then Inr (satisfied, r) else scan_clause val (satisfied \<or> val lit > 0) r)"

fun skip_witness :: "int list \<Rightarrow> int list res" where
  "skip_witness [] = Inl OutOfRange"
| "skip_witness (lit # r) = (if lit = 0 then Inr r else skip_witness r)"

definition flip_val :: "int \<Rightarrow> bool list \<Rightarrow> bool list" where
  "flip_val lit vals =
     (let idx = nat \<bar>lit\<bar>; vals = grow_to idx vals in vals[idx := \<not> vals ! idx])"

fun flip_witness :: "int \<Rightarrow> bool list \<Rightarrow> int list \<Rightarrow> (bool list \<times> int list) res" where
  "flip_witness max_var vals [] = Inl OutOfRange"
| "flip_witness max_var vals (lit # r) =
     (if lit = 0 then Inr (vals, r)
      else flip_witness max_var (if ival max_var vals lit < 0 then flip_val lit vals else vals) r)"

definition extend_entry :: "int \<Rightarrow> bool list \<Rightarrow> int list \<Rightarrow> (bool list \<times> int list) res" where
  "extend_entry max_var vals r =
     bind_res (scan_clause (ival max_var vals) False r) (\<lambda>(satisfied, r).
       if satisfied then bind_res (skip_witness r) (\<lambda>r. Inr (vals, r)) else flip_witness max_var vals r)"

lemma scan_clause_shorter: "scan_clause v s r = Inr (b, r') \<Longrightarrow> length r' < length r"
  by (induction v s r rule: scan_clause.induct) (auto split: if_splits simp: less_Suc_eq)

lemma skip_witness_shorter: "skip_witness r = Inr r' \<Longrightarrow> length r' < length r"
  by (induction r rule: skip_witness.induct) (auto split: if_splits simp: less_Suc_eq)

lemma flip_witness_shorter: "flip_witness m vals r = Inr (vals', r') \<Longrightarrow> length r' < length r"
  by (induction m vals r rule: flip_witness.induct) (auto split: if_splits simp: less_Suc_eq)

lemma extend_entry_shorter: "extend_entry m vals r = Inr (vals', r') \<Longrightarrow> length r' < length r"
  by (auto simp: extend_entry_def bind_res_eq_Inr split: if_splits
      dest!: scan_clause_shorter skip_witness_shorter flip_witness_shorter)

function extend_loop :: "int \<Rightarrow> bool list \<Rightarrow> int list \<Rightarrow> bool list res" where
  "extend_loop max_var vals r =
     (if r = [] then Inr vals
      else bind_res (extend_entry max_var vals r) (\<lambda>p. extend_loop max_var (fst p) (snd p)))"
  by pat_completeness auto
termination
  by (relation "measure (\<lambda>(m, vals, r). length r)") (auto dest: extend_entry_shorter)

declare extend_loop.simps [simp del]

definition extend_vals :: "(nat \<Rightarrow> int) \<Rightarrow> (int \<Rightarrow> int) \<Rightarrow> nat \<Rightarrow> bool list \<Rightarrow> int list \<Rightarrow> bool list res" where
  "extend_vals e2i internal_val max_var vals extension =
     extend_loop (int max_var) (fold (copy_val e2i internal_val) [1 ..< max_var + 1] vals) (rev extension)"

section \<open>Traversal of the stack\<close>

text \<open>The iterator is called on clause and witness, and says whether to go on.\<close>

fun split_zero :: "int list \<Rightarrow> (int list \<times> int list) res" where
  "split_zero [] = Inl OutOfRange"
| "split_zero (lit # r) = (if lit = 0 then Inr ([], r) else bind_res (split_zero r) (\<lambda>p. Inr (lit # fst p, snd p)))"

lemma split_zero_shorter: "split_zero r = Inr p \<Longrightarrow> length (snd p) < length r"
  by (induction r arbitrary: p rule: split_zero.induct) (auto simp: bind_res_eq_Inr less_Suc_eq split: if_splits)

type_synonym 's iterator = "int list \<Rightarrow> int list \<Rightarrow> 's \<Rightarrow> bool \<times> 's"

function backward_loop :: "'s iterator \<Rightarrow> int list \<Rightarrow> 's \<Rightarrow> (bool \<times> 's) res" where
  "backward_loop it r s =
     (if r = [] then Inr (True, s)
      else bind_res (split_zero r) (\<lambda>c. bind_res (split_zero (snd c)) (\<lambda>w.
        case it (rev (fst c)) (rev (fst w)) s of (go, s) \<Rightarrow>
          if go then backward_loop it (snd w) s else Inr (False, s))))"
  by pat_completeness auto
termination
  by (relation "measure (\<lambda>(it, r, s). length r)") (auto dest!: split_zero_shorter)

definition traverse_witnesses_backward :: "bool \<Rightarrow> 's iterator \<Rightarrow> int list \<Rightarrow> 's \<Rightarrow> (bool \<times> 's) res" where
  "traverse_witnesses_backward unsat it extension s = (if unsat then Inr (True, s) else backward_loop it (rev extension) s)"

text \<open>
  Forward, the clause ends at a zero, which is consumed, or at the end of the stack.  The zero
  consumed is the start of the next entry.
\<close>

fun clause_until :: "int list \<Rightarrow> int list \<times> int list" where
  "clause_until [] = ([], [])"
| "clause_until (lit # r) = (if lit = 0 then ([], r) else (case clause_until r of (c, r) \<Rightarrow> (lit # c, r)))"

lemma clause_until_shorter: "clause_until r = (c, r') \<Longrightarrow> length r' \<le> length r"
  by (induction r arbitrary: c r') (fastforce split: if_splits prod.splits)+

function forward_loop :: "'s iterator \<Rightarrow> int list \<Rightarrow> 's \<Rightarrow> (bool \<times> 's) res" where
  "forward_loop it r s =
     bind_res (split_zero r) (\<lambda>w.
       case it (fst (clause_until (snd w))) (fst w) s of (go, s) \<Rightarrow>
         if \<not> go then Inr (False, s)
         else if snd (clause_until (snd w)) = [] then Inr (True, s)
         else forward_loop it (snd (clause_until (snd w))) s)"
  by pat_completeness auto
termination
proof (relation "measure (\<lambda>(it, r, s). length r)", goal_cases)
  case 1
  then show ?case by simp
next
  case (2 it r s w)
  have "length (snd (clause_until (snd w))) \<le> length (snd w)"
    by (rule clause_until_shorter [of _ "fst (clause_until (snd w))"]) simp
  with split_zero_shorter [OF 2(1)] show ?case by simp
qed

declare backward_loop.simps [simp del] forward_loop.simps [simp del]

definition traverse_witnesses_forward :: "bool \<Rightarrow> 's iterator \<Rightarrow> int list \<Rightarrow> 's \<Rightarrow> (bool \<times> 's) res" where
  "traverse_witnesses_forward unsat it extension s =
     (if unsat then Inr (True, s)
      else case extension of [] \<Rightarrow> Inr (True, s) | _ # r \<Rightarrow> forward_loop it r s)"

section \<open>Entries\<close>

definition entry_ok :: "int list \<times> int list \<Rightarrow> bool" where
  "entry_ok e \<longleftrightarrow> 0 \<notin> set (fst e) \<and> 0 \<notin> set (snd e)"

definition entry_ints :: "int list \<times> int list \<Rightarrow> int list" where
  "entry_ints e = 0 # fst e @ 0 # snd e"

definition stack_of :: "(int list \<times> int list) list \<Rightarrow> int list" where
  "stack_of es = concat (map entry_ints es)"

lemma stack_of_simps [simp]:
  "stack_of [] = []" "stack_of (e # es) = 0 # fst e @ 0 # snd e @ stack_of es" "stack_of (es @ fs) = stack_of es @ stack_of fs"
  by (simp_all add: stack_of_def entry_ints_def)

lemma scan_clause_entry:
  "0 \<notin> set c \<Longrightarrow> scan_clause v s (c @ 0 # r) = Inr (s \<or> (\<exists>l \<in> set c. v l > 0), r)"
  by (induction c arbitrary: s) auto

lemma skip_witness_entry: "0 \<notin> set w \<Longrightarrow> skip_witness (w @ 0 # r) = Inr r"
  by (induction w) auto

lemma flip_witness_entry:
  "0 \<notin> set w \<Longrightarrow> flip_witness m vals (w @ 0 # r)
    = Inr (fold (\<lambda>l vals. if ival m vals l < 0 then flip_val l vals else vals) w vals, r)"
  by (induction w arbitrary: vals) auto

definition flip_entry :: "int \<Rightarrow> int list \<times> int list \<Rightarrow> bool list \<Rightarrow> bool list" where
  "flip_entry m e vals =
     (if \<exists>l \<in> set (snd e). ival m vals l > 0 then vals
      else fold (\<lambda>l vals. if ival m vals l < 0 then flip_val l vals else vals) (rev (fst e)) vals)"

lemma extend_entry_eq:
  "entry_ok e \<Longrightarrow> extend_entry m vals (rev (entry_ints e) @ r) = Inr (flip_entry m e vals, r)"
  by (simp add: extend_entry_def entry_ints_def entry_ok_def scan_clause_entry skip_witness_entry flip_witness_entry flip_entry_def)

lemma extend_loop_stack:
  "list_all entry_ok es \<Longrightarrow> extend_loop m vals (rev (stack_of es)) = Inr (foldr (flip_entry m) es vals)"
proof (induction es arbitrary: vals rule: rev_induct)
  case Nil
  then show ?case by (simp add: extend_loop.simps [of _ _ "[]"])
next
  case (snoc e es)
  have ok: "entry_ok e" "list_all entry_ok es" using snoc.prems by simp_all
  have r: "rev (stack_of (es @ [e])) = rev (entry_ints e) @ rev (stack_of es)" by (simp add: entry_ints_def)
  have ne: "rev (entry_ints e) @ rev (stack_of es) \<noteq> []" by (simp add: entry_ints_def)
  have "extend_loop m vals (rev (entry_ints e) @ rev (stack_of es)) = extend_loop m (flip_entry m e vals) (rev (stack_of es))"
    by (subst extend_loop.simps) (simp add: extend_entry_eq [OF ok(1)] if_not_P [OF ne] del: append_is_Nil_conv)
  then show ?case unfolding r using snoc.IH [OF ok(2)] by simp
qed

section \<open>The assignment the values stand for\<close>

definition asg_of :: "int \<Rightarrow> bool list \<Rightarrow> nat \<Rightarrow> bool" where
  "asg_of m vals v \<longleftrightarrow> int v \<le> m \<and> v < length vals \<and> vals ! v"

lemma ival_lit: "l \<noteq> 0 \<Longrightarrow> ival m vals l > 0 \<longleftrightarrow> lit_on (asg_of m vals) l"
  "l \<noteq> 0 \<Longrightarrow> ival m vals l < 0 \<longleftrightarrow> \<not> lit_on (asg_of m vals) l"
  by (auto simp: ival_def lit_on_def asg_of_def Let_def)

lemma grow_to_nth: "i < length (grow_to n xs) \<Longrightarrow> grow_to n xs ! i \<longleftrightarrow> i < length xs \<and> xs ! i"
  by (auto simp: grow_to_def nth_append split: if_splits)

lemma grow_to_length: "n < length (grow_to n xs)" "length xs \<le> length (grow_to n xs)"
  by (auto simp: grow_to_def)

lemma asg_of_upd:
  "int n \<le> m \<Longrightarrow> asg_of m ((grow_to n vals)[n := b]) = (asg_of m vals)(n := b)"
  using grow_to_length [where n = n and xs = vals] grow_to_nth [where n = n and xs = vals]
  by (auto simp: asg_of_def fun_eq_iff nth_list_update)

lemma flip_val_asg:
  assumes "l \<noteq> 0" and "\<bar>l\<bar> \<le> m" and "\<not> lit_on (asg_of m vals) l"
  shows "asg_of m (flip_val l vals) = set_lit l (asg_of m vals)"
proof -
  let ?n = "nat \<bar>l\<bar>"
  have n: "int ?n \<le> m" using assms(2) by simp
  have "grow_to ?n vals ! ?n \<longleftrightarrow> asg_of m vals ?n"
    using grow_to_nth [of ?n ?n vals] grow_to_length(1) [of ?n vals] n by (simp add: asg_of_def)
  moreover have "asg_of m vals ?n \<longleftrightarrow> \<not> l > 0" using assms(1,3) by (auto simp: lit_on_def split: if_splits)
  ultimately show ?thesis using asg_of_upd [OF n] by (simp add: flip_val_def Let_def set_lit_def)
qed

definition ext_step :: "int list \<times> int list \<Rightarrow> (nat \<Rightarrow> bool) \<Rightarrow> nat \<Rightarrow> bool" where
  "ext_step e a = (if cl_on a (snd e) then a else fold set_lit (rev (fst e)) a)"

definition entry_in :: "int \<Rightarrow> int list \<times> int list \<Rightarrow> bool" where
  "entry_in m e \<longleftrightarrow> entry_ok e \<and> (\<forall>l \<in> set (fst e). \<bar>l\<bar> \<le> m)"

lemma flip_fold_asg:
  "0 \<notin> set w \<Longrightarrow> (\<And>l. l \<in> set w \<Longrightarrow> \<bar>l\<bar> \<le> m)
    \<Longrightarrow> asg_of m (fold (\<lambda>l vals. if ival m vals l < 0 then flip_val l vals else vals) w vals) = fold set_lit w (asg_of m vals)"
proof (induction w arbitrary: vals)
  case Nil
  then show ?case by simp
next
  case (Cons l w)
  then have l: "l \<noteq> 0" "\<bar>l\<bar> \<le> m" by auto
  have "asg_of m (if ival m vals l < 0 then flip_val l vals else vals) = set_lit l (asg_of m vals)"
    using flip_val_asg [OF l] set_lit_true [OF l(1)] ival_lit(2) [OF l(1)] by auto
  with Cons show ?case by simp
qed

lemma flip_entry_asg:
  assumes "entry_in m e"
  shows "asg_of m (flip_entry m e vals) = ext_step e (asg_of m vals)"
proof -
  have "(\<exists>l \<in> set (snd e). ival m vals l > 0) \<longleftrightarrow> cl_on (asg_of m vals) (snd e)"
    using assms ival_lit(1) [of _ m vals] unfolding cl_on_def list_ex_iff entry_in_def entry_ok_def by metis
  with assms flip_fold_asg [of "rev (fst e)" m vals] show ?thesis
    by (simp add: flip_entry_def ext_step_def entry_in_def entry_ok_def)
qed

lemma extend_loop_asg:
  assumes "list_all (entry_in m) es"
  shows "\<exists>vals'. extend_loop m vals (rev (stack_of es)) = Inr vals' \<and> asg_of m vals' = foldr ext_step es (asg_of m vals)"
proof -
  have ok: "list_all entry_ok es" using assms by (auto simp: list_all_iff entry_in_def)
  have "asg_of m (foldr (flip_entry m) es vals) = foldr ext_step es (asg_of m vals)"
    using assms by (induction es) (simp_all add: flip_entry_asg)
  with extend_loop_stack [OF ok] show ?thesis by blast
qed

section \<open>Reconstructing a model\<close>

text \<open>
  A clause may leave the formula \<open>F\<close> with the witness \<open>w\<close> when making the witness true repairs
  it without breaking \<open>F\<close>.  The stack is valid when each of its clauses could leave the clauses that were
  left at that time: the final formula and the clauses pushed later.
\<close>

definition redundant :: "int list set \<Rightarrow> int list \<times> int list \<Rightarrow> bool" where
  "redundant F e \<longleftrightarrow> (\<forall>a. (\<forall>d \<in> F. cl_on a d) \<longrightarrow> \<not> cl_on a (snd e)
     \<longrightarrow> (\<forall>d \<in> insert (snd e) F. cl_on (fold set_lit (rev (fst e)) a) d))"

fun valid_stack :: "int list set \<Rightarrow> (int list \<times> int list) list \<Rightarrow> bool" where
  "valid_stack F [] \<longleftrightarrow> True"
| "valid_stack F (e # es) \<longleftrightarrow> valid_stack F es \<and> redundant (F \<union> snd ` set es) e"

lemma ext_steps_model:
  "valid_stack F es \<Longrightarrow> (\<And>d. d \<in> F \<Longrightarrow> cl_on a d) \<Longrightarrow> d \<in> F \<union> snd ` set es \<Longrightarrow> cl_on (foldr ext_step es a) d"
proof (induction es arbitrary: d)
  case Nil
  then show ?case by simp
next
  case (Cons e es)
  define b where "b = foldr ext_step es a"
  have IH: "\<forall>d \<in> F \<union> snd ` set es. cl_on b d" unfolding b_def using Cons by simp
  have step: "foldr ext_step (e # es) a = ext_step e b" by (simp add: b_def)
  have d: "d \<in> insert (snd e) (F \<union> snd ` set es)" using Cons.prems(3) by auto
  show ?case unfolding step
  proof (cases "cl_on b (snd e)")
    case True
    with IH d show "cl_on (ext_step e b) d" by (auto simp: ext_step_def)
  next
    case False
    with IH Cons.prems(1) have "\<forall>d \<in> insert (snd e) (F \<union> snd ` set es). cl_on (fold set_lit (rev (fst e)) b) d"
      by (simp add: redundant_def)
    with False d show "cl_on (ext_step e b) d" by (auto simp: ext_step_def)
  qed
qed

text \<open>Blocked clauses: every resolvent on the witness literal is a tautology.\<close>

lemma blocked_redundant:
  assumes "l \<in> set c" and "l \<noteq> 0"
    and "\<And>d. d \<in> F \<Longrightarrow> - l \<in> set d \<Longrightarrow> \<exists>k \<in> set c. k \<noteq> 0 \<and> \<bar>k\<bar> \<noteq> \<bar>l\<bar> \<and> - k \<in> set d"
  shows "redundant F ([l], c)"
  unfolding redundant_def
proof (intro allI impI ballI)
  fix a d
  assume F: "\<forall>d \<in> F. cl_on a d" and c: "\<not> cl_on a (snd ([l], c))" and d: "d \<in> insert (snd ([l], c)) F"
  let ?a = "set_lit l a"
  have "cl_on ?a d"
  proof (cases "d = c")
    case True
    with assms(1) set_lit_same [OF assms(2)] show ?thesis by (auto simp: cl_on_def list_ex_iff)
  next
    case False
    then have dF: "d \<in> F" using d by simp
    show ?thesis
    proof (cases "- l \<in> set d")
      case True
      from assms(3) [OF dF this] obtain k where k: "k \<in> set c" "k \<noteq> 0" "\<bar>k\<bar> \<noteq> \<bar>l\<bar>" "- k \<in> set d" by blast
      have "\<not> lit_on a k" using c k(1) by (auto simp: cl_on_def list_ex_iff)
      then have "lit_on ?a (- k)" using k(2,3) set_lit_other [of "- k" l a] by simp
      with k(4) show ?thesis by (auto simp: cl_on_def list_ex_iff)
    next
      case False
      obtain k where k: "k \<in> set d" "lit_on a k" using F dF by (auto simp: cl_on_def list_ex_iff)
      have "lit_on ?a k"
      proof (cases "\<bar>k\<bar> = \<bar>l\<bar>")
        case True
        then have "k = l" using False k(1) by (auto simp: abs_eq_iff)
        with assms(2) show ?thesis by simp
      next
        case False
        with k(2) set_lit_other [of k l a] show ?thesis by simp
      qed
      with k(1) show ?thesis by (auto simp: cl_on_def list_ex_iff)
    qed
  qed
  then show "cl_on (fold set_lit (rev (fst ([l], c))) a) d" by simp
qed


section \<open>From the internal assignment to a model\<close>

lemma copy_vals_asg:
  "n \<le> mx \<Longrightarrow> asg_of (int mx) (fold (copy_val e2i internal_val) [1 ..< n + 1] vals)
    = (\<lambda>i. if 1 \<le> i \<and> i \<le> n \<and> e2i i \<noteq> 0 then internal_val (e2i i) > 0 else asg_of (int mx) vals i)"
proof (induction n)
  case 0
  then show ?case by simp
next
  case (Suc n)
  define v where "v = fold (copy_val e2i internal_val) [1 ..< n + 1] vals"
  have f: "fold (copy_val e2i internal_val) [1 ..< Suc n + 1] vals = copy_val e2i internal_val (Suc n) v" by (simp add: v_def)
  have IH: "asg_of (int mx) v = (\<lambda>i. if 1 \<le> i \<and> i \<le> n \<and> e2i i \<noteq> 0 then internal_val (e2i i) > 0 else asg_of (int mx) vals i)"
    unfolding v_def by (rule Suc.IH) (use Suc.prems in simp)
  show ?case
  proof (cases "e2i (Suc n) = 0")
    case True
    then show ?thesis unfolding f by (auto simp: copy_val_def IH fun_eq_iff le_Suc_eq)
  next
    case False
    have "int (Suc n) \<le> int mx" using Suc.prems by simp
    from asg_of_upd [OF this] False show ?thesis unfolding f by (auto simp: copy_val_def IH fun_eq_iff le_Suc_eq)
  qed
qed

text \<open>The value of an external literal in the internal solver, 0 where it has none.\<close>

definition mapped_val :: "(nat \<Rightarrow> int) \<Rightarrow> (int \<Rightarrow> int) \<Rightarrow> nat \<Rightarrow> int \<Rightarrow> int" where
  "mapped_val e2i internal_val mx l =
     (let v = (if nat \<bar>l\<bar> \<le> mx \<and> e2i (nat \<bar>l\<bar>) \<noteq> 0 then internal_val (e2i (nat \<bar>l\<bar>)) else 0) in if l < 0 then - v else v)"

lemma copy_vals_lit:
  assumes "l \<noteq> 0" and "mapped_val e2i internal_val mx l > 0"
  shows "lit_on (asg_of (int mx) (fold (copy_val e2i internal_val) [1 ..< mx + 1] vals)) l"
  using assms copy_vals_asg [of mx mx e2i internal_val vals] by (auto simp: lit_on_def mapped_val_def Let_def split: if_splits)

text \<open>C38. \<open>extend\<close> never runs off the stack, and when the values of the internal solver satisfy the formula that is
  left and the stack is valid for it, the extended values satisfy that formula and every clause on the stack.
\<close>

theorem extend_gives_model:
  assumes "valid_stack F es" and "list_all (entry_in (int mx)) es"
    and "\<forall>d \<in> F. 0 \<notin> set d \<and> (\<exists>l \<in> set d. mapped_val e2i internal_val mx l > 0)"
  shows "\<exists>vals'. extend_vals e2i internal_val mx vals (stack_of es) = Inr vals'
    \<and> (\<forall>d \<in> F \<union> snd ` set es. \<exists>l \<in> set d. ival (int mx) vals' l > 0)"
proof -
  let ?v = "fold (copy_val e2i internal_val) [1 ..< mx + 1] vals"
  have F: "cl_on (asg_of (int mx) ?v) d" if d: "d \<in> F" for d
  proof -
    obtain l where l: "l \<in> set d" "mapped_val e2i internal_val mx l > 0" "0 \<notin> set d" using assms(3) d by blast
    then have "l \<noteq> 0" by auto
    from copy_vals_lit [OF this l(2), of vals] l(1) show ?thesis unfolding cl_on_def list_ex_iff by blast
  qed
  obtain vals' where v: "extend_loop (int mx) ?v (rev (stack_of es)) = Inr vals'"
    "asg_of (int mx) vals' = foldr ext_step es (asg_of (int mx) ?v)"
    using extend_loop_asg [OF assms(2)] by blast
  have "\<exists>l \<in> set d. ival (int mx) vals' l > 0" if d: "d \<in> F \<union> snd ` set es" for d
  proof -
    have "cl_on (asg_of (int mx) vals') d" using ext_steps_model [OF assms(1) F d] v(2) by simp
    moreover have "0 \<notin> set d" using d assms(2,3) by (auto simp: list_all_iff entry_in_def entry_ok_def)
    ultimately show ?thesis using ival_lit(1) [where m = "int mx" and vals = vals'] unfolding cl_on_def list_ex_iff by metis
  qed
  with v(1) show ?thesis by (auto simp: extend_vals_def)
qed

theorem extend_gives_model_witness:
  "\<exists>vals'. extend_vals (\<lambda>i. if i = 1 then 1 else 0) (\<lambda>l. - l) 2 [] (stack_of [([2], [2, 1]), ([- 2], [- 2, - 1])]) = Inr vals'
    \<and> (\<forall>d \<in> {[- 1]} \<union> snd ` set [([2 :: int], [2, 1]), ([- 2], [- 2, - 1])]. \<exists>l \<in> set d. ival (int 2) vals' l > 0)"
proof (rule extend_gives_model)
  have "redundant {[- 1]} ([- 2], [- 2, - 1])" by (rule blocked_redundant) auto
  moreover have "redundant ({[- 1]} \<union> {[- 2, - 1]}) ([2], [2, 1])" by (rule blocked_redundant) auto
  ultimately show "valid_stack {[- 1]} [([2], [2, 1]), ([- 2], [- 2, - 1])]" by simp
qed (simp_all add: entry_in_def entry_ok_def mapped_val_def)

section \<open>The stack as a list of entries\<close>

definition stack_ok :: "'a ext_stack_scheme \<Rightarrow> (int list \<times> int list) list \<Rightarrow> bool" where
  "stack_ok x es \<longleftrightarrow> x_extension x = stack_of es \<and> list_all entry_ok es
     \<and> (\<forall>l. l \<noteq> 0 \<longrightarrow> (marked (x_witness x) l \<longleftrightarrow> (\<exists>e \<in> set es. l \<in> set (fst e))))"

lemma elit2ulit_inj: "k \<noteq> 0 \<Longrightarrow> l \<noteq> 0 \<Longrightarrow> elit2ulit k = elit2ulit l \<longleftrightarrow> k = l"
  unfolding elit2ulit_def by (auto split: if_splits dest: arg_cong [where f = even])

lemma marked_mark:
  assumes "k \<noteq> 0" and "l \<noteq> 0"
  shows "marked (mark mp l) k \<longleftrightarrow> k = l \<or> marked mp k"
  using elit2ulit_inj [OF assms] grow_to_length [where n = "elit2ulit l" and xs = mp]
    grow_to_nth [where n = "elit2ulit l" and xs = mp and i = "elit2ulit k"]
  by (auto simp: marked_def mark_def nth_list_update)

lemma marked_unmark:
  assumes "k \<noteq> 0" and "l \<noteq> 0"
  shows "marked (unmark mp l) k \<longleftrightarrow> k \<noteq> l \<and> marked mp k"
  using elit2ulit_inj [OF assms] by (auto simp: marked_def unmark_def nth_list_update)

lemma marked_empty [simp]: "\<not> marked [] l"
  by (simp add: marked_def)

lemma push_clause_fields:
  "fold (push_clause_literal i2e) c x = x\<lparr>x_extension := x_extension x @ map (externalize i2e) c\<rparr>"
  by (induction c arbitrary: x) (simp_all add: push_clause_literal_def)

lemma push_clause_pivot_ok:
  assumes "stack_ok x es" and "externalize i2e pivot \<noteq> 0" and "\<forall>l \<in> set c. externalize i2e l \<noteq> 0"
  shows "stack_ok (push_clause_pivot i2e c pivot x) (es @ [([externalize i2e pivot], map (externalize i2e) c)])"
  using assms by (auto simp: stack_ok_def push_clause_pivot_def push_clause_def push_zero_def push_witness_literal_def
    push_clause_fields Let_def entry_ok_def image_iff marked_mark)

lemma push_binary_clause_eq:
  "push_binary_clause i2e pivot other x = push_clause_pivot i2e [pivot, other] pivot x"
  by (simp add: push_binary_clause_def push_clause_pivot_def push_clause_def)

section \<open>The traversals visit the entries\<close>

fun visit :: "'s iterator \<Rightarrow> (int list \<times> int list) list \<Rightarrow> 's \<Rightarrow> bool \<times> 's" where
  "visit it [] s = (True, s)"
| "visit it (e # es) s = (case it (snd e) (fst e) s of (go, s) \<Rightarrow> if go then visit it es s else (False, s))"

lemma split_zero_entry: "0 \<notin> set c \<Longrightarrow> split_zero (c @ 0 # r) = Inr (c, r)"
  by (induction c) auto

lemma backward_loop_entries:
  "list_all entry_ok es \<Longrightarrow> backward_loop it (rev (stack_of es)) s = Inr (visit it (rev es) s)"
proof (induction es arbitrary: s rule: rev_induct)
  case Nil
  then show ?case by (subst backward_loop.simps) simp
next
  case (snoc e es)
  obtain w c where e: "e = (w, c)" by (cases e)
  have ok: "0 \<notin> set w" "0 \<notin> set c" "list_all entry_ok es" using snoc.prems by (simp_all add: e) (simp_all add: entry_ok_def)
  have r: "rev (stack_of (es @ [e])) = rev c @ 0 # rev w @ 0 # rev (stack_of es)" by (simp add: e)
  show ?case unfolding r
    by (subst backward_loop.simps) (simp add: split_zero_entry ok snoc.IH [OF ok(3)] e split: prod.split)
qed

lemma clause_until_entry:
  "0 \<notin> set c \<Longrightarrow> clause_until (c @ r) = (case r of [] \<Rightarrow> (c, []) | l # r' \<Rightarrow> if l = 0 then (c, r') else clause_until (c @ r))"
  by (induction c) (auto split: list.splits)

lemma forward_loop_entries:
  "list_all entry_ok (e # es) \<Longrightarrow> forward_loop it (fst e @ 0 # snd e @ stack_of es) s = Inr (visit it (e # es) s)"
proof (induction es arbitrary: e s)
  case Nil
  then show ?case
    using clause_until_entry [of "snd e" "[]"]
    by (subst forward_loop.simps) (simp add: split_zero_entry entry_ok_def split: prod.split)
next
  case (Cons f es)
  let ?r = "fst f @ 0 # snd f @ stack_of es"
  have ok: "0 \<notin> set (fst e)" "0 \<notin> set (snd e)" "list_all entry_ok (f # es)"
    using Cons.prems by simp_all (simp_all add: entry_ok_def)
  have cu: "clause_until (snd e @ 0 # ?r) = (snd e, ?r)"
    using clause_until_entry [OF ok(2), of "0 # ?r"] by simp
  have sz: "split_zero (fst e @ 0 # snd e @ 0 # ?r) = Inr (fst e, snd e @ 0 # ?r)" by (rule split_zero_entry [OF ok(1)])
  have "forward_loop it (fst e @ 0 # snd e @ 0 # ?r) s
    = (case it (snd e) (fst e) s of (go, s) \<Rightarrow> if \<not> go then Inr (False, s) else forward_loop it ?r s)"
    by (subst forward_loop.simps) (simp add: sz cu split: prod.split)
  also have "\<dots> = Inr (visit it (e # f # es) s)"
    unfolding Cons.IH [OF ok(3)] by (simp only: visit.simps(2) [of _ e] split: prod.split) simp
  finally show ?case by simp
qed

end
