(* ===== verification/Score_Heap.thy ===== *)
theory Score_Heap
  imports Prelude
begin

text \<open>
  The binary heap with positions (\<open>cadical/src/heap.hpp\<close>), used for the decision variables ordered
  by score.  \<open>lt\<close> (the template parameter \<open>less\<close>) is the comparison the template is instantiated with.  \<open>None\<close> in \<open>hp_pos\<close>
  is \<open>invalid_heap_position\<close>, also for the elements behind the end of the vector \<open>pos\<close>.
\<close>

section \<open>Operations\<close>

record pheap =
  hp_array :: "nat list"
  hp_pos :: "nat \<Rightarrow> nat option"

definition invalid_heap_position :: nat where
  "invalid_heap_position = 4294967295"

definition heap_empty :: pheap where
  "heap_empty = \<lparr>hp_array = [], hp_pos = (\<lambda>_. None)\<rparr>"

definition heap_index :: "pheap \<Rightarrow> nat \<Rightarrow> nat" where
  "heap_index h e = (case hp_pos h e of None \<Rightarrow> invalid_heap_position | Some i \<Rightarrow> i)"

definition heap_contains :: "pheap \<Rightarrow> nat \<Rightarrow> bool" where
  "heap_contains h e \<longleftrightarrow> hp_pos h e \<noteq> None"

definition has_parent :: "pheap \<Rightarrow> nat \<Rightarrow> bool" where
  "has_parent h e \<longleftrightarrow> heap_index h e > 0"

definition has_left :: "pheap \<Rightarrow> nat \<Rightarrow> bool" where
  "has_left h e \<longleftrightarrow> 2 * heap_index h e + 1 < length (hp_array h)"

definition has_right :: "pheap \<Rightarrow> nat \<Rightarrow> bool" where
  "has_right h e \<longleftrightarrow> 2 * heap_index h e + 2 < length (hp_array h)"

definition heap_parent :: "pheap \<Rightarrow> nat \<Rightarrow> nat res" where
  "heap_parent h e = vec_get (hp_array h) ((heap_index h e - 1) div 2)"

definition heap_left :: "pheap \<Rightarrow> nat \<Rightarrow> nat res" where
  "heap_left h e = vec_get (hp_array h) (2 * heap_index h e + 1)"

definition heap_right :: "pheap \<Rightarrow> nat \<Rightarrow> nat res" where
  "heap_right h e = vec_get (hp_array h) (2 * heap_index h e + 2)"

definition heap_exchange :: "nat \<Rightarrow> nat \<Rightarrow> pheap \<Rightarrow> pheap res" where
  "heap_exchange a b h =
     (let i = heap_index h a; j = heap_index h b in
      bind_res (vec_get (hp_array h) i) (\<lambda>x.
      bind_res (vec_get (hp_array h) j) (\<lambda>y.
      bind_res (vec_set (hp_array h) i y) (\<lambda>xs.
      bind_res (vec_set xs j x) (\<lambda>xs.
        Inr \<lparr>hp_array = xs, hp_pos = (hp_pos h)(a := hp_pos h b, b := hp_pos h a)\<rparr>)))))"

fun heap_up :: "(nat \<Rightarrow> nat \<Rightarrow> bool) \<Rightarrow> nat \<Rightarrow> nat \<Rightarrow> pheap \<Rightarrow> pheap res" where
  "heap_up lt fuel e h =
     (if has_parent h e then
        bind_res (heap_parent h e) (\<lambda>p.
          if lt p e then
            (case fuel of 0 \<Rightarrow> Inl OutOfFuel
             | Suc fuel \<Rightarrow> bind_res (heap_exchange p e h) (heap_up lt fuel e))
          else Inr h)
      else Inr h)"

definition heap_child :: "(nat \<Rightarrow> nat \<Rightarrow> bool) \<Rightarrow> nat \<Rightarrow> pheap \<Rightarrow> nat res" where
  "heap_child lt e h =
     bind_res (heap_left h e) (\<lambda>c.
       if has_right h e then bind_res (heap_right h e) (\<lambda>r. Inr (if lt c r then r else c)) else Inr c)"

fun heap_down :: "(nat \<Rightarrow> nat \<Rightarrow> bool) \<Rightarrow> nat \<Rightarrow> nat \<Rightarrow> pheap \<Rightarrow> pheap res" where
  "heap_down lt fuel e h =
     (if has_left h e then
        bind_res (heap_child lt e h) (\<lambda>c.
          if \<not> lt e c then Inr h
          else (case fuel of 0 \<Rightarrow> Inl OutOfFuel
             | Suc fuel \<Rightarrow> bind_res (heap_exchange e c h) (heap_down lt fuel e)))
      else Inr h)"

declare heap_up.simps [simp del] heap_down.simps [simp del]

definition heap_up_all :: "(nat \<Rightarrow> nat \<Rightarrow> bool) \<Rightarrow> nat \<Rightarrow> pheap \<Rightarrow> pheap res" where
  "heap_up_all lt e h = heap_up lt (length (hp_array h)) e h"

definition heap_down_all :: "(nat \<Rightarrow> nat \<Rightarrow> bool) \<Rightarrow> nat \<Rightarrow> pheap \<Rightarrow> pheap res" where
  "heap_down_all lt e h = heap_down lt (length (hp_array h)) e h"

definition heap_update :: "(nat \<Rightarrow> nat \<Rightarrow> bool) \<Rightarrow> nat \<Rightarrow> pheap \<Rightarrow> pheap res" where
  "heap_update lt e h = bind_res (heap_up_all lt e h) (heap_down_all lt e)"

definition heap_push_back :: "(nat \<Rightarrow> nat \<Rightarrow> bool) \<Rightarrow> nat \<Rightarrow> pheap \<Rightarrow> pheap res" where
  "heap_push_back lt e h =
     heap_update lt e \<lparr>hp_array = hp_array h @ [e], hp_pos = (hp_pos h)(e \<mapsto> length (hp_array h))\<rparr>"

definition heap_front :: "pheap \<Rightarrow> nat res" where
  "heap_front h = vec_get (hp_array h) 0"

definition heap_pop_front :: "(nat \<Rightarrow> nat \<Rightarrow> bool) \<Rightarrow> pheap \<Rightarrow> (nat \<times> pheap) res" where
  "heap_pop_front lt h =
     bind_res (heap_front h) (\<lambda>r.
     let l = last (hp_array h) in
     bind_res (if length (hp_array h) > 1 then heap_exchange r l h else Inr h) (\<lambda>h.
     let h = \<lparr>hp_array = butlast (hp_array h), hp_pos = (hp_pos h)(r := None)\<rparr> in
     bind_res (if length (hp_array h) > 1 then heap_down_all lt l h else Inr h) (\<lambda>h. Inr (r, h))))"

section \<open>Positions\<close>

definition pos_ok :: "pheap \<Rightarrow> bool" where
  "pos_ok h \<longleftrightarrow> (\<forall>e i. hp_pos h e = Some i \<longleftrightarrow> i < length (hp_array h) \<and> hp_array h ! i = e)"

definition swapped :: "nat list \<Rightarrow> nat \<Rightarrow> nat \<Rightarrow> nat list" where
  "swapped xs i j = xs[i := xs ! j, j := xs ! i]"

lemma swapped_length [simp]: "length (swapped xs i j) = length xs"
  by (simp add: swapped_def)

lemma swapped_mset: "i < length xs \<Longrightarrow> j < length xs \<Longrightarrow> mset (swapped xs i j) = mset xs"
  unfolding swapped_def by (rule mset_swap)

lemma swapped_nth:
  "i < length xs \<Longrightarrow> j < length xs \<Longrightarrow> swapped xs i j ! k = (if k = j then xs ! i else if k = i then xs ! j else xs ! k)"
  by (simp add: swapped_def nth_list_update)

lemma pos_index: "pos_ok h \<Longrightarrow> i < length (hp_array h) \<Longrightarrow> heap_index h (hp_array h ! i) = i"
proof -
  assume "pos_ok h" "i < length (hp_array h)"
  then have "hp_pos h (hp_array h ! i) = Some i" unfolding pos_ok_def by blast
  then show ?thesis by (simp add: heap_index_def)
qed

lemma pos_distinct: "pos_ok h \<Longrightarrow> distinct (hp_array h)"
  using pos_index [of h] by (metis distinct_conv_nth)

lemma pos_contains: "pos_ok h \<Longrightarrow> heap_contains h e \<longleftrightarrow> e \<in> set (hp_array h)"
  unfolding heap_contains_def pos_ok_def in_set_conv_nth by (metis not_None_eq)

lemma exchange_ok:
  assumes h: "pos_ok h" and i: "i < length (hp_array h)" and j: "j < length (hp_array h)" and "i \<noteq> j"
  shows "\<exists>h'. heap_exchange (hp_array h ! i) (hp_array h ! j) h = Inr h' \<and> pos_ok h' \<and> hp_array h' = swapped (hp_array h) i j"
proof -
  let ?xs = "hp_array h"
  let ?pos = "(hp_pos h)(?xs ! i := hp_pos h (?xs ! j), ?xs ! j := hp_pos h (?xs ! i))"
  have p: "hp_pos h (?xs ! i) = Some i" "hp_pos h (?xs ! j) = Some j" using h i j unfolding pos_ok_def by blast+
  have ne: "?xs ! i \<noteq> ?xs ! j" using pos_distinct [OF h] i j assms(4) by (simp add: nth_eq_iff_index_eq)
  have "pos_ok \<lparr>hp_array = swapped ?xs i j, hp_pos = ?pos\<rparr>"
    unfolding pos_ok_def
  proof (intro allI)
    fix e k
    have "hp_pos h e = Some k \<longleftrightarrow> k < length ?xs \<and> ?xs ! k = e" using h by (simp add: pos_ok_def)
    then show "hp_pos \<lparr>hp_array = swapped ?xs i j, hp_pos = ?pos\<rparr> e = Some k \<longleftrightarrow>
        k < length (hp_array \<lparr>hp_array = swapped ?xs i j, hp_pos = ?pos\<rparr>)
        \<and> hp_array \<lparr>hp_array = swapped ?xs i j, hp_pos = ?pos\<rparr> ! k = e"
      using p ne i j by (auto simp: swapped_nth)
  qed
  moreover have "heap_exchange (?xs ! i) (?xs ! j) h = Inr \<lparr>hp_array = swapped ?xs i j, hp_pos = ?pos\<rparr>"
    using i j pos_index [OF h] by (simp add: heap_exchange_def swapped_def Let_def)
  ultimately show ?thesis by simp
qed

section \<open>The heap order\<close>

text \<open>What the heap needs of \<open>lt\<close> (the template parameter \<open>less\<close>).\<close>

locale priority =
  fixes lt :: "nat \<Rightarrow> nat \<Rightarrow> bool"
  assumes asym: "lt a b \<Longrightarrow> \<not> lt b a"
    and neg_trans: "\<not> lt a b \<Longrightarrow> \<not> lt b c \<Longrightarrow> \<not> lt a c"

abbreviation par :: "nat \<Rightarrow> nat" where
  "par k \<equiv> (k - 1) div 2"

definition edge :: "(nat \<Rightarrow> nat \<Rightarrow> bool) \<Rightarrow> nat list \<Rightarrow> nat \<Rightarrow> bool" where
  "edge lt xs k \<longleftrightarrow> \<not> lt (xs ! par k) (xs ! k)"

definition heap_ordered :: "(nat \<Rightarrow> nat \<Rightarrow> bool) \<Rightarrow> nat list \<Rightarrow> bool" where
  "heap_ordered lt xs \<longleftrightarrow> (\<forall>k. 0 < k \<longrightarrow> k < length xs \<longrightarrow> edge lt xs k)"

text \<open>Ordered but for the edges at position \<open>i\<close>.\<close>

definition around :: "(nat \<Rightarrow> nat \<Rightarrow> bool) \<Rightarrow> nat list \<Rightarrow> nat \<Rightarrow> bool" where
  "around lt xs i \<longleftrightarrow>
     (\<forall>k. 0 < k \<longrightarrow> k < length xs \<longrightarrow> k \<noteq> i \<longrightarrow> par k \<noteq> i \<longrightarrow> edge lt xs k)
     \<and> (0 < i \<longrightarrow> (\<forall>k. 0 < k \<longrightarrow> k < length xs \<longrightarrow> par k = i \<longrightarrow> \<not> lt (xs ! par i) (xs ! k)))"

lemma aroundD:
  "around lt xs i \<Longrightarrow> 0 < k \<Longrightarrow> k < length xs \<Longrightarrow> k \<noteq> i \<Longrightarrow> par k \<noteq> i \<Longrightarrow> edge lt xs k"
  "around lt xs i \<Longrightarrow> 0 < i \<Longrightarrow> 0 < k \<Longrightarrow> k < length xs \<Longrightarrow> par k = i \<Longrightarrow> \<not> lt (xs ! par i) (xs ! k)"
  by (auto simp: around_def)

lemma par_less: "0 < k \<Longrightarrow> par k < k"
  by auto

context priority
begin

lemma around_up:
  assumes a: "around lt xs i" and i: "0 < i" "i < length xs" and l: "lt (xs ! par i) (xs ! i)"
  shows "around lt (swapped xs (par i) i) (par i)"
proof -
  let ?p = "par i" and ?ys = "swapped xs (par i) i"
  have p: "?p < i" using i by auto
  then have nth: "?ys ! k = (if k = i then xs ! ?p else if k = ?p then xs ! i else xs ! k)" for k
    using swapped_nth [of ?p xs i k] i by simp
  show ?thesis
    unfolding around_def
  proof (intro conjI allI impI)
    fix k assume k: "0 < k" "k < length ?ys" "k \<noteq> ?p" "par k \<noteq> ?p"
    then have "k \<noteq> i" by auto
    show "edge lt ?ys k"
    proof (cases "par k = i")
      case True
      then have "\<not> lt (xs ! ?p) (xs ! k)" using aroundD(2) [OF a i(1) k(1)] k(2) by simp
      with True k \<open>k \<noteq> i\<close> show ?thesis unfolding edge_def nth by simp
    next
      case False
      then have "edge lt xs k" using aroundD(1) [OF a k(1)] k(2) \<open>k \<noteq> i\<close> by simp
      with False k \<open>k \<noteq> i\<close> show ?thesis unfolding edge_def nth by simp
    qed
  next
    fix k assume k: "0 < ?p" "0 < k" "k < length ?ys" "par k = ?p"
    have pp: "par ?p < ?p" "k \<noteq> ?p" using k par_less [of ?p] par_less [of k] by auto
    have "edge lt xs ?p" using aroundD(1) [OF a k(1)] p pp i by simp
    then have e: "\<not> lt (xs ! par ?p) (xs ! ?p)" by (simp add: edge_def)
    show "\<not> lt (?ys ! par ?p) (?ys ! k)"
    proof (cases "k = i")
      case True
      with e pp p show ?thesis unfolding nth by simp
    next
      case False
      then have "edge lt xs k" using aroundD(1) [OF a k(2)] k(3,4) p by simp
      then have "\<not> lt (xs ! ?p) (xs ! k)" using k(4) by (simp add: edge_def)
      from neg_trans [OF e this] False pp p show ?thesis unfolding nth by simp
    qed
  qed
qed

lemma around_down:
  assumes a: "around lt xs i" and i: "0 < i \<Longrightarrow> edge lt xs i" and c: "0 < c" "c < length xs" "par c = i"
    and best: "\<And>k. 0 < k \<Longrightarrow> k < length xs \<Longrightarrow> par k = i \<Longrightarrow> \<not> lt (xs ! c) (xs ! k)" and l: "lt (xs ! i) (xs ! c)"
  shows "around lt (swapped xs i c) c \<and> edge lt (swapped xs i c) c"
proof
  let ?ys = "swapped xs i c"
  have p: "i < c" using c by auto
  then have nth: "?ys ! k = (if k = c then xs ! i else if k = i then xs ! c else xs ! k)" for k
    using swapped_nth [of i xs c k] c by simp
  show "edge lt ?ys c" using asym [OF l] c p unfolding edge_def nth by simp
  show "around lt ?ys c"
    unfolding around_def
  proof (intro conjI allI impI)
    fix k assume k: "0 < k" "k < length ?ys" "k \<noteq> c" "par k \<noteq> c"
    consider (child) "par k = i" | (self) "k = i" | (other) "par k \<noteq> i" "k \<noteq> i" by blast
    then show "edge lt ?ys k"
    proof cases
      case child
      then have "k \<noteq> i" using par_less [OF k(1)] by simp
      then show ?thesis using best [OF k(1) _ child] k child p unfolding edge_def nth by simp
    next
      case self
      then have "\<not> lt (xs ! par i) (xs ! c)" using aroundD(2) [OF a _ c] k(1) by simp
      with self k par_less [OF k(1)] p show ?thesis unfolding edge_def nth by simp
    next
      case other
      then have "edge lt xs k" using aroundD(1) [OF a k(1)] k(2) by simp
      with other k show ?thesis unfolding edge_def nth by simp
    qed
  next
    fix k assume k: "0 < c" "0 < k" "k < length ?ys" "par k = c"
    have "c < k" using par_less [OF k(2)] k(4) by simp
    then have "edge lt xs k" using aroundD(1) [OF a k(2)] k p by simp
    then have "\<not> lt (xs ! c) (xs ! k)" using k(4) by (simp add: edge_def)
    then show "\<not> lt (?ys ! par c) (?ys ! k)" using c p \<open>c < k\<close> unfolding nth by simp
  qed
qed

lemma up_ok:
  assumes "pos_ok h" and "i < length (hp_array h)" and "around lt (hp_array h) i" and "i \<le> fuel"
  shows "\<exists>h' j. heap_up lt fuel (hp_array h ! i) h = Inr h' \<and> pos_ok h' \<and> mset (hp_array h') = mset (hp_array h)
    \<and> j < length (hp_array h') \<and> hp_array h' ! j = hp_array h ! i \<and> around lt (hp_array h') j
    \<and> (0 < j \<longrightarrow> edge lt (hp_array h') j)"
  using assms
proof (induction fuel arbitrary: h i)
  case 0
  then have "\<not> has_parent h (hp_array h ! i)" by (simp add: has_parent_def pos_index)
  with 0 show ?case by (auto simp: heap_up.simps [of _ 0] intro!: exI [of _ h] exI [of _ i])
next
  case (Suc fuel)
  let ?xs = "hp_array h" and ?e = "hp_array h ! i"
  have idx: "heap_index h ?e = i" using Suc.prems by (simp add: pos_index)
  show ?case
  proof (cases "0 < i \<and> lt (?xs ! par i) ?e")
    case False
    then have "heap_up lt (Suc fuel) ?e h = Inr h" and "0 < i \<longrightarrow> edge lt ?xs i"
      using Suc.prems(2) by (auto simp: heap_up.simps [of _ "Suc fuel"] has_parent_def idx heap_parent_def edge_def)
    with Suc.prems show ?thesis by (auto intro!: exI [of _ h] exI [of _ i])
  next
    case True
    then have p: "par i < i" by auto
    from exchange_ok [OF Suc.prems(1), of "par i" i] p Suc.prems(2) obtain h1 where
      h1: "heap_exchange (?xs ! par i) ?e h = Inr h1" "pos_ok h1" "hp_array h1 = swapped ?xs (par i) i" by auto
    have e: "hp_array h1 ! par i = ?e" using h1(3) p Suc.prems(2) by (simp add: swapped_nth)
    have up: "heap_up lt (Suc fuel) ?e h = heap_up lt fuel ?e h1"
      using True h1(1) p Suc.prems(2) by (simp add: heap_up.simps [of _ "Suc fuel"] has_parent_def idx heap_parent_def)
    have "around lt (hp_array h1) (par i)"
      unfolding h1(3) using True Suc.prems by (intro around_up) auto
    from Suc.IH [OF h1(2) _ this] p Suc.prems(2,4) h1(3)
    have "\<exists>h' j. heap_up lt fuel (hp_array h1 ! par i) h1 = Inr h' \<and> pos_ok h' \<and> mset (hp_array h') = mset (hp_array h1)
      \<and> j < length (hp_array h') \<and> hp_array h' ! j = hp_array h1 ! par i \<and> around lt (hp_array h') j
      \<and> (0 < j \<longrightarrow> edge lt (hp_array h') j)" by simp
    moreover have "mset (hp_array h1) = mset ?xs" unfolding h1(3) using p Suc.prems(2) by (intro swapped_mset) auto
    ultimately show ?thesis unfolding up e by simp
  qed
qed

lemma child_ok:
  assumes "pos_ok h" and i: "i < length (hp_array h)" and n: "2 * i + 1 < length (hp_array h)"
  shows "\<exists>c. heap_child lt (hp_array h ! i) h = Inr (hp_array h ! c) \<and> 0 < c \<and> c < length (hp_array h) \<and> par c = i
    \<and> (\<forall>k. 0 < k \<longrightarrow> k < length (hp_array h) \<longrightarrow> par k = i \<longrightarrow> \<not> lt (hp_array h ! c) (hp_array h ! k))"
proof -
  let ?xs = "hp_array h" and ?l = "2 * i + 1" and ?r = "2 * i + 2"
  have idx: "heap_index h (?xs ! i) = i" using assms by (simp add: pos_index)
  have kids: "k = ?l \<or> k = ?r" if "0 < k" "par k = i" for k using that by presburger
  have irr: "\<not> lt a a" for a using asym [of a a] by blast
  show ?thesis
  proof (cases "?r < length ?xs \<and> lt (?xs ! ?l) (?xs ! ?r)")
    case True
    then have "heap_child lt (?xs ! i) h = Inr (?xs ! ?r)"
      using n by (simp add: heap_child_def heap_left_def heap_right_def has_right_def idx)
    moreover have "\<not> lt (?xs ! ?r) (?xs ! k)" if "0 < k" "par k = i" for k
      using kids [OF that] True asym irr by blast
    ultimately show ?thesis using True by (intro exI [of _ ?r]) simp
  next
    case False
    then have "heap_child lt (?xs ! i) h = Inr (?xs ! ?l)"
      using n by (auto simp: heap_child_def heap_left_def heap_right_def has_right_def idx)
    moreover have "\<not> lt (?xs ! ?l) (?xs ! k)" if "0 < k" "k < length ?xs" "par k = i" for k
      using kids [OF that(1,3)] that(2) False irr by blast
    ultimately show ?thesis using n by (intro exI [of _ ?l]) simp
  qed
qed

lemma down_ok:
  assumes "pos_ok h" and "i < length (hp_array h)" and "around lt (hp_array h) i" and "0 < i \<Longrightarrow> edge lt (hp_array h) i"
    and "length (hp_array h) \<le> fuel + i"
  shows "\<exists>h'. heap_down lt fuel (hp_array h ! i) h = Inr h' \<and> pos_ok h' \<and> mset (hp_array h') = mset (hp_array h)
    \<and> heap_ordered lt (hp_array h')"
  using assms
proof (induction fuel arbitrary: h i)
  case 0
  then show ?case by simp
next
  case (Suc fuel)
  let ?xs = "hp_array h" and ?e = "hp_array h ! i"
  have idx: "heap_index h ?e = i" using Suc.prems by (simp add: pos_index)
  have ordered: "heap_ordered lt ?xs" if d: "\<And>k. 0 < k \<Longrightarrow> k < length ?xs \<Longrightarrow> par k = i \<Longrightarrow> edge lt ?xs k"
    unfolding heap_ordered_def
  proof (intro allI impI)
    fix k assume k: "0 < k" "k < length ?xs"
    then show "edge lt ?xs k"
      using d [OF k] Suc.prems(4) aroundD(1) [OF Suc.prems(3) k] by (cases "par k = i"; cases "k = i") auto
  qed
  show ?case
  proof (cases "2 * i + 1 < length ?xs")
    case False
    then have "heap_down lt (Suc fuel) ?e h = Inr h" by (simp add: heap_down.simps [of _ "Suc fuel"] has_left_def idx)
    moreover have "heap_ordered lt ?xs" by (rule ordered) (use False in presburger)
    ultimately show ?thesis using Suc.prems by auto
  next
    case True
    from child_ok [OF Suc.prems(1,2) True] obtain c where
      c: "heap_child lt ?e h = Inr (?xs ! c)" "0 < c" "c < length ?xs" "par c = i"
        "\<And>k. 0 < k \<Longrightarrow> k < length ?xs \<Longrightarrow> par k = i \<Longrightarrow> \<not> lt (?xs ! c) (?xs ! k)" by blast
    show ?thesis
    proof (cases "lt ?e (?xs ! c)")
      case False
      then have "heap_down lt (Suc fuel) ?e h = Inr h"
        using True c(1) by (simp add: heap_down.simps [of _ "Suc fuel"] has_left_def idx)
      moreover have "heap_ordered lt ?xs"
        by (rule ordered) (use neg_trans [OF False c(5)] in \<open>auto simp: edge_def\<close>)
      ultimately show ?thesis using Suc.prems by auto
    next
      case l: True
      have ic: "i < c" using c(2,4) par_less by auto
      from exchange_ok [OF Suc.prems(1,2) c(3)] ic obtain h1 where
        h1: "heap_exchange ?e (?xs ! c) h = Inr h1" "pos_ok h1" "hp_array h1 = swapped ?xs i c" by auto
      have e: "hp_array h1 ! c = ?e" using h1(3) ic c(3) by (simp add: swapped_nth)
      have down: "heap_down lt (Suc fuel) ?e h = heap_down lt fuel ?e h1"
        using True l c(1) h1(1) by (simp add: heap_down.simps [of _ "Suc fuel"] has_left_def idx)
      have "around lt (hp_array h1) c \<and> edge lt (hp_array h1) c"
        unfolding h1(3) by (rule around_down [OF Suc.prems(3,4) c(2,3,4,5) l])
      then have "\<exists>h'. heap_down lt fuel (hp_array h1 ! c) h1 = Inr h' \<and> pos_ok h' \<and> mset (hp_array h') = mset (hp_array h1)
          \<and> heap_ordered lt (hp_array h')"
        using h1(3) c(3) ic Suc.prems(5) by (intro Suc.IH [OF h1(2)]) auto
      moreover have "mset (hp_array h1) = mset ?xs" unfolding h1(3) using Suc.prems(2) c(3) by (intro swapped_mset) auto
      ultimately show ?thesis unfolding down e by simp
    qed
  qed
qed

lemma restore_ok:
  assumes "pos_ok h" and "i < length (hp_array h)" and "around lt (hp_array h) i"
  shows "\<exists>h'. heap_update lt (hp_array h ! i) h = Inr h' \<and> pos_ok h' \<and> mset (hp_array h') = mset (hp_array h)
    \<and> heap_ordered lt (hp_array h')"
proof -
  let ?e = "hp_array h ! i"
  from up_ok [OF assms, of "length (hp_array h)"] assms(2) obtain h1 j where
    u: "heap_up_all lt ?e h = Inr h1" "pos_ok h1" "mset (hp_array h1) = mset (hp_array h)" "j < length (hp_array h1)"
      "hp_array h1 ! j = ?e" "around lt (hp_array h1) j" "0 < j \<longrightarrow> edge lt (hp_array h1) j"
    by (auto simp: heap_up_all_def)
  from down_ok [OF u(2,4,6), of "length (hp_array h1)"] u show ?thesis
    by (simp add: heap_update_def heap_down_all_def)
qed

lemma front_max:
  assumes "heap_ordered lt xs" and "k < length xs"
  shows "\<not> lt (xs ! 0) (xs ! k)"
  using assms(2)
proof (induction k rule: less_induct)
  case (less k)
  show ?case
  proof (cases "k = 0")
    case True
    then show ?thesis using asym [of "xs ! 0" "xs ! 0"] by auto
  next
    case False
    then have p: "par k < k" by auto
    have "edge lt xs k" using assms(1) less.prems False by (simp add: heap_ordered_def)
    then have "\<not> lt (xs ! par k) (xs ! k)" by (simp add: edge_def)
    from neg_trans [OF less.IH [OF p] this] p less.prems show ?thesis by simp
  qed
qed

lemma push_back_ok:
  assumes "pos_ok h" and "heap_ordered lt (hp_array h)" and "\<not> heap_contains h e"
  shows "\<exists>h'. heap_push_back lt e h = Inr h' \<and> pos_ok h' \<and> mset (hp_array h') = add_mset e (mset (hp_array h))
    \<and> heap_ordered lt (hp_array h')"
proof -
  let ?n = "length (hp_array h)"
  let ?h = "\<lparr>hp_array = hp_array h @ [e], hp_pos = (hp_pos h)(e \<mapsto> ?n)\<rparr>"
  have new: "hp_pos h e = None" "e \<notin> set (hp_array h)"
    using assms(3) pos_contains [OF assms(1), of e] by (simp_all add: heap_contains_def)
  have "pos_ok ?h"
    unfolding pos_ok_def
  proof (intro allI)
    fix d k
    have "hp_pos h d = Some k \<longleftrightarrow> k < ?n \<and> hp_array h ! k = d" using assms(1) by (simp add: pos_ok_def)
    moreover have "hp_array h ! k \<noteq> e" if "k < ?n" using new(2) that nth_mem by metis
    ultimately show "hp_pos ?h d = Some k \<longleftrightarrow> k < length (hp_array ?h) \<and> hp_array ?h ! k = d"
      by (auto simp: nth_append less_Suc_eq)
  qed
  moreover have "around lt (hp_array ?h) ?n"
    unfolding around_def
  proof (intro conjI allI impI)
    fix k assume k: "0 < k" "k < length (hp_array ?h)" "k \<noteq> ?n" "par k \<noteq> ?n"
    then have "k < ?n" "par k < ?n" by auto
    moreover have "edge lt (hp_array h) k" using assms(2) k calculation by (simp add: heap_ordered_def)
    ultimately show "edge lt (hp_array ?h) k" by (simp add: edge_def nth_append)
  next
    fix k assume "0 < k" "k < length (hp_array ?h)" "par k = ?n"
    then have False using par_less [of k] by auto
    then show "\<not> lt (hp_array ?h ! par ?n) (hp_array ?h ! k)" ..
  qed
  ultimately show ?thesis
    using restore_ok [of ?h ?n] by (simp add: heap_push_back_def)
qed

lemma pop_front_ok:
  assumes "pos_ok h" and "heap_ordered lt (hp_array h)" and "hp_array h \<noteq> []"
  shows "\<exists>r h'. heap_pop_front lt h = Inr (r, h') \<and> pos_ok h' \<and> r = hp_array h ! 0
    \<and> mset (hp_array h) = add_mset r (mset (hp_array h')) \<and> heap_ordered lt (hp_array h')"
proof -
  let ?xs = "hp_array h"
  let ?n = "length ?xs" and ?r = "?xs ! 0"
  let ?l = "last ?xs"
  have n: "0 < ?n" "?n - 1 < ?n" using assms(3) by auto
  have l: "?l = ?xs ! (?n - 1)" using assms(3) by (simp add: last_conv_nth)
  have "\<exists>h1. (if ?n > 1 then heap_exchange ?r ?l h else Inr h) = Inr h1 \<and> pos_ok h1 \<and> hp_array h1 = swapped ?xs 0 (?n - 1)"
  proof (cases "?n > 1")
    case True
    with exchange_ok [OF assms(1) n] l show ?thesis by simp
  next
    case False
    then have "?n - 1 = 0" by simp
    then have "swapped ?xs 0 (?n - 1) = ?xs" by (simp add: swapped_def)
    with False assms(1) show ?thesis by simp
  qed
  then obtain h1 where h1: "(if ?n > 1 then heap_exchange ?r ?l h else Inr h) = Inr h1" "pos_ok h1" "hp_array h1 = swapped ?xs 0 (?n - 1)"
    by blast
  let ?ys = "butlast (hp_array h1)"
  let ?h = "\<lparr>hp_array = ?ys, hp_pos = (hp_pos h1)(?r := None)\<rparr>"
  have n1: "length (hp_array h1) = ?n" by (simp add: h1(3))
  have lst: "hp_array h1 ! (?n - 1) = ?r" using n by (simp add: h1(3) swapped_nth)
  have full: "hp_array h1 = ?ys @ [?r]"
    using n n1 lst by (metis append_butlast_last_id last_conv_nth length_greater_0_conv)
  have nth: "?ys ! k = hp_array h1 ! k" if "k < ?n - 1" for k using that n1 by (simp add: nth_butlast)
  have pos: "pos_ok ?h"
    unfolding pos_ok_def
  proof (intro allI)
    fix d k
    have "hp_pos h1 d = Some k \<longleftrightarrow> k < ?n \<and> hp_array h1 ! k = d" using h1(2) n1 by (simp add: pos_ok_def)
    moreover have "?r \<notin> set ?ys" using pos_distinct [OF h1(2)] by (subst (asm) full) simp
    then have "?ys ! k \<noteq> ?r" if "k < ?n - 1" using that n1 nth_mem [of k ?ys] by (metis length_butlast)
    moreover have "k < ?n \<longleftrightarrow> k < ?n - 1 \<or> k = ?n - 1" using n by auto
    ultimately show "hp_pos ?h d = Some k \<longleftrightarrow> k < length (hp_array ?h) \<and> hp_array ?h ! k = d"
      using lst nth n1 by auto
  qed
  have m: "mset ?xs = add_mset ?r (mset ?ys)"
  proof -
    have "mset (hp_array h1) = mset ?xs" unfolding h1(3) by (rule swapped_mset) (use n in auto)
    moreover have "mset (hp_array h1) = mset (?ys @ [?r])" using full by metis
    ultimately show ?thesis by simp
  qed
  have keep: "edge lt ?ys k" if "0 < k" "k < length ?ys" "par k \<noteq> 0" for k
  proof -
    have "?ys ! k = ?xs ! k" "?ys ! par k = ?xs ! par k"
      using that n1 nth [of k] nth [of "par k"] par_less [of k] n by (auto simp: h1(3) swapped_nth)
    moreover have "edge lt ?xs k" using assms(2) that n1 by (simp add: heap_ordered_def)
    ultimately show ?thesis by (simp add: edge_def)
  qed
  have "\<exists>h'. (if length (hp_array ?h) > 1 then heap_down_all lt ?l ?h else Inr ?h) = Inr h' \<and> pos_ok h'
      \<and> mset (hp_array h') = mset ?ys \<and> heap_ordered lt (hp_array h')"
  proof (cases "length ?ys > 1")
    case True
    then have "?ys ! 0 = ?l" using nth [of 0] n1 l n by (simp add: h1(3) swapped_nth)
    moreover have "around lt ?ys 0" unfolding around_def using keep by auto
    ultimately show ?thesis using down_ok [OF pos, of 0 "length ?ys"] True by (simp add: heap_down_all_def)
  next
    case False
    then have "heap_ordered lt ?ys" by (auto simp: heap_ordered_def)
    with False pos show ?thesis by simp
  qed
  then obtain h' where h': "(if length (hp_array ?h) > 1 then heap_down_all lt ?l ?h else Inr ?h) = Inr h'" "pos_ok h'"
      "mset (hp_array h') = mset ?ys" "heap_ordered lt (hp_array h')" by blast
  have "heap_pop_front lt h = Inr (?r, h')"
    using n h1(1) h'(1) by (simp add: heap_pop_front_def heap_front_def Let_def del: length_butlast)
  with h' m show ?thesis by simp
qed

end

text \<open>One element changes its priority: the heap around it is still ordered.\<close>

lemma changed_around:
  assumes "priority lt" and "pos_ok h" and "heap_ordered lt (hp_array h)" and i: "i < length (hp_array h)"
    and same: "\<And>a b. a \<noteq> hp_array h ! i \<Longrightarrow> b \<noteq> hp_array h ! i \<Longrightarrow> lt' a b = lt a b"
  shows "around lt' (hp_array h) i"
proof -
  let ?xs = "hp_array h"
  have ne: "?xs ! k \<noteq> ?xs ! i" if "k < length ?xs" "k \<noteq> i" for k
    using that i pos_distinct [OF assms(2)] by (simp add: nth_eq_iff_index_eq)
  have old: "\<not> lt (?xs ! par k) (?xs ! k)" if "0 < k" "k < length ?xs" for k
    using assms(3) that by (simp add: heap_ordered_def edge_def)
  show ?thesis
    unfolding around_def
  proof (intro conjI allI impI)
    fix k assume k: "0 < k" "k < length ?xs" "k \<noteq> i" "par k \<noteq> i"
    then have "par k < length ?xs" by auto
    with old [OF k(1,2)] k ne same show "edge lt' ?xs k" by (simp add: edge_def)
  next
    fix k assume k: "0 < i" "0 < k" "k < length ?xs" "par k = i"
    have p: "par i < i" "i < k" using k par_less [of k] par_less [of i] by auto
    have "\<not> lt (?xs ! par i) (?xs ! i)" "\<not> lt (?xs ! i) (?xs ! k)" using old [OF k(1) i] old [OF k(2,3)] k(4) by simp_all
    then have "\<not> lt (?xs ! par i) (?xs ! k)" using priority.neg_trans [OF assms(1)] by blast
    moreover have "?xs ! par i \<noteq> ?xs ! i" "?xs ! k \<noteq> ?xs ! i" using ne p k by auto
    ultimately show "\<not> lt' (?xs ! par i) (?xs ! k)" using same by blast
  qed
qed

end
