(* ===== verification/Decision_Queue.thy ===== *)
theory Decision_Queue
  imports Prelude
begin

text \<open>
  The variable-move-to-front decision queue of CaDiCaL: the doubly linked list with its anchors
  (\<open>cadical/src/queue.hpp\<close>), its initialisation and shuffling (\<open>queue.cpp\<close>), bumping
  (\<open>bump_queue\<close> of \<open>analyze.cpp\<close>), the update when a variable becomes unassigned
  (\<open>backtrack.cpp\<close>), and the search for the next decision (\<open>decide.cpp\<close>), also in the variant
  compiled with \<open>BRANCHAUX\<close>, which passes over auxiliary variables.

  A variable is a number above 0; the vectors \<open>links\<close> and \<open>btab\<close> are functions of it.
  \<open>assigned\<close> is \<open>val\<close> of the variable being non-zero, \<open>aux\<close> is \<open>is_aux\<close> of its external
  name.  The first element of the queue is the least recently bumped.
\<close>

section \<open>Operations\<close>

record vmtf =
  q_prev :: "nat \<Rightarrow> nat"
  q_next :: "nat \<Rightarrow> nat"
  q_first :: nat
  q_last :: nat
  q_unassigned :: nat
  q_bumped :: int
  q_btab :: "nat \<Rightarrow> int"
  q_stamp :: int

definition queue_empty :: vmtf where
  "queue_empty = \<lparr>q_prev = (\<lambda>_. 0), q_next = (\<lambda>_. 0), q_first = 0, q_last = 0, q_unassigned = 0,
     q_bumped = 0, q_btab = (\<lambda>_. 0), q_stamp = 0\<rparr>"

definition set_prev :: "nat \<Rightarrow> nat \<Rightarrow> vmtf \<Rightarrow> vmtf" where
  "set_prev v p q = q\<lparr>q_prev := (q_prev q)(v := p)\<rparr>"

definition set_next :: "nat \<Rightarrow> nat \<Rightarrow> vmtf \<Rightarrow> vmtf" where
  "set_next v n q = q\<lparr>q_next := (q_next q)(v := n)\<rparr>"

definition dequeue :: "nat \<Rightarrow> vmtf \<Rightarrow> vmtf" where
  "dequeue idx q =
     (let q = (if q_prev q idx \<noteq> 0 then set_next (q_prev q idx) (q_next q idx) q else q\<lparr>q_first := q_next q idx\<rparr>)
      in if q_next q idx \<noteq> 0 then set_prev (q_next q idx) (q_prev q idx) q else q\<lparr>q_last := q_prev q idx\<rparr>)"

definition enqueue :: "nat \<Rightarrow> vmtf \<Rightarrow> vmtf" where
  "enqueue idx q =
     (let q = set_prev idx (q_last q) q;
          q = (if q_prev q idx \<noteq> 0 then set_next (q_last q) idx q else q\<lparr>q_first := idx\<rparr>)
      in set_next idx 0 (q\<lparr>q_last := idx\<rparr>))"

definition update_queue_unassigned :: "nat \<Rightarrow> vmtf \<Rightarrow> vmtf" where
  "update_queue_unassigned idx q = q\<lparr>q_unassigned := idx, q_bumped := q_btab q idx\<rparr>"

definition init_enqueue :: "bool \<Rightarrow> nat \<Rightarrow> vmtf \<Rightarrow> vmtf" where
  "init_enqueue rev_order idx q =
     (if rev_order then
        (let q = set_prev idx 0 q;
             q = (if q_first q \<noteq> 0
                  then (set_prev (q_first q) idx q)\<lparr>q_btab := (q_btab q)(idx := q_btab q (q_first q) - 1)\<rparr>
                  else q\<lparr>q_last := idx, q_btab := (q_btab q)(idx := 0)\<rparr>);
             q = (set_next idx (q_first q) q)\<lparr>q_first := idx\<rparr>
         in if q_unassigned q = 0 then update_queue_unassigned (q_last q) q else q)
      else
        (let q = set_next idx 0 q;
             q = (if q_last q \<noteq> 0 then set_next (q_last q) idx q else q\<lparr>q_first := idx\<rparr>);
             q = q\<lparr>q_stamp := q_stamp q + 1, q_btab := (q_btab q)(idx := q_stamp q + 1)\<rparr>;
             q = (set_prev idx (q_last q) q)\<lparr>q_last := idx\<rparr>
         in update_queue_unassigned (q_last q) q))"

definition init_queue :: "bool \<Rightarrow> nat \<Rightarrow> nat \<Rightarrow> vmtf \<Rightarrow> vmtf" where
  "init_queue rev_order old_max_var new_max_var q =
     fold (\<lambda>idx. init_enqueue rev_order (idx + 1)) [old_max_var ..< new_max_var] q"

definition bump_queue :: "(nat \<Rightarrow> bool) \<Rightarrow> nat \<Rightarrow> vmtf \<Rightarrow> vmtf" where
  "bump_queue assigned idx q =
     (if q_next q idx = 0 then q
      else
        let q = enqueue idx (dequeue idx q);
            q = q\<lparr>q_stamp := q_stamp q + 1, q_btab := (q_btab q)(idx := q_stamp q + 1)\<rparr>
        in if \<not> assigned idx then update_queue_unassigned idx q else q)"

text \<open>The last line of \<open>unassign\<close>.\<close>

definition queue_unassign :: "nat \<Rightarrow> vmtf \<Rightarrow> vmtf" where
  "queue_unassign idx q = (if q_bumped q < q_btab q idx then update_queue_unassigned idx q else q)"

text \<open>The search for a decision, and the same with \<open>BRANCHAUX\<close>.\<close>

fun queue_search :: "nat \<Rightarrow> (nat \<Rightarrow> bool) \<Rightarrow> nat \<Rightarrow> vmtf \<Rightarrow> nat res" where
  "queue_search fuel assigned r q =
     (if assigned r then
        (case fuel of 0 \<Rightarrow> Inl OutOfFuel | Suc fuel \<Rightarrow> queue_search fuel assigned (q_prev q r) q)
      else Inr r)"

definition next_on_queue :: "nat \<Rightarrow> (nat \<Rightarrow> bool) \<Rightarrow> vmtf \<Rightarrow> (nat \<times> vmtf) res" where
  "next_on_queue fuel assigned q =
     bind_res (queue_search fuel assigned (q_unassigned q) q) (\<lambda>r.
       Inr (r, if assigned (q_unassigned q) then update_queue_unassigned r q else q))"

definition move_to_back :: "nat \<Rightarrow> vmtf \<Rightarrow> vmtf" where
  "move_to_back v q =
     (let q = dequeue v q;
          q = set_next v (q_first q) q;
          q = set_prev (q_first q) v q;
          q = set_prev v 0 (q\<lparr>q_first := v\<rparr>)
      in q\<lparr>q_btab := (q_btab q)(v := q_btab q (q_next q v) - 1)\<rparr>)"

fun queue_search_aux :: "nat \<Rightarrow> (nat \<Rightarrow> bool) \<Rightarrow> (nat \<Rightarrow> bool) \<Rightarrow> nat \<Rightarrow> vmtf \<Rightarrow> (nat \<times> vmtf) res" where
  "queue_search_aux fuel assigned aux r q =
     (if assigned r \<or> aux r then
        (case fuel of 0 \<Rightarrow> Inl OutOfFuel
         | Suc fuel \<Rightarrow> queue_search_aux fuel assigned aux (q_prev q r) (if aux r then move_to_back r q else q))
      else Inr (r, q))"

declare queue_search.simps [simp del] queue_search_aux.simps [simp del]

definition next_on_queue_aux :: "nat \<Rightarrow> (nat \<Rightarrow> bool) \<Rightarrow> (nat \<Rightarrow> bool) \<Rightarrow> vmtf \<Rightarrow> (nat \<times> vmtf) res" where
  "next_on_queue_aux fuel assigned aux q =
     bind_res (queue_search_aux fuel assigned aux (q_unassigned q) q) (\<lambda>(r, q').
       Inr (r, if assigned (q_unassigned q) \<or> aux (q_unassigned q) then update_queue_unassigned r q' else q'))"

text \<open>
  Shuffling.  With \<open>shufflerandom\<close> the picks of the random generator are given: \<open>picks ! i\<close> is
  what \<open>pick_int (i, max_var - 1)\<close> returns.  Without, the queue is reversed.
\<close>

fun shuffle_swaps :: "nat \<Rightarrow> nat list \<Rightarrow> nat list \<Rightarrow> nat list" where
  "shuffle_swaps i [] xs = xs"
| "shuffle_swaps i (j # js) xs = shuffle_swaps (i + 1) js (xs[i := xs ! j, j := xs ! i])"

fun queue_backward :: "nat \<Rightarrow> vmtf \<Rightarrow> nat \<Rightarrow> nat list res" where
  "queue_backward fuel q idx =
     (if idx = 0 then Inr []
      else case fuel of 0 \<Rightarrow> Inl OutOfFuel
        | Suc fuel \<Rightarrow> bind_res (queue_backward fuel q (q_prev q idx)) (\<lambda>xs. Inr (idx # xs)))"

declare queue_backward.simps [simp del]

fun restamp :: "nat list \<Rightarrow> int \<Rightarrow> vmtf \<Rightarrow> vmtf" where
  "restamp [] b q = q"
| "restamp (v # vs) b q = restamp vs (b - 1) (q\<lparr>q_btab := (q_btab q)(v := b)\<rparr>)"

definition shuffle_queue :: "nat \<Rightarrow> nat list option \<Rightarrow> nat \<Rightarrow> vmtf \<Rightarrow> vmtf res" where
  "shuffle_queue fuel picks max_var q =
     bind_res (case picks of Some js \<Rightarrow> Inr (shuffle_swaps 0 js (rev [1 ..< max_var + 1]))
       | None \<Rightarrow> queue_backward fuel q (q_last q)) (\<lambda>shuffle.
     let q = fold enqueue shuffle (q\<lparr>q_first := 0, q_last := 0\<rparr>) in
     bind_res (queue_backward fuel q (q_last q)) (\<lambda>vs.
     let q = restamp vs (q_bumped q) q in
       Inr (q\<lparr>q_unassigned := q_last q\<rparr>)))"

section \<open>The queue as a list\<close>

fun dseg :: "(nat \<Rightarrow> nat) \<Rightarrow> (nat \<Rightarrow> nat) \<Rightarrow> nat \<Rightarrow> nat list \<Rightarrow> nat \<Rightarrow> bool" where
  "dseg P N p [] n \<longleftrightarrow> True"
| "dseg P N p (x # xs) n \<longleftrightarrow> P x = p \<and> N x = hd (xs @ [n]) \<and> dseg P N x xs n"

definition queue_list :: "vmtf \<Rightarrow> nat list \<Rightarrow> bool" where
  "queue_list q xs \<longleftrightarrow> dseg (q_prev q) (q_next q) 0 xs 0 \<and> distinct xs \<and> 0 \<notin> set xs
     \<and> q_first q = hd (xs @ [0]) \<and> q_last q = last (0 # xs)"

lemma dseg_append:
  "dseg P N p (xs @ ys) n \<longleftrightarrow> dseg P N p xs (hd (ys @ [n])) \<and> dseg P N (last (p # xs)) ys n"
proof (induction xs arbitrary: p)
  case Nil
  then show ?case by simp
next
  case (Cons x xs)
  then show ?case by (cases xs) (auto simp: hd_append)
qed

lemma dseg_cong:
  "(\<And>x. x \<in> set xs \<Longrightarrow> P' x = P x \<and> N' x = N x) \<Longrightarrow> dseg P' N' p xs n \<longleftrightarrow> dseg P N p xs n"
  by (induction xs arbitrary: p) auto

text \<open>The links of an element in the middle.\<close>

lemma dseg_mid:
  "dseg P N p (us @ x # vs) n \<longleftrightarrow>
     dseg P N p us x \<and> P x = last (p # us) \<and> N x = hd (vs @ [n]) \<and> dseg P N x vs n"
  by (auto simp: dseg_append)

text \<open>Replacing what follows a segment, and what precedes it.\<close>

lemma dseg_next_upd:
  "dseg P N p xs n \<Longrightarrow> distinct xs \<Longrightarrow> xs \<noteq> [] \<Longrightarrow> dseg P (N(last xs := m)) p xs m"
proof (induction xs rule: rev_induct)
  case Nil
  then show ?case by simp
next
  case (snoc x xs)
  then have "dseg P (N(x := m)) p xs x \<longleftrightarrow> dseg P N p xs x" by (intro dseg_cong) auto
  moreover have "dseg P N p xs x" "P x = last (p # xs)" using snoc.prems(1) by (simp_all add: dseg_append)
  ultimately have "dseg P (N(x := m)) p (xs @ [x]) m" unfolding dseg_append by simp
  then show ?case unfolding last_snoc .
qed

lemma dseg_prev_upd:
  "dseg P N p xs n \<Longrightarrow> distinct xs \<Longrightarrow> xs \<noteq> [] \<Longrightarrow> dseg (P(hd xs := m)) N m xs n"
proof (cases xs)
  case (Cons x ys)
  moreover assume "dseg P N p xs n" "distinct xs"
  moreover have "dseg (P(x := m)) N x ys n \<longleftrightarrow> dseg P N x ys n"
    by (rule dseg_cong) (use Cons \<open>distinct xs\<close> in auto)
  ultimately show ?thesis by simp
qed simp

lemma dseg_join:
  assumes "dseg P N p us x" and "dseg P N y vs n" and d: "distinct (us @ vs)"
  shows "dseg (if vs = [] then P else P(hd vs := last (p # us))) (if us = [] then N else N(last us := hd (vs @ [n]))) p (us @ vs) n"
    (is "dseg ?P ?N p (us @ vs) n")
proof -
  let ?m = "hd (vs @ [n])"
  have apart: "\<And>z. z \<in> set us \<Longrightarrow> vs \<noteq> [] \<Longrightarrow> z \<noteq> hd vs" "\<And>z. z \<in> set vs \<Longrightarrow> us \<noteq> [] \<Longrightarrow> z \<noteq> last us"
    using d last_in_set [of us] hd_in_set [of vs] unfolding distinct_append by blast+
  have "dseg P (if us = [] then N else N(last us := ?m)) p us ?m"
    using assms(1) d dseg_next_upd [of P N p us x ?m] by (cases "us = []") auto
  moreover have "dseg ?P ?N p us ?m \<longleftrightarrow> dseg P (if us = [] then N else N(last us := ?m)) p us ?m"
    by (rule dseg_cong) (use apart in auto)
  ultimately have us: "dseg ?P ?N p us ?m" by blast
  have "dseg (if vs = [] then P else P(hd vs := last (p # us))) N (last (p # us)) vs n"
    using assms(2) d dseg_prev_upd [of P N y vs n "last (p # us)"] by (cases "vs = []") auto
  moreover have "dseg ?P ?N (last (p # us)) vs n \<longleftrightarrow>
      dseg (if vs = [] then P else P(hd vs := last (p # us))) N (last (p # us)) vs n"
    by (rule dseg_cong) (use apart in auto)
  ultimately show ?thesis using us by (simp only: dseg_append)
qed

text \<open>The operations on the list.\<close>

lemma queue_links:
  assumes "queue_list q (us @ x # vs)"
  shows "q_prev q x = last (0 # us)" and "q_next q x = hd (vs @ [0])"
  using assms by (simp_all add: queue_list_def dseg_append)

lemma queue_list_cong:
  "queue_list q xs \<Longrightarrow> q_prev q' = q_prev q \<Longrightarrow> q_next q' = q_next q \<Longrightarrow> q_first q' = q_first q \<Longrightarrow> q_last q' = q_last q
    \<Longrightarrow> queue_list q' xs"
  by (simp add: queue_list_def)

lemma dequeue_eq:
  assumes "queue_list q (us @ x # vs)"
  shows "dequeue x q = q
    \<lparr>q_prev := (if vs = [] then q_prev q else (q_prev q)(hd vs := last (0 # us))),
     q_next := (if us = [] then q_next q else (q_next q)(last us := hd (vs @ [0]))),
     q_first := hd (us @ vs @ [0]), q_last := last (0 # us @ vs)\<rparr>"
proof -
  note l = queue_links [OF assms]
  have d: "distinct (us @ x # vs)" and z: "0 \<notin> set (us @ x # vs)"
    and f: "q_first q = hd (us @ x # vs @ [0])" "q_last q = last (us @ x # vs)"
    using assms by (auto simp: queue_list_def)
  have u: "us \<noteq> [] \<Longrightarrow> last us \<noteq> 0 \<and> last us \<noteq> x" and v: "vs \<noteq> [] \<Longrightarrow> hd vs \<noteq> 0 \<and> hd vs \<noteq> x"
    using d z by (metis Un_iff distinct_append last_in_set list.set_intros(1) not_distinct_conv_prefix set_append disjoint_insert(1) list.simps(15))
      (use d z in \<open>metis Un_iff hd_in_set distinct.simps(2) distinct_append list.set_intros(2) set_append\<close>)
  show ?thesis
    using l f u v by (cases "us = []"; cases "vs = []") (simp_all add: dequeue_def set_prev_def set_next_def hd_append)
qed

lemma dequeue_list:
  assumes "queue_list q (us @ x # vs)"
  shows "queue_list (dequeue x q) (us @ vs)"
proof -
  have "dseg (q_prev q) (q_next q) 0 us x" "dseg (q_prev q) (q_next q) x vs 0" and d: "distinct (us @ vs)" "0 \<notin> set (us @ vs)"
    using assms by (auto simp: queue_list_def dseg_mid)
  from dseg_join [OF this(1-3)] d show ?thesis
    unfolding dequeue_eq [OF assms] queue_list_def by (simp add: hd_append)
qed

lemma enqueue_list:
  assumes "queue_list q xs" and "x \<notin> set xs" and "x \<noteq> 0"
  shows "queue_list (enqueue x q) (xs @ [x])"
proof -
  let ?P = "(q_prev q)(x := last (0 # xs))" and ?N = "(q_next q)(x := 0)"
  have q: "dseg (q_prev q) (q_next q) 0 xs 0" "distinct xs" "0 \<notin> set xs" "q_first q = hd (xs @ [0])" "q_last q = last (0 # xs)"
    using assms(1) by (auto simp: queue_list_def)
  have "dseg ?P ?N 0 xs 0 \<longleftrightarrow> dseg (q_prev q) (q_next q) 0 xs 0" by (rule dseg_cong) (use assms(2) in auto)
  with q(1) have "dseg ?P ?N 0 xs 0" by blast
  moreover have "dseg ?P ?N (last (0 # xs)) [x] 0" by simp
  ultimately have j: "dseg ?P (if xs = [] then ?N else ?N(last xs := x)) 0 (xs @ [x]) 0"
    using dseg_join [of ?P ?N 0 xs 0 "last (0 # xs)" "[x]" 0] q(2) assms(2) by (cases "xs = []") simp_all
  have l: "xs \<noteq> [] \<Longrightarrow> last xs \<noteq> 0 \<and> last xs \<noteq> x" using q(3) assms(2) last_in_set by metis
  have "enqueue x q = q\<lparr>q_prev := ?P, q_next := (if xs = [] then ?N else ?N(last xs := x)), q_first := hd (xs @ [x]), q_last := x\<rparr>"
    using q(4,5) l by (cases "xs = []") (simp_all add: enqueue_def set_prev_def set_next_def Let_def fun_upd_twist hd_append)
  with j q(2,3) assms(2,3) show ?thesis by (simp add: queue_list_def hd_append)
qed

lemma move_to_back_list:
  assumes "queue_list q (us @ x # vs)" and "us @ vs \<noteq> []"
  shows "queue_list (move_to_back x q) (x # us @ vs)"
    and "q_btab (move_to_back x q) = (q_btab q)(x := q_btab q (hd (us @ vs)) - 1)"
proof -
  let ?d = "dequeue x q" and ?zs = "us @ vs"
  let ?f = "hd (us @ vs)"
  have l: "queue_list ?d ?zs" by (rule dequeue_list [OF assms(1)])
  have x: "x \<notin> set ?zs" "x \<noteq> 0" using assms(1) by (auto simp: queue_list_def)
  have f0: "hd (?zs @ [0]) = ?f" "last (0 # ?zs) = last ?zs" using assms(2) by (simp_all only: hd_append last.simps if_False)
  have q: "dseg (q_prev ?d) (q_next ?d) 0 ?zs 0" "distinct ?zs" "0 \<notin> set ?zs" "q_first ?d = ?f" "q_last ?d = last ?zs"
    using l unfolding queue_list_def f0 by blast+
  have f: "?f \<in> set ?zs" using assms(2) by (metis hd_in_set)
  let ?P = "(q_prev ?d)(x := 0)" and ?N = "(q_next ?d)(x := ?f)"
  have "dseg ?P ?N 0 ?zs 0 \<longleftrightarrow> dseg (q_prev ?d) (q_next ?d) 0 ?zs 0" by (rule dseg_cong) (use x in auto)
  with q(1) have "dseg ?P ?N 0 ?zs 0" by blast
  moreover have "dseg ?P ?N 0 [x] ?f" by simp
  ultimately have j: "dseg (?P(?f := x)) (?N(x := ?f)) 0 ([x] @ ?zs) 0"
  proof -
    obtain z zs where z: "?zs = z # zs" using assms(2) by (cases ?zs) auto
    assume "dseg ?P ?N 0 ?zs 0" "dseg ?P ?N 0 [x] ?f"
    then show ?thesis using dseg_join [of ?P ?N 0 "[x]" ?f 0 "z # zs" 0] q(2) x(1) unfolding z by simp
  qed
  have bt: "q_btab ?d = q_btab q" unfolding dequeue_eq [OF assms(1)] by simp
  have fx: "?f \<noteq> x" using f x(1) by metis
  have e: "move_to_back x q = ?d\<lparr>q_next := ?N, q_prev := ?P(?f := x), q_first := x, q_btab := (q_btab q)(x := q_btab q ?f - 1)\<rparr>"
    using q(4) fx bt by (simp add: move_to_back_def set_prev_def set_next_def Let_def fun_upd_twist)
  then show "q_btab (move_to_back x q) = (q_btab q)(x := q_btab q ?f - 1)" by simp
  show "queue_list (move_to_back x q) (x # us @ vs)"
    using j q x assms(2) unfolding e queue_list_def by (auto simp: hd_append)
qed

section \<open>The invariant\<close>

text \<open>
  The stamps ascend along the queue.  \<open>unassigned\<close> may point to an assigned variable, but no
  unassigned one is behind it: their stamps are at most \<open>bumped\<close>, and that at most the stamp of
  the variable pointed to (smaller when that variable was bumped while it was assigned).
\<close>

definition queue_ok :: "(nat \<Rightarrow> bool) \<Rightarrow> vmtf \<Rightarrow> nat list \<Rightarrow> bool" where
  "queue_ok assigned q xs \<longleftrightarrow>
     queue_list q xs \<and> sorted_wrt (<) (map (q_btab q) xs)
     \<and> (xs \<noteq> [] \<longrightarrow> q_unassigned q \<in> set xs \<and> q_bumped q \<le> q_btab q (q_unassigned q))
     \<and> (\<forall>x \<in> set xs. q_btab q x \<le> q_stamp q \<and> (\<not> assigned x \<longrightarrow> q_btab q x \<le> q_bumped q))"

lemma map_upd_notin: "x \<notin> set xs \<Longrightarrow> map (f(x := y)) xs = map f xs"
  by (induction xs) auto

lemma remove1_mid: "x \<notin> set us \<Longrightarrow> remove1 x (us @ x # vs) = us @ vs"
  by (simp add: remove1_append)

lemma dequeue_fields:
  assumes "queue_list q (us @ x # vs)"
  shows "q_unassigned (dequeue x q) = q_unassigned q" "q_bumped (dequeue x q) = q_bumped q"
    "q_btab (dequeue x q) = q_btab q" "q_stamp (dequeue x q) = q_stamp q"
  unfolding dequeue_eq [OF assms] by simp_all

lemma enqueue_fields [simp]:
  "q_unassigned (enqueue x q) = q_unassigned q" "q_bumped (enqueue x q) = q_bumped q"
  "q_btab (enqueue x q) = q_btab q" "q_stamp (enqueue x q) = q_stamp q"
  by (simp_all add: enqueue_def set_prev_def set_next_def Let_def)

lemma update_fields [simp]:
  "q_unassigned (update_queue_unassigned x q) = x" "q_bumped (update_queue_unassigned x q) = q_btab q x"
  "q_btab (update_queue_unassigned x q) = q_btab q" "q_stamp (update_queue_unassigned x q) = q_stamp q"
  "queue_list (update_queue_unassigned x q) xs \<longleftrightarrow> queue_list q xs"
  by (simp_all add: update_queue_unassigned_def queue_list_def)

lemma bump_queue_ok:
  assumes "queue_ok assigned q xs" and "x \<in> set xs"
  shows "queue_ok assigned (bump_queue assigned x q) (remove1 x xs @ [x])"
proof -
  obtain us vs where xs: "xs = us @ x # vs" and u: "x \<notin> set us" using split_list_first [OF assms(2)] by blast
  have q: "queue_list q (us @ x # vs)" using assms(1) by (simp add: queue_ok_def xs)
  then have d: "distinct (us @ x # vs)" "0 \<notin> set (us @ x # vs)" by (simp_all add: queue_list_def)
  note nx = queue_links(2) [OF q]
  show ?thesis
  proof (cases "vs = []")
    case True
    with assms(1) nx u show ?thesis by (simp add: bump_queue_def xs remove1_append)
  next
    case False
    have "hd vs \<in> set vs" using False by simp
    then have n0: "q_next q x \<noteq> 0" using False nx d(2) by (metis hd_append UnCI list.set_intros(2) set_append)
    let ?d = "dequeue x q"
    note f = dequeue_fields [OF q]
    have l: "queue_list (enqueue x ?d) ((us @ vs) @ [x])"
      by (rule enqueue_list [OF dequeue_list [OF q]]) (use d in auto)
    let ?s = "q_stamp q + 1"
    let ?q = "(enqueue x ?d)\<lparr>q_stamp := ?s, q_btab := (q_btab q)(x := ?s)\<rparr>"
    have run: "bump_queue assigned x q = (if \<not> assigned x then update_queue_unassigned x ?q else ?q)"
      using n0 by (simp add: bump_queue_def Let_def f)
    have st: "q_btab q y \<le> q_stamp q" if "y \<in> set xs" for y using assms(1) that by (simp add: queue_ok_def)
    have "sorted_wrt (<) (map (q_btab q) (us @ vs))" using assms(1) by (simp add: queue_ok_def xs sorted_wrt_append)
    moreover have "map ((q_btab q)(x := ?s)) (us @ vs) = map (q_btab q) (us @ vs)" using d by (intro map_upd_notin) auto
    ultimately have srt: "sorted_wrt (<) (map ((q_btab q)(x := ?s)) ((us @ vs) @ [x]))"
      using st d by (fastforce simp: sorted_wrt_append xs)
    have lq: "queue_list ?q ((us @ vs) @ [x])" by (rule queue_list_cong [OF l]) simp_all
    have "queue_ok assigned (bump_queue assigned x q) ((us @ vs) @ [x])"
    proof (cases "assigned x")
      case True
      have "q_bumped q \<le> ((q_btab q)(x := ?s)) (q_unassigned q)"
        using assms(1) st [OF assms(2)] xs by (auto simp: queue_ok_def)
      moreover have "q_btab q y \<le> ?s" if "y \<in> set xs" for y using st [OF that] by simp
      ultimately show ?thesis
        using True lq srt assms(1) unfolding run queue_ok_def by (auto simp: xs f)
    next
      case False
      have "q_btab q y \<le> ?s" if "y \<in> set xs" for y using st [OF that] by simp
      with False lq srt show ?thesis unfolding run queue_ok_def by (auto simp: xs)
    qed
    then show ?thesis using u by (simp add: xs remove1_mid)
  qed
qed

lemma queue_unassign_ok:
  assumes "queue_ok assigned q xs" and "x \<in> set xs"
  shows "queue_ok (\<lambda>y. y \<noteq> x \<and> assigned y) (queue_unassign x q) xs"
  using assms by (force simp: queue_ok_def queue_unassign_def)

lemma queue_assign_ok:
  "queue_ok assigned q xs \<Longrightarrow> (\<And>y. assigned y \<Longrightarrow> assigned' y) \<Longrightarrow> queue_ok assigned' q xs"
  by (auto simp: queue_ok_def)

section \<open>Initialisation\<close>

lemma queue_empty_ok: "queue_ok assigned queue_empty []"
  by (simp add: queue_ok_def queue_list_def queue_empty_def)

lemma init_enqueue_last_ok:
  assumes "queue_ok assigned q xs" and "x \<notin> set xs" and "x \<noteq> 0"
  shows "queue_ok assigned (init_enqueue False x q) (xs @ [x])"
proof -
  have e: "init_enqueue False x q = update_queue_unassigned x
      ((enqueue x q)\<lparr>q_stamp := q_stamp q + 1, q_btab := (q_btab q)(x := q_stamp q + 1)\<rparr>)"
  proof -
    have q: "queue_list q xs" using assms(1) by (simp add: queue_ok_def)
    then have "0 \<notin> set xs" by (simp add: queue_list_def)
    then have "xs \<noteq> [] \<Longrightarrow> last xs \<noteq> 0 \<and> last xs \<noteq> x" using assms(2) last_in_set by metis
    with q assms(3) show ?thesis
      by (cases "xs = []")
        (simp_all add: init_enqueue_def enqueue_def set_prev_def set_next_def Let_def queue_list_def fun_upd_twist update_queue_unassigned_def)
  qed
  have l: "queue_list (enqueue x q) (xs @ [x])"
    by (rule enqueue_list) (use assms in \<open>auto simp: queue_ok_def\<close>)
  have m: "map ((q_btab q)(x := q_stamp q + 1)) xs = map (q_btab q) xs" by (rule map_upd_notin [OF assms(2)])
  have b: "q_btab q y < q_stamp q + 1" if "y \<in> set xs" for y using assms(1) that by (fastforce simp: queue_ok_def)
  have "sorted_wrt (<) (map ((q_btab q)(x := q_stamp q + 1)) (xs @ [x]))"
    using assms(1) b by (simp add: sorted_wrt_append m queue_ok_def)
  with l b assms(2) show ?thesis
    unfolding e queue_ok_def by (fastforce intro: queue_list_cong less_imp_le)
qed

lemma init_enqueue_first_ok:
  assumes "queue_ok assigned q xs" and "x \<notin> set xs" and "x \<noteq> 0" and "\<And>y. y \<in> set xs \<Longrightarrow> \<not> assigned y"
    and "xs = [] \<Longrightarrow> q_unassigned q = 0 \<and> 0 \<le> q_stamp q"
  shows "queue_ok assigned (init_enqueue True x q) (x # xs)"
proof (cases xs)
  case Nil
  then have "q_first q = 0" "q_unassigned q = 0" using assms by (auto simp: queue_ok_def queue_list_def)
  with Nil assms(3,5) show ?thesis
    by (simp add: init_enqueue_def queue_ok_def queue_list_def set_prev_def set_next_def Let_def update_queue_unassigned_def)
next
  case (Cons f ys)
  have q: "queue_list q xs" and z: "f \<noteq> 0" "f \<noteq> x" using assms Cons by (auto simp: queue_ok_def queue_list_def)
  have u: "q_unassigned q \<in> set xs" using assms(1) Cons by (simp add: queue_ok_def)
  have "0 \<notin> set xs" using q by (simp add: queue_list_def)
  with u have u0: "q_unassigned q \<noteq> 0" "q_unassigned q \<noteq> x" using assms(2) by metis+
  let ?P = "(q_prev q)(x := 0)" and ?N = "(q_next q)(x := f)"
  have "dseg ?P ?N 0 xs 0 \<longleftrightarrow> dseg (q_prev q) (q_next q) 0 xs 0" by (rule dseg_cong) (use assms(2) in auto)
  then have "dseg ?P ?N 0 xs 0" using q by (simp add: queue_list_def)
  moreover have "dseg ?P ?N 0 [x] f" by simp
  ultimately have j: "dseg (?P(f := x)) (?N(x := f)) 0 ([x] @ xs) 0"
    using dseg_join [of ?P ?N 0 "[x]" f 0 xs 0] q assms(2) Cons by (auto simp: queue_list_def)
  let ?b = "(q_btab q)(x := q_btab q f - 1)"
  have e: "init_enqueue True x q = q\<lparr>q_prev := ?P(f := x), q_next := ?N, q_btab := ?b, q_first := x\<rparr>"
    using q Cons z u0 by (simp add: init_enqueue_def set_prev_def set_next_def Let_def queue_list_def)
  have m: "map ?b xs = map (q_btab q) xs" by (rule map_upd_notin [OF assms(2)])
  have lt: "?b x < q_btab q y" if "y \<in> set xs" for y
    using assms(1) that Cons by (fastforce simp: queue_ok_def)
  have "q_btab q f \<le> q_stamp q" "q_btab q f \<le> q_bumped q" using assms(1,4) Cons by (auto simp: queue_ok_def)
  then have "?b x \<le> q_stamp q" "?b x \<le> q_bumped q" by simp_all
  moreover have "sorted_wrt (<) (map ?b (x # xs))" using assms(1) lt by (simp add: m queue_ok_def)
  moreover have "queue_list (init_enqueue True x q) (x # xs)" using j q assms(2,3) Cons z unfolding e by (simp add: queue_list_def)
  ultimately show ?thesis
    using assms(1,2) u u0 Cons unfolding queue_ok_def by (auto simp: e)
qed

section \<open>The next decision\<close>

lemma queue_search_ok:
  assumes "queue_list q (us @ r # vs)" and "y \<in> set (us @ [r])" and "\<not> assigned y" and "length us \<le> fuel"
  shows "\<exists>us1 r' us2. queue_search fuel assigned r q = Inr r' \<and> us @ [r] = us1 @ r' # us2 \<and> \<not> assigned r'
    \<and> (\<forall>x \<in> set us2. assigned x)"
  using assms
proof (induction us arbitrary: r vs fuel rule: rev_induct)
  case Nil
  then have "queue_search fuel assigned r q = Inr r" by (simp add: queue_search.simps [of fuel])
  with Nil show ?case by (intro exI [of _ "[]"] exI [of _ r]) auto
next
  case (snoc p us)
  show ?case
  proof (cases "assigned r")
    case False
    then have "queue_search fuel assigned r q = Inr r" by (simp add: queue_search.simps [of fuel])
    with False show ?thesis by (intro exI [of _ "us @ [p]"] exI [of _ r] exI [of _ "[]"]) auto
  next
    case True
    then have y: "y \<in> set (us @ [p])" using snoc.prems(2,3) by auto
    obtain f where f: "fuel = Suc f" "length us \<le> f" using snoc.prems(4) by (cases fuel) auto
    have "q_prev q r = p" using queue_links(1) [OF snoc.prems(1)] by simp
    then have step: "queue_search fuel assigned r q = queue_search f assigned p q"
      using True unfolding f(1) by (simp add: queue_search.simps [of "Suc f"])
    have "queue_list q (us @ p # r # vs)" using snoc.prems(1) by simp
    from snoc.IH [OF this y snoc.prems(3) f(2)] obtain us1 r' us2 where
      r: "queue_search f assigned p q = Inr r'" "us @ [p] = us1 @ r' # us2" "\<not> assigned r'" "\<forall>x \<in> set us2. assigned x"
      by blast
    with True step show ?thesis by (intro exI [of _ us1] exI [of _ r'] exI [of _ "us2 @ [r]"]) auto
  qed
qed

text \<open>What the search leaves: the auxiliary variables it passes go to the end of the queue that is searched last.\<close>

lemma queue_search_aux_ok:
  assumes "queue_list q (ms @ us @ r # vs)" and "sorted_wrt (<) (map (q_btab q) (ms @ us @ r # vs))"
    and "y \<in> set (us @ [r])" and "\<not> assigned y" and "\<not> aux y" and "length us \<le> fuel"
  shows "\<exists>us1 r' us2 q'. queue_search_aux fuel assigned aux r q = Inr (r', q') \<and> us @ [r] = us1 @ r' # us2
    \<and> \<not> assigned r' \<and> \<not> aux r' \<and> (\<forall>x \<in> set us2. assigned x \<or> aux x)
    \<and> queue_list q' (filter aux us2 @ ms @ us1 @ r' # filter (\<lambda>x. \<not> aux x) us2 @ vs)
    \<and> sorted_wrt (<) (map (q_btab q') (filter aux us2 @ ms @ us1 @ r' # filter (\<lambda>x. \<not> aux x) us2 @ vs))
    \<and> (\<forall>x. x \<notin> set (filter aux us2) \<longrightarrow> q_btab q' x = q_btab q x)
    \<and> q_unassigned q' = q_unassigned q \<and> q_bumped q' = q_bumped q \<and> q_stamp q' = q_stamp q"
  using assms
proof (induction us arbitrary: r vs ms q fuel rule: rev_induct)
  case Nil
  then have "queue_search_aux fuel assigned aux r q = Inr (r, q)" by (simp add: queue_search_aux.simps [of fuel])
  with Nil show ?case by (intro exI [of _ "[]"] exI [of _ r] exI [of _ q]) auto
next
  case (snoc p us)
  show ?case
  proof (cases "assigned r \<or> aux r")
    case False
    then have "queue_search_aux fuel assigned aux r q = Inr (r, q)" by (simp add: queue_search_aux.simps [of fuel])
    with False snoc.prems show ?thesis
      by (intro exI [of _ "us @ [p]"] exI [of _ r] exI [of _ "[]"] exI [of _ q]) auto
  next
    case True
    then have y: "y \<in> set (us @ [p])" using snoc.prems(3,4,5) by auto
    obtain f where f: "fuel = Suc f" "length us \<le> f" using snoc.prems(6) by (cases fuel) auto
    have ql: "queue_list q ((ms @ us @ [p]) @ r # vs)" using snoc.prems(1) by simp
    have pr: "q_prev q r = p" using queue_links(1) [OF ql] by simp
    show ?thesis
    proof (cases "aux r")
      case False
      have step: "queue_search_aux fuel assigned aux r q = queue_search_aux f assigned aux p q"
        using True False pr unfolding f(1) by (simp add: queue_search_aux.simps [of "Suc f"])
      have "queue_list q (ms @ us @ p # r # vs)" "sorted_wrt (<) (map (q_btab q) (ms @ us @ p # r # vs))"
        using snoc.prems(1,2) by simp_all
      from snoc.IH [OF this y snoc.prems(4,5) f(2)] obtain us1 r' us2 q' where
        q': "queue_search_aux f assigned aux p q = Inr (r', q')" "us @ [p] = us1 @ r' # us2" "\<not> assigned r'" "\<not> aux r'"
          "\<forall>x \<in> set us2. assigned x \<or> aux x"
          "queue_list q' (filter aux us2 @ ms @ us1 @ r' # filter (\<lambda>x. \<not> aux x) us2 @ r # vs)"
          "sorted_wrt (<) (map (q_btab q') (filter aux us2 @ ms @ us1 @ r' # filter (\<lambda>x. \<not> aux x) us2 @ r # vs))"
          "\<forall>x. x \<notin> set (filter aux us2) \<longrightarrow> q_btab q' x = q_btab q x"
          "q_unassigned q' = q_unassigned q" "q_bumped q' = q_bumped q" "q_stamp q' = q_stamp q" by blast
      show ?thesis
        by (rule exI [of _ us1], rule exI [of _ r'], rule exI [of _ "us2 @ [r]"], rule exI [of _ q'])
          (use q' True False step in simp)
    next
      case ax: True
      let ?q = "move_to_back r q"
      have step: "queue_search_aux fuel assigned aux r q = queue_search_aux f assigned aux p ?q"
        using ax pr unfolding f(1) by (simp add: queue_search_aux.simps [of "Suc f"])
      have ne: "(ms @ us @ [p]) @ vs \<noteq> []" by simp
      note m = move_to_back_list [OF ql ne]
      let ?h = "hd ((ms @ us @ [p]) @ vs)"
      have r: "r \<notin> set ((ms @ us @ [p]) @ vs)" using snoc.prems(1) by (auto simp: queue_list_def)
      have l1: "queue_list ?q ((r # ms) @ us @ p # vs)" using m(1) by simp
      have mp: "map (q_btab ?q) ((ms @ us @ [p]) @ vs) = map (q_btab q) ((ms @ us @ [p]) @ vs)"
        unfolding m(2) by (rule map_upd_notin [OF r])
      have so: "sorted_wrt (<) (map (q_btab q) ((ms @ us @ [p]) @ vs))"
        using snoc.prems(2) by (auto simp: sorted_wrt_append)
      have "q_btab ?q r < q_btab q x" if "x \<in> set ((ms @ us @ [p]) @ vs)" for x
      proof -
        obtain z zs where z: "(ms @ us @ [p]) @ vs = z # zs" using ne by (cases "(ms @ us @ [p]) @ vs") auto
        show ?thesis using that so unfolding z m(2) by auto
      qed
      then have "\<forall>b \<in> set (map (q_btab q) ((ms @ us @ [p]) @ vs)). q_btab ?q r < b" by auto
      with so have "sorted_wrt (<) (map (q_btab ?q) (r # (ms @ us @ [p]) @ vs))"
        unfolding list.map mp by (simp only: sorted_wrt.simps)
      then have s1: "sorted_wrt (<) (map (q_btab ?q) ((r # ms) @ us @ p # vs))" by simp
      have fl: "q_unassigned ?q = q_unassigned q" "q_bumped ?q = q_bumped q" "q_stamp ?q = q_stamp q"
        by (simp_all add: move_to_back_def set_prev_def set_next_def Let_def dequeue_fields [OF ql])
      from snoc.IH [OF l1 s1 y snoc.prems(4,5) f(2)] obtain us1 r' us2 q' where
        q': "queue_search_aux f assigned aux p ?q = Inr (r', q')" "us @ [p] = us1 @ r' # us2" "\<not> assigned r'" "\<not> aux r'"
          "\<forall>x \<in> set us2. assigned x \<or> aux x"
          "queue_list q' (filter aux us2 @ (r # ms) @ us1 @ r' # filter (\<lambda>x. \<not> aux x) us2 @ vs)"
          "sorted_wrt (<) (map (q_btab q') (filter aux us2 @ (r # ms) @ us1 @ r' # filter (\<lambda>x. \<not> aux x) us2 @ vs))"
          "\<forall>x. x \<notin> set (filter aux us2) \<longrightarrow> q_btab q' x = q_btab ?q x"
          "q_unassigned q' = q_unassigned ?q" "q_bumped q' = q_bumped ?q" "q_stamp q' = q_stamp ?q" by blast
      have bt: "\<forall>x. x \<notin> set (filter aux (us2 @ [r])) \<longrightarrow> q_btab q' x = q_btab q x"
        using q'(8) ax by (auto simp: m(2))
      show ?thesis
        by (rule exI [of _ us1], rule exI [of _ r'], rule exI [of _ "us2 @ [r]"], rule exI [of _ q'])
          (use q' bt ax step fl in simp)
    qed
  qed
qed

lemma stamp_before:
  assumes "sorted_wrt (<) (map (f :: nat \<Rightarrow> int) (us @ r # vs))" and "y \<in> set (us @ r # vs)" and "y \<notin> set vs"
  shows "f y \<le> f r"
  using assms by (auto simp: sorted_wrt_append less_imp_le)

text \<open>Behind the pointer everything is assigned.\<close>

lemma behind_pointer:
  assumes "queue_ok assigned q xs" and "xs = us @ q_unassigned q # vs" and "x \<in> set vs"
  shows "assigned x"
proof (rule ccontr)
  assume "\<not> assigned x"
  then have "q_btab q x \<le> q_btab q (q_unassigned q)" using assms by (fastforce simp: queue_ok_def)
  moreover have "q_btab q (q_unassigned q) < q_btab q x" using assms by (auto simp: queue_ok_def sorted_wrt_append)
  ultimately show False by simp
qed

lemma next_on_queue_ok:
  assumes "queue_ok assigned q xs" and "y \<in> set xs" and "\<not> assigned y" and "length xs \<le> fuel"
  shows "\<exists>r q'. next_on_queue fuel assigned q = Inr (r, q') \<and> r \<in> set xs \<and> \<not> assigned r
    \<and> (\<forall>x \<in> set xs. \<not> assigned x \<longrightarrow> q_btab q x \<le> q_btab q r) \<and> queue_ok assigned q' xs"
proof -
  let ?p = "q_unassigned q"
  have ql: "queue_list q xs" and so: "sorted_wrt (<) (map (q_btab q) xs)" and p: "?p \<in> set xs"
    using assms(1,2) by (auto simp: queue_ok_def)
  obtain us vs where xs: "xs = us @ ?p # vs" using split_list [OF p] by blast
  have "y \<notin> set vs" using behind_pointer [OF assms(1) xs] assms(3) by blast
  then have y: "y \<in> set (us @ [?p])" using assms(2) xs by auto
  have "length us \<le> fuel" using assms(4) arg_cong [OF xs, of length] by simp
  from queue_search_ok [where us = us and r = ?p and vs = vs and q = q and y = y and assigned = assigned, OF _ y assms(3) this] ql xs obtain us1 r us2 where
    r: "queue_search fuel assigned ?p q = Inr r" "us @ [?p] = us1 @ r # us2" "\<not> assigned r" "\<forall>x \<in> set us2. assigned x"
    by metis
  have xs': "xs = us1 @ r # us2 @ vs" using xs r(2) by (metis append.assoc append_Cons append_Nil)
  have max: "q_btab q x \<le> q_btab q r" if "x \<in> set xs" "\<not> assigned x" for x
  proof (rule stamp_before)
    show "sorted_wrt (<) (map (q_btab q) (us1 @ r # us2 @ vs))" "x \<in> set (us1 @ r # us2 @ vs)" using so that(1) xs' by auto
    show "x \<notin> set (us2 @ vs)" using that(2) r(4) behind_pointer [OF assms(1) xs] by auto
  qed
  have "queue_ok assigned (if assigned ?p then update_queue_unassigned r q else q) xs"
    using assms(1) max xs' by (auto simp: queue_ok_def)
  with r xs' max show ?thesis by (intro exI [of _ r]) (auto simp: next_on_queue_def)
qed

text \<open>C9. The decision taken from the queue is the unassigned variable bumped last; the search ends
within the length of the queue, and the queue stays in order.\<close>

theorem next_on_queue_picks_last_bumped:
  assumes "queue_ok assigned q xs" and "y \<in> set xs" and "\<not> assigned y" and "length xs \<le> fuel"
  shows "\<exists>r q'. next_on_queue fuel assigned q = Inr (r, q') \<and> r \<in> set xs \<and> \<not> assigned r
    \<and> (\<forall>x \<in> set xs. \<not> assigned x \<longrightarrow> q_btab q x \<le> q_btab q r) \<and> queue_ok assigned q' xs"
  using assms by (rule next_on_queue_ok)

lemma next_on_queue_aux_ok:
  assumes "queue_ok assigned q xs" and "y \<in> set xs" and "\<not> assigned y" and "\<not> aux y" and "length xs \<le> fuel"
  shows "\<exists>r q' xs'. next_on_queue_aux fuel assigned aux q = Inr (r, q') \<and> r \<in> set xs \<and> \<not> assigned r \<and> \<not> aux r
    \<and> (\<forall>x \<in> set xs. \<not> assigned x \<longrightarrow> \<not> aux x \<longrightarrow> q_btab q x \<le> q_btab q r)
    \<and> queue_ok assigned q' xs' \<and> set xs' = set xs
    \<and> filter (\<lambda>x. \<not> aux x) xs' = filter (\<lambda>x. \<not> aux x) xs"
proof -
  let ?p = "q_unassigned q"
  have ql: "queue_list q xs" and so: "sorted_wrt (<) (map (q_btab q) xs)" and p: "?p \<in> set xs"
    using assms(1,2) by (auto simp: queue_ok_def)
  obtain us vs where xs: "xs = us @ ?p # vs" using split_list [OF p] by blast
  have vs: "\<And>x. x \<in> set vs \<Longrightarrow> assigned x" using behind_pointer [OF assms(1) xs] by blast
  then have y: "y \<in> set (us @ [?p])" using assms(2,3) xs by (metis Un_iff append.assoc append_Cons append_Nil set_append)
  have len: "length us \<le> fuel" using assms(5) arg_cong [OF xs, of length] by simp
  have "queue_list q ([] @ us @ ?p # vs)" "sorted_wrt (<) (map (q_btab q) ([] @ us @ ?p # vs))" using ql so xs by simp_all
  from queue_search_aux_ok [where ms = "[]" and us = us and r = ?p and vs = vs and y = y and assigned = assigned and aux = aux, OF this y assms(3,4) len] obtain us1 r us2 q' where
    r: "queue_search_aux fuel assigned aux ?p q = Inr (r, q')" "us @ [?p] = us1 @ r # us2" "\<not> assigned r" "\<not> aux r"
      "\<forall>x \<in> set us2. assigned x \<or> aux x"
    and l: "queue_list q' (filter aux us2 @ [] @ us1 @ r # filter (\<lambda>x. \<not> aux x) us2 @ vs)"
      "sorted_wrt (<) (map (q_btab q') (filter aux us2 @ [] @ us1 @ r # filter (\<lambda>x. \<not> aux x) us2 @ vs))"
      "\<forall>x. x \<notin> set (filter aux us2) \<longrightarrow> q_btab q' x = q_btab q x"
      "q_unassigned q' = ?p" "q_bumped q' = q_bumped q" "q_stamp q' = q_stamp q" by blast
  let ?xs = "(filter aux us2 @ us1) @ r # (filter (\<lambda>x. \<not> aux x) us2 @ vs)"
  have xs': "xs = us1 @ r # us2 @ vs" using xs r(2) by (metis append.assoc append_Cons append_Nil)
  have set: "set ?xs = set xs" unfolding xs' by auto
  have last: "assigned x" if "x \<in> set (filter (\<lambda>x. \<not> aux x) us2 @ vs)" for x using that r(5) vs by auto
  have r': "q_btab q' r = q_btab q r" using l(3) r(4) by simp
  have max: "q_btab q x \<le> q_btab q r" if "x \<in> set xs" "\<not> assigned x" "\<not> aux x" for x
    by (rule stamp_before [of "q_btab q" us1 r "us2 @ vs"]) (use so that r(5) vs xs' in auto)
  have max': "q_btab q' x \<le> q_btab q' r" if "x \<in> set ?xs" "\<not> assigned x" for x
    by (rule stamp_before [of "q_btab q'" "filter aux us2 @ us1" r "filter (\<lambda>x. \<not> aux x) us2 @ vs"])
      (use l(2) that last in auto)
  have st: "q_btab q' x \<le> q_stamp q'" if "x \<in> set ?xs" for x
  proof (cases "x \<in> set (filter aux us2)")
    case True
    then have "q_btab q' x \<le> q_btab q' r" using l(2) by (auto simp: sorted_wrt_append intro: less_imp_le)
    also have "\<dots> \<le> q_stamp q'" using r' assms(1) xs' l(6) by (auto simp: queue_ok_def)
    finally show ?thesis .
  next
    case False
    then have "q_btab q' x = q_btab q x" using l(3) by blast
    moreover have "x \<in> set xs" using that set by blast
    ultimately show ?thesis using assms(1) l(6) by (simp add: queue_ok_def)
  qed
  let ?q = "if assigned ?p \<or> aux ?p then update_queue_unassigned r q' else q'"
  have run: "next_on_queue_aux fuel assigned aux q = Inr (r, ?q)" using r(1) by (simp add: next_on_queue_aux_def)
  have "queue_ok assigned ?q ?xs"
  proof (cases "assigned ?p \<or> aux ?p")
    case True
    have m: "\<forall>x \<in> set ?xs. q_btab q' x \<le> q_stamp q' \<and> (\<not> assigned x \<longrightarrow> q_btab q' x \<le> q_btab q' r)"
      using max' st by blast
    have "r \<in> set ?xs" by simp
    with True l(1,2) m show ?thesis by (simp add: queue_ok_def)
  next
    case False
    then have "queue_search_aux fuel assigned aux ?p q = Inr (?p, q)" by (simp add: queue_search_aux.simps [of fuel])
    then have e: "r = ?p" "q' = q" using r(1) by auto
    have "distinct (us1 @ r # us2 @ vs)" using ql xs' by (simp add: queue_list_def)
    moreover have "us2 = []"
    proof (rule ccontr)
      assume "us2 \<noteq> []"
      then have "last (us @ [?p]) \<in> set us2" by (simp add: r(2))
      with e calculation show False by simp
    qed
    ultimately show ?thesis using False assms(1) xs' e by simp
  qed
  moreover have "filter (\<lambda>x. \<not> aux x) ?xs = filter (\<lambda>x. \<not> aux x) xs"
  proof -
    have "filter (\<lambda>x. \<not> aux x) (filter aux us2) = []" by (simp add: filter_empty_conv)
    then show ?thesis by (simp add: xs')
  qed
  ultimately show ?thesis using run r xs' max set by (intro exI [of _ r] exI [of _ ?q] exI [of _ ?xs]) auto
qed

text \<open>C34. With BRANCHAUX the decision is the non-auxiliary unassigned variable bumped last; the queue
keeps its variables, its order on the non-auxiliary ones, and its invariant.\<close>

theorem next_on_queue_aux_skips_aux:
  assumes "queue_ok assigned q xs" and "y \<in> set xs" and "\<not> assigned y" and "\<not> aux y" and "length xs \<le> fuel"
  shows "\<exists>r q' xs'. next_on_queue_aux fuel assigned aux q = Inr (r, q') \<and> r \<in> set xs \<and> \<not> assigned r \<and> \<not> aux r
    \<and> (\<forall>x \<in> set xs. \<not> assigned x \<longrightarrow> \<not> aux x \<longrightarrow> q_btab q x \<le> q_btab q r)
    \<and> queue_ok assigned q' xs' \<and> set xs' = set xs
    \<and> filter (\<lambda>x. \<not> aux x) xs' = filter (\<lambda>x. \<not> aux x) xs"
  using assms by (rule next_on_queue_aux_ok)

text \<open>A queue for the witnesses: variables 1 to 4, the pointer on 4; 2 and 3 are auxiliary.\<close>

definition demo_queue :: vmtf where
  "demo_queue = init_queue False 0 4 queue_empty"

lemma demo_queue_ok: "queue_ok assigned demo_queue [1, 2, 3, 4]"
proof -
  have q1: "queue_ok assigned (init_enqueue False 1 queue_empty) ([] @ [1])"
    by (rule init_enqueue_last_ok [OF queue_empty_ok]) simp_all
  have q2: "queue_ok assigned (init_enqueue False 2 (init_enqueue False 1 queue_empty)) (([] @ [1]) @ [2])"
    by (rule init_enqueue_last_ok [OF q1]) simp_all
  have q3: "queue_ok assigned (init_enqueue False 3 (init_enqueue False 2 (init_enqueue False 1 queue_empty))) ((([] @ [1]) @ [2]) @ [3])"
    by (rule init_enqueue_last_ok [OF q2]) simp_all
  have "queue_ok assigned (init_enqueue False 4 (init_enqueue False 3 (init_enqueue False 2 (init_enqueue False 1 queue_empty))))
      (((([] @ [1]) @ [2]) @ [3]) @ [4])"
    by (rule init_enqueue_last_ok [OF q3]) simp_all
  then show ?thesis by (simp add: demo_queue_def init_queue_def numeral_eq_Suc)
qed

theorem next_on_queue_picks_last_bumped_witness:
  "\<exists>r q'. next_on_queue 4 (\<lambda>x. 3 \<le> x) demo_queue = Inr (r, q') \<and> r \<in> set [1, 2, 3, 4] \<and> \<not> 3 \<le> r
    \<and> (\<forall>x \<in> set [1, 2, 3, 4]. \<not> 3 \<le> x \<longrightarrow> q_btab demo_queue x \<le> q_btab demo_queue r)
    \<and> queue_ok (\<lambda>x. 3 \<le> x) q' [1, 2, 3, 4]"
  by (rule next_on_queue_picks_last_bumped [OF demo_queue_ok, where y = 1]) simp_all

theorem next_on_queue_aux_skips_aux_witness:
  "\<exists>r q' xs'. next_on_queue_aux 4 (\<lambda>x. x = 4) (\<lambda>x. x \<in> {2, 3}) demo_queue = Inr (r, q') \<and> r \<in> set [1, 2, 3, 4]
    \<and> \<not> r = 4 \<and> \<not> r \<in> {2, 3}
    \<and> (\<forall>x \<in> set [1, 2, 3, 4]. \<not> x = 4 \<longrightarrow> \<not> x \<in> {2, 3} \<longrightarrow> q_btab demo_queue x \<le> q_btab demo_queue r)
    \<and> queue_ok (\<lambda>x. x = 4) q' xs' \<and> set xs' = set [1, 2, 3, 4]
    \<and> filter (\<lambda>x. \<not> x \<in> {2, 3}) xs' = filter (\<lambda>x. \<not> x \<in> {2, 3}) [1, 2, 3, 4]"
  by (rule next_on_queue_aux_skips_aux [OF demo_queue_ok, where y = 1]) simp_all

section \<open>When only auxiliary variables are left\<close>

lemma queue_search_aux_loops:
  assumes "queue_list q (us @ r # vs)" and "2 \<le> length (filter aux (us @ [r]))"
    and "\<And>x. x \<in> set (us @ [r]) \<Longrightarrow> assigned x \<or> aux x"
  shows "queue_search_aux fuel assigned aux r q = Inl OutOfFuel"
  using assms
proof (induction fuel arbitrary: us r vs q)
  case 0
  then show ?case by (simp add: queue_search_aux.simps [of 0])
next
  case (Suc fuel)
  have "us \<noteq> []"
  proof
    assume "us = []"
    then have "length (filter aux (us @ [r])) \<le> 1" by simp
    with Suc.prems(2) show False by simp
  qed
  then obtain ts p where us: "us = ts @ [p]" by (metis append_butlast_last_id)
  have pr: "q_prev q r = p" using queue_links(1) [OF Suc.prems(1)] by (simp add: us)
  have step: "queue_search_aux (Suc fuel) assigned aux r q =
      queue_search_aux fuel assigned aux p (if aux r then move_to_back r q else q)"
    using Suc.prems(3) [of r] pr by (simp add: queue_search_aux.simps [of "Suc fuel"])
  show ?case
  proof (cases "aux r")
    case True
    have "queue_list (move_to_back r q) ((r # ts) @ p # vs)"
      using move_to_back_list(1) [OF Suc.prems(1)] by (simp add: us)
    moreover have "2 \<le> length (filter aux ((r # ts) @ [p]))" using Suc.prems(2) True by (simp add: us split: if_splits)
    moreover have "\<And>x. x \<in> set ((r # ts) @ [p]) \<Longrightarrow> assigned x \<or> aux x" using Suc.prems(3) by (auto simp: us)
    ultimately have "queue_search_aux fuel assigned aux p (move_to_back r q) = Inl OutOfFuel" by (rule Suc.IH)
    with step True show ?thesis by simp
  next
    case False
    have "queue_list q (ts @ p # r # vs)" using Suc.prems(1) by (simp add: us)
    moreover have "2 \<le> length (filter aux (ts @ [p]))" using Suc.prems(2) False by (simp add: us split: if_splits)
    moreover have "\<And>x. x \<in> set (ts @ [p]) \<Longrightarrow> assigned x \<or> aux x" using Suc.prems(3) by (auto simp: us)
    ultimately have "queue_search_aux fuel assigned aux p q = Inl OutOfFuel" by (rule Suc.IH)
    with step False show ?thesis by simp
  qed
qed

lemma next_on_queue_aux_loops:
  assumes "queue_list q (us @ q_unassigned q # vs)" and "2 \<le> length (filter aux (us @ [q_unassigned q]))"
    and "\<And>x. x \<in> set (us @ [q_unassigned q]) \<Longrightarrow> assigned x \<or> aux x"
  shows "\<forall>fuel. next_on_queue_aux fuel assigned aux q = Inl OutOfFuel"
proof
  fix fuel
  have "queue_search_aux fuel assigned aux (q_unassigned q) q = Inl OutOfFuel"
    by (rule queue_search_aux_loops [OF assms(1,2)]) (rule assms(3))
  then show "next_on_queue_aux fuel assigned aux q = Inl OutOfFuel" by (simp add: next_on_queue_aux_def)
qed

section \<open>Shuffling\<close>

lemma queue_backward_ok:
  "queue_list q (us @ vs) \<Longrightarrow> length us \<le> fuel \<Longrightarrow> queue_backward fuel q (last (0 # us)) = Inr (rev us)"
proof (induction us arbitrary: vs fuel rule: rev_induct)
  case Nil
  then show ?case by (simp add: queue_backward.simps [of fuel])
next
  case (snoc x us)
  obtain f where f: "fuel = Suc f" "length us \<le> f" using snoc.prems(2) by (cases fuel) auto
  have l: "queue_list q (us @ x # vs)" using snoc.prems(1) by simp
  have "q_prev q x = last (0 # us)" by (rule queue_links(1) [OF l])
  moreover have "x \<noteq> 0" using l by (auto simp: queue_list_def)
  ultimately show ?case using snoc.IH [OF l f(2)] by (simp add: f(1) queue_backward.simps [of "Suc f"])
qed

lemma fold_enqueue_list:
  "queue_list q xs \<Longrightarrow> distinct (xs @ ys) \<Longrightarrow> 0 \<notin> set ys \<Longrightarrow> queue_list (fold enqueue ys q) (xs @ ys)
    \<and> q_btab (fold enqueue ys q) = q_btab q \<and> q_bumped (fold enqueue ys q) = q_bumped q \<and> q_stamp (fold enqueue ys q) = q_stamp q"
proof (induction ys arbitrary: xs q)
  case (Cons y ys)
  have "queue_list (enqueue y q) (xs @ [y])" by (rule enqueue_list) (use Cons.prems in auto)
  from Cons.IH [OF this] Cons.prems show ?case by simp
qed simp

lemma restamp_fields [simp]:
  "q_prev (restamp vs b q) = q_prev q" "q_next (restamp vs b q) = q_next q" "q_first (restamp vs b q) = q_first q"
  "q_last (restamp vs b q) = q_last q" "q_bumped (restamp vs b q) = q_bumped q" "q_stamp (restamp vs b q) = q_stamp q"
  by (induction vs b q rule: restamp.induct) simp_all

lemma restamp_btab:
  "distinct vs \<Longrightarrow> sorted_wrt (>) (map (q_btab (restamp vs b q)) vs) \<and> (\<forall>v \<in> set vs. q_btab (restamp vs b q) v \<le> b)
    \<and> (vs \<noteq> [] \<longrightarrow> q_btab (restamp vs b q) (hd vs) = b) \<and> (\<forall>v. v \<notin> set vs \<longrightarrow> q_btab (restamp vs b q) v = q_btab q v)"
proof (induction vs b q rule: restamp.induct)
  case (2 v vs b q)
  then have IH: "sorted_wrt (>) (map (q_btab (restamp vs (b - 1) (q\<lparr>q_btab := (q_btab q)(v := b)\<rparr>))) vs)"
    "\<forall>w \<in> set vs. q_btab (restamp vs (b - 1) (q\<lparr>q_btab := (q_btab q)(v := b)\<rparr>)) w \<le> b - 1"
    "\<forall>w. w \<notin> set vs \<longrightarrow> q_btab (restamp vs (b - 1) (q\<lparr>q_btab := (q_btab q)(v := b)\<rparr>)) w = ((q_btab q)(v := b)) w"
    by auto
  then have "q_btab (restamp (v # vs) b q) v = b" using 2 by simp
  with IH show ?case by fastforce
qed simp

lemma restamp_all:
  assumes l: "queue_list q ys" and "\<not> ys = []" and "q_bumped q \<le> q_stamp q"
  shows "queue_ok assigned ((restamp (rev ys) (q_bumped q) q)\<lparr>q_unassigned := q_last q\<rparr>) ys"
proof -
  let ?r = "restamp (rev ys) (q_bumped q) q"
  have d: "distinct (rev ys)" using l by (simp add: queue_list_def)
  note b = restamp_btab [OF d, of "q_bumped q" q]
  have "sorted_wrt (<) (map (q_btab ?r) ys)"
    using b unfolding rev_map [symmetric] sorted_wrt_rev by simp
  moreover have "q_btab ?r x \<le> q_bumped q" if "x \<in> set ys" for x using b that by simp
  moreover have "q_last q = last ys" "last ys \<in> set ys" "hd (rev ys) = last ys"
    using l assms(2) by (auto simp: queue_list_def hd_rev)
  moreover have "q_btab ?r (hd (rev ys)) = q_bumped q" using b assms(2) by simp
  moreover have "queue_list ?r ys" by (rule queue_list_cong [OF l]) simp_all
  ultimately show ?thesis using assms(3) by (fastforce simp: queue_ok_def intro: queue_list_cong)
qed

lemma shuffle_core:
  assumes "queue_ok assigned q xs" and "mset ys = mset xs" and "xs \<noteq> []" and "length xs \<le> fuel"
  shows "\<exists>q'. bind_res (queue_backward fuel (fold enqueue ys (q\<lparr>q_first := 0, q_last := 0\<rparr>))
      (q_last (fold enqueue ys (q\<lparr>q_first := 0, q_last := 0\<rparr>)))) (\<lambda>vs.
      let r = restamp vs (q_bumped (fold enqueue ys (q\<lparr>q_first := 0, q_last := 0\<rparr>))) (fold enqueue ys (q\<lparr>q_first := 0, q_last := 0\<rparr>)) in
      Inr (r\<lparr>q_unassigned := q_last r\<rparr>)) = Inr q' \<and> queue_ok assigned q' ys"
proof -
  let ?empty = "q\<lparr>q_first := 0, q_last := 0\<rparr>"
  let ?q = "fold enqueue ys ?empty"
  have q: "queue_list q xs" and b: "q_bumped q \<le> q_stamp q"
    using assms(1,3) by (auto simp: queue_ok_def intro: order_trans)
  have "distinct ys \<longleftrightarrow> distinct xs" using assms(2) by (rule mset_eq_imp_distinct_iff)
  moreover have "set ys = set xs" "length ys = length xs" using assms(2) by (auto dest: mset_eq_setD mset_eq_length)
  moreover have "ys \<noteq> []" using assms(2,3) by auto
  ultimately have "distinct ys \<longleftrightarrow> distinct xs" "set ys = set xs" "length ys = length xs" "ys \<noteq> []" by blast+
  then have ys: "distinct ys" "0 \<notin> set ys" "length ys \<le> fuel" "ys \<noteq> []" using q assms(4) by (auto simp: queue_list_def)
  have "queue_list ?empty []" by (simp add: queue_list_def)
  from fold_enqueue_list [OF this _ ys(2)] ys(1)
  have f: "queue_list ?q ys" "q_bumped ?q = q_bumped q" "q_stamp ?q = q_stamp q" by simp_all
  have "q_last ?q = last (0 # ys)" using f(1) by (simp add: queue_list_def)
  with queue_backward_ok [of ?q ys "[]" fuel] f(1) ys(3) have "queue_backward fuel ?q (q_last ?q) = Inr (rev ys)" by simp
  moreover have "q_bumped ?q \<le> q_stamp ?q" using b f by simp
  from restamp_all [OF f(1) ys(4) this] have "queue_ok assigned ((restamp (rev ys) (q_bumped ?q) ?q)\<lparr>q_unassigned := q_last ?q\<rparr>) ys" .
  ultimately show ?thesis by (simp add: Let_def)
qed

lemma shuffle_swaps_mset:
  "(\<And>k. k < length js \<Longrightarrow> i + k < length xs \<and> js ! k < length xs) \<Longrightarrow> mset (shuffle_swaps i js xs) = mset xs"
proof (induction i js xs rule: shuffle_swaps.induct)
  case (2 i j js xs)
  have "i < length xs" "j < length xs" using "2.prems" [of 0] by simp_all
  then have "mset (xs[i := xs ! j, j := xs ! i]) = mset xs" by (simp add: mset_swap)
  moreover have "i + 1 + k < length (xs[i := xs ! j, j := xs ! i]) \<and> js ! k < length (xs[i := xs ! j, j := xs ! i])"
    if "k < length js" for k using "2.prems" [of "Suc k"] that by simp
  ultimately show ?case using "2.IH" by simp
qed simp

lemma shuffle_queue_ok:
  assumes "queue_ok assigned q xs" and "mset xs = mset [1 ..< max_var + 1]" and "0 < max_var" and "max_var \<le> fuel"
    and "\<And>js k. picks = Some js \<Longrightarrow> k < length js \<Longrightarrow> k < max_var \<and> js ! k < max_var"
  shows "\<exists>q' ys. shuffle_queue fuel picks max_var q = Inr q' \<and> queue_ok assigned q' ys \<and> mset ys = mset xs
    \<and> (picks = None \<longrightarrow> ys = rev xs)"
proof -
  have len: "length xs = max_var" using arg_cong [OF assms(2), of size] by simp
  then have ne: "xs \<noteq> []" "length xs \<le> fuel" using assms(3,4) by auto
  have q: "queue_list q xs" using assms(1) by (simp add: queue_ok_def)
  show ?thesis
  proof (cases picks)
    case None
    have "queue_backward fuel q (q_last q) = Inr (rev xs)"
      using queue_backward_ok [of q xs "[]" fuel] q ne(2) by (simp add: queue_list_def)
    with None shuffle_core [OF assms(1) _ ne, of "rev xs"] show ?thesis by (auto simp: shuffle_queue_def Let_def)
  next
    case (Some js)
    let ?ys = "shuffle_swaps 0 js (rev [1 ..< max_var + 1])"
    have "mset ?ys = mset (rev [1 ..< max_var + 1])"
      using assms(5) [OF Some] by (intro shuffle_swaps_mset) (simp del: upt_Suc)
    then have "mset ?ys = mset xs" using assms(2) by simp
    with Some shuffle_core [OF assms(1) this ne] show ?thesis by (auto simp: shuffle_queue_def Let_def simp del: upt_Suc)
  qed
qed

text \<open>Shuffling keeps the variables and the invariant of the queue: without random picks it reverses
the queue, with picks in range it is the permutation they describe.\<close>

theorem shuffle_queue_permutes:
  assumes "queue_ok assigned q xs" and "mset xs = mset [1 ..< max_var + 1]" and "0 < max_var" and "max_var \<le> fuel"
    and "\<And>js k. picks = Some js \<Longrightarrow> k < length js \<Longrightarrow> k < max_var \<and> js ! k < max_var"
  shows "\<exists>q' ys. shuffle_queue fuel picks max_var q = Inr q' \<and> queue_ok assigned q' ys \<and> mset ys = mset xs
    \<and> (picks = None \<longrightarrow> ys = rev xs)"
  using assms by (rule shuffle_queue_ok)

theorem shuffle_queue_permutes_witness:
  "\<exists>q' ys. shuffle_queue 4 (Some [3, 1]) 4 demo_queue = Inr q' \<and> queue_ok (\<lambda>_. False) q' ys \<and> mset ys = mset [1, 2, 3, 4]
    \<and> (Some [3 :: nat, 1] = None \<longrightarrow> ys = rev [1, 2, 3, 4])"
proof (rule shuffle_queue_permutes [OF demo_queue_ok])
  show "mset [1, 2, 3, 4] = mset [1 ..< 4 + 1]" by (simp add: numeral_eq_Suc)
  show "k < 4 \<and> js ! k < 4" if "Some [3 :: nat, 1] = Some js" "k < length js" for js k
    using that by (auto simp: less_Suc_eq)
qed simp_all

section \<open>The queue in the search\<close>

text \<open>
  What the solver does with the queue of \<open>n\<close> variables: a variable becomes assigned or unassigned,
  is bumped, a decision is searched with or without \<open>BRANCHAUX\<close>, the queue is reversed.
  All \<open>n\<close> variables are there from the start; the random shuffle of the queue is not a step.
\<close>

inductive queue_reach :: "nat \<Rightarrow> (nat \<Rightarrow> bool) \<Rightarrow> (nat \<Rightarrow> bool) \<Rightarrow> vmtf \<Rightarrow> bool" for n aux where
  reach_init: "queue_reach n aux (\<lambda>_. False) (init_queue rev_order 0 n queue_empty)"
| reach_assign: "queue_reach n aux a q \<Longrightarrow> queue_reach n aux (a(x := True)) q"
| reach_unassign: "queue_reach n aux a q \<Longrightarrow> 0 < x \<Longrightarrow> x \<le> n \<Longrightarrow> queue_reach n aux (a(x := False)) (queue_unassign x q)"
| reach_bump: "queue_reach n aux a q \<Longrightarrow> 0 < x \<Longrightarrow> x \<le> n \<Longrightarrow> queue_reach n aux a (bump_queue a x q)"
| reach_decide: "queue_reach n aux a q \<Longrightarrow> 0 < y \<Longrightarrow> y \<le> n \<Longrightarrow> \<not> a y
    \<Longrightarrow> next_on_queue n a q = Inr (r, q') \<Longrightarrow> queue_reach n aux a q'"
| reach_decide_aux: "queue_reach n aux a q \<Longrightarrow> 0 < y \<Longrightarrow> y \<le> n \<Longrightarrow> \<not> a y \<Longrightarrow> \<not> aux y
    \<Longrightarrow> next_on_queue_aux n a aux q = Inr (r, q') \<Longrightarrow> queue_reach n aux a q'"
| reach_shuffle: "queue_reach n aux a q \<Longrightarrow> 0 < n \<Longrightarrow> shuffle_queue n None n q = Inr q' \<Longrightarrow> queue_reach n aux a q'"

lemma init_queue_steps:
  "queue_ok (\<lambda>_. False) q xs \<Longrightarrow> (xs = [] \<Longrightarrow> q_unassigned q = 0 \<and> 0 \<le> q_stamp q) \<Longrightarrow> mset xs = mset [1 ..< m + 1]
    \<Longrightarrow> \<exists>ys. queue_ok (\<lambda>_. False) (init_queue b m (m + k) q) ys \<and> mset ys = mset [1 ..< m + k + 1]"
proof (induction k arbitrary: q xs m)
  case 0
  then show ?case by (auto simp: init_queue_def)
next
  case (Suc k)
  have x: "Suc m \<notin> set xs"
  proof -
    have "set xs = set [1 ..< m + 1]" using Suc.prems(3) by (rule mset_eq_setD)
    then show ?thesis by (simp del: upt_Suc)
  qed
  let ?q = "init_enqueue b (m + 1) q"
  obtain zs where z: "queue_ok (\<lambda>_. False) ?q zs" "mset zs = add_mset (m + 1) (mset xs)"
  proof (cases b)
    case True
    with init_enqueue_first_ok [OF Suc.prems(1) x _ _ Suc.prems(2)] that [of "(m + 1) # xs"] show ?thesis by simp
  next
    case False
    with init_enqueue_last_ok [OF Suc.prems(1) x] that [of "xs @ [m + 1]"] show ?thesis by simp
  qed
  have "mset zs = mset [1 ..< m + 1 + 1]" using z(2) Suc.prems(3) by simp
  from Suc.IH [OF z(1) _ this] z(2) obtain ys where
    "queue_ok (\<lambda>_. False) (init_queue b (m + 1) (m + 1 + k) ?q) ys" "mset ys = mset [1 ..< m + 1 + k + 1]" by force
  moreover have "init_queue b m (m + Suc k) q = init_queue b (m + 1) (m + 1 + k) ?q"
    by (simp add: init_queue_def upt_conv_Cons del: upt_Suc)
  ultimately show ?case by (auto simp del: upt_Suc)
qed

lemma all_vars:
  assumes "mset xs = mset [1 ..< n + 1]"
  shows "0 < x \<Longrightarrow> x \<le> n \<Longrightarrow> x \<in> set xs" and "length xs = n"
proof -
  have "set xs = {1 ..< n + 1}" using mset_eq_setD [OF assms] by (simp del: upt_Suc)
  then show "0 < x \<Longrightarrow> x \<le> n \<Longrightarrow> x \<in> set xs" by auto
  show "length xs = n" using mset_eq_length [OF assms] by (simp del: upt_Suc)
qed

text \<open>C35. However the search uses it, the queue stays a list of all its variables with ascending stamps,
and no unassigned variable is behind the pointer; so a decision is found as long as one is unassigned.\<close>

theorem queue_reach_ok:
  assumes "queue_reach n aux a q"
  shows "\<exists>xs. queue_ok a q xs \<and> mset xs = mset [1 ..< n + 1]"
  using assms
proof induction
  case (reach_init rev_order)
  have "queue_ok (\<lambda>_. False) queue_empty []" by (rule queue_empty_ok)
  from init_queue_steps [OF this, of 0 rev_order n] show ?case by (simp add: queue_empty_def del: upt_Suc)
next
  case (reach_assign a q x)
  then obtain xs where xs: "queue_ok a q xs" "mset xs = mset [1 ..< n + 1]" by blast
  have "queue_ok (a(x := True)) q xs" by (rule queue_assign_ok [OF xs(1)]) simp
  with xs(2) show ?case by blast
next
  case (reach_unassign a q x)
  then obtain xs where xs: "queue_ok a q xs" "mset xs = mset [1 ..< n + 1]" by blast
  have "x \<in> set xs" using reach_unassign all_vars(1) [OF xs(2)] by blast
  from queue_unassign_ok [OF xs(1) this] have "queue_ok (\<lambda>y. y \<noteq> x \<and> a y) (queue_unassign x q) xs" .
  moreover have "(\<lambda>y. y \<noteq> x \<and> a y) = a(x := False)" by (simp add: fun_eq_iff)
  ultimately have "queue_ok (a(x := False)) (queue_unassign x q) xs" by metis
  with xs(2) show ?case by blast
next
  case (reach_bump a q x)
  then obtain xs where xs: "queue_ok a q xs" "mset xs = mset [1 ..< n + 1]" by blast
  have x: "x \<in> set xs" using reach_bump all_vars(1) [OF xs(2)] by blast
  have "mset (remove1 x xs @ [x]) = mset xs" using x by simp
  with bump_queue_ok [OF xs(1) x] xs(2) show ?case by metis
next
  case (reach_decide a q y r q')
  then obtain xs where xs: "queue_ok a q xs" "mset xs = mset [1 ..< n + 1]" by blast
  have y: "y \<in> set xs" using reach_decide all_vars(1) [OF xs(2)] by blast
  have "length xs \<le> n" using all_vars(2) [OF xs(2)] by simp
  then have "\<exists>r q'. next_on_queue n a q = Inr (r, q') \<and> queue_ok a q' xs"
    using next_on_queue_ok [OF xs(1) y] reach_decide by blast
  with reach_decide xs(2) show ?case by auto
next
  case (reach_decide_aux a q y r q')
  then obtain xs where xs: "queue_ok a q xs" "mset xs = mset [1 ..< n + 1]" by blast
  have y: "y \<in> set xs" using reach_decide_aux all_vars(1) [OF xs(2)] by blast
  have "length xs \<le> n" using all_vars(2) [OF xs(2)] by simp
  from next_on_queue_aux_ok [where aux = aux, OF xs(1) y reach_decide_aux(4,5) this] obtain p xs' where
    p: "next_on_queue_aux n a aux q = Inr p" and xs': "queue_ok a (snd p) xs'" "set xs' = set xs" by force
  have "snd p = q'" using p reach_decide_aux(6) by auto
  note xs' = xs' [unfolded this]
  have "distinct xs" "distinct xs'" using xs(1) xs'(1) by (simp_all add: queue_ok_def queue_list_def)
  then have "mset xs' = mset xs" using xs'(2) set_eq_iff_mset_eq_distinct by blast
  with xs'(1) xs(2) show ?case by metis
next
  case (reach_shuffle a q q')
  then obtain xs where xs: "queue_ok a q xs" "mset xs = mset [1 ..< n + 1]" by blast
  from shuffle_queue_ok [OF xs reach_shuffle(2) order_refl, of None] obtain p ys where
    p: "shuffle_queue n None n q = Inr p" "queue_ok a p ys" "mset ys = mset xs" by blast
  from p(1) reach_shuffle(3) have "p = q'" by simp
  with p xs(2) show ?case by metis
qed

theorem queue_reach_ok_witness:
  "\<exists>xs. queue_ok ((\<lambda>_. False)(3 := True)) (bump_queue ((\<lambda>_. False)(3 := True)) 2 (init_queue True 0 3 queue_empty)) xs
    \<and> mset xs = mset [1 ..< 3 + 1]"
  by (rule queue_reach_ok [of 3 "\<lambda>_. False"], rule reach_bump, rule reach_assign, rule reach_init) simp_all

end
