(* ===== verification/Decide.thy ===== *)
theory Decide
  imports Complex_Main Score_Heap Decision_Queue
begin

text \<open>
  Decisions by score (\<open>cadical/src/score.cpp\<close>, \<open>score_smaller\<close> of \<open>internal.hpp\<close>, and
  \<open>next_decision_variable_with_best_score\<close> of \<open>decide.cpp\<close>, with and without \<open>BRANCHAUX\<close>), the
  choice between queue and scores, and the phase of a decision.  Scores are rational numbers:
  finite doubles without \<open>NaN\<close>.
\<close>

section \<open>The order of the scores\<close>

definition score_smaller :: "(nat \<Rightarrow> rat) \<Rightarrow> nat \<Rightarrow> nat \<Rightarrow> bool" where
  "score_smaller stab a b =
     (let s = stab a; t = stab b in if s < t then True else if s > t then False else a > b)"

interpretation score: priority "score_smaller stab" for stab
  by unfold_locales (auto simp: score_smaller_def Let_def split: if_splits)

section \<open>Operations\<close>

definition init_scores :: "(nat \<Rightarrow> rat) \<Rightarrow> nat \<Rightarrow> nat \<Rightarrow> pheap \<Rightarrow> pheap res" where
  "init_scores stab old_max_var new_max_var h =
     fold_res (\<lambda>i. heap_push_back (score_smaller stab) (i + 1)) [old_max_var ..< new_max_var] h"

fun drain_scores :: "nat \<Rightarrow> (nat \<Rightarrow> rat) \<Rightarrow> pheap \<Rightarrow> nat list res" where
  "drain_scores fuel stab h =
     (if hp_array h = [] then Inr []
      else case fuel of 0 \<Rightarrow> Inl OutOfFuel
        | Suc fuel \<Rightarrow> bind_res (heap_pop_front (score_smaller stab) h) (\<lambda>(x, h).
            bind_res (drain_scores fuel stab h) (\<lambda>xs. Inr (x # xs))))"

declare drain_scores.simps [simp del]

fun refill_scores :: "nat list \<Rightarrow> (nat \<Rightarrow> rat) \<times> rat \<times> pheap \<Rightarrow> ((nat \<Rightarrow> rat) \<times> rat \<times> pheap) res" where
  "refill_scores [] st = Inr st"
| "refill_scores (x # xs) (stab, inc, h) =
     (let stab = stab(x := inc) in
      bind_res (heap_push_back (score_smaller stab) x h) (\<lambda>h. refill_scores xs (stab, inc + 1, h)))"

text \<open>The picks of the random generator are given as for the queue.\<close>

definition shuffle_scores :: "nat list option \<Rightarrow> nat \<Rightarrow> (nat \<Rightarrow> rat) \<Rightarrow> pheap \<Rightarrow> ((nat \<Rightarrow> rat) \<times> rat \<times> pheap) res" where
  "shuffle_scores picks max_var stab h =
     (case picks of
        Some js \<Rightarrow> refill_scores (shuffle_swaps 0 js (rev [1 ..< max_var + 1])) (stab, 0, heap_empty)
      | None \<Rightarrow> bind_res (drain_scores (length (hp_array h)) stab h) (\<lambda>xs. refill_scores xs (stab, 0, heap_empty)))"

fun next_best_score :: "nat \<Rightarrow> (nat \<Rightarrow> bool) \<Rightarrow> (nat \<Rightarrow> rat) \<Rightarrow> pheap \<Rightarrow> (nat \<times> pheap) res" where
  "next_best_score fuel assigned stab h =
     bind_res (heap_front h) (\<lambda>r.
       if \<not> assigned r then Inr (r, h)
       else case fuel of 0 \<Rightarrow> Inl OutOfFuel
         | Suc fuel \<Rightarrow> bind_res (heap_pop_front (score_smaller stab) h) (\<lambda>(_, h). next_best_score fuel assigned stab h))"

fun next_best_score_aux ::
  "nat \<Rightarrow> (nat \<Rightarrow> bool) \<Rightarrow> (nat \<Rightarrow> bool) \<Rightarrow> (nat \<Rightarrow> rat) \<Rightarrow> pheap \<Rightarrow> (nat \<times> (nat \<Rightarrow> rat) \<times> pheap) res" where
  "next_best_score_aux fuel assigned aux stab h =
     (if hp_array h = [] then Inl Abort
      else bind_res (heap_front h) (\<lambda>r.
       if \<not> assigned r \<and> \<not> aux r then Inr (r, stab, h)
       else case fuel of 0 \<Rightarrow> Inl OutOfFuel
         | Suc fuel \<Rightarrow>
             if aux r then
               (let stab = stab(r := - 1) in
                bind_res (heap_update (score_smaller stab) r h) (next_best_score_aux fuel assigned aux stab))
             else bind_res (heap_pop_front (score_smaller stab) h) (\<lambda>(_, h). next_best_score_aux fuel assigned aux stab h)))"

declare next_best_score.simps [simp del] next_best_score_aux.simps [simp del]

record decider =
  d_queue :: vmtf
  d_stab :: "nat \<Rightarrow> rat"
  d_scores :: pheap
  d_use_scores :: bool

text \<open>\<open>next_decision_variable\<close>, as compiled with and without \<open>BRANCHAUX\<close> (\<open>aux_build\<close>).\<close>

definition next_decision_variable ::
  "bool \<Rightarrow> nat \<Rightarrow> (nat \<Rightarrow> bool) \<Rightarrow> (nat \<Rightarrow> bool) \<Rightarrow> decider \<Rightarrow> (nat \<times> decider) res" where
  "next_decision_variable aux_build fuel assigned aux d =
     bind_res
       (if d_use_scores d then
          (if aux_build
           then bind_res (next_best_score_aux fuel assigned aux (d_stab d) (d_scores d)) (\<lambda>(r, stab, h).
             Inr (r, d\<lparr>d_stab := stab, d_scores := h\<rparr>))
           else bind_res (next_best_score fuel assigned (d_stab d) (d_scores d)) (\<lambda>(r, h). Inr (r, d\<lparr>d_scores := h\<rparr>)))
        else
          (if aux_build
           then bind_res (next_on_queue_aux fuel assigned aux (d_queue d)) (\<lambda>(r, q). Inr (r, d\<lparr>d_queue := q\<rparr>))
           else bind_res (next_on_queue fuel assigned (d_queue d)) (\<lambda>(r, q). Inr (r, d\<lparr>d_queue := q\<rparr>))))
       (\<lambda>(v, d). if aux_build \<and> aux v then Inl Abort else Inr (v, d))"

text \<open>Phases are 1, -1, or 0 for none.\<close>

record phases =
  ph_saved :: "nat \<Rightarrow> int"
  ph_forced :: "nat \<Rightarrow> int"
  ph_target :: "nat \<Rightarrow> int"
  opt_phase :: bool
  opt_forcephase :: bool
  force_saved_phase :: bool

definition decide_phase :: "phases \<Rightarrow> nat \<Rightarrow> bool \<Rightarrow> int" where
  "decide_phase p idx target =
     (let initial_phase = (if opt_phase p then 1 else - 1);
          ph = (0 :: int);
          ph = (if force_saved_phase p then ph_saved p idx else ph);
          ph = (if ph = 0 \<and> opt_forcephase p then initial_phase else ph);
          ph = (if ph = 0 then ph_forced p idx else ph);
          ph = (if ph = 0 \<and> target then ph_target p idx else ph);
          ph = (if ph = 0 then ph_saved p idx else ph);
          ph = (if ph = 0 then initial_phase else ph)
      in ph * int idx)"

definition likely_phase :: "phases \<Rightarrow> nat \<Rightarrow> int" where
  "likely_phase p idx = decide_phase p idx False"

section \<open>The search on the heap\<close>

definition score_heap :: "(nat \<Rightarrow> rat) \<Rightarrow> pheap \<Rightarrow> bool" where
  "score_heap stab h \<longleftrightarrow> pos_ok h \<and> heap_ordered (score_smaller stab) (hp_array h)"

lemma score_pop:
  assumes "score_heap stab h" and "hp_array h \<noteq> []"
  shows "\<exists>r h'. heap_front h = Inr r \<and> heap_pop_front (score_smaller stab) h = Inr (r, h') \<and> score_heap stab h'
    \<and> mset (hp_array h) = add_mset r (mset (hp_array h')) \<and> (\<forall>x \<in> set (hp_array h). \<not> score_smaller stab r x)"
proof -
  have "\<not> score_smaller stab (hp_array h ! 0) x" if "x \<in> set (hp_array h)" for x
    using that score.front_max [of stab "hp_array h"] assms(1) by (auto simp: score_heap_def in_set_conv_nth)
  with score.pop_front_ok [of h stab] assms show ?thesis by (auto simp: score_heap_def heap_front_def)
qed

lemma next_best_score_ok:
  assumes "score_heap stab h" and "y \<in> set (hp_array h)" and "\<not> assigned y" and "length (hp_array h) \<le> fuel"
  shows "\<exists>r h'. next_best_score fuel assigned stab h = Inr (r, h') \<and> r \<in> set (hp_array h) \<and> \<not> assigned r
    \<and> (\<forall>x \<in> set (hp_array h). \<not> assigned x \<longrightarrow> \<not> score_smaller stab r x) \<and> score_heap stab h'
    \<and> set (hp_array h') \<subseteq> set (hp_array h) \<and> (\<forall>x \<in> set (hp_array h). \<not> assigned x \<longrightarrow> x \<in> set (hp_array h'))"
  using assms
proof (induction fuel arbitrary: h)
  case 0
  then show ?case by simp
next
  case (Suc fuel)
  have "hp_array h \<noteq> []" using Suc.prems(2) by auto
  from score_pop [OF Suc.prems(1) this] obtain r h1 where
    r: "heap_front h = Inr r" "heap_pop_front (score_smaller stab) h = Inr (r, h1)" "score_heap stab h1"
      "mset (hp_array h) = add_mset r (mset (hp_array h1))" "\<forall>x \<in> set (hp_array h). \<not> score_smaller stab r x" by blast
  have s: "set (hp_array h) = insert r (set (hp_array h1))" "length (hp_array h) = Suc (length (hp_array h1))"
    using mset_eq_setD [of "hp_array h" "r # hp_array h1"] mset_eq_length [of "hp_array h" "r # hp_array h1"] r(4) by simp_all
  show ?case
  proof (cases "assigned r")
    case False
    with r(1) have "next_best_score (Suc fuel) assigned stab h = Inr (r, h)" by (simp add: next_best_score.simps [of "Suc fuel"])
    with False r(5) s(1) Suc.prems(1) show ?thesis by auto
  next
    case True
    with r(1,2) have step: "next_best_score (Suc fuel) assigned stab h = next_best_score fuel assigned stab h1"
      by (simp add: next_best_score.simps [of "Suc fuel"])
    have "y \<in> set (hp_array h1)" using Suc.prems(2,3) s(1) True by auto
    from Suc.IH [OF r(3) this Suc.prems(3)] Suc.prems(4) s True step show ?thesis by auto
  qed
qed

lemma score_update:
  assumes "score_heap stab h" and "e \<in> set (hp_array h)"
  shows "\<exists>h'. heap_update (score_smaller (stab(e := s))) e h = Inr h' \<and> score_heap (stab(e := s)) h'
    \<and> mset (hp_array h') = mset (hp_array h)"
proof -
  obtain i where i: "i < length (hp_array h)" "hp_array h ! i = e" using assms(2) by (auto simp: in_set_conv_nth)
  have "around (score_smaller (stab(e := s))) (hp_array h) i"
    by (rule changed_around [OF score.priority_axioms [of stab]]) (use assms(1) i in \<open>auto simp: score_heap_def score_smaller_def\<close>)
  with score.restore_ok [of h i] assms(1) i show ?thesis by (auto simp: score_heap_def)
qed

text \<open>The auxiliary variables that still have a score of their own.\<close>

definition scored_aux :: "(nat \<Rightarrow> bool) \<Rightarrow> (nat \<Rightarrow> rat) \<Rightarrow> pheap \<Rightarrow> nat list" where
  "scored_aux aux stab h = filter (\<lambda>x. aux x \<and> stab x \<noteq> - 1) (hp_array h)"

lemma scored_aux_mset: "mset (scored_aux aux stab h) = filter_mset (\<lambda>x. aux x \<and> stab x \<noteq> - 1) (mset (hp_array h))"
  by (simp add: scored_aux_def)

lemma next_best_score_aux_ok:
  assumes "score_heap stab h" and "y \<in> set (hp_array h)" and "\<not> assigned y" and "\<not> aux y" and "0 \<le> stab y"
    and "length (hp_array h) + length (scored_aux aux stab h) \<le> fuel"
  shows "\<exists>r stab' h'. next_best_score_aux fuel assigned aux stab h = Inr (r, stab', h') \<and> r \<in> set (hp_array h)
    \<and> \<not> assigned r \<and> \<not> aux r \<and> (\<forall>x \<in> set (hp_array h). \<not> assigned x \<longrightarrow> \<not> aux x \<longrightarrow> \<not> score_smaller stab r x)
    \<and> score_heap stab' h' \<and> (\<forall>x. \<not> aux x \<longrightarrow> stab' x = stab x)"
  using assms
proof (induction fuel arbitrary: h stab)
  case 0
  then show ?case by simp
next
  case (Suc fuel)
  have ne: "hp_array h \<noteq> []" using Suc.prems(2) by auto
  from score_pop [OF Suc.prems(1) this] obtain r h1 where
    r: "heap_front h = Inr r" "heap_pop_front (score_smaller stab) h = Inr (r, h1)" "score_heap stab h1"
      "mset (hp_array h) = add_mset r (mset (hp_array h1))" "\<forall>x \<in> set (hp_array h). \<not> score_smaller stab r x" by blast
  have s: "set (hp_array h) = insert r (set (hp_array h1))" "length (hp_array h) = Suc (length (hp_array h1))"
    using mset_eq_setD [of "hp_array h" "r # hp_array h1"] mset_eq_length [of "hp_array h" "r # hp_array h1"] r(4) by simp_all
  have pop: "size (mset (scored_aux aux stab h1)) \<le> size (mset (scored_aux aux stab h))"
    by (simp only: scored_aux_mset r(4)) (simp add: size_mset_mono)
  consider (found) "\<not> assigned r" "\<not> aux r" | (aux) "aux r" | (pop) "assigned r" "\<not> aux r" by blast
  then show ?case
  proof cases
    case found
    with r(1) ne have "next_best_score_aux (Suc fuel) assigned aux stab h = Inr (r, stab, h)"
      by (simp add: next_best_score_aux.simps [of "Suc fuel"])
    with found r(5) s(1) Suc.prems(1) show ?thesis by auto
  next
    case pop': pop
    with r(1,2) ne have step: "next_best_score_aux (Suc fuel) assigned aux stab h = next_best_score_aux fuel assigned aux stab h1"
      by (simp add: next_best_score_aux.simps [of "Suc fuel"])
    have "y \<in> set (hp_array h1)" using Suc.prems(2,3) s(1) pop' by auto
    from Suc.IH [OF r(3) this Suc.prems(3,4,5)] pop Suc.prems(6) s pop' step show ?thesis by auto
  next
    case aux
    let ?stab = "stab(r := - 1)"
    have rin: "r \<in> set (hp_array h)" using s(1) by simp
    from score_update [OF Suc.prems(1) rin, of "- 1"] obtain h2 where
      h2: "heap_update (score_smaller ?stab) r h = Inr h2" "score_heap ?stab h2" "mset (hp_array h2) = mset (hp_array h)" by blast
    have s2: "set (hp_array h2) = set (hp_array h)" "length (hp_array h2) = length (hp_array h)"
      using h2(3) mset_eq_setD mset_eq_length by blast+
    have step: "next_best_score_aux (Suc fuel) assigned aux stab h = next_best_score_aux fuel assigned aux ?stab h2"
      using aux r(1) ne h2(1) by (simp add: next_best_score_aux.simps [of "Suc fuel"] Let_def)
    have "\<not> score_smaller stab r y" using r(5) Suc.prems(2) by blast
    then have "stab y \<le> stab r" by (auto simp: score_smaller_def Let_def split: if_splits)
    then have own: "stab r \<noteq> - 1" using Suc.prems(5) by linarith
    have "mset (scored_aux aux ?stab h2) \<subset># mset (scored_aux aux stab h)"
    proof (rule subset_mset.le_neq_trans)
      show "mset (scored_aux aux ?stab h2) \<subseteq># mset (scored_aux aux stab h)"
        unfolding scored_aux_mset h2(3) by (auto simp: subseteq_mset_def)
      show "mset (scored_aux aux ?stab h2) \<noteq> mset (scored_aux aux stab h)"
      proof
        assume "mset (scored_aux aux ?stab h2) = mset (scored_aux aux stab h)"
        then have "set (scored_aux aux ?stab h2) = set (scored_aux aux stab h)" by (rule mset_eq_setD)
        moreover have "r \<in> set (scored_aux aux stab h)" using aux own rin by (simp add: scored_aux_def)
        moreover have "r \<notin> set (scored_aux aux ?stab h2)" by (simp add: scored_aux_def)
        ultimately show False by blast
      qed
    qed
    then have "length (scored_aux aux ?stab h2) < length (scored_aux aux stab h)" using mset_subset_size by fastforce
    then have fuel: "length (hp_array h2) + length (scored_aux aux ?stab h2) \<le> fuel" using Suc.prems(6) s2(2) by linarith
    have ys: "0 \<le> ?stab y" using Suc.prems(4,5) aux by auto
    have "y \<in> set (hp_array h2)" using Suc.prems(2) s2(1) by simp
    from Suc.IH [OF h2(2) this Suc.prems(3,4) ys fuel, unfolded s2(1)] obtain r' stab' h' where
      r': "next_best_score_aux fuel assigned aux ?stab h2 = Inr (r', stab', h')" "r' \<in> set (hp_array h)" "\<not> assigned r'" "\<not> aux r'"
        "\<forall>x \<in> set (hp_array h). \<not> assigned x \<longrightarrow> \<not> aux x \<longrightarrow> \<not> score_smaller ?stab r' x"
        "score_heap stab' h'" "\<forall>x. \<not> aux x \<longrightarrow> stab' x = ?stab x" by blast
    have "score_smaller ?stab r' x = score_smaller stab r' x" if "\<not> aux x" for x
      using that r'(4) aux by (auto simp: score_smaller_def)
    with r' aux step show ?thesis by auto
  qed
qed


section \<open>Building the heap\<close>

lemma score_push:
  assumes "score_heap stab h" and "e \<notin> set (hp_array h)"
  shows "\<exists>h'. heap_push_back (score_smaller stab) e h = Inr h' \<and> score_heap stab h'
    \<and> mset (hp_array h') = add_mset e (mset (hp_array h))"
  using score.push_back_ok [of h stab e] assms pos_contains [of h e] by (auto simp: score_heap_def)

lemma score_heap_cong:
  assumes "score_heap stab h" and "\<And>x. x \<in> set (hp_array h) \<Longrightarrow> stab' x = stab x"
  shows "score_heap stab' h"
proof -
  have "edge (score_smaller stab') (hp_array h) k = edge (score_smaller stab) (hp_array h) k"
    if "0 < k" "k < length (hp_array h)" for k
  proof -
    have "par k < length (hp_array h)" using that by auto
    then show ?thesis using assms(2) [of "hp_array h ! k"] assms(2) [of "hp_array h ! par k"] that
      by (simp add: edge_def score_smaller_def)
  qed
  with assms(1) show ?thesis by (simp add: score_heap_def heap_ordered_def)
qed

lemma score_heap_empty: "score_heap stab heap_empty" "hp_array heap_empty = []"
  by (simp_all add: score_heap_def pos_ok_def heap_ordered_def heap_empty_def)

lemma init_scores_ok:
  assumes "score_heap stab h" and "set (hp_array h) \<inter> {m + 1 ..< m + k + 1} = {}"
  shows "\<exists>h'. init_scores stab m (m + k) h = Inr h' \<and> score_heap stab h'
    \<and> set (hp_array h') = set (hp_array h) \<union> {m + 1 ..< m + k + 1}"
  using assms
proof (induction k)
  case 0
  then show ?case by (simp add: init_scores_def)
next
  case (Suc k)
  then have "set (hp_array h) \<inter> {m + 1 ..< m + k + 1} = {}" by auto
  from Suc.IH [OF Suc.prems(1) this] obtain h1 where h1: "init_scores stab m (m + k) h = Inr h1" "score_heap stab h1"
    "set (hp_array h1) = set (hp_array h) \<union> {m + 1 ..< m + k + 1}" by blast
  have "m + k + 1 \<notin> set (hp_array h1)" using Suc.prems(2) h1(3) by auto
  from score_push [OF h1(2) this] obtain h2 where h2: "heap_push_back (score_smaller stab) (m + k + 1) h1 = Inr h2"
    "score_heap stab h2" "mset (hp_array h2) = add_mset (m + k + 1) (mset (hp_array h1))" by blast
  have "set (hp_array h2) = insert (m + k + 1) (set (hp_array h1))"
    using mset_eq_setD [of "hp_array h2" "(m + k + 1) # hp_array h1"] h2(3) by simp
  with h1 h2 show ?case by (auto simp: init_scores_def fold_res_append)
qed

lemma drain_scores_ok:
  "score_heap stab h \<Longrightarrow> length (hp_array h) \<le> fuel \<Longrightarrow> \<exists>xs. drain_scores fuel stab h = Inr xs
    \<and> mset xs = mset (hp_array h) \<and> sorted_wrt (\<lambda>a b. \<not> score_smaller stab a b) xs"
proof (induction fuel arbitrary: h)
  case 0
  then show ?case by (simp add: drain_scores.simps [of 0])
next
  case (Suc fuel)
  show ?case
  proof (cases "hp_array h = []")
    case True
    then show ?thesis by (simp add: drain_scores.simps [of "Suc fuel"])
  next
    case False
    from score_pop [OF Suc.prems(1) this] obtain r h1 where
      r: "heap_pop_front (score_smaller stab) h = Inr (r, h1)" "score_heap stab h1"
        "mset (hp_array h) = add_mset r (mset (hp_array h1))" "\<forall>x \<in> set (hp_array h). \<not> score_smaller stab r x" by blast
    have "length (hp_array h) = Suc (length (hp_array h1))"
      using mset_eq_length [of "hp_array h" "r # hp_array h1"] r(3) by simp
    with Suc.IH [OF r(2)] Suc.prems(2) obtain xs where xs: "drain_scores fuel stab h1 = Inr xs" "mset xs = mset (hp_array h1)"
      "sorted_wrt (\<lambda>a b. \<not> score_smaller stab a b) xs" by auto
    have "set xs \<subseteq> set (hp_array h)"
      using mset_eq_setD [OF xs(2)] mset_eq_setD [of "hp_array h" "r # hp_array h1"] r(3) by auto
    with xs r False show ?thesis by (auto simp: drain_scores.simps [of "Suc fuel"])
  qed
qed

lemma refill_scores_ok:
  assumes "score_heap stab h" and "distinct xs" and "set (hp_array h) \<inter> set xs = {}"
  shows "\<exists>stab' h'. refill_scores xs (stab, inc, h) = Inr (stab', inc + of_nat (length xs), h') \<and> score_heap stab' h'
    \<and> mset (hp_array h') = mset xs + mset (hp_array h) \<and> (\<forall>i < length xs. stab' (xs ! i) = inc + of_nat i)
    \<and> (\<forall>x. x \<notin> set xs \<longrightarrow> stab' x = stab x)"
  using assms
proof (induction xs arbitrary: stab inc h)
  case Nil
  then show ?case by simp
next
  case (Cons x xs)
  have "score_heap (stab(x := inc)) h" by (rule score_heap_cong [OF Cons.prems(1)]) (use Cons.prems(3) in auto)
  moreover have "x \<notin> set (hp_array h)" using Cons.prems(3) by auto
  ultimately obtain h1 where h1: "heap_push_back (score_smaller (stab(x := inc))) x h = Inr h1" "score_heap (stab(x := inc)) h1"
    "mset (hp_array h1) = add_mset x (mset (hp_array h))" using score_push by blast
  have "set (hp_array h1) = insert x (set (hp_array h))"
    using mset_eq_setD [of "hp_array h1" "x # hp_array h"] h1(3) by simp
  then have "set (hp_array h1) \<inter> set xs = {}" using Cons.prems by auto
  have "distinct xs" using Cons.prems(2) by simp
  from Cons.IH [OF h1(2) this \<open>set (hp_array h1) \<inter> set xs = {}\<close>, of "inc + 1"] obtain stab' h' where
    r: "refill_scores xs (stab(x := inc), inc + 1, h1) = Inr (stab', inc + 1 + of_nat (length xs), h')" "score_heap stab' h'"
      "mset (hp_array h') = mset xs + mset (hp_array h1)" "\<forall>i < length xs. stab' (xs ! i) = inc + 1 + of_nat i"
      "\<forall>y. y \<notin> set xs \<longrightarrow> stab' y = (stab(x := inc)) y" by blast
  have "stab' ((x # xs) ! i) = inc + of_nat i" if "i < length (x # xs)" for i
    using that r(4,5) Cons.prems(2) by (cases i) (auto simp: algebra_simps)
  with r h1 show ?case by (auto simp: Let_def algebra_simps)
qed

section \<open>Properties\<close>

text \<open>C8. As long as a variable is unassigned (and not auxiliary, in a build with BRANCHAUX), the solver
finds a decision: an unassigned variable (not auxiliary in that build) that is the best one by score, or
the one bumped last, as the mode of the solver has it.\<close>

theorem next_decision_variable_best:
  assumes "queue_ok assigned (d_queue d) xs" and "score_heap (d_stab d) (d_scores d)"
    and "y \<in> set xs" and "y \<in> set (hp_array (d_scores d))" and "\<not> assigned y" and "aux_build \<Longrightarrow> \<not> aux y"
    and "0 \<le> d_stab d y" and "length xs \<le> fuel" and "2 * length (hp_array (d_scores d)) \<le> fuel"
  shows "\<exists>v d'. next_decision_variable aux_build fuel assigned aux d = Inr (v, d') \<and> \<not> assigned v \<and> \<not> (aux_build \<and> aux v)
    \<and> (if d_use_scores d
       then v \<in> set (hp_array (d_scores d)) \<and> (\<forall>x \<in> set (hp_array (d_scores d)).
          \<not> assigned x \<longrightarrow> \<not> (aux_build \<and> aux x) \<longrightarrow> \<not> score_smaller (d_stab d) v x)
       else v \<in> set xs \<and> (\<forall>x \<in> set xs. \<not> assigned x \<longrightarrow> \<not> (aux_build \<and> aux x)
          \<longrightarrow> q_btab (d_queue d) x \<le> q_btab (d_queue d) v))"
proof -
  let ?h = "d_scores d" and ?s = "d_stab d"
  have len: "length (hp_array ?h) \<le> fuel" "length (hp_array ?h) + length (scored_aux aux ?s ?h) \<le> fuel"
    using assms(9) length_filter_le [of "\<lambda>x. aux x \<and> ?s x \<noteq> - 1" "hp_array ?h"] unfolding scored_aux_def by linarith+
  consider (q) "\<not> d_use_scores d" "\<not> aux_build" | (qa) "\<not> d_use_scores d" aux_build
    | (s) "d_use_scores d" "\<not> aux_build" | (sa) "d_use_scores d" aux_build by blast
  then show ?thesis
  proof cases
    case q
    with next_on_queue_ok [where assigned = assigned and y = y, OF assms(1,3,5,8)] show ?thesis by (fastforce simp: next_decision_variable_def)
  next
    case qa
    from next_on_queue_aux_ok [where aux = aux and assigned = assigned and y = y, OF assms(1,3,5) assms(6) [OF qa(2)] assms(8)] obtain v q' where
      "next_on_queue_aux fuel assigned aux (d_queue d) = Inr (v, q')" "v \<in> set xs" "\<not> assigned v" "\<not> aux v"
      "\<forall>x \<in> set xs. \<not> assigned x \<longrightarrow> \<not> aux x \<longrightarrow> q_btab (d_queue d) x \<le> q_btab (d_queue d) v" by blast
    with qa show ?thesis by (simp add: next_decision_variable_def)
  next
    case s
    from next_best_score_ok [where assigned = assigned and y = y, OF assms(2,4,5) len(1)] obtain v h' where
      "next_best_score fuel assigned ?s ?h = Inr (v, h')" "v \<in> set (hp_array ?h)" "\<not> assigned v"
      "\<forall>x \<in> set (hp_array ?h). \<not> assigned x \<longrightarrow> \<not> score_smaller ?s v x" by blast
    with s show ?thesis by (simp add: next_decision_variable_def)
  next
    case sa
    from next_best_score_aux_ok [where aux = aux and assigned = assigned and y = y, OF assms(2,4,5) assms(6) [OF sa(2)] assms(7) len(2)] obtain v stab' h' where
      "next_best_score_aux fuel assigned aux ?s ?h = Inr (v, stab', h')" "v \<in> set (hp_array ?h)" "\<not> assigned v" "\<not> aux v"
      "\<forall>x \<in> set (hp_array ?h). \<not> assigned x \<longrightarrow> \<not> aux x \<longrightarrow> \<not> score_smaller ?s v x" by blast
    with sa show ?thesis by (simp add: next_decision_variable_def)
  qed
qed

lemma demo_scores: "\<exists>h. init_scores (\<lambda>_. 0) 0 4 heap_empty = Inr h \<and> score_heap (\<lambda>_. 0) h \<and> set (hp_array h) = {1 ..< 5} \<and> length (hp_array h) = 4"
proof -
  from init_scores_ok [OF score_heap_empty(1), of 0 4 "\<lambda>_. 0"] score_heap_empty(2) obtain h where
    h: "init_scores (\<lambda>_. 0) 0 4 heap_empty = Inr h" "score_heap (\<lambda>_. 0) h" "set (hp_array h) = {1 ..< 5}" by auto
  have "length (hp_array h) = card (set (hp_array h))"
    using pos_distinct [of h] h(2) by (simp add: score_heap_def distinct_card)
  with h show ?thesis by auto
qed

theorem next_decision_variable_best_witness:
  "\<exists>h v d'. next_decision_variable True 8 (\<lambda>x. x = 4) (\<lambda>x. x \<in> {2, 3})
     \<lparr>d_queue = demo_queue, d_stab = (\<lambda>_. 0), d_scores = h, d_use_scores = True\<rparr> = Inr (v, d') \<and> v = 1"
proof -
  obtain h where h: "score_heap (\<lambda>_. 0) h" "set (hp_array h) = {1 ..< 5}" "length (hp_array h) = 4" using demo_scores by blast
  let ?d = "\<lparr>d_queue = demo_queue, d_stab = (\<lambda>_. 0), d_scores = h, d_use_scores = True\<rparr>"
  have "\<exists>v d'. next_decision_variable True 8 (\<lambda>x. x = 4) (\<lambda>x. x \<in> {2, 3}) ?d = Inr (v, d') \<and> \<not> v = 4 \<and> \<not> (True \<and> v \<in> {2, 3})
    \<and> (if d_use_scores ?d
       then v \<in> set (hp_array (d_scores ?d)) \<and> (\<forall>x \<in> set (hp_array (d_scores ?d)).
          \<not> x = 4 \<longrightarrow> \<not> (True \<and> x \<in> {2, 3}) \<longrightarrow> \<not> score_smaller (d_stab ?d) v x)
       else v \<in> set [1, 2, 3, 4] \<and> (\<forall>x \<in> set [1, 2, 3, 4]. \<not> x = 4 \<longrightarrow> \<not> (True \<and> x \<in> {2, 3})
          \<longrightarrow> q_btab (d_queue ?d) x \<le> q_btab (d_queue ?d) v))"
    by (rule next_decision_variable_best [where xs = "[1, 2, 3, 4]" and y = 1]) (use h demo_queue_ok in auto)
  then obtain v d' where v: "next_decision_variable True 8 (\<lambda>x. x = 4) (\<lambda>x. x \<in> {2, 3}) ?d = Inr (v, d')"
    "v \<noteq> 4" "v \<notin> {2, 3}" "v \<in> {1 ..< 5}" using h(2) by auto
  then have "v = 1" by auto
  with v(1) show ?thesis by blast
qed



text \<open>C37. Shuffling the scores without random picks reverses the order: popping the heap empties it in
descending order, and the new scores count up along that.\<close>

theorem shuffle_scores_reverses:
  assumes "score_heap stab h"
  shows "\<exists>xs stab' inc h'. shuffle_scores None max_var stab h = Inr (stab', inc, h') \<and> score_heap stab' h'
    \<and> mset xs = mset (hp_array h) \<and> mset (hp_array h') = mset (hp_array h)
    \<and> sorted_wrt (\<lambda>a b. \<not> score_smaller stab a b) xs \<and> (\<forall>i < length xs. stab' (xs ! i) = of_nat i)"
proof -
  from drain_scores_ok [OF assms order_refl] obtain xs where xs: "drain_scores (length (hp_array h)) stab h = Inr xs"
    "mset xs = mset (hp_array h)" "sorted_wrt (\<lambda>a b. \<not> score_smaller stab a b) xs" by blast
  have "distinct xs \<longleftrightarrow> distinct (hp_array h)" using xs(2) by (rule mset_eq_imp_distinct_iff)
  then have "distinct xs" using pos_distinct [of h] assms by (simp add: score_heap_def)
  from refill_scores_ok [OF score_heap_empty(1) this, of stab 0] obtain stab' h' where
    r: "refill_scores xs (stab, 0, heap_empty) = Inr (stab', 0 + of_nat (length xs), h')" "score_heap stab' h'"
      "mset (hp_array h') = mset xs + mset (hp_array heap_empty)" "\<forall>i < length xs. stab' (xs ! i) = 0 + of_nat i"
    by (auto simp: score_heap_empty(2))
  have "shuffle_scores None max_var stab h = Inr (stab', 0 + of_nat (length xs), h')"
    using xs(1) r(1) by (simp add: shuffle_scores_def)
  with r xs show ?thesis by (intro exI [of _ xs] exI [of _ stab'] exI [of _ "of_nat (length xs)"] exI [of _ h']) (simp add: score_heap_empty(2))
qed

theorem shuffle_scores_reverses_witness:
  "\<exists>h xs stab' inc h'. shuffle_scores None 4 (\<lambda>_. 0) h = Inr (stab', inc, h') \<and> mset xs = mset (hp_array h)
    \<and> length (hp_array h) = 4 \<and> (\<forall>i < length xs. stab' (xs ! i) = of_nat i)"
proof -
  obtain h where h: "score_heap (\<lambda>_. 0) h" "length (hp_array h) = 4" using demo_scores by blast
  from shuffle_scores_reverses [OF h(1), of 4] h(2) show ?thesis by blast
qed

end
