(* ===== verification/Search_State.thy ===== *)
theory Search_State
  imports Decide Assignments Proof_Checker
begin

text \<open>
  The state of CaDiCaL's search and the operations on the trail: \<open>Internal\<close> of
  \<open>internal.hpp\<close>, \<open>Clause\<close>, \<open>Var\<close>, \<open>Level\<close>, \<open>Watch\<close> and \<open>Flags\<close>, with \<open>flags.cpp\<close>,
  \<open>phases.cpp\<close>, the assignments of \<open>propagate.cpp\<close> and \<open>backtrack.cpp\<close>.  Clauses are objects at
  addresses; tables over variables and literals are functions.  Messages, profiles and the
  counters that are only printed are not part of the state.
\<close>

section \<open>Data\<close>

record sclause =
  c_lits :: "int list"
  c_pos :: nat
  c_glue :: nat
  c_used :: nat
  c_garbage :: bool
  c_redundant :: bool
  c_keep :: bool
  c_hyper :: bool

record svar =
  v_level :: nat
  v_trail :: nat
  v_reason :: "nat option"

record slevel =
  l_decision :: int
  l_trail :: nat
  l_seen_count :: nat
  l_seen_trail :: nat

definition mk_level :: "int \<Rightarrow> nat \<Rightarrow> slevel" where
  "mk_level d t = \<lparr>l_decision = d, l_trail = t, l_seen_count = 0, l_seen_trail = nat INT_MAX\<rparr>"

definition reset_level :: "slevel \<Rightarrow> slevel" where
  "reset_level l = l\<lparr>l_seen_count := 0, l_seen_trail := nat INT_MAX\<rparr>"

record swatch =
  w_clause :: nat
  w_blit :: int
  w_size :: nat

definition watch_binary :: "swatch \<Rightarrow> bool" where
  "watch_binary w \<longleftrightarrow> w_size w = 2"

datatype status = UNUSED | ACTIVE | FIXED | ELIMINATED | SUBSTITUTED | PURE

record vflags =
  f_seen :: bool
  f_keep :: bool
  f_poison :: bool
  f_removable :: bool
  f_status :: status

definition new_flags :: vflags where
  "new_flags = \<lparr>f_seen = False, f_keep = False, f_poison = False, f_removable = False, f_status = UNUSED\<rparr>"

text \<open>The options the modelled code reads.\<close>

record options =
  o_chrono :: nat
  o_chronoalways :: bool
  o_chronolevelim :: int
  o_chronoreusetrail :: bool
  o_minimize :: bool
  o_minimizedepth :: nat
  o_bumpreason :: bool
  o_bumpreasondepth :: nat
  o_bump :: bool
  o_tier1 :: nat
  o_tier2 :: nat
  o_eagersubsume :: bool
  o_eagersubsumelim :: nat
  o_reverse :: bool
  o_score :: bool
  o_scorefactor :: nat
  o_target :: nat

record solver =
  s_max_var :: nat
  s_vals :: "int \<Rightarrow> int"
  s_vtab :: "nat \<Rightarrow> svar"
  s_flags :: "nat \<Rightarrow> vflags"
  s_trail :: "int list"
  s_control :: "slevel list"
  s_level :: nat
  s_propagated :: nat
  s_propagated2 :: nat
  s_no_conflict_until :: nat
  s_heap :: "nat \<Rightarrow> sclause"
  s_next :: nat
  s_clauses :: "nat list"
  s_watches :: "int \<Rightarrow> swatch list"
  s_conflict :: "nat option"
  s_unsat :: bool
  s_queue :: vmtf
  s_scores :: pheap
  s_stab :: "nat \<Rightarrow> rat"
  s_score_inc :: rat
  s_phases :: phases
  s_best :: "nat \<Rightarrow> int"
  s_target_assigned :: nat
  s_best_assigned :: nat
  s_rephased :: "char option"
  s_rephase_conflicts :: nat
  s_conflicts :: nat
  s_lucky :: bool
  s_stable :: bool
  s_assumptions :: "int list"
  s_constraint :: "int list"
  s_unsat_constraint :: bool
  s_marked_failed :: bool
  s_clause :: "int list"
  s_analyzed :: "int list"
  s_levels :: "nat list"
  s_minimized :: "int list"
  s_gtab :: "nat \<Rightarrow> nat"
  s_recomputed :: nat
  s_eagertried :: nat
  s_iterating :: bool
  s_proof :: "proof_event list"
  s_opts :: options

abbreviation vidx :: "int \<Rightarrow> nat" where "vidx lit \<equiv> nat \<bar>lit\<bar>"

definition use_scores :: "solver \<Rightarrow> bool" where
  "use_scores s \<longleftrightarrow> o_score (s_opts s) \<and> s_stable s"

section \<open>Flags and phases\<close>

definition upd_flags :: "int \<Rightarrow> (vflags \<Rightarrow> vflags) \<Rightarrow> solver \<Rightarrow> solver" where
  "upd_flags lit f s = s\<lparr>s_flags := (s_flags s)(vidx lit := f (s_flags s (vidx lit)))\<rparr>"

definition mark_fixed :: "int \<Rightarrow> solver \<Rightarrow> solver" where
  "mark_fixed lit = upd_flags lit (f_status_update (\<lambda>_. FIXED))"

definition mark_eliminated :: "int \<Rightarrow> solver \<Rightarrow> solver" where
  "mark_eliminated lit = upd_flags lit (f_status_update (\<lambda>_. ELIMINATED))"

definition mark_pure :: "int \<Rightarrow> solver \<Rightarrow> solver" where
  "mark_pure lit = upd_flags lit (f_status_update (\<lambda>_. PURE))"

definition mark_substituted :: "int \<Rightarrow> solver \<Rightarrow> solver" where
  "mark_substituted lit = upd_flags lit (f_status_update (\<lambda>_. SUBSTITUTED))"

definition mark_active :: "int \<Rightarrow> solver \<Rightarrow> solver" where
  "mark_active lit = upd_flags lit (f_status_update (\<lambda>_. ACTIVE))"

definition reactivate :: "int \<Rightarrow> solver \<Rightarrow> solver" where
  "reactivate lit = upd_flags lit (f_status_update (\<lambda>_. ACTIVE))"

definition copy_phases :: "nat \<Rightarrow> (nat \<Rightarrow> int) \<Rightarrow> (nat \<Rightarrow> int) \<Rightarrow> nat \<Rightarrow> int" where
  "copy_phases max_var saved dst = (\<lambda>i. if 1 \<le> i \<and> i \<le> max_var then saved i else dst i)"

definition clear_phases :: "nat \<Rightarrow> (nat \<Rightarrow> int) \<Rightarrow> nat \<Rightarrow> int" where
  "clear_phases max_var dst = (\<lambda>i. if 1 \<le> i \<and> i \<le> max_var then 0 else dst i)"

definition force_phase :: "int \<Rightarrow> phases \<Rightarrow> phases" where
  "force_phase lit p = (if ph_forced p (vidx lit) = sgn lit then p else p\<lparr>ph_forced := (ph_forced p)(vidx lit := sgn lit)\<rparr>)"

definition unphase :: "int \<Rightarrow> phases \<Rightarrow> phases" where
  "unphase lit p = (if ph_forced p (vidx lit) = 0 then p else p\<lparr>ph_forced := (ph_forced p)(vidx lit := 0)\<rparr>)"

section \<open>Watches\<close>

definition watch_literal :: "int \<Rightarrow> int \<Rightarrow> nat \<Rightarrow> solver \<Rightarrow> solver" where
  "watch_literal lit blit c s =
     s\<lparr>s_watches := (s_watches s)(lit := s_watches s lit
        @ [\<lparr>w_clause = c, w_blit = blit, w_size = length (c_lits (s_heap s c))\<rparr>])\<rparr>"

definition watch_clause :: "nat \<Rightarrow> solver \<Rightarrow> solver" where
  "watch_clause c s =
     (let l0 = c_lits (s_heap s c) ! 0; l1 = c_lits (s_heap s c) ! 1 in watch_literal l1 l0 c (watch_literal l0 l1 c s))"

definition remove_watch :: "nat \<Rightarrow> swatch list \<Rightarrow> swatch list" where
  "remove_watch c ws = filter (\<lambda>w. w_clause w \<noteq> c) ws"

definition unwatch_clause :: "nat \<Rightarrow> solver \<Rightarrow> solver" where
  "unwatch_clause c s =
     (let l0 = c_lits (s_heap s c) ! 0; l1 = c_lits (s_heap s c) ! 1;
          ws = s_watches s; ws = ws(l0 := remove_watch c (ws l0)); ws = ws(l1 := remove_watch c (ws l1))
      in s\<lparr>s_watches := ws\<rparr>)"

definition sort_watches :: "solver \<Rightarrow> solver" where
  "sort_watches s =
     s\<lparr>s_watches := (\<lambda>lit. if lit \<noteq> 0 \<and> vidx lit \<le> s_max_var s
        then filter watch_binary (s_watches s lit) @ filter (Not \<circ> watch_binary) (s_watches s lit) else s_watches s lit)\<rparr>"

section \<open>Assignments\<close>

definition learn_empty_clause :: "solver \<Rightarrow> solver" where
  "learn_empty_clause s = s\<lparr>s_proof := s_proof s @ [Derived []], s_unsat := True\<rparr>"

definition learn_unit_clause :: "int \<Rightarrow> solver \<Rightarrow> solver" where
  "learn_unit_clause lit s = mark_fixed lit (s\<lparr>s_proof := s_proof s @ [Derived [lit]]\<rparr>)"

text \<open>The reason of an assignment: a null pointer, the pseudo reason of a decision, or a clause.\<close>

datatype why = NoReason | DecisionReason | Because nat

definition assignment_level :: "int \<Rightarrow> nat \<Rightarrow> solver \<Rightarrow> nat" where
  "assignment_level lit c s =
     fold (\<lambda>other r. if other = lit then r else let t = v_level (s_vtab s (vidx other)) in if t > r then t else r)
       (c_lits (s_heap s c)) 0"

definition search_assign :: "int \<Rightarrow> why \<Rightarrow> solver \<Rightarrow> solver" where
  "search_assign lit reason s =
     (let idx = vidx lit;
          lit_level = (case reason of
              NoReason \<Rightarrow> 0
            | DecisionReason \<Rightarrow> s_level s
            | Because c \<Rightarrow> if o_chrono (s_opts s) \<noteq> 0 then assignment_level lit c s else s_level s);
          r = (if lit_level = 0 then None else case reason of Because c \<Rightarrow> Some c | _ \<Rightarrow> None);
          s = s\<lparr>s_vtab := (s_vtab s)(idx := \<lparr>v_level = lit_level, v_trail = length (s_trail s), v_reason = r\<rparr>)\<rparr>;
          s = (if lit_level = 0 then learn_unit_clause lit s else s);
          tmp = sgn lit;
          s = s\<lparr>s_vals := (s_vals s)(int idx := tmp, - int idx := - tmp)\<rparr>;
          s = (if s_lucky s then s else s\<lparr>s_phases := (s_phases s)\<lparr>ph_saved := (ph_saved (s_phases s))(idx := tmp)\<rparr>\<rparr>)
      in s\<lparr>s_trail := s_trail s @ [lit]\<rparr>)"

definition assign_unit :: "int \<Rightarrow> solver \<Rightarrow> solver" where
  "assign_unit lit s = search_assign lit NoReason s"

definition search_assume_decision :: "int \<Rightarrow> solver \<Rightarrow> solver" where
  "search_assume_decision lit s =
     (let s = s\<lparr>s_level := s_level s + 1, s_control := s_control s @ [mk_level lit (length (s_trail s))]\<rparr>
      in search_assign lit DecisionReason s)"

definition search_assign_driving :: "int \<Rightarrow> nat option \<Rightarrow> solver \<Rightarrow> solver" where
  "search_assign_driving lit c s = search_assign lit (case c of None \<Rightarrow> NoReason | Some c \<Rightarrow> Because c) s"

section \<open>Backtracking\<close>

definition unassign_lit :: "int \<Rightarrow> solver \<Rightarrow> solver res" where
  "unassign_lit lit s =
     (let idx = vidx lit; s = s\<lparr>s_vals := (s_vals s)(int idx := 0, - int idx := 0)\<rparr> in
      bind_res (if heap_contains (s_scores s) idx then Inr (s_scores s)
                else heap_push_back (score_smaller (s_stab s)) idx (s_scores s))
        (\<lambda>h. Inr (s\<lparr>s_scores := h, s_queue := queue_unassign idx (s_queue s)\<rparr>)))"

definition update_target_and_best :: "solver \<Rightarrow> solver" where
  "update_target_and_best s =
     (let reset = (s_rephased s \<noteq> None \<and> s_conflicts s > s_rephase_conflicts s);
          s = (if reset then
                 (let s = s\<lparr>s_target_assigned := 0\<rparr> in
                  if s_rephased s = Some (CHR ''B'') then s\<lparr>s_best_assigned := 0\<rparr> else s)
               else s);
          s = (if s_no_conflict_until s > s_target_assigned s
               then s\<lparr>s_phases := (s_phases s)\<lparr>ph_target := copy_phases (s_max_var s) (ph_saved (s_phases s)) (ph_target (s_phases s))\<rparr>,
                      s_target_assigned := s_no_conflict_until s\<rparr>
               else s);
          s = (if s_no_conflict_until s > s_best_assigned s
               then s\<lparr>s_best := copy_phases (s_max_var s) (ph_saved (s_phases s)) (s_best s),
                      s_best_assigned := s_no_conflict_until s\<rparr>
               else s)
      in if reset then s\<lparr>s_rephased := None\<rparr> else s)"

text \<open>The loop over the end of the trail, with the literals kept so far.\<close>

fun unassign_loop :: "nat \<Rightarrow> nat \<Rightarrow> int list \<Rightarrow> solver \<Rightarrow> (nat \<times> int list \<times> solver) res" where
  "unassign_loop new_level j [] s = Inr (j, [], s)"
| "unassign_loop new_level j (lit # ls) s =
     (if v_level (s_vtab s (vidx lit)) > new_level
      then bind_res (unassign_lit lit s) (unassign_loop new_level j ls)
      else bind_res
        (unassign_loop new_level (j + 1) ls
           (s\<lparr>s_vtab := (s_vtab s)(vidx lit := (s_vtab s (vidx lit))\<lparr>v_trail := j\<rparr>)\<rparr>))
        (\<lambda>(j, ks, s). Inr (j, lit # ks, s)))"

definition backtrack_to :: "nat \<Rightarrow> solver \<Rightarrow> solver res" where
  "backtrack_to new_level s =
     (if new_level = s_level s then Inr s
      else let s = update_target_and_best s in
        bind_res (vec_get (s_control s) (new_level + 1)) (\<lambda>l. let assigned = l_trail l in
        bind_res (unassign_loop new_level assigned (drop assigned (s_trail s)) s) (\<lambda>(j, ks, s).
          Inr (s\<lparr>s_trail := take assigned (s_trail s) @ ks,
                 s_propagated := min (s_propagated s) assigned,
                 s_propagated2 := min (s_propagated2 s) assigned,
                 s_no_conflict_until := min (s_no_conflict_until s) assigned,
                 s_control := take (new_level + 1) (s_control s),
                 s_level := new_level\<rparr>))))"

end
