(* ===== verification/Search_Propagate.thy ===== *)
theory Search_Propagate
  imports Search_State
begin

text \<open>
  Propagation during search (\<open>Internal::propagate\<close> of \<open>propagate.cpp\<close>), \<open>decide\<close> and \<open>satisfied\<close>
  of \<open>decide.cpp\<close>.  The watch list of the propagated literal is read from front to back and
  compacted in place; here the watches kept are returned and stored at the end.
\<close>

section \<open>One watch\<close>

text \<open>The search for a replacement: position, literal and value, from \<open>k\<close> up to \<open>n\<close>.\<close>

fun find_replacement :: "(int \<Rightarrow> int) \<Rightarrow> int list \<Rightarrow> nat \<Rightarrow> nat \<Rightarrow> int \<Rightarrow> int \<Rightarrow> nat \<times> int \<times> int" where
  "find_replacement val lits k 0 r v = (k, r, v)"
| "find_replacement val lits k (Suc n) r v =
     (let r = lits ! k; v = val r in if v < 0 then find_replacement val lits (k + 1) n r v else (k, r, v))"

text \<open>The end of \<open>lits\<close> from the saved position, and the head before it if that fails.\<close>

definition replacement :: "(int \<Rightarrow> int) \<Rightarrow> int list \<Rightarrow> nat \<Rightarrow> nat \<times> int \<times> int" where
  "replacement val lits pos =
     (case find_replacement val lits pos (length lits - pos) 0 (- 1) of (k, r, v) \<Rightarrow>
        if v < 0 then find_replacement val lits 2 (pos - 2) r v else (k, r, v))"

definition upd_clause :: "nat \<Rightarrow> (sclause \<Rightarrow> sclause) \<Rightarrow> solver \<Rightarrow> solver" where
  "upd_clause c f s = s\<lparr>s_heap := (s_heap s)(c := f (s_heap s c))\<rparr>"

text \<open>With \<open>chrono > 1\<close> a literal on the level of the new unit is watched instead.\<close>

fun find_level :: "(nat \<Rightarrow> svar) \<Rightarrow> nat \<Rightarrow> int list \<Rightarrow> nat \<Rightarrow> nat res" where
  "find_level vtab l [] pos = Inl OutOfRange"
| "find_level vtab l (k # ks) pos = (if v_level (vtab (vidx k)) = l then Inr pos else find_level vtab l ks (pos + 1))"

definition rewatch_level :: "int \<Rightarrow> int \<Rightarrow> nat \<Rightarrow> solver \<Rightarrow> (bool \<times> solver) res" where
  "rewatch_level lit other c s =
     (let other_level = v_level (s_vtab s (vidx other)) in
      if o_chrono (s_opts s) > 1 \<and> other_level > v_level (s_vtab s (vidx lit)) then
        bind_res (find_level (s_vtab s) other_level (drop 2 (c_lits (s_heap s c))) 2) (\<lambda>pos.
          let r = c_lits (s_heap s c) ! pos;
              s = upd_clause c (c_lits_update (\<lambda>ls. ls[pos := lit, 0 := other, 1 := r])) s
          in Inr (True, watch_literal r other c s))
      else Inr (False, s))"

definition propagate_large :: "int \<Rightarrow> swatch \<Rightarrow> solver \<Rightarrow> (swatch option \<times> bool \<times> solver) res" where
  "propagate_large lit w s =
     (let c = w_clause w; lits = c_lits (s_heap s c);
          other = xor (xor (lits ! 0) (lits ! 1)) lit; u = s_vals s other
      in if u > 0 then Inr (Some (w\<lparr>w_blit := other\<rparr>), False, s)
         else (case replacement (s_vals s) lits (c_pos (s_heap s c)) of (k, r, v) \<Rightarrow>
           let s = upd_clause c (c_pos_update (\<lambda>_. k)) s in
           if v > 0 then Inr (Some (w\<lparr>w_blit := r\<rparr>), False, s)
           else if v = 0 then
             (let s = upd_clause c (c_lits_update (\<lambda>ls. ls[0 := other, 1 := r, k := lit])) s
              in Inr (None, False, watch_literal r lit c s))
           else if u = 0 then
             bind_res (rewatch_level lit other c (search_assign other (Because c) s)) (\<lambda>(moved, s).
               Inr (if moved then None else Some w, False, s))
           else Inr (Some w, True, s\<lparr>s_conflict := Some c\<rparr>)))"

text \<open>The watch to keep, if any, and whether the loop stops.\<close>

definition propagate_watch :: "int \<Rightarrow> swatch \<Rightarrow> solver \<Rightarrow> (swatch option \<times> bool \<times> solver) res" where
  "propagate_watch lit w s =
     (let b = s_vals s (w_blit w) in
      if b > 0 then Inr (Some w, False, s)
      else if watch_binary w then
        (if b < 0 then Inr (Some w, False, s\<lparr>s_conflict := Some (w_clause w)\<rparr>)
         else Inr (Some w, False, search_assign (w_blit w) (Because (w_clause w)) s))
      else if s_conflict s \<noteq> None then Inr (Some w, True, s)
      else if c_garbage (s_heap s (w_clause w)) then Inr (None, False, s)
      else propagate_large lit w s)"

section \<open>One literal, and all literals\<close>

fun propagate_watches :: "int \<Rightarrow> swatch list \<Rightarrow> solver \<Rightarrow> (swatch list \<times> solver) res" where
  "propagate_watches lit [] s = Inr ([], s)"
| "propagate_watches lit (w # ws) s =
     bind_res (propagate_watch lit w s) (\<lambda>(ow, stop, s).
       let kept = (case ow of None \<Rightarrow> [] | Some w \<Rightarrow> [w]) in
       if stop then Inr (kept @ ws, s)
       else bind_res (propagate_watches lit ws s) (\<lambda>(ks, s). Inr (kept @ ks, s)))"

definition propagate_lit :: "int \<Rightarrow> solver \<Rightarrow> solver res" where
  "propagate_lit lit s =
     bind_res (propagate_watches lit (s_watches s lit) s) (\<lambda>(ks, s). Inr (s\<lparr>s_watches := (s_watches s)(lit := ks)\<rparr>))"

fun propagate_loop :: "nat \<Rightarrow> solver \<Rightarrow> solver res" where
  "propagate_loop fuel s =
     (if s_conflict s = None \<and> s_propagated s \<noteq> length (s_trail s) then
        case fuel of 0 \<Rightarrow> Inl OutOfFuel
        | Suc fuel \<Rightarrow>
            bind_res (vec_get (s_trail s) (s_propagated s)) (\<lambda>l.
            bind_res (propagate_lit (- l) (s\<lparr>s_propagated := s_propagated s + 1\<rparr>)) (propagate_loop fuel))
      else Inr s)"

declare propagate_loop.simps [simp del]

definition search_propagate :: "solver \<Rightarrow> (bool \<times> solver) res" where
  "search_propagate s =
     bind_res (propagate_loop (s_max_var s) s) (\<lambda>s.
     bind_res
       (if s_lucky s then Inr s
        else if s_conflict s = None then Inr (s\<lparr>s_no_conflict_until := s_propagated s\<rparr>)
        else bind_res (vec_get (s_control s) (s_level s)) (\<lambda>l.
          Inr (s\<lparr>s_conflicts := s_conflicts s + 1, s_no_conflict_until := l_trail l\<rparr>)))
       (\<lambda>s. Inr (s_conflict s = None, s)))"

section \<open>Decisions\<close>

definition is_satisfied :: "solver \<Rightarrow> bool" where
  "is_satisfied s \<longleftrightarrow> s_propagated s \<ge> length (s_trail s)
     \<and> s_level s \<ge> length (s_assumptions s) + (if s_constraint s = [] then 0 else 1) \<and> length (s_trail s) = s_max_var s"

definition pseudo_level :: "solver \<Rightarrow> solver" where
  "pseudo_level s = s\<lparr>s_level := s_level s + 1, s_control := s_control s @ [mk_level 0 (length (s_trail s))]\<rparr>"

text \<open>The literals of the constraint: satisfied, or the first unassigned literal.\<close>

fun scan_constraint :: "(int \<Rightarrow> int) \<Rightarrow> int list \<Rightarrow> int \<Rightarrow> bool \<times> int" where
  "scan_constraint val [] unassigned_lit = (False, unassigned_lit)"
| "scan_constraint val (lit # ls) unassigned_lit =
     (let tmp = val lit in
      if tmp < 0 then scan_constraint val ls unassigned_lit
      else if tmp > 0 then (True, unassigned_lit)
      else scan_constraint val ls (if unassigned_lit = 0 then lit else unassigned_lit))"

definition decide_constraint :: "solver \<Rightarrow> int \<times> solver" where
  "decide_constraint s =
     (case scan_constraint (s_vals s) (s_constraint s) 0 of (satisfied_constraint, unassigned_lit) \<Rightarrow>
        if satisfied_constraint then (0, pseudo_level s)
        else if unassigned_lit \<noteq> 0 then (0, search_assume_decision unassigned_lit s)
        else (20, s\<lparr>s_unsat_constraint := True\<rparr>))"

definition decide_variable :: "bool \<Rightarrow> nat \<Rightarrow> (nat \<Rightarrow> bool) \<Rightarrow> solver \<Rightarrow> solver res" where
  "decide_variable aux_build fuel aux s =
     bind_res (next_decision_variable aux_build fuel (\<lambda>i. s_vals s (int i) \<noteq> 0) aux
         \<lparr>d_queue = s_queue s, d_stab = s_stab s, d_scores = s_scores s, d_use_scores = use_scores s\<rparr>) (\<lambda>(idx, d).
       let s = s\<lparr>s_queue := d_queue d, s_stab := d_stab d, s_scores := d_scores d\<rparr>;
           target = (o_target (s_opts s) > 1 \<or> (s_stable s \<and> o_target (s_opts s) \<noteq> 0))
       in Inr (search_assume_decision (decide_phase (s_phases s) idx target) s))"

definition decide :: "bool \<Rightarrow> nat \<Rightarrow> (nat \<Rightarrow> bool) \<Rightarrow> solver \<Rightarrow> (int \<times> solver) res" where
  "decide aux_build fuel aux s =
     bind_res (if s_level s < length (s_assumptions s) then
        (let lit = s_assumptions s ! s_level s; tmp = s_vals s lit in
         if tmp < 0 then Inr (20, s)
         else if tmp > 0 then Inr (0, pseudo_level s)
         else Inr (0, search_assume_decision lit s))
      else if s_level s = length (s_assumptions s) \<and> s_constraint s \<noteq> [] then Inr (decide_constraint s)
      else bind_res (decide_variable aux_build fuel aux s) (\<lambda>s. Inr (0, s)))
       (\<lambda>(res, s). Inr (res, if res \<noteq> 0 then s\<lparr>s_marked_failed := False\<rparr> else s))"

end
