(* ===== verification/Search_Analyze.thy ===== *)
theory Search_Analyze
  imports Search_Propagate
begin

text \<open>
  Conflict analysis (\<open>analyze.cpp\<close>, \<open>minimize.cpp\<close> and the clauses of \<open>clause.cpp\<close> it makes), with
  the changes this repository compiles in with \<open>UIPAUX\<close> and \<open>BRANCHAUX\<close>: \<open>aux\<close> says of an internal
  variable whether its external variable is auxiliary.  Scores are rational numbers.  Averages, the
  learner and shrinking (\<open>shrink.cpp\<close>) are left out: this is \<open>analyze\<close> with \<open>opts.shrink\<close> 0.
\<close>

section \<open>Clauses\<close>

definition new_solver_clause :: "bool \<Rightarrow> nat \<Rightarrow> solver \<Rightarrow> nat \<times> solver" where
  "new_solver_clause red glue s =
     (let lits = s_clause s; size = length lits;
          glue = (if glue > size then size else glue);
          keep = (if \<not> red then True else if glue \<le> o_tier1 (s_opts s) then True else False);
          c = s_next s
      in (c, s\<lparr>s_heap := (s_heap s)(c := \<lparr>c_lits = lits, c_pos = 2, c_glue = glue, c_used = 0, c_garbage = False,
                 c_redundant = red, c_keep = keep, c_hyper = False\<rparr>),
               s_next := c + 1, s_clauses := s_clauses s @ [c]\<rparr>))"

definition new_learned_redundant_clause :: "nat \<Rightarrow> solver \<Rightarrow> nat \<times> solver" where
  "new_learned_redundant_clause glue s =
     (case new_solver_clause True glue s of (c, s) \<Rightarrow>
        (c, watch_clause c (s\<lparr>s_proof := s_proof s @ [Derived (c_lits (s_heap s c))]\<rparr>)))"

definition promote_clause :: "nat \<Rightarrow> nat \<Rightarrow> solver \<Rightarrow> solver" where
  "promote_clause c new_glue s =
     (let cl = s_heap s c; old_glue = c_glue cl in
      if c_keep cl then s
      else if c_hyper cl then s
      else if new_glue \<ge> old_glue then s
      else upd_clause c (\<lambda>cl.
        (if new_glue \<le> o_tier1 (s_opts s) then cl\<lparr>c_keep := True\<rparr>
         else if old_glue > o_tier2 (s_opts s) \<and> new_glue \<le> o_tier2 (s_opts s) then cl\<lparr>c_used := 2\<rparr>
         else cl)\<lparr>c_glue := new_glue\<rparr>) s)"

definition mark_garbage :: "nat \<Rightarrow> solver \<Rightarrow> solver" where
  "mark_garbage c s =
     (let s = (if length (c_lits (s_heap s c)) \<noteq> 2 then s\<lparr>s_proof := s_proof s @ [Deleted (c_lits (s_heap s c))]\<rparr> else s)
      in upd_clause c (\<lambda>cl. cl\<lparr>c_garbage := True, c_used := 0\<rparr>) s)"

section \<open>Scores and the queue\<close>

definition evsids_limit_hit :: "rat \<Rightarrow> bool" where
  "evsids_limit_hit score \<longleftrightarrow> score > 10 ^ 150"

definition rescale_variable_scores :: "solver \<Rightarrow> solver" where
  "rescale_variable_scores s =
     (let divider = fold (\<lambda>idx d. if s_stab s idx > d then s_stab s idx else d) [1 ..< s_max_var s + 1] (s_score_inc s);
          factor = 1 / divider
      in s\<lparr>s_stab := (\<lambda>i. if 1 \<le> i \<and> i \<le> s_max_var s then s_stab s i * factor else s_stab s i),
           s_score_inc := s_score_inc s * factor\<rparr>)"

definition bump_variable_score :: "int \<Rightarrow> solver \<Rightarrow> solver res" where
  "bump_variable_score lit s =
     (let idx = vidx lit; new_score = s_stab s idx + s_score_inc s;
          (s, new_score) = (if evsids_limit_hit new_score
             then (let s = rescale_variable_scores s in (s, s_stab s idx + s_score_inc s)) else (s, new_score));
          s = s\<lparr>s_stab := (s_stab s)(idx := new_score)\<rparr>
      in if heap_contains (s_scores s) idx
         then bind_res (heap_update (score_smaller (s_stab s)) idx (s_scores s)) (\<lambda>h. Inr (s\<lparr>s_scores := h\<rparr>))
         else Inr s)"

definition bump_variable_queue :: "int \<Rightarrow> solver \<Rightarrow> solver" where
  "bump_variable_queue lit s = s\<lparr>s_queue := bump_queue (\<lambda>i. s_vals s (int i) \<noteq> 0) (vidx lit) (s_queue s)\<rparr>"

definition bump_variable :: "int \<Rightarrow> solver \<Rightarrow> solver res" where
  "bump_variable lit s = (if use_scores s then bump_variable_score lit s else Inr (bump_variable_queue lit s))"

definition bump_variable_score_inc :: "solver \<Rightarrow> solver" where
  "bump_variable_score_inc s =
     (let f = 1000 / of_nat (o_scorefactor (s_opts s)); new_score_inc = s_score_inc s * f;
          (s, new_score_inc) = (if evsids_limit_hit new_score_inc
             then (let s = rescale_variable_scores s in (s, s_score_inc s * f)) else (s, new_score_inc))
      in s\<lparr>s_score_inc := new_score_inc\<rparr>)"

text \<open>Reason-side bumping, to a depth.\<close>

definition bump_also_reason_literal :: "int \<Rightarrow> solver \<Rightarrow> bool \<times> solver" where
  "bump_also_reason_literal lit s =
     (if f_seen (s_flags s (vidx lit)) then (False, s)
      else if v_level (s_vtab s (vidx lit)) = 0 then (False, s)
      else (True, (upd_flags lit (f_seen_update (\<lambda>_. True)) s)\<lparr>s_analyzed := s_analyzed s @ [lit]\<rparr>))"

fun bump_also_reason_literals :: "nat \<Rightarrow> int \<Rightarrow> solver \<Rightarrow> solver" where
  "bump_also_reason_literals 0 lit s = s"
| "bump_also_reason_literals (Suc limit) lit s =
     (if v_level (s_vtab s (vidx lit)) = 0 then s
      else case v_reason (s_vtab s (vidx lit)) of None \<Rightarrow> s
        | Some c \<Rightarrow> fold (\<lambda>other s. if other = lit then s
            else case bump_also_reason_literal other s of (b, s) \<Rightarrow>
              if b \<and> \<not> Suc limit < 2 then bump_also_reason_literals limit (- other) s else s)
            (c_lits (s_heap s c)) s)"

definition bump_also_all_reason_literals :: "solver \<Rightarrow> solver" where
  "bump_also_all_reason_literals s =
     fold (\<lambda>lit. bump_also_reason_literals (o_bumpreasondepth (s_opts s) + (if s_stable s then 1 else 0)) (- lit)) (s_clause s) s"

definition bump_variables :: "bool \<Rightarrow> (nat \<Rightarrow> bool) \<Rightarrow> solver \<Rightarrow> solver res" where
  "bump_variables branchaux aux s =
     (let s = (if o_bumpreason (s_opts s) then bump_also_all_reason_literals s else s);
          s = (if \<not> use_scores s then s\<lparr>s_analyzed := sort_key (\<lambda>l. q_btab (s_queue s) (vidx l)) (s_analyzed s)\<rparr> else s)
      in bind_res (fold_res (\<lambda>lit s. if branchaux \<and> aux (vidx lit) then Inr s else bump_variable lit s) (s_analyzed s) s)
           (\<lambda>s. Inr (if use_scores s then bump_variable_score_inc s else s)))"

section \<open>Glue\<close>

definition recompute_glue :: "nat \<Rightarrow> solver \<Rightarrow> nat \<times> solver" where
  "recompute_glue c s =
     (let stamp = s_recomputed s + 1;
          (r, g) = fold (\<lambda>lit (r, g). let l = v_level (s_vtab s (vidx lit)) in
              if g l = stamp then (r, g) else (r + 1, g(l := stamp))) (c_lits (s_heap s c)) (0, s_gtab s)
      in (r, s\<lparr>s_recomputed := stamp, s_gtab := g\<rparr>))"

definition bump_clause :: "nat \<Rightarrow> solver \<Rightarrow> solver" where
  "bump_clause c s =
     (let used = c_used (s_heap s c); s = upd_clause c (c_used_update (\<lambda>_. 1)) s; cl = s_heap s c in
      if c_keep cl then s
      else if c_hyper cl then s
      else if \<not> c_redundant cl then s
      else (case recompute_glue c s of (new_glue, s) \<Rightarrow>
        if new_glue < c_glue cl then promote_clause c new_glue s
        else if used \<noteq> 0 \<and> c_glue cl \<le> o_tier2 (s_opts s) then upd_clause c (c_used_update (\<lambda>_. 2)) s
        else s))"

section \<open>The first unique implication point\<close>

definition analyze_literal :: "int \<Rightarrow> int \<times> solver \<Rightarrow> (int \<times> solver) res" where
  "analyze_literal lit = (\<lambda>(open_lits, s).
     let v = s_vtab s (vidx lit) in
     if f_seen (s_flags s (vidx lit)) then Inr (open_lits, s)
     else if v_level v = 0 then Inr (open_lits, s)
     else
       let s = (if v_level v < s_level s then s\<lparr>s_clause := s_clause s @ [lit]\<rparr> else s) in
       bind_res (vec_get (s_control s) (v_level v)) (\<lambda>l.
         let s = (if l_seen_count l = 0 then s\<lparr>s_levels := s_levels s @ [v_level v]\<rparr> else s);
             l = l\<lparr>l_seen_count := l_seen_count l + 1,
                    l_seen_trail := (if v_trail v < l_seen_trail l then v_trail v else l_seen_trail l)\<rparr>;
             s = s\<lparr>s_control := (s_control s)[v_level v := l]\<rparr>;
             s = upd_flags lit (f_seen_update (\<lambda>_. True)) s;
             s = s\<lparr>s_analyzed := s_analyzed s @ [lit]\<rparr>
         in Inr (if v_level v = s_level s then open_lits + 1 else open_lits, s)))"

definition analyze_reason :: "int \<Rightarrow> nat \<Rightarrow> int \<times> solver \<Rightarrow> (int \<times> solver) res" where
  "analyze_reason lit c = (\<lambda>(open_lits, s).
     let s = bump_clause c s in
     fold_res (\<lambda>other os. if other \<noteq> lit then analyze_literal other os else Inr os) (c_lits (s_heap s c)) (open_lits, s))"

text \<open>Down the trail to the next seen literal of the current level.\<close>

fun find_uip :: "solver \<Rightarrow> nat \<Rightarrow> (nat \<times> int) res" where
  "find_uip s 0 = Inl OutOfRange"
| "find_uip s (Suc i) =
     bind_res (vec_get (s_trail s) i) (\<lambda>lit.
       if \<not> f_seen (s_flags s (vidx lit)) then find_uip s i
       else if v_level (s_vtab s (vidx lit)) = s_level s then Inr (i, lit)
       else find_uip s i)"

lemma find_uip_less: "find_uip s i = Inr (j, lit) \<Longrightarrow> j < i"
  by (induction s i rule: find_uip.induct) (auto simp: bind_res_eq_Inr split: if_splits intro: less_SucI)

function uip_loop :: "bool \<Rightarrow> (nat \<Rightarrow> bool) \<Rightarrow> nat \<Rightarrow> int \<Rightarrow> nat option \<Rightarrow> int \<Rightarrow> solver \<Rightarrow> (int \<times> int \<times> solver) res" where
  "uip_loop uipaux aux i uip reason open_lits s =
     (case reason of None \<Rightarrow> Inl NullPointer
      | Some c \<Rightarrow> bind_res (analyze_reason uip c (open_lits, s)) (\<lambda>p.
          bind_res (find_uip (snd p) i) (\<lambda>q.
            let s = snd p; uip = snd q; reason = v_reason (s_vtab s (vidx uip)); open_lits = fst p - 1 in
            if open_lits = 0 \<and> (\<not> uipaux \<or> \<not> aux (vidx uip) \<or> reason = None) then Inr (uip, open_lits, s)
            else uip_loop uipaux aux (fst q) uip reason open_lits s)))"
  by pat_completeness auto
termination
  by (relation "measure (\<lambda>(u, a, i, _). i)") (auto dest: find_uip_less)

declare uip_loop.simps [simp del]

text \<open>\<open>UIPAUX\<close>: auxiliary literals are erased, after adding their reasons if there are any.\<close>

fun erase_aux :: "nat \<Rightarrow> (nat \<Rightarrow> bool) \<Rightarrow> nat \<Rightarrow> int \<Rightarrow> solver \<Rightarrow> (int \<times> solver) res" where
  "erase_aux fuel aux i open_lits s =
     (if i < length (s_clause s) then
        case fuel of 0 \<Rightarrow> Inl OutOfFuel
        | Suc fuel \<Rightarrow>
          (let lit = s_clause s ! i in
           if aux (vidx lit) then
             bind_res (case v_reason (s_vtab s (vidx lit)) of None \<Rightarrow> Inr (open_lits, s)
                 | Some c \<Rightarrow> analyze_reason lit c (open_lits, s))
               (\<lambda>(open_lits, s). erase_aux fuel aux i open_lits
                  (s\<lparr>s_clause := take i (s_clause s) @ drop (i + 1) (s_clause s)\<rparr>))
           else erase_aux fuel aux (i + 1) open_lits s)
      else Inr (open_lits, s))"

declare erase_aux.simps [simp del]

section \<open>Minimization\<close>

text \<open>The tests before the recursion, and the recursion; \<open>n\<close> is what is left of the depth limit.\<close>

definition minimize_early :: "bool \<Rightarrow> int \<Rightarrow> solver \<Rightarrow> bool option res" where
  "minimize_early outer lit s =
     (let f = s_flags s (vidx lit); v = s_vtab s (vidx lit) in
      if v_level v = 0 \<or> f_removable f \<or> f_keep f then Inr (Some True)
      else if v_reason v = None \<or> f_poison f \<or> v_level v = s_level s then Inr (Some False)
      else bind_res (vec_get (s_control s) (v_level v)) (\<lambda>l.
        if outer \<and> l_seen_count l < 2 then Inr (Some False)
        else if v_trail v \<le> l_seen_trail l then Inr (Some False)
        else Inr None))"

fun minimize_reason :: "(int \<Rightarrow> solver \<Rightarrow> (bool \<times> solver) res) \<Rightarrow> int \<Rightarrow> int list \<Rightarrow> solver \<Rightarrow> (bool \<times> solver) res" where
  "minimize_reason f lit [] s = Inr (True, s)"
| "minimize_reason f lit (other # ls) s =
     (if other = lit then minimize_reason f lit ls s
      else bind_res (f (- other) s) (\<lambda>(r, s). if r then minimize_reason f lit ls s else Inr (False, s)))"

fun minimize_literal :: "nat \<Rightarrow> bool \<Rightarrow> int \<Rightarrow> solver \<Rightarrow> (bool \<times> solver) res" where
  "minimize_literal 0 outer lit s =
     bind_res (minimize_early outer lit s) (\<lambda>r. Inr (case r of Some r \<Rightarrow> (r, s) | None \<Rightarrow> (False, s)))"
| "minimize_literal (Suc n) outer lit s =
     bind_res (minimize_early outer lit s) (\<lambda>r. case r of Some r \<Rightarrow> Inr (r, s) | None \<Rightarrow>
       bind_res (case v_reason (s_vtab s (vidx lit)) of None \<Rightarrow> Inl NullPointer
           | Some c \<Rightarrow> minimize_reason (minimize_literal n False) lit (c_lits (s_heap s c)) s) (\<lambda>(r, s).
         Inr (r, (upd_flags lit (if r then f_removable_update (\<lambda>_. True) else f_poison_update (\<lambda>_. True)) s)
                   \<lparr>s_minimized := s_minimized s @ [lit]\<rparr>)))"

fun minimize_lits :: "int list \<Rightarrow> solver \<Rightarrow> (int list \<times> solver) res" where
  "minimize_lits [] s = Inr ([], s)"
| "minimize_lits (lit # ls) s =
     bind_res (minimize_literal (o_minimizedepth (s_opts s) + 1) True (- lit) s) (\<lambda>(r, s).
       if r then minimize_lits ls s
       else bind_res (minimize_lits ls (upd_flags lit (f_keep_update (\<lambda>_. True)) s)) (\<lambda>(ks, s). Inr (lit # ks, s)))"

definition clear_minimized_literals :: "solver \<Rightarrow> solver" where
  "clear_minimized_literals s =
     (let s = fold (\<lambda>lit. upd_flags lit (\<lambda>f. f\<lparr>f_poison := False, f_removable := False\<rparr>)) (s_minimized s) s;
          s = fold (\<lambda>lit. upd_flags lit (f_keep_update (\<lambda>_. False))) (s_clause s) s
      in s\<lparr>s_minimized := []\<rparr>)"

definition minimize_sort_clause :: "solver \<Rightarrow> solver" where
  "minimize_sort_clause s = s\<lparr>s_clause := sort_key (\<lambda>l. v_trail (s_vtab s (vidx l))) (s_clause s)\<rparr>"

definition minimize_clause :: "solver \<Rightarrow> solver res" where
  "minimize_clause s =
     (let s = minimize_sort_clause s in
      bind_res (minimize_lits (s_clause s) s) (\<lambda>(ks, s). Inr (clear_minimized_literals (s\<lparr>s_clause := ks\<rparr>))))"

end
