(* ===== verification/Search_Learn.thy ===== *)
theory Search_Learn
  imports Search_Analyze
begin

text \<open>
  What conflict analysis does around the first unique implication point (\<open>analyze.cpp\<close>): the conflict
  level under chronological backtracking, the driving clause, the backtrack level, eager
  subsumption, and \<open>analyze\<close> itself.
\<close>

section \<open>The conflict level\<close>

text \<open>
  The highest level in the conflict, a literal on it and their number; the scan stops at a second
  literal of the current level.
\<close>

fun conflict_level_scan :: "solver \<Rightarrow> int list \<Rightarrow> nat \<Rightarrow> int \<Rightarrow> nat \<Rightarrow> nat \<times> int \<times> nat" where
  "conflict_level_scan s [] r forced n = (r, forced, n)"
| "conflict_level_scan s (lit # ls) r forced n =
     (let tmp = v_level (s_vtab s (vidx lit)) in
      if tmp > r then conflict_level_scan s ls tmp lit 1
      else if tmp = r then
        (if r = s_level s \<and> n + 1 > 1 then (r, forced, n + 1) else conflict_level_scan s ls r forced (n + 1))
      else conflict_level_scan s ls r forced n)"

text \<open>The position of the first literal of the highest level from \<open>j\<close> on; the scan stops at level \<open>r\<close>.\<close>

fun highest_scan :: "solver \<Rightarrow> nat \<Rightarrow> int list \<Rightarrow> nat \<Rightarrow> nat \<times> nat \<Rightarrow> nat \<times> nat" where
  "highest_scan s r [] j (pos, level) = (pos, level)"
| "highest_scan s r (other # ls) j (pos, level) =
     (let tmp = v_level (s_vtab s (vidx other)) in
      if level \<ge> tmp then highest_scan s r ls (j + 1) (pos, level)
      else if tmp = r then (j, tmp)
      else highest_scan s r ls (j + 1) (j, tmp))"

definition move_highest :: "nat \<Rightarrow> nat \<Rightarrow> nat \<Rightarrow> solver \<Rightarrow> solver" where
  "move_highest c r i s =
     (let lits = c_lits (s_heap s c); lit = lits ! i;
          pos = fst (highest_scan s r (drop (i + 1) lits) (i + 1) (i, v_level (s_vtab s (vidx lit))))
      in if pos = i then s
         else
           let s = (if pos > 1 then s\<lparr>s_watches := (s_watches s)(lit := remove_watch c (s_watches s lit))\<rparr> else s);
               high = lits ! pos;
               s = upd_clause c (c_lits_update (\<lambda>ls. ls[pos := lit, i := high])) s
           in if pos > 1 then watch_literal high (c_lits (s_heap s c) ! (if i = 0 then 1 else 0)) c s else s)"

definition find_conflict_level :: "nat \<Rightarrow> solver \<Rightarrow> nat \<times> int \<times> solver" where
  "find_conflict_level c s =
     (case conflict_level_scan s (c_lits (s_heap s c)) 0 0 0 of (r, forced, n) \<Rightarrow>
        let s = move_highest c r 1 (move_highest c r 0 s) in (r, if n \<noteq> 1 then 0 else forced, s))"

section \<open>The backtrack level\<close>

text \<open>The trail position of the best variable from position \<open>i\<close> on.\<close>

fun best_on_trail :: "(nat \<Rightarrow> nat \<Rightarrow> bool) \<Rightarrow> int list \<Rightarrow> nat \<Rightarrow> nat \<times> nat \<Rightarrow> nat \<times> nat" where
  "best_on_trail better [] i best = best"
| "best_on_trail better (lit # ls) i (idx, pos) =
     best_on_trail better ls (i + 1) (if idx \<noteq> 0 \<and> \<not> better (vidx lit) idx then (idx, pos) else (vidx lit, i))"

fun reuse_level :: "slevel list \<Rightarrow> nat \<Rightarrow> nat \<Rightarrow> nat \<Rightarrow> nat \<Rightarrow> nat res" where
  "reuse_level control level best_pos 0 res = Inr res"
| "reuse_level control level best_pos (Suc n) res =
     (if res < level - 1 then
        bind_res (vec_get control (res + 1)) (\<lambda>l.
          if l_trail l \<le> best_pos then reuse_level control level best_pos n (res + 1) else Inr res)
      else Inr res)"

definition determine_actual_backtrack_level :: "nat \<Rightarrow> solver \<Rightarrow> nat res" where
  "determine_actual_backtrack_level jump s =
     (let level = s_level s; opts = s_opts s in
      if o_chrono opts = 0 then Inr jump
      else if o_chronoalways opts then Inr (level - 1)
      else if int jump \<ge> int level - 1 then Inr jump
      else if jump < length (s_assumptions s) then Inr jump
      else if int level - int jump > o_chronolevelim opts then Inr (level - 1)
      else if o_chronoreusetrail opts then
        bind_res (vec_get (s_control s) (jump + 1)) (\<lambda>l.
          let better = (if use_scores s then (\<lambda>idx best. score_smaller (s_stab s) best idx)
                        else (\<lambda>idx best. q_btab (s_queue s) best < q_btab (s_queue s) idx));
              best_pos = snd (best_on_trail better (drop (l_trail l) (s_trail s)) (l_trail l) (0, 0))
          in reuse_level (s_control s) level best_pos (level - jump) jump)
      else Inr jump)"

section \<open>The driving clause\<close>

definition trail_rank :: "solver \<Rightarrow> int \<Rightarrow> int" where
  "trail_rank s l = - (int (v_level (s_vtab s (vidx l))) * 2 ^ 32 + int (v_trail (s_vtab s (vidx l))))"

definition new_driving_clause :: "nat \<Rightarrow> solver \<Rightarrow> nat \<times> nat option \<times> solver" where
  "new_driving_clause glue s =
     (let size = length (s_clause s) in
      if size = 0 then (0, None, s)
      else if size = 1 then (0, None, s\<lparr>s_iterating := True\<rparr>)
      else
        let s = s\<lparr>s_clause := sort_key (trail_rank s) (s_clause s)\<rparr>;
            jump = v_level (s_vtab s (vidx (s_clause s ! 1)));
            (c, s) = new_learned_redundant_clause glue s
        in (jump, Some c, upd_clause c (c_used_update (\<lambda>_. 1 + (if glue \<le> o_tier2 (s_opts s) then 1 else 0))) s))"

section \<open>Eager subsumption\<close>

definition clause_marks :: "int list \<Rightarrow> nat \<Rightarrow> int" where
  "clause_marks lits = fold (\<lambda>lit m. m(vidx lit := sgn lit)) lits (\<lambda>_. 0)"

fun subsumed_scan :: "(nat \<Rightarrow> int) \<Rightarrow> int list \<Rightarrow> nat \<Rightarrow> nat" where
  "subsumed_scan marks [] needed = needed"
| "subsumed_scan marks (lit # ls) needed =
     (if (if lit < 0 then - marks (vidx lit) else marks (vidx lit)) \<le> 0 then subsumed_scan marks ls needed
      else if needed = 1 then 0 else subsumed_scan marks ls (needed - 1))"

fun eager_loop :: "nat \<Rightarrow> (nat \<Rightarrow> int) \<Rightarrow> nat \<Rightarrow> nat list \<Rightarrow> solver \<Rightarrow> solver" where
  "eager_loop c marks bound [] s = s"
| "eager_loop c marks bound (d # ds) s =
     (let go = (s_eagertried s \<le> bound); s = s\<lparr>s_eagertried := s_eagertried s + 1\<rparr> in
      if \<not> go then s
      else if c = d then eager_loop c marks bound ds s
      else if c_garbage (s_heap s d) then eager_loop c marks bound ds s
      else if \<not> c_redundant (s_heap s d) then eager_loop c marks bound ds s
      else if subsumed_scan marks (c_lits (s_heap s d)) (length (c_lits (s_heap s c))) \<noteq> 0 then eager_loop c marks bound ds s
      else eager_loop c marks bound ds (mark_garbage d s))"

definition eagerly_subsume_recently_learned_clauses :: "nat \<Rightarrow> solver \<Rightarrow> solver" where
  "eagerly_subsume_recently_learned_clauses c s =
     eager_loop c (clause_marks (c_lits (s_heap s c))) (s_eagertried s + o_eagersubsumelim (s_opts s)) (rev (s_clauses s)) s"

section \<open>Analysis\<close>

definition clear_analyzed_literals :: "solver \<Rightarrow> solver" where
  "clear_analyzed_literals s = (fold (\<lambda>lit. upd_flags lit (f_seen_update (\<lambda>_. False))) (s_analyzed s) s)\<lparr>s_analyzed := []\<rparr>"

definition clear_analyzed_levels :: "solver \<Rightarrow> solver" where
  "clear_analyzed_levels s =
     s\<lparr>s_control := fold (\<lambda>l ls. if l < length ls then ls[l := reset_level (ls ! l)] else ls) (s_levels s) (s_control s),
       s_levels := []\<rparr>"

text \<open>The learned clause: the first unique implication point, \<open>UIPAUX\<close>, and minimization.\<close>

definition derive_clause :: "bool \<Rightarrow> (nat \<Rightarrow> bool) \<Rightarrow> nat \<Rightarrow> solver \<Rightarrow> (int \<times> nat \<times> nat \<times> solver) res" where
  "derive_clause uipaux aux c s =
     bind_res (uip_loop uipaux aux (length (s_trail s)) 0 (Some c) 0 s) (\<lambda>(uip, open_lits, s).
     let s = s\<lparr>s_clause := s_clause s @ [- uip]\<rparr> in
     bind_res (if uipaux then erase_aux (length (s_clause s) + s_max_var s) aux 0 open_lits s else Inr (open_lits, s)) (\<lambda>(_, s).
     let size = length (s_clause s); glue = length (s_levels s) - 1 in
     bind_res (if size > 1 \<and> \<not> uipaux \<and> o_minimize (s_opts s) then minimize_clause s else Inr s) (\<lambda>s.
       Inr (uip, size, glue, s))))"

definition learn_clause :: "bool \<Rightarrow> bool \<Rightarrow> (nat \<Rightarrow> bool) \<Rightarrow> nat \<Rightarrow> solver \<Rightarrow> (nat option \<times> solver) res" where
  "learn_clause uipaux branchaux aux c s =
     bind_res (derive_clause uipaux aux c s) (\<lambda>(uip, size, glue, s).
     bind_res (if size > 1 \<and> o_bump (s_opts s) then bump_variables branchaux aux s else Inr s) (\<lambda>s.
     case new_driving_clause glue s of (jump, driving, s) \<Rightarrow>
     bind_res (determine_actual_backtrack_level jump s) (\<lambda>level.
     bind_res (backtrack_to level s) (\<lambda>s.
     let s = (if uip \<noteq> 0 then search_assign_driving (- uip) driving s else learn_empty_clause s);
         s = clear_analyzed_literals s; s = clear_analyzed_levels s
     in Inr (driving, s\<lparr>s_clause := [], s_conflict := None\<rparr>)))))"

definition analyze_conflict :: "bool \<Rightarrow> bool \<Rightarrow> (nat \<Rightarrow> bool) \<Rightarrow> solver \<Rightarrow> solver res" where
  "analyze_conflict uipaux branchaux aux s =
     (case s_conflict s of None \<Rightarrow> Inl NullPointer
      | Some c \<Rightarrow>
          bind_res
            (if o_chrono (s_opts s) \<noteq> 0 then
               (case find_conflict_level c s of (conflict_level, forced, s) \<Rightarrow>
                  if forced \<noteq> 0 then
                    bind_res (backtrack_to (conflict_level - 1) s) (\<lambda>s.
                      Inr (True, (search_assign_driving forced (Some c) s)\<lparr>s_conflict := None\<rparr>))
                  else bind_res (backtrack_to conflict_level s) (\<lambda>s. Inr (False, s)))
             else Inr (False, s))
            (\<lambda>(finished, s).
              if finished then Inr s
              else if s_level s = 0 then Inr (learn_empty_clause s)
              else bind_res (learn_clause uipaux branchaux aux c s) (\<lambda>(driving, s).
                case driving of
                  Some d \<Rightarrow> Inr (if o_eagersubsume (s_opts s) then eagerly_subsume_recently_learned_clauses d s else s)
                | None \<Rightarrow> Inr s)))"

text \<open>\<open>iterate\<close> only reports.\<close>

definition iterate :: "solver \<Rightarrow> solver" where
  "iterate s = s\<lparr>s_iterating := False\<rparr>"

end
