(* ===== verification/Search_Inv.thy ===== *)
theory Search_Inv
  imports Search_Learn
begin

text \<open>
  The invariant of the search: values agree with the trail, each literal on the trail is a
  consequence of the formula, a decision, or implied by its reason and earlier literals of at most its level,
  and the control stack marks where the levels begin.  \<open>M\<close> is the set of models of the formula.
\<close>

section \<open>The invariant\<close>

abbreviation lits :: "solver \<Rightarrow> nat \<Rightarrow> int list" where "lits s c \<equiv> c_lits (s_heap s c)"
abbreviation lev :: "solver \<Rightarrow> int \<Rightarrow> nat" where "lev s l \<equiv> v_level (s_vtab s (vidx l))"
abbreviation rsn :: "solver \<Rightarrow> int \<Rightarrow> nat option" where "rsn s l \<equiv> v_reason (s_vtab s (vidx l))"
abbreviation chrono :: "solver \<Rightarrow> bool" where "chrono s \<equiv> o_chrono (s_opts s) \<noteq> 0"

definition lit_in :: "solver \<Rightarrow> int \<Rightarrow> bool" where
  "lit_in s l \<longleftrightarrow> l \<noteq> 0 \<and> vidx l \<le> s_max_var s"

definition vals_ok :: "solver \<Rightarrow> bool" where
  "vals_ok s \<longleftrightarrow>
     (\<forall>l. l \<noteq> 0 \<longrightarrow> s_vals s l = (if l \<in> set (s_trail s) then 1 else if - l \<in> set (s_trail s) then - 1 else 0))
     \<and> distinct (map vidx (s_trail s)) \<and> (\<forall>l \<in> set (s_trail s). lit_in s l)
     \<and> (\<forall>l \<in> set (s_trail s). v_trail (s_vtab s (vidx l)) < s_max_var s)"

text \<open>A reason with the trail before the literal: the other literals are false.\<close>

definition implied_by :: "solver \<Rightarrow> nat \<Rightarrow> int list \<Rightarrow> int \<Rightarrow> bool" where
  "implied_by s c before l \<longleftrightarrow> c < s_next s \<and> l \<in> set (lits s c)
     \<and> (\<forall>k \<in> set (lits s c). k \<noteq> l \<longrightarrow> - k \<in> set before \<and> lev s k \<le> lev s l)
     \<and> (chrono s \<longrightarrow> (\<exists>k \<in> set (lits s c). k \<noteq> l \<and> lev s k = lev s l))"

definition assigned_ok :: "(nat \<Rightarrow> bool) set \<Rightarrow> solver \<Rightarrow> int list \<Rightarrow> int \<Rightarrow> bool" where
  "assigned_ok M s before l \<longleftrightarrow> lev s l \<le> s_level s \<and>
     (case rsn s l of
        Some c \<Rightarrow> 0 < lev s l \<and> implied_by s c before l
      | None \<Rightarrow> if lev s l = 0 then ent M [l] else l_decision (s_control s ! lev s l) = l)"

definition trail_ok :: "(nat \<Rightarrow> bool) set \<Rightarrow> solver \<Rightarrow> bool" where
  "trail_ok M s \<longleftrightarrow> (\<forall>i < length (s_trail s). assigned_ok M s (take i (s_trail s)) (s_trail s ! i))"

definition control_ok :: "solver \<Rightarrow> bool" where
  "control_ok s \<longleftrightarrow> length (s_control s) = s_level s + 1
     \<and> (\<forall>k. 0 < k \<longrightarrow> k \<le> s_level s \<longrightarrow> l_trail (s_control s ! k) \<le> length (s_trail s)
          \<and> (\<forall>i < l_trail (s_control s ! k). lev s (s_trail s ! i) < k)
          \<and> (\<forall>j. 0 < j \<longrightarrow> j \<le> k \<longrightarrow> l_trail (s_control s ! j) \<le> l_trail (s_control s ! k)))"

definition clause_ok_on :: "(nat \<Rightarrow> bool) set \<Rightarrow> solver \<Rightarrow> int list \<Rightarrow> bool" where
  "clause_ok_on M s c \<longleftrightarrow> 2 \<le> length c \<and> distinct c \<and> (\<forall>l \<in> set c. lit_in s l) \<and> ent M c"

text \<open>No model satisfies all the assumptions and the constraint.\<close>

definition hopeless :: "(nat \<Rightarrow> bool) set \<Rightarrow> solver \<Rightarrow> bool" where
  "hopeless M s \<longleftrightarrow> (\<forall>a \<in> M. \<not> ((\<forall>l \<in> set (s_assumptions s). lit_on a l) \<and> (s_constraint s = [] \<or> cl_on a (s_constraint s))))"

definition clauses_ok :: "(nat \<Rightarrow> bool) set \<Rightarrow> solver \<Rightarrow> bool" where
  "clauses_ok M s \<longleftrightarrow> (\<forall>c < s_next s. clause_ok_on M s (lits s c))
     \<and> (\<forall>c \<in> set (s_clauses s). c < s_next s) \<and> (\<forall>c. Derived c \<in> set (s_proof s) \<longrightarrow> ent M c)
     \<and> (s_unsat_constraint s \<longrightarrow> hopeless M s)"

text \<open>What decisions are made from: phases are 1, -1 or 0, and the first levels decide the assumptions.\<close>

definition bounded :: "(nat \<Rightarrow> int) \<Rightarrow> bool" where
  "bounded f \<longleftrightarrow> (\<forall>i. \<bar>f i\<bar> \<le> 1)"

definition plan_ok :: "solver \<Rightarrow> bool" where
  "plan_ok s \<longleftrightarrow> bounded (ph_saved (s_phases s)) \<and> bounded (ph_forced (s_phases s)) \<and> bounded (ph_target (s_phases s)) \<and> bounded (s_best s)
     \<and> (\<forall>l \<in> set (s_assumptions s) \<union> set (s_constraint s). lit_in s l)
     \<and> (\<forall>k. 0 < k \<longrightarrow> k \<le> s_level s \<longrightarrow> k \<le> length (s_assumptions s) \<longrightarrow> l_decision (s_control s ! k) \<in> {0, s_assumptions s ! (k - 1)})"

definition graph_ok :: "(nat \<Rightarrow> bool) set \<Rightarrow> solver \<Rightarrow> bool" where
  "graph_ok M s \<longleftrightarrow> vals_ok s \<and> trail_ok M s \<and> control_ok s \<and> clauses_ok M s \<and> plan_ok s"

text \<open>The part of the state the invariant depends on.\<close>

definition same_graph :: "solver \<Rightarrow> solver \<Rightarrow> bool" where
  "same_graph s t \<longleftrightarrow> s_max_var t = s_max_var s \<and> s_vals t = s_vals s \<and> s_trail t = s_trail s \<and> s_level t = s_level s
     \<and> (\<forall>i. v_level (s_vtab t i) = v_level (s_vtab s i) \<and> v_reason (s_vtab t i) = v_reason (s_vtab s i)
          \<and> v_trail (s_vtab t i) = v_trail (s_vtab s i))
     \<and> map l_trail (s_control t) = map l_trail (s_control s) \<and> map l_decision (s_control t) = map l_decision (s_control s)
     \<and> s_next t = s_next s \<and> s_clauses t = s_clauses s \<and> (\<forall>c. lits t c = lits s c) \<and> s_opts t = s_opts s
     \<and> (\<forall>c. Derived c \<in> set (s_proof t) \<longrightarrow> Derived c \<in> set (s_proof s))
     \<and> s_phases t = s_phases s \<and> s_best t = s_best s \<and> s_assumptions t = s_assumptions s \<and> s_constraint t = s_constraint s
     \<and> s_unsat_constraint t = s_unsat_constraint s"

lemma same_graph_refl [simp]: "same_graph s s"
  by (simp add: same_graph_def)

lemma same_graph_trans: "same_graph s t \<Longrightarrow> same_graph t u \<Longrightarrow> same_graph s u"
  by (simp add: same_graph_def)

lemma map_eq_nth: "map f xs = map f ys \<Longrightarrow> i < length xs \<Longrightarrow> f (xs ! i) = f (ys ! i)"
  by (metis length_map nth_map)

lemma same_graph_ok:
  assumes "same_graph s t" and "graph_ok M s"
  shows "graph_ok M t"
proof -
  have eq: "s_max_var t = s_max_var s" "s_vals t = s_vals s" "s_trail t = s_trail s" "s_level t = s_level s"
    "\<And>i. v_level (s_vtab t i) = v_level (s_vtab s i)" "\<And>i. v_reason (s_vtab t i) = v_reason (s_vtab s i)"
    "\<And>i. v_trail (s_vtab t i) = v_trail (s_vtab s i)" "s_next t = s_next s" "s_clauses t = s_clauses s" "\<And>c. lits t c = lits s c" "s_opts t = s_opts s"
    "length (s_control t) = length (s_control s)" "s_phases t = s_phases s" "s_best t = s_best s" "s_assumptions t = s_assumptions s"
    "s_constraint t = s_constraint s" "s_unsat_constraint t = s_unsat_constraint s"
    using assms(1) by (auto simp: same_graph_def dest: map_eq_imp_length_eq)
  have ctrl: "l_trail (s_control t ! k) = l_trail (s_control s ! k)" "l_decision (s_control t ! k) = l_decision (s_control s ! k)"
    if "k \<le> s_level s" for k
  proof -
    have "k < length (s_control t)" using that assms(2) by (simp add: graph_ok_def control_ok_def eq)
    then show "l_trail (s_control t ! k) = l_trail (s_control s ! k)" "l_decision (s_control t ! k) = l_decision (s_control s ! k)"
      using assms(1) by (auto simp: same_graph_def intro!: map_eq_nth)
  qed
  have "vals_ok t" using assms(2) by (simp add: graph_ok_def vals_ok_def eq lit_in_def)
  moreover have "assigned_ok M t before l \<longleftrightarrow> assigned_ok M s before l" for before l
    unfolding assigned_ok_def implied_by_def eq using ctrl(2) [of "lev s l"] by (auto split: option.splits)
  then have "trail_ok M t" using assms(2) by (simp add: graph_ok_def trail_ok_def eq)
  moreover have "control_ok t" using assms(2) ctrl(1) by (simp add: graph_ok_def control_ok_def eq)
  moreover have "\<forall>c. Derived c \<in> set (s_proof t) \<longrightarrow> Derived c \<in> set (s_proof s)" using assms(1) by (simp add: same_graph_def)
  then have "clauses_ok M t" using assms(2) by (simp add: graph_ok_def clauses_ok_def clause_ok_on_def hopeless_def eq lit_in_def)
  moreover have "plan_ok t" using assms(2) ctrl(2) by (simp add: graph_ok_def plan_ok_def eq lit_in_def)
  ultimately show ?thesis by (simp add: graph_ok_def)
qed

lemma assigned_ok_transfer:
  assumes "assigned_ok M s before l" and "lev t l = lev s l" and "rsn t l = rsn s l"
    and "s_level t = s_level s" and "s_control t ! lev s l = s_control s ! lev s l" and "s_next s \<le> s_next t"
    and "\<And>c. c < s_next s \<Longrightarrow> set (lits t c) = set (lits s c)" and "chrono t = chrono s"
    and "\<And>k. - k \<in> set before \<Longrightarrow> lev t k = lev s k" and "set before \<subseteq> set before'"
  shows "assigned_ok M t before' l"
proof (cases "rsn s l")
  case None
  with assms(1-5) show ?thesis by (simp add: assigned_ok_def)
next
  case (Some c)
  with assms(1) have ib: "implied_by s c before l" "0 < lev s l" "lev s l \<le> s_level s" by (simp_all add: assigned_ok_def)
  have c: "c < s_next s" using ib(1) by (simp add: implied_by_def)
  have k: "- k \<in> set before" "lev s k \<le> lev s l" if "k \<in> set (lits s c)" "k \<noteq> l" for k
    using ib(1) that by (simp_all add: implied_by_def)
  have "implied_by t c before' l"
    unfolding implied_by_def assms(7) [OF c]
  proof (intro conjI ballI impI)
    show "c < s_next t" "l \<in> set (lits s c)" using ib(1) c assms(6) by (simp_all add: implied_by_def)
  next
    fix k assume "k \<in> set (lits s c)" "k \<noteq> l"
    from k [OF this] show "- k \<in> set before'" "lev t k \<le> lev t l" using assms(2,9,10) by auto
  next
    assume "chrono t"
    then obtain k' where "k' \<in> set (lits s c)" "k' \<noteq> l" "lev s k' = lev s l" using ib(1) assms(8) by (auto simp: implied_by_def)
    with k(1) assms(2,9) show "\<exists>k \<in> set (lits s c). k \<noteq> l \<and> lev t k = lev t l" by metis
  qed
  with Some ib assms(2-4) show ?thesis by (simp add: assigned_ok_def)
qed

section \<open>Facts on values\<close>

lemma vals_iff:
  assumes "vals_ok s" and "l \<noteq> 0"
  shows "s_vals s l > 0 \<longleftrightarrow> l \<in> set (s_trail s)" "s_vals s l < 0 \<longleftrightarrow> - l \<in> set (s_trail s)"
    "s_vals s l = 0 \<longleftrightarrow> l \<notin> set (s_trail s) \<and> - l \<notin> set (s_trail s)"
proof -
  have "\<not> (l \<in> set (s_trail s) \<and> - l \<in> set (s_trail s))"
  proof
    assume "l \<in> set (s_trail s) \<and> - l \<in> set (s_trail s)"
    moreover have "inj_on vidx (set (s_trail s))" using assms(1) by (simp add: vals_ok_def distinct_map)
    ultimately have "l = - l" unfolding inj_on_def by force
    with assms(2) show False by simp
  qed
  with assms show "s_vals s l > 0 \<longleftrightarrow> l \<in> set (s_trail s)" "s_vals s l < 0 \<longleftrightarrow> - l \<in> set (s_trail s)"
    "s_vals s l = 0 \<longleftrightarrow> l \<notin> set (s_trail s) \<and> - l \<notin> set (s_trail s)"
    by (auto simp: vals_ok_def)
qed

lemma vidx_eq: "vidx k = vidx l \<longleftrightarrow> k = l \<or> k = - l"
  by (auto simp: abs_eq_iff)

lemma trail_var_unique:
  assumes "vals_ok s" and "k \<in> set (s_trail s)" and "l \<in> set (s_trail s)" and "vidx k = vidx l"
  shows "k = l"
  using assms unfolding vals_ok_def distinct_map inj_on_def by blast

lemma trail_index:
  assumes "vals_ok s" and "i < length (s_trail s)" and "j < length (s_trail s)" and "vidx (s_trail s ! i) = vidx (s_trail s ! j)"
  shows "i = j"
proof -
  have "map vidx (s_trail s) ! i = map vidx (s_trail s) ! j" using assms(2-4) by simp
  with assms(1-3) show ?thesis unfolding vals_ok_def by (metis length_map nth_eq_iff_index_eq)
qed

lemma vars_length:
  assumes "distinct (map vidx ls)" and "\<forall>l \<in> set ls. lit_in s l"
  shows "length ls \<le> s_max_var s"
proof -
  have "0 < vidx l" "vidx l \<le> s_max_var s" if "l \<in> set ls" for l using assms(2) that by (auto simp: lit_in_def)
  then have "vidx ` set ls \<subseteq> {1 .. s_max_var s}" by force
  from card_mono [OF _ this] have "card (vidx ` set ls) \<le> s_max_var s" by simp
  moreover have "card (vidx ` set ls) = length ls" using distinct_card [OF assms(1)] by simp
  ultimately show ?thesis by simp
qed

lemma trail_length: "vals_ok s \<Longrightarrow> length (s_trail s) \<le> s_max_var s"
  by (rule vars_length) (simp_all add: vals_ok_def)

lemma level0_ent:
  assumes "graph_ok M s" and "l \<in> set (s_trail s)" and "lev s l = 0"
  shows "ent M [l]"
proof -
  obtain i where i: "i < length (s_trail s)" "s_trail s ! i = l" using assms(2) by (auto simp: in_set_conv_nth)
  then have "assigned_ok M s (take i (s_trail s)) l" using assms(1) by (auto simp: graph_ok_def trail_ok_def)
  with assms(3) show ?thesis by (simp add: assigned_ok_def split: option.splits)
qed

lemma reason_at:
  assumes "graph_ok M s" and "i < length (s_trail s)" and "rsn s (s_trail s ! i) = Some c"
  shows "implied_by s c (take i (s_trail s)) (s_trail s ! i)" and "0 < lev s (s_trail s ! i)"
  using assms by (auto simp: graph_ok_def trail_ok_def assigned_ok_def split: option.splits)

lemma level_le:
  assumes "graph_ok M s" and "l \<in> set (s_trail s)"
  shows "lev s l \<le> s_level s"
  using assms by (auto simp: graph_ok_def trail_ok_def assigned_ok_def in_set_conv_nth)

section \<open>Assigning a literal\<close>

definition lit_level :: "int \<Rightarrow> why \<Rightarrow> solver \<Rightarrow> nat" where
  "lit_level lit reason s = (case reason of NoReason \<Rightarrow> 0 | DecisionReason \<Rightarrow> s_level s
     | Because c \<Rightarrow> if chrono s then assignment_level lit c s else s_level s)"

definition lit_reason :: "int \<Rightarrow> why \<Rightarrow> solver \<Rightarrow> nat option" where
  "lit_reason lit reason s =
     (if lit_level lit reason s = 0 then None else case reason of Because c \<Rightarrow> Some c | _ \<Rightarrow> None)"

lemma search_assign_fields [simp]:
  "s_trail (search_assign lit why s) = s_trail s @ [lit]"
  "s_vals (search_assign lit why s) = (s_vals s)(\<bar>lit\<bar> := sgn lit, - \<bar>lit\<bar> := - sgn lit)"
  "s_vtab (search_assign lit why s)
     = (s_vtab s)(vidx lit := \<lparr>v_level = lit_level lit why s, v_trail = length (s_trail s), v_reason = lit_reason lit why s\<rparr>)"
  "s_max_var (search_assign lit why s) = s_max_var s" "s_level (search_assign lit why s) = s_level s"
  "s_control (search_assign lit why s) = s_control s" "s_heap (search_assign lit why s) = s_heap s"
  "s_next (search_assign lit why s) = s_next s" "s_clauses (search_assign lit why s) = s_clauses s"
  "s_watches (search_assign lit why s) = s_watches s" "s_opts (search_assign lit why s) = s_opts s"
  "s_conflict (search_assign lit why s) = s_conflict s" "s_propagated (search_assign lit why s) = s_propagated s"
  "s_unsat (search_assign lit why s) = s_unsat s" "s_scores (search_assign lit why s) = s_scores s"
  "s_stab (search_assign lit why s) = s_stab s" "s_queue (search_assign lit why s) = s_queue s"
  "s_clause (search_assign lit why s) = s_clause s" "s_analyzed (search_assign lit why s) = s_analyzed s"
  "s_minimized (search_assign lit why s) = s_minimized s" "s_levels (search_assign lit why s) = s_levels s"
  "s_assumptions (search_assign lit why s) = s_assumptions s" "s_constraint (search_assign lit why s) = s_constraint s"
  "s_score_inc (search_assign lit why s) = s_score_inc s" "s_unsat_constraint (search_assign lit why s) = s_unsat_constraint s"
  "s_proof (search_assign lit why s) = s_proof s @ (if lit_level lit why s = 0 then [Derived [lit]] else [])"
  by (simp_all add: search_assign_def Let_def learn_unit_clause_def mark_fixed_def upd_flags_def lit_level_def lit_reason_def
      split: if_splits why.splits)

lemma search_assign_phases [simp]:
  "s_phases (search_assign lit why s) = (if s_lucky s then s_phases s else (s_phases s)\<lparr>ph_saved := (ph_saved (s_phases s))(vidx lit := sgn lit)\<rparr>)"
  "s_best (search_assign lit why s) = s_best s"
  by (simp_all add: search_assign_def Let_def learn_unit_clause_def mark_fixed_def upd_flags_def split: if_splits why.splits)

lemma search_assign_flags [simp]:
  "f_seen (s_flags (search_assign lit why s) i) = f_seen (s_flags s i)"
  "f_keep (s_flags (search_assign lit why s) i) = f_keep (s_flags s i)"
  "f_poison (s_flags (search_assign lit why s) i) = f_poison (s_flags s i)"
  "f_removable (s_flags (search_assign lit why s) i) = f_removable (s_flags s i)"
  by (simp_all add: search_assign_def Let_def learn_unit_clause_def mark_fixed_def upd_flags_def split: if_splits why.splits)

lemma assignment_level_max:
  "fold (\<lambda>other r. if other = lit then r else let t = g other in if t > r then t else r) ls r0
    = fold max (map g (filter (\<lambda>k. k \<noteq> lit) ls)) (r0 :: nat)"
  by (induction ls arbitrary: r0) (auto simp: Let_def max_def)

lemma assignment_level_ge:
  "k \<in> set (lits s c) \<Longrightarrow> k \<noteq> lit \<Longrightarrow> lev s k \<le> assignment_level lit c s"
  unfolding assignment_level_def assignment_level_max
  by (rule Max_ge [where A = "set (0 # map (lev s) (filter (\<lambda>k. k \<noteq> lit) (lits s c)))", unfolded Max.set_eq_fold]) auto

lemma assignment_level_attained:
  assumes "0 < assignment_level lit c s"
  shows "\<exists>k \<in> set (lits s c). k \<noteq> lit \<and> lev s k = assignment_level lit c s"
proof -
  have "assignment_level lit c s = Max (set (0 # map (lev s) (filter (\<lambda>k. k \<noteq> lit) (lits s c))))"
    unfolding assignment_level_def assignment_level_max by (simp only: Max.set_eq_fold)
  then have "assignment_level lit c s \<in> set (0 # map (lev s) (filter (\<lambda>k. k \<noteq> lit) (lits s c)))"
    by (metis List.finite_set Max_in empty_iff list.set_intros(1))
  with assms show ?thesis by auto
qed

text \<open>When a literal may be assigned with a reason.\<close>

definition may_assign :: "(nat \<Rightarrow> bool) set \<Rightarrow> int \<Rightarrow> why \<Rightarrow> solver \<Rightarrow> bool" where
  "may_assign M lit why s \<longleftrightarrow> lit_in s lit \<and> s_vals s lit = 0 \<and>
     (case why of NoReason \<Rightarrow> ent M [lit]
      | DecisionReason \<Rightarrow> 0 < s_level s \<and> l_decision (s_control s ! s_level s) = lit
      | Because c \<Rightarrow> c < s_next s \<and> lit \<in> set (lits s c) \<and> (\<forall>k \<in> set (lits s c). k \<noteq> lit \<longrightarrow> - k \<in> set (s_trail s)))"

lemma ent_unit:
  assumes "ent M c" and "l \<in> set c" and "\<And>k. k \<in> set c \<Longrightarrow> k \<noteq> l \<Longrightarrow> k \<noteq> 0 \<and> ent M [- k]"
  shows "ent M [l]"
  using assms unfolding ent_def cl_on_def list_ex_iff by (metis empty_iff empty_set lit_on_neg set_ConsD list.set_intros(1))

lemma search_assign_graph_ok:
  assumes g: "graph_ok M s" and a: "may_assign M lit why s"
  shows "graph_ok M (search_assign lit why s)"
proof -
  let ?t = "search_assign lit why s"
  have v: "vals_ok s" and t: "trail_ok M s" and ct: "control_ok s" and cl: "clauses_ok M s" using g by (simp_all add: graph_ok_def)
  have lit: "lit \<noteq> 0" "vidx lit \<le> s_max_var s" "s_vals s lit = 0" using a by (simp_all add: may_assign_def lit_in_def)
  have new: "vidx l \<noteq> vidx lit" if "l \<in> set (s_trail s)" for l
    using vals_iff(3) [OF v lit(1)] lit(3) that by (auto simp: vidx_eq)
  have vals: "s_vals ?t l = (if l \<in> set (s_trail ?t) then 1 else if - l \<in> set (s_trail ?t) then - 1 else 0)" if "l \<noteq> 0" for l
  proof (cases "vidx l = vidx lit")
    case True
    then have l: "l = lit \<or> l = - lit" by (simp add: vidx_eq)
    then have "l \<notin> set (s_trail s)" "- l \<notin> set (s_trail s)" using new by (force simp: vidx_eq)+
    with l that lit(1) show ?thesis by (auto simp: sgn_if abs_if)
  next
    case False
    then have l: "l \<noteq> lit" "l \<noteq> - lit" using vidx_eq [of l lit] by blast+
    then have "l \<noteq> \<bar>lit\<bar>" "l \<noteq> - \<bar>lit\<bar>" by (auto simp: abs_if)
    with l that v show ?thesis by (auto simp: vals_ok_def)
  qed
  have "vidx lit \<notin> vidx ` set (s_trail s)" using new by (metis imageE)
  then have dist: "distinct (map vidx (s_trail ?t))" using v by (simp add: vals_ok_def)
  have ins: "\<forall>l \<in> set (s_trail ?t). lit_in ?t l" using v lit by (simp add: vals_ok_def lit_in_def)
  have "length (s_trail ?t) \<le> s_max_var ?t" by (rule vars_length [OF dist ins])
  then have "\<forall>l \<in> set (s_trail ?t). v_trail (s_vtab ?t (vidx l)) < s_max_var ?t" using v new by (auto simp: vals_ok_def)
  then have "vals_ok ?t" unfolding vals_ok_def using vals dist ins by blast
  moreover have lev_old: "lev ?t l = lev s l" "rsn ?t l = rsn s l" if "l \<in> set (s_trail s)" for l using new [OF that] by simp_all
  have lev_neg: "lev ?t k = lev s k" if "- k \<in> set (s_trail s)" for k using new [OF that] by simp
  have "control_ok ?t"
    unfolding control_ok_def
  proof (intro conjI allI impI)
    fix k assume k: "0 < k" "k \<le> s_level ?t"
    then have c: "l_trail (s_control s ! k) \<le> length (s_trail s)" "\<forall>i < l_trail (s_control s ! k). lev s (s_trail s ! i) < k"
      using ct by (simp_all add: control_ok_def)
    show "l_trail (s_control ?t ! k) \<le> length (s_trail ?t)" using c(1) by simp
    fix i assume i: "i < l_trail (s_control ?t ! k)"
    then have il: "i < length (s_trail s)" using c(1) by simp
    then have "lev ?t (s_trail s ! i) = lev s (s_trail s ! i)" by (intro lev_old(1)) simp
    with il i c(2) show "lev ?t (s_trail ?t ! i) < k" by (simp add: nth_append)
  qed (use ct in \<open>simp_all add: control_ok_def\<close>)
  moreover have "assigned_ok M ?t (take i (s_trail ?t)) (s_trail ?t ! i)" if i: "i < length (s_trail ?t)" for i
  proof (cases "i < length (s_trail s)")
    case True
    let ?l = "s_trail s ! i"
    have l: "?l \<in> set (s_trail s)" using True by simp
    have o: "assigned_ok M s (take i (s_trail s)) ?l" using t True by (simp add: trail_ok_def)
    have sub: "- k \<in> set (s_trail s)" if "- k \<in> set (take i (s_trail s))" for k using that in_set_takeD by fastforce
    have "assigned_ok M ?t (take i (s_trail s)) ?l"
    proof (rule assigned_ok_transfer [OF o lev_old [OF l]])
      show "lev ?t k = lev s k" if "- k \<in> set (take i (s_trail s))" for k by (rule lev_neg [OF sub [OF that]])
    qed simp_all
    with True show ?thesis by (simp add: nth_append)
  next
    case False
    then have il: "i = length (s_trail s)" using i by simp
    have ll: "lev ?t lit = lit_level lit why s" "rsn ?t lit = lit_reason lit why s" by simp_all
    have "assigned_ok M ?t (s_trail s) lit"
    proof (cases why)
      case NoReason
      with a show ?thesis by (simp add: assigned_ok_def may_assign_def lit_level_def lit_reason_def)
    next
      case DecisionReason
      with a show ?thesis by (simp add: assigned_ok_def may_assign_def lit_level_def lit_reason_def)
    next
      case (Because c)
      have c: "c < s_next s" "lit \<in> set (lits s c)" "\<And>k. k \<in> set (lits s c) \<Longrightarrow> k \<noteq> lit \<Longrightarrow> - k \<in> set (s_trail s)"
        using a Because by (auto simp: may_assign_def)
      have cok: "clause_ok_on M s (lits s c)" using cl c(1) by (simp add: clauses_ok_def)
      have lev_k: "lev s k \<le> lit_level lit why s" if k: "k \<in> set (lits s c)" "k \<noteq> lit" for k
      proof (cases "chrono s")
        case True
        with assignment_level_ge [OF k] Because show ?thesis by (simp add: lit_level_def)
      next
        case False
        with level_le [OF g c(3) [OF k]] Because show ?thesis by (simp add: lit_level_def)
      qed
      have le: "lit_level lit why s \<le> s_level s"
      proof (cases "chrono s \<and> 0 < assignment_level lit c s")
        case True
        then obtain k where "k \<in> set (lits s c)" "k \<noteq> lit" "lev s k = assignment_level lit c s"
          using assignment_level_attained by blast
        with level_le [OF g c(3), of k] True Because show ?thesis by (simp add: lit_level_def)
      next
        case False
        then show ?thesis using Because by (auto simp: lit_level_def)
      qed
      show ?thesis
      proof (cases "lit_level lit why s = 0")
        case True
        have "ent M [lit]"
        proof (rule ent_unit [of M "lits s c"])
          show "ent M (lits s c)" using cok by (simp add: clause_ok_on_def)
          show "lit \<in> set (lits s c)" by (rule c(2))
        next
          fix k assume k: "k \<in> set (lits s c)" "k \<noteq> lit"
          have "lev s (- k) = 0" using lev_k [OF k] True by simp
          with level0_ent [OF g c(3) [OF k]] k cok show "k \<noteq> 0 \<and> ent M [- k]" by (auto simp: clause_ok_on_def lit_in_def)
        qed
        with True show ?thesis by (simp add: assigned_ok_def lit_reason_def)
      next
        case False
        have "implied_by ?t c (s_trail s) lit"
          unfolding implied_by_def
        proof (intro conjI ballI impI)
          fix k assume k: "k \<in> set (lits ?t c)" "k \<noteq> lit"
          then have k': "k \<in> set (lits s c)" by simp
          show "- k \<in> set (s_trail s)" by (rule c(3) [OF k' k(2)])
          show "lev ?t k \<le> lev ?t lit" unfolding lev_neg [OF c(3) [OF k' k(2)]] ll by (rule lev_k [OF k' k(2)])
        next
          assume "chrono ?t"
          then have "0 < assignment_level lit c s" "lit_level lit why s = assignment_level lit c s"
            using False Because by (simp_all add: lit_level_def)
          then obtain k where k: "k \<in> set (lits s c)" "k \<noteq> lit" "lev s k = lit_level lit why s"
            using assignment_level_attained [of lit c s] by auto
          then show "\<exists>k \<in> set (lits ?t c). k \<noteq> lit \<and> lev ?t k = lev ?t lit"
            using lev_neg [OF c(3) [OF k(1,2)]] by (intro bexI [of _ k]) simp_all
        qed (use c in simp_all)
        with False le Because show ?thesis by (simp add: assigned_ok_def lit_reason_def)
      qed
    qed
    with il show ?thesis by simp
  qed
  ultimately have "vals_ok ?t" "trail_ok M ?t" "control_ok ?t" by (simp_all add: trail_ok_def)
  moreover have "ent M [lit]" if "lit_level lit why s = 0"
  proof -
    have "length (s_trail s) < length (s_trail ?t)" by simp
    with \<open>trail_ok M ?t\<close> have "assigned_ok M ?t (take (length (s_trail s)) (s_trail ?t)) (s_trail ?t ! length (s_trail s))"
      unfolding trail_ok_def by blast
    then have "assigned_ok M ?t (s_trail s) lit" by simp
    with that show ?thesis by (simp add: assigned_ok_def lit_reason_def)
  qed
  then have "ent M c" if "Derived c \<in> set (s_proof ?t)" for c
    using that cl unfolding clauses_ok_def by (cases "lit_level lit why s = 0") auto
  then have "clauses_ok M ?t" using cl
    by (simp only: clauses_ok_def clause_ok_on_def hopeless_def lit_in_def search_assign_fields simp_thms) blast
  moreover have "plan_ok ?t" using g by (simp add: graph_ok_def plan_ok_def bounded_def lit_in_def sgn_if)
  ultimately show ?thesis by (simp add: graph_ok_def)
qed

section \<open>A new decision level\<close>

definition push_level :: "int \<Rightarrow> solver \<Rightarrow> solver" where
  "push_level d s = s\<lparr>s_level := s_level s + 1, s_control := s_control s @ [mk_level d (length (s_trail s))]\<rparr>"

lemma push_level_fields [simp]:
  "s_trail (push_level d s) = s_trail s" "s_vals (push_level d s) = s_vals s" "s_vtab (push_level d s) = s_vtab s"
  "s_max_var (push_level d s) = s_max_var s" "s_heap (push_level d s) = s_heap s" "s_next (push_level d s) = s_next s"
  "s_clauses (push_level d s) = s_clauses s" "s_opts (push_level d s) = s_opts s" "s_level (push_level d s) = s_level s + 1"
  "s_control (push_level d s) = s_control s @ [mk_level d (length (s_trail s))]"
  "s_watches (push_level d s) = s_watches s" "s_conflict (push_level d s) = s_conflict s"
  "s_propagated (push_level d s) = s_propagated s" "s_proof (push_level d s) = s_proof s"
  "s_phases (push_level d s) = s_phases s" "s_best (push_level d s) = s_best s" "s_assumptions (push_level d s) = s_assumptions s"
  "s_constraint (push_level d s) = s_constraint s" "s_unsat_constraint (push_level d s) = s_unsat_constraint s"
  by (simp_all add: push_level_def)

lemma push_level_eqs:
  "pseudo_level s = push_level 0 s"
  "search_assume_decision lit s = search_assign lit DecisionReason (push_level lit s)"
  by (simp_all add: pseudo_level_def push_level_def search_assume_decision_def)

definition may_decide :: "int \<Rightarrow> solver \<Rightarrow> bool" where
  "may_decide d s \<longleftrightarrow> (s_level s < length (s_assumptions s) \<longrightarrow> d \<in> {0, s_assumptions s ! s_level s})"

lemma push_level_graph_ok:
  assumes g: "graph_ok M s" and d: "may_decide d s"
  shows "graph_ok M (push_level d s)"
proof -
  let ?t = "push_level d s"
  have len: "length (s_control s) = s_level s + 1" using g by (simp add: graph_ok_def control_ok_def)
  have "assigned_ok M ?t before l" if o: "assigned_ok M s before l" for before l
  proof -
    have "lev s l < length (s_control s)" using o len by (simp add: assigned_ok_def)
    with o show ?thesis by (simp add: assigned_ok_def implied_by_def nth_append split: option.splits)
  qed
  then have "trail_ok M ?t" using g by (simp add: graph_ok_def trail_ok_def)
  moreover have "control_ok ?t"
  proof -
    have "lev s l < s_level s + 1" if "l \<in> set (s_trail s)" for l using level_le [OF g that] by simp
    moreover have "control_ok s" using g by (simp add: graph_ok_def)
    ultimately show ?thesis using len by (auto simp: control_ok_def nth_append mk_level_def le_Suc_eq)
  qed
  moreover have "plan_ok ?t"
  proof -
    have "l_decision (s_control ?t ! k) \<in> {0, s_assumptions s ! (k - 1)}" if "0 < k" "k \<le> s_level ?t" "k \<le> length (s_assumptions s)" for k
      using that g d len by (cases "k = s_level ?t") (auto simp: graph_ok_def plan_ok_def may_decide_def nth_append mk_level_def)
    with g show ?thesis by (simp add: graph_ok_def plan_ok_def lit_in_def)
  qed
  ultimately show ?thesis
    using g by (simp add: graph_ok_def vals_ok_def lit_in_def clauses_ok_def clause_ok_on_def hopeless_def)
qed

lemma decision_graph_ok:
  assumes "graph_ok M s" and "lit_in s lit" and "s_vals s lit = 0" and "may_decide lit s"
  shows "graph_ok M (search_assume_decision lit s)"
  unfolding push_level_eqs
proof (rule search_assign_graph_ok [OF push_level_graph_ok [OF assms(1,4)]])
  have "length (s_control s) = s_level s + 1" using assms(1) by (simp add: graph_ok_def control_ok_def)
  with assms(2,3) show "may_assign M lit DecisionReason (push_level lit s)"
    by (simp add: may_assign_def lit_in_def nth_append mk_level_def)
qed

section \<open>Backtracking\<close>

lemma update_target_fields [simp]:
  "s_trail (update_target_and_best s) = s_trail s" "s_vals (update_target_and_best s) = s_vals s"
  "s_vtab (update_target_and_best s) = s_vtab s" "s_max_var (update_target_and_best s) = s_max_var s"
  "s_heap (update_target_and_best s) = s_heap s" "s_next (update_target_and_best s) = s_next s"
  "s_clauses (update_target_and_best s) = s_clauses s" "s_opts (update_target_and_best s) = s_opts s"
  "s_level (update_target_and_best s) = s_level s" "s_control (update_target_and_best s) = s_control s"
  "s_watches (update_target_and_best s) = s_watches s" "s_conflict (update_target_and_best s) = s_conflict s"
  "s_propagated (update_target_and_best s) = s_propagated s" "s_scores (update_target_and_best s) = s_scores s"
  "s_stab (update_target_and_best s) = s_stab s" "s_queue (update_target_and_best s) = s_queue s"
  "s_flags (update_target_and_best s) = s_flags s" "s_clause (update_target_and_best s) = s_clause s"
  "s_analyzed (update_target_and_best s) = s_analyzed s" "s_minimized (update_target_and_best s) = s_minimized s"
  "s_proof (update_target_and_best s) = s_proof s" "s_score_inc (update_target_and_best s) = s_score_inc s"
  "s_assumptions (update_target_and_best s) = s_assumptions s" "s_constraint (update_target_and_best s) = s_constraint s"
  "s_unsat_constraint (update_target_and_best s) = s_unsat_constraint s"
  "s_levels (update_target_and_best s) = s_levels s" "s_unsat (update_target_and_best s) = s_unsat s"
  by (simp_all add: update_target_and_best_def Let_def)

lemma update_target_phases:
  assumes "bounded (ph_saved (s_phases s))" and "bounded (ph_target (s_phases s))" and "bounded (s_best s)"
  shows "ph_saved (s_phases (update_target_and_best s)) = ph_saved (s_phases s)"
    "ph_forced (s_phases (update_target_and_best s)) = ph_forced (s_phases s)"
    "bounded (ph_target (s_phases (update_target_and_best s)))" "bounded (s_best (update_target_and_best s))"
proof -
  have c: "bounded (copy_phases n f g)" if "bounded f" "bounded g" for n f g using that by (simp add: bounded_def copy_phases_def)
  show "ph_saved (s_phases (update_target_and_best s)) = ph_saved (s_phases s)"
    "ph_forced (s_phases (update_target_and_best s)) = ph_forced (s_phases s)"
    by (simp_all add: update_target_and_best_def Let_def)
  show "bounded (ph_target (s_phases (update_target_and_best s)))" "bounded (s_best (update_target_and_best s))"
    using assms c [OF assms(1,2)] c [OF assms(1,3)] by (simp_all add: update_target_and_best_def Let_def)
qed

definition clear_val :: "int \<Rightarrow> (int \<Rightarrow> int) \<Rightarrow> int \<Rightarrow> int" where
  "clear_val l v = v(\<bar>l\<bar> := 0, - \<bar>l\<bar> := 0)"

text \<open>What the loop of \<open>backtrack\<close> does to the graph.\<close>

lemma unassign_loop_graph:
  assumes "unassign_loop n j ls s = Inr (j', ks, t)"
  shows "ks = filter (\<lambda>l. lev s l \<le> n) ls"
    and "s_vals t = fold clear_val (filter (\<lambda>l. \<not> lev s l \<le> n) ls) (s_vals s)"
    and "\<forall>i. v_level (s_vtab t i) = v_level (s_vtab s i) \<and> v_reason (s_vtab t i) = v_reason (s_vtab s i)"
    and "\<exists>V T H Q. t = s\<lparr>s_vals := V, s_vtab := T, s_scores := H, s_queue := Q\<rparr>"
    and "\<forall>i. v_trail (s_vtab t i) = v_trail (s_vtab s i) \<or> v_trail (s_vtab t i) < j + length ls"
proof -
  have "ks = filter (\<lambda>l. lev s l \<le> n) ls
    \<and> s_vals t = fold clear_val (filter (\<lambda>l. \<not> lev s l \<le> n) ls) (s_vals s)
    \<and> (\<forall>i. v_level (s_vtab t i) = v_level (s_vtab s i) \<and> v_reason (s_vtab t i) = v_reason (s_vtab s i))
    \<and> (\<exists>V T H Q. t = s\<lparr>s_vals := V, s_vtab := T, s_scores := H, s_queue := Q\<rparr>)
    \<and> (\<forall>i. v_trail (s_vtab t i) = v_trail (s_vtab s i) \<or> v_trail (s_vtab t i) < j + length ls)"
    using assms
  proof (induction n j ls s arbitrary: j' ks t rule: unassign_loop.induct)
    case (1 n j s)
    then show ?case by (auto intro!: exI [of _ "s_vals s"] exI [of _ "s_vtab s"] exI [of _ "s_scores s"] exI [of _ "s_queue s"])
  next
    case (2 n j lit ls s)
    show ?case
    proof (cases "v_level (s_vtab s (vidx lit)) > n")
      case True
      then obtain s1 where s1: "unassign_lit lit s = Inr s1" "unassign_loop n j ls s1 = Inr (j', ks, t)"
        using 2(3) by (auto simp: bind_res_eq_Inr)
      then obtain h where e: "s1 = s\<lparr>s_vals := clear_val lit (s_vals s), s_scores := h, s_queue := queue_unassign (vidx lit) (s_queue s)\<rparr>"
        by (auto simp: unassign_lit_def Let_def bind_res_eq_Inr clear_val_def)
      have tb: "s_vtab s1 = s_vtab s" and vs: "s_vals s1 = clear_val lit (s_vals s)" by (simp_all add: e)
      note IH = 2(1) [OF True s1, unfolded tb vs]
      then obtain V T H Q where "t = s1\<lparr>s_vals := V, s_vtab := T, s_scores := H, s_queue := Q\<rparr>" by blast
      then have "t = s\<lparr>s_vals := V, s_vtab := T, s_scores := H, s_queue := Q\<rparr>" by (simp add: e)
      then have ex: "\<exists>V T H Q. t = s\<lparr>s_vals := V, s_vtab := T, s_scores := H, s_queue := Q\<rparr>" by blast
      have pos: "v_trail (s_vtab t i) = v_trail (s_vtab s i) \<or> v_trail (s_vtab t i) < j + length (lit # ls)" for i
      proof -
        have "v_trail (s_vtab t i) = v_trail (s_vtab s i) \<or> v_trail (s_vtab t i) < j + length ls" using IH by blast
        then show ?thesis by auto
      qed
      from IH have "ks = filter (\<lambda>l. lev s l \<le> n) ls" "s_vals t = fold clear_val (filter (\<lambda>l. \<not> lev s l \<le> n) ls) (clear_val lit (s_vals s))"
        "\<forall>i. v_level (s_vtab t i) = v_level (s_vtab s i) \<and> v_reason (s_vtab t i) = v_reason (s_vtab s i)" by blast+
      with True ex pos show ?thesis by simp
    next
      case False
      let ?s = "s\<lparr>s_vtab := (s_vtab s)(vidx lit := (s_vtab s (vidx lit))\<lparr>v_trail := j\<rparr>)\<rparr>"
      obtain ks' where ks: "ks = lit # ks'" "unassign_loop n (j + 1) ls ?s = Inr (j', ks', t)"
        using 2(3) False by (auto simp: bind_res_eq_Inr)
      have same: "v_level (s_vtab ?s i) = v_level (s_vtab s i)" "v_reason (s_vtab ?s i) = v_reason (s_vtab s i)" for i
        by simp_all
      have f: "filter (\<lambda>l. lev ?s l \<le> n) ls = filter (\<lambda>l. lev s l \<le> n) ls" by (rule filter_cong) simp_all
      have g: "filter (\<lambda>l. \<not> lev ?s l \<le> n) ls = filter (\<lambda>l. \<not> lev s l \<le> n) ls" by (rule filter_cong) simp_all
      have vv: "s_vals ?s = s_vals s" by simp
      note IH = 2(2) [OF False ks(2), unfolded f g same vv]
      then obtain V T H Q where "t = ?s\<lparr>s_vals := V, s_vtab := T, s_scores := H, s_queue := Q\<rparr>" by blast
      then have "t = s\<lparr>s_vals := V, s_vtab := T, s_scores := H, s_queue := Q\<rparr>" by simp
      moreover have "v_trail (s_vtab t i) = v_trail (s_vtab s i) \<or> v_trail (s_vtab t i) < j + length (lit # ls)" for i
      proof -
        have "v_trail (s_vtab t i) = v_trail (s_vtab ?s i) \<or> v_trail (s_vtab t i) < j + 1 + length ls" using IH by blast
        then show ?thesis by (cases "i = vidx lit") auto
      qed
      ultimately show ?thesis using IH False ks(1) by auto
    qed
  qed
  then show "ks = filter (\<lambda>l. lev s l \<le> n) ls"
    "s_vals t = fold clear_val (filter (\<lambda>l. \<not> lev s l \<le> n) ls) (s_vals s)"
    "\<forall>i. v_level (s_vtab t i) = v_level (s_vtab s i) \<and> v_reason (s_vtab t i) = v_reason (s_vtab s i)"
    "\<exists>V T H Q. t = s\<lparr>s_vals := V, s_vtab := T, s_scores := H, s_queue := Q\<rparr>"
    "\<forall>i. v_trail (s_vtab t i) = v_trail (s_vtab s i) \<or> v_trail (s_vtab t i) < j + length ls" by blast+
qed

lemma clear_val_at: "clear_val k v l = (if vidx l = vidx k then 0 else v l)"
proof -
  have "vidx l = vidx k \<longleftrightarrow> \<bar>l\<bar> = \<bar>k\<bar>" by (simp add: eq_nat_nat_iff)
  moreover have "\<bar>l\<bar> = \<bar>k\<bar> \<longleftrightarrow> l = \<bar>k\<bar> \<or> l = - \<bar>k\<bar>" by arith
  ultimately show ?thesis by (simp add: clear_val_def)
qed

lemma clear_vals_at: "fold clear_val ls v l = (if \<exists>k \<in> set ls. vidx l = vidx k then 0 else v l)"
proof (induction ls arbitrary: v)
  case Nil
  then show ?case by simp
next
  case (Cons k ls)
  have "fold clear_val (k # ls) v l = fold clear_val ls (clear_val k v) l" by simp
  also have "\<dots> = (if \<exists>k \<in> set ls. vidx l = vidx k then 0 else clear_val k v l)" by (rule Cons.IH)
  finally show ?case by (simp only: clear_val_at [of k v l] list.set bex_simps) auto
qed

lemma filter_nth_take:
  "i < length (filter P xs) \<Longrightarrow> \<exists>p < length xs. xs ! p = filter P xs ! i \<and> take i (filter P xs) = filter P (take p xs)"
proof (induction xs rule: rev_induct)
  case Nil
  then show ?case by simp
next
  case (snoc x xs)
  show ?case
  proof (cases "i < length (filter P xs)")
    case True
    with snoc.IH obtain p where p: "p < length xs" "xs ! p = filter P xs ! i" "take i (filter P xs) = filter P (take p xs)" by blast
    with True show ?thesis by (intro exI [of _ p]) (auto simp: nth_append)
  next
    case False
    with snoc.prems have "P x" "i = length (filter P xs)" by (auto split: if_splits)
    then show ?thesis by (intro exI [of _ "length xs"]) (simp add: nth_append)
  qed
qed

definition backtracked :: "nat \<Rightarrow> solver \<Rightarrow> solver \<Rightarrow> bool" where
  "backtracked n s t \<longleftrightarrow> s_trail t = filter (\<lambda>l. lev s l \<le> n) (s_trail s) \<and> s_level t = n
     \<and> (\<forall>i. v_level (s_vtab t i) = v_level (s_vtab s i) \<and> v_reason (s_vtab t i) = v_reason (s_vtab s i))
     \<and> s_max_var t = s_max_var s \<and> s_heap t = s_heap s \<and> s_next t = s_next s \<and> s_clauses t = s_clauses s
     \<and> s_watches t = s_watches s \<and> s_opts t = s_opts s \<and> s_conflict t = s_conflict s \<and> s_flags t = s_flags s
     \<and> s_clause t = s_clause s \<and> s_analyzed t = s_analyzed s \<and> s_minimized t = s_minimized s \<and> s_levels t = s_levels s
     \<and> s_unsat t = s_unsat s \<and> s_propagated t \<le> length (s_trail t) \<and> s_proof t = s_proof s
     \<and> s_assumptions t = s_assumptions s \<and> s_constraint t = s_constraint s \<and> s_control t = take (n + 1) (s_control s)
     \<and> s_propagated t = (if n < s_level s then min (s_propagated s) (l_trail (s_control s ! (n + 1))) else s_propagated s)"

lemma level_facts:
  assumes "control_ok s" and "0 < k" and "k \<le> s_level s"
  shows "l_trail (s_control s ! k) \<le> length (s_trail s)"
    and "i < l_trail (s_control s ! k) \<Longrightarrow> lev s (s_trail s ! i) < k"
    and "0 < j \<Longrightarrow> j \<le> k \<Longrightarrow> l_trail (s_control s ! j) \<le> l_trail (s_control s ! k)"
  using assms unfolding control_ok_def by blast+

lemma backtrack_graph_ok:
  assumes g: "graph_ok M s" and b: "backtrack_to n s = Inr t" and n: "n < s_level s"
  shows "graph_ok M t" and "backtracked n s t"
proof -
  define a where "a = l_trail (s_control s ! (n + 1))"
  let ?tr = "s_trail s" and ?keep = "\<lambda>l. lev s l \<le> n"
  have v: "vals_ok s" and to: "trail_ok M s" and ct: "control_ok s" and cl: "clauses_ok M s" using g by (simp_all add: graph_ok_def)
  have len: "length (s_control s) = s_level s + 1" using ct by (simp add: control_ok_def)
  have a: "a \<le> length ?tr" "\<And>i. i < a \<Longrightarrow> lev s (?tr ! i) \<le> n"
    "\<And>j. 0 < j \<Longrightarrow> j \<le> n \<Longrightarrow> l_trail (s_control s ! j) \<le> a"
    using level_facts [OF ct, of "n + 1"] n by (simp_all add: a_def less_Suc_eq_le)
  have pre: "filter ?keep (take a ?tr) = take a ?tr" using a(1,2) by (auto simp: filter_id_conv in_set_conv_nth)
  have tr: "take a ?tr @ filter ?keep (drop a ?tr) = filter ?keep ?tr"
    using filter_append [of ?keep "take a ?tr" "drop a ?tr"] pre by simp
  obtain j ks u where u: "unassign_loop n a (drop a ?tr) (update_target_and_best s) = Inr (j, ks, u)"
    and t: "t = u\<lparr>s_trail := take a (s_trail u) @ ks, s_propagated := min (s_propagated u) a,
        s_propagated2 := min (s_propagated2 u) a, s_no_conflict_until := min (s_no_conflict_until u) a,
        s_control := take (n + 1) (s_control u), s_level := n\<rparr>"
    using b n len by (auto simp: backtrack_to_def Let_def bind_res_eq_Inr a_def)
  note U = unassign_loop_graph [OF u, simplified]
  obtain V T H Q where uu: "u = (update_target_and_best s)\<lparr>s_vals := V, s_vtab := T, s_scores := H, s_queue := Q\<rparr>" using U(4) by blast
  have tt: "s_trail t = filter ?keep ?tr" using uu U(1) tr by (simp add: t)
  have ll: "lev t l = lev s l" "rsn t l = rsn s l" for l using U(3) by (simp_all add: t)
  have fields: "s_level t = n" "s_max_var t = s_max_var s" "s_heap t = s_heap s" "s_next t = s_next s" "s_clauses t = s_clauses s"
    "s_watches t = s_watches s" "s_opts t = s_opts s" "s_conflict t = s_conflict s" "s_flags t = s_flags s"
    "s_clause t = s_clause s" "s_analyzed t = s_analyzed s" "s_minimized t = s_minimized s" "s_levels t = s_levels s"
    "s_unsat t = s_unsat s" "s_proof t = s_proof s" "s_control t = take (n + 1) (s_control s)" "s_assumptions t = s_assumptions s"
    "s_constraint t = s_constraint s" "s_unsat_constraint t = s_unsat_constraint s" "s_phases t = s_phases (update_target_and_best s)" "s_best t = s_best (update_target_and_best s)"
    "s_propagated t = min (s_propagated s) a"
    "s_vals t = fold clear_val (filter (\<lambda>l. \<not> ?keep l) (drop a ?tr)) (s_vals s)"
    using uu U(2) by (simp_all add: t not_le)
  have "a \<le> length (s_trail t)" unfolding tt tr [symmetric] using a(1) by simp
  then have "s_propagated t \<le> length (s_trail t)" by (simp add: fields)
  with fields tt n show bt: "backtracked n s t" using U(3) by (simp add: backtracked_def t a_def)
  have sub: "set (s_trail t) \<subseteq> set ?tr" by (auto simp: tt)
  have cleared: "(\<exists>k \<in> set (filter (\<lambda>l. \<not> ?keep l) (drop a ?tr)). vidx l = vidx k) \<longleftrightarrow> (\<exists>k \<in> set ?tr. \<not> ?keep k \<and> vidx l = vidx k)" for l
  proof -
    have "set ?tr = set (take a ?tr) \<union> set (drop a ?tr)" by (metis append_take_drop_id set_append)
    moreover have "?keep k" if "k \<in> set (take a ?tr)" for k using that a(2) by (auto simp: in_set_conv_nth)
    ultimately show ?thesis by auto
  qed
  have "s_vals t l = (if l \<in> set (s_trail t) then 1 else if - l \<in> set (s_trail t) then - 1 else 0)" if l: "l \<noteq> 0" for l
  proof (cases "\<exists>k \<in> set ?tr. \<not> ?keep k \<and> vidx l = vidx k")
    case True
    then obtain k where k: "k \<in> set ?tr" "\<not> ?keep k" "vidx l = vidx k" by blast
    have "m \<notin> set (s_trail t)" if "vidx m = vidx l" for m
      using k that by (simp add: tt)
    then have "l \<notin> set (s_trail t)" "- l \<notin> set (s_trail t)" by simp_all
    moreover have "s_vals t l = 0" unfolding fields(23) clear_vals_at cleared using True by (rule if_P)
    ultimately show ?thesis by simp
  next
    case False
    then have "l \<in> set ?tr \<longrightarrow> ?keep l" "- l \<in> set ?tr \<longrightarrow> ?keep (- l)" by auto
    then have "l \<in> set (s_trail t) \<longleftrightarrow> l \<in> set ?tr" "- l \<in> set (s_trail t) \<longleftrightarrow> - l \<in> set ?tr" by (auto simp: tt)
    moreover have "s_vals t l = s_vals s l" unfolding fields(23) clear_vals_at cleared using False by (rule if_not_P)
    moreover have "s_vals s l = (if l \<in> set ?tr then 1 else if - l \<in> set ?tr then - 1 else 0)" using v l by (simp add: vals_ok_def)
    ultimately show ?thesis by simp
  qed
  moreover have "distinct (map vidx (s_trail t))" using v unfolding tt vals_ok_def by (simp add: distinct_map_filter)
  moreover have "\<forall>l \<in> set (s_trail t). lit_in t l" using v sub fields(2) unfolding vals_ok_def lit_in_def by auto
  moreover have "\<forall>l \<in> set (s_trail t). v_trail (s_vtab t (vidx l)) < s_max_var t"
  proof
    fix l assume "l \<in> set (s_trail t)"
    then have "v_trail (s_vtab s (vidx l)) < s_max_var s" using v sub unfolding vals_ok_def by blast
    moreover have "v_trail (s_vtab t (vidx l)) = v_trail (s_vtab s (vidx l)) \<or> v_trail (s_vtab t (vidx l)) < length ?tr"
      using U(5) a(1) by (simp add: t)
    ultimately show "v_trail (s_vtab t (vidx l)) < s_max_var t" using trail_length [OF v] fields(2) by auto
  qed
  ultimately have "vals_ok t" unfolding vals_ok_def by blast
  moreover have "assigned_ok M t (take i (s_trail t)) (s_trail t ! i)" if i: "i < length (s_trail t)" for i
  proof -
    obtain p where p: "p < length ?tr" "?tr ! p = s_trail t ! i" "take i (s_trail t) = filter ?keep (take p ?tr)"
      using filter_nth_take [of i ?keep ?tr] i unfolding tt by blast
    let ?l = "s_trail t ! i"
    have keep: "?keep ?l" using nth_mem [OF i] by (simp add: tt)
    have o: "assigned_ok M s (take p ?tr) ?l" using to p by (auto simp: trail_ok_def)
    show ?thesis
    proof (cases "rsn s ?l")
      case None
      with o keep show ?thesis unfolding assigned_ok_def ll fields by simp
    next
      case (Some c)
      with o have ib: "implied_by s c (take p ?tr) ?l" "0 < lev s ?l" by (simp_all add: assigned_ok_def)
      have "implied_by t c (take i (s_trail t)) ?l"
        using ib(1) keep unfolding implied_by_def ll fields p(3) by auto
      with Some ib(2) keep show ?thesis unfolding assigned_ok_def ll fields by simp
    qed
  qed
  then have "trail_ok M t" by (simp add: trail_ok_def)
  moreover have "control_ok t"
    unfolding control_ok_def
  proof (intro conjI allI impI)
    show "length (s_control t) = s_level t + 1" using len n by (simp add: fields)
  next
    fix k assume k: "0 < k" "k \<le> s_level t"
    then have kn: "k \<le> n" "s_control t ! k = s_control s ! k" by (simp_all add: fields)
    have le: "l_trail (s_control s ! k) \<le> a" using a(3) k(1) kn(1) by simp
    show "l_trail (s_control t ! k) \<le> length (s_trail t)"
      unfolding kn(2) using le \<open>a \<le> length (s_trail t)\<close> by simp
    fix i assume i: "i < l_trail (s_control t ! k)"
    then have "s_trail t ! i = ?tr ! i" using le kn(2) a(1) by (simp add: tt [folded tr] nth_append)
    moreover have "lev s (?tr ! i) < k" using i kn n ct k(1) by (simp add: control_ok_def)
    ultimately show "lev t (s_trail t ! i) < k" by (simp add: ll)
  next
    fix k j assume k: "0 < k" "k \<le> s_level t" and j: "0 < j" "j \<le> k"
    then show "l_trail (s_control t ! j) \<le> l_trail (s_control t ! k)"
      using ct n by (simp add: fields control_ok_def)
  qed
  moreover have "clauses_ok M t" using cl by (simp add: clauses_ok_def clause_ok_on_def lit_in_def hopeless_def fields)
  moreover have "plan_ok t"
    using g n update_target_phases [of s] len by (simp add: graph_ok_def plan_ok_def fields lit_in_def)
  ultimately show "graph_ok M t" by (simp add: graph_ok_def)
qed

end
