(* ===== verification/Search_Propagate_Sound.thy ===== *)
theory Search_Propagate_Sound
  imports Search_Inv
begin

text \<open>
  Propagation keeps the invariant of the search and the watches, never fails, ends within one step
  per variable, and a conflict it reports is a clause whose literals are all false.
\<close>

section \<open>Watch lists\<close>

definition watch_good :: "solver \<Rightarrow> int \<Rightarrow> swatch \<Rightarrow> bool" where
  "watch_good s l w \<longleftrightarrow> (let c = w_clause w; ls = lits s c in
     c < s_next s \<and> w_size w = length ls \<and> l \<in> set ls \<and> w_blit w \<in> set ls \<and> 2 \<le> c_pos (s_heap s c) \<and> c_pos (s_heap s c) \<le> length ls
     \<and> (if watch_binary w then w_blit w \<noteq> l else l = ls ! 0 \<or> l = ls ! 1))"

definition large :: "swatch list \<Rightarrow> nat list" where
  "large ws = map w_clause (filter (\<lambda>w. \<not> watch_binary w) ws)"

definition list_good :: "solver \<Rightarrow> int \<Rightarrow> swatch list \<Rightarrow> bool" where
  "list_good s l ws \<longleftrightarrow> (\<forall>w \<in> set ws. watch_good s l w) \<and> distinct (large ws)"

definition watches_good :: "solver \<Rightarrow> bool" where
  "watches_good s \<longleftrightarrow> (\<forall>l. list_good s l (s_watches s l))"

definition conflict_ok :: "solver \<Rightarrow> bool" where
  "conflict_ok s \<longleftrightarrow> (\<forall>c. s_conflict s = Some c \<longrightarrow> c < s_next s
     \<and> 2 \<le> c_pos (s_heap s c) \<and> c_pos (s_heap s c) \<le> length (lits s c) \<and> (\<forall>k \<in> set (lits s c). - k \<in> set (s_trail s)))"

definition search_ok :: "(nat \<Rightarrow> bool) set \<Rightarrow> solver \<Rightarrow> bool" where
  "search_ok M s \<longleftrightarrow> graph_ok M s \<and> watches_good s \<and> conflict_ok s"

lemma large_simps [simp]:
  "large [] = []" "large (ws @ vs) = large ws @ large vs"
  "large (w # ws) = (if watch_binary w then large ws else w_clause w # large ws)"
  by (simp_all add: large_def)

definition with_list :: "int \<Rightarrow> swatch list \<Rightarrow> solver \<Rightarrow> solver" where
  "with_list l ws s = s\<lparr>s_watches := (s_watches s)(l := ws)\<rparr>"

lemma with_list_fields [simp]:
  "s_trail (with_list l ws s) = s_trail s" "s_vals (with_list l ws s) = s_vals s" "s_vtab (with_list l ws s) = s_vtab s"
  "s_max_var (with_list l ws s) = s_max_var s" "s_heap (with_list l ws s) = s_heap s" "s_next (with_list l ws s) = s_next s"
  "s_clauses (with_list l ws s) = s_clauses s" "s_opts (with_list l ws s) = s_opts s" "s_level (with_list l ws s) = s_level s"
  "s_control (with_list l ws s) = s_control s" "s_conflict (with_list l ws s) = s_conflict s"
  "s_propagated (with_list l ws s) = s_propagated s" "s_watches (with_list l ws s) = (s_watches s)(l := ws)"
  "s_proof (with_list l ws s) = s_proof s" "s_propagated2 (with_list l ws s) = s_propagated2 s"
  "s_phases (with_list l ws s) = s_phases s" "s_best (with_list l ws s) = s_best s" "s_assumptions (with_list l ws s) = s_assumptions s"
  "s_constraint (with_list l ws s) = s_constraint s" "s_unsat_constraint (with_list l ws s) = s_unsat_constraint s"
  by (simp_all add: with_list_def)

lemma with_list_graph: "same_graph s (with_list l ws s)" "same_graph (with_list l ws s) s"
  by (simp_all add: same_graph_def)

lemma graph_with_list [simp]: "graph_ok M (with_list l ws s) \<longleftrightarrow> graph_ok M s"
  using with_list_graph same_graph_ok by blast

lemma list_good_with_list [simp]: "list_good (with_list l ws s) k vs \<longleftrightarrow> list_good s k vs"
  by (simp add: list_good_def watch_good_def)

lemma search_ok_with_list:
  "search_ok M (with_list l ws s)
    \<longleftrightarrow> graph_ok M s \<and> conflict_ok s \<and> list_good s l ws \<and> (\<forall>k. k \<noteq> l \<longrightarrow> list_good s k (s_watches s k))"
  by (auto simp: search_ok_def watches_good_def conflict_ok_def)

section \<open>What may change during propagation\<close>

abbreviation same_kind :: "sclause \<Rightarrow> sclause \<Rightarrow> bool" where
  "same_kind c d \<equiv> c_garbage d = c_garbage c \<and> c_redundant d = c_redundant c"

definition extends :: "solver \<Rightarrow> solver \<Rightarrow> bool" where
  "extends s t \<longleftrightarrow> (\<exists>xs. s_trail t = s_trail s @ xs) \<and> s_max_var t = s_max_var s \<and> s_level t = s_level s
     \<and> s_control t = s_control s \<and> s_next t = s_next s \<and> s_clauses t = s_clauses s \<and> s_opts t = s_opts s
     \<and> s_propagated t = s_propagated s \<and> s_unsat t = s_unsat s \<and> s_scores t = s_scores s \<and> s_stab t = s_stab s
     \<and> s_score_inc t = s_score_inc s \<and> s_queue t = s_queue s \<and> s_clause t = s_clause s \<and> s_analyzed t = s_analyzed s \<and> s_minimized t = s_minimized s
     \<and> s_levels t = s_levels s \<and> s_assumptions t = s_assumptions s \<and> s_constraint t = s_constraint s
     \<and> (\<forall>c. set (lits t c) = set (lits s c) \<and> same_kind (s_heap s c) (s_heap t c)) \<and> (s_conflict s \<noteq> None \<longrightarrow> s_conflict t \<noteq> None)
     \<and> (\<forall>i. f_seen (s_flags t i) = f_seen (s_flags s i) \<and> f_keep (s_flags t i) = f_keep (s_flags s i)
          \<and> f_poison (s_flags t i) = f_poison (s_flags s i) \<and> f_removable (s_flags t i) = f_removable (s_flags s i))
     \<and> (\<forall>k \<in> set (s_trail s). lev t k = lev s k)"

lemma extends_refl [simp]: "extends s s"
  by (simp add: extends_def)

lemma extends_trans: "extends s t \<Longrightarrow> extends t u \<Longrightarrow> extends s u"
  unfolding extends_def by auto

text \<open>An assignment leaves the levels of the trail as they are.\<close>

lemma assign_lev:
  assumes v: "vals_ok s" and l: "lit_in s l" "s_vals s l = 0" and k: "k \<in> set (s_trail s)"
  shows "lev (search_assign l why s) k = lev s k"
proof -
  have "l \<noteq> 0" using l(1) by (simp add: lit_in_def)
  then have "l \<notin> set (s_trail s)" "- l \<notin> set (s_trail s)" using vals_iff(3) [OF v] l(2) by blast+
  then have "k \<noteq> l" "k \<noteq> - l" using k by auto
  then have "vidx k \<noteq> vidx l" by (simp add: vidx_eq)
  then show ?thesis by simp
qed

lemma extends_assign: "vals_ok s \<Longrightarrow> may_assign M l why s \<Longrightarrow> extends s (search_assign l why s)"
  using assign_lev [of s l _ why] by (simp add: extends_def may_assign_def)

lemma extends_watches [simp]: "extends s (s\<lparr>s_watches := W\<rparr>)" "extends s (with_list l ws s)" "extends s (watch_literal l b c s)"
  by (simp_all add: extends_def watch_literal_def with_list_def)

lemma extends_conflict [simp]: "extends s (s\<lparr>s_conflict := Some c\<rparr>)"
  by (simp add: extends_def)

lemma extends_clause:
  "set (c_lits (f (s_heap s c))) = set (lits s c) \<Longrightarrow> same_kind (s_heap s c) (f (s_heap s c)) \<Longrightarrow> extends s (upd_clause c f s)"
  by (simp add: extends_def upd_clause_def)

section \<open>Changing a clause\<close>

lemma upd_clause_fields [simp]:
  "s_trail (upd_clause c f s) = s_trail s" "s_vals (upd_clause c f s) = s_vals s" "s_vtab (upd_clause c f s) = s_vtab s"
  "s_max_var (upd_clause c f s) = s_max_var s" "s_heap (upd_clause c f s) = (s_heap s)(c := f (s_heap s c))"
  "s_next (upd_clause c f s) = s_next s" "s_clauses (upd_clause c f s) = s_clauses s" "s_opts (upd_clause c f s) = s_opts s"
  "s_level (upd_clause c f s) = s_level s" "s_control (upd_clause c f s) = s_control s"
  "s_conflict (upd_clause c f s) = s_conflict s" "s_propagated (upd_clause c f s) = s_propagated s"
  "s_watches (upd_clause c f s) = s_watches s" "s_proof (upd_clause c f s) = s_proof s"
  "s_phases (upd_clause c f s) = s_phases s" "s_best (upd_clause c f s) = s_best s" "s_assumptions (upd_clause c f s) = s_assumptions s"
  "s_constraint (upd_clause c f s) = s_constraint s" "s_unsat_constraint (upd_clause c f s) = s_unsat_constraint s"
  by (simp_all add: upd_clause_def)

definition permutes :: "sclause \<Rightarrow> sclause \<Rightarrow> bool" where
  "permutes c d \<longleftrightarrow> set (c_lits d) = set (c_lits c) \<and> length (c_lits d) = length (c_lits c)"

lemma upd_clause_graph_ok:
  assumes g: "graph_ok M s" and p: "permutes (s_heap s c) (f (s_heap s c))"
  shows "graph_ok M (upd_clause c f s)"
proof -
  let ?t = "upd_clause c f s"
  have st: "set (lits ?t d) = set (lits s d)" and ln: "length (lits ?t d) = length (lits s d)" for d
    using p by (simp_all add: permutes_def)
  have "assigned_ok M ?t before l" if "assigned_ok M s before l" for before l
  proof (rule assigned_ok_transfer [OF that])
    show "set (lits ?t d) = set (lits s d)" for d by (rule st)
  qed simp_all
  then have "trail_ok M ?t" using g by (simp add: graph_ok_def trail_ok_def)
  moreover have "clauses_ok M ?t"
  proof -
    have "clause_ok_on M ?t (lits ?t d)" if "clause_ok_on M s (lits s d)" for d
      using that st [of d] ln [of d] ent_set [of "lits s d" "lits ?t d" M] card_distinct [of "lits ?t d"] distinct_card [of "lits s d"]
      unfolding clause_ok_on_def lit_in_def by simp
    then show ?thesis using g by (simp add: graph_ok_def clauses_ok_def hopeless_def)
  qed
  ultimately show ?thesis using g by (simp add: graph_ok_def vals_ok_def lit_in_def control_ok_def plan_ok_def)
qed

text \<open>The lists after moving literals of clause \<open>c\<close>, where they do not watch \<open>c\<close> or still may.\<close>

lemma upd_clause_list_good:
  assumes "list_good s l ws" and "permutes (s_heap s c) (f (s_heap s c))"
    and "2 \<le> c_pos (s_heap s c) \<Longrightarrow> 2 \<le> c_pos (f (s_heap s c)) \<and> c_pos (f (s_heap s c)) \<le> length (lits s c)"
    and "c \<in> set (large ws) \<Longrightarrow> l = c_lits (f (s_heap s c)) ! 0 \<or> l = c_lits (f (s_heap s c)) ! 1"
  shows "list_good (upd_clause c f s) l ws"
  unfolding list_good_def
proof (intro conjI ballI)
  show "distinct (large ws)" using assms(1) by (simp add: list_good_def)
  fix w assume w: "w \<in> set ws"
  then have o: "watch_good s l w" using assms(1) by (simp add: list_good_def)
  have "w_clause w = c \<Longrightarrow> \<not> watch_binary w \<Longrightarrow> c \<in> set (large ws)" using w by (auto simp: large_def)
  with o assms(2-4) show "watch_good (upd_clause c f s) l w"
    by (auto simp: watch_good_def Let_def permutes_def)
qed

lemma list_good_push:
  assumes "list_good s l ws" and "c \<notin> set (large ws)" and "watch_good s l \<lparr>w_clause = c, w_blit = b, w_size = length (lits s c)\<rparr>"
  shows "list_good s l (ws @ [\<lparr>w_clause = c, w_blit = b, w_size = length (lits s c)\<rparr>])"
  using assms by (auto simp: list_good_def)

section \<open>The search for a replacement\<close>

lemma find_replacement_result:
  assumes "find_replacement val ls k n r v = (k', r', v')" and "v < 0"
  shows "v' \<ge> 0 \<Longrightarrow> k \<le> k' \<and> k' < k + n \<and> r' = ls ! k' \<and> v' = val r'"
    and "v' < 0 \<Longrightarrow> k' = k + n \<and> (\<forall>i. k \<le> i \<longrightarrow> i < k + n \<longrightarrow> val (ls ! i) < 0)"
proof -
  have "(v' \<ge> 0 \<longrightarrow> k \<le> k' \<and> k' < k + n \<and> r' = ls ! k' \<and> v' = val r')
    \<and> (v' < 0 \<longrightarrow> k' = k + n \<and> (\<forall>i. k \<le> i \<longrightarrow> i < k + n \<longrightarrow> val (ls ! i) < 0))"
    using assms
  proof (induction val ls k n r v rule: find_replacement.induct)
    case (1 val ls k r v)
    then show ?case by simp
  next
    case (2 val ls k n r v)
    show ?case
    proof (cases "val (ls ! k) < 0")
      case True
      have f: "find_replacement val ls (k + 1) n (ls ! k) (val (ls ! k)) = (k', r', v')" using 2(2) True by (simp add: Let_def)
      have IH: "(v' \<ge> 0 \<longrightarrow> k + 1 \<le> k' \<and> k' < k + 1 + n \<and> r' = ls ! k' \<and> v' = val r')
        \<and> (v' < 0 \<longrightarrow> k' = k + 1 + n \<and> (\<forall>i. k + 1 \<le> i \<longrightarrow> i < k + 1 + n \<longrightarrow> val (ls ! i) < 0))"
        by (rule 2(1) [OF refl refl True f True])
      have "val (ls ! i) < 0" if "v' < 0" "k \<le> i" "i < k + Suc n" for i
        using that IH True by (cases "i = k") auto
      with IH show ?thesis by auto
    next
      case False
      with 2(2) show ?thesis by (auto simp: Let_def)
    qed
  qed
  then show "v' \<ge> 0 \<Longrightarrow> k \<le> k' \<and> k' < k + n \<and> r' = ls ! k' \<and> v' = val r'"
    and "v' < 0 \<Longrightarrow> k' = k + n \<and> (\<forall>i. k \<le> i \<longrightarrow> i < k + n \<longrightarrow> val (ls ! i) < 0)" by blast+
qed

lemma replacement_result:
  assumes "replacement val ls pos = (k, r, v)" and "2 \<le> pos" and "pos \<le> length ls"
  shows "2 \<le> k" "k \<le> length ls" "v \<ge> 0 \<Longrightarrow> k < length ls \<and> r = ls ! k \<and> v = val r"
    "v < 0 \<Longrightarrow> 2 \<le> i \<Longrightarrow> i < length ls \<Longrightarrow> val (ls ! i) < 0"
proof -
  obtain k1 r1 v1 where f1: "find_replacement val ls pos (length ls - pos) 0 (- 1) = (k1, r1, v1)" by (metis prod_cases3)
  note F1 = find_replacement_result [OF f1, simplified]
  have "2 \<le> k \<and> k \<le> length ls \<and> (v \<ge> 0 \<longrightarrow> k < length ls \<and> r = ls ! k \<and> v = val r)
    \<and> (v < 0 \<longrightarrow> (\<forall>i. 2 \<le> i \<longrightarrow> i < length ls \<longrightarrow> val (ls ! i) < 0))"
  proof (cases "v1 < 0")
    case False
    with assms f1 F1(1) show ?thesis by (auto simp: replacement_def)
  next
    case True
    then have f2: "find_replacement val ls 2 (pos - 2) r1 v1 = (k, r, v)" using assms(1) f1 by (simp add: replacement_def)
    note F2 = find_replacement_result [OF f2 True]
    have low: "\<forall>i. pos \<le> i \<longrightarrow> i < length ls \<longrightarrow> val (ls ! i) < 0" using F1(2) [OF True] assms(3) by simp
    show ?thesis
    proof (cases "v < 0")
      case True
      have "val (ls ! i) < 0" if "2 \<le> i" "i < length ls" for i
        using that F2(2) [OF True] low assms(2) by (cases "i < pos") auto
      with True F2(2) [OF True] assms(2,3) show ?thesis by simp
    next
      case False
      then have "0 \<le> v" by simp
      from F2(1) [OF this] assms(2,3) False show ?thesis by auto
    qed
  qed
  then show "2 \<le> k" "k \<le> length ls" "v \<ge> 0 \<Longrightarrow> k < length ls \<and> r = ls ! k \<and> v = val r"
    "v < 0 \<Longrightarrow> 2 \<le> i \<Longrightarrow> i < length ls \<Longrightarrow> val (ls ! i) < 0" by blast+
qed

section \<open>A watch\<close>

lemma list_good_drop: "list_good s l (kept @ w # ws) \<Longrightarrow> list_good s l (kept @ ws)"
  by (auto simp: list_good_def split: if_splits)

lemma list_good_blit:
  assumes l: "list_good s l (kept @ w # ws)" and b: "b \<in> set (lits s (w_clause w))" "\<not> watch_binary w"
  shows "list_good s l (kept @ w\<lparr>w_blit := b\<rparr> # ws)"
proof -
  have "watch_good s l w" using l by (simp add: list_good_def)
  then have "watch_good s l (w\<lparr>w_blit := b\<rparr>)" using b by (auto simp: watch_good_def watch_binary_def Let_def)
  moreover have "large (w\<lparr>w_blit := b\<rparr> # ws) = large (w # ws)" by (simp add: watch_binary_def)
  ultimately show ?thesis using l unfolding list_good_def large_simps(2) by auto
qed

lemma search_ok_drop: "search_ok M (with_list l (kept @ w # ws) s) \<Longrightarrow> search_ok M (with_list l (kept @ ws) s)"
  unfolding search_ok_with_list using list_good_drop by blast

lemma search_ok_blit:
  "search_ok M (with_list l (kept @ w # ws) s) \<Longrightarrow> b \<in> set (lits s (w_clause w)) \<Longrightarrow> \<not> watch_binary w
    \<Longrightarrow> search_ok M (with_list l (kept @ w\<lparr>w_blit := b\<rparr> # ws) s)"
  unfolding search_ok_with_list using list_good_blit by blast

lemma search_ok_upd_clause:
  assumes ok: "search_ok M (with_list nl ws s)" and p: "permutes (s_heap s c) (f (s_heap s c))"
    and "2 \<le> c_pos (s_heap s c) \<Longrightarrow> 2 \<le> c_pos (f (s_heap s c)) \<and> c_pos (f (s_heap s c)) \<le> length (lits s c)"
    and "\<And>l. c \<in> set (large (if l = nl then ws else s_watches s l))
      \<Longrightarrow> l = c_lits (f (s_heap s c)) ! 0 \<or> l = c_lits (f (s_heap s c)) ! 1"
  shows "search_ok M (with_list nl ws (upd_clause c f s))"
proof -
  have g: "graph_ok M s" and co: "conflict_ok s" and ln: "list_good s nl ws" and lk: "\<And>k. k \<noteq> nl \<Longrightarrow> list_good s k (s_watches s k)"
    using ok by (simp_all add: search_ok_with_list)
  have "list_good (upd_clause c f s) nl ws"
    using upd_clause_list_good [where s = s and l = nl and ws = ws and c = c and f = f] ln p assms(3) assms(4) [of nl] by simp
  moreover have "list_good (upd_clause c f s) k (s_watches s k)" if "k \<noteq> nl" for k
    using upd_clause_list_good [where s = s and l = k and ws = "s_watches s k" and c = c and f = f] lk [OF that] p assms(3) assms(4) [of k] that
    by simp
  moreover have "conflict_ok (upd_clause c f s)" using co p assms(3) by (auto simp: conflict_ok_def permutes_def)
  ultimately show ?thesis using upd_clause_graph_ok [where c = c and f = f, OF g p] by (simp add: search_ok_with_list)
qed

text \<open>The two watched literals of a clause a list watches.\<close>

lemma large_watched:
  assumes "list_good s l ws" and "c \<in> set (large ws)"
  shows "l = lits s c ! 0 \<or> l = lits s c ! 1" and "c < s_next s" and "2 < length (lits s c)"
    and "2 \<le> c_pos (s_heap s c)" and "c_pos (s_heap s c) \<le> length (lits s c)"
proof -
  obtain w where w: "w \<in> set ws" "\<not> watch_binary w" "w_clause w = c" using assms(2) by (auto simp: large_def)
  then have "watch_good s l w" using assms(1) by (simp add: list_good_def)
  with w show "l = lits s c ! 0 \<or> l = lits s c ! 1" "c < s_next s" "2 < length (lits s c)"
    "2 \<le> c_pos (s_heap s c)" "c_pos (s_heap s c) \<le> length (lits s c)"
    by (auto simp: watch_good_def watch_binary_def Let_def)
qed

lemma search_ok_list:
  assumes "search_ok M (with_list nl ws s)"
  shows "list_good s l (if l = nl then ws else s_watches s l)"
  using assms by (simp add: search_ok_with_list)

lemma search_ok_pos:
  assumes ok: "search_ok M (with_list nl ws s)" and "2 \<le> k" and "k \<le> length (lits s c)"
  shows "search_ok M (with_list nl ws (upd_clause c (c_pos_update (\<lambda>_. k)) s))"
proof (rule search_ok_upd_clause [OF ok])
  show "l = c_lits (c_pos_update (\<lambda>_. k) (s_heap s c)) ! 0 \<or> l = c_lits (c_pos_update (\<lambda>_. k) (s_heap s c)) ! 1"
    if "c \<in> set (large (if l = nl then ws else s_watches s l))" for l
    using large_watched(1) [OF search_ok_list [OF ok] that] by simp
qed (use assms(2,3) in \<open>simp_all add: permutes_def\<close>)

text \<open>The first two literals of the clause of a watch, with the false literal \<open>nl\<close> second.\<close>

definition other_lit :: "solver \<Rightarrow> int \<Rightarrow> swatch \<Rightarrow> int" where
  "other_lit s nl w = xor (xor (lits s (w_clause w) ! 0) (lits s (w_clause w) ! 1)) nl"

lemma large_facts:
  assumes ok: "search_ok M (with_list nl (kept @ w # ws) s)" and "\<not> watch_binary w"
  shows "w_clause w < s_next s" "clause_ok_on M s (lits s (w_clause w))" "2 < length (lits s (w_clause w))"
    "2 \<le> c_pos (s_heap s (w_clause w))" "c_pos (s_heap s (w_clause w)) \<le> length (lits s (w_clause w))"
    "{lits s (w_clause w) ! 0, lits s (w_clause w) ! 1} = {other_lit s nl w, nl}"
    "other_lit s nl w \<noteq> nl" "other_lit s nl w \<in> set (lits s (w_clause w))" "nl \<in> set (lits s (w_clause w))"
    "w_clause w \<notin> set (large (kept @ ws))"
proof -
  let ?c = "w_clause w"
  let ?ls = "lits s ?c"
  have l: "list_good s nl (kept @ w # ws)" and g: "graph_ok M s" using ok by (simp_all add: search_ok_with_list)
  have m: "?c \<in> set (large (kept @ w # ws))" using assms(2) by simp
  note L = large_watched [OF l m]
  show "?c < s_next s" "2 < length ?ls" "2 \<le> c_pos (s_heap s ?c)" "c_pos (s_heap s ?c) \<le> length ?ls" by (fact L)+
  show cok: "clause_ok_on M s ?ls" using g L(2) by (simp add: graph_ok_def clauses_ok_def)
  obtain a b r where ls: "?ls = a # b # r" using L(3) by (cases ?ls; cases "tl ?ls") auto
  have d: "distinct ?ls" using cok by (simp add: clause_ok_on_def)
  have "nl = ?ls ! 0 \<and> other_lit s nl w = ?ls ! 1 \<or> nl = ?ls ! 1 \<and> other_lit s nl w = ?ls ! 0"
    using L(1) xor_other unfolding other_lit_def by blast
  with ls d show "{?ls ! 0, ?ls ! 1} = {other_lit s nl w, nl}" "other_lit s nl w \<noteq> nl" "other_lit s nl w \<in> set ?ls" "nl \<in> set ?ls"
    by auto
  show "?c \<notin> set (large (kept @ ws))" using l assms(2) by (auto simp: list_good_def)
qed

text \<open>Moving a watch from \<open>nl\<close> to the literal at position \<open>k\<close>.\<close>

lemma move_permutes:
  assumes ls: "distinct ls" "2 \<le> k" "k < length ls" "{ls ! 0, ls ! 1} = {other, nl}" "other \<noteq> nl"
  shows "set (ls[0 := other, 1 := ls ! k, k := nl]) = set ls" and "ls ! k \<noteq> nl" and "ls ! k \<noteq> other"
    and "ls[0 := other, 1 := ls ! k, k := nl] ! 0 = other" and "ls[0 := other, 1 := ls ! k, k := nl] ! 1 = ls ! k"
    and "ls[k := nl, 0 := other, 1 := ls ! k] = ls[0 := other, 1 := ls ! k, k := nl]"
proof -
  obtain a e q where q: "ls = a # e # q" using ls(2,3) by (cases ls; cases "tl ls") auto
  obtain k' where k: "k = Suc (Suc k')" using that [of "k - 2"] ls(2) by simp
  have kq: "k' < length q" "ls ! k = q ! k'" using ls(3) by (simp_all add: k q)
  have d: "distinct q" "a \<notin> set q" "e \<notin> set q" using ls(1) q by auto
  have ae: "{a, e} = {other, nl}" using ls(4) by (simp add: q)
  have m: "q ! k' \<in> set q" using kq(1) by simp
  have eq: "ls[0 := other, 1 := ls ! k, k := nl] = other # q ! k' # q[k' := nl]" by (simp add: k q)
  have "insert (q ! k') (set (q[k' := nl])) = insert nl (set q)"
    using set_update_distinct [OF d(1) kq(1), of nl] m by blast
  then show "set (ls[0 := other, 1 := ls ! k, k := nl]) = set ls" unfolding eq using ae by (auto simp: q)
  show "ls ! k \<noteq> nl" "ls ! k \<noteq> other" using ae m d(2,3) kq(2) by auto
  show "ls[0 := other, 1 := ls ! k, k := nl] ! 0 = other" "ls[0 := other, 1 := ls ! k, k := nl] ! 1 = ls ! k"
    unfolding eq using kq(2) by simp_all
  show "ls[k := nl, 0 := other, 1 := ls ! k] = ls[0 := other, 1 := ls ! k, k := nl]" by (simp add: k q)
qed

lemma move_watch:
  assumes ok: "search_ok M (with_list nl (kept @ w # ws) s)" and nb: "\<not> watch_binary w"
    and k: "2 \<le> k" "k < length (lits s (w_clause w))" and b: "b \<in> set (lits s (w_clause w))" "b \<noteq> lits s (w_clause w) ! k"
    and f: "c_lits (f (s_heap s (w_clause w))) = (lits s (w_clause w))[0 := other_lit s nl w, 1 := lits s (w_clause w) ! k, k := nl]"
    "c_pos (f (s_heap s (w_clause w))) = c_pos (s_heap s (w_clause w))"
  shows "search_ok M (with_list nl (kept @ ws) (watch_literal (lits s (w_clause w) ! k) b (w_clause w) (upd_clause (w_clause w) f s)))"
proof -
  define c where "c = w_clause w"
  define ls where "ls = lits s c"
  define r where "r = ls ! k"
  define L where "L = ls[0 := other_lit s nl w, 1 := r, k := nl]"
  note F = large_facts [OF ok nb, folded c_def, folded ls_def]
  have fL: "c_lits (f (s_heap s c)) = L" using f(1) by (simp add: L_def r_def ls_def c_def)
  have d: "distinct ls" using F(2) by (simp add: clause_ok_on_def)
  have kl: "k < length ls" using k(2) by (simp add: ls_def c_def)
  note P = move_permutes [OF d k(1) kl F(6) F(7), folded r_def, folded L_def]
  have rn: "r \<noteq> nl" "r \<noteq> other_lit s nl w" by (fact P(2), fact P(3))
  have len: "length L = length ls" by (simp add: L_def)
  have perm: "permutes (s_heap s c) (f (s_heap s c))"
    unfolding permutes_def fL using P(1) len by (simp add: ls_def)
  have ok': "search_ok M (with_list nl (kept @ ws) (upd_clause c f s))"
  proof (rule search_ok_upd_clause [where c = c and f = f, OF search_ok_drop [OF ok] perm])
    show "2 \<le> c_pos (s_heap s c) \<Longrightarrow> 2 \<le> c_pos (f (s_heap s c)) \<and> c_pos (f (s_heap s c)) \<le> length (lits s c)"
      using f(2) F(5) by (simp add: c_def ls_def)
    fix l assume l: "c \<in> set (large (if l = nl then kept @ ws else s_watches s l))"
    then have "l \<noteq> nl" using F(10) by (auto simp: c_def)
    moreover have "l = ls ! 0 \<or> l = ls ! 1"
      using large_watched(1) [OF search_ok_list [OF search_ok_drop [OF ok]] l] by (simp add: ls_def)
    ultimately have "l = other_lit s nl w" using F(6) by auto
    then show "l = c_lits (f (s_heap s c)) ! 0 \<or> l = c_lits (f (s_heap s c)) ! 1" using P(4) by (simp add: fL)
  qed
  let ?t = "upd_clause c f s"
  have lt: "lits ?t c = L" by (simp add: fL)
  have lr: "list_good ?t r (s_watches s r)" using search_ok_list [OF ok', of r] rn by simp
  have "c \<notin> set (large (s_watches s r))"
  proof
    assume c: "c \<in> set (large (s_watches s r))"
    have "list_good s r (s_watches s r)" using search_ok_list [OF search_ok_drop [OF ok], of r] rn(1) by simp
    from large_watched(1) [OF this c] have "r \<in> {ls ! 0, ls ! 1}" by (auto simp: ls_def)
    with rn show False unfolding F(6) by simp
  qed
  moreover have "watch_good ?t r \<lparr>w_clause = c, w_blit = b, w_size = length (lits ?t c)\<rparr>"
  proof -
    have "b \<in> set L" using b(1) perm unfolding permutes_def fL c_def [symmetric] by simp
    moreover have "r \<in> set L" using P(1) kl by (simp add: r_def)
    ultimately show ?thesis
      using F(1,3-5) f(2) b(2) P(5) len unfolding watch_good_def Let_def watch_binary_def lt swatch.simps
      by (simp add: c_def [symmetric] ls_def [symmetric] r_def [symmetric])
  qed
  ultimately have "list_good ?t r (s_watches s r @ [\<lparr>w_clause = c, w_blit = b, w_size = length (lits ?t c)\<rparr>])"
    by (intro list_good_push [OF lr]) simp_all
  moreover have wl: "watch_literal r b c ?t = with_list r (s_watches s r @ [\<lparr>w_clause = c, w_blit = b, w_size = length (lits ?t c)\<rparr>]) ?t"
    by (simp add: watch_literal_def with_list_def)
  ultimately have "search_ok M (with_list nl (kept @ ws) (watch_literal r b c ?t))"
    using ok' rn unfolding wl search_ok_with_list by (auto simp: conflict_ok_def)
  then show ?thesis by (simp add: r_def ls_def c_def)
qed

section \<open>Propagating over one watch\<close>

definition option_list :: "'a option \<Rightarrow> 'a list" where
  "option_list ow = (case ow of None \<Rightarrow> [] | Some w \<Rightarrow> [w])"

lemma option_list_simps [simp]: "option_list None = []" "option_list (Some w) = [w]"
  by (simp_all add: option_list_def)

definition step_result :: "(nat \<Rightarrow> bool) set \<Rightarrow> int \<Rightarrow> swatch list \<Rightarrow> swatch list \<Rightarrow> solver \<Rightarrow> swatch option \<times> bool \<times> solver \<Rightarrow> bool" where
  "step_result M nl kept ws s = (\<lambda>(ow, stop, t).
     search_ok M (with_list nl (kept @ option_list ow @ ws) t) \<and> extends s t \<and> (stop \<longrightarrow> s_conflict t \<noteq> None))"

lemma step_result_simps [simp]:
  "step_result M nl kept ws s (ow, stop, t)
    \<longleftrightarrow> search_ok M (with_list nl (kept @ option_list ow @ ws) t) \<and> extends s t \<and> (stop \<longrightarrow> s_conflict t \<noteq> None)"
  by (simp add: step_result_def)

lemma search_ok_assign:
  assumes ok: "search_ok M (with_list nl ws s)" and a: "may_assign M l why s"
  shows "search_ok M (with_list nl ws (search_assign l why s))"
proof -
  have g: "graph_ok M s" and co: "conflict_ok s" and ln: "list_good s nl ws" and lk: "\<And>k. k \<noteq> nl \<Longrightarrow> list_good s k (s_watches s k)"
    using ok by (simp_all add: search_ok_with_list)
  have "list_good (search_assign l why s) k vs \<longleftrightarrow> list_good s k vs" for k vs
    by (simp add: list_good_def watch_good_def)
  moreover have "conflict_ok (search_assign l why s)" using co by (auto simp: conflict_ok_def)
  ultimately show ?thesis using search_assign_graph_ok [OF g a] ln lk by (simp add: search_ok_with_list)
qed

lemma search_ok_conflict:
  assumes "search_ok M (with_list nl ws s)" and "c < s_next s" and "2 \<le> c_pos (s_heap s c)" and "c_pos (s_heap s c) \<le> length (lits s c)"
    and "\<And>k. k \<in> set (lits s c) \<Longrightarrow> - k \<in> set (s_trail s)"
  shows "search_ok M (with_list nl ws (s\<lparr>s_conflict := Some c\<rparr>))"
proof -
  have "same_graph s (s\<lparr>s_conflict := Some c\<rparr>)" by (simp add: same_graph_def)
  moreover have "list_good (s\<lparr>s_conflict := Some c\<rparr>) k vs \<longleftrightarrow> list_good s k vs" for k vs
    by (simp add: list_good_def watch_good_def)
  ultimately show ?thesis using assms same_graph_ok [of s "s\<lparr>s_conflict := Some c\<rparr>" M]
    by (simp add: search_ok_with_list conflict_ok_def)
qed

lemma binary_set:
  assumes "length ls = 2" and "a \<in> set ls" and "b \<in> set ls" and "a \<noteq> b"
  shows "set ls = {a, b}"
proof -
  obtain x y where "ls = [x, y]" using assms(1) by (auto simp: length_Suc_conv numeral_2_eq_2)
  with assms show ?thesis by auto
qed

lemma propagate_binary:
  assumes ok: "search_ok M (with_list nl (kept @ w # ws) s)" and nl: "- nl \<in> set (s_trail s)"
    and b: "\<not> s_vals s (w_blit w) > 0" and bin: "watch_binary w"
  shows "\<exists>p. propagate_watch nl w s = Inr p \<and> step_result M nl kept ws s p"
proof -
  let ?c = "w_clause w" and ?b = "w_blit w"
  have g: "graph_ok M s" and "list_good s nl (kept @ w # ws)" using ok by (simp_all add: search_ok_with_list)
  then have w: "watch_good s nl w" and v: "vals_ok s" by (simp_all add: list_good_def graph_ok_def)
  then have W: "?c < s_next s" "length (lits s ?c) = 2" "nl \<in> set (lits s ?c)" "?b \<in> set (lits s ?c)" "nl \<noteq> ?b"
      "2 \<le> c_pos (s_heap s ?c)" "c_pos (s_heap s ?c) \<le> length (lits s ?c)"
    using bin by (auto simp: watch_good_def watch_binary_def Let_def)
  have c: "?c < s_next s" "set (lits s ?c) = {nl, ?b}" by (fact W(1), rule binary_set [OF W(2-5)])
  then have cok: "clause_ok_on M s (lits s ?c)" using g by (simp add: graph_ok_def clauses_ok_def)
  have bl: "lit_in s ?b" using cok c(2) by (simp add: clause_ok_on_def)
  then have b0: "?b \<noteq> 0" by (simp add: lit_in_def)
  show ?thesis
  proof (cases "s_vals s ?b < 0")
    case True
    then have "- ?b \<in> set (s_trail s)" using vals_iff(2) [OF v b0] by simp
    then have "search_ok M (with_list nl (kept @ w # ws) (s\<lparr>s_conflict := Some ?c\<rparr>))"
      using search_ok_conflict [OF ok c(1) W(6,7)] c(2) nl by auto
    with True b bin show ?thesis by (simp add: propagate_watch_def)
  next
    case False
    with b have z: "s_vals s ?b = 0" by simp
    then have m: "may_assign M ?b (Because ?c) s" using bl c nl by (auto simp: may_assign_def)
    from search_ok_assign [OF ok m] extends_assign [OF v m] z b bin show ?thesis by (simp add: propagate_watch_def)
  qed
qed

lemma find_level_found:
  assumes "k \<in> set ls" and "v_level (vt (vidx k)) = l"
  shows "\<exists>i < length ls. find_level vt l ls p = Inr (p + i) \<and> v_level (vt (vidx (ls ! i))) = l"
  using assms
proof (induction ls arbitrary: p)
  case Nil
  then show ?case by simp
next
  case (Cons x xs)
  show ?case
  proof (cases "v_level (vt (vidx x)) = l")
    case True
    then show ?thesis by (intro exI [of _ 0]) simp
  next
    case False
    with Cons.prems have "k \<in> set xs" by auto
    from Cons.IH [OF this Cons.prems(2), of "p + 1"] obtain i where
      "i < length xs" "find_level vt l xs (p + 1) = Inr (p + 1 + i)" "v_level (vt (vidx (xs ! i))) = l" by blast
    with False show ?thesis by (intro exI [of _ "Suc i"]) simp
  qed
qed

text \<open>The new unit, and the watch moved to its level.\<close>

lemma rewatch_level_ok:
  assumes ok: "search_ok M (with_list nl (kept @ w # ws) s)" and nb: "\<not> watch_binary w"
    and a: "may_assign M (other_lit s nl w) (Because (w_clause w)) s"
  shows "\<exists>m t. rewatch_level nl (other_lit s nl w) (w_clause w) (search_assign (other_lit s nl w) (Because (w_clause w)) s) = Inr (m, t)
    \<and> search_ok M (with_list nl (kept @ (if m then ws else w # ws)) t) \<and> extends s t"
proof -
  define o' where "o' = other_lit s nl w"
  define c where "c = w_clause w"
  define t where "t = search_assign o' (Because c) s"
  define ls where "ls = lits t c"
  have okt: "search_ok M (with_list nl (kept @ w # ws) t)" unfolding t_def o'_def c_def by (rule search_ok_assign [OF ok a])
  note F = large_facts [OF okt nb, folded c_def, folded ls_def]
  have ot: "other_lit t nl w = o'" by (simp add: other_lit_def t_def o'_def)
  have "vals_ok s" using ok by (simp add: search_ok_with_list graph_ok_def)
  from extends_assign [OF this a] have st: "extends s t" by (simp add: t_def o'_def c_def)
  show ?thesis
  proof (cases "o_chrono (s_opts t) > 1 \<and> lev t o' > lev t nl")
    case False
    then have "rewatch_level nl o' c t = Inr (False, t)" unfolding rewatch_level_def Let_def by (rule if_not_P)
    with okt st show ?thesis by (auto simp: t_def o'_def c_def)
  next
    case True
    have lv: "lev t o' = assignment_level o' c s" using True by (simp add: t_def lit_level_def)
    then have "0 < assignment_level o' c s" using True by simp
    from assignment_level_attained [OF this] obtain k where k: "k \<in> set (lits s c)" "k \<noteq> o'" "lev s k = lev t o'" using lv by auto
    have g: "graph_ok M s" using ok by (simp add: search_ok_with_list)
    have "- k \<in> set (s_trail s)" using a k(1,2) by (simp add: may_assign_def o'_def c_def)
    moreover have "o' \<notin> set (s_trail s)" "- o' \<notin> set (s_trail s)"
      using a g vals_iff(3) [of s o'] by (simp_all add: may_assign_def graph_ok_def lit_in_def o'_def)
    ultimately have "vidx k \<noteq> vidx o'" by (auto simp: vidx_eq)
    then have lk: "lev t k = lev t o'" using k(3) by (simp add: t_def)
    have "k \<noteq> nl" using lk True by auto
    have kls: "k \<in> set ls" using k(1) by (simp add: ls_def t_def)
    obtain a' e q where ls: "ls = a' # e # q" using F(3) by (cases ls; cases "tl ls") auto
    have "{a', e} = {o', nl}" using F(6) ls ot by simp
    then have kq: "k \<in> set (drop 2 ls)" using kls k(2) \<open>k \<noteq> nl\<close> ls by auto
    from find_level_found [where vt = "s_vtab t" and p = 2, OF kq lk] obtain i where i: "i < length (drop 2 ls)"
      "find_level (s_vtab t) (lev t o') (drop 2 ls) 2 = Inr (2 + i)" "lev t (drop 2 ls ! i) = lev t o'" by blast
    let ?p = "2 + i"
    have p: "2 \<le> ?p" "?p < length ls" using i(1) by auto
    let ?f = "c_lits_update (\<lambda>ls. ls[?p := nl, 0 := o', 1 := lits t c ! ?p])"
    have d: "distinct ls" using F(2) by (simp add: clause_ok_on_def)
    note P = move_permutes [OF d p F(6) F(7), unfolded ot]
    have f: "c_lits (?f (s_heap t c)) = ls[0 := o', 1 := ls ! ?p, ?p := nl]" using P(6) by (simp add: ls_def)
    have "search_ok M (with_list nl (kept @ ws) (watch_literal (lits t (w_clause w) ! ?p) o' (w_clause w) (upd_clause (w_clause w) ?f t)))"
    proof (rule move_watch [OF okt nb p(1)])
      show "?p < length (lits t (w_clause w))" using p(2) by (simp add: ls_def c_def)
      show "o' \<in> set (lits t (w_clause w))" using F(8) by (simp add: ot ls_def c_def)
      show "o' \<noteq> lits t (w_clause w) ! ?p" using P(3) by (simp add: ls_def c_def)
      show "c_lits (?f (s_heap t (w_clause w))) = (lits t (w_clause w))[0 := other_lit t nl w, 1 := lits t (w_clause w) ! ?p, ?p := nl]"
        using f by (simp add: ot ls_def c_def)
    qed simp
    moreover have "rewatch_level nl o' c t = Inr (True, watch_literal (ls ! ?p) o' c (upd_clause c ?f t))"
      using True i(2) by (simp add: rewatch_level_def Let_def ls_def)
    moreover have "extends t (upd_clause c ?f t)"
      by (rule extends_clause) (unfold f P(1), simp_all add: ls_def)
    then have "extends s (watch_literal (ls ! ?p) o' c (upd_clause c ?f t))"
      using st extends_watches(3) extends_trans by blast
    ultimately show ?thesis by (auto simp: t_def o'_def c_def ls_def)
  qed
qed


text \<open>The outcomes for a large clause, and what is false when no replacement is found.\<close>

lemma propagate_large_run:
  fixes w s nl
  defines "c \<equiv> w_clause w" and "o' \<equiv> other_lit s nl w"
  assumes "replacement (s_vals s) (lits s (w_clause w)) (c_pos (s_heap s (w_clause w))) = (k, r, x)"
  shows "propagate_large nl w s =
    (let s1 = upd_clause c (c_pos_update (\<lambda>_. k)) s in
       if s_vals s o' > 0 then Inr (Some (w\<lparr>w_blit := o'\<rparr>), False, s)
       else if x > 0 then Inr (Some (w\<lparr>w_blit := r\<rparr>), False, s1)
       else if x = 0 then Inr (None, False, watch_literal r nl c (upd_clause c (c_lits_update (\<lambda>ls. ls[0 := o', 1 := r, k := nl])) s1))
       else if s_vals s o' = 0 then bind_res (rewatch_level nl o' c (search_assign o' (Because c) s1)) (\<lambda>(moved, s).
               Inr (if moved then None else Some w, False, s))
       else Inr (Some w, True, s1\<lparr>s_conflict := Some c\<rparr>))"
  using assms(3) by (simp add: propagate_large_def Let_def other_lit_def c_def o'_def)

lemma large_others_false:
  assumes ok: "search_ok M (with_list nl (kept @ w # ws) s)" and nl: "- nl \<in> set (s_trail s)" and nb: "\<not> watch_binary w"
    and rep: "replacement (s_vals s) (lits s (w_clause w)) (c_pos (s_heap s (w_clause w))) = (k, r, x)" and x: "x < 0"
    and l: "l \<in> set (lits s (w_clause w))" "l \<noteq> other_lit s nl w"
  shows "- l \<in> set (s_trail s)"
proof (cases "l = nl")
  case True
  then show ?thesis using nl by simp
next
  case False
  note F = large_facts [OF ok nb]
  have v: "vals_ok s" and nz: "l \<noteq> 0"
    using ok F(2) l(1) by (auto simp: search_ok_with_list graph_ok_def clause_ok_on_def lit_in_def)
  obtain i where i: "i < length (lits s (w_clause w))" "l = lits s (w_clause w) ! i" using l(1) by (auto simp: in_set_conv_nth)
  have "l \<notin> {lits s (w_clause w) ! 0, lits s (w_clause w) ! 1}" using F(6) l(2) False by simp
  then have "2 \<le> i" using i(2) by (cases i; cases "i - 1") auto
  from replacement_result(4) [OF rep F(4,5) x this i(1)] have "s_vals s l < 0" by (simp add: i(2))
  then show ?thesis using vals_iff(2) [OF v nz] by simp
qed

lemma large_unit:
  assumes ok: "search_ok M (with_list nl (kept @ w # ws) s)" and nl: "- nl \<in> set (s_trail s)" and nb: "\<not> watch_binary w"
    and rep: "replacement (s_vals s) (lits s (w_clause w)) (c_pos (s_heap s (w_clause w))) = (k, r, x)" and x: "x < 0"
    and u: "s_vals s (other_lit s nl w) = 0"
  shows "may_assign M (other_lit s nl w) (Because (w_clause w)) (upd_clause (w_clause w) (c_pos_update (\<lambda>_. k)) s)"
proof -
  note F = large_facts [OF ok nb]
  have "lit_in s (other_lit s nl w)" using F(2,8) by (simp add: clause_ok_on_def)
  then show ?thesis using u F(1,8) large_others_false [OF ok nl nb rep x] by (simp add: may_assign_def lit_in_def)
qed

lemma propagate_large_ok:
  assumes ok: "search_ok M (with_list nl (kept @ w # ws) s)" and nl: "- nl \<in> set (s_trail s)" and nb: "\<not> watch_binary w"
  shows "\<exists>p. propagate_large nl w s = Inr p \<and> step_result M nl kept ws s p"
proof -
  define c where "c = w_clause w"
  define ls where "ls = lits s c"
  define o' where "o' = other_lit s nl w"
  note F = large_facts [OF ok nb, folded c_def, folded ls_def o'_def]
  have g: "graph_ok M s" using ok by (simp add: search_ok_with_list)
  then have v: "vals_ok s" by (simp add: graph_ok_def)
  have d: "distinct ls" and nz: "\<And>l. l \<in> set ls \<Longrightarrow> lit_in s l" using F(2) by (simp_all add: clause_ok_on_def)
  have o0: "o' \<noteq> 0" using nz [OF F(8)] by (simp add: lit_in_def)
  obtain k r x where rep: "replacement (s_vals s) ls (c_pos (s_heap s c)) = (k, r, x)" by (metis prod_cases3)
  note R = replacement_result [OF rep F(4) F(5)]
  define s1 where "s1 = upd_clause c (c_pos_update (\<lambda>_. k)) s"
  have ok1: "search_ok M (with_list nl (kept @ w # ws) s1)"
    unfolding s1_def by (rule search_ok_pos [OF ok R(1)]) (use R(2) in \<open>simp add: ls_def\<close>)
  have e1: "extends s s1" unfolding s1_def by (rule extends_clause) simp_all
  have l1: "lits s1 c = ls" "other_lit s1 nl w = o'" by (simp_all add: s1_def ls_def o'_def other_lit_def c_def)
  have v1: "s_vals s1 = s_vals s" "s_trail s1 = s_trail s" "s_next s1 = s_next s" by (simp_all add: s1_def)
  note run = propagate_large_run [where nl = nl, OF rep [unfolded ls_def c_def], folded c_def o'_def s1_def, unfolded Let_def, folded s1_def]
  note false = large_others_false [OF ok nl nb rep [unfolded ls_def c_def], folded c_def, folded o'_def ls_def]
  consider (sat) "s_vals s o' > 0" | (repl) "\<not> s_vals s o' > 0" "x > 0" | (move) "\<not> s_vals s o' > 0" "x = 0"
    | (unit) "x < 0" "s_vals s o' = 0" | (confl) "x < 0" "s_vals s o' < 0" by linarith
  then show ?thesis
  proof cases
    case sat
    have "search_ok M (with_list nl (kept @ w\<lparr>w_blit := o'\<rparr> # ws) s)"
      by (rule search_ok_blit [OF ok _ nb]) (use F(8) in \<open>simp add: ls_def c_def\<close>)
    with sat show ?thesis unfolding run by simp
  next
    case repl
    have "r \<in> set ls" using R(3) repl(2) by simp
    then have "search_ok M (with_list nl (kept @ w\<lparr>w_blit := r\<rparr> # ws) s1)"
      by (intro search_ok_blit [OF ok1 _ nb]) (simp add: l1 c_def [symmetric])
    with repl e1 show ?thesis unfolding run by simp
  next
    case move
    then have r: "k < length ls" "r = ls ! k" using R(3) by simp_all
    let ?f = "c_lits_update (\<lambda>ls. ls[0 := o', 1 := r, k := nl])"
    note P = move_permutes [OF d R(1) r(1) F(6) F(7), folded r(2)]
    have "search_ok M (with_list nl (kept @ ws) (watch_literal (lits s1 (w_clause w) ! k) nl (w_clause w) (upd_clause (w_clause w) ?f s1)))"
    proof (rule move_watch [OF ok1 nb R(1)])
      show "k < length (lits s1 (w_clause w))" "nl \<in> set (lits s1 (w_clause w))" "nl \<noteq> lits s1 (w_clause w) ! k"
        using r F(9) P(2) l1(1) by (simp_all add: c_def)
      show "c_lits (?f (s_heap s1 (w_clause w))) = (lits s1 (w_clause w))[0 := other_lit s1 nl w, 1 := lits s1 (w_clause w) ! k, k := nl]"
        using l1 r(2) by (simp add: c_def)
    qed simp
    moreover have "extends s1 (upd_clause c ?f s1)" by (rule extends_clause) (use P(1) in \<open>simp_all add: l1\<close>)
    then have "extends s (watch_literal r nl c (upd_clause c ?f s1))"
      using e1 extends_watches(3) extends_trans by blast
    ultimately show ?thesis using move r(2) l1(1) unfolding run by (simp add: c_def)
  next
    case unit
    have "may_assign M (other_lit s1 nl w) (Because (w_clause w)) s1"
      using large_unit [OF ok nl nb rep [unfolded ls_def c_def] unit(1)] unit(2) l1(2) by (simp add: s1_def c_def o'_def)
    from rewatch_level_ok [OF ok1 nb this] obtain m t where m:
      "rewatch_level nl o' c (search_assign o' (Because c) s1) = Inr (m, t)"
      "search_ok M (with_list nl (kept @ (if m then ws else w # ws)) t)" "extends s1 t" unfolding l1(2) c_def by blast
    from m(3) e1 have "extends s t" using extends_trans by blast
    with m unit show ?thesis unfolding run by (cases m) simp_all
  next
    case confl
    have "- l \<in> set (s_trail s1)" if "l \<in> set (lits s1 c)" for l
      using false [OF confl(1), of l] that confl(2) vals_iff(2) [OF v o0] by (cases "l = o'") (simp_all add: l1 v1)
    with F(1) have "search_ok M (with_list nl (kept @ w # ws) (s1\<lparr>s_conflict := Some c\<rparr>))"
      by (intro search_ok_conflict [OF ok1]) (use R(1,2) in \<open>simp_all add: v1 l1, simp_all add: s1_def\<close>)
    moreover have "extends s (s1\<lparr>s_conflict := Some c\<rparr>)" using e1 extends_conflict extends_trans by blast
    ultimately show ?thesis using confl unfolding run by simp
  qed
qed

lemma propagate_watch_ok:
  assumes ok: "search_ok M (with_list nl (kept @ w # ws) s)" and nl: "- nl \<in> set (s_trail s)"
  shows "\<exists>p. propagate_watch nl w s = Inr p \<and> step_result M nl kept ws s p"
proof -
  consider "s_vals s (w_blit w) > 0" | "\<not> s_vals s (w_blit w) > 0" "watch_binary w"
    | "\<not> s_vals s (w_blit w) > 0" "\<not> watch_binary w" "s_conflict s \<noteq> None"
    | "\<not> s_vals s (w_blit w) > 0" "\<not> watch_binary w" "s_conflict s = None" "c_garbage (s_heap s (w_clause w))"
    | "\<not> s_vals s (w_blit w) > 0" "\<not> watch_binary w" "s_conflict s = None" "\<not> c_garbage (s_heap s (w_clause w))"
    by blast
  then show ?thesis
  proof cases
    case 2
    then show ?thesis by (intro propagate_binary [OF ok nl])
  next
    case 4
    with search_ok_drop [OF ok] show ?thesis by (simp add: propagate_watch_def)
  next
    case 5
    with propagate_large_ok [OF ok nl] show ?thesis by (simp add: propagate_watch_def)
  qed (use ok in \<open>simp_all add: propagate_watch_def\<close>)
qed

section \<open>The watch list and the trail\<close>

lemma propagate_watches_ok:
  assumes "search_ok M (with_list nl (kept @ ws) s)" and "- nl \<in> set (s_trail s)"
  shows "\<exists>ks t. propagate_watches nl ws s = Inr (ks, t) \<and> search_ok M (with_list nl (kept @ ks) t) \<and> extends s t"
  using assms
proof (induction ws arbitrary: kept s)
  case Nil
  then show ?case by simp
next
  case (Cons w ws)
  from propagate_watch_ok [OF Cons.prems] obtain ow stop t where p:
    "propagate_watch nl w s = Inr (ow, stop, t)" "search_ok M (with_list nl (kept @ option_list ow @ ws) t)" "extends s t"
    by auto
  show ?case
  proof (cases stop)
    case True
    with p show ?thesis by (auto simp: option_list_def split: option.splits)
  next
    case False
    have "- nl \<in> set (s_trail t)" using Cons.prems(2) p(3) by (auto simp: extends_def)
    moreover have "search_ok M (with_list nl ((kept @ option_list ow) @ ws) t)" using p(2) by simp
    ultimately obtain ks u where
      "propagate_watches nl ws t = Inr (ks, u)" "search_ok M (with_list nl ((kept @ option_list ow) @ ks) u)" "extends t u"
      using Cons.IH by blast
    with False p show ?thesis by (auto simp: option_list_def Let_def split: option.splits intro: extends_trans)
  qed
qed

lemma with_list_same: "with_list l (s_watches s l) s = s"
  by (simp add: with_list_def)

lemma propagate_lit_ok:
  assumes "search_ok M s" and "- nl \<in> set (s_trail s)"
  shows "\<exists>t. propagate_lit nl s = Inr t \<and> search_ok M t \<and> extends s t"
proof -
  have "search_ok M (with_list nl ([] @ s_watches s nl) s)" using assms(1) by (simp add: with_list_same)
  from propagate_watches_ok [OF this assms(2)] obtain ks t where
    t: "propagate_watches nl (s_watches s nl) s = Inr (ks, t)" "search_ok M (with_list nl ks t)" "extends s t" by auto
  then show ?thesis
    by (auto simp: propagate_lit_def with_list_def intro: extends_trans [OF _ extends_watches(1)])
qed

lemma search_ok_propagated: "search_ok M (s\<lparr>s_propagated := n\<rparr>) \<longleftrightarrow> search_ok M s"
proof -
  have "same_graph s (s\<lparr>s_propagated := n\<rparr>)" "same_graph (s\<lparr>s_propagated := n\<rparr>) s" by (simp_all add: same_graph_def)
  then have "graph_ok M (s\<lparr>s_propagated := n\<rparr>) \<longleftrightarrow> graph_ok M s" using same_graph_ok by blast
  then show ?thesis by (simp add: search_ok_def watches_good_def list_good_def watch_good_def conflict_ok_def)
qed

definition advances :: "solver \<Rightarrow> solver \<Rightarrow> bool" where
  "advances s t \<longleftrightarrow> extends s (t\<lparr>s_propagated := s_propagated s\<rparr>)"

lemma advances_refl [simp]: "advances s s"
  by (simp add: advances_def)

lemma advances_step:
  assumes "extends (s\<lparr>s_propagated := n\<rparr>) t"
  shows "advances s t"
  using assms unfolding advances_def extends_def by simp

lemma advances_trans: "advances s t \<Longrightarrow> advances t u \<Longrightarrow> advances s u"
  unfolding advances_def extends_def by (elim conjE exE, intro conjI) simp_all

text \<open>One step for each literal on the trail: at most as many as there are variables.\<close>

lemma propagate_loop_ok:
  assumes "search_ok M s" and "s_propagated s \<le> length (s_trail s)" and "s_max_var s \<le> fuel + s_propagated s"
  shows "\<exists>t. propagate_loop fuel s = Inr t \<and> search_ok M t \<and> advances s t \<and> s_propagated s \<le> s_propagated t
    \<and> s_propagated t \<le> length (s_trail t) \<and> (s_conflict t = None \<longrightarrow> s_propagated t = length (s_trail t))"
  using assms
proof (induction fuel arbitrary: s)
  case 0
  have "length (s_trail s) \<le> s_max_var s" using 0(1) trail_length by (simp add: search_ok_def graph_ok_def)
  with 0 show ?case by (subst propagate_loop.simps) auto
next
  case (Suc fuel)
  show ?case
  proof (cases "s_conflict s = None \<and> s_propagated s \<noteq> length (s_trail s)")
    case False
    with Suc.prems show ?thesis by (subst propagate_loop.simps) auto
  next
    case True
    let ?s = "s\<lparr>s_propagated := s_propagated s + 1\<rparr>"
    let ?l = "s_trail s ! s_propagated s"
    have lt: "s_propagated s < length (s_trail s)" using True Suc.prems(2) by simp
    then have m: "- (- ?l) \<in> set (s_trail ?s)" by simp
    have "search_ok M ?s" using Suc.prems(1) by (simp add: search_ok_propagated)
    from propagate_lit_ok [OF this m] obtain t where t: "propagate_lit (- ?l) ?s = Inr t" "search_ok M t" "extends ?s t" by blast
    have f: "s_propagated t = s_propagated s + 1" "s_max_var t = s_max_var s" "length (s_trail s) \<le> length (s_trail t)"
      using t(3) by (auto simp: extends_def)
    have "s_propagated t \<le> length (s_trail t)" "s_max_var t \<le> fuel + s_propagated t" using f lt Suc.prems(3) by simp_all
    from Suc.IH [OF t(2) this] obtain u where u: "propagate_loop fuel t = Inr u" "search_ok M u" "advances t u"
      "s_propagated t \<le> s_propagated u" "s_propagated u \<le> length (s_trail u)"
      "s_conflict u = None \<longrightarrow> s_propagated u = length (s_trail u)" by (elim exE conjE) (rule that; assumption)
    have "propagate_loop (Suc fuel) s = Inr u"
      by (subst propagate_loop.simps) (simp only: if_P [OF True] nat.case vec_get_ok [OF lt] bind_res_simps t(1) u(1))
    with u f advances_trans [OF advances_step [OF t(3)] u(3)] show ?thesis by auto
  qed
qed

end
