(* ===== verification/Search_Analyze_Sound.thy ===== *)
theory Search_Analyze_Sound
  imports Search_Propagate_Sound
begin

text \<open>
  Conflict analysis: the literals it marks as seen explain the conflict, the loop for the first unique
  implication point never leaves the trail nor follows a null reason, and the clause it derives
  follows from the formula.
\<close>

section \<open>Explanations\<close>

definition resolved :: "solver \<Rightarrow> int set \<Rightarrow> int \<Rightarrow> bool" where
  "resolved s S t \<longleftrightarrow> (\<exists>c. rsn s t = Some c \<and> (\<forall>k \<in> set (lits s c). k \<noteq> t \<longrightarrow> - k \<in> S \<or> lev s k = 0))"

text \<open>Every literal of \<open>S\<close> is on the trail, and fixed, refuted by \<open>C\<close>, or implied by others of \<open>S\<close>.\<close>

definition explained :: "solver \<Rightarrow> int set \<Rightarrow> int list \<Rightarrow> bool" where
  "explained s S C \<longleftrightarrow> (\<forall>t \<in> S. t \<in> set (s_trail s) \<and> (lev s t = 0 \<or> - t \<in> set C \<or> resolved s S t))"

lemma false_clause: "\<not> cl_on a C \<Longrightarrow> k \<in> set C \<Longrightarrow> k \<noteq> 0 \<Longrightarrow> lit_on a (- k)"
  by (auto simp: cl_on_def list_ex_iff)

lemma ent_unit_on: "ent M [l] \<Longrightarrow> a \<in> M \<Longrightarrow> lit_on a l"
  by (simp add: ent_def cl_on_def)

lemma explained_true:
  assumes g: "graph_ok M s" and e: "explained s S C" and a: "a \<in> M" "\<not> cl_on a C"
  shows "p < length (s_trail s) \<Longrightarrow> s_trail s ! p \<in> S \<Longrightarrow> lit_on a (s_trail s ! p)"
proof (induction p rule: less_induct)
  case (less p)
  let ?t = "s_trail s ! p"
  have t: "?t \<in> set (s_trail s)" using less.prems(1) by simp
  then have t0: "?t \<noteq> 0" using g by (auto simp: graph_ok_def vals_ok_def lit_in_def)
  consider "lev s ?t = 0" | "- ?t \<in> set C" | "resolved s S ?t" using e less.prems(2) by (auto simp: explained_def)
  then show ?case
  proof cases
    case 1
    with level0_ent [OF g t] a(1) show ?thesis by (auto intro: ent_unit_on)
  next
    case 2
    with false_clause [OF a(2), of "- ?t"] t0 show ?thesis by simp
  next
    case 3
    then obtain c where c: "rsn s ?t = Some c" "\<forall>k \<in> set (lits s c). k \<noteq> ?t \<longrightarrow> - k \<in> S \<or> lev s k = 0"
      unfolding resolved_def by (elim exE conjE) (rule that)
    note r = reason_at(1) [OF g less.prems(1) c(1)]
    have "clause_ok_on M s (lits s c)" using g r by (simp add: graph_ok_def clauses_ok_def implied_by_def)
    then have cl: "cl_on a (lits s c)" and nz: "\<And>k. k \<in> set (lits s c) \<Longrightarrow> k \<noteq> 0"
      using a(1) by (auto simp: clause_ok_on_def ent_def lit_in_def)
    have "\<not> lit_on a k" if k: "k \<in> set (lits s c)" "k \<noteq> ?t" for k
    proof -
      have "- k \<in> set (take p (s_trail s))" using r k by (simp add: implied_by_def)
      then obtain q where q: "q < p" "q < length (s_trail s)" "s_trail s ! q = - k" by (auto simp: in_set_conv_nth)
      have "lit_on a (- k)"
      proof (cases "- k \<in> S")
        case True
        with less.IH [OF q(1,2)] q(3) show ?thesis by simp
      next
        case False
        then have "lev s (- k) = 0" using c(2) k by auto
        moreover have "- k \<in> set (s_trail s)" using q by (metis nth_mem)
        ultimately show ?thesis using level0_ent [OF g] a(1) ent_unit_on by blast
      qed
      with nz [OF k(1)] show ?thesis by simp
    qed
    with cl show ?thesis by (auto simp: cl_on_def list_ex_iff)
  qed
qed

text \<open>A conflict explained by \<open>S\<close> makes \<open>C\<close> a consequence.\<close>

lemma explained_ent:
  assumes g: "graph_ok M s" and e: "explained s S C" and c: "clause_ok_on M s cs"
    and k: "\<forall>k \<in> set cs. - k \<in> set (s_trail s) \<and> (- k \<in> S \<or> lev s k = 0)"
  shows "ent M C"
  unfolding ent_def
proof
  fix a assume a: "a \<in> M"
  show "cl_on a C"
  proof (rule ccontr)
    assume n: "\<not> cl_on a C"
    have "lit_on a (- l)" if l: "l \<in> set cs" for l
    proof (cases "- l \<in> S")
      case True
      have "- l \<in> set (s_trail s)" using k l by blast
      then obtain p where "p < length (s_trail s)" "s_trail s ! p = - l" unfolding in_set_conv_nth by blast
      with explained_true [OF g e a n, of p] True show ?thesis by simp
    next
      case False
      with k l have "lev s (- l) = 0" "- l \<in> set (s_trail s)" by auto
      with level0_ent [OF g] a show ?thesis by (blast intro: ent_unit_on)
    qed
    moreover have "l \<noteq> 0" if "l \<in> set cs" for l using c that by (auto simp: clause_ok_on_def lit_in_def)
    moreover have "cl_on a cs" using c a by (simp add: clause_ok_on_def ent_def)
    ultimately show False by (auto simp: cl_on_def list_ex_iff)
  qed
qed

section \<open>What analysis leaves alone\<close>

definition quiet :: "solver \<Rightarrow> solver \<Rightarrow> bool" where
  "quiet s t \<longleftrightarrow> same_graph s t \<and> s_watches t = s_watches s \<and> (\<forall>c. c_pos (s_heap t c) = c_pos (s_heap s c))
     \<and> s_conflict t = s_conflict s \<and> s_propagated t = s_propagated s \<and> s_unsat t = s_unsat s
     \<and> (\<forall>c. c_redundant (s_heap t c) = c_redundant (s_heap s c) \<and> (c_garbage (s_heap s c) \<longrightarrow> c_garbage (s_heap t c))
          \<and> (\<not> c_redundant (s_heap s c) \<longrightarrow> c_garbage (s_heap t c) = c_garbage (s_heap s c)))
     \<and> s_queue t = s_queue s \<and> s_scores t = s_scores s
     \<and> s_stab t = s_stab s \<and> s_score_inc t = s_score_inc s"

lemma quiet_refl [simp]: "quiet s s"
  by (simp add: quiet_def)

lemma quiet_trans: "quiet s t \<Longrightarrow> quiet t u \<Longrightarrow> quiet s u"
  by (auto simp: quiet_def intro: same_graph_trans)

lemma quiet_ok: "quiet s t \<Longrightarrow> search_ok M s \<Longrightarrow> search_ok M t"
  by (auto simp: quiet_def search_ok_def conflict_ok_def same_graph_def watches_good_def list_good_def watch_good_def
      intro: same_graph_ok)

lemma quiet_fields:
  assumes "quiet s t"
  shows "s_trail t = s_trail s" "s_level t = s_level s" "lev t l = lev s l" "rsn t l = rsn s l" "lits t c = lits s c"
    "s_next t = s_next s" "s_max_var t = s_max_var s" "s_opts t = s_opts s"
    "length (s_control t) = length (s_control s)"
  using assms by (auto simp: quiet_def same_graph_def dest: map_eq_imp_length_eq)

lemma quiet_upd_flags [simp]: "quiet s (upd_flags l f s)"
  by (simp add: quiet_def same_graph_def upd_flags_def)

lemma quiet_upd_clause:
  "c_lits (f (s_heap s c)) = lits s c \<Longrightarrow> c_pos (f (s_heap s c)) = c_pos (s_heap s c) \<Longrightarrow> same_kind (s_heap s c) (f (s_heap s c))
    \<Longrightarrow> quiet s (upd_clause c f s)"
  by (simp add: quiet_def same_graph_def upd_clause_def)

lemma quiet_promote [simp]: "quiet s (promote_clause c g s)"
  unfolding promote_clause_def Let_def by (auto intro!: quiet_upd_clause split: if_splits)

lemma quiet_recompute: "recompute_glue c s = (g, t) \<Longrightarrow> quiet s t"
  by (auto simp: recompute_glue_def Let_def quiet_def same_graph_def split: prod.splits)

lemma quiet_bump_clause [simp]: "quiet s (bump_clause c s)"
proof -
  have q: "quiet s (upd_clause c (c_used_update (\<lambda>_. n)) s)" for n s by (rule quiet_upd_clause) simp_all
  obtain g t where "recompute_glue c (upd_clause c (c_used_update (\<lambda>_. 1)) s) = (g, t)" by fastforce
  with quiet_recompute [OF this] q [where n = 1 and s = s] q [where n = 2 and s = t] quiet_promote [of t c g] show ?thesis
    unfolding bump_clause_def Let_def by (auto intro: quiet_trans)
qed

lemma bump_clause_fields [simp]:
  "s_flags (bump_clause c s) = s_flags s" "s_clause (bump_clause c s) = s_clause s" "s_analyzed (bump_clause c s) = s_analyzed s"
  "s_minimized (bump_clause c s) = s_minimized s"
  unfolding bump_clause_def Let_def promote_clause_def recompute_glue_def upd_clause_def
  by (auto split: prod.splits)

section \<open>Seen literals\<close>

abbreviation seen :: "solver \<Rightarrow> int \<Rightarrow> bool" where "seen s l \<equiv> f_seen (s_flags s (vidx l))"

definition seen_set :: "solver \<Rightarrow> int set" where
  "seen_set s = {t \<in> set (s_trail s). seen s t}"

text \<open>The positions below \<open>i\<close> of seen literals of the current level.\<close>

definition opens :: "solver \<Rightarrow> nat \<Rightarrow> nat set" where
  "opens s i = {p. p < i \<and> p < length (s_trail s) \<and> seen s (s_trail s ! p) \<and> lev s (s_trail s ! p) = s_level s}"

definition seen_ok :: "solver \<Rightarrow> bool" where
  "seen_ok s \<longleftrightarrow> (\<forall>v. f_seen (s_flags s v) \<longleftrightarrow> v \<in> vidx ` set (s_analyzed s))
     \<and> (\<forall>k \<in> set (s_analyzed s). - k \<in> set (s_trail s) \<and> 0 < lev s k)
     \<and> (\<forall>k \<in> set (s_clause s). - k \<in> set (s_trail s) \<and> seen s k)
     \<and> distinct (s_clause s)"

definition marking :: "solver \<Rightarrow> solver \<Rightarrow> bool" where
  "marking s0 s \<longleftrightarrow> quiet s0 s \<and> seen_ok s \<and> s_minimized s = s_minimized s0
     \<and> (\<forall>v. f_keep (s_flags s v) = f_keep (s_flags s0 v) \<and> f_poison (s_flags s v) = f_poison (s_flags s0 v)
          \<and> f_removable (s_flags s v) = f_removable (s_flags s0 v))"

definition analysis :: "solver \<Rightarrow> nat \<Rightarrow> int \<Rightarrow> solver \<Rightarrow> bool" where
  "analysis s0 i open_lits s \<longleftrightarrow> marking s0 s
     \<and> (\<forall>k \<in> set (s_clause s). lev s k < s_level s)
     \<and> (\<forall>t \<in> seen_set s. lev s t < s_level s \<longrightarrow> - t \<in> set (s_clause s)) \<and> open_lits = int (card (opens s i))"

lemma opens_finite [simp]: "finite (opens s i)"
  by (simp add: opens_def)

text \<open>What looking at the literal \<open>k\<close> does: it is marked, and joins the clause if its level is lower.\<close>

definition looks :: "int \<Rightarrow> solver \<Rightarrow> solver \<Rightarrow> bool" where
  "looks k s t \<longleftrightarrow> quiet s t \<and> (\<forall>l. seen t l \<longleftrightarrow> seen s l \<or> (vidx l = vidx k \<and> 0 < lev s k)) \<and> lev s k \<le> s_level s
     \<and> s_clause t = (if seen s k \<or> lev s k = 0 \<or> lev s k = s_level s then s_clause s else s_clause s @ [k])"

lemma marking_graph: "marking s0 s \<Longrightarrow> graph_ok M s0 \<Longrightarrow> graph_ok M s"
  using same_graph_ok by (auto simp: marking_def quiet_def)

lemma seen_on_trail:
  assumes "seen_ok s" and "seen s k"
  shows "(k \<in> set (s_trail s) \<or> - k \<in> set (s_trail s)) \<and> 0 < lev s k"
proof -
  obtain x where x: "x \<in> set (s_analyzed s)" "vidx x = vidx k" using assms by (force simp: seen_ok_def)
  have t: "- x \<in> set (s_trail s)" "0 < lev s x" using assms(1) x(1) by (simp_all add: seen_ok_def)
  have "0 < lev s k" using t(2) by (simp only: x(2))
  moreover have "x = k \<or> x = - k" using x(2) by (simp only: vidx_eq)
  then have "k \<in> set (s_trail s) \<or> - k \<in> set (s_trail s)" using t(1) minus_minus [of k] by metis
  ultimately show ?thesis by blast
qed

lemma analyze_literal_marks:
  assumes g: "graph_ok M s0" and ma: "marking s0 s" and k: "seen s k \<or> - k \<in> set (s_trail s)"
  shows "\<exists>t. analyze_literal k (n, s) = Inr (if \<not> seen s k \<and> 0 < lev s k \<and> lev s k = s_level s then n + 1 else n, t)
    \<and> marking s0 t \<and> looks k s t"
proof -
  have q0: "quiet s0 s" and so: "seen_ok s" using ma by (simp_all add: marking_def)
  have gs: "graph_ok M s" by (rule marking_graph [OF ma g])
  have le: "lev s k \<le> s_level s" using k seen_on_trail [OF so] level_le [OF gs, of k] level_le [OF gs, of "- k"] by auto
  show ?thesis
  proof (cases "seen s k \<or> lev s k = 0")
    case True
    then have "analyze_literal k (n, s) = Inr (n, s)" by (auto simp: analyze_literal_def Let_def)
    moreover have sn: "\<forall>l. seen s l \<longleftrightarrow> seen s l \<or> (vidx l = vidx k \<and> 0 < lev s k)" using True by auto
    have cl: "s_clause s = (if seen s k \<or> lev s k = 0 \<or> lev s k = s_level s then s_clause s else s_clause s @ [k])"
      by (rule if_P [symmetric]) (use True in blast)
    have "looks k s s" unfolding looks_def using sn cl le quiet_refl by blast
    ultimately show ?thesis using ma True by auto
  next
    case False
    then have ns: "\<not> seen s k" and pos: "0 < lev s k" and kt: "- k \<in> set (s_trail s)" using k by auto
    have len: "lev s k < length (s_control s)" using gs le by (simp add: graph_ok_def control_ok_def)
    define L where "L = s_control s ! lev s k"
    define C where "C = (s_control s)[lev s k := L\<lparr>l_seen_count := l_seen_count L + 1,
        l_seen_trail := (if v_trail (s_vtab s (vidx k)) < l_seen_trail L then v_trail (s_vtab s (vidx k)) else l_seen_trail L)\<rparr>]"
    define t where "t = (upd_flags k (f_seen_update (\<lambda>_. True)) (s\<lparr>s_clause := (if lev s k < s_level s then s_clause s @ [k] else s_clause s),
        s_levels := (if l_seen_count L = 0 then s_levels s @ [lev s k] else s_levels s), s_control := C\<rparr>))\<lparr>s_analyzed := s_analyzed s @ [k]\<rparr>"
    define m where "m = (if lev s k = s_level s then n + 1 else n)"
    have run: "analyze_literal k (n, s) = Inr (m, t)"
      using ns pos len unfolding t_def m_def C_def
      by (cases "lev s k < s_level s"; cases "l_seen_count L = 0")
        (simp_all add: analyze_literal_def Let_def L_def [symmetric] upd_flags_def)
    have "map l_trail C = map l_trail (s_control s)" "map l_decision C = map l_decision (s_control s)"
      unfolding C_def L_def using len by (simp_all add: map_update list_update_same_conv)
    then have q: "quiet s t" by (simp add: quiet_def same_graph_def t_def upd_flags_def)
    have tf: "s_trail t = s_trail s" "s_vtab t = s_vtab s" "s_analyzed t = s_analyzed s @ [k]"
      "s_clause t = (if lev s k < s_level s then s_clause s @ [k] else s_clause s)" "s_minimized t = s_minimized s"
      "s_flags t = (s_flags s)(vidx k := (s_flags s (vidx k))\<lparr>f_seen := True\<rparr>)"
      by (simp_all add: t_def upd_flags_def)
    have sn: "seen t l \<longleftrightarrow> seen s l \<or> vidx l = vidx k" for l by (simp add: tf)
    have kc: "k \<notin> set (s_clause s)" using so ns by (auto simp: seen_ok_def)
    have "seen_ok t" using so kt pos kc unfolding seen_ok_def tf by (auto split: if_splits)
    then have "marking s0 t" using ma quiet_trans [OF q0 q] by (simp add: marking_def tf)
    moreover have "looks k s t" using q sn pos ns le by (simp add: looks_def tf(4))
    ultimately show ?thesis using run ns pos by (intro exI [of _ t]) (simp add: m_def)
  qed
qed

text \<open>A literal that is false before position \<open>i\<close>: the open literals are counted.\<close>

lemma analyze_literal_ok:
  assumes g: "graph_ok M s0" and an: "analysis s0 i n s" and k: "- k \<in> set (take i (s_trail s))"
  shows "\<exists>m t. analyze_literal k (n, s) = Inr (m, t) \<and> analysis s0 i m t \<and> looks k s t"
proof -
  have ma: "marking s0 s" and kt: "- k \<in> set (s_trail s)" using an k by (auto simp: analysis_def dest: in_set_takeD)
  have gs: "graph_ok M s" by (rule marking_graph [OF ma g])
  let ?m = "if \<not> seen s k \<and> 0 < lev s k \<and> lev s k = s_level s then n + 1 else n"
  from analyze_literal_marks [OF g ma, of k n] kt obtain t where t: "analyze_literal k (n, s) = Inr (?m, t)" "marking s0 t" "looks k s t"
    by blast
  have q: "quiet s t" and sn: "\<And>l. seen t l \<longleftrightarrow> seen s l \<or> (vidx l = vidx k \<and> 0 < lev s k)" and le: "lev s k \<le> s_level s"
    and cl: "s_clause t = (if seen s k \<or> lev s k = 0 \<or> lev s k = s_level s then s_clause s else s_clause s @ [k])"
    using t(3) by (auto simp: looks_def)
  note Q = quiet_fields [OF q]
  have uk: "x = - k" if "x \<in> set (s_trail s)" "vidx x = vidx k" for x
    using trail_var_unique [of s x "- k"] that kt gs by (simp add: graph_ok_def)
  have low: "- x \<in> set (s_clause t)" if x: "x \<in> seen_set t" "lev t x < s_level t" for x
  proof (cases "seen s x")
    case True
    then have "x \<in> seen_set s" using x(1) by (simp add: seen_set_def Q)
    then have "- x \<in> set (s_clause s)" using an x(2) by (simp add: analysis_def Q)
    then show ?thesis by (simp add: cl)
  next
    case False
    then have "vidx x = vidx k" "0 < lev s k" "x \<in> set (s_trail s)" using x(1) sn [of x] by (auto simp: seen_set_def Q)
    moreover from this have "x = - k" using uk by blast
    ultimately show ?thesis using False x(2) by (simp add: cl Q)
  qed
  obtain p where p: "p < i" "p < length (s_trail s)" "s_trail s ! p = - k" using k by (auto simp: in_set_conv_nth)
  have ux: "x = p" if "x < length (s_trail s)" "vidx (s_trail s ! x) = vidx k" for x
    using trail_index [of s x p] that p gs by (simp add: graph_ok_def)
  have pk: "vidx (s_trail s ! p) = vidx k" "lev s (s_trail s ! p) = lev s k" by (simp_all add: p(3))
  have op: "opens t i = (if 0 < lev s k \<and> lev s k = s_level s then insert p (opens s i) else opens s i)"
  proof -
    have "x \<in> opens t i \<longleftrightarrow> x \<in> opens s i \<or> (x = p \<and> 0 < lev s k \<and> lev s k = s_level s)" for x
      unfolding opens_def mem_Collect_eq Q(1-3) sn using ux pk p(1,2) by metis
    then show ?thesis by auto
  qed
  have "p \<in> opens s i \<longleftrightarrow> seen s k \<and> lev s k = s_level s" using p pk by (simp add: opens_def)
  then have "?m = int (card (opens t i))" using an by (auto simp: op analysis_def insert_absorb)
  moreover have "lev t x < s_level t" if "x \<in> set (s_clause t)" for x
    using that an le unfolding cl Q by (auto simp: analysis_def split: if_splits)
  ultimately have "analysis s0 i ?m t" using t(2) low by (simp add: analysis_def)
  with t(1,3) show ?thesis by blast
qed

section \<open>The literals of a reason\<close>

text \<open>What looking at the literals \<open>ks\<close> but \<open>lit\<close> does.\<close>

definition looked_at :: "int list \<Rightarrow> int \<Rightarrow> solver \<Rightarrow> solver \<Rightarrow> bool" where
  "looked_at ks lit s t \<longleftrightarrow> quiet s t \<and> (\<forall>l. seen s l \<longrightarrow> seen t l)
     \<and> (\<forall>l. seen t l \<longrightarrow> seen s l \<or> (\<exists>k \<in> set ks. k \<noteq> lit \<and> vidx l = vidx k))
     \<and> (\<forall>k \<in> set ks. k \<noteq> lit \<longrightarrow> seen t k \<or> lev s k = 0)
     \<and> (\<forall>k \<in> set ks. k \<noteq> lit \<and> \<not> seen s k \<and> 0 < lev s k \<and> lev s k < s_level s \<longrightarrow> (\<exists>k' \<in> set (s_clause t). vidx k' = vidx k))
     \<and> (\<exists>new. s_clause t = s_clause s @ new \<and> (\<forall>k \<in> set new. k \<in> set ks \<and> k \<noteq> lit \<and> \<not> seen s k))"

lemma looked_at_refl: "looked_at [] lit s s"
  by (simp add: looked_at_def)

lemma looked_at_step:
  assumes s: "looks k s u" and k: "k \<noteq> lit" and l: "looked_at ks lit u t"
  shows "looked_at (k # ks) lit s t"
proof -
  have qu: "quiet s u" and sn: "\<And>x. seen u x \<longleftrightarrow> seen s x \<or> (vidx x = vidx k \<and> 0 < lev s k)" and le: "lev s k \<le> s_level s"
    and cl: "s_clause u = (if seen s k \<or> lev s k = 0 \<or> lev s k = s_level s then s_clause s else s_clause s @ [k])"
    using s by (auto simp: looks_def)
  have lv: "lev u x = lev s x" "s_level u = s_level s" for x using quiet_fields [OF qu] by blast+
  have q: "quiet s t" and m1: "\<And>x. seen u x \<Longrightarrow> seen t x"
    and m2: "\<And>x. seen t x \<Longrightarrow> seen u x \<or> (\<exists>k \<in> set ks. k \<noteq> lit \<and> vidx x = vidx k)"
    and m3: "\<And>x. x \<in> set ks \<Longrightarrow> x \<noteq> lit \<Longrightarrow> seen t x \<or> lev s x = 0"
    and m4: "\<And>x. x \<in> set ks \<Longrightarrow> x \<noteq> lit \<Longrightarrow> \<not> seen u x \<Longrightarrow> 0 < lev s x \<Longrightarrow> lev s x < s_level s \<Longrightarrow> \<exists>k' \<in> set (s_clause t). vidx k' = vidx x"
    using l qu by (auto simp: looked_at_def lv intro: quiet_trans)
  have mono: "\<And>x. seen s x \<Longrightarrow> seen u x" using sn by blast
  obtain new where new: "s_clause t = s_clause u @ new" "\<forall>x \<in> set new. x \<in> set ks \<and> x \<noteq> lit \<and> \<not> seen u x"
    using l unfolding looked_at_def by blast
  let ?old = "seen s k \<or> lev s k = 0 \<or> lev s k = s_level s"
  have kc: "\<not> ?old \<Longrightarrow> k \<in> set (s_clause t)" by (simp add: new(1) cl)
  have "\<exists>new. s_clause t = s_clause s @ new \<and> (\<forall>x \<in> set new. x \<in> set (k # ks) \<and> x \<noteq> lit \<and> \<not> seen s x)"
    using new mono k by (cases ?old) (auto simp: cl)
  moreover have "\<exists>k' \<in> set (s_clause t). vidx k' = vidx x"
    if x: "x \<in> set (k # ks)" "x \<noteq> lit" "\<not> seen s x" "0 < lev s x" "lev s x < s_level s" for x
  proof (cases "vidx x = vidx k")
    case True
    then have "lev s k = lev s x" "seen s k \<longleftrightarrow> seen s x" by simp_all
    then show ?thesis using kc x True by force
  next
    case False
    then have "x \<in> set ks" "\<not> seen u x" using x(1,3) sn by auto
    with m4 x show ?thesis by blast
  qed
  moreover have "seen t k \<or> lev s k = 0" using sn m1 by blast
  moreover have "seen s x \<or> (\<exists>k' \<in> set (k # ks). k' \<noteq> lit \<and> vidx x = vidx k')" if "seen t x" for x
    using m2 [OF that] sn k by auto
  ultimately show ?thesis unfolding looked_at_def using q m1 m3 mono by auto
qed

text \<open>The loop over a reason, for any invariant a literal keeps.\<close>

lemma analyze_lits_gen:
  assumes step: "\<And>n s k. Q n s \<Longrightarrow> P s k \<Longrightarrow> \<exists>m t. analyze_literal k (n, s) = Inr (m, t) \<and> Q m t \<and> looks k s t"
    and mono: "\<And>n s t k j. Q n s \<Longrightarrow> P s k \<Longrightarrow> looks j s t \<Longrightarrow> P t k"
    and "Q n s" and "\<And>k. k \<in> set ks \<Longrightarrow> k \<noteq> lit \<Longrightarrow> P s k"
  shows "\<exists>m t. fold_res (\<lambda>other os. if other \<noteq> lit then analyze_literal other os else Inr os) ks (n, s) = Inr (m, t)
    \<and> Q m t \<and> looked_at ks lit s t"
  using assms(3,4)
proof (induction ks arbitrary: n s)
  case Nil
  then show ?case by (simp add: looked_at_refl)
next
  case (Cons k ks)
  show ?case
  proof (cases "k = lit")
    case True
    from Cons.IH [OF Cons.prems(1)] Cons.prems(2) obtain m t where
      "fold_res (\<lambda>other os. if other \<noteq> lit then analyze_literal other os else Inr os) ks (n, s) = Inr (m, t)"
      "Q m t" "looked_at ks lit s t" by auto
    with True show ?thesis by (auto simp: looked_at_def)
  next
    case False
    then have "P s k" using Cons.prems(2) by simp
    from step [OF Cons.prems(1) this] obtain m u where u: "analyze_literal k (n, s) = Inr (m, u)" "Q m u" "looks k s u" by blast
    have "P u x" if "x \<in> set ks" "x \<noteq> lit" for x
      using mono [OF Cons.prems(1) Cons.prems(2) u(3)] that by simp
    from Cons.IH [OF u(2) this] obtain m' t where t:
      "fold_res (\<lambda>other os. if other \<noteq> lit then analyze_literal other os else Inr os) ks (m, u) = Inr (m', t)"
      "Q m' t" "looked_at ks lit u t" by blast
    from looked_at_step [OF u(3) False t(3)] t u(1) False show ?thesis by auto
  qed
qed

lemma looks_trail: "looks k s t \<Longrightarrow> s_trail t = s_trail s"
  using quiet_fields(1) by (auto simp: looks_def)

lemma marking_bump_clause: "marking s0 s \<Longrightarrow> marking s0 (bump_clause c s)"
  using quiet_fields [OF quiet_bump_clause [of s c]] quiet_trans [OF _ quiet_bump_clause]
  by (auto simp: marking_def seen_ok_def)

lemma analysis_bump_clause: "analysis s0 i n s \<Longrightarrow> analysis s0 i n (bump_clause c s)"
  using quiet_fields [OF quiet_bump_clause [of s c]] marking_bump_clause
  by (auto simp: analysis_def seen_set_def opens_def)

lemma looked_at_bump: "looked_at ks lit (bump_clause c s) t \<Longrightarrow> looked_at ks lit s t"
  using quiet_trans [OF quiet_bump_clause] by (auto simp: looked_at_def quiet_fields [OF quiet_bump_clause])

lemma analyze_reason_ok:
  assumes g: "graph_ok M s0" and an: "analysis s0 i n s"
    and k: "\<And>k. k \<in> set (lits s c) \<Longrightarrow> k \<noteq> lit \<Longrightarrow> - k \<in> set (take i (s_trail s))"
  shows "\<exists>m t. analyze_reason lit c (n, s) = Inr (m, t) \<and> analysis s0 i m t \<and> looked_at (lits s c) lit s t"
proof -
  note B = quiet_fields [OF quiet_bump_clause [of s c]]
  have "\<exists>m t. fold_res (\<lambda>other os. if other \<noteq> lit then analyze_literal other os else Inr os) (lits s c) (n, bump_clause c s) = Inr (m, t)
    \<and> analysis s0 i m t \<and> looked_at (lits s c) lit (bump_clause c s) t"
  proof (rule analyze_lits_gen [where Q = "analysis s0 i" and P = "\<lambda>s k. - k \<in> set (take i (s_trail s))"])
    show "\<exists>m t. analyze_literal k (n, s) = Inr (m, t) \<and> analysis s0 i m t \<and> looks k s t"
      if "analysis s0 i n s" "- k \<in> set (take i (s_trail s))" for n s k by (rule analyze_literal_ok [OF g that])
    show "analysis s0 i n (bump_clause c s)" by (rule analysis_bump_clause [OF an])
    show "- x \<in> set (take i (s_trail (bump_clause c s)))" if "x \<in> set (lits s c)" "x \<noteq> lit" for x using k [OF that] by (simp add: B(1))
  qed (simp add: looks_trail)
  then show ?thesis using looked_at_bump by (fastforce simp: analyze_reason_def B(5))
qed

lemma analyze_reason_marks:
  assumes g: "graph_ok M s0" and ma: "marking s0 s"
    and k: "\<And>k. k \<in> set (lits s c) \<Longrightarrow> k \<noteq> lit \<Longrightarrow> seen s k \<or> - k \<in> set (s_trail s)"
  shows "\<exists>m t. analyze_reason lit c (n, s) = Inr (m, t) \<and> marking s0 t \<and> looked_at (lits s c) lit s t"
proof -
  note B = quiet_fields [OF quiet_bump_clause [of s c]]
  have "\<exists>m t. fold_res (\<lambda>other os. if other \<noteq> lit then analyze_literal other os else Inr os) (lits s c) (n, bump_clause c s) = Inr (m, t)
    \<and> marking s0 t \<and> looked_at (lits s c) lit (bump_clause c s) t"
  proof (rule analyze_lits_gen [where Q = "\<lambda>_. marking s0" and P = "\<lambda>s k. seen s k \<or> - k \<in> set (s_trail s)"])
    show "\<exists>m t. analyze_literal k (n, s) = Inr (m, t) \<and> marking s0 t \<and> looks k s t"
      if "marking s0 s" "seen s k \<or> - k \<in> set (s_trail s)" for n s k
      using analyze_literal_marks [OF g that, of n] by blast
    show "seen t k \<or> - k \<in> set (s_trail t)" if "seen s k \<or> - k \<in> set (s_trail s)" "looks j s t" for s t k j
      using that looks_trail [OF that(2)] by (auto simp: looks_def)
    show "marking s0 (bump_clause c s)" by (rule marking_bump_clause [OF ma])
    show "seen (bump_clause c s) x \<or> - x \<in> set (s_trail (bump_clause c s))" if "x \<in> set (lits s c)" "x \<noteq> lit" for x
      using k [OF that] by (simp add: B(1))
  qed
  then show ?thesis using looked_at_bump by (fastforce simp: analyze_reason_def B(5))
qed

section \<open>The loop\<close>

lemma find_uip_ok:
  assumes "opens s i \<noteq> {}" and "i \<le> length (s_trail s)"
  shows "\<exists>j. find_uip s i = Inr (j, s_trail s ! j) \<and> j \<in> opens s i \<and> opens s i = insert j (opens s j)"
  using assms
proof (induction i)
  case 0
  then show ?case by (simp add: opens_def)
next
  case (Suc i)
  show ?case
  proof (cases "i \<in> opens s (Suc i)")
    case True
    then have "opens s (Suc i) = insert i (opens s i)" by (auto simp: opens_def less_Suc_eq)
    with True Suc.prems(2) show ?thesis by (intro exI [of _ i]) (simp add: opens_def)
  next
    case False
    then have eq: "opens s (Suc i) = opens s i" by (auto simp: opens_def less_Suc_eq)
    then obtain j where j: "find_uip s i = Inr (j, s_trail s ! j)" "j \<in> opens s i" "opens s i = insert j (opens s j)"
      using Suc by auto
    have "find_uip s (Suc i) = find_uip s i" using False Suc.prems(2) by (simp add: opens_def)
    with j eq show ?thesis by auto
  qed
qed

text \<open>With chronological backtracking the first literal of a level is its decision.\<close>

lemma decision_first:
  assumes g: "graph_ok M s" and ch: "chrono s" and p: "p < length (s_trail s)" and l: "0 < lev s (s_trail s ! p)"
  shows "\<exists>q \<le> p. rsn s (s_trail s ! q) = None \<and> lev s (s_trail s ! q) = lev s (s_trail s ! p)"
  using p l
proof (induction p rule: less_induct)
  case (less p)
  show ?case
  proof (cases "rsn s (s_trail s ! p)")
    case None
    then show ?thesis by blast
  next
    case (Some c)
    from reason_at(1) [OF g less.prems(1) Some] ch obtain k where
      k: "k \<noteq> s_trail s ! p" "- k \<in> set (take p (s_trail s))" "lev s k = lev s (s_trail s ! p)"
      by (auto simp: implied_by_def)
    then obtain q where q: "q < p" "s_trail s ! q = - k" by (auto simp: in_set_conv_nth)
    then have lq: "lev s (s_trail s ! q) = lev s (s_trail s ! p)" using k(3) by simp
    have "q < length (s_trail s)" "0 < lev s (s_trail s ! q)" using q(1) lq less.prems by simp_all
    from less.IH [OF q(1) this] obtain r where r: "r \<le> q" "rsn s (s_trail s ! r) = None"
      "lev s (s_trail s ! r) = lev s (s_trail s ! q)" by blast
    have "r \<le> p" using r(1) q(1) by simp
    with r(2,3) lq show ?thesis by metis
  qed
qed

lemma decision_unique:
  assumes g: "graph_ok M s" and "p < length (s_trail s)" and "q < length (s_trail s)"
    and "rsn s (s_trail s ! p) = None" and "rsn s (s_trail s ! q) = None"
    and "lev s (s_trail s ! p) = lev s (s_trail s ! q)" and "0 < lev s (s_trail s ! q)"
  shows "p = q"
proof -
  have "s_trail s ! p = l_decision (s_control s ! lev s (s_trail s ! p))" "s_trail s ! q = l_decision (s_control s ! lev s (s_trail s ! q))"
    using assms by (auto simp: graph_ok_def trail_ok_def assigned_ok_def)
  then have "s_trail s ! p = s_trail s ! q" using assms(6) by simp
  with trail_index [of s p q] assms(1-3) show ?thesis by (simp add: graph_ok_def)
qed

definition pending :: "solver \<Rightarrow> nat \<Rightarrow> int \<Rightarrow> bool" where
  "pending s i u \<longleftrightarrow> (\<forall>p. i \<le> p \<longrightarrow> p < length (s_trail s) \<longrightarrow> seen s (s_trail s ! p) \<longrightarrow> lev s (s_trail s ! p) = s_level s
     \<longrightarrow> s_trail s ! p = u \<or> resolved s (seen_set s) (s_trail s ! p))"

lemma resolved_mono:
  assumes "resolved s S t" and "quiet s u" and "S \<subseteq> T"
  shows "resolved u T t"
proof -
  obtain c where "rsn s t = Some c" "\<forall>k \<in> set (lits s c). k \<noteq> t \<longrightarrow> - k \<in> S \<or> lev s k = 0"
    using assms(1) unfolding resolved_def by (elim exE conjE) (rule that)
  with assms(3) show ?thesis
    unfolding resolved_def quiet_fields(3-5) [OF assms(2)] by (intro exI [of _ c]) auto
qed

lemma seen_set_mono: "looked_at ks lit s t \<Longrightarrow> seen_set s \<subseteq> seen_set t"
  unfolding looked_at_def seen_set_def by (elim conjE) (auto simp: quiet_fields(1) [of s t])

text \<open>Resolving \<open>u\<close> away: the next position takes its place.\<close>

lemma pending_next:
  assumes g: "graph_ok M s" and pe: "pending s i u" and la: "looked_at (lits s c) u s t"
    and k: "\<And>k. k \<in> set (lits s c) \<Longrightarrow> k \<noteq> u \<Longrightarrow> - k \<in> set (take i (s_trail s))"
    and u: "u \<in> set (s_trail s) \<Longrightarrow> rsn s u = Some c"
    and j: "opens t i = insert j (opens t j)"
  shows "pending t j (s_trail t ! j)"
  unfolding pending_def
proof (intro allI impI)
  fix p assume p: "j \<le> p" "p < length (s_trail t)" "seen t (s_trail t ! p)" "lev t (s_trail t ! p) = s_level t"
  have q: "quiet s t" using la by (simp add: looked_at_def)
  note Q = quiet_fields [OF q]
  show "s_trail t ! p = s_trail t ! j \<or> resolved t (seen_set t) (s_trail t ! p)"
  proof (cases "i \<le> p")
    case False
    then have "p \<in> opens t i" using p by (simp add: opens_def)
    then have "p = j" using p(1) unfolding j by (auto simp: opens_def)
    then show ?thesis by simp
  next
    case True
    have v: "vals_ok s" using g by (simp add: graph_ok_def)
    have old: "seen s (s_trail s ! p)"
    proof (rule ccontr)
      assume n: "\<not> seen s (s_trail s ! p)"
      have "seen t (s_trail s ! p)" using p(3) by (simp add: Q(1))
      then obtain k' where k': "k' \<in> set (lits s c)" "k' \<noteq> u" "vidx (s_trail s ! p) = vidx k'"
        using la n unfolding looked_at_def by blast
      from k [OF k'(1,2)] obtain r where r: "r < i" "r < length (s_trail s)" "s_trail s ! r = - k'"
        by (auto simp: in_set_conv_nth)
      from trail_index [OF v, of p r] r k'(3) p(2) have "p = r" by (simp add: Q(1))
      with True r(1) show False by simp
    qed
    have "s_trail s ! p = u \<or> resolved s (seen_set s) (s_trail s ! p)"
      using pe True p old by (simp add: pending_def Q)
    moreover have "resolved t (seen_set t) (s_trail s ! p)" if "s_trail s ! p = u"
    proof -
      have m: "u \<in> set (s_trail s)" using that p(2) nth_mem by (auto simp: Q(1))
      have "- x \<in> seen_set t \<or> lev s x = 0" if x: "x \<in> set (lits s c)" "x \<noteq> u" for x
        using la x k [OF x] by (auto simp: looked_at_def seen_set_def Q(1) dest: in_set_takeD)
      with u [OF m] that show ?thesis by (auto simp: resolved_def Q)
    qed
    ultimately show ?thesis using resolved_mono [OF _ q seen_set_mono [OF la]] by (auto simp: Q(1))
  qed
qed

end
