(* ===== verification/Search_Derive.thy ===== *)
theory Search_Derive
  imports Search_Analyze_Sound
begin

text \<open>
  The clause conflict analysis derives: it is found without an error, follows from the formula, and is false;
  with \<open>UIPAUX\<close> it has no auxiliary variable, provided no decision is one.
\<close>

section \<open>The first unique implication point\<close>

definition uip_found :: "solver \<Rightarrow> solver \<Rightarrow> nat \<Rightarrow> bool \<Rightarrow> (nat \<Rightarrow> bool) \<Rightarrow> nat \<Rightarrow> int \<Rightarrow> solver \<Rightarrow> bool" where
  "uip_found s0 s i uipaux aux j uip t \<longleftrightarrow> analysis s0 j 0 t \<and> quiet s t \<and> j < i \<and> j < length (s_trail s) \<and> uip = s_trail s ! j
     \<and> seen t uip \<and> lev s uip = s_level s \<and> pending t j uip \<and> (\<forall>l. seen s l \<longrightarrow> seen t l)
     \<and> (uipaux \<and> aux (vidx uip) \<longrightarrow> rsn s uip = None)"

lemma uip_loop_ok:
  assumes "graph_ok M s0" and "chrono s0" and "0 < s_level s0"
    and "analysis s0 i n s" and "i \<le> length (s_trail s)" and "pending s i u"
    and "\<And>k. k \<in> set (lits s c) \<Longrightarrow> k \<noteq> u \<Longrightarrow> - k \<in> set (take i (s_trail s))"
    and "\<exists>k \<in> set (lits s c). k \<noteq> u \<and> lev s k = s_level s"
    and "u \<in> set (s_trail s) \<Longrightarrow> rsn s u = Some c"
  shows "\<exists>uip t j. uip_loop uipaux aux i u (Some c) n s = Inr (uip, 0, t) \<and> uip_found s0 s i uipaux aux j uip t
    \<and> (\<forall>k \<in> set (lits s c). k \<noteq> u \<longrightarrow> seen t k \<or> lev s k = 0)"
  using assms(4-9)
proof (induction i arbitrary: n s u c rule: less_induct)
  case (less i)
  have gs: "graph_ok M s" using less.prems(1) assms(1) marking_graph by (auto simp: analysis_def)
  have l0: "s_level s = s_level s0" and ch: "chrono s" using less.prems(1) assms(2) by (auto simp: analysis_def marking_def quiet_def same_graph_def)
  from analyze_reason_ok [OF assms(1) less.prems(1,4)] obtain m t where
    t: "analyze_reason u c (n, s) = Inr (m, t)" "analysis s0 i m t" "looked_at (lits s c) u s t" by blast
  have q: "quiet s t" using t(3) by (simp add: looked_at_def)
  note Q = quiet_fields [OF q]
  obtain k where k: "k \<in> set (lits s c)" "k \<noteq> u" "lev s k = s_level s" using less.prems(5) by blast
  have "seen t k" using t(3) k l0 assms(3) by (auto simp: looked_at_def)
  moreover obtain r where r: "r < i" "r < length (s_trail s)" "s_trail s ! r = - k"
    using less.prems(4) [OF k(1,2)] by (auto simp: in_set_conv_nth)
  ultimately have "r \<in> opens t i" using k(3) by (simp add: opens_def Q)
  then have "opens t i \<noteq> {}" by blast
  from find_uip_ok [OF this] less.prems(2) obtain j where
    j: "find_uip t i = Inr (j, s_trail s ! j)" "j \<in> opens t i" "opens t i = insert j (opens t j)" by (auto simp: Q)
  have jl: "j < i" "j < length (s_trail s)" "seen t (s_trail s ! j)" "lev s (s_trail s ! j) = s_level s"
    using j(2) by (simp_all add: opens_def Q)
  have "j \<notin> opens t j" by (simp add: opens_def)
  then have m: "m - 1 = int (card (opens t j))" using t(2) j(3) by (simp add: analysis_def)
  have an: "analysis s0 j (m - 1) t" using t(2) m by (simp add: analysis_def)
  have pe: "pending t j (s_trail s ! j)"
    using pending_next [OF gs less.prems(3) t(3) less.prems(4) less.prems(6) j(3)] by (simp add: Q)
  have cs: "\<forall>k \<in> set (lits s c). k \<noteq> u \<longrightarrow> seen t k \<or> lev s k = 0" and mono: "\<forall>l. seen s l \<longrightarrow> seen t l"
    using t(3) by (simp_all add: looked_at_def)
  let ?u = "s_trail s ! j"
  let ?stop = "m - 1 = 0 \<and> (\<not> uipaux \<or> \<not> aux (vidx ?u) \<or> rsn s ?u = None)"
  have run: "uip_loop uipaux aux i u (Some c) n s
      = (if ?stop then Inr (?u, m - 1, t) else uip_loop uipaux aux j ?u (rsn s ?u) (m - 1) t)"
    by (subst uip_loop.simps) (simp only: option.case t(1) bind_res_simps fst_conv snd_conv j(1) Let_def Q)
  show ?case
  proof (cases ?stop)
    case True
    then have "uip_found s0 s i uipaux aux j ?u t" using an q jl pe mono by (auto simp: uip_found_def)
    with True cs show ?thesis unfolding run by auto
  next
    case False
    have "rsn s ?u \<noteq> None"
    proof
      assume none: "rsn s ?u = None"
      then have "opens t j \<noteq> {}" using False m by (cases "opens t j = {}") auto
      then obtain p where p: "p < j" "p < length (s_trail s)" "lev s (s_trail s ! p) = s_level s"
        by (auto simp: opens_def Q)
      have "0 < lev s (s_trail s ! p)" using p(3) l0 assms(3) by simp
      from decision_first [OF gs ch p(2) this] obtain x where
        x: "x \<le> p" "rsn s (s_trail s ! x) = None" "lev s (s_trail s ! x) = lev s (s_trail s ! p)" by blast
      have "x = j"
      proof (rule decision_unique [OF gs _ jl(2) x(2) none])
        show "x < length (s_trail s)" using x(1) p(2) by simp
        show "lev s (s_trail s ! x) = lev s ?u" using x(3) p(3) jl(4) by simp
        show "0 < lev s ?u" using jl(4) l0 assms(3) by simp
      qed
      with x(1) p(1) show False by simp
    qed
    then obtain d where d: "rsn s ?u = Some d" by blast
    note R = reason_at(1) [OF gs jl(2) d]
    have "\<exists>uip t' j'. uip_loop uipaux aux j ?u (Some d) (m - 1) t = Inr (uip, 0, t') \<and> uip_found s0 t j uipaux aux j' uip t'
      \<and> (\<forall>k \<in> set (lits t d). k \<noteq> ?u \<longrightarrow> seen t' k \<or> lev t k = 0)"
    proof (rule less.IH [OF jl(1) an _ pe])
      show "j \<le> length (s_trail t)" using jl(2) by (simp add: Q)
      show "- k \<in> set (take j (s_trail t))" if "k \<in> set (lits t d)" "k \<noteq> ?u" for k
        using R that by (simp add: implied_by_def Q)
      show "\<exists>k \<in> set (lits t d). k \<noteq> ?u \<and> lev t k = s_level t" using R ch jl(4) by (auto simp: implied_by_def Q)
    qed (use d in \<open>simp_all add: Q\<close>)
    then obtain uip t' j' where w: "uip_loop uipaux aux j ?u (Some d) (m - 1) t = Inr (uip, 0, t')"
      "uip_found s0 t j uipaux aux j' uip t'" by blast
    have "uip_found s0 s i uipaux aux j' uip t'"
      using w(2) jl(1) mono quiet_trans [OF q] by (auto simp: uip_found_def Q)
    moreover have "\<forall>k \<in> set (lits s c). k \<noteq> u \<longrightarrow> seen t' k \<or> lev s k = 0"
      using cs w(2) by (auto simp: uip_found_def)
    ultimately show ?thesis using False w(1) d unfolding run by auto
  qed
qed

section \<open>The clause with the implication point\<close>

text \<open>The state in which analysis starts: nothing seen yet.\<close>

definition fresh_analysis :: "solver \<Rightarrow> bool" where
  "fresh_analysis s \<longleftrightarrow> s_clause s = [] \<and> s_analyzed s = [] \<and> s_minimized s = []
     \<and> (\<forall>v. \<not> f_seen (s_flags s v) \<and> \<not> f_keep (s_flags s v) \<and> \<not> f_poison (s_flags s v) \<and> \<not> f_removable (s_flags s v))"

lemma fresh_analysis_ok: "fresh_analysis s \<Longrightarrow> analysis s i 0 s"
  by (simp add: fresh_analysis_def analysis_def marking_def seen_ok_def seen_set_def opens_def)

text \<open>
  A derived clause: all its literals are false and seen; the implication point is the only literal of
  the current level; the seen literals are explained by it.
\<close>

definition derived :: "solver \<Rightarrow> nat \<Rightarrow> int \<Rightarrow> solver \<Rightarrow> bool" where
  "derived s0 c u s \<longleftrightarrow> marking s0 s \<and> u \<in> set (s_trail s) \<and> lev s u = s_level s
     \<and> - u \<in> set (s_clause s) \<and> (\<forall>k \<in> set (s_clause s). k \<noteq> - u \<longrightarrow> 0 < lev s k \<and> lev s k < s_level s)
     \<and> explained s (seen_set s) (s_clause s) \<and> (\<forall>k \<in> set (lits s c). seen s k \<or> lev s k = 0)"

lemma uip_clause_derived:
  assumes g: "graph_ok M s0" and ch: "chrono s0" and lv: "0 < s_level s0" and fr: "fresh_analysis s0"
    and c: "\<forall>k \<in> set (lits s0 c). - k \<in> set (s_trail s0)" "\<exists>k \<in> set (lits s0 c). lev s0 k = s_level s0"
    and nz: "\<forall>k \<in> set (lits s0 c). k \<noteq> 0"
  shows "\<exists>uip t. uip_loop uipaux aux (length (s_trail s0)) 0 (Some c) 0 s0 = Inr (uip, 0, t)
    \<and> derived s0 c uip (t\<lparr>s_clause := s_clause t @ [- uip]\<rparr>) \<and> (uipaux \<and> aux (vidx uip) \<longrightarrow> rsn s0 uip = None)"
proof -
  have pe0: "pending s0 (length (s_trail s0)) 0" by (simp add: pending_def)
  have c1: "- k \<in> set (take (length (s_trail s0)) (s_trail s0))" if "k \<in> set (lits s0 c)" "k \<noteq> 0" for k using c(1) that by simp
  have c2: "\<exists>k \<in> set (lits s0 c). k \<noteq> 0 \<and> lev s0 k = s_level s0" using c(2) nz by blast
  have z: "0 \<in> set (s_trail s0) \<Longrightarrow> rsn s0 0 = Some c" using g by (auto simp: graph_ok_def vals_ok_def lit_in_def)
  have "\<exists>uip t j. uip_loop uipaux aux (length (s_trail s0)) 0 (Some c) 0 s0 = Inr (uip, 0, t)
    \<and> uip_found s0 s0 (length (s_trail s0)) uipaux aux j uip t \<and> (\<forall>k \<in> set (lits s0 c). k \<noteq> 0 \<longrightarrow> seen t k \<or> lev s0 k = 0)"
    by (rule uip_loop_ok [OF g ch lv fresh_analysis_ok [OF fr] order.refl pe0 c1 c2 z])
  then obtain uip t j where w: "uip_loop uipaux aux (length (s_trail s0)) 0 (Some c) 0 s0 = Inr (uip, 0, t)"
    "uip_found s0 s0 (length (s_trail s0)) uipaux aux j uip t" "\<forall>k \<in> set (lits s0 c). k \<noteq> 0 \<longrightarrow> seen t k \<or> lev s0 k = 0"
    by (elim exE conjE) (rule that)
  let ?s = "t\<lparr>s_clause := s_clause t @ [- uip]\<rparr>"
  have q: "quiet s0 t" and an: "analysis s0 j 0 t" and j: "j < length (s_trail s0)" "uip = s_trail s0 ! j"
    and u: "seen t uip" "lev s0 uip = s_level s0" and pe: "pending t j uip" and ax: "uipaux \<and> aux (vidx uip) \<longrightarrow> rsn s0 uip = None"
    using w(2) by (auto simp: uip_found_def)
  note Q = quiet_fields [OF q]
  have q': "quiet s0 ?s" using q by (simp add: quiet_def same_graph_def)
  have gt: "graph_ok M t" using q g same_graph_ok by (auto simp: quiet_def)
  have ut: "uip \<in> set (s_trail t)" using j by (simp add: Q)
  have so: "seen_ok t" and low: "\<forall>k \<in> set (s_clause t). lev t k < s_level t" using an by (simp_all add: analysis_def marking_def)
  have nu: "- uip \<notin> set (s_clause t)" using low u(2) by (auto simp: Q)
  have "seen_ok ?s" using so u(1) ut nu by (auto simp: seen_ok_def)
  then have "marking s0 ?s" using an q' by (simp add: marking_def analysis_def)
  moreover have "0 < lev t k" if "k \<in> set (s_clause t)" for k
  proof -
    have "vidx k \<in> vidx ` set (s_analyzed t)" using so that by (auto simp: seen_ok_def)
    then obtain x where "x \<in> set (s_analyzed t)" "vidx x = vidx k" by force
    with so show ?thesis unfolding seen_ok_def by metis
  qed
  moreover have "explained ?s (seen_set t) (s_clause t @ [- uip])"
    unfolding explained_def
  proof
    fix x assume x: "x \<in> seen_set t"
    then have xt: "x \<in> set (s_trail t)" "seen t x" by (simp_all add: seen_set_def)
    have "lev t x \<le> s_level t" by (rule level_le [OF gt xt(1)])
    then consider "lev t x < s_level t" | "lev t x = s_level t" by linarith
    then have "- x \<in> set (s_clause t @ [- uip]) \<or> resolved ?s (seen_set t) x"
    proof cases
      case 1
      then have "- x \<in> set (s_clause t)" using an x by (simp add: analysis_def)
      then show ?thesis by simp
    next
      case 2
      obtain p where p: "p < length (s_trail t)" "s_trail t ! p = x" using xt(1) by (auto simp: in_set_conv_nth)
      have "j \<le> p"
      proof (rule ccontr)
        assume "\<not> j \<le> p"
        then have "p \<in> opens t j" using p xt(2) 2 by (simp add: opens_def)
        moreover have "opens t j = {}" using an by (simp add: analysis_def)
        ultimately show False by simp
      qed
      with pe p xt(2) 2 have "x = uip \<or> resolved t (seen_set t) x" by (auto simp: pending_def)
      then show ?thesis by (auto simp: resolved_def)
    qed
    with xt show "x \<in> set (s_trail ?s) \<and> (lev ?s x = 0 \<or> - x \<in> set (s_clause t @ [- uip]) \<or> resolved ?s (seen_set t) x)" by simp
  qed
  moreover have "seen_set ?s = seen_set t" by (simp add: seen_set_def)
  moreover have "\<forall>k \<in> set (lits t c). seen t k \<or> lev t k = 0" using w(3) nz by (auto simp: Q)
  ultimately have "derived s0 c uip ?s"
    using ut u(2) low by (auto simp: derived_def Q)
  with w(1) ax show ?thesis by blast
qed

lemma derived_ent:
  assumes g: "graph_ok M s0" and d: "derived s0 c u s" and c: "c < s_next s0" "\<forall>k \<in> set (lits s0 c). - k \<in> set (s_trail s0)"
  shows "ent M (s_clause s)"
proof -
  have q: "quiet s0 s" using d by (simp add: derived_def marking_def)
  note Q = quiet_fields [OF q]
  have gs: "graph_ok M s" using q g same_graph_ok by (auto simp: quiet_def)
  show ?thesis
  proof (rule explained_ent [OF gs])
    show "explained s (seen_set s) (s_clause s)" using d by (simp add: derived_def)
    show "clause_ok_on M s (lits s c)" using gs c(1) by (simp add: graph_ok_def clauses_ok_def Q)
    show "\<forall>k \<in> set (lits s c). - k \<in> set (s_trail s) \<and> (- k \<in> seen_set s \<or> lev s k = 0)"
      using d c(2) by (auto simp: derived_def seen_set_def Q)
  qed
qed

section \<open>Erasing the auxiliary literals\<close>

definition unseen :: "solver \<Rightarrow> nat set" where
  "unseen s = {v. v \<le> s_max_var s \<and> \<not> f_seen (s_flags s v)}"

definition no_aux_decision :: "(nat \<Rightarrow> bool) \<Rightarrow> solver \<Rightarrow> bool" where
  "no_aux_decision aux s \<longleftrightarrow> (\<forall>t \<in> set (s_trail s). aux (vidx t) \<longrightarrow> 0 < lev s t \<longrightarrow> rsn s t \<noteq> None)"

lemma clause_vars_distinct:
  assumes "vals_ok s" and "distinct ks" and "\<forall>k \<in> set ks. - k \<in> set (s_trail s)"
  shows "card (vidx ` set ks) = length ks"
proof -
  have "inj_on vidx (set ks)"
  proof (rule inj_onI)
    fix x y assume "x \<in> set ks" "y \<in> set ks" and v: "vidx x = vidx y"
    then have "- x \<in> set (s_trail s)" "- y \<in> set (s_trail s)" using assms(3) by auto
    from trail_var_unique [OF assms(1) this] v show "x = y" by simp
  qed
  then show ?thesis using assms(2) by (simp add: card_image distinct_card)
qed

lemma seen_ok_clause:
  assumes so: "seen_ok t" and "distinct C" and sub: "set C \<subseteq> set (s_clause t)"
  shows "seen_ok (t\<lparr>s_clause := C\<rparr>)"
  unfolding seen_ok_def
proof (intro conjI ballI allI)
  fix k assume "k \<in> set (s_clause (t\<lparr>s_clause := C\<rparr>))"
  then have "k \<in> set (s_clause t)" using sub by auto
  then have "- k \<in> set (s_trail t)" "seen t k" using so unfolding seen_ok_def by blast+
  then show "- k \<in> set (s_trail (t\<lparr>s_clause := C\<rparr>))" "seen (t\<lparr>s_clause := C\<rparr>) k" by simp_all
qed (use so assms(2) in \<open>simp_all add: seen_ok_def\<close>)

text \<open>Resolving one literal of a lower level away.\<close>

lemma erase_step:
  assumes g: "graph_ok M s0" and d: "derived s0 c u s" and i: "i < length (s_clause s)"
    and x: "s_clause s ! i \<noteq> - u" and r: "rsn s (s_clause s ! i) = Some e"
  shows "\<exists>m t. analyze_reason (s_clause s ! i) e (n, s) = Inr (m, t)
    \<and> derived s0 c u (t\<lparr>s_clause := take i (s_clause t) @ drop (i + 1) (s_clause t)\<rparr>)
    \<and> i < length (s_clause t) \<and> take i (s_clause t) = take i (s_clause s) \<and> length (s_clause t) + card (unseen t) \<le> length (s_clause s) + card (unseen s)"
proof -
  define lit where "lit = s_clause s ! i"
  have ma: "marking s0 s" using d by (simp add: derived_def)
  have so: "seen_ok s" and gs: "graph_ok M s" using ma marking_graph [OF ma g] by (simp_all add: marking_def)
  have v: "vals_ok s" using gs by (simp add: graph_ok_def)
  have lc: "lit \<in> set (s_clause s)" using i by (simp add: lit_def)
  have lt: "- lit \<in> set (s_trail s)" using so lc by (simp add: seen_ok_def)
  have ll: "0 < lev s lit" "lev s lit < s_level s" using d lc x by (simp_all add: derived_def lit_def)
  obtain p where p: "p < length (s_trail s)" "s_trail s ! p = - lit" using lt by (auto simp: in_set_conv_nth)
  have re: "rsn s (s_trail s ! p) = Some e" using r by (simp add: p(2) lit_def)
  note R = reason_at(1) [OF gs p(1) re, unfolded p(2)]
  have others: "- k \<in> set (s_trail s) \<and> lev s k < s_level s" if "k \<in> set (lits s e)" "k \<noteq> - lit" for k
    using R that ll(2) by (fastforce simp: implied_by_def dest: in_set_takeD)
  have sl: "seen s lit" using so lc unfolding seen_ok_def by blast
  have "seen s k \<or> - k \<in> set (s_trail s)" if "k \<in> set (lits s e)" "k \<noteq> lit" for k
    using others [OF that(1)] sl by (cases "k = - lit") auto
  then have "\<exists>m t. analyze_reason lit e (n, s) = Inr (m, t) \<and> marking s0 t \<and> looked_at (lits s e) lit s t"
    by (rule analyze_reason_marks [OF g ma])
  then obtain m t where t: "analyze_reason lit e (n, s) = Inr (m, t)" "marking s0 t" "looked_at (lits s e) lit s t" by blast
  have q: "quiet s t" using t(3) by (simp add: looked_at_def)
  note Q = quiet_fields [OF q]
  have sot: "seen_ok t" using t(2) by (simp add: marking_def)
  obtain new where new: "s_clause t = s_clause s @ new" "\<forall>k \<in> set new. k \<in> set (lits s e) \<and> k \<noteq> lit \<and> \<not> seen s k"
    using t(3) unfolding looked_at_def by blast
  let ?C = "take i (s_clause t) @ drop (i + 1) (s_clause t)"
  let ?t = "t\<lparr>s_clause := ?C\<rparr>"
  have split: "s_clause t = take i (s_clause t) @ lit # drop (i + 1) (s_clause t)"
    using i id_take_nth_drop [of i "s_clause t"] by (simp add: new(1) nth_append lit_def)
  have dt: "distinct (s_clause t)" using sot by (simp add: seen_ok_def)
  have C: "distinct ?C" "set ?C = set (s_clause t) - {lit}"
    using distinct_remove_mid [of "take i (s_clause t)" lit "drop (i + 1) (s_clause t)"] dt split by metis+
  have mono: "\<And>l. seen s l \<Longrightarrow> seen t l" using t(3) by (simp add: looked_at_def)
  have seen_rule: "seen t k \<or> lev s k = 0" if "k \<in> set (lits s e)" for k
    using t(3) that sl mono [of lit] by (cases "k = lit") (simp_all add: looked_at_def)
  have newk: "- k \<in> set (s_trail s)" "k \<noteq> - lit" "lev s k < s_level s" "0 < lev s k" if k: "k \<in> set new" for k
  proof -
    have k': "k \<in> set (lits s e)" "\<not> seen s k" using new(2) k by auto
    then show kl: "k \<noteq> - lit" using sl by auto
    from others [OF k'(1) kl] show "- k \<in> set (s_trail s)" "lev s k < s_level s" by auto
    have "k \<in> set (s_clause t)" using k by (simp add: new(1))
    then have "seen t k" using sot unfolding seen_ok_def by blast
    from seen_on_trail [OF sot this] show "0 < lev s k" by (simp add: Q)
  qed
  have "seen_ok ?t" using seen_ok_clause [OF sot C(1)] C(2) by blast
  then have mt: "marking s0 ?t" using t(2) by (simp add: marking_def quiet_def same_graph_def)
  have ex: "x \<in> set (s_trail ?t) \<and> (lev ?t x = 0 \<or> - x \<in> set ?C \<or> resolved ?t (seen_set t) x)" if xs: "x \<in> seen_set t" for x
  proof -
    have xt: "x \<in> set (s_trail s)" "seen t x" using xs by (simp_all add: seen_set_def Q)
    have "lev s x = 0 \<or> - x \<in> set ?C \<or> resolved t (seen_set t) x"
    proof (cases "seen s x")
      case True
      then have "x \<in> seen_set s" using xt by (simp add: seen_set_def)
      then consider "lev s x = 0" | "- x \<in> set (s_clause s)" | "resolved s (seen_set s) x"
        using d by (auto simp: derived_def explained_def)
      then show ?thesis
      proof cases
        case 2
        show ?thesis
        proof (cases "- x = lit")
          case True
          have oth: "- k \<in> seen_set t \<or> lev s k = 0" if k: "k \<in> set (lits s e)" "k \<noteq> x" for k
          proof -
            have "k \<noteq> - lit" using k(2) True by auto
            from others [OF k(1) this] seen_rule [OF k(1)] show ?thesis by (auto simp: seen_set_def Q)
          qed
          have "x = - lit" using True by simp
          then have "rsn s x = Some e" using re p(2) by simp
          then have "resolved t (seen_set t) x" unfolding resolved_def Q(3-5)
            by (intro exI [of _ e] conjI ballI impI) (assumption, rule oth)
          then show ?thesis by blast
        next
          case False
          with 2 show ?thesis unfolding C(2) by (simp add: new(1))
        qed
      next
        case 3
        from resolved_mono [OF this q seen_set_mono [OF t(3)]] show ?thesis by blast
      qed blast
    next
      case False
      then obtain k where k: "k \<in> set (lits s e)" "k \<noteq> lit" "vidx x = vidx k" using t(3) xt(2) unfolding looked_at_def by blast
      have sk: "\<not> seen s k" using False k(3) by simp
      then have "k \<noteq> - lit" using sl by auto
      note ok = others [OF k(1) this]
      have xk: "x = - k" using trail_var_unique [OF v xt(1), of "- k"] ok k(3) by simp
      have "0 < lev s k" using seen_on_trail [OF sot xt(2)] k(3) by (simp add: Q)
      then obtain k' where k': "k' \<in> set (s_clause t)" "vidx k' = vidx k" using t(3) k sk ok unfolding looked_at_def by blast
      have "- k' \<in> set (s_trail s)" using sot k'(1) unfolding seen_ok_def Q by blast
      then have "- k' = - k" using trail_var_unique [OF v, of "- k'" "- k"] ok k'(2) by simp
      moreover have "k' \<noteq> lit" using k'(2) sk sl by auto
      ultimately show ?thesis using k'(1) xk unfolding C(2) by simp
    qed
    with xt(1) show ?thesis by (auto simp: Q resolved_def)
  qed
  have "derived s0 c u ?t"
    unfolding derived_def
  proof (intro conjI ballI impI)
    show "u \<in> set (s_trail ?t)" "lev ?t u = s_level ?t" using d by (simp_all add: derived_def Q)
    show "- u \<in> set (s_clause ?t)" using d x C(2) by (simp add: derived_def new(1) lit_def)
    show "explained ?t (seen_set ?t) (s_clause ?t)" using ex by (simp add: explained_def seen_set_def)
    show "seen ?t k \<or> lev ?t k = 0" if "k \<in> set (lits ?t c)" for k
      using d that mono [of k] by (auto simp: derived_def Q)
    fix k assume k: "k \<in> set (s_clause ?t)" "k \<noteq> - u"
    have "set ?C \<subseteq> set (s_clause t)" using C(2) by blast
    moreover have "k \<in> set ?C" using k(1) by simp
    ultimately have "k \<in> set (s_clause t)" by blast
    then have "k \<in> set (s_clause s) \<or> k \<in> set new" by (simp add: new(1))
    then have "0 < lev s k \<and> lev s k < s_level s" using d k(2) newk by (auto simp: derived_def)
    then show "0 < lev ?t k" "lev ?t k < s_level ?t" by (simp_all add: Q)
  qed (rule mt)
  moreover have "i < length (s_clause t)" "take i (s_clause t) = take i (s_clause s)" using i by (simp_all add: new(1))
  moreover have "length (s_clause t) + card (unseen t) \<le> length (s_clause s) + card (unseen s)"
  proof -
    have dn: "distinct new" using dt by (simp add: new(1))
    have "vidx ` set new \<subseteq> unseen s - unseen t"
    proof
      fix y assume "y \<in> vidx ` set new"
      then obtain k where k: "k \<in> set new" "y = vidx k" by blast
      have "lit_in s (- k)" using v newk(1) [OF k(1)] by (simp add: vals_ok_def)
      then have "y \<le> s_max_var s" by (simp add: lit_in_def k(2))
      moreover have "\<not> seen s k" using new(2) k(1) by blast
      moreover have "k \<in> set (s_clause t)" using k(1) by (simp add: new(1))
      then have "seen t k" using sot unfolding seen_ok_def by blast
      ultimately show "y \<in> unseen s - unseen t" by (simp add: unseen_def k(2))
    qed
    moreover have sub: "unseen t \<subseteq> unseen s"
    proof
      fix y assume y: "y \<in> unseen t"
      then have "\<not> f_seen (s_flags t (vidx (int y)))" by (simp add: unseen_def)
      then have "\<not> f_seen (s_flags s (vidx (int y)))" using mono by blast
      with y show "y \<in> unseen s" by (simp add: unseen_def Q)
    qed
    moreover have fin: "finite (unseen s)" by (simp add: unseen_def)
    ultimately have "card (vidx ` set new) \<le> card (unseen s) - card (unseen t)"
      using card_mono [of "unseen s - unseen t"] card_Diff_subset [of "unseen t" "unseen s"] finite_subset [OF sub fin] by simp
    moreover have "card (vidx ` set new) = length new" using clause_vars_distinct [OF v dn] newk(1) by blast
    moreover have "card (unseen t) \<le> card (unseen s)" using card_mono [OF fin sub] .
    ultimately show ?thesis by (simp add: new(1))
  qed
  ultimately show ?thesis using t(1) by (auto simp: lit_def)
qed

lemma erase_aux_ok:
  assumes g: "graph_ok M s0" and na: "no_aux_decision aux s0" and u: "\<not> aux (vidx u)"
    and "derived s0 c u s" and "\<forall>j < i. j < length (s_clause s) \<longrightarrow> \<not> aux (vidx (s_clause s ! j))"
    and "i \<le> length (s_clause s)" and "length (s_clause s) - i + card (unseen s) \<le> fuel"
  shows "\<exists>m t. erase_aux fuel aux i n s = Inr (m, t) \<and> derived s0 c u t \<and> (\<forall>k \<in> set (s_clause t). \<not> aux (vidx k))"
  using assms(4-7)
proof (induction fuel arbitrary: i n s)
  case 0
  then have "\<forall>k \<in> set (s_clause s). \<not> aux (vidx k)" by (auto simp: in_set_conv_nth)
  with 0 show ?case by (subst erase_aux.simps) simp
next
  case (Suc fuel)
  show ?case
  proof (cases "i < length (s_clause s)")
    case False
    then have "\<forall>k \<in> set (s_clause s). \<not> aux (vidx k)" using Suc.prems(2) by (auto simp: in_set_conv_nth)
    with Suc.prems(1) False show ?thesis by (subst erase_aux.simps) simp
  next
    case i: True
    let ?lit = "s_clause s ! i"
    show ?thesis
    proof (cases "aux (vidx ?lit)")
      case False
      have "\<forall>j < i + 1. j < length (s_clause s) \<longrightarrow> \<not> aux (vidx (s_clause s ! j))" using Suc.prems(2) False by (auto simp: less_Suc_eq)
      from Suc.IH [OF Suc.prems(1) this] i Suc.prems(4) obtain m t where
        "erase_aux fuel aux (i + 1) n s = Inr (m, t)" "derived s0 c u t" "\<forall>k \<in> set (s_clause t). \<not> aux (vidx k)" by fastforce
      with i False show ?thesis by (subst erase_aux.simps) (simp add: Let_def)
    next
      case True
      have x: "?lit \<noteq> - u" using True u by auto
      have ma: "marking s0 s" using Suc.prems(1) by (simp add: derived_def)
      then have q: "quiet s0 s" by (simp add: marking_def)
      note Q = quiet_fields [OF q]
      have lc: "?lit \<in> set (s_clause s)" using i by simp
      then have "- ?lit \<in> set (s_trail s0)" using ma by (simp add: marking_def seen_ok_def Q)
      moreover have "0 < lev s ?lit" using Suc.prems(1) lc x by (simp add: derived_def)
      ultimately have "rsn s ?lit \<noteq> None" using na True by (force simp: no_aux_decision_def Q)
      then obtain e where e: "rsn s ?lit = Some e" by blast
      from erase_step [OF g Suc.prems(1) i x e, of n] obtain m t where t: "analyze_reason ?lit e (n, s) = Inr (m, t)"
        "derived s0 c u (t\<lparr>s_clause := take i (s_clause t) @ drop (i + 1) (s_clause t)\<rparr>)"
        "take i (s_clause t) = take i (s_clause s)" "length (s_clause t) + card (unseen t) \<le> length (s_clause s) + card (unseen s)"
        and li: "i < length (s_clause t)" by blast
      let ?t = "t\<lparr>s_clause := take i (s_clause t) @ drop (i + 1) (s_clause t)\<rparr>"
      have un: "unseen ?t = unseen t" by (simp add: unseen_def)
      have "\<exists>m' t'. erase_aux fuel aux i m ?t = Inr (m', t') \<and> derived s0 c u t' \<and> (\<forall>k \<in> set (s_clause t'). \<not> aux (vidx k))"
      proof (rule Suc.IH [OF t(2)])
        show "\<forall>j < i. j < length (s_clause ?t) \<longrightarrow> \<not> aux (vidx (s_clause ?t ! j))"
          using Suc.prems(2) i t(3) li by (auto simp: nth_append)
        show "i \<le> length (s_clause ?t)" using li by simp
        show "length (s_clause ?t) - i + card (unseen ?t) \<le> fuel" using t(4) Suc.prems(4) li i unfolding un by simp
      qed
      then show ?thesis using i True e t(1) by (subst erase_aux.simps) (simp add: Let_def)
    qed
  qed
qed

end
