(* ===== verification/Search_Minimize.thy ===== *)
theory Search_Minimize
  imports Search_Derive
begin

text \<open>
  Minimization of the derived clause (\<open>minimize.cpp\<close>): the literals removed are implied by the negations of
  those kept, so the shorter clause still follows from the formula.
\<close>

section \<open>What minimization knows\<close>

abbreviation remv :: "solver \<Rightarrow> int \<Rightarrow> bool" where "remv s l \<equiv> f_removable (s_flags s (vidx l))"
abbreviation kept :: "solver \<Rightarrow> int \<Rightarrow> bool" where "kept s l \<equiv> f_keep (s_flags s (vidx l))"

definition settled :: "solver \<Rightarrow> int \<Rightarrow> bool" where
  "settled s l \<longleftrightarrow> lev s l = 0 \<or> remv s l \<or> kept s l"

definition justified :: "solver \<Rightarrow> int \<Rightarrow> bool" where
  "justified s t \<longleftrightarrow> lev s t \<noteq> s_level s \<and> (\<exists>c. rsn s t = Some c \<and> (\<forall>k \<in> set (lits s c). k \<noteq> t \<longrightarrow> settled s k))"

definition mini :: "solver \<Rightarrow> solver \<Rightarrow> bool" where
  "mini s1 s \<longleftrightarrow> quiet s1 s \<and> (\<forall>v. f_seen (s_flags s v) = f_seen (s_flags s1 v)) \<and> s_clause s = s_clause s1
     \<and> s_analyzed s = s_analyzed s1 \<and> (\<forall>t \<in> set (s_trail s). remv s t \<longrightarrow> justified s t)
     \<and> (\<forall>v. f_poison (s_flags s v) \<or> f_removable (s_flags s v) \<longrightarrow> v \<in> vidx ` set (s_minimized s))"

text \<open>What a step may change: more is removable, the same is kept.\<close>

definition mini_grows :: "solver \<Rightarrow> solver \<Rightarrow> bool" where
  "mini_grows s t \<longleftrightarrow> quiet s t \<and> (\<forall>v. f_removable (s_flags s v) \<longrightarrow> f_removable (s_flags t v))
     \<and> (\<forall>v. f_keep (s_flags t v) = f_keep (s_flags s v))"

lemma mini_grows_refl [simp]: "mini_grows s s"
  by (simp add: mini_grows_def)

lemma mini_grows_trans: "mini_grows s t \<Longrightarrow> mini_grows t u \<Longrightarrow> mini_grows s u"
  by (auto simp: mini_grows_def intro: quiet_trans)

lemma settled_mono: "mini_grows s t \<Longrightarrow> settled s k \<Longrightarrow> settled t k"
  using quiet_fields(3) by (auto simp: mini_grows_def settled_def)

lemma justified_mono: "justified s t \<Longrightarrow> quiet s u \<Longrightarrow> (\<And>k. settled s k \<Longrightarrow> settled u k) \<Longrightarrow> justified u t"
proof -
  assume j: "justified s t" and q: "quiet s u" and m: "\<And>k. settled s k \<Longrightarrow> settled u k"
  from j obtain c where "lev s t \<noteq> s_level s" "rsn s t = Some c" "\<forall>k \<in> set (lits s c). k \<noteq> t \<longrightarrow> settled s k"
    unfolding justified_def by blast
  moreover have "\<forall>k \<in> set (lits s c). k \<noteq> t \<longrightarrow> settled u k" using calculation(3) m by blast
  ultimately show "justified u t" unfolding justified_def quiet_fields [OF q] by blast
qed

section \<open>One literal\<close>

lemma minimize_early_ok:
  assumes g: "graph_ok M s" and l: "lit \<in> set (s_trail s)"
  shows "\<exists>r. minimize_early outer lit s = Inr r \<and> (r = Some True \<longrightarrow> settled s lit)
    \<and> (r = None \<longrightarrow> lev s lit \<noteq> s_level s \<and> rsn s lit \<noteq> None \<and> \<not> settled s lit)"
proof -
  have "lev s lit < length (s_control s)" using level_le [OF g l] g by (simp add: graph_ok_def control_ok_def)
  then show ?thesis by (auto simp: minimize_early_def Let_def settled_def)
qed

text \<open>The literals of a reason, for a function that handles one of them.\<close>

lemma minimize_reason_ok:
  assumes f: "\<And>s k. mini s1 s \<Longrightarrow> k \<in> set (s_trail s) \<Longrightarrow> \<exists>r t. f k s = Inr (r, t) \<and> mini s1 t \<and> mini_grows s t \<and> (r \<longrightarrow> settled t k)"
    and "mini s1 s" and "\<And>k. k \<in> set ks \<Longrightarrow> k \<noteq> lit \<Longrightarrow> - k \<in> set (s_trail s)"
  shows "\<exists>r t. minimize_reason f lit ks s = Inr (r, t) \<and> mini s1 t \<and> mini_grows s t
    \<and> (r \<longrightarrow> (\<forall>k \<in> set ks. k \<noteq> lit \<longrightarrow> settled t k))"
  using assms(2,3)
proof (induction ks arbitrary: s)
  case Nil
  then show ?case by (intro exI [of _ True] exI [of _ s]) simp
next
  case (Cons k ks)
  show ?case
  proof (cases "k = lit")
    case True
    with Cons.IH [OF Cons.prems(1)] Cons.prems(2) show ?thesis by auto
  next
    case False
    then have "- k \<in> set (s_trail s)" using Cons.prems(2) by simp
    from f [OF Cons.prems(1) this] obtain r u where u: "f (- k) s = Inr (r, u)" "mini s1 u" "mini_grows s u" "r \<longrightarrow> settled u (- k)" by blast
    show ?thesis
    proof (cases r)
      case False
      with u \<open>k \<noteq> lit\<close> show ?thesis by auto
    next
      case True
      have "- x \<in> set (s_trail u)" if "x \<in> set ks" "x \<noteq> lit" for x
        using Cons.prems(2) [of x] that quiet_fields(1) [of s u] u(3) by (simp add: mini_grows_def)
      from Cons.IH [OF u(2) this] obtain r' t where t: "minimize_reason f lit ks u = Inr (r', t)" "mini s1 t" "mini_grows u t"
        "r' \<longrightarrow> (\<forall>k \<in> set ks. k \<noteq> lit \<longrightarrow> settled t k)" by blast
      have "settled t k" using settled_mono [OF t(3), of k] u(4) True by (simp add: settled_def)
      with t u(1) True \<open>k \<noteq> lit\<close> mini_grows_trans [OF u(3) t(3)] show ?thesis by auto
    qed
  qed
qed

lemma minimize_literal_ok:
  assumes g: "graph_ok M s1"
  shows "mini s1 s \<Longrightarrow> lit \<in> set (s_trail s) \<Longrightarrow>
    \<exists>r t. minimize_literal n outer lit s = Inr (r, t) \<and> mini s1 t \<and> mini_grows s t \<and> (r \<longrightarrow> settled t lit)"
proof (induction n arbitrary: outer lit s)
  case 0
  have gs: "graph_ok M s" using 0(1) g same_graph_ok by (auto simp: mini_def quiet_def)
  from minimize_early_ok [OF gs 0(2), of outer] obtain r where "minimize_early outer lit s = Inr r" "r = Some True \<longrightarrow> settled s lit" by blast
  with 0(1) show ?case by (auto split: option.splits)
next
  case (Suc n)
  have gs: "graph_ok M s" using Suc.prems(1) g same_graph_ok by (auto simp: mini_def quiet_def)
  from minimize_early_ok [OF gs Suc.prems(2), of outer] obtain r where r: "minimize_early outer lit s = Inr r"
    "r = Some True \<longrightarrow> settled s lit" "r = None \<longrightarrow> lev s lit \<noteq> s_level s \<and> rsn s lit \<noteq> None \<and> \<not> settled s lit" by blast
  show ?case
  proof (cases r)
    case (Some b)
    with r Suc.prems(1) show ?thesis by auto
  next
    case None
    then obtain c where c: "rsn s lit = Some c" and ll: "lev s lit \<noteq> s_level s" using r(3) by blast
    obtain p where p: "p < length (s_trail s)" "s_trail s ! p = lit" using Suc.prems(2) by (auto simp: in_set_conv_nth)
    have "- k \<in> set (s_trail s)" if "k \<in> set (lits s c)" "k \<noteq> lit" for k
      using reason_at(1) [OF gs p(1)] p(2) c that by (auto simp: implied_by_def dest: in_set_takeD)
    with minimize_reason_ok [where f = "minimize_literal n False" and lit = lit, OF Suc.IH Suc.prems(1)] obtain b u where
      u: "minimize_reason (minimize_literal n False) lit (lits s c) s = Inr (b, u)" "mini s1 u" "mini_grows s u"
      "b \<longrightarrow> (\<forall>k \<in> set (lits s c). k \<noteq> lit \<longrightarrow> settled u k)" by blast
    define h :: "vflags \<Rightarrow> vflags" where "h = (if b then f_removable_update (\<lambda>_. True) else f_poison_update (\<lambda>_. True))"
    define t where "t = (upd_flags lit h u)\<lparr>s_minimized := s_minimized u @ [lit]\<rparr>"
    have run: "minimize_literal (Suc n) outer lit s = Inr (b, t)"
      using r(1) None c u(1) by (simp add: t_def h_def)
    have qu: "quiet s u" using u(3) by (simp add: mini_grows_def)
    note Q = quiet_fields [OF qu]
    have ut: "quiet u t" by (simp add: t_def quiet_def same_graph_def upd_flags_def)
    note T = quiet_fields [OF ut]
    have fl: "f_seen (s_flags t v) = f_seen (s_flags u v)" "f_keep (s_flags t v) = f_keep (s_flags u v)"
      "f_removable (s_flags t v) \<longleftrightarrow> f_removable (s_flags u v) \<or> (b \<and> v = vidx lit)"
      "f_poison (s_flags t v) \<longleftrightarrow> f_poison (s_flags u v) \<or> (\<not> b \<and> v = vidx lit)" for v
      by (simp_all add: t_def h_def upd_flags_def)
    have gr: "mini_grows u t" using ut fl by (simp add: mini_grows_def)
    have "justified t x" if x: "x \<in> set (s_trail t)" "remv t x" for x
    proof (cases "remv u x")
      case True
      then have "justified u x" using u(2) x(1) by (simp add: mini_def T)
      then show ?thesis using justified_mono [OF _ ut] settled_mono [OF gr] by blast
    next
      case False
      then have b: "b" "vidx x = vidx lit" using x(2) fl(3) by auto
      have "lit \<in> set (s_trail u)" using Suc.prems(2) by (simp add: Q)
      then have "x = lit" using trail_var_unique [of s x lit] b(2) x(1) Suc.prems(2) gs by (simp add: graph_ok_def Q T)
      moreover have "\<forall>k \<in> set (lits s c). k \<noteq> lit \<longrightarrow> settled t k" using u(4) b(1) settled_mono [OF gr] by blast
      ultimately show ?thesis using c ll by (simp add: justified_def T Q)
    qed
    moreover have "v \<in> vidx ` set (s_minimized t)" if "f_poison (s_flags t v) \<or> f_removable (s_flags t v)" for v
      using that u(2) fl by (auto simp: mini_def t_def)
    moreover have "s_clause t = s_clause u" "s_analyzed t = s_analyzed u" by (simp_all add: t_def upd_flags_def)
    ultimately have "mini s1 t" using u(2) ut fl(1) by (auto simp: mini_def intro: quiet_trans)
    moreover have "b \<longrightarrow> settled t lit" by (simp add: settled_def fl(3))
    ultimately show ?thesis using run mini_grows_trans [OF u(3) gr] by blast
  qed
qed

section \<open>All literals\<close>

text \<open>Keeping the literals \<open>ks\<close> on the way from \<open>s\<close> to \<open>t\<close>.\<close>

definition keeps :: "int list \<Rightarrow> solver \<Rightarrow> solver \<Rightarrow> bool" where
  "keeps ks s t \<longleftrightarrow> quiet s t \<and> (\<forall>v. f_removable (s_flags s v) \<longrightarrow> f_removable (s_flags t v))
     \<and> (\<forall>v. f_keep (s_flags t v) \<longleftrightarrow> f_keep (s_flags s v) \<or> v \<in> vidx ` set ks)"

lemma keeps_settled: "keeps ks s t \<Longrightarrow> settled s k \<Longrightarrow> settled t k"
  using quiet_fields(3) by (auto simp: keeps_def settled_def)

lemma keeps_trans: "keeps ks s t \<Longrightarrow> keeps ls t u \<Longrightarrow> keeps (ks @ ls) s u"
  by (auto simp: keeps_def intro: quiet_trans)

lemma grows_keeps: "mini_grows s t \<longleftrightarrow> keeps [] s t"
  by (auto simp: mini_grows_def keeps_def)

lemma mini_keep:
  assumes "mini s1 s"
  shows "mini s1 (upd_flags l (f_keep_update (\<lambda>_. True)) s)" "keeps [l] s (upd_flags l (f_keep_update (\<lambda>_. True)) s)"
proof -
  let ?t = "upd_flags l (f_keep_update (\<lambda>_. True)) s"
  have q: "quiet s ?t" by simp
  have fl: "f_seen (s_flags ?t v) = f_seen (s_flags s v)" "f_removable (s_flags ?t v) = f_removable (s_flags s v)"
    "f_poison (s_flags ?t v) = f_poison (s_flags s v)" "f_keep (s_flags ?t v) \<longleftrightarrow> f_keep (s_flags s v) \<or> v = vidx l" for v
    by (simp_all add: upd_flags_def)
  show k: "keeps [l] s ?t" using q fl by (auto simp: keeps_def)
  have "justified ?t x" if "x \<in> set (s_trail ?t)" "remv ?t x" for x
  proof (rule justified_mono [OF _ q])
    show "justified s x" using assms that by (simp add: mini_def fl quiet_fields(1) [OF q])
  qed (rule keeps_settled [OF k])
  moreover have "s_clause ?t = s_clause s" "s_analyzed ?t = s_analyzed s" "s_minimized ?t = s_minimized s" by (simp_all add: upd_flags_def)
  ultimately show "mini s1 ?t" using assms fl q unfolding mini_def by (auto intro: quiet_trans)
qed

lemma minimize_lits_ok:
  assumes g: "graph_ok M s1"
  shows "mini s1 s \<Longrightarrow> \<forall>l \<in> set ls. - l \<in> set (s_trail s) \<Longrightarrow>
    \<exists>ks t. minimize_lits ls s = Inr (ks, t) \<and> mini s1 t \<and> keeps ks s t \<and> set ks \<subseteq> set ls \<and> (distinct ls \<longrightarrow> distinct ks)
      \<and> (\<forall>l \<in> set ls. l \<in> set ks \<or> settled t l)"
proof (induction ls arbitrary: s)
  case Nil
  have "keeps [] s s" by (simp add: keeps_def)
  with Nil show ?case by simp
next
  case (Cons l ls)
  from minimize_literal_ok [OF g Cons.prems(1), of "- l"] Cons.prems(2) obtain r u where
    u: "minimize_literal (o_minimizedepth (s_opts s) + 1) True (- l) s = Inr (r, u)" "mini s1 u" "keeps [] s u" "r \<longrightarrow> settled u (- l)"
    unfolding grows_keeps by (meson list.set_intros(1))
  show ?case
  proof (cases r)
    case True
    have "\<forall>l \<in> set ls. - l \<in> set (s_trail u)" using Cons.prems(2) u(3) quiet_fields(1) [of s u] by (simp add: keeps_def)
    from Cons.IH [OF u(2) this] obtain ks t where t: "minimize_lits ls u = Inr (ks, t)" "mini s1 t" "keeps ks u t" "set ks \<subseteq> set ls"
      "distinct ls \<longrightarrow> distinct ks" "\<forall>l \<in> set ls. l \<in> set ks \<or> settled t l" by blast
    have "settled t l" using keeps_settled [OF t(3), of l] u(4) True by (simp add: settled_def)
    with t u(1) True keeps_trans [OF u(3) t(3)] show ?thesis by auto
  next
    case False
    let ?v = "upd_flags l (f_keep_update (\<lambda>_. True)) u"
    note K = mini_keep [OF u(2), of l]
    have su: "keeps [l] s ?v" using keeps_trans [OF u(3) K(2)] by simp
    have "\<forall>l \<in> set ls. - l \<in> set (s_trail ?v)" using Cons.prems(2) su quiet_fields(1) [of s ?v] by (simp add: keeps_def)
    from Cons.IH [OF K(1) this] obtain ks t where t: "minimize_lits ls ?v = Inr (ks, t)" "mini s1 t" "keeps ks ?v t" "set ks \<subseteq> set ls"
      "distinct ls \<longrightarrow> distinct ks" "\<forall>l \<in> set ls. l \<in> set ks \<or> settled t l" by blast
    have run: "minimize_lits (l # ls) s = Inr (l # ks, t)" using u(1) False t(1) by simp
    have "keeps (l # ks) s t" using keeps_trans [OF su t(3)] by simp
    with run t show ?thesis by (intro exI [of _ "l # ks"] exI [of _ t]) auto
  qed
qed

section \<open>The minimized clause\<close>

text \<open>
  A clause conflict analysis may learn, with the implication point \<open>u\<close>: implied, false on the trail, and
  \<open>- u\<close> alone on the current level.
\<close>

definition learnable :: "(nat \<Rightarrow> bool) set \<Rightarrow> solver \<Rightarrow> int \<Rightarrow> solver \<Rightarrow> bool" where
  "learnable M s0 u s \<longleftrightarrow> marking s0 s \<and> u \<in> set (s_trail s) \<and> lev s u = s_level s
     \<and> - u \<in> set (s_clause s) \<and> (\<forall>k \<in> set (s_clause s). k \<noteq> - u \<longrightarrow> 0 < lev s k \<and> lev s k < s_level s) \<and> ent M (s_clause s)"

lemma derived_learnable:
  assumes "graph_ok M s0" and "derived s0 c u s" and "c < s_next s0" "\<forall>k \<in> set (lits s0 c). - k \<in> set (s_trail s0)"
  shows "learnable M s0 u s"
  using assms(2) derived_ent [OF assms] by (simp add: learnable_def derived_def)

lemma fold_upd_flags:
  "quiet s (fold (\<lambda>l. upd_flags l f) ls s)" "s_clause (fold (\<lambda>l. upd_flags l f) ls s) = s_clause s"
  "s_analyzed (fold (\<lambda>l. upd_flags l f) ls s) = s_analyzed s" "s_minimized (fold (\<lambda>l. upd_flags l f) ls s) = s_minimized s"
proof -
  show "quiet s (fold (\<lambda>l. upd_flags l f) ls s)"
    by (induction ls arbitrary: s) (auto intro: quiet_trans [OF quiet_upd_flags])
qed (induction ls arbitrary: s; simp add: upd_flags_def)+

lemma fold_upd_flags_at:
  assumes "\<And>x. f (f x) = f x"
  shows "s_flags (fold (\<lambda>l. upd_flags l f) ls s) v = (if v \<in> vidx ` set ls then f (s_flags s v) else s_flags s v)"
  using assms by (induction ls arbitrary: s) (auto simp: upd_flags_def)

lemma clear_minimized_flags:
  fixes s v defines "fl \<equiv> s_flags (clear_minimized_literals s) v" and "gl \<equiv> s_flags s v"
  shows "f_seen fl = f_seen gl" "f_poison fl \<longleftrightarrow> f_poison gl \<and> v \<notin> vidx ` set (s_minimized s)"
    "f_removable fl \<longleftrightarrow> f_removable gl \<and> v \<notin> vidx ` set (s_minimized s)" "f_keep fl \<longleftrightarrow> f_keep gl \<and> v \<notin> vidx ` set (s_clause s)"
  unfolding fl_def gl_def clear_minimized_literals_def Let_def
  by (auto simp: fold_upd_flags_at fold_upd_flags)

lemma clear_minimized_fields:
  "quiet s (clear_minimized_literals s)" "s_clause (clear_minimized_literals s) = s_clause s"
  "s_analyzed (clear_minimized_literals s) = s_analyzed s" "s_minimized (clear_minimized_literals s) = []"
proof -
  have q: "quiet u (u\<lparr>s_minimized := []\<rparr>)" for u by (simp add: quiet_def same_graph_def)
  show "quiet s (clear_minimized_literals s)" unfolding clear_minimized_literals_def Let_def
    by (rule quiet_trans [OF quiet_trans [OF fold_upd_flags(1) fold_upd_flags(1)] q])
qed (simp_all add: clear_minimized_literals_def Let_def fold_upd_flags)

lemma minimize_clause_ok:
  assumes g: "graph_ok M s0" and fr: "fresh_analysis s0" and lv: "0 < s_level s0" and d: "derived s0 c u s"
    and c: "c < s_next s0" "\<forall>k \<in> set (lits s0 c). - k \<in> set (s_trail s0)"
  shows "\<exists>t. minimize_clause s = Inr t \<and> learnable M s0 u t"
proof -
  let ?s = "minimize_sort_clause s"
  have ma: "marking s0 s" using d by (simp add: derived_def)
  have qs: "quiet s ?s" by (simp add: minimize_sort_clause_def quiet_def same_graph_def)
  have f0: "\<not> f_keep (s_flags s v)" "\<not> f_poison (s_flags s v)" "\<not> f_removable (s_flags s v)" "s_minimized s = []" for v
    using ma fr by (simp_all add: marking_def fresh_analysis_def)
  have S: "s_flags ?s = s_flags s" "s_minimized ?s = s_minimized s" "s_analyzed ?s = s_analyzed s" "set (s_clause ?s) = set (s_clause s)"
    "distinct (s_clause ?s) = distinct (s_clause s)"
    by (simp_all add: minimize_sort_clause_def)
  have so: "seen_ok s" and q0: "quiet s0 ?s" using ma quiet_trans [OF _ qs] by (auto simp: marking_def)
  have gs: "graph_ok M ?s" using q0 g same_graph_ok by (auto simp: quiet_def)
  note Q = quiet_fields [OF q0]
  have m0: "mini ?s ?s" by (simp add: mini_def S f0)
  have ct: "\<forall>l \<in> set (s_clause ?s). - l \<in> set (s_trail ?s)" using so quiet_fields(1) [OF qs] by (simp add: seen_ok_def S)
  from minimize_lits_ok [OF gs m0 ct] obtain ks t where t: "minimize_lits (s_clause ?s) ?s = Inr (ks, t)" "mini ?s t" "keeps ks ?s t"
    "set ks \<subseteq> set (s_clause s)" "distinct ks" "\<forall>l \<in> set (s_clause s). l \<in> set ks \<or> settled t l" unfolding S using so by (auto simp: seen_ok_def)
  have qt: "quiet s0 t" using q0 t(3) quiet_trans by (auto simp: keeps_def)
  note T = quiet_fields [OF qt]
  have kp: "kept t x \<longleftrightarrow> vidx x \<in> vidx ` set ks" for x using t(3) f0 by (simp add: keeps_def S)
  have vt: "vals_ok s0" using g by (simp add: graph_ok_def)
  have kc: "- k \<in> set (s_trail s0)" if "k \<in> set (s_clause s)" for k using ct that by (simp add: S Q)
  have keptD: "- x \<in> set ks" if x: "x \<in> set (s_trail s0)" "kept t x" for x
  proof -
    obtain k where k: "k \<in> set ks" "vidx x = vidx k" using kp x(2) by auto
    then have "- k \<in> set (s_trail s0)" using t(4) kc by blast
    from trail_var_unique [OF vt x(1) this] k show ?thesis by simp
  qed
  have jus: "justified t x" if "x \<in> set (s_trail s0)" "remv t x" for x using t(2) that by (simp add: mini_def T)
  have ut: "u \<in> set (s_trail s0)" and ul: "lev s0 u = s_level s0" and uc: "- u \<in> set (s_clause s)"
    and rest: "\<forall>k \<in> set (s_clause s). k \<noteq> - u \<longrightarrow> 0 < lev s0 k \<and> lev s0 k < s_level s0"
    using d ma quiet_fields [of s0 s] by (simp_all add: derived_def marking_def)
  have uk: "- u \<in> set ks"
  proof (rule ccontr)
    assume n: "- u \<notin> set ks"
    then have "settled t u" using t(6) uc by (auto simp: settled_def)
    moreover have "\<not> kept t u" using keptD [OF ut] n by blast
    ultimately have "justified t u" using jus [OF ut] ul lv by (simp add: settled_def T)
    then show False using ul by (simp add: justified_def T)
  qed
  let ?C = "seen_set s \<union> {x \<in> set (s_trail s0). remv t x \<or> kept t x}"
  have settledD: "x \<in> ?C \<or> lev s0 x = 0" if "x \<in> set (s_trail s0)" "settled t x" for x
    using that by (auto simp: settled_def T)
  have ex: "explained t ?C ks"
    unfolding explained_def T
  proof (intro ballI conjI)
    fix x assume x: "x \<in> ?C"
    then show xt: "x \<in> set (s_trail s0)" using quiet_fields(1) [of s0 s] ma by (auto simp: seen_set_def marking_def)
    have case_kept: "lev s0 x = 0 \<or> - x \<in> set ks \<or> resolved t ?C x" if st: "settled t x"
    proof -
      consider "lev s0 x = 0" | "kept t x" | "remv t x" using st by (auto simp: settled_def T)
      then show ?thesis
      proof cases
        case 3
        then obtain e where e: "rsn s0 x = Some e" "\<forall>k \<in> set (lits s0 e). k \<noteq> x \<longrightarrow> settled t k"
          using jus [OF xt] by (auto simp: justified_def T)
        obtain p where p: "p < length (s_trail s0)" "s_trail s0 ! p = x" using xt by (auto simp: in_set_conv_nth)
        have "- k \<in> ?C \<or> lev s0 k = 0" if k: "k \<in> set (lits s0 e)" "k \<noteq> x" for k
        proof -
          have "- k \<in> set (s_trail s0)" using reason_at(1) [OF g p(1)] p(2) e(1) k by (auto simp: implied_by_def dest: in_set_takeD)
          moreover have "settled t (- k)" using e(2) k by (simp add: settled_def)
          ultimately show ?thesis using settledD [of "- k"] by simp
        qed
        then have al: "\<forall>k \<in> set (lits s0 e). k \<noteq> x \<longrightarrow> - k \<in> ?C \<or> lev s0 k = 0" by (intro ballI impI)
        have "resolved t ?C x" unfolding resolved_def T by (rule exI [of _ e], rule conjI [OF e(1) al])
        then show ?thesis by blast
      qed (use keptD [OF xt] in blast)+
    qed
    show "lev s0 x = 0 \<or> - x \<in> set ks \<or> resolved t ?C x"
    proof (cases "x \<in> seen_set s")
      case False
      then have "settled t x" using x unfolding settled_def by blast
      then show ?thesis by (rule case_kept)
    next
      case True
      then consider "lev s x = 0" | "- x \<in> set (s_clause s)" | "resolved s (seen_set s) x" using d by (auto simp: derived_def explained_def)
      then show ?thesis
      proof cases
        case 1
        then show ?thesis using quiet_fields(3) [of s0 s] ma by (simp add: marking_def)
      next
        case 2
        then have "- x \<in> set ks \<or> settled t (- x)" using t(6) by blast
        moreover have "settled t (- x) = settled t x" by (simp add: settled_def)
        ultimately show ?thesis using case_kept by blast
      next
        case 3
        have "quiet s t" using qs t(3) quiet_trans by (auto simp: keeps_def)
        from resolved_mono [OF 3 this, of ?C] show ?thesis by blast
      qed
    qed
  qed
  have gt: "graph_ok M t" using qt g same_graph_ok by (auto simp: quiet_def)
  have en: "ent M ks"
  proof (rule explained_ent [OF gt ex])
    show "clause_ok_on M t (lits t c)" using gt c(1) by (simp add: graph_ok_def clauses_ok_def T)
    have "\<forall>k \<in> set (lits s0 c). seen s k \<or> lev s0 k = 0" using d quiet_fields [of s0 s] ma by (simp add: derived_def marking_def)
    then show "\<forall>k \<in> set (lits t c). - k \<in> set (s_trail t) \<and> (- k \<in> ?C \<or> lev t k = 0)"
      using c(2) ma quiet_fields(1) [of s0 s] by (auto simp: seen_set_def T marking_def)
  qed
  define t' where "t' = clear_minimized_literals (t\<lparr>s_clause := ks\<rparr>)"
  have run: "minimize_clause s = Inr t'" using t(1) by (simp add: minimize_clause_def Let_def t'_def)
  have q1: "quiet t t'" unfolding t'_def
    by (rule quiet_trans [OF _ clear_minimized_fields(1)]) (simp add: quiet_def same_graph_def)
  have qt': "quiet s0 t'" by (rule quiet_trans [OF qt q1])
  have fld: "s_clause t' = ks" "s_analyzed t' = s_analyzed s" "s_minimized t' = []"
    using t(2) by (simp_all add: t'_def clear_minimized_fields mini_def S)
  have fl: "f_seen (s_flags t' v) = f_seen (s_flags s v)" "\<not> f_keep (s_flags t' v)" "\<not> f_poison (s_flags t' v)" "\<not> f_removable (s_flags t' v)" for v
    using t(2) kp [of "int v"] by (auto simp: t'_def clear_minimized_flags mini_def S)
  have "seen_ok t'"
    unfolding seen_ok_def
  proof (intro conjI allI ballI)
    fix k assume "k \<in> set (s_clause t')"
    then have k: "k \<in> set (s_clause s)" using t(4) fld(1) by auto
    show "- k \<in> set (s_trail t')" using kc [OF k] by (simp add: quiet_fields(1) [OF qt'])
    show "seen t' k" using so k unfolding fl seen_ok_def by blast
  next
    fix k assume "k \<in> set (s_analyzed t')"
    then have "- k \<in> set (s_trail s)" "0 < lev s k" using so by (simp_all add: seen_ok_def fld)
    then show "- k \<in> set (s_trail t')" "0 < lev t' k" using ma quiet_fields(1,3) [of s0 s] by (simp_all add: quiet_fields [OF qt'] marking_def)
  qed (use so t(5) in \<open>simp_all add: fl fld seen_ok_def\<close>)
  moreover have "f_keep (s_flags s0 v) = f_keep (s_flags t' v)" "f_poison (s_flags s0 v) = f_poison (s_flags t' v)"
    "f_removable (s_flags s0 v) = f_removable (s_flags t' v)" for v using fr by (simp_all add: fl fresh_analysis_def)
  ultimately have "marking s0 t'" using qt' fr by (simp add: marking_def fld fresh_analysis_def)
  then have "learnable M s0 u t'" using ut ul uk rest t(4) en
    by (auto simp: learnable_def quiet_fields [OF qt'] fld(1))
  with run show ?thesis by blast
qed

end
