(* ===== verification/Search_Theorems.thy ===== *)
theory Search_Theorems
  imports Search_Minimize
begin

text \<open>
  What propagation and conflict analysis promise, with a small search on which the promises are
  exercised: five variables, of which variable 4 may be auxiliary.
\<close>

section \<open>The trail\<close>

definition decisions :: "solver \<Rightarrow> int set" where
  "decisions s = {l \<in> set (s_trail s). 0 < lev s l \<and> rsn s l = None}"

text \<open>A model of the formula that agrees with the decisions agrees with the whole trail.\<close>

definition trail_follows :: "(nat \<Rightarrow> bool) set \<Rightarrow> solver \<Rightarrow> bool" where
  "trail_follows M s \<longleftrightarrow> (\<forall>a \<in> M. (\<forall>l \<in> decisions s. lit_on a l) \<longrightarrow> (\<forall>l \<in> set (s_trail s). lit_on a l))"

lemma graph_trail_follows:
  assumes g: "graph_ok M s"
  shows "trail_follows M s"
  unfolding trail_follows_def
proof (intro ballI impI)
  fix a l assume a: "a \<in> M" "\<forall>l \<in> decisions s. lit_on a l" and l: "l \<in> set (s_trail s)"
  obtain C where C: "set C = uminus ` decisions s"
    using finite_list [of "uminus ` decisions s"] by (auto simp: decisions_def)
  have ex: "explained s (set (s_trail s)) C"
    unfolding explained_def
  proof (intro ballI conjI)
    fix t assume t: "t \<in> set (s_trail s)"
    then obtain p where p: "p < length (s_trail s)" "s_trail s ! p = t" by (auto simp: in_set_conv_nth)
    show "lev s t = 0 \<or> - t \<in> set C \<or> resolved s (set (s_trail s)) t"
    proof (cases "rsn s t")
      case None
      with t C show ?thesis by (auto simp: decisions_def)
    next
      case (Some c)
      then have "implied_by s c (take p (s_trail s)) t" using reason_at(1) [OF g p(1)] p(2) by simp
      then have "\<forall>k \<in> set (lits s c). k \<noteq> t \<longrightarrow> - k \<in> set (s_trail s) \<or> lev s k = 0"
        by (auto simp: implied_by_def dest: in_set_takeD)
      with Some show ?thesis unfolding resolved_def by blast
    qed
  qed (assumption)
  have "\<not> cl_on a C"
  proof
    assume "cl_on a C"
    then obtain k where "k \<in> set C" "lit_on a k" by (auto simp: cl_on_def list_ex_iff)
    moreover from this(1) obtain d where d: "d \<in> decisions s" "k = - d" using C by auto
    moreover have "d \<noteq> 0" using d(1) g by (auto simp: decisions_def graph_ok_def vals_ok_def lit_in_def)
    ultimately show False using a(2) by (cases "d < 0") auto
  qed
  moreover obtain p where "p < length (s_trail s)" "s_trail s ! p = l" using l by (auto simp: in_set_conv_nth)
  ultimately show "lit_on a l" using explained_true [OF g ex a(1), of p] l by simp
qed

lemma clause_seen: "seen_ok s \<Longrightarrow> k \<in> set (s_clause s) \<Longrightarrow> seen s k"
  unfolding seen_ok_def by blast

section \<open>Propagation\<close>

lemma search_propagate_ok:
  assumes "search_ok M s" and "s_propagated s \<le> length (s_trail s)"
  shows "\<exists>t. search_propagate s = Inr (s_conflict t = None, t) \<and> search_ok M t \<and> s_level t = s_level s
    \<and> (\<exists>new. s_trail t = s_trail s @ new) \<and> s_propagated t \<le> length (s_trail t)
    \<and> (s_conflict t = None \<longrightarrow> s_propagated t = length (s_trail t))"
proof -
  from propagate_loop_ok [OF assms le_add1] obtain u where u: "propagate_loop (s_max_var s) s = Inr u" "search_ok M u"
    "advances s u" "s_propagated u \<le> length (s_trail u)" "s_conflict u = None \<longrightarrow> s_propagated u = length (s_trail u)"
    by (elim exE conjE) (rule that; simp)
  have e: "s_level u = s_level s" "\<exists>new. s_trail u = s_trail s @ new" using u(3) by (simp_all add: advances_def extends_def)
  have c: "vec_get (s_control u) (s_level u) = Inr (s_control u ! s_level u)"
    using u(2) by (simp add: search_ok_def graph_ok_def control_ok_def)
  have same: "search_ok M (u\<lparr>s_no_conflict_until := n\<rparr>)" "search_ok M (u\<lparr>s_conflicts := m, s_no_conflict_until := n\<rparr>)" for m n
    by (rule quiet_ok [OF _ u(2)], simp add: quiet_def same_graph_def)+
  show ?thesis
  proof (cases "s_lucky u")
    case True
    with u e show ?thesis by (auto simp: search_propagate_def)
  next
    case False
    then show ?thesis
    proof (cases "s_conflict u = None")
      case True
      with False u e same show ?thesis by (auto simp: search_propagate_def)
    next
      case con: False
      with False c u e same show ?thesis by (auto simp: search_propagate_def)
    qed
  qed
qed

section \<open>The learned clause\<close>

definition at_conflict :: "(nat \<Rightarrow> bool) set \<Rightarrow> nat \<Rightarrow> solver \<Rightarrow> bool" where
  "at_conflict M c s \<longleftrightarrow> graph_ok M s \<and> chrono s \<and> 0 < s_level s \<and> fresh_analysis s \<and> c < s_next s
     \<and> (\<forall>k \<in> set (lits s c). - k \<in> set (s_trail s)) \<and> (\<exists>k \<in> set (lits s c). lev s k = s_level s)"

lemma derive_clause_ok:
  assumes a: "at_conflict M c s" and na: "uipaux \<Longrightarrow> no_aux_decision aux s"
  shows "\<exists>u n g t. derive_clause uipaux aux c s = Inr (u, n, g, t) \<and> learnable M s u t
    \<and> (uipaux \<longrightarrow> (\<forall>k \<in> set (s_clause t). \<not> aux (vidx k)))"
proof -
  have g: "graph_ok M s" and ch: "chrono s" and lv: "0 < s_level s" and fr: "fresh_analysis s" and c: "c < s_next s"
    and fl: "\<forall>k \<in> set (lits s c). - k \<in> set (s_trail s)" and cu: "\<exists>k \<in> set (lits s c). lev s k = s_level s"
    using a unfolding at_conflict_def by blast+
  have nz: "\<forall>k \<in> set (lits s c). k \<noteq> 0" using g c by (auto simp: graph_ok_def clauses_ok_def clause_ok_on_def lit_in_def)
  from uip_clause_derived [OF g ch lv fr fl cu nz, of uipaux aux] obtain u t where
    t: "uip_loop uipaux aux (length (s_trail s)) 0 (Some c) 0 s = Inr (u, 0, t)"
    "derived s c u (t\<lparr>s_clause := s_clause t @ [- u]\<rparr>)" "uipaux \<and> aux (vidx u) \<longrightarrow> rsn s u = None" by (elim exE conjE) (rule that)
  let ?t = "t\<lparr>s_clause := s_clause t @ [- u]\<rparr>"
  have q: "quiet s ?t" using t(2) by (simp add: derived_def marking_def)
  show ?thesis
  proof (cases uipaux)
    case True
    have u: "u \<in> set (s_trail s)" "lev s u = s_level s" using t(2) quiet_fields [OF q] by (simp_all add: derived_def)
    have nu: "\<not> aux (vidx u)" using na [OF True] u lv t(3) True by (auto simp: no_aux_decision_def)
    have "card (unseen ?t) \<le> s_max_var s"
    proof -
      have "lit_in s u" using u(1) g by (simp add: graph_ok_def vals_ok_def)
      moreover have "seen_ok ?t" using t(2) by (simp add: derived_def marking_def)
      then have "seen ?t (- u)" by (rule clause_seen) simp
      ultimately have "unseen ?t \<subseteq> {..s_max_var s} - {vidx u}" "vidx u \<le> s_max_var s"
        by (auto simp: unseen_def lit_in_def quiet_fields(7) [OF q, simplified])
      then show ?thesis using card_mono [of "{..s_max_var s} - {vidx u}" "unseen ?t"] by simp
    qed
    then have fuel: "length (s_clause ?t) - 0 + card (unseen ?t) \<le> length (s_clause ?t) + s_max_var ?t"
      by (simp add: quiet_fields(7) [OF q, simplified])
    have "\<exists>m v. erase_aux (length (s_clause ?t) + s_max_var ?t) aux 0 0 ?t = Inr (m, v) \<and> derived s c u v \<and> (\<forall>k \<in> set (s_clause v). \<not> aux (vidx k))"
      by (rule erase_aux_ok [OF g na [OF True] nu t(2) _ _ fuel]) simp_all
    then obtain m v where v: "erase_aux (length (s_clause ?t) + s_max_var ?t) aux 0 0 ?t = Inr (m, v)" "derived s c u v"
      "\<forall>k \<in> set (s_clause v). \<not> aux (vidx k)" by blast
    with True t(1) derived_learnable [OF g v(2) c fl] show ?thesis by (simp add: derive_clause_def)
  next
    case False
    from minimize_clause_ok [OF g fr lv t(2) c fl] obtain v where "minimize_clause ?t = Inr v" "learnable M s u v" by blast
    with False t(1) derived_learnable [OF g t(2) c fl] show ?thesis
      by (cases "length (s_clause ?t) > 1 \<and> o_minimize (s_opts ?t)") (auto simp: derive_clause_def)
  qed
qed

section \<open>A small search\<close>

definition demo_options :: options where
  "demo_options = \<lparr>o_chrono = 1, o_chronoalways = False, o_chronolevelim = 100, o_chronoreusetrail = True, o_minimize = True,
     o_minimizedepth = 1000, o_bumpreason = True, o_bumpreasondepth = 1, o_bump = True, o_tier1 = 2, o_tier2 = 6,
     o_eagersubsume = True, o_eagersubsumelim = 20, o_reverse = False, o_score = True, o_scorefactor = 950, o_target = 1\<rparr>"

definition demo_phases :: phases where
  "demo_phases = \<lparr>ph_saved = (\<lambda>_. 0), ph_forced = (\<lambda>_. 0), ph_target = (\<lambda>_. 0), opt_phase = True, opt_forcephase = False,
     force_saved_phase = False\<rparr>"

definition demo_clause :: "int list \<Rightarrow> sclause" where
  "demo_clause ls = \<lparr>c_lits = ls, c_pos = 2, c_glue = 0, c_used = 0, c_garbage = False, c_redundant = False, c_keep = True, c_hyper = False\<rparr>"

definition demo_cnf :: "int list list" where
  "demo_cnf = [[2, 1, -4], [-2, 1], [4, 3]]"

text \<open>
  Decisions \<open>-3\<close> and \<open>-1\<close>; 4 follows from \<open>-3\<close>.  Propagating \<open>-1\<close> yields 2 and then a conflict.
\<close>

definition demo_search :: solver where
  "demo_search = \<lparr>s_max_var = 4,
     s_vals = (\<lambda>l. if l = -3 \<or> l = 4 \<or> l = -1 then 1 else if l = 3 \<or> l = -4 \<or> l = 1 then -1 else 0),
     s_vtab = (\<lambda>v. if v = 3 then \<lparr>v_level = 1, v_trail = 0, v_reason = None\<rparr>
        else if v = 4 then \<lparr>v_level = 1, v_trail = 1, v_reason = Some 2\<rparr> else \<lparr>v_level = 2, v_trail = 2, v_reason = None\<rparr>),
     s_flags = (\<lambda>_. new_flags), s_trail = [-3, 4, -1],
     s_control = [mk_level 0 0, mk_level (-3) 0, mk_level (-1) 2], s_level = 2, s_propagated = 2, s_propagated2 = 2,
     s_no_conflict_until = 0, s_heap = (\<lambda>c. demo_clause (demo_cnf ! c)), s_next = 3, s_clauses = [0, 1, 2],
     s_watches = (\<lambda>l. if l = 1 then [\<lparr>w_clause = 0, w_blit = 2, w_size = 3\<rparr>, \<lparr>w_clause = 1, w_blit = -2, w_size = 2\<rparr>]
        else if l = 2 then [\<lparr>w_clause = 0, w_blit = 1, w_size = 3\<rparr>]
        else if l = -2 then [\<lparr>w_clause = 1, w_blit = 1, w_size = 2\<rparr>]
        else if l = 3 then [\<lparr>w_clause = 2, w_blit = 4, w_size = 2\<rparr>]
        else if l = 4 then [\<lparr>w_clause = 2, w_blit = 3, w_size = 2\<rparr>] else []),
     s_conflict = None, s_unsat = False, s_queue = queue_empty, s_scores = heap_empty, s_stab = (\<lambda>_. 0), s_score_inc = 1,
     s_phases = demo_phases, s_best = (\<lambda>_. 0), s_target_assigned = 0, s_best_assigned = 0, s_rephased = None,
     s_rephase_conflicts = 0, s_conflicts = 0, s_lucky = False, s_stable = True, s_assumptions = [], s_constraint = [],
     s_unsat_constraint = False, s_marked_failed = True, s_clause = [], s_analyzed = [], s_levels = [], s_minimized = [],
     s_gtab = (\<lambda>_. 0), s_recomputed = 0, s_eagertried = 0, s_iterating = False, s_proof = [], s_opts = demo_options\<rparr>"

definition demo_models :: "(nat \<Rightarrow> bool) set" where
  "demo_models = {a. \<forall>c \<in> set demo_cnf. cl_on a c}"

lemma demo_ent: "c < 3 \<Longrightarrow> ent demo_models (demo_cnf ! c)"
proof -
  assume "c < 3"
  then have "demo_cnf ! c \<in> set demo_cnf" by (intro nth_mem) (simp add: demo_cnf_def)
  then show ?thesis unfolding ent_def demo_models_def by blast
qed

lemma less_3: "(\<forall>i < (3::nat). P i) \<longleftrightarrow> P 0 \<and> P 1 \<and> P 2"
  by (auto simp: numeral_eq_Suc less_Suc_eq)

lemma less_4: "(\<forall>i < (4::nat). P i) \<longleftrightarrow> P 0 \<and> P 1 \<and> P 2 \<and> P 3"
  by (auto simp: numeral_eq_Suc less_Suc_eq)

lemma less_2: "(\<forall>i < (2::nat). P i) \<longleftrightarrow> P 0 \<and> P 1"
  by (auto simp: numeral_eq_Suc less_Suc_eq)

lemma upto_1: "(\<forall>k > 0. k \<le> (1::nat) \<longrightarrow> P k) \<longleftrightarrow> P 1"
  by (auto simp: le_Suc_eq)

lemma upto_2: "(\<forall>k > 0. k \<le> (2::nat) \<longrightarrow> P k) \<longleftrightarrow> P 1 \<and> P 2"
  by (auto simp: numeral_eq_Suc le_Suc_eq)

lemma demo_clauses_ok: "s_heap s = s_heap demo_search \<Longrightarrow> s_next s = 3 \<Longrightarrow> s_clauses s = [0, 1, 2] \<Longrightarrow> s_max_var s = 4 \<Longrightarrow> s_proof s = []
    \<Longrightarrow> \<not> s_unsat_constraint s \<Longrightarrow> clauses_ok demo_models s"
  unfolding clauses_ok_def clause_ok_on_def using demo_ent
  by (simp add: less_3 demo_search_def demo_clause_def lit_in_def) (simp add: demo_cnf_def)

lemma demo_search_ok: "search_ok demo_models demo_search"
proof -
  have v: "vals_ok demo_search" by (auto simp: vals_ok_def demo_search_def lit_in_def)
  have "length (s_trail demo_search) = 3" by (simp add: demo_search_def)
  then have t: "trail_ok demo_models demo_search"
    by (simp add: trail_ok_def less_3) (simp add: demo_search_def assigned_ok_def implied_by_def demo_clause_def demo_cnf_def mk_level_def)
  have c: "control_ok demo_search"
  proof -
    have l: "s_level demo_search = 2" "length (s_control demo_search) = 3" by (simp_all add: demo_search_def)
    show ?thesis unfolding control_ok_def l upto_2 upto_1 by (simp add: demo_search_def mk_level_def less_2)
  qed
  have w: "watches_good demo_search"
    by (auto simp: watches_good_def list_good_def watch_good_def Let_def demo_search_def demo_clause_def demo_cnf_def watch_binary_def large_def)
  have "plan_ok demo_search" by (simp add: plan_ok_def bounded_def demo_search_def demo_phases_def)
  then show ?thesis using v t c w demo_clauses_ok [of demo_search]
    by (simp add: search_ok_def graph_ok_def conflict_ok_def) (simp add: demo_search_def)
qed

text \<open>The state propagation ends in: clause 1 is false.\<close>

definition demo_conflict :: solver where
  "demo_conflict = demo_search\<lparr>s_trail := [-3, 4, -1, 2],
     s_vals := (\<lambda>l. if l = -3 \<or> l = 4 \<or> l = -1 \<or> l = 2 then 1 else if l = 3 \<or> l = -4 \<or> l = 1 \<or> l = -2 then -1 else 0),
     s_vtab := (\<lambda>v. if v = 3 then \<lparr>v_level = 1, v_trail = 0, v_reason = None\<rparr>
        else if v = 4 then \<lparr>v_level = 1, v_trail = 1, v_reason = Some 2\<rparr>
        else if v = 1 then \<lparr>v_level = 2, v_trail = 2, v_reason = None\<rparr>
        else \<lparr>v_level = 2, v_trail = 3, v_reason = Some 0\<rparr>), s_propagated := 3, s_conflict := Some 1\<rparr>"

lemma demo_conflict_ok: "at_conflict demo_models 1 demo_conflict"
proof -
  have l: "length (s_trail demo_conflict) = 4" "s_level demo_conflict = 2" "length (s_control demo_conflict) = 3"
    by (simp_all add: demo_conflict_def demo_search_def)
  have v: "vals_ok demo_conflict" by (auto simp: vals_ok_def demo_conflict_def demo_search_def lit_in_def)
  have t: "trail_ok demo_models demo_conflict" unfolding trail_ok_def l less_4
    by (simp add: demo_conflict_def demo_search_def assigned_ok_def implied_by_def demo_clause_def demo_cnf_def mk_level_def)
  have c: "control_ok demo_conflict" unfolding control_ok_def l upto_2 upto_1
    by (simp add: demo_conflict_def demo_search_def mk_level_def less_2)
  have "clauses_ok demo_models demo_conflict" by (rule demo_clauses_ok) (simp_all add: demo_conflict_def demo_search_def)
  moreover have "plan_ok demo_conflict" by (simp add: plan_ok_def bounded_def demo_conflict_def demo_search_def demo_phases_def)
  ultimately have "graph_ok demo_models demo_conflict" using v t c by (simp add: graph_ok_def)
  moreover have "fresh_analysis demo_conflict" by (simp add: fresh_analysis_def demo_conflict_def demo_search_def new_flags_def)
  ultimately show ?thesis
    by (simp add: at_conflict_def) (simp add: demo_conflict_def demo_search_def demo_clause_def demo_cnf_def demo_options_def)
qed

lemma bind_res_weak_cong: "x = y \<Longrightarrow> bind_res x f = bind_res y f"
  by simp

lemma demo_erased:
  "\<exists>u n g t. derive_clause True (\<lambda>v. v = 3 \<or> v = 4) 1 demo_conflict = Inr (u, n, g, t) \<and> s_clause t = [1]"
proof -
  note [cong] = bind_res_weak_cong let_weak_cong
  have "(case derive_clause True (\<lambda>v. v = 3 \<or> v = 4) 1 demo_conflict of Inl e \<Rightarrow> [] | Inr (u, n, g, t) \<Rightarrow> s_clause t) = [1]"
    unfolding demo_conflict_def demo_search_def derive_clause_def
    by (simp add: uip_loop.simps erase_aux.simps analyze_reason_def bump_clause_def upd_clause_def analyze_literal_def upd_flags_def Let_def
        demo_clause_def demo_cnf_def new_flags_def mk_level_def)
  then show ?thesis by (auto split: sum.splits prod.splits)
qed

section \<open>The properties\<close>

text \<open>C4. Propagation (\<open>Internal::propagate\<close>) is total and sound: from a state of the search it returns without
  an error or an access out of range, within a step for each variable; the trail only grows, at the same decision level;
  every model of the formula that agrees with the decisions satisfies the trail; values, watches, reasons and levels stay
  well formed; if there is no conflict then all literals are propagated, otherwise every literal of the conflict is false.
\<close>

theorem search_propagate_sound:
  assumes "search_ok M s" and "s_propagated s \<le> length (s_trail s)"
  shows "\<exists>t. search_propagate s = Inr (s_conflict t = None, t) \<and> search_ok M t \<and> trail_follows M t
    \<and> (\<exists>new. s_trail t = s_trail s @ new) \<and> s_level t = s_level s
    \<and> (s_conflict t = None \<longrightarrow> s_propagated t = length (s_trail t))
    \<and> (\<forall>c. s_conflict t = Some c \<longrightarrow> c < s_next t \<and> (\<forall>k \<in> set (lits t c). s_vals t k < 0))"
proof -
  from search_propagate_ok [OF assms] obtain t where t: "search_propagate s = Inr (s_conflict t = None, t)" "search_ok M t"
    "s_level t = s_level s" "\<exists>new. s_trail t = s_trail s @ new" "s_conflict t = None \<longrightarrow> s_propagated t = length (s_trail t)"
    by (elim exE conjE) (rule that; assumption?; blast)
  have g: "graph_ok M t" using t(2) by (simp add: search_ok_def)
  have "s_vals t k < 0" if c: "s_conflict t = Some c" and k: "k \<in> set (lits t c)" for c k
  proof -
    have kt: "- k \<in> set (s_trail t)" using t(2) c k by (simp add: search_ok_def conflict_ok_def)
    then have "k \<noteq> 0" using g by (auto simp: graph_ok_def vals_ok_def lit_in_def)
    then show ?thesis using vals_iff(2) [of t k] g kt by (simp add: graph_ok_def)
  qed
  moreover have "c < s_next t" if "s_conflict t = Some c" for c using t(2) that by (simp add: search_ok_def conflict_ok_def)
  ultimately show ?thesis
    by (intro exI [of _ t] conjI allI impI ballI) (assumption | rule t graph_trail_follows [OF g] | use t in blast)+
qed

theorem search_propagate_sound_witness:
  "\<exists>t. search_propagate demo_search = Inr (s_conflict t = None, t) \<and> search_ok demo_models t"
proof -
  have "s_propagated demo_search \<le> length (s_trail demo_search)" by (simp add: demo_search_def)
  from search_propagate_sound [OF demo_search_ok this] show ?thesis by blast
qed

text \<open>C5. The clause conflict analysis derives (\<open>analyze\<close> up to the driving clause, with or without minimization, and as
  compiled with \<open>UIPAUX\<close>) is found without a null reason or an access out of range, follows from the formula, is false, and
  has exactly one literal of the current decision level, the negated first unique implication point.  With \<open>UIPAUX\<close>,
  when no decision is an auxiliary variable, it has no auxiliary variable.
\<close>

theorem learned_clause_sound:
  assumes "at_conflict M c s" and "uipaux \<longrightarrow> no_aux_decision aux s"
  shows "\<exists>uip n glue t. derive_clause uipaux aux c s = Inr (uip, n, glue, t) \<and> ent M (s_clause t) \<and> distinct (s_clause t)
    \<and> (\<forall>k \<in> set (s_clause t). s_vals s k < 0) \<and> {k \<in> set (s_clause t). lev s k = s_level s} = {- uip}
    \<and> (uipaux \<longrightarrow> (\<forall>k \<in> set (s_clause t). \<not> aux (vidx k)))"
proof -
  from derive_clause_ok [OF assms(1), of uipaux aux] assms(2) obtain u n g t where
    t: "derive_clause uipaux aux c s = Inr (u, n, g, t)" "learnable M s u t" "uipaux \<longrightarrow> (\<forall>k \<in> set (s_clause t). \<not> aux (vidx k))" by blast
  have q: "quiet s t" and so: "seen_ok t" using t(2) by (simp_all add: learnable_def marking_def)
  note Q = quiet_fields [OF q]
  have g: "vals_ok s" using assms(1) by (simp add: at_conflict_def graph_ok_def)
  have "s_vals s k < 0" if "k \<in> set (s_clause t)" for k
  proof -
    have kt: "- k \<in> set (s_trail s)" using so that by (simp add: seen_ok_def Q)
    then have "k \<noteq> 0" using g by (auto simp: vals_ok_def lit_in_def)
    then show ?thesis using vals_iff(2) [OF g] kt by blast
  qed
  moreover have "distinct (s_clause t)" using so by (simp add: seen_ok_def)
  moreover have "{k \<in> set (s_clause t). lev s k = s_level s} = {- u}" using t(2) by (auto simp: learnable_def Q)
  moreover have "ent M (s_clause t)" using t(2) by (simp add: learnable_def)
  ultimately show ?thesis using t(1,3) by blast
qed

theorem learned_clause_sound_witness:
  "\<exists>uip n glue t. derive_clause True (\<lambda>v. v = 4) 1 demo_conflict = Inr (uip, n, glue, t) \<and> ent demo_models (s_clause t)"
proof -
  have "no_aux_decision (\<lambda>v. v = 4) demo_conflict" by (simp add: no_aux_decision_def demo_conflict_def demo_search_def)
  with learned_clause_sound [OF demo_conflict_ok, of True "\<lambda>v. v = 4"] show ?thesis by blast
qed

text \<open>C39. \<open>UIPAUX\<close> is unsound when an auxiliary variable is decided (as an assumption may): its literal is erased without a
  reason, and the clause learned need not follow from the formula.
\<close>

theorem uipaux_unsound:
  "\<exists>M c s aux uip n glue t. at_conflict M c s \<and> derive_clause True aux c s = Inr (uip, n, glue, t) \<and> \<not> ent M (s_clause t)"
proof -
  obtain u n g t where t: "derive_clause True (\<lambda>v. v = 3 \<or> v = 4) 1 demo_conflict = Inr (u, n, g, t)" "s_clause t = [1]"
    using demo_erased by blast
  have "(\<lambda>v. v = 3) \<in> demo_models" by (simp add: demo_models_def demo_cnf_def cl_on_def lit_on_def)
  moreover have "\<not> cl_on (\<lambda>v. v = 3) [1]" by (simp add: cl_on_def lit_on_def)
  ultimately have "\<not> ent demo_models [1]" unfolding ent_def by blast
  then have "\<not> ent demo_models (s_clause t)" by (simp only: t(2) not_False_eq_True)
  then show ?thesis by (intro exI conjI) (rule demo_conflict_ok, rule t(1))
qed

end
