(* ===== verification/Search_Decider.thy ===== *)
theory Search_Decider
  imports Search_Theorems
begin

text \<open>
  The decision structures during the search: the queue lists all variables, the heap is ordered and has
  every unassigned variable.  Assigning, backtracking and bumping keep this; with it backtracking and
  bumping are total.
\<close>

section \<open>The invariant\<close>

abbreviation assigned_in :: "solver \<Rightarrow> nat \<Rightarrow> bool" where "assigned_in s \<equiv> (\<lambda>i. s_vals s (int i) \<noteq> 0)"

definition scores_ok :: "solver \<Rightarrow> bool" where
  "scores_ok s \<longleftrightarrow> score_heap (s_stab s) (s_scores s) \<and> set (hp_array (s_scores s)) \<subseteq> {1 .. s_max_var s}
     \<and> 0 < s_score_inc s \<and> 0 < o_scorefactor (s_opts s)"

definition decider_ok :: "solver \<Rightarrow> bool" where
  "decider_ok s \<longleftrightarrow> scores_ok s \<and> (\<forall>v \<in> {1 .. s_max_var s}. \<not> assigned_in s v \<longrightarrow> v \<in> set (hp_array (s_scores s)))
     \<and> (\<exists>xs. queue_ok (assigned_in s) (s_queue s) xs \<and> mset xs = mset [1 ..< s_max_var s + 1])"

text \<open>The part of the state the invariant depends on.\<close>

definition same_decider :: "solver \<Rightarrow> solver \<Rightarrow> bool" where
  "same_decider s t \<longleftrightarrow> s_max_var t = s_max_var s \<and> s_queue t = s_queue s \<and> s_scores t = s_scores s \<and> s_stab t = s_stab s
     \<and> s_score_inc t = s_score_inc s \<and> s_opts t = s_opts s"

lemma same_decider_refl [simp]: "same_decider s s"
  by (simp add: same_decider_def)

lemma same_decider_trans: "same_decider s t \<Longrightarrow> same_decider t u \<Longrightarrow> same_decider s u"
  by (simp add: same_decider_def)

lemma decider_assigned:
  assumes "decider_ok s" and "same_decider s t" and "\<And>v. assigned_in s v \<Longrightarrow> assigned_in t v"
  shows "decider_ok t"
proof -
  obtain xs where "queue_ok (assigned_in s) (s_queue s) xs" "mset xs = mset [1 ..< s_max_var s + 1]"
    using assms(1) by (auto simp: decider_ok_def)
  moreover from queue_assign_ok [OF this(1), of "assigned_in t"] have "queue_ok (assigned_in t) (s_queue s) xs" using assms(3) by blast
  ultimately show ?thesis using assms by (auto simp: decider_ok_def scores_ok_def same_decider_def)
qed

lemma quiet_decider: "quiet s t \<Longrightarrow> same_decider s t"
  by (simp add: quiet_def same_graph_def same_decider_def)

lemma quiet_decider_ok: "quiet s t \<Longrightarrow> decider_ok s \<Longrightarrow> decider_ok t"
  by (rule decider_assigned [OF _ quiet_decider]) (simp_all add: quiet_def same_graph_def)

lemma decider_same_vals: "decider_ok s \<Longrightarrow> same_decider s t \<Longrightarrow> s_vals t = s_vals s \<Longrightarrow> decider_ok t"
  by (rule decider_assigned) simp_all

lemma var_in_queue: "mset xs = mset [1 ..< n + 1] \<Longrightarrow> v \<in> {1 .. n} \<longleftrightarrow> v \<in> set xs"
  using mset_eq_setD [of xs "[1 ..< n + 1]"] by auto

section \<open>Unassigning\<close>

lemma unassign_lit_ok:
  assumes d: "decider_ok s" and l: "vidx lit \<in> {1 .. s_max_var s}"
  shows "\<exists>t. unassign_lit lit s = Inr t \<and> decider_ok t \<and> s_max_var t = s_max_var s \<and> s_vtab t = s_vtab s"
proof -
  let ?i = "vidx lit" and ?h = "s_scores s"
  have sc: "scores_ok s" and sh: "score_heap (s_stab s) ?h" and sub: "set (hp_array ?h) \<subseteq> {1 .. s_max_var s}"
    and all: "\<forall>v \<in> {1 .. s_max_var s}. \<not> assigned_in s v \<longrightarrow> v \<in> set (hp_array ?h)"
    using d by (simp_all add: decider_ok_def scores_ok_def)
  obtain xs where xs: "queue_ok (assigned_in s) (s_queue s) xs" "mset xs = mset [1 ..< s_max_var s + 1]"
    using d by (auto simp: decider_ok_def)
  have "\<exists>h. (if heap_contains ?h ?i then Inr ?h else heap_push_back (score_smaller (s_stab s)) ?i ?h) = Inr h
    \<and> score_heap (s_stab s) h \<and> set (hp_array h) = insert ?i (set (hp_array ?h))"
  proof (cases "?i \<in> set (hp_array ?h)")
    case True
    with sh show ?thesis using pos_contains [of ?h ?i] by (auto simp: score_heap_def)
  next
    case False
    have "\<not> heap_contains ?h ?i" using False sh pos_contains [of ?h ?i] by (simp add: score_heap_def)
    moreover from score_push [OF sh False] obtain h where h: "heap_push_back (score_smaller (s_stab s)) ?i ?h = Inr h"
      "score_heap (s_stab s) h" "mset (hp_array h) = add_mset ?i (mset (hp_array ?h))" by blast
    moreover have "set (hp_array h) = insert ?i (set (hp_array ?h))" using arg_cong [OF h(3), of set_mset] by simp
    ultimately show ?thesis by simp
  qed
  then obtain h where h: "(if heap_contains ?h ?i then Inr ?h else heap_push_back (score_smaller (s_stab s)) ?i ?h) = Inr h"
    "score_heap (s_stab s) h" "set (hp_array h) = insert ?i (set (hp_array ?h))" by blast
  let ?t = "s\<lparr>s_vals := (s_vals s)(int ?i := 0, - int ?i := 0), s_scores := h, s_queue := queue_unassign ?i (s_queue s)\<rparr>"
  have run: "unassign_lit lit s = Inr ?t" using h(1) by (cases "heap_contains ?h ?i") (simp_all add: unassign_lit_def Let_def)
  have "?i \<in> set xs" using var_in_queue [OF xs(2)] l by blast
  from queue_unassign_ok [OF xs(1) this] have q: "queue_ok (\<lambda>y. y \<noteq> ?i \<and> assigned_in s y) (queue_unassign ?i (s_queue s)) xs" .
  have as: "assigned_in ?t = (\<lambda>y. y \<noteq> ?i \<and> assigned_in s y)" by (rule ext) auto
  have "decider_ok ?t"
    unfolding decider_ok_def as using sc h(2,3) sub l all q xs(2) by (auto simp: scores_ok_def)
  with run show ?thesis by auto
qed

lemma unassign_loop_ok:
  assumes "decider_ok s" and "\<forall>l \<in> set ls. vidx l \<in> {1 .. s_max_var s}"
  shows "\<exists>j' ks t. unassign_loop n j ls s = Inr (j', ks, t) \<and> decider_ok t"
  using assms
proof (induction ls arbitrary: j s)
  case Nil
  then show ?case by simp
next
  case (Cons l ls)
  show ?case
  proof (cases "v_level (s_vtab s (vidx l)) > n")
    case True
    from unassign_lit_ok [OF Cons.prems(1), of l] Cons.prems(2) obtain u where
      u: "unassign_lit l s = Inr u" "decider_ok u" "s_max_var u = s_max_var s" by auto
    with True Cons.IH [OF u(2), of j] Cons.prems(2) show ?thesis by auto
  next
    case False
    let ?s = "s\<lparr>s_vtab := (s_vtab s)(vidx l := (s_vtab s (vidx l))\<lparr>v_trail := j\<rparr>)\<rparr>"
    have "decider_ok ?s" by (rule decider_same_vals [OF Cons.prems(1)]) (simp_all add: same_decider_def)
    from Cons.IH [OF this, of "j + 1"] Cons.prems(2) False show ?thesis by auto
  qed
qed

section \<open>Backtracking\<close>

lemma trail_vars: "vals_ok s \<Longrightarrow> l \<in> set (s_trail s) \<Longrightarrow> vidx l \<in> {1 .. s_max_var s}"
  by (auto simp: vals_ok_def lit_in_def)

lemma update_target_decider: "decider_ok s \<Longrightarrow> decider_ok (update_target_and_best s)"
  by (erule decider_same_vals) (simp_all add: same_decider_def update_target_and_best_def Let_def)

text \<open>Backtracking to a level the solver has is total.\<close>

lemma backtrack_ok:
  assumes g: "graph_ok M s" and d: "decider_ok s" and n: "n < s_level s"
  shows "\<exists>t. backtrack_to n s = Inr t \<and> graph_ok M t \<and> decider_ok t \<and> backtracked n s t"
proof -
  have v: "vals_ok s" and len: "length (s_control s) = s_level s + 1" using g by (simp_all add: graph_ok_def control_ok_def)
  let ?s = "update_target_and_best s" and ?a = "l_trail (s_control s ! (n + 1))"
  have "\<forall>l \<in> set (drop ?a (s_trail s)). vidx l \<in> {1 .. s_max_var ?s}"
    using trail_vars [OF v] by (auto dest: in_set_dropD)
  from unassign_loop_ok [OF update_target_decider [OF d] this, of n ?a] obtain j ks u where
    u: "unassign_loop n ?a (drop ?a (s_trail s)) ?s = Inr (j, ks, u)" "decider_ok u" by blast
  obtain t where t: "backtrack_to n s = Inr t" "same_decider u t" "s_vals t = s_vals u"
    using u(1) n len by (auto simp: backtrack_to_def Let_def same_decider_def)
  from backtrack_graph_ok [OF g t(1) n] decider_same_vals [OF u(2) t(2,3)] t(1) show ?thesis by blast
qed

section \<open>Bumping\<close>

text \<open>Bumping touches the decision structures only.\<close>

definition bumps :: "solver \<Rightarrow> solver \<Rightarrow> bool" where
  "bumps s t \<longleftrightarrow> (\<exists>Q H S I. t = s\<lparr>s_queue := Q, s_scores := H, s_stab := S, s_score_inc := I\<rparr>)"

lemma bumpsI: "t = s\<lparr>s_queue := Q, s_scores := H, s_stab := S, s_score_inc := I\<rparr> \<Longrightarrow> bumps s t"
  unfolding bumps_def by blast

lemma bumps_refl [simp]: "bumps s s"
  by (rule bumpsI [where Q = "s_queue s" and H = "s_scores s" and S = "s_stab s" and I = "s_score_inc s"]) simp

lemma bumps_trans: "bumps s t \<Longrightarrow> bumps t u \<Longrightarrow> bumps s u"
  unfolding bumps_def by fastforce

lemma bumps_fields:
  assumes "bumps s t"
  shows "s_vals t = s_vals s" "s_max_var t = s_max_var s" "s_flags t = s_flags s" "s_clause t = s_clause s"
    "s_analyzed t = s_analyzed s" "s_opts t = s_opts s" "s_stable t = s_stable s" "s_levels t = s_levels s"
    "s_minimized t = s_minimized s"
  using assms by (auto simp: bumps_def)

lemma score_heap_order:
  assumes "score_heap stab h" and "\<And>x y. x \<in> set (hp_array h) \<Longrightarrow> y \<in> set (hp_array h) \<Longrightarrow> score_smaller stab' x y = score_smaller stab x y"
  shows "score_heap stab' h"
proof -
  have "edge (score_smaller stab') (hp_array h) k = edge (score_smaller stab) (hp_array h) k"
    if "0 < k" "k < length (hp_array h)" for k
    using assms(2) [of "hp_array h ! par k" "hp_array h ! k"] that par_less [of k] by (simp add: edge_def)
  with assms(1) show ?thesis by (simp add: score_heap_def heap_ordered_def)
qed

lemma divider_ge: "(r :: rat) \<le> fold (\<lambda>idx d. if f idx > d then f idx else d) xs r"
proof (induction xs arbitrary: r)
  case (Cons x xs)
  have "r \<le> (if f x > r then f x else r)" by simp
  with Cons.IH [of "if f x > r then f x else r"] show ?case by simp
qed simp

lemma rescale_ok:
  assumes "scores_ok s"
  shows "scores_ok (rescale_variable_scores s)" "bumps s (rescale_variable_scores s)"
    "s_scores (rescale_variable_scores s) = s_scores s" "s_queue (rescale_variable_scores s) = s_queue s"
proof -
  define d where "d = fold (\<lambda>idx d. if s_stab s idx > d then s_stab s idx else d) [1 ..< s_max_var s + 1] (s_score_inc s)"
  have "s_score_inc s \<le> d" unfolding d_def by (rule divider_ge)
  then have d: "0 < d" using assms by (auto simp: scores_ok_def)
  let ?stab = "\<lambda>i. if 1 \<le> i \<and> i \<le> s_max_var s then s_stab s i * (1 / d) else s_stab s i"
  have r: "rescale_variable_scores s = s\<lparr>s_stab := ?stab, s_score_inc := s_score_inc s * (1 / d)\<rparr>"
    unfolding rescale_variable_scores_def Let_def d_def by (rule refl)
  have "score_heap ?stab (s_scores s)"
  proof (rule score_heap_order)
    show "score_heap (s_stab s) (s_scores s)" using assms by (simp add: scores_ok_def)
    fix x y assume "x \<in> set (hp_array (s_scores s))" "y \<in> set (hp_array (s_scores s))"
    then have "x \<in> {1 .. s_max_var s}" "y \<in> {1 .. s_max_var s}" using assms unfolding scores_ok_def by blast+
    then have "?stab x = s_stab s x / d" "?stab y = s_stab s y / d" by simp_all
    then show "score_smaller ?stab x y = score_smaller (s_stab s) x y"
      using d by (simp only: score_smaller_def Let_def divide_less_cancel) simp
  qed
  then show "scores_ok (rescale_variable_scores s)" using assms d by (simp add: scores_ok_def r)
  show "bumps s (rescale_variable_scores s)"
    by (rule bumpsI [where Q = "s_queue s" and H = "s_scores s" and S = ?stab and I = "s_score_inc s * (1 / d)"]) (simp add: r)
qed (simp_all add: rescale_variable_scores_def Let_def)

lemma decider_rescale: "decider_ok s \<Longrightarrow> decider_ok (rescale_variable_scores s)"
  using rescale_ok [of s] bumps_fields(1,2) [of s "rescale_variable_scores s"] by (simp add: decider_ok_def)

lemma bump_score_ok:
  assumes d: "decider_ok s" and l: "vidx lit \<in> {1 .. s_max_var s}"
  shows "\<exists>t. bump_variable_score lit s = Inr t \<and> decider_ok t \<and> bumps s t"
proof -
  define u where "u = (if evsids_limit_hit (s_stab s (vidx lit) + s_score_inc s) then rescale_variable_scores s else s)"
  have u: "decider_ok u" "bumps s u" using d decider_rescale rescale_ok(2) by (auto simp: u_def decider_ok_def)
  define n where "n = s_stab u (vidx lit) + s_score_inc u"
  let ?i = "vidx lit" and ?stab = "(s_stab u)(vidx lit := n)" and ?h = "s_scores u"
  have run: "bump_variable_score lit s = (if heap_contains ?h ?i
      then bind_res (heap_update (score_smaller ?stab) ?i ?h) (\<lambda>h. Inr (u\<lparr>s_stab := ?stab, s_scores := h\<rparr>)) else Inr (u\<lparr>s_stab := ?stab\<rparr>))"
    by (simp add: bump_variable_score_def Let_def u_def n_def)
  have sc: "scores_ok u" "score_heap (s_stab u) ?h" using u(1) by (simp_all add: decider_ok_def scores_ok_def)
  have ok: "decider_ok (u\<lparr>s_stab := ?stab, s_scores := h\<rparr>)" if "score_heap ?stab h" "set (hp_array h) = set (hp_array ?h)" for h
    using u(1) that by (simp add: decider_ok_def scores_ok_def)
  have bu: "bumps s (u\<lparr>s_stab := ?stab, s_scores := h\<rparr>)" for h
    by (rule bumps_trans [OF u(2)], rule bumpsI [where Q = "s_queue u" and H = h and S = ?stab and I = "s_score_inc u"]) simp
  show ?thesis
  proof (cases "?i \<in> set (hp_array ?h)")
    case True
    then have "heap_contains ?h ?i" using sc(2) pos_contains [of ?h ?i] by (simp add: score_heap_def)
    moreover from score_update [OF sc(2) True, of n] obtain h where h: "heap_update (score_smaller ?stab) ?i ?h = Inr h" "score_heap ?stab h"
      "mset (hp_array h) = mset (hp_array ?h)" by blast
    ultimately show ?thesis using run ok [OF h(2) mset_eq_setD [OF h(3)]] bu by simp
  next
    case False
    then have "\<not> heap_contains ?h ?i" using sc(2) pos_contains [of ?h ?i] by (simp add: score_heap_def)
    moreover have "score_heap ?stab ?h" by (rule score_heap_cong [OF sc(2)]) (use False in auto)
    ultimately show ?thesis using run ok [of ?h] bu [of ?h] by simp
  qed
qed

lemma bump_variable_ok:
  assumes d: "decider_ok s" and l: "vidx lit \<in> {1 .. s_max_var s}"
  shows "\<exists>t. bump_variable lit s = Inr t \<and> decider_ok t \<and> bumps s t"
proof (cases "use_scores s")
  case True
  with bump_score_ok [OF assms] show ?thesis by (simp add: bump_variable_def)
next
  case False
  let ?t = "bump_variable_queue lit s"
  obtain xs where xs: "queue_ok (assigned_in s) (s_queue s) xs" "mset xs = mset [1 ..< s_max_var s + 1]"
    using d by (auto simp: decider_ok_def)
  have x: "vidx lit \<in> set xs" using var_in_queue [OF xs(2)] l by blast
  have "mset (remove1 (vidx lit) xs @ [vidx lit]) = mset xs" using x by simp
  with bump_queue_ok [OF xs(1) x] xs(2) have "\<exists>ys. queue_ok (assigned_in ?t) (s_queue ?t) ys \<and> mset ys = mset [1 ..< s_max_var ?t + 1]"
    by (auto simp: bump_variable_queue_def)
  then have "decider_ok ?t" using d by (simp add: decider_ok_def scores_ok_def bump_variable_queue_def)
  moreover have "bumps s ?t"
    by (rule bumpsI [where Q = "s_queue ?t" and H = "s_scores s" and S = "s_stab s" and I = "s_score_inc s"]) (simp add: bump_variable_queue_def)
  ultimately show ?thesis using False by (simp add: bump_variable_def)
qed

lemma bump_list_ok:
  assumes "decider_ok s" and "\<forall>l \<in> set ls. vidx l \<in> {1 .. s_max_var s}"
  shows "\<exists>t. fold_res (\<lambda>lit s. if branchaux \<and> aux (vidx lit) then Inr s else bump_variable lit s) ls s = Inr t \<and> decider_ok t \<and> bumps s t"
  using assms
proof (induction ls arbitrary: s)
  case (Cons l ls)
  have "\<exists>u. (if branchaux \<and> aux (vidx l) then Inr s else bump_variable l s) = Inr u \<and> decider_ok u \<and> bumps s u"
    using bump_variable_ok [OF Cons.prems(1), of l] Cons.prems by auto
  then obtain u where u: "(if branchaux \<and> aux (vidx l) then Inr s else bump_variable l s) = Inr u" "decider_ok u" "bumps s u" by blast
  with Cons.IH [OF u(2)] Cons.prems(2) bumps_fields(2) [OF u(3)] obtain t where
    "fold_res (\<lambda>lit s. if branchaux \<and> aux (vidx lit) then Inr s else bump_variable lit s) ls u = Inr t" "decider_ok t" "bumps u t" by auto
  with u bumps_trans [OF u(3)] show ?case by auto
qed simp

lemma bump_inc_ok:
  assumes "decider_ok s"
  shows "decider_ok (bump_variable_score_inc s)" "bumps s (bump_variable_score_inc s)"
proof -
  define f :: rat where "f = 1000 / of_nat (o_scorefactor (s_opts s))"
  define u where "u = (if evsids_limit_hit (s_score_inc s * f) then rescale_variable_scores s else s)"
  have u: "decider_ok u" "bumps s u" using assms decider_rescale rescale_ok(2) by (auto simp: u_def decider_ok_def)
  have f: "0 < f" using assms by (simp add: f_def decider_ok_def scores_ok_def)
  have r: "bump_variable_score_inc s = u\<lparr>s_score_inc := s_score_inc u * f\<rparr>"
    by (simp add: bump_variable_score_inc_def Let_def u_def f_def)
  show "decider_ok (bump_variable_score_inc s)" using u(1) f by (simp add: r decider_ok_def scores_ok_def)
  show "bumps s (bump_variable_score_inc s)" unfolding r
    by (rule bumps_trans [OF u(2)], rule bumpsI [where Q = "s_queue u" and H = "s_scores u" and S = "s_stab u" and I = "s_score_inc u * f"]) simp
qed

end
