(* ===== verification/Search_Bump.thy ===== *)
theory Search_Bump
  imports Search_Decider
begin

text \<open>
  Bumping after a conflict: the reason literals are marked as well, and all of \<open>bump_variables\<close> is total.
\<close>

section \<open>Marking reason literals\<close>

text \<open>The literals marked are exactly those in \<open>analyzed\<close>.\<close>

definition marked_exact :: "solver \<Rightarrow> bool" where
  "marked_exact s \<longleftrightarrow> (\<forall>v. f_seen (s_flags s v) \<longleftrightarrow> v \<in> vidx ` set (s_analyzed s)) \<and> (\<forall>k \<in> set (s_analyzed s). lit_in s k)"

definition reveals :: "solver \<Rightarrow> solver \<Rightarrow> bool" where
  "reveals s t \<longleftrightarrow> (\<exists>F A. t = s\<lparr>s_flags := F, s_analyzed := A\<rparr>
     \<and> (\<forall>v. f_keep (F v) = f_keep (s_flags s v) \<and> f_poison (F v) = f_poison (s_flags s v) \<and> f_removable (F v) = f_removable (s_flags s v)))"

lemma revealsI:
  assumes "t = s\<lparr>s_flags := F, s_analyzed := A\<rparr>"
    and "\<And>v. f_keep (F v) = f_keep (s_flags s v) \<and> f_poison (F v) = f_poison (s_flags s v) \<and> f_removable (F v) = f_removable (s_flags s v)"
  shows "reveals s t"
  unfolding reveals_def using assms by blast

lemma reveals_refl [simp]: "reveals s s"
  by (rule revealsI [where F = "s_flags s" and A = "s_analyzed s"]) simp_all

lemma reveals_trans: "reveals s t \<Longrightarrow> reveals t u \<Longrightarrow> reveals s u"
  unfolding reveals_def by fastforce

lemma reveals_fields:
  assumes "reveals s t"
  shows "quiet s t" "same_decider s t" "s_vals t = s_vals s" "s_clause t = s_clause s" "s_levels t = s_levels s"
    "s_minimized t = s_minimized s" "s_max_var t = s_max_var s" "s_trail t = s_trail s" "s_opts t = s_opts s"
    "s_vtab t = s_vtab s" "s_stable t = s_stable s" "s_heap t = s_heap s" "s_control t = s_control s"
    "f_keep (s_flags t v) = f_keep (s_flags s v)" "f_poison (s_flags t v) = f_poison (s_flags s v)"
    "f_removable (s_flags t v) = f_removable (s_flags s v)"
proof -
  obtain F A where t: "t = s\<lparr>s_flags := F, s_analyzed := A\<rparr>"
    and F: "\<And>v. f_keep (F v) = f_keep (s_flags s v) \<and> f_poison (F v) = f_poison (s_flags s v) \<and> f_removable (F v) = f_removable (s_flags s v)"
    using assms unfolding reveals_def by blast
  show "quiet s t" "same_decider s t" by (simp_all add: t quiet_def same_graph_def same_decider_def)
  show "f_keep (s_flags t v) = f_keep (s_flags s v)" "f_poison (s_flags t v) = f_poison (s_flags s v)"
    "f_removable (s_flags t v) = f_removable (s_flags s v)" using F [of v] by (simp_all add: t)
qed (use assms in \<open>auto simp: reveals_def\<close>)

lemma reveals_graph: "reveals s t \<Longrightarrow> graph_ok M s \<Longrightarrow> graph_ok M t"
  using reveals_fields(1) [of s t] same_graph_ok [of s t] by (simp add: quiet_def)

lemma bump_also_one:
  assumes "marked_exact s" and "lit_in s k" and "bump_also_reason_literal k s = (b, t)"
  shows "marked_exact t \<and> reveals s t"
proof (cases "f_seen (s_flags s (vidx k)) \<or> v_level (s_vtab s (vidx k)) = 0")
  case True
  with assms show ?thesis by (auto simp: bump_also_reason_literal_def split: if_splits)
next
  case False
  then have t: "t = s\<lparr>s_flags := (s_flags s)(vidx k := (s_flags s (vidx k))\<lparr>f_seen := True\<rparr>), s_analyzed := s_analyzed s @ [k]\<rparr>"
    using assms(3) by (simp add: bump_also_reason_literal_def upd_flags_def)
  have "reveals s t"
    by (rule revealsI [where F = "(s_flags s)(vidx k := (s_flags s (vidx k))\<lparr>f_seen := True\<rparr>)" and A = "s_analyzed s @ [k]"])
      (simp_all add: t)
  moreover have "marked_exact t" using assms(1,2) by (auto simp: marked_exact_def t lit_in_def)
  ultimately show ?thesis by blast
qed

lemma bump_also_ok:
  assumes g: "graph_ok M s0"
  shows "reveals s0 s \<Longrightarrow> marked_exact s \<Longrightarrow> lit \<in> set (s_trail s0)
    \<Longrightarrow> marked_exact (bump_also_reason_literals n lit s) \<and> reveals s0 (bump_also_reason_literals n lit s)"
proof (induction n arbitrary: lit s)
  case 0
  then show ?case by simp
next
  case (Suc n)
  note R = reveals_fields [OF Suc.prems(1)]
  show ?case
  proof (cases "v_level (s_vtab s (vidx lit)) = 0 \<or> rsn s lit = None")
    case True
    with Suc.prems show ?thesis by auto
  next
    case False
    then obtain c where c: "rsn s lit = Some c" by blast
    obtain p where p: "p < length (s_trail s0)" "s_trail s0 ! p = lit" using Suc.prems(3) by (auto simp: in_set_conv_nth)
    have other: "- k \<in> set (s_trail s0)" if "k \<in> set (lits s0 c)" "k \<noteq> lit" for k
      using reason_at(1) [OF g p(1)] p(2) c that by (auto simp: R implied_by_def dest: in_set_takeD)
    let ?f = "\<lambda>other s. if other = lit then s else case bump_also_reason_literal other s of (b, s) \<Rightarrow>
        if b \<and> \<not> Suc n < 2 then bump_also_reason_literals n (- other) s else s"
    have one: "marked_exact (?f k u) \<and> reveals s0 (?f k u)" if u: "reveals s0 u" "marked_exact u" and k: "k \<in> set (lits s0 c)" for k u
    proof (cases "k = lit")
      case True
      with u show ?thesis by simp
    next
      case False
      obtain b w where w: "bump_also_reason_literal k u = (b, w)" by (cases "bump_also_reason_literal k u")
      have kt: "- k \<in> set (s_trail s0)" using other [OF k False] .
      then have "lit_in s0 (- k)" using g by (simp add: graph_ok_def vals_ok_def)
      then have "lit_in u k" by (simp add: lit_in_def reveals_fields [OF u(1)])
      from bump_also_one [OF u(2) this w] have "marked_exact w" "reveals s0 w" using reveals_trans [OF u(1)] by blast+
      with Suc.IH [OF _ _ kt, of w] False w show ?thesis by auto
    qed
    have "marked_exact (fold ?f ks u) \<and> reveals s0 (fold ?f ks u)"
      if "reveals s0 u" "marked_exact u" "set ks \<subseteq> set (lits s0 c)" for ks u
      using that
    proof (induction ks arbitrary: u)
      case (Cons k ks)
      from one [OF Cons.prems(1,2)] Cons.prems(3) Cons.IH [of "?f k u"] show ?case by simp
    qed simp
    from this [OF Suc.prems(1,2), of "lits s0 c"] c False show ?thesis by (simp add: R)
  qed
qed

lemma bump_also_all_ok:
  assumes "graph_ok M s" and "marked_exact s" and "\<forall>k \<in> set (s_clause s). - k \<in> set (s_trail s)"
  shows "marked_exact (bump_also_all_reason_literals s) \<and> reveals s (bump_also_all_reason_literals s)"
proof -
  let ?f = "\<lambda>lit. bump_also_reason_literals (o_bumpreasondepth (s_opts s) + (if s_stable s then 1 else 0)) (- lit)"
  have "marked_exact (fold ?f ks u) \<and> reveals s (fold ?f ks u)" if "reveals s u" "marked_exact u" "\<forall>k \<in> set ks. - k \<in> set (s_trail s)" for ks u
    using that
  proof (induction ks arbitrary: u)
    case (Cons k ks)
    from bump_also_ok [OF assms(1) Cons.prems(1,2), of "- k"] Cons.prems(3) Cons.IH [of "?f k u"] show ?case by simp
  qed simp
  from this [OF reveals_refl assms(2,3)] show ?thesis by (simp only: bump_also_all_reason_literals_def)
qed

section \<open>All bumps\<close>

text \<open>What \<open>bump_variables\<close> may change.\<close>

definition bump_all :: "solver \<Rightarrow> solver \<Rightarrow> bool" where
  "bump_all s t \<longleftrightarrow> (\<exists>u. reveals s u \<and> bumps u t)"

lemma bump_all_fields:
  assumes "bump_all s t"
  shows "quiet s (t\<lparr>s_queue := s_queue s, s_scores := s_scores s, s_stab := s_stab s, s_score_inc := s_score_inc s\<rparr>)" "s_vals t = s_vals s" "s_clause t = s_clause s" "s_levels t = s_levels s" "s_minimized t = s_minimized s"
    "f_keep (s_flags t v) = f_keep (s_flags s v)" "f_poison (s_flags t v) = f_poison (s_flags s v)"
    "f_removable (s_flags t v) = f_removable (s_flags s v)"
proof -
  obtain u where u: "reveals s u" "bumps u t" using assms by (auto simp: bump_all_def)
  note R = reveals_fields [OF u(1)] and B = bumps_fields [OF u(2)]
  from u(2) have "t\<lparr>s_queue := s_queue s, s_scores := s_scores s, s_stab := s_stab s, s_score_inc := s_score_inc s\<rparr> = u"
    using R(2) by (auto simp: bumps_def same_decider_def)
  with R(1) show "quiet s (t\<lparr>s_queue := s_queue s, s_scores := s_scores s, s_stab := s_stab s, s_score_inc := s_score_inc s\<rparr>)" by simp
  show "s_vals t = s_vals s" "s_clause t = s_clause s" "s_levels t = s_levels s" "s_minimized t = s_minimized s"
    "f_keep (s_flags t v) = f_keep (s_flags s v)" "f_poison (s_flags t v) = f_poison (s_flags s v)"
    "f_removable (s_flags t v) = f_removable (s_flags s v)" by (simp_all add: R B)
qed

lemma bump_variables_ok:
  assumes g: "graph_ok M s" and d: "decider_ok s" and m: "marked_exact s" and c: "\<forall>k \<in> set (s_clause s). - k \<in> set (s_trail s)"
  shows "\<exists>t. bump_variables branchaux aux s = Inr t \<and> decider_ok t \<and> marked_exact t \<and> bump_all s t"
proof -
  define s1 where "s1 = (if o_bumpreason (s_opts s) then bump_also_all_reason_literals s else s)"
  define s2 where "s2 = (if \<not> use_scores s1 then s1\<lparr>s_analyzed := sort_key (\<lambda>l. q_btab (s_queue s1) (vidx l)) (s_analyzed s1)\<rparr> else s1)"
  have s1: "marked_exact s1" "reveals s s1" using bump_also_all_ok [OF g m c] m by (auto simp: s1_def)
  have "reveals s1 (s1\<lparr>s_analyzed := A\<rparr>)" for A
    by (rule revealsI [where F = "s_flags s1" and A = A]) simp_all
  then have s2: "reveals s s2" using s1(2) reveals_trans [OF s1(2)] by (simp add: s2_def)
  have m2: "marked_exact s2" using s1(1) by (simp add: s2_def marked_exact_def lit_in_def)
  note R = reveals_fields [OF s2]
  have d2: "decider_ok s2" by (rule decider_same_vals [OF d R(2,3)])
  have range: "\<forall>l \<in> set (s_analyzed s2). vidx l \<in> {1 .. s_max_var s2}" using m2 by (auto simp: marked_exact_def lit_in_def)
  obtain t where t: "fold_res (\<lambda>lit s. if branchaux \<and> aux (vidx lit) then Inr s else bump_variable lit s) (s_analyzed s2) s2 = Inr t"
    "decider_ok t" "bumps s2 t" using bump_list_ok [OF d2 range, of branchaux aux] by blast
  define u where "u = (if use_scores t then bump_variable_score_inc t else t)"
  have u: "decider_ok u" "bumps s2 u" using t(2,3) bump_inc_ok [OF t(2)] bumps_trans [OF t(3)] by (simp_all add: u_def)
  have run: "bump_variables branchaux aux s = Inr u"
    unfolding bump_variables_def Let_def s1_def [symmetric] s2_def [symmetric] by (simp add: t(1) u_def)
  have "marked_exact u" using m2 bumps_fields [OF u(2)] by (simp add: marked_exact_def lit_in_def)
  with run u s2 show ?thesis unfolding bump_all_def by blast
qed

end
