(* ===== verification/Search_Conflict.thy ===== *)
theory Search_Conflict
  imports Search_Bump
begin

text \<open>
  The conflict level under chronological backtracking (\<open>find_conflict_level\<close>): the highest level in the
  conflict and whether one literal alone is on it; the literals of the conflict are moved without harm to the
  invariant.
\<close>

section \<open>The highest level\<close>

definition count_level :: "solver \<Rightarrow> nat \<Rightarrow> int list \<Rightarrow> nat" where
  "count_level s r ks = length (filter (\<lambda>k. lev s k = r) ks)"

lemma count_level_simps [simp]:
  "count_level s r [] = 0" "count_level s r (k # ks) = (if lev s k = r then 1 else 0) + count_level s r ks"
  "count_level s r (ks @ ls) = count_level s r ks + count_level s r ls"
  by (simp_all add: count_level_def)

lemma count_level_0: "(\<forall>k \<in> set ks. lev s k < r) \<Longrightarrow> count_level s r ks = 0"
  by (induction ks) auto

text \<open>The result \<open>(r, forced, n)\<close> for the literals \<open>ks\<close>; \<open>n\<close> may be too small when it is above 1.\<close>

definition level_of :: "solver \<Rightarrow> int list \<Rightarrow> nat \<times> int \<times> nat \<Rightarrow> bool" where
  "level_of s ks = (\<lambda>(r, forced, n). (\<forall>k \<in> set ks. lev s k \<le> r) \<and> (r = 0 \<longrightarrow> forced = 0)
     \<and> (0 < r \<longrightarrow> forced \<in> set ks \<and> lev s forced = r \<and> 0 < n) \<and> n \<le> count_level s r ks \<and> (n \<le> 1 \<longrightarrow> n = count_level s r ks))"

lemma conflict_level_scan_ok:
  assumes "\<forall>k \<in> set (ps @ ls). lev s k \<le> s_level s" and "level_of s ps (r, forced, n)" and "n = count_level s r ps"
  shows "level_of s (ps @ ls) (conflict_level_scan s ls r forced n)"
  using assms
proof (induction ls arbitrary: ps r forced n)
  case Nil
  then show ?case by simp
next
  case (Cons l ls)
  have le: "\<forall>k \<in> set ps. lev s k \<le> r" and n: "n = count_level s r ps" and m: "lev s l \<le> s_level s"
    using Cons.prems by (auto simp: level_of_def)
  have all: "\<forall>k \<in> set ((ps @ [l]) @ ls). lev s k \<le> s_level s" using Cons.prems(1) by simp
  consider (above) "lev s l > r" | (stop) "lev s l = r" "r = s_level s" "n + 1 > 1" | (eq) "lev s l = r" "\<not> (r = s_level s \<and> n + 1 > 1)"
    | (below) "lev s l < r" by (metis linorder_neqE_nat)
  then show ?case
  proof cases
    case above
    have "count_level s (lev s l) ps = 0" by (rule count_level_0) (use le above in auto)
    then have "level_of s (ps @ [l]) (lev s l, l, 1)" "1 = count_level s (lev s l) (ps @ [l])"
      using le above by (auto simp: level_of_def)
    from Cons.IH [OF all this] above show ?thesis by (simp add: Let_def)
  next
    case stop
    have "conflict_level_scan s (l # ls) r forced n = (r, forced, n + 1)" using stop by (simp add: Let_def)
    moreover have "\<forall>k \<in> set (ps @ l # ls). lev s k \<le> r" using Cons.prems(1) stop(2) by simp
    ultimately show ?thesis using Cons.prems(2) n stop(1,3) by (auto simp: level_of_def)
  next
    case eq
    have "level_of s (ps @ [l]) (r, forced, n + 1)" "n + 1 = count_level s r (ps @ [l])"
      using Cons.prems(2) n le eq(1) by (auto simp: level_of_def)
    moreover have "conflict_level_scan s (l # ls) r forced n = conflict_level_scan s ls r forced (n + 1)"
      using eq by (auto simp: Let_def)
    ultimately show ?thesis using Cons.IH [OF all, of r forced "n + 1"] by simp
  next
    case below
    have "level_of s (ps @ [l]) (r, forced, n)" "n = count_level s r (ps @ [l])"
      using Cons.prems(2) n le below by (auto simp: level_of_def)
    from Cons.IH [OF all this] below show ?thesis by (simp add: Let_def)
  qed
qed

lemma count_one:
  assumes "count_level s r ks = 1" and "k \<in> set ks" and "l \<in> set ks" and "lev s k = r" and "lev s l = r"
  shows "k = l"
proof -
  obtain x where "filter (\<lambda>k. lev s k = r) ks = [x]" using assms(1) by (auto simp: count_level_def length_Suc_conv)
  then have x: "set (filter (\<lambda>k. lev s k = r) ks) = {x}" by (simp only: list.set)
  have "k \<in> set (filter (\<lambda>k. lev s k = r) ks)" "l \<in> set (filter (\<lambda>k. lev s k = r) ks)" using assms(2-5) by simp_all
  then show ?thesis unfolding x by simp
qed

lemma count_two:
  assumes "2 \<le> count_level s r ks" and "distinct ks"
  shows "\<exists>k \<in> set ks. k \<noteq> u \<and> lev s k = r"
proof (rule ccontr)
  assume "\<not> ?thesis"
  then have "set (filter (\<lambda>k. lev s k = r) ks) \<subseteq> {u}" by auto
  then have "card (set (filter (\<lambda>k. lev s k = r) ks)) \<le> 1" by (metis card_mono finite.emptyI finite_insert is_singletonI is_singleton_altdef)
  moreover have "card (set (filter (\<lambda>k. lev s k = r) ks)) = length (filter (\<lambda>k. lev s k = r) ks)"
    using distinct_card [OF distinct_filter [OF assms(2)]] .
  ultimately show False using assms(1) by (simp only: count_level_def)
qed

section \<open>Moving the highest literals to the front\<close>

lemma highest_scan_pos:
  "highest_scan s r ls j (pos, level) = (p, l) \<Longrightarrow> p = pos \<or> (j \<le> p \<and> p < j + length ls)"
proof (induction ls arbitrary: j pos level)
  case (Cons k ls)
  consider "level \<ge> lev s k" | "level < lev s k" "lev s k = r" | "level < lev s k" "lev s k \<noteq> r" by linarith
  then show ?case
  proof cases
    case 1
    with Cons.prems Cons.IH [of "j + 1" pos level] show ?thesis by (auto simp: Let_def)
  next
    case 2
    with Cons.prems show ?thesis by (auto simp: Let_def)
  next
    case 3
    with Cons.prems Cons.IH [of "j + 1" j "lev s k"] show ?thesis by (auto simp: Let_def)
  qed
qed simp

text \<open>What moving does: the clause objects keep all but the order of their literals.\<close>

definition moves :: "solver \<Rightarrow> solver \<Rightarrow> bool" where
  "moves s t \<longleftrightarrow> (\<exists>H W. t = s\<lparr>s_heap := H, s_watches := W\<rparr> \<and> (\<forall>d. permutes (s_heap s d) (H d) \<and> same_kind (s_heap s d) (H d)))"

lemma moves_refl [simp]: "moves s s"
  unfolding moves_def by (rule exI [of _ "s_heap s"], rule exI [of _ "s_watches s"]) (simp add: permutes_def)

lemma moves_trans:
  assumes "moves s t" and "moves t u"
  shows "moves s u"
proof -
  obtain H W where t: "t = s\<lparr>s_heap := H, s_watches := W\<rparr>" "\<forall>d. permutes (s_heap s d) (H d) \<and> same_kind (s_heap s d) (H d)"
    using assms(1) unfolding moves_def by blast
  obtain H' W' where u: "u = t\<lparr>s_heap := H', s_watches := W'\<rparr>" "\<forall>d. permutes (s_heap t d) (H' d) \<and> same_kind (s_heap t d) (H' d)"
    using assms(2) unfolding moves_def by blast
  have "u = s\<lparr>s_heap := H', s_watches := W'\<rparr>" by (simp add: t(1) u(1))
  moreover have "permutes (s_heap s d) (H' d) \<and> same_kind (s_heap s d) (H' d)" for d
    using t(2) u(2) by (simp add: t(1) permutes_def)
  ultimately show ?thesis unfolding moves_def by blast
qed

lemma moves_fields:
  assumes "moves s t"
  shows "s_trail t = s_trail s" "s_vals t = s_vals s" "s_vtab t = s_vtab s" "s_level t = s_level s" "s_max_var t = s_max_var s"
    "s_opts t = s_opts s" "s_next t = s_next s" "s_conflict t = s_conflict s" "s_flags t = s_flags s" "s_clause t = s_clause s"
    "s_analyzed t = s_analyzed s" "s_minimized t = s_minimized s" "s_levels t = s_levels s" "same_decider s t"
    "set (lits t c) = set (lits s c)" "length (lits t c) = length (lits s c)" "s_control t = s_control s" "s_propagated t = s_propagated s"
    "s_unsat t = s_unsat s"
  using assms by (auto simp: moves_def permutes_def same_decider_def)

lemma list_good_filter: "list_good s l ws \<Longrightarrow> list_good s l (filter P ws)"
proof -
  assume l: "list_good s l ws"
  have "distinct (large ws) \<Longrightarrow> distinct (large (filter P ws))" for ws
  proof (induction ws)
    case (Cons w ws)
    have "set (large (filter P ws)) \<subseteq> set (large ws)" for ws by (auto simp: large_def)
    with Cons show ?case by (auto split: if_splits)
  qed simp
  with l show ?thesis by (auto simp: list_good_def)
qed

lemma move_highest_ok:
  assumes ok: "search_ok M s" and c: "s_conflict s = Some c" and i: "i < 2"
  shows "search_ok M (move_highest c r i s) \<and> moves s (move_highest c r i s)"
proof -
  let ?ls = "lits s c"
  define lit where "lit = ?ls ! i"
  obtain pos l where hs: "highest_scan s r (drop (i + 1) ?ls) (i + 1) (i, lev s lit) = (pos, l)" by fastforce
  define high where "high = ?ls ! pos"
  define L where "L = ?ls[pos := lit, i := high]"
  let ?f = "c_lits_update (\<lambda>ls. ls[pos := lit, i := high])"
  have g: "graph_ok M s" and co: "conflict_ok s" and wg: "watches_good s" using ok by (simp_all add: search_ok_def)
  have C: "c < s_next s" "2 \<le> c_pos (s_heap s c)" "c_pos (s_heap s c) \<le> length ?ls" using co c by (simp_all add: conflict_ok_def)
  have cok: "clause_ok_on M s ?ls" using g C(1) by (simp add: graph_ok_def clauses_ok_def)
  have d: "distinct ?ls" and len: "2 \<le> length ?ls" using cok by (simp_all add: clause_ok_on_def)
  show ?thesis
  proof (cases "pos = i")
    case True
    with ok hs show ?thesis by (simp add: move_highest_def Let_def lit_def)
  next
    case False
    have pl: "i < pos" "pos < length ?ls" using highest_scan_pos [OF hs] False i len by auto
    have ne: "high \<noteq> lit" using d pl i len by (simp add: high_def lit_def nth_eq_iff_index_eq)
    have "mset L = mset ?ls" unfolding L_def lit_def high_def using mset_swap [of i ?ls pos] pl i len by simp
    then have "set L = set ?ls" "length L = length ?ls" using mset_eq_setD mset_eq_length by blast+
    then have perm: "permutes (s_heap s c) (?f (s_heap s c))" by (simp add: permutes_def L_def)
    have Li: "L ! i = high" using i len by (simp add: L_def)
    have Lo: "L ! (if i = 0 then 1 else 0) = (if pos = 1 then lit else ?ls ! (if i = 0 then 1 else 0))"
      using i pl len by (auto simp: L_def nth_list_update)
    have mv: "moves s (s\<lparr>s_heap := (s_heap s)(c := ?f (s_heap s c)), s_watches := W\<rparr>)" for W
      unfolding moves_def by (rule exI [of _ "(s_heap s)(c := ?f (s_heap s c))"], rule exI [of _ W]) (use perm in \<open>simp add: permutes_def\<close>)
    show ?thesis
    proof (cases "pos > 1")
      case False
      then have p: "pos = 1" "i = 0" using pl(1) by auto
      have run: "move_highest c r i s = upd_clause c ?f s"
        using hs p by (simp add: move_highest_def Let_def lit_def high_def)
      have s0: "with_list 0 (s_watches s 0) s = s" by (rule with_list_same)
      have "search_ok M (with_list 0 (s_watches s 0) (upd_clause c ?f s))"
      proof (rule search_ok_upd_clause [where c = c and f = ?f, OF _ perm])
        show "search_ok M (with_list 0 (s_watches s 0) s)" using ok by (simp add: s0)
        fix k assume "c \<in> set (large (if k = 0 then s_watches s 0 else s_watches s k))"
        then have "c \<in> set (large (s_watches s k))" by (simp split: if_splits)
        moreover have "list_good s k (s_watches s k)" using wg by (simp add: watches_good_def)
        ultimately have "k = ?ls ! 0 \<or> k = ?ls ! 1" using large_watched(1) by blast
        then show "k = c_lits (?f (s_heap s c)) ! 0 \<or> k = c_lits (?f (s_heap s c)) ! 1"
          using p len Li by (cases "k = ?ls ! 1") (auto simp: lit_def high_def L_def)
      qed (use C in simp)
      moreover have "with_list 0 (s_watches s 0) (upd_clause c ?f s) = upd_clause c ?f s"
        using with_list_same [of 0 "upd_clause c ?f s"] by simp
      ultimately show ?thesis using mv [of "s_watches s"] unfolding run by (simp add: upd_clause_def)
    next
      case True
      define ws where "ws = remove_watch c (s_watches s lit)"
      let ?u = "with_list lit ws (upd_clause c ?f s)" and ?b = "L ! (if i = 0 then 1 else 0)"
      have run: "move_highest c r i s = watch_literal high ?b c ?u"
        using hs \<open>pos \<noteq> i\<close> True by (simp add: move_highest_def Let_def lit_def [symmetric] high_def [symmetric] L_def ws_def
            with_list_def upd_clause_def watch_literal_def)
      have nc: "c \<notin> set (large ws)" by (auto simp: ws_def remove_watch_def large_def)
      have lg: "list_good s k (s_watches s k)" for k using wg by (simp add: watches_good_def)
      have ok1: "search_ok M (with_list lit ws s)"
        using g co lg list_good_filter by (simp add: search_ok_with_list ws_def remove_watch_def)
      have ok2: "search_ok M ?u"
      proof (rule search_ok_upd_clause [where c = c and f = ?f, OF ok1 perm])
        fix k assume k: "c \<in> set (large (if k = lit then ws else s_watches s k))"
        then have kl: "k \<noteq> lit" "c \<in> set (large (s_watches s k))" using nc by (auto split: if_splits)
        then have "k = ?ls ! 0 \<or> k = ?ls ! 1" using large_watched(1) [OF lg] by blast
        then have "k = ?ls ! (if i = 0 then 1 else 0)" using kl(1) i by (auto simp: lit_def less_2_cases_iff)
        then have "k = L ! (if i = 0 then 1 else 0)" using Lo True by simp
        then show "k = c_lits (?f (s_heap s c)) ! 0 \<or> k = c_lits (?f (s_heap s c)) ! 1" by (simp add: L_def split: if_splits)
      qed (use C in simp)
      have "c \<notin> set (large (s_watches s high))"
      proof
        assume "c \<in> set (large (s_watches s high))"
        then have "high = ?ls ! 0 \<or> high = ?ls ! 1" using large_watched(1) [OF lg] by blast
        moreover have "0 < length ?ls" "1 < length ?ls" using len by linarith+
        ultimately show False using nth_eq_iff_index_eq [OF d pl(2), of 0] nth_eq_iff_index_eq [OF d pl(2), of 1] True
          by (auto simp: high_def)
      qed
      then have nh: "c \<notin> set (large (s_watches ?u high))" using ne by simp
      have ls: "lits ?u c = L" by (simp add: L_def)
      have gh: "list_good ?u high (s_watches ?u high)" using ok2 by (simp add: search_ok_def watches_good_def)
      have bl: "?b \<noteq> high" "?b \<in> set L"
      proof -
        have o: "(if i = 0 then 1 else 0) < length ?ls" "(if i = 0 then 1 else 0) \<noteq> pos" using len True by auto
        then show "?b \<noteq> high" unfolding Lo using True d pl by (simp add: high_def nth_eq_iff_index_eq)
        show "?b \<in> set L" by (rule nth_mem) (use o(1) in \<open>simp add: L_def\<close>)
      qed
      have hl: "high \<in> set L" unfolding \<open>set L = set ?ls\<close> high_def using pl(2) by simp
      have "watch_good ?u high \<lparr>w_clause = c, w_blit = ?b, w_size = length (lits ?u c)\<rparr>"
        unfolding watch_good_def Let_def swatch.simps ls
        using C bl hl Li i \<open>length L = length ?ls\<close> by (auto simp: less_2_cases_iff)
      from list_good_push [OF gh nh this]
      have lp: "list_good ?u high (s_watches ?u high @ [\<lparr>w_clause = c, w_blit = ?b, w_size = length (lits ?u c)\<rparr>])" .
      have wl: "watch_literal high ?b c ?u
          = with_list high (s_watches ?u high @ [\<lparr>w_clause = c, w_blit = ?b, w_size = length (lits ?u c)\<rparr>]) ?u"
        by (simp add: watch_literal_def with_list_def)
      have "search_ok M (watch_literal high ?b c ?u)"
        using ok2 lp unfolding wl search_ok_with_list [of M high _ ?u] unfolding search_ok_def watches_good_def by blast
      moreover have "watch_literal high ?b c ?u = s\<lparr>s_heap := (s_heap s)(c := ?f (s_heap s c)), s_watches := s_watches (watch_literal high ?b c ?u)\<rparr>"
        by (simp add: watch_literal_def with_list_def upd_clause_def)
      ultimately show ?thesis using mv unfolding run by metis
    qed
  qed
qed

section \<open>The conflict level\<close>

lemma find_conflict_level_ok:
  assumes ok: "search_ok M s" and c: "s_conflict s = Some c" and f: "find_conflict_level c s = (r, forced, t)"
  shows "search_ok M t" and "moves s t" and "r \<le> s_level s" and "\<forall>k \<in> set (lits s c). lev s k \<le> r"
    and "forced \<noteq> 0 \<Longrightarrow> 0 < r \<and> forced \<in> set (lits s c) \<and> lev s forced = r \<and> (\<forall>k \<in> set (lits s c). k \<noteq> forced \<longrightarrow> lev s k < r)"
    and "forced = 0 \<Longrightarrow> r = 0 \<or> (\<forall>u. \<exists>k \<in> set (lits s c). k \<noteq> u \<and> lev s k = r)"
proof -
  have g: "graph_ok M s" and co: "conflict_ok s" using ok by (simp_all add: search_ok_def)
  have C: "c < s_next s" "\<forall>k \<in> set (lits s c). - k \<in> set (s_trail s)" using co c by (simp_all add: conflict_ok_def)
  have cok: "clause_ok_on M s (lits s c)" using g C(1) by (simp add: graph_ok_def clauses_ok_def)
  have le: "\<forall>k \<in> set (lits s c). lev s k \<le> s_level s" using level_le [OF g, of "- k" for k] C(2) by auto
  obtain r' f' n where sc: "conflict_level_scan s (lits s c) 0 0 0 = (r', f', n)" by (metis prod_cases3)
  have "level_of s ([] @ lits s c) (conflict_level_scan s (lits s c) 0 0 0)"
    by (rule conflict_level_scan_ok) (use le in \<open>simp_all add: level_of_def\<close>)
  then have lo: "level_of s (lits s c) (r', f', n)" by (simp add: sc)
  let ?u = "move_highest c r 0 s"
  have F: "r = r'" "forced = (if n \<noteq> 1 then 0 else f')" "t = move_highest c r 1 ?u"
    using f by (auto simp: find_conflict_level_def sc Let_def)
  have u: "search_ok M ?u" "moves s ?u" using move_highest_ok [OF ok c, of 0 r] by simp_all
  have "s_conflict ?u = Some c" using c by (simp add: moves_fields [OF u(2)])
  from move_highest_ok [OF u(1) this, of 1 r] moves_trans [OF u(2)] show "search_ok M t" "moves s t" by (simp_all add: F(3))
  show "\<forall>k \<in> set (lits s c). lev s k \<le> r" using lo by (simp add: level_of_def F(1))
  show "r \<le> s_level s" using lo le by (cases "r = 0") (auto simp: level_of_def F(1))
  show "forced \<noteq> 0 \<Longrightarrow> 0 < r \<and> forced \<in> set (lits s c) \<and> lev s forced = r \<and> (\<forall>k \<in> set (lits s c). k \<noteq> forced \<longrightarrow> lev s k < r)"
  proof -
    assume "forced \<noteq> 0"
    then have n: "n = 1" "forced = f'" by (simp_all add: F(2) split: if_splits)
    then have r: "0 < r" using lo \<open>forced \<noteq> 0\<close> by (auto simp: level_of_def F(1))
    have fo: "forced \<in> set (lits s c)" "lev s forced = r" "1 = count_level s r (lits s c)" using lo r n by (auto simp: level_of_def F(1))
    have "lev s k < r" if k: "k \<in> set (lits s c)" "k \<noteq> forced" for k
    proof -
      have "lev s k \<le> r" using lo k(1) by (simp add: level_of_def F(1))
      moreover have "lev s k \<noteq> r" using count_one [OF fo(3) [symmetric] k(1) fo(1) _ fo(2)] k(2) by blast
      ultimately show ?thesis by simp
    qed
    with r fo show ?thesis by blast
  qed
  show "forced = 0 \<Longrightarrow> r = 0 \<or> (\<forall>u. \<exists>k \<in> set (lits s c). k \<noteq> u \<and> lev s k = r)"
  proof -
    assume z: "forced = 0"
    show ?thesis
    proof (cases "r = 0")
      case False
      then have fo: "f' \<in> set (lits s c)" "0 < n" using lo by (simp_all add: level_of_def F(1))
      then have "f' \<noteq> 0" using cok by (auto simp: clause_ok_on_def lit_in_def)
      then have "n \<noteq> 1" using z by (auto simp: F(2))
      then have "2 \<le> count_level s r (lits s c)" using lo fo(2) by (simp add: level_of_def F(1))
      moreover have "distinct (lits s c)" using cok by (simp add: clause_ok_on_def)
      ultimately show ?thesis using count_two by blast
    qed simp
  qed
qed

end
