(* ===== verification/Search_Backjump.thy ===== *)
theory Search_Backjump
  imports Search_Conflict
begin

text \<open>
  After the clause is derived: a new clause with its watches, the driving clause, the backtrack level, and the
  assignment of the negated implication point.
\<close>

section \<open>A new clause\<close>

definition add_clause :: "sclause \<Rightarrow> solver \<Rightarrow> solver" where
  "add_clause cl s = s\<lparr>s_heap := (s_heap s)(s_next s := cl), s_next := s_next s + 1, s_clauses := s_clauses s @ [s_next s]\<rparr>"

lemma add_clause_fields [simp]:
  "s_trail (add_clause cl s) = s_trail s" "s_vals (add_clause cl s) = s_vals s" "s_vtab (add_clause cl s) = s_vtab s"
  "s_max_var (add_clause cl s) = s_max_var s" "s_opts (add_clause cl s) = s_opts s" "s_level (add_clause cl s) = s_level s"
  "s_control (add_clause cl s) = s_control s" "s_next (add_clause cl s) = s_next s + 1"
  "s_heap (add_clause cl s) = (s_heap s)(s_next s := cl)" "s_clauses (add_clause cl s) = s_clauses s @ [s_next s]"
  "s_watches (add_clause cl s) = s_watches s" "s_conflict (add_clause cl s) = s_conflict s"
  "s_proof (add_clause cl s) = s_proof s" "s_phases (add_clause cl s) = s_phases s" "s_best (add_clause cl s) = s_best s"
  "s_assumptions (add_clause cl s) = s_assumptions s" "s_constraint (add_clause cl s) = s_constraint s"
  "s_unsat_constraint (add_clause cl s) = s_unsat_constraint s"
  by (simp_all add: add_clause_def)

lemma add_clause_graph_ok:
  assumes g: "graph_ok M s" and c: "clause_ok_on M s (c_lits cl)"
  shows "graph_ok M (add_clause cl s)"
proof -
  let ?t = "add_clause cl s"
  have "assigned_ok M ?t before l" if "assigned_ok M s before l" for before l
    by (rule assigned_ok_transfer [OF that]) simp_all
  then have "trail_ok M ?t" using g by (simp add: graph_ok_def trail_ok_def)
  moreover have "clause_ok_on M ?t d \<longleftrightarrow> clause_ok_on M s d" for d by (simp add: clause_ok_on_def lit_in_def)
  then have "clauses_ok M ?t" using g c by (auto simp: graph_ok_def clauses_ok_def hopeless_def less_Suc_eq)
  ultimately show ?thesis using g by (simp add: graph_ok_def vals_ok_def lit_in_def control_ok_def plan_ok_def)
qed

lemma proof_graph_ok:
  assumes g: "graph_ok M s" and c: "ent M C"
  shows "graph_ok M (s\<lparr>s_proof := s_proof s @ [Derived C]\<rparr>)"
proof -
  let ?t = "s\<lparr>s_proof := s_proof s @ [Derived C]\<rparr>"
  have "vals_ok ?t = vals_ok s" "control_ok ?t = control_ok s" "plan_ok ?t = plan_ok s"
    by (simp_all add: vals_ok_def lit_in_def control_ok_def plan_ok_def)
  moreover have "assigned_ok M ?t before l = assigned_ok M s before l" for before l
    by (cases "rsn s l") (simp_all add: assigned_ok_def implied_by_def)
  then have "trail_ok M ?t = trail_ok M s" by (simp add: trail_ok_def)
  moreover have "clauses_ok M ?t" using g c by (auto simp: graph_ok_def clauses_ok_def clause_ok_on_def lit_in_def hopeless_def)
  ultimately show ?thesis using g by (simp add: graph_ok_def)
qed

lemma list_good_add: "list_good s l ws \<Longrightarrow> list_good (add_clause cl s) l ws"
  by (auto simp: list_good_def watch_good_def Let_def)

lemma watches_good_cong:
  assumes "watches_good s" and "s_watches t = s_watches s" and "s_next t = s_next s"
    and "\<And>c. lits t c = lits s c \<and> c_pos (s_heap t c) = c_pos (s_heap s c)"
  shows "watches_good t"
  using assms by (simp add: watches_good_def list_good_def watch_good_def)

text \<open>Watching the new clause.\<close>

lemma watch_new_clause:
  assumes w: "watches_good s" and c: "2 \<le> length (c_lits cl)" "distinct (c_lits cl)" "c_pos cl = 2"
  shows "watches_good (watch_clause (s_next s) (add_clause cl s))"
proof -
  let ?t = "add_clause cl s" and ?c = "s_next s" and ?a = "c_lits cl ! 0" and ?b = "c_lits cl ! 1"
  let ?n = "length (c_lits cl)"
  obtain a b ls where ls: "c_lits cl = a # b # ls" using c(1) by (cases "c_lits cl"; cases "tl (c_lits cl)") auto
  have ab: "?a \<noteq> ?b" "?a \<in> set (c_lits cl)" "?b \<in> set (c_lits cl)" using c(2) by (simp_all add: ls)
  have old: "list_good ?t l (s_watches s l)" for l using w list_good_add by (simp add: watches_good_def)
  have new: "?c \<notin> set (large (s_watches s l))" for l
  proof
    assume "?c \<in> set (large (s_watches s l))"
    with w have "?c < s_next s" using large_watched(2) by (fastforce simp: watches_good_def)
    then show False by simp
  qed
  have "watch_good ?t ?a \<lparr>w_clause = ?c, w_blit = ?b, w_size = length (lits ?t ?c)\<rparr>"
    "watch_good ?t ?b \<lparr>w_clause = ?c, w_blit = ?a, w_size = length (lits ?t ?c)\<rparr>"
    using ab c by (auto simp: watch_good_def Let_def)
  then have "list_good ?t ?a (s_watches s ?a @ [\<lparr>w_clause = ?c, w_blit = ?b, w_size = ?n\<rparr>])"
    "list_good ?t ?b (s_watches s ?b @ [\<lparr>w_clause = ?c, w_blit = ?a, w_size = ?n\<rparr>])"
    using list_good_push [OF old new] by fastforce+
  moreover have "s_watches (watch_clause ?c ?t)
      = (s_watches s)(?a := s_watches s ?a @ [\<lparr>w_clause = ?c, w_blit = ?b, w_size = ?n\<rparr>],
          ?b := s_watches s ?b @ [\<lparr>w_clause = ?c, w_blit = ?a, w_size = ?n\<rparr>])"
    using ab(1) by (simp add: watch_clause_def watch_literal_def Let_def)
  moreover have "list_good (watch_clause ?c ?t) l ws \<longleftrightarrow> list_good ?t l ws" for l ws
    by (simp add: watch_clause_def watch_literal_def Let_def list_good_def watch_good_def)
  ultimately show ?thesis using old by (simp add: watches_good_def)
qed

section \<open>The driving clause\<close>

lemma trail_rank_level:
  assumes "trail_rank s a \<le> trail_rank s b" and "v_trail (s_vtab s (vidx b)) < 2 ^ 32" and "v_trail (s_vtab s (vidx a)) < 2 ^ 32"
  shows "lev s b \<le> lev s a"
proof (rule ccontr)
  assume "\<not> lev s b \<le> lev s a"
  then have "int (lev s a) * 2 ^ 32 + 2 ^ 32 \<le> int (lev s b) * 2 ^ 32" by simp
  with assms show False by (simp add: trail_rank_def)
qed

text \<open>The clause sorted: the literal of the highest level first, then one of the second highest.\<close>

lemma sorted_clause:
  assumes m: "s_max_var s \<le> 2 ^ 32" and v: "vals_ok s" and t: "\<forall>k \<in> set C. - k \<in> set (s_trail s)" and d: "distinct C"
    and u: "u \<in> set C" "\<forall>k \<in> set C. k \<noteq> u \<longrightarrow> lev s k < lev s u" and n: "2 \<le> length C"
  defines "C' \<equiv> sort_key (trail_rank s) C"
  shows "C' ! 0 = u" and "C' ! 1 \<in> set C" and "C' ! 1 \<noteq> u" and "\<forall>k \<in> set C. k \<noteq> u \<longrightarrow> lev s k \<le> lev s (C' ! 1)"
proof -
  have C': "set C' = set C" "distinct C'" "length C' = length C" "sorted (map (trail_rank s) C')" using d by (simp_all add: C'_def)
  have pos: "v_trail (s_vtab s (vidx k)) < 2 ^ 32" if "k \<in> set C" for k
  proof -
    have "v_trail (s_vtab s (vidx (- k))) < s_max_var s" using v t that unfolding vals_ok_def by blast
    with m show ?thesis by simp
  qed
  have le: "lev s (C' ! j) \<le> lev s (C' ! i)" if "i \<le> j" "j < length C" for i j
  proof (rule trail_rank_level)
    show "trail_rank s (C' ! i) \<le> trail_rank s (C' ! j)" using sorted_nth_mono [OF C'(4), of i j] that C'(3) by simp
    show "v_trail (s_vtab s (vidx (C' ! j))) < 2 ^ 32" "v_trail (s_vtab s (vidx (C' ! i))) < 2 ^ 32"
      using pos nth_mem [of j C'] nth_mem [of i C'] that C'(1,3) by auto
  qed
  obtain p where p: "p < length C" "C' ! p = u" using u(1) C'(1,3) by (metis in_set_conv_nth)
  have m0: "C' ! 0 \<in> set C" using nth_mem [of 0 C'] n C'(1,3) by (cases "C = []") auto
  show u0: "C' ! 0 = u" using le [OF _ p(1), of 0] u(2) m0 p(2) by (metis le0 linorder_not_le)
  show m1: "C' ! 1 \<in> set C" using nth_mem [of 1 C'] n C'(1,3) by auto
  have "1 < length C'" "0 < length C'" using n C'(3) by linarith+
  from nth_eq_iff_index_eq [OF C'(2) this] show "C' ! 1 \<noteq> u" using u0 by simp
  show "\<forall>k \<in> set C. k \<noteq> u \<longrightarrow> lev s k \<le> lev s (C' ! 1)"
  proof (intro ballI impI)
    fix k assume k: "k \<in> set C" "k \<noteq> u"
    then obtain q where q: "q < length C" "C' ! q = k" using C'(1,3) by (metis in_set_conv_nth)
    with k(2) u0 have "1 \<le> q" by (cases q) auto
    from le [OF this q(1)] q(2) show "lev s k \<le> lev s (C' ! 1)" by simp
  qed
qed

text \<open>The clause of a state ready to learn it.\<close>

definition asserting :: "(nat \<Rightarrow> bool) set \<Rightarrow> int \<Rightarrow> solver \<Rightarrow> bool" where
  "asserting M u s \<longleftrightarrow> u \<in> set (s_trail s) \<and> lev s u = s_level s \<and> 0 < s_level s \<and> - u \<in> set (s_clause s)
     \<and> (\<forall>k \<in> set (s_clause s). - k \<in> set (s_trail s)) \<and> distinct (s_clause s) \<and> ent M (s_clause s)
     \<and> (\<forall>k \<in> set (s_clause s). k \<noteq> - u \<longrightarrow> 0 < lev s k \<and> lev s k < s_level s) \<and> s_max_var s \<le> 2 ^ 32"

definition drives :: "int \<Rightarrow> solver \<Rightarrow> nat \<Rightarrow> nat option \<Rightarrow> solver \<Rightarrow> bool" where
  "drives u s jump d t \<longleftrightarrow> jump < s_level s
     \<and> (case d of None \<Rightarrow> s_clause s = [- u]
        | Some e \<Rightarrow> e < s_next t \<and> set (lits t e) = set (s_clause s) \<and> (\<forall>k \<in> set (s_clause s). k \<noteq> - u \<longrightarrow> lev s k \<le> jump))
     \<and> (\<exists>H N CS W P CL I. t = s\<lparr>s_heap := H, s_next := N, s_clauses := CS, s_watches := W, s_proof := P, s_clause := CL, s_iterating := I\<rparr>)"

lemma drivesI:
  assumes "jump < s_level s"
    and "case d of None \<Rightarrow> s_clause s = [- u]
        | Some e \<Rightarrow> e < s_next t \<and> set (lits t e) = set (s_clause s) \<and> (\<forall>k \<in> set (s_clause s). k \<noteq> - u \<longrightarrow> lev s k \<le> jump)"
    and "t = s\<lparr>s_heap := H, s_next := N, s_clauses := CS, s_watches := W, s_proof := P, s_clause := CL, s_iterating := I\<rparr>"
  shows "drives u s jump d t"
  unfolding drives_def using assms by blast

lemma new_driving_ok:
  assumes g: "graph_ok M s" and w: "watches_good s" and a: "asserting M u s" and nd: "new_driving_clause glue s = (jump, d, t)"
  shows "graph_ok M t" and "watches_good t" and "drives u s jump d t"
proof -
  let ?C = "s_clause s"
  have A: "- u \<in> set ?C" "distinct ?C" "ent M ?C" "\<forall>k \<in> set ?C. - k \<in> set (s_trail s)" "s_max_var s \<le> 2 ^ 32" "lev s (- u) = s_level s"
    "0 < s_level s" "\<forall>k \<in> set ?C. k \<noteq> - u \<longrightarrow> lev s k < lev s (- u)" using a by (simp_all add: asserting_def)
  have v: "vals_ok s" using g by (simp add: graph_ok_def)
  have "graph_ok M t \<and> watches_good t \<and> drives u s jump d t"
  proof (cases "length ?C < 2")
    case True
    then have C: "?C = [- u]" using A(1) by (cases ?C; cases "tl ?C") auto
    then have t: "jump = 0" "d = None" "t = s\<lparr>s_iterating := True\<rparr>" using nd by (simp_all add: new_driving_clause_def)
    have "same_graph s t" by (simp add: t same_graph_def)
    then have "graph_ok M t" using g same_graph_ok by blast
    moreover have "watches_good t" using w by (simp add: t watches_good_def list_good_def watch_good_def)
    moreover have "drives u s jump d t"
      by (rule drivesI [where H = "s_heap s" and N = "s_next s" and CS = "s_clauses s" and W = "s_watches s" and P = "s_proof s" and CL = ?C
            and I = True]) (use A(7) in \<open>simp_all add: t C\<close>)
    ultimately show ?thesis by blast
  next
    case False
    then have len: "2 \<le> length ?C" by simp
    define C' where "C' = sort_key (trail_rank s) ?C"
    note S = sorted_clause [OF A(5) v A(4) A(2) A(1) A(8) len, folded C'_def]
    have C': "set C' = set ?C" "length C' = length ?C" "distinct C'" using A(2) by (simp_all add: C'_def)
    define cl where "cl = \<lparr>c_lits = C', c_pos = 2, c_glue = (if glue > length C' then length C' else glue), c_used = 0, c_garbage = False,
        c_redundant = True, c_keep = (if \<not> True then True else if (if glue > length C' then length C' else glue) \<le> o_tier1 (s_opts s) then True else False),
        c_hyper = False\<rparr>"
    define s1 where "s1 = s\<lparr>s_clause := C'\<rparr>"
    define s2 where "s2 = (add_clause cl s1)\<lparr>s_proof := s_proof s1 @ [Derived C']\<rparr>"
    let ?c = "s_next s"
    define f :: "sclause \<Rightarrow> sclause" where "f = c_used_update (\<lambda>_. 1 + (if glue \<le> o_tier2 (s_opts s) then 1 else 0))"
    have nl: "new_learned_redundant_clause glue s1 = (?c, watch_clause ?c s2)"
      by (simp add: new_learned_redundant_clause_def new_solver_clause_def s2_def s1_def add_clause_def cl_def Let_def)
    have op: "s_opts (watch_clause ?c s2) = s_opts s"
      by (simp add: s2_def s1_def add_clause_def watch_clause_def watch_literal_def Let_def)
    have ne: "?C \<noteq> []" using len by auto
    have "new_driving_clause glue s = (lev s (C' ! 1), Some ?c, upd_clause ?c f (watch_clause ?c s2))"
      using len nl op ne unfolding new_driving_clause_def Let_def C'_def [symmetric] s1_def [symmetric] by (simp add: f_def s1_def)
    then have t: "jump = lev s (C' ! 1)" "d = Some ?c" "t = upd_clause ?c f (watch_clause ?c s2)" using nd by simp_all
    have s1: "same_graph s s1" by (simp add: s1_def same_graph_def)
    have "\<forall>l \<in> set C'. lit_in s l"
    proof
      fix l assume "l \<in> set C'"
      then have "- l \<in> set (s_trail s)" using A(4) C'(1) by simp
      then have "lit_in s (- l)" using v unfolding vals_ok_def by blast
      then show "lit_in s l" by (simp add: lit_in_def)
    qed
    then have cok: "clause_ok_on M s1 (c_lits cl)"
      using len C' ent_set [OF equalityD2 [OF C'(1)], of M] A(3) by (simp add: cl_def clause_ok_on_def lit_in_def s1_def)
    have "graph_ok M (add_clause cl s1)" by (rule add_clause_graph_ok [OF _ cok]) (use g s1 same_graph_ok in blast)
    from proof_graph_ok [OF this, of C'] have g2: "graph_ok M s2" using ent_set [OF equalityD2 [OF C'(1)], of M] A(3)
      by (simp add: s2_def add_clause_def s1_def)
    have w1: "watches_good s1" by (rule watches_good_cong [OF w]) (simp_all add: s1_def)
    have w2: "watches_good (watch_clause ?c (add_clause cl s1))"
      using watch_new_clause [OF w1, of cl] len C' by (simp add: cl_def s1_def)
    have q: "quiet (watch_clause ?c s2) t" unfolding t(3) by (rule quiet_upd_clause) (simp_all add: f_def)
    have "same_graph s2 (watch_clause ?c s2)" by (simp add: same_graph_def watch_clause_def watch_literal_def Let_def)
    then have "graph_ok M (watch_clause ?c s2)" using g2 same_graph_ok by blast
    then have gt: "graph_ok M t" using q same_graph_ok by (auto simp: quiet_def)
    have wt: "watches_good t"
      by (rule watches_good_cong [OF w2]) (simp_all add: t(3) s2_def f_def watch_clause_def watch_literal_def Let_def)
    have "drives u s jump d t"
    proof (rule drivesI [where H = "s_heap t" and N = "s_next s + 1" and CS = "s_clauses s @ [?c]" and W = "s_watches t" and P = "s_proof t" and CL = C'
          and I = "s_iterating s"])
      show "jump < s_level s" using A(6,8) S(2,3) by (simp add: t(1))
      show "t = s\<lparr>s_heap := s_heap t, s_next := s_next s + 1, s_clauses := s_clauses s @ [?c], s_watches := s_watches t, s_proof := s_proof t,
          s_clause := C', s_iterating := s_iterating s\<rparr>"
        by (simp add: t(3) s2_def s1_def add_clause_def upd_clause_def watch_clause_def watch_literal_def Let_def)
      show "case d of None \<Rightarrow> ?C = [- u] | Some e \<Rightarrow> e < s_next t \<and> set (lits t e) = set ?C \<and> (\<forall>k \<in> set ?C. k \<noteq> - u \<longrightarrow> lev s k \<le> jump)"
        using S(4) C'(1) unfolding t(1,2) option.case
        by (simp add: t(3) s2_def s1_def upd_clause_def watch_clause_def watch_literal_def Let_def f_def cl_def)
    qed
    with gt wt show ?thesis by blast
  qed
  then show "graph_ok M t" "watches_good t" "drives u s jump d t" by blast+
qed

end
