(* ===== verification/Search_Learn_Sound.thy ===== *)
theory Search_Learn_Sound
  imports Search_Backjump
begin

text \<open>
  Conflict analysis as a whole: with a conflict it is total, keeps the invariant of the search, and leaves the
  conflict behind it; a conflict on level zero means that the formula has no model.
\<close>

section \<open>The backtrack level\<close>

lemma reuse_level_ok:
  assumes "length control = level + 1" and "res < level"
  shows "\<exists>r. reuse_level control level best n res = Inr r \<and> res \<le> r \<and> r < level"
  using assms(2)
proof (induction n arbitrary: res)
  case (Suc n)
  show ?case
  proof (cases "res < level - 1 \<and> l_trail (control ! (res + 1)) \<le> best")
    case True
    then have "res + 1 < level" by linarith
    from Suc.IH [OF this] obtain r where "reuse_level control level best n (res + 1) = Inr r" "res + 1 \<le> r" "r < level" by blast
    with True assms(1) show ?thesis by auto
  next
    case False
    with Suc.prems assms(1) show ?thesis by auto
  qed
qed simp

lemma backtrack_level_ok:
  assumes len: "length (s_control s) = s_level s + 1" and jump: "jump < s_level s"
  shows "\<exists>r. determine_actual_backtrack_level jump s = Inr r \<and> jump \<le> r \<and> r < s_level s"
proof -
  have reuse: "\<exists>r. reuse_level (s_control s) (s_level s) best n jump = Inr r \<and> jump \<le> r \<and> r < s_level s" for best n
    by (rule reuse_level_ok [OF len jump])
  have get: "vec_get (s_control s) (jump + 1) = Inr (s_control s ! (jump + 1))" using len jump by simp
  show ?thesis
    using jump reuse unfolding determine_actual_backtrack_level_def Let_def get
    by (cases "o_chrono (s_opts s) = 0"; cases "o_chronoalways (s_opts s)"; cases "int jump \<ge> int (s_level s) - 1";
        cases "jump < length (s_assumptions s)"; cases "int (s_level s) - int jump > o_chronolevelim (s_opts s)";
        cases "o_chronoreusetrail (s_opts s)") auto
qed

section \<open>Clearing the marks\<close>

lemma clear_levels_map:
  assumes "\<And>l. f (reset_level l) = f l"
  shows "map f (fold (\<lambda>l ls. if l < length ls then ls[l := reset_level (ls ! l)] else ls) ks ls) = map f ls"
proof (induction ks arbitrary: ls)
  case (Cons k ks)
  have "map f (if k < length ls then ls[k := reset_level (ls ! k)] else ls) = map f ls"
    by (auto simp: map_update assms list_update_id) (metis length_map list_update_id nth_map)
  with Cons show ?case by simp
qed simp

lemma clear_analyzed_quiet: "quiet s (clear_analyzed_levels (clear_analyzed_literals s))"
proof (rule quiet_trans)
  have "quiet s (fold (\<lambda>lit. upd_flags lit (f_seen_update (\<lambda>_. False))) (s_analyzed s) s)" by (rule fold_upd_flags(1))
  moreover have "quiet u (u\<lparr>s_analyzed := []\<rparr>)" for u by (simp add: quiet_def same_graph_def)
  ultimately show "quiet s (clear_analyzed_literals s)" unfolding clear_analyzed_literals_def using quiet_trans by blast
  show "quiet (clear_analyzed_literals s) (clear_analyzed_levels (clear_analyzed_literals s))"
    by (simp add: quiet_def same_graph_def clear_analyzed_levels_def clear_levels_map reset_level_def)
qed

lemma clear_analyzed_fresh:
  assumes "marked_exact s" and "s_minimized s = []"
    and "\<forall>v. \<not> f_keep (s_flags s v) \<and> \<not> f_poison (s_flags s v) \<and> \<not> f_removable (s_flags s v)"
  shows "fresh_analysis ((clear_analyzed_levels (clear_analyzed_literals s))\<lparr>s_clause := [], s_conflict := None\<rparr>)"
  using assms fold_upd_flags(4) [of "f_seen_update (\<lambda>_. False)" "s_analyzed s" s]
  by (auto simp: fresh_analysis_def clear_analyzed_levels_def clear_analyzed_literals_def fold_upd_flags_at marked_exact_def)

section \<open>Learning\<close>

lemma bump_all_same:
  assumes "bump_all s t"
  shows "same_graph s t" "s_watches t = s_watches s" "s_heap t = s_heap s" "s_conflict t = s_conflict s" "s_unsat t = s_unsat s"
    "s_propagated t = s_propagated s" "s_minimized t = s_minimized s" "s_clause t = s_clause s"
proof -
  obtain u where u: "reveals s u" "bumps u t" using assms by (auto simp: bump_all_def)
  from reveals_fields(1) [OF u(1)] have "same_graph s u" by (simp add: quiet_def)
  moreover have "same_graph u t" using u(2) by (auto simp: bumps_def same_graph_def)
  ultimately show "same_graph s t" by (rule same_graph_trans)
qed (use assms in \<open>auto simp: bump_all_def bumps_def reveals_def\<close>)

lemma learnable_asserting:
  assumes l: "learnable M s0 u s" and g: "graph_ok M s0" and lv: "0 < s_level s0" and m: "s_max_var s0 \<le> 2 ^ 32" and b: "same_graph s t"
    and c: "s_clause t = s_clause s"
  shows "asserting M u t"
proof -
  have so: "seen_ok s" and q: "quiet s0 s" using l by (simp_all add: learnable_def marking_def)
  note Q = quiet_fields [OF q]
  have "s_level t = s_level s" "s_trail t = s_trail s" "lev t k = lev s k" "s_max_var t = s_max_var s" for k
    using b by (simp_all add: same_graph_def)
  with l so lv m show ?thesis by (auto simp: asserting_def learnable_def seen_ok_def c Q(2,7))
qed

text \<open>What the loop of the search keeps.\<close>

definition cdcl_ok :: "(nat \<Rightarrow> bool) set \<Rightarrow> solver \<Rightarrow> bool" where
  "cdcl_ok M s \<longleftrightarrow> search_ok M s \<and> decider_ok s \<and> fresh_analysis s \<and> chrono s \<and> s_max_var s \<le> 2 ^ 32
     \<and> s_propagated s \<le> length (s_trail s) \<and> (s_unsat s \<longrightarrow> M = {})"

abbreviation same_query :: "solver \<Rightarrow> solver \<Rightarrow> bool" where
  "same_query s t \<equiv> s_assumptions t = s_assumptions s \<and> s_constraint t = s_constraint s"

lemma search_assign_decider: "decider_ok s \<Longrightarrow> lit \<noteq> 0 \<Longrightarrow> decider_ok (search_assign lit why s)"
  by (erule decider_assigned) (auto simp: same_decider_def sgn_if)

lemma driving_may_assign:
  assumes g: "graph_ok M s" and a: "asserting M u s0" and d: "drives u s0 jump d s" and v: "s_trail t = filter (\<lambda>l. lev s l \<le> n) (s_trail s)"
    and gt: "graph_ok M t" and bt: "backtracked n s t" and n: "jump \<le> n" "n < s_level s0"
  shows "may_assign M (- u) (case d of None \<Rightarrow> NoReason | Some c \<Rightarrow> Because c) t"
proof -
  obtain H N CS W P CL I where s: "s = s0\<lparr>s_heap := H, s_next := N, s_clauses := CS, s_watches := W, s_proof := P, s_clause := CL, s_iterating := I\<rparr>"
    using d unfolding drives_def by blast
  have A: "u \<in> set (s_trail s0)" "lev s0 u = s_level s0" "\<forall>k \<in> set (s_clause s0). - k \<in> set (s_trail s0)" "ent M (s_clause s0)"
    using a by (simp_all add: asserting_def)
  have vs: "vals_ok s" and vt: "vals_ok t" using g gt by (simp_all add: graph_ok_def)
  have tr: "s_trail s = s_trail s0" "lev s k = lev s0 k" for k by (simp_all add: s)
  have us: "lit_in s u" using vs A(1) tr by (simp add: vals_ok_def)
  then have nz: "- u \<noteq> 0" "lit_in t (- u)" using bt by (simp_all add: lit_in_def backtracked_def)
  have "- u \<notin> set (s_trail s)" using trail_var_unique [OF vs, of u "- u"] A(1) tr nz(1) by auto
  then have free: "s_vals t (- u) = 0" unfolding vals_iff(3) [OF vt nz(1)] v using A(2) n(2) by (simp add: tr)
  show ?thesis
  proof (cases d)
    case None
    then have "s_clause s0 = [- u]" using d by (simp add: drives_def)
    with None nz free A(4) show ?thesis by (simp add: may_assign_def)
  next
    case (Some e)
    with d have e: "e < s_next s" "set (lits s e) = set (s_clause s0)" "\<forall>k \<in> set (s_clause s0). k \<noteq> - u \<longrightarrow> lev s0 k \<le> jump"
      by (simp_all add: drives_def)
    have "- k \<in> set (s_trail t)" if k: "k \<in> set (s_clause s0)" "k \<noteq> - u" for k
      using A(3) e(3) k n(1) by (simp add: v tr) (use le_trans in blast)
    moreover have "e < s_next t" "set (lits t e) = set (s_clause s0)" using bt e by (simp_all add: backtracked_def)
    ultimately show ?thesis using Some nz free a by (simp add: may_assign_def asserting_def)
  qed
qed

lemma driving_assign_ok:
  assumes "graph_ok M s" and "asserting M u s0" and "drives u s0 jump d s" and "s_trail t = filter (\<lambda>l. lev s l \<le> n) (s_trail s)"
    and gt: "graph_ok M t" and "backtracked n s t" and "jump \<le> n" "n < s_level s0"
  shows "graph_ok M (search_assign_driving (- u) d t)"
  unfolding search_assign_driving_def by (rule search_assign_graph_ok [OF gt driving_may_assign [OF assms]])

text \<open>The states a learned clause passes through.\<close>

definition learning :: "(nat \<Rightarrow> bool) set \<Rightarrow> solver \<Rightarrow> nat option \<Rightarrow> solver \<Rightarrow> bool" where
  "learning M s d t \<longleftrightarrow> (\<exists>u s1 s2 glue jump s3 r s4 s6. quiet s s1 \<and> bump_all s1 s2 \<and> graph_ok M s2 \<and> watches_good s2 \<and> asserting M u s2
     \<and> new_driving_clause glue s2 = (jump, d, s3) \<and> graph_ok M s3 \<and> jump \<le> r \<and> r < s_level s3 \<and> backtracked r s3 s4 \<and> graph_ok M s4
     \<and> quiet (search_assign_driving (- u) d s4) s6 \<and> t = s6\<lparr>s_clause := [], s_conflict := None\<rparr>)"

lemma learn_clause_ok:
  assumes ok: "search_ok M s" and dc: "decider_ok s" and at: "at_conflict M c s" and m: "s_max_var s \<le> 2 ^ 32"
    and na: "uipaux \<Longrightarrow> no_aux_decision aux s"
  shows "\<exists>d t. learn_clause uipaux branchaux aux c s = Inr (d, t) \<and> search_ok M t \<and> decider_ok t \<and> fresh_analysis t \<and> s_conflict t = None
    \<and> s_opts t = s_opts s \<and> s_max_var t = s_max_var s \<and> s_propagated t \<le> length (s_trail t) \<and> s_unsat t = s_unsat s
    \<and> same_query s t \<and> learning M s d t"
proof -
  have g: "graph_ok M s" and lv: "0 < s_level s" and fr: "fresh_analysis s" using at by (simp_all add: at_conflict_def)
  obtain u n gl s1 where s1: "derive_clause uipaux aux c s = Inr (u, n, gl, s1)" "learnable M s u s1"
    using derive_clause_ok [of M c s uipaux aux, OF at na] by blast
  have q1: "quiet s s1" and ma: "marking s s1" using s1(2) by (simp_all add: learnable_def marking_def)
  have g1: "graph_ok M s1" using q1 g same_graph_ok by (auto simp: quiet_def)
  have me: "marked_exact s1"
  proof -
    have so: "seen_ok s1" and v: "vals_ok s1" using ma g1 by (simp_all add: marking_def graph_ok_def)
    have "lit_in s1 k" if "k \<in> set (s_analyzed s1)" for k
    proof -
      have "- k \<in> set (s_trail s1)" using so that by (simp add: seen_ok_def)
      then have "lit_in s1 (- k)" using v unfolding vals_ok_def by blast
      then show ?thesis by (simp add: lit_in_def)
    qed
    with so show ?thesis unfolding marked_exact_def seen_ok_def by blast
  qed
  have ct: "\<forall>k \<in> set (s_clause s1). - k \<in> set (s_trail s1)" using ma by (simp add: marking_def seen_ok_def)
  have d1: "decider_ok s1" using quiet_decider_ok [OF q1 dc] .
  have refl: "bump_all s1 s1" unfolding bump_all_def using reveals_refl bumps_refl by blast
  have "\<exists>s2. (if n > 1 \<and> o_bump (s_opts s1) then bump_variables branchaux aux s1 else Inr s1) = Inr s2 \<and> decider_ok s2 \<and> marked_exact s2 \<and> bump_all s1 s2"
    using bump_variables_ok [OF g1 d1 me ct, of branchaux aux] refl d1 me by auto
  then obtain s2 where s2: "(if n > 1 \<and> o_bump (s_opts s1) then bump_variables branchaux aux s1 else Inr s1) = Inr s2" "decider_ok s2"
    "marked_exact s2" "bump_all s1 s2" by blast
  note B = bump_all_same [OF s2(4)]
  have g2: "graph_ok M s2" using same_graph_ok [OF B(1) g1] .
  have as: "asserting M u s2" by (rule learnable_asserting [OF s1(2) g lv m B(1,8)])
  have w1: "watches_good s1" using quiet_ok [OF q1 ok] by (simp add: search_ok_def)
  have w2: "watches_good s2" by (rule watches_good_cong [OF w1 B(2)]) (use B(1,3) in \<open>simp_all add: same_graph_def\<close>)
  obtain jump d s3 where s3: "new_driving_clause gl s2 = (jump, d, s3)" by (metis prod_cases3)
  note N = new_driving_ok [OF g2 w2 as s3]
  obtain H NX CS W P CL I where e3: "s3 = s2\<lparr>s_heap := H, s_next := NX, s_clauses := CS, s_watches := W, s_proof := P, s_clause := CL, s_iterating := I\<rparr>"
    using N(3) unfolding drives_def by blast
  have d3: "decider_ok s3" by (rule decider_same_vals [OF s2(2)]) (simp_all add: e3 same_decider_def)
  have jump: "jump < s_level s3" using N(3) by (simp add: drives_def e3)
  have "length (s_control s3) = s_level s3 + 1" using N(1) by (simp add: graph_ok_def control_ok_def)
  from backtrack_level_ok [OF this jump] obtain r where r: "determine_actual_backtrack_level jump s3 = Inr r" "jump \<le> r" "r < s_level s3" by blast
  from backtrack_ok [OF N(1) d3 r(3)] obtain s4 where s4: "backtrack_to r s3 = Inr s4" "graph_ok M s4" "decider_ok s4" "backtracked r s3 s4" by blast
  have u0: "u \<noteq> 0"
  proof -
    have "u \<in> set (s_trail s2)" using as by (simp add: asserting_def)
    with g2 show ?thesis by (auto simp: graph_ok_def vals_ok_def lit_in_def)
  qed
  define s5 where "s5 = search_assign_driving (- u) d s4"
  have l3: "r < s_level s2" using r(3) by (simp add: e3)
  have bt: "s_trail s4 = filter (\<lambda>l. lev s3 l \<le> r) (s_trail s3)" using s4(4) by (simp add: backtracked_def)
  have g5: "graph_ok M s5" unfolding s5_def by (rule driving_assign_ok [OF N(1) as N(3) bt s4(2,4) r(2) l3])
  have d5: "decider_ok s5" unfolding s5_def search_assign_driving_def by (rule search_assign_decider [OF s4(3)]) (use u0 in simp)
  let ?s6 = "clear_analyzed_levels (clear_analyzed_literals s5)"
  let ?t = "?s6\<lparr>s_clause := [], s_conflict := None\<rparr>"
  have run: "learn_clause uipaux branchaux aux c s = Inr (d, ?t)"
    by (simp only: learn_clause_def Let_def s1(1) s2(1) s3 r(1) s4(1) bind_res_simps prod.case s5_def if_P [OF u0])
  have q6: "quiet s5 ?s6" by (rule clear_analyzed_quiet)
  have st: "same_graph ?s6 ?t" "same_decider ?s6 ?t" by (simp_all add: same_graph_def same_decider_def)
  have g6: "graph_ok M ?t" using same_graph_ok [OF st(1)] q6 g5 same_graph_ok by (auto simp: quiet_def)
  have d6: "decider_ok ?t" by (rule decider_same_vals [OF quiet_decider_ok [OF q6 d5] st(2)]) simp
  have w5: "watches_good s5" by (rule watches_good_cong [OF N(2)]) (use s4(4) in \<open>simp_all add: s5_def search_assign_driving_def backtracked_def\<close>)
  have w6: "watches_good ?t" by (rule watches_good_cong [OF w5]) (use q6 in \<open>simp_all add: quiet_def same_graph_def\<close>)
  have fl: "\<forall>v. f_seen (s_flags s5 v) = f_seen (s_flags s2 v) \<and> f_keep (s_flags s5 v) = f_keep (s_flags s2 v)
    \<and> f_poison (s_flags s5 v) = f_poison (s_flags s2 v) \<and> f_removable (s_flags s5 v) = f_removable (s_flags s2 v)"
    using s4(4) by (simp add: s5_def search_assign_driving_def backtracked_def e3)
  have fld: "s_analyzed s5 = s_analyzed s2" "s_minimized s5 = s_minimized s2" "s_max_var s5 = s_max_var s2" "s_opts s5 = s_opts s2" "s_unsat s5 = s_unsat s2"
    "s_assumptions s5 = s_assumptions s2" "s_constraint s5 = s_constraint s2"
    using s4(4) by (simp_all add: s5_def search_assign_driving_def backtracked_def e3)
  have "s_propagated s4 \<le> length (s_trail s4)" using s4(4) unfolding backtracked_def by blast
  then have pr: "s_propagated s5 \<le> length (s_trail s5)" by (simp add: s5_def search_assign_driving_def)
  have me5: "marked_exact s5" using s2(3) fl by (simp add: marked_exact_def fld lit_in_def)
  have f1: "\<not> f_keep (s_flags s1 v) \<and> \<not> f_poison (s_flags s1 v) \<and> \<not> f_removable (s_flags s1 v)" "s_minimized s1 = []" for v
    using ma fr by (simp_all add: marking_def fresh_analysis_def)
  have "fresh_analysis ?t"
    by (rule clear_analyzed_fresh [OF me5]) (use fl f1 bump_all_fields(6-8) [OF s2(4)] in \<open>simp_all add: fld B(7)\<close>)
  moreover have "search_ok M ?t" using g6 w6 by (simp add: search_ok_def conflict_ok_def)
  moreover have "s_opts ?t = s_opts s" "s_max_var ?t = s_max_var s" "s_unsat ?t = s_unsat s" "s_propagated ?t \<le> length (s_trail ?t)"
    "same_query s ?t"
    using q6 q1 B(1,5) fld pr by (simp_all add: quiet_def same_graph_def)
  moreover have "learning M s d ?t" unfolding learning_def
    using q1 s2(4) g2 w2 as s3 N(1) r(2,3) s4(4,2) q6 unfolding s5_def by blast
  ultimately show ?thesis using run d6 by (intro exI conjI) (assumption | simp)+
qed

section \<open>Analysis\<close>

text \<open>Changes that do not matter to the loop.\<close>

definition idle :: "solver \<Rightarrow> solver \<Rightarrow> bool" where
  "idle s t \<longleftrightarrow> quiet s t \<and> s_flags t = s_flags s \<and> s_clause t = s_clause s \<and> s_analyzed t = s_analyzed s \<and> s_minimized t = s_minimized s"

lemma idle_refl [simp]: "idle s s"
  by (simp add: idle_def)

lemma idle_trans: "idle s t \<Longrightarrow> idle t u \<Longrightarrow> idle s u"
  by (auto simp: idle_def intro: quiet_trans)

lemma idle_cdcl_ok: "idle s t \<Longrightarrow> cdcl_ok M s \<Longrightarrow> cdcl_ok M t"
  using quiet_ok [of s t M] quiet_decider_ok [of s t] quiet_fields [of s t]
  by (simp add: idle_def cdcl_ok_def fresh_analysis_def quiet_def)

lemma idle_mark_garbage: "c_redundant (s_heap s c) \<Longrightarrow> idle s (mark_garbage c s)"
  by (simp add: idle_def mark_garbage_def quiet_def same_graph_def upd_clause_def Let_def)

lemma eager_idle: "idle s (eager_loop c marks bound ds s)"
proof (induction ds arbitrary: s)
  case (Cons d ds)
  let ?s = "s\<lparr>s_eagertried := s_eagertried s + 1\<rparr>"
  have i: "idle s ?s" by (simp add: idle_def quiet_def same_graph_def)
  have "idle s (eager_loop c marks bound ds ?s)" by (rule idle_trans [OF i Cons.IH])
  moreover have "c_redundant (s_heap ?s d) \<Longrightarrow> idle s (eager_loop c marks bound ds (mark_garbage d ?s))"
    by (rule idle_trans [OF idle_trans [OF i idle_mark_garbage] Cons.IH])
  ultimately show ?case using i unfolding eager_loop.simps Let_def by (simp only: simp_thms if_True if_False split: if_split) blast
qed simp

text \<open>Backtracking to a level up to the current one.\<close>

lemma backtrack_any:
  assumes g: "graph_ok M s" and d: "decider_ok s" and n: "n \<le> s_level s" and p: "s_propagated s \<le> length (s_trail s)"
  shows "\<exists>t. backtrack_to n s = Inr t \<and> graph_ok M t \<and> decider_ok t \<and> backtracked n s t"
proof (cases "n = s_level s")
  case True
  have "filter (\<lambda>l. lev s l \<le> n) (s_trail s) = s_trail s" using level_le [OF g] True by (simp add: filter_id_conv)
  then have "backtracked n s s" using p True g by (simp add: backtracked_def graph_ok_def control_ok_def)
  with g d True show ?thesis by (simp add: backtrack_to_def)
next
  case False
  with backtrack_ok [OF g d, of n] n show ?thesis by simp
qed

lemma level0_conflict:
  assumes g: "graph_ok M s" and c: "c < s_next s" "\<forall>k \<in> set (lits s c). - k \<in> set (s_trail s) \<and> lev s k = 0"
  shows "ent M []"
proof -
  have cok: "clause_ok_on M s (lits s c)" using g c(1) by (simp add: graph_ok_def clauses_ok_def)
  have false: "\<not> lit_on a k" if "a \<in> M" "k \<in> set (lits s c)" for a k
  proof -
    have "ent M [- k]" using level0_ent [OF g, of "- k"] c(2) that(2) by simp
    then have "lit_on a (- k)" using ent_unit_on that(1) by blast
    moreover have "k \<noteq> 0" using cok that(2) by (auto simp: clause_ok_on_def lit_in_def)
    ultimately show ?thesis by simp
  qed
  have "cl_on a (lits s c)" if "a \<in> M" for a using cok that by (simp add: clause_ok_on_def ent_def)
  with false have "M = {}" by (fastforce simp: cl_on_def list_ex_iff)
  then show ?thesis by (simp add: ent_def)
qed

lemma ent_empty: "ent M [] \<Longrightarrow> M = {}"
  by (auto simp: ent_def cl_on_def)

lemma analyze_conflict_unsat:
  assumes ok: "cdcl_ok M s" and g: "graph_ok M s" and c: "s_conflict s = Some c" and z: "\<forall>k \<in> set (lits s c). lev s k = 0"
  shows "cdcl_ok M (learn_empty_clause s)"
proof -
  have co: "c < s_next s" "\<forall>k \<in> set (lits s c). - k \<in> set (s_trail s)" using ok c by (simp_all add: cdcl_ok_def search_ok_def conflict_ok_def)
  have e: "ent M []" by (rule level0_conflict [OF g co(1)]) (use co(2) z in blast)
  let ?t = "s\<lparr>s_proof := s_proof s @ [Derived []]\<rparr>"
  have g1: "graph_ok M ?t" by (rule proof_graph_ok [OF g e])
  have le: "learn_empty_clause s = ?t\<lparr>s_unsat := True\<rparr>" by (simp add: learn_empty_clause_def)
  have "same_graph ?t (learn_empty_clause s)" by (simp add: le same_graph_def)
  then have "graph_ok M (learn_empty_clause s)" using g1 same_graph_ok by blast
  moreover have "watches_good (learn_empty_clause s)"
    by (rule watches_good_cong [of s]) (use ok in \<open>simp_all add: cdcl_ok_def search_ok_def le\<close>)
  moreover have "conflict_ok (learn_empty_clause s)" using ok by (simp add: cdcl_ok_def search_ok_def conflict_ok_def le)
  moreover have "decider_ok (learn_empty_clause s)"
    by (rule decider_same_vals [of s]) (use ok in \<open>simp_all add: cdcl_ok_def le same_decider_def\<close>)
  ultimately show ?thesis using ok ent_empty [OF e] by (simp add: cdcl_ok_def search_ok_def fresh_analysis_def le)
qed

lemma moves_cdcl_ok:
  assumes "moves s t" and "search_ok M t" and "cdcl_ok M s"
  shows "cdcl_ok M t"
proof -
  note F = moves_fields [OF assms(1)]
  have "decider_ok t" by (rule decider_same_vals [OF _ F(14) F(2)]) (use assms(3) in \<open>simp add: cdcl_ok_def\<close>)
  with assms(2,3) show ?thesis by (simp add: cdcl_ok_def fresh_analysis_def F)
qed

lemma backtracked_cdcl_ok:
  assumes ok: "cdcl_ok M s" and b: "backtracked n s t" and gt: "graph_ok M t" and d: "decider_ok t"
    and c: "\<And>c. s_conflict s = Some c \<Longrightarrow> \<forall>k \<in> set (lits s c). lev s k \<le> n"
  shows "cdcl_ok M t"
proof -
  have e: "s_trail t = filter (\<lambda>l. lev s l \<le> n) (s_trail s)" "s_heap t = s_heap s" "s_next t = s_next s" "s_conflict t = s_conflict s"
    "s_watches t = s_watches s" "s_opts t = s_opts s" "s_max_var t = s_max_var s" "s_flags t = s_flags s" "s_clause t = s_clause s"
    "s_analyzed t = s_analyzed s" "s_minimized t = s_minimized s" "s_unsat t = s_unsat s"
    using b by (simp_all add: backtracked_def)
  have p: "s_propagated t \<le> length (s_trail t)" using b unfolding backtracked_def by blast
  have w: "watches_good t" by (rule watches_good_cong [of s]) (use ok e in \<open>simp_all add: cdcl_ok_def search_ok_def\<close>)
  have "conflict_ok t" unfolding conflict_ok_def e
  proof (intro allI impI)
    fix d assume "s_conflict s = Some d"
    with c ok show "d < s_next s \<and> 2 \<le> c_pos (s_heap s d) \<and> c_pos (s_heap s d) \<le> length (lits s d)
        \<and> (\<forall>k \<in> set (lits s d). - k \<in> set (filter (\<lambda>l. lev s l \<le> n) (s_trail s)))"
      by (simp add: cdcl_ok_def search_ok_def conflict_ok_def)
  qed
  with ok gt d w p show ?thesis by (simp add: cdcl_ok_def search_ok_def fresh_analysis_def e)
qed

lemma forced_may_assign:
  assumes g: "graph_ok M s" and co: "c < s_next s" "\<forall>k \<in> set (lits s c). - k \<in> set (s_trail s)"
    and f: "forced \<in> set (lits s c)" "lev s forced = r" "0 < r" "\<forall>k \<in> set (lits s c). k \<noteq> forced \<longrightarrow> lev s k < r"
    and u: "backtracked (r - 1) s u" "graph_ok M u"
  shows "may_assign M forced (Because c) u"
proof -
  have v: "vals_ok s" using g by (simp add: graph_ok_def)
  have tr: "s_trail u = filter (\<lambda>l. lev s l \<le> r - 1) (s_trail s)" "lits u c = lits s c" "s_next u = s_next s" "s_max_var u = s_max_var s"
    using u(1) by (simp_all add: backtracked_def)
  have vu: "vals_ok u" using u(2) by (simp add: graph_ok_def)
  have "lit_in s (- forced)" using co(2) f(1) v by (simp add: vals_ok_def)
  then have fo: "forced \<noteq> 0" "lit_in u forced" by (simp_all add: lit_in_def tr(4))
  have "s_vals u forced = 0" unfolding vals_iff(3) [OF vu fo(1)] tr(1) using f(2,3) by auto
  moreover have "- k \<in> set (s_trail u)" if k: "k \<in> set (lits s c)" "k \<noteq> forced" for k
    using co(2) f(4) k f(3) by (auto simp: tr(1))
  ultimately show ?thesis using fo co f(1) by (simp add: may_assign_def tr)
qed

lemma forced_assign_ok:
  assumes ok: "cdcl_ok M s" and c: "s_conflict s = Some c" and f: "forced \<in> set (lits s c)" "lev s forced = r" "0 < r"
    "\<forall>k \<in> set (lits s c). k \<noteq> forced \<longrightarrow> lev s k < r" and r: "r \<le> s_level s"
  shows "\<exists>u. backtrack_to (r - 1) s = Inr u \<and> cdcl_ok M ((search_assign_driving forced (Some c) u)\<lparr>s_conflict := None\<rparr>)
    \<and> same_query s u \<and> backtracked (r - 1) s u \<and> graph_ok M u"
proof -
  have g: "graph_ok M s" and dc: "decider_ok s" and pr: "s_propagated s \<le> length (s_trail s)"
    and co: "c < s_next s" "\<forall>k \<in> set (lits s c). - k \<in> set (s_trail s)"
    using ok c by (simp_all add: cdcl_ok_def search_ok_def conflict_ok_def)
  have v: "vals_ok s" using g by (simp add: graph_ok_def)
  have "r - 1 < s_level s" using r f(3) by linarith
  from backtrack_ok [OF g dc this] obtain u where u: "backtrack_to (r - 1) s = Inr u" "graph_ok M u" "decider_ok u" "backtracked (r - 1) s u"
    by blast
  have ma: "may_assign M forced (Because c) u" by (rule forced_may_assign [OF g co f u(4,2)])
  have fo: "forced \<noteq> 0" using ma by (simp add: may_assign_def lit_in_def)
  let ?a = "search_assign_driving forced (Some c) u" and ?u = "u\<lparr>s_conflict := None\<rparr>"
  have ga: "graph_ok M ?a" using search_assign_graph_ok [OF u(2) ma] by (simp add: search_assign_driving_def)
  have da: "decider_ok ?a" using search_assign_decider [OF u(3) fo] by (simp add: search_assign_driving_def)
  let ?t = "?a\<lparr>s_conflict := None\<rparr>"
  have st: "same_graph ?a ?t" "same_decider ?a ?t" by (simp_all add: same_graph_def same_decider_def)
  have gt: "graph_ok M ?t" and dt: "decider_ok ?t" using same_graph_ok [OF st(1) ga] decider_same_vals [OF da st(2)] by simp_all
  have w: "watches_good ?t"
    by (rule watches_good_cong [of s]) (use ok u(4) in \<open>simp_all add: cdcl_ok_def search_ok_def search_assign_driving_def backtracked_def\<close>)
  have "s_propagated u \<le> length (s_trail u)" using u(4) unfolding backtracked_def by blast
  moreover have "fresh_analysis ?t" "chrono ?t" "s_max_var ?t = s_max_var s" "s_unsat ?t = s_unsat s"
    using ok u(4) by (simp_all add: cdcl_ok_def fresh_analysis_def search_assign_driving_def backtracked_def)
  ultimately have "cdcl_ok M ?t" using gt dt w ok by (simp add: cdcl_ok_def search_ok_def conflict_ok_def search_assign_driving_def)
  moreover have "same_query s u" using u(4) by (simp add: backtracked_def)
  ultimately show ?thesis using u(1,2,4) by blast
qed

text \<open>The ways analysis ends: the conflict forces a literal, the formula has no model, or a clause is learned.\<close>

definition analyzed :: "(nat \<Rightarrow> bool) set \<Rightarrow> solver \<Rightarrow> solver \<Rightarrow> bool" where
  "analyzed M s t \<longleftrightarrow> (\<exists>c r forced s1. s_conflict s = Some c \<and> find_conflict_level c s = (r, forced, s1) \<and> search_ok M s1 \<and> moves s s1
     \<and> r \<le> s_level s1 \<and>
     (s_unsat t
      \<or> forced \<noteq> 0 \<and> 0 < r \<and> (\<exists>u. backtracked (r - 1) s1 u \<and> graph_ok M u \<and> t = (search_assign_driving forced (Some c) u)\<lparr>s_conflict := None\<rparr>)
      \<or> forced = 0 \<and> 0 < r \<and> (\<exists>s2 d t1. backtracked r s1 s2 \<and> graph_ok M s2 \<and> learning M s2 d t1 \<and> idle t1 t)))"

text \<open>
  Analysis with a conflict: total, and afterwards either the conflict is resolved or the formula has no model.
\<close>

lemma analyze_conflict_ok:
  assumes ok: "cdcl_ok M s" and c: "s_conflict s = Some c" and na: "uipaux \<Longrightarrow> no_aux_decision aux s"
  shows "\<exists>t. analyze_conflict uipaux branchaux aux s = Inr t \<and> cdcl_ok M t \<and> (s_conflict t = None \<or> s_unsat t)
    \<and> same_query s t \<and> analyzed M s t"
proof -
  have so: "search_ok M s" and ch: "chrono s" using ok by (simp_all add: cdcl_ok_def)
  obtain r forced s1 where f: "find_conflict_level c s = (r, forced, s1)" by (metis prod_cases3)
  note F = find_conflict_level_ok [OF so c f]
  note mv = moves_fields [OF F(2)]
  have mq: "same_query s s1" using F(2) by (auto simp: moves_def)
  have ok1: "cdcl_ok M s1" by (rule moves_cdcl_ok [OF F(2,1) ok])
  have c1: "s_conflict s1 = Some c" using c by (simp add: mv)
  have r1: "r \<le> s_level s1" using F(3) by (simp add: mv)
  show ?thesis
  proof (cases "forced = 0")
    case False
    from F(5) [OF this] have fo: "0 < r" "forced \<in> set (lits s c)" "lev s forced = r" "\<forall>k \<in> set (lits s c). k \<noteq> forced \<longrightarrow> lev s k < r"
      by blast+
    have fo1: "forced \<in> set (lits s1 c)" "lev s1 forced = r" "\<forall>k \<in> set (lits s1 c). k \<noteq> forced \<longrightarrow> lev s1 k < r" using fo by (simp_all add: mv)
    from forced_assign_ok [OF ok1 c1 fo1(1,2) fo(1) fo1(3) r1] obtain u where
      u: "backtrack_to (r - 1) s1 = Inr u" "cdcl_ok M ((search_assign_driving forced (Some c) u)\<lparr>s_conflict := None\<rparr>)"
      "same_query s1 u" "backtracked (r - 1) s1 u" "graph_ok M u" by blast
    have "analyze_conflict uipaux branchaux aux s = Inr ((search_assign_driving forced (Some c) u)\<lparr>s_conflict := None\<rparr>)"
      using c ch f False u(1) by (simp add: analyze_conflict_def)
    moreover have "analyzed M s ((search_assign_driving forced (Some c) u)\<lparr>s_conflict := None\<rparr>)"
      unfolding analyzed_def using c f F(1,2) r1 False fo(1) u(4,5) by blast
    ultimately show ?thesis using u(2,3) mq by (simp add: search_assign_driving_def)
  next
    case True
    have g1: "graph_ok M s1" "decider_ok s1" "s_propagated s1 \<le> length (s_trail s1)" using ok1 by (simp_all add: cdcl_ok_def search_ok_def)
    from backtrack_any [OF g1(1,2) r1 g1(3)] obtain s2 where
      s2: "backtrack_to r s1 = Inr s2" "graph_ok M s2" "decider_ok s2" "backtracked r s1 s2" by blast
    have tr: "s_trail s2 = filter (\<lambda>l. lev s1 l \<le> r) (s_trail s1)" "s_level s2 = r" "s_opts s2 = s_opts s1" "lits s2 c = lits s1 c"
      "lev s2 k = lev s1 k" "rsn s2 k = rsn s1 k" "s_conflict s2 = Some c" "same_query s1 s2" for k
      using s2(4) c1 by (simp_all add: backtracked_def)
    have le: "\<forall>k \<in> set (lits s1 c). lev s1 k \<le> r" using F(4) by (simp add: mv)
    have ok2: "cdcl_ok M s2" by (rule backtracked_cdcl_ok [OF ok1 s2(4,2,3)]) (use c1 le in simp)
    have "(case find_conflict_level c s of (conflict_level, forced, s) \<Rightarrow>
        if forced \<noteq> 0 then bind_res (backtrack_to (conflict_level - 1) s) (\<lambda>s.
            Inr (True, (search_assign_driving forced (Some c) s)\<lparr>s_conflict := None\<rparr>))
        else bind_res (backtrack_to conflict_level s) (\<lambda>s. Inr (False, s))) = Inr (False, s2)"
      using f True s2(1) by simp
    then have run: "analyze_conflict uipaux branchaux aux s = (if s_level s2 = 0 then Inr (learn_empty_clause s2)
        else bind_res (learn_clause uipaux branchaux aux c s2) (\<lambda>(driving, s).
          case driving of Some d \<Rightarrow> Inr (if o_eagersubsume (s_opts s) then eagerly_subsume_recently_learned_clauses d s else s)
            | None \<Rightarrow> Inr s))"
      using c ch by (simp add: analyze_conflict_def)
    show ?thesis
    proof (cases "r = 0")
      case True
      have "cdcl_ok M (learn_empty_clause s2)" by (rule analyze_conflict_unsat [OF ok2 s2(2) tr(7)]) (use le True in \<open>simp add: tr\<close>)
      moreover have "analyzed M s (learn_empty_clause s2)"
        unfolding analyzed_def using c f F(1,2) r1 by (auto simp: learn_empty_clause_def)
      ultimately show ?thesis using run True mq tr(8) by (simp add: tr(2) learn_empty_clause_def)
    next
      case False
      have S: "search_ok M s2" "decider_ok s2" "fresh_analysis s2" "s_max_var s2 \<le> 2 ^ 32" "chrono s2" using ok2 by (simp_all add: cdcl_ok_def)
      have "c < s_next s2" "\<forall>k \<in> set (lits s2 c). - k \<in> set (s_trail s2)" using S(1) tr(7) by (simp_all add: search_ok_def conflict_ok_def)
      moreover have "\<exists>k \<in> set (lits s2 c). lev s2 k = s_level s2" using F(6) [OF True] False by (auto simp: tr mv)
      ultimately have at: "at_conflict M c s2" using S s2(2) False by (simp add: at_conflict_def tr(2))
      have na2: "no_aux_decision aux s2" if uipaux
        using na [OF that] by (auto simp: no_aux_decision_def tr mv)
      from learn_clause_ok [OF S(1,2) at S(4) na2, of uipaux branchaux] obtain d t where
        t: "learn_clause uipaux branchaux aux c s2 = Inr (d, t)" "search_ok M t" "decider_ok t" "fresh_analysis t" "s_conflict t = None"
        "s_opts t = s_opts s2" "s_max_var t = s_max_var s2" "s_propagated t \<le> length (s_trail t)" "s_unsat t = s_unsat s2"
        "same_query s2 t" "learning M s2 d t" by blast
      have an: "analyzed M s v" if "idle t v" for v
        unfolding analyzed_def using c f F(1,2) r1 True False s2(4,2) t(11) that by blast
      have okt: "cdcl_ok M t" using t S ok2 by (simp add: cdcl_ok_def)
      have e: "idle t (eagerly_subsume_recently_learned_clauses x t)" for x
        unfolding eagerly_subsume_recently_learned_clauses_def by (rule eager_idle)
      have "s_conflict (eagerly_subsume_recently_learned_clauses x t) = None" "same_query t (eagerly_subsume_recently_learned_clauses x t)" for x
        using e [of x] t(5) by (simp_all add: idle_def quiet_def same_graph_def)
      with run mq tr(8) t(10) an [OF e] an [OF idle_refl] t(1,5) False okt idle_cdcl_ok [OF e okt] show ?thesis by (cases d) (simp_all add: tr(2))
    qed
  qed
qed

end
