(* ===== verification/Search_Watch.thy ===== *)
theory Search_Watch
  imports Search_Learn_Sound
begin

text \<open>
  The watch invariant: a clause with a false watch among the literals propagated has a true literal, and for each
  decision level, if the false watch is on the trail before the level, the true literal is on a lower level, so
  that backtracking keeps it.  With all literals propagated, every clause in use is satisfied by a full trail.
\<close>

section \<open>The invariant\<close>

definition live :: "solver \<Rightarrow> nat \<Rightarrow> bool" where
  "live s c \<longleftrightarrow> c < s_next s \<and> \<not> c_garbage (s_heap s c)"

definition true_in :: "solver \<Rightarrow> nat \<Rightarrow> bool" where
  "true_in s c \<longleftrightarrow> (\<exists>k \<in> set (lits s c). k \<in> set (s_trail s))"

definition true_below :: "solver \<Rightarrow> nat \<Rightarrow> nat \<Rightarrow> bool" where
  "true_below s j c \<longleftrightarrow> (\<exists>k \<in> set (lits s c). k \<in> set (s_trail s) \<and> lev s k < j)"

text \<open>One of the two watched literals is false within the first \<open>p\<close> literals of the trail.\<close>

definition wfalse :: "solver \<Rightarrow> nat \<Rightarrow> nat \<Rightarrow> bool" where
  "wfalse s p c \<longleftrightarrow> - (lits s c ! 0) \<in> set (take p (s_trail s)) \<or> - (lits s c ! 1) \<in> set (take p (s_trail s))"

definition watched :: "solver \<Rightarrow> bool" where
  "watched s \<longleftrightarrow> (\<forall>c. live s c \<longrightarrow> c \<in> w_clause ` set (s_watches s (lits s c ! 0)) \<and> c \<in> w_clause ` set (s_watches s (lits s c ! 1)))"

definition marks_ok :: "solver \<Rightarrow> bool" where
  "marks_ok s \<longleftrightarrow> (\<forall>j. 0 < j \<longrightarrow> j \<le> s_level s \<longrightarrow> l_trail (s_control s ! j) \<le> s_propagated s)"

definition prefixes_ok :: "nat set \<Rightarrow> solver \<Rightarrow> bool" where
  "prefixes_ok X s \<longleftrightarrow> (\<forall>j c. 0 < j \<longrightarrow> j \<le> s_level s \<longrightarrow> live s c \<longrightarrow> c \<notin> X \<longrightarrow> wfalse s (l_trail (s_control s ! j)) c \<longrightarrow> true_below s j c)"

definition front_ok :: "nat set \<Rightarrow> solver \<Rightarrow> bool" where
  "front_ok X s \<longleftrightarrow> (\<forall>c. live s c \<longrightarrow> c \<notin> X \<longrightarrow> wfalse s (s_propagated s) c \<longrightarrow> true_in s c)"

definition watch_inv :: "solver \<Rightarrow> bool" where
  "watch_inv s \<longleftrightarrow> watched s \<and> marks_ok s \<and> prefixes_ok {} s \<and> (s_conflict s = None \<longrightarrow> front_ok {} s)"

text \<open>The clauses of a state as a later state has them.\<close>

definition carries :: "solver \<Rightarrow> solver \<Rightarrow> bool" where
  "carries s t \<longleftrightarrow> s_next s \<le> s_next t \<and> (\<forall>c < s_next s. set (lits t c) = set (lits s c) \<and> c_redundant (s_heap t c) = c_redundant (s_heap s c)
     \<and> (\<not> c_redundant (s_heap s c) \<longrightarrow> c_garbage (s_heap t c) = c_garbage (s_heap s c)))"

lemma carries_refl [simp]: "carries s s"
  by (simp add: carries_def)

lemma carries_trans: "carries s t \<Longrightarrow> carries t u \<Longrightarrow> carries s u"
  unfolding carries_def by auto

text \<open>Changes that do not matter.\<close>

definition tame :: "solver \<Rightarrow> solver \<Rightarrow> bool" where
  "tame s t \<longleftrightarrow> s_trail t = s_trail s \<and> (\<forall>i. v_level (s_vtab t i) = v_level (s_vtab s i)) \<and> s_level t = s_level s
     \<and> map l_trail (s_control t) = map l_trail (s_control s) \<and> s_next t = s_next s \<and> (\<forall>c. lits t c = lits s c)
     \<and> s_watches t = s_watches s \<and> s_propagated t = s_propagated s \<and> s_assumptions t = s_assumptions s \<and> s_constraint t = s_constraint s
     \<and> (\<forall>c. c_redundant (s_heap t c) = c_redundant (s_heap s c) \<and> (c_garbage (s_heap s c) \<longrightarrow> c_garbage (s_heap t c))
          \<and> (\<not> c_redundant (s_heap s c) \<longrightarrow> c_garbage (s_heap t c) = c_garbage (s_heap s c)))"

lemma quiet_tame: "quiet s t \<Longrightarrow> tame s t"
  by (simp add: quiet_def same_graph_def tame_def)

lemma tame_carries: "tame s t \<Longrightarrow> carries s t"
  by (simp add: tame_def carries_def)

lemma tame_trans: "tame s t \<Longrightarrow> tame t u \<Longrightarrow> tame s u"
  unfolding tame_def by auto

lemma tame_watch:
  assumes t: "tame s t" and len: "length (s_control s) = s_level s + 1"
  shows "watched s \<Longrightarrow> watched t" "marks_ok s \<Longrightarrow> marks_ok t" "prefixes_ok X s \<Longrightarrow> prefixes_ok X t" "front_ok X s \<Longrightarrow> front_ok X t"
proof -
  have eq: "s_trail t = s_trail s" "\<And>i. v_level (s_vtab t i) = v_level (s_vtab s i)" "s_level t = s_level s" "s_next t = s_next s"
    "\<And>c. lits t c = lits s c" "s_watches t = s_watches s" "s_propagated t = s_propagated s"
    using t by (simp_all add: tame_def)
  have ctrl: "l_trail (s_control t ! j) = l_trail (s_control s ! j)" if "j \<le> s_level s" for j
    by (rule map_eq_nth [symmetric]) (use t that len in \<open>simp_all add: tame_def\<close>)
  have live: "live t c \<Longrightarrow> live s c" for c using t by (auto simp: live_def tame_def)
  have same: "true_in t c = true_in s c" "true_below t j c = true_below s j c" "wfalse t p c = wfalse s p c" for c j p
    by (simp_all add: true_in_def true_below_def wfalse_def eq)
  show "watched s \<Longrightarrow> watched t" "front_ok X s \<Longrightarrow> front_ok X t"
    using live unfolding watched_def front_ok_def same eq by blast+
  show "marks_ok s \<Longrightarrow> marks_ok t" "prefixes_ok X s \<Longrightarrow> prefixes_ok X t"
    using live ctrl unfolding marks_ok_def prefixes_ok_def same eq by simp_all
qed

lemma tame_watch_inv: "tame s t \<Longrightarrow> graph_ok M s \<Longrightarrow> s_conflict t = s_conflict s \<Longrightarrow> watch_inv s \<Longrightarrow> watch_inv t"
  using tame_watch [of s t] by (simp add: watch_inv_def graph_ok_def control_ok_def)

section \<open>The assumptions and the constraint\<close>

text \<open>The first levels make the assumptions true, the next one the constraint.\<close>

definition query_ok :: "solver \<Rightarrow> bool" where
  "query_ok s \<longleftrightarrow> (\<forall>k < s_level s. k < length (s_assumptions s) \<longrightarrow> s_assumptions s ! k \<in> set (s_trail s) \<and> lev s (s_assumptions s ! k) \<le> k + 1)
     \<and> (length (s_assumptions s) < s_level s \<longrightarrow> s_constraint s \<noteq> []
          \<longrightarrow> (\<exists>l \<in> set (s_constraint s). l \<in> set (s_trail s) \<and> lev s l \<le> length (s_assumptions s) + 1))"

text \<open>The literals up to the level of the later state stay.\<close>

definition retains :: "solver \<Rightarrow> solver \<Rightarrow> bool" where
  "retains s t \<longleftrightarrow> s_level t \<le> s_level s \<and> same_query s t
     \<and> (\<forall>l \<in> set (s_trail s). lev s l \<le> s_level t \<longrightarrow> l \<in> set (s_trail t) \<and> lev t l = lev s l)"

lemma retains_refl [simp]: "retains s s"
  by (simp add: retains_def)

lemma retains_trans:
  assumes "retains s t" and "retains t u"
  shows "retains s u"
proof -
  have "l \<in> set (s_trail u) \<and> lev u l = lev s l" if "l \<in> set (s_trail s)" "lev s l \<le> s_level u" for l
    using assms that unfolding retains_def by (metis le_trans)
  with assms show ?thesis unfolding retains_def by auto
qed

lemma query_retained:
  assumes q: "query_ok s" and r: "retains s t"
  shows "query_ok t"
proof -
  let ?A = "s_assumptions s"
  have e: "s_assumptions t = ?A" "s_constraint t = s_constraint s" "s_level t \<le> s_level s" using r by (simp_all add: retains_def)
  have k: "l \<in> set (s_trail t) \<and> lev t l = lev s l" if "l \<in> set (s_trail s)" "lev s l \<le> s_level t" for l
    using r that unfolding retains_def by blast
  have "?A ! i \<in> set (s_trail t) \<and> lev t (?A ! i) \<le> i + 1" if i: "i < s_level t" "i < length ?A" for i
  proof -
    have "?A ! i \<in> set (s_trail s)" "lev s (?A ! i) \<le> i + 1" using q i e(3) unfolding query_ok_def by auto
    with k [of "?A ! i"] i(1) show ?thesis by auto
  qed
  moreover have "\<exists>l \<in> set (s_constraint s). l \<in> set (s_trail t) \<and> lev t l \<le> length ?A + 1"
    if c: "length ?A < s_level t" "s_constraint s \<noteq> []"
  proof -
    obtain l where "l \<in> set (s_constraint s)" "l \<in> set (s_trail s)" "lev s l \<le> length ?A + 1"
      using q c e(3) unfolding query_ok_def by auto
    with k [of l] c(1) show ?thesis by auto
  qed
  ultimately show ?thesis by (simp add: query_ok_def e)
qed

lemma tame_retains: "tame s t \<Longrightarrow> retains s t"
  by (simp add: tame_def retains_def)

lemma moves_retains: "moves s t \<Longrightarrow> retains s t"
  by (auto simp: moves_def retains_def)

lemma backtracked_retains: "backtracked n s t \<Longrightarrow> n \<le> s_level s \<Longrightarrow> retains s t"
  by (simp add: backtracked_def retains_def)

lemma assign_retains: "vals_ok s \<Longrightarrow> lit_in s l \<Longrightarrow> s_vals s l = 0 \<Longrightarrow> retains s (search_assign l why s)"
  using assign_lev [of s l _ why] by (simp add: retains_def)

lemma advances_retains: "advances s t \<Longrightarrow> retains s t"
  by (auto simp: advances_def extends_def retains_def)

section \<open>Assigning and deciding\<close>

lemma assign_watch:
  assumes g: "graph_ok M s" and l: "lit_in s l" "s_vals s l = 0" and p: "s_propagated s \<le> length (s_trail s)"
  shows "watched s \<Longrightarrow> watched (search_assign l why s)" "marks_ok s \<Longrightarrow> marks_ok (search_assign l why s)"
    "prefixes_ok X s \<Longrightarrow> prefixes_ok X (search_assign l why s)" "front_ok X s \<Longrightarrow> front_ok X (search_assign l why s)"
proof -
  let ?t = "search_assign l why s"
  have v: "vals_ok s" and ct: "control_ok s" using g by (simp_all add: graph_ok_def)
  have lev: "lev ?t k = lev s k" if "k \<in> set (s_trail s)" for k by (rule assign_lev [OF v l that])
  have live: "live ?t c = live s c" for c by (simp add: live_def)
  have sub: "lits ?t c = lits s c" "set (s_trail s) \<subseteq> set (s_trail ?t)" for c by auto
  have up: "true_in s c \<Longrightarrow> true_in ?t c" "true_below s j c \<Longrightarrow> true_below ?t j c" for c j
    using sub(2) lev unfolding true_in_def true_below_def sub(1) by (metis subsetD)+
  have wf: "wfalse ?t p c = wfalse s p c" if "p \<le> length (s_trail s)" for p c using that by (simp add: wfalse_def)
  have mk: "l_trail (s_control s ! j) \<le> length (s_trail s)" if "0 < j" "j \<le> s_level s" for j using ct that by (simp add: control_ok_def)
  show "watched s \<Longrightarrow> watched ?t" unfolding watched_def live by simp
  show "marks_ok s \<Longrightarrow> marks_ok ?t" by (simp add: marks_ok_def)
  show "prefixes_ok X s \<Longrightarrow> prefixes_ok X ?t" unfolding prefixes_ok_def live using wf mk up(2) by simp
  show "front_ok X s \<Longrightarrow> front_ok X ?t" unfolding front_ok_def live using wf p up(1) by simp
qed

lemma push_level_watch:
  assumes g: "graph_ok M s" and c: "s_conflict s = None" and p: "s_propagated s = length (s_trail s)" and w: "watch_inv s"
  shows "watch_inv (push_level d s)"
proof -
  let ?t = "push_level d s"
  have len: "length (s_control s) = s_level s + 1" using g by (simp add: graph_ok_def control_ok_def)
  have ctrl: "s_control ?t ! j = s_control s ! j" if "j \<le> s_level s" for j using that len by (simp add: nth_append)
  have new: "l_trail (s_control ?t ! (s_level s + 1)) = length (s_trail s)" using len by (simp add: nth_append mk_level_def)
  have same: "live ?t c = live s c" "true_in ?t c = true_in s c" "true_below ?t j c = true_below s j c" "wfalse ?t p c = wfalse s p c" for c j p
    by (simp_all add: live_def true_in_def true_below_def wfalse_def)
  have fr: "front_ok {} s" using w c by (simp add: watch_inv_def)
  have "true_below s (s_level s + 1) c" if "live s c" "wfalse s (length (s_trail s)) c" for c
  proof -
    have "true_in s c" using fr that p by (simp add: front_ok_def)
    then show ?thesis using level_le [OF g] unfolding true_in_def true_below_def by fastforce
  qed
  then have "prefixes_ok {} ?t"
    using w new ctrl unfolding prefixes_ok_def same watch_inv_def by (auto simp: le_Suc_eq)
  moreover have "marks_ok ?t" using w p new ctrl unfolding marks_ok_def watch_inv_def by (auto simp: le_Suc_eq)
  moreover have "watched ?t" using w unfolding watched_def same watch_inv_def by simp
  moreover have "front_ok {} ?t" using fr unfolding front_ok_def same by simp
  ultimately show ?thesis by (simp add: watch_inv_def)
qed

section \<open>Backtracking\<close>

lemma backtracked_watch:
  assumes g: "graph_ok M s" and b: "backtracked n s t" and n: "n < s_level s" and m: "marks_ok s" and pr: "prefixes_ok X s" and w: "watched s"
  shows "watched t" "marks_ok t" "prefixes_ok X t" "front_ok X t"
proof -
  have ct: "control_ok s" using g by (simp add: graph_ok_def)
  define a where "a = l_trail (s_control s ! (n + 1))"
  have e: "s_trail t = filter (\<lambda>l. lev s l \<le> n) (s_trail s)" "s_level t = n" "\<And>i. v_level (s_vtab t i) = v_level (s_vtab s i)"
    "s_heap t = s_heap s" "s_next t = s_next s" "s_watches t = s_watches s" "s_control t = take (n + 1) (s_control s)"
    "s_propagated t = min (s_propagated s) a"
    using b n by (simp_all add: backtracked_def a_def)
  have "a \<le> s_propagated s" using m n by (simp add: marks_ok_def a_def)
  then have p: "s_propagated t = a" by (simp add: e)
  have al: "a \<le> length (s_trail s)" "\<forall>i < a. lev s (s_trail s ! i) < n + 1" using ct n unfolding control_ok_def a_def by simp_all
  have tk: "take q (s_trail t) = take q (s_trail s)" if "q \<le> a" for q
  proof -
    have "filter (\<lambda>l. lev s l \<le> n) (take a (s_trail s)) = take a (s_trail s)"
      using al by (auto simp: filter_id_conv in_set_conv_nth less_Suc_eq_le)
    then have "s_trail t = take a (s_trail s) @ filter (\<lambda>l. lev s l \<le> n) (drop a (s_trail s))"
      unfolding e(1) by (metis append_take_drop_id filter_append)
    then show ?thesis using that al(1) by simp
  qed
  have mono: "l_trail (s_control s ! j) \<le> a" if "0 < j" "j \<le> n" for j using ct that n by (simp add: control_ok_def a_def)
  have live: "live t c = live s c" for c by (simp add: live_def e)
  have wf: "wfalse t q c = wfalse s q c" if "q \<le> a" for q c using tk [OF that] by (simp add: wfalse_def e(4))
  have tb: "true_below s j c \<Longrightarrow> true_below t j c" if "j \<le> n + 1" for j c
    using that unfolding true_below_def e by auto
  have ti: "true_below s (n + 1) c \<Longrightarrow> true_in t c" for c unfolding true_below_def true_in_def e by auto
  show "watched t" using w unfolding watched_def live e .
  show "marks_ok t" using mono by (simp add: marks_ok_def p e(2,7))
  show "prefixes_ok X t" unfolding prefixes_ok_def e(2) live
  proof (intro allI impI)
    fix j c assume j: "0 < j" "j \<le> n" and c: "live s c" "c \<notin> X" "wfalse t (l_trail (s_control t ! j)) c"
    then have "wfalse s (l_trail (s_control s ! j)) c" using wf [OF mono] by (simp add: e(7))
    with pr j c n have "true_below s j c" by (simp add: prefixes_ok_def)
    then show "true_below t j c" using tb [of j] j(2) by simp
  qed
  show "front_ok X t" unfolding front_ok_def p live
  proof (intro allI impI)
    fix c assume c: "live s c" "c \<notin> X" "wfalse t a c"
    then have "wfalse s (l_trail (s_control s ! (n + 1))) c" using wf [of a] by (simp add: a_def)
    with pr c n have "true_below s (n + 1) c" by (simp add: prefixes_ok_def)
    then show "true_in t c" by (rule ti)
  qed
qed

end
