(* ===== verification/Search_Watch_Analyze.thy ===== *)
theory Search_Watch_Analyze
  imports Search_Watch
begin

text \<open>
  Conflict analysis keeps the watch invariant: the conflict is watched by literals of the highest levels, and
  the clause that drives the assignment after backtracking is watched by the literal assigned and one of the level
  it is assigned on.
\<close>

section \<open>The literals moved to the front\<close>

lemma highest_scan_max:
  assumes "\<forall>k \<in> set ls. lev s k \<le> r" and "highest_scan s r ls j (pos, level) = (p, l)"
  shows "level \<le> l \<and> (\<forall>k \<in> set ls. lev s k \<le> l) \<and> (p = pos \<and> l = level \<or> j \<le> p \<and> p < j + length ls \<and> lev s (ls ! (p - j)) = l)"
  using assms
proof (induction ls arbitrary: j pos level)
  case (Cons k ls)
  have le: "\<forall>k \<in> set ls. lev s k \<le> r" "lev s k \<le> r" using Cons.prems(1) by simp_all
  have nth: "(k # ls) ! (p - j) = ls ! (p - (j + 1))" if "j + 1 \<le> p"
  proof -
    have "p - j = Suc (p - (j + 1))" using that by simp
    then show ?thesis by simp
  qed
  consider (old) "lev s k \<le> level" | (stop) "level < lev s k" "lev s k = r" | (new) "level < lev s k" "lev s k \<noteq> r" by linarith
  then show ?case
  proof cases
    case old
    then have "highest_scan s r ls (j + 1) (pos, level) = (p, l)" using Cons.prems(2) by (simp add: Let_def)
    from Cons.IH [OF le(1) this] old nth show ?thesis by auto
  next
    case stop
    then have "p = j" "l = lev s k" using Cons.prems(2) by (auto simp: Let_def)
    with stop le show ?thesis by simp
  next
    case new
    then have "highest_scan s r ls (j + 1) (j, lev s k) = (p, l)" using Cons.prems(2) by (auto simp: Let_def)
    from Cons.IH [OF le(1) this] new nth show ?thesis by auto
  qed
qed simp

text \<open>One of the first two literals exchanged for one of the highest level from its position on.\<close>

definition watch_moved :: "nat \<Rightarrow> int \<Rightarrow> int \<Rightarrow> solver \<Rightarrow> solver \<Rightarrow> bool" where
  "watch_moved c lit high s t \<longleftrightarrow> (\<exists>w. w_clause w = c
     \<and> s_watches t = (s_watches s)(lit := remove_watch c (s_watches s lit), high := s_watches s high @ [w]))"

lemma move_highest_front:
  fixes c r i s
  defines "t \<equiv> move_highest c r i s" and "ls \<equiv> lits s c"
  assumes le: "\<forall>k \<in> set ls. lev s k \<le> r" and i: "i < length ls" and d: "distinct ls"
  shows "\<exists>p. i \<le> p \<and> p < length ls \<and> lits t c = ls[p := ls ! i, i := ls ! p] \<and> (\<forall>j. i \<le> j \<longrightarrow> j < length ls \<longrightarrow> lev s (ls ! j) \<le> lev s (ls ! p))
    \<and> (\<forall>d. d \<noteq> c \<longrightarrow> lits t d = lits s d) \<and> (if p \<le> 1 \<or> p = i then s_watches t = s_watches s else watch_moved c (ls ! i) (ls ! p) s t)"
proof -
  obtain p l where hs: "highest_scan s r (drop (i + 1) ls) (i + 1) (i, lev s (ls ! i)) = (p, l)" by fastforce
  have "\<forall>k \<in> set (drop (i + 1) ls). lev s k \<le> r" using le by (auto dest: in_set_dropD)
  note H = highest_scan_max [OF this hs]
  have p: "i \<le> p" "p < length ls" "lev s (ls ! p) = l"
  proof -
    have "p = i \<and> l = lev s (ls ! i) \<or> i + 1 \<le> p \<and> p < i + 1 + length (drop (i + 1) ls) \<and> lev s (drop (i + 1) ls ! (p - (i + 1))) = l"
      using H by blast
    then show "i \<le> p" "p < length ls" "lev s (ls ! p) = l" using i by auto
  qed
  have mx: "lev s (ls ! j) \<le> lev s (ls ! p)" if "i \<le> j" "j < length ls" for j
  proof (cases "j = i")
    case True
    with H p(3) show ?thesis by simp
  next
    case False
    then have "ls ! j = drop (i + 1) ls ! (j - (i + 1))" "j - (i + 1) < length (drop (i + 1) ls)" using that by auto
    then have "ls ! j \<in> set (drop (i + 1) ls)" by (simp only: nth_mem)
    with H p(3) show ?thesis by simp
  qed
  show ?thesis
  proof (cases "p = i")
    case True
    then have "t = s" using hs by (simp add: t_def ls_def move_highest_def Let_def)
    then have "lits t c = ls[p := ls ! i, i := ls ! p]" "\<forall>d. d \<noteq> c \<longrightarrow> lits t d = lits s d"
      "if p \<le> 1 \<or> p = i then s_watches t = s_watches s else watch_moved c (ls ! i) (ls ! p) s t" using True by (simp_all add: ls_def)
    with p(1,2) mx show ?thesis by blast
  next
    case False
    have ne: "ls ! p \<noteq> ls ! i" using False p i d by (simp add: nth_eq_iff_index_eq)
    let ?f = "c_lits_update (\<lambda>ls. ls[p := ls ! i, i := ls ! p])"
    let ?u = "s\<lparr>s_watches := (s_watches s)(ls ! i := remove_watch c (s_watches s (ls ! i)))\<rparr>"
    let ?g = "c_lits_update (\<lambda>xs. xs[p := ls ! i, i := ls ! p])"
    have run: "t = (if p > 1 then watch_literal (ls ! p) (c_lits (s_heap (upd_clause c ?g ?u) c) ! (if i = 0 then 1 else 0)) c (upd_clause c ?g ?u)
        else upd_clause c ?g s)"
      using hs False by (simp add: t_def ls_def move_highest_def Let_def)
    have "lits t c = ls[p := ls ! i, i := ls ! p]" "\<forall>d. d \<noteq> c \<longrightarrow> lits t d = lits s d" unfolding run by (simp_all add: watch_literal_def ls_def)
    moreover have "p \<le> 1 \<longrightarrow> s_watches t = s_watches s" unfolding run by simp
    moreover have "watch_moved c (ls ! i) (ls ! p) s t" if "1 < p"
      unfolding run watch_moved_def
      by (rule exI [of _ "\<lparr>w_clause = c, w_blit = c_lits (s_heap (upd_clause c ?g ?u) c) ! (if i = 0 then 1 else 0), w_size = length ls\<rparr>"])
        (use ne that in \<open>simp add: watch_literal_def ls_def\<close>)
    ultimately have "lits t c = ls[p := ls ! i, i := ls ! p]" "\<forall>d. d \<noteq> c \<longrightarrow> lits t d = lits s d"
      "if p \<le> 1 \<or> p = i then s_watches t = s_watches s else watch_moved c (ls ! i) (ls ! p) s t" using False by simp_all
    then show ?thesis using p(1,2) mx by blast
  qed
qed

lemma watchedI: "(\<And>d l. live t d \<Longrightarrow> l \<in> {lits t d ! 0, lits t d ! 1} \<Longrightarrow> d \<in> w_clause ` set (s_watches t l)) \<Longrightarrow> watched t"
  unfolding watched_def by blast

lemma moves_live:
  assumes "moves s t"
  shows "live t d = live s d"
proof -
  obtain H W where t: "t = s\<lparr>s_heap := H, s_watches := W\<rparr>" and k: "\<forall>d. permutes (s_heap s d) (H d) \<and> same_kind (s_heap s d) (H d)"
    using assms unfolding moves_def by blast
  have "c_garbage (H d) = c_garbage (s_heap s d)" using k by blast
  then show ?thesis unfolding live_def t by simp
qed

lemma move_highest_watched:
  assumes w: "watched s" and c: "distinct (lits s c)" "2 \<le> length (lits s c)" and le: "\<forall>k \<in> set (lits s c). lev s k \<le> r" and i: "i < 2"
    and mv: "moves s (move_highest c r i s)"
  shows "watched (move_highest c r i s)"
proof -
  let ?t = "move_highest c r i s" and ?ls = "lits s c"
  have il: "i < length ?ls" using c(2) i by simp
  from move_highest_front [OF le il c(1)] obtain p where p: "i \<le> p" "p < length ?ls" "lits ?t c = ?ls[p := ?ls ! i, i := ?ls ! p]"
    "\<forall>d. d \<noteq> c \<longrightarrow> lits ?t d = lits s d" "if p \<le> 1 \<or> p = i then s_watches ?t = s_watches s else watch_moved c (?ls ! i) (?ls ! p) s ?t"
    by (elim exE conjE) (rule that; assumption)
  have live: "live ?t d = live s d" for d by (rule moves_live [OF mv])
  have old: "d \<in> w_clause ` set (s_watches s l)" if "live s d" "l \<in> {lits s d ! 0, lits s d ! 1}" for d l
    using w that unfolding watched_def by blast
  have "d \<in> w_clause ` set (s_watches ?t l)" if d: "live s d" and l: "l \<in> {lits ?t d ! 0, lits ?t d ! 1}" for d l
  proof (cases "p \<le> 1 \<or> p = i")
    case True
    have "{lits ?t d ! 0, lits ?t d ! 1} = {lits s d ! 0, lits s d ! 1}"
    proof (cases "d = c")
      case True
      have "0 < length ?ls" "1 < length ?ls" using c(2) by linarith+
      moreover have "p = i \<or> i = 0 \<and> p = 1" using \<open>p \<le> 1 \<or> p = i\<close> p(1) by linarith
      ultimately show ?thesis unfolding True p(3) by (elim disjE conjE) (simp_all add: insert_commute)
    qed (use p(4) in simp)
    with l have "l \<in> {lits s d ! 0, lits s d ! 1}" by blast
    with old [OF d] True p(5) show ?thesis by simp
  next
    case False
    then have "watch_moved c (?ls ! i) (?ls ! p) s ?t" using p(5) by simp
    then obtain w where W: "w_clause w = c" "s_watches ?t = (s_watches s)(?ls ! i := remove_watch c (s_watches s (?ls ! i)), ?ls ! p := s_watches s (?ls ! p) @ [w])"
      unfolding watch_moved_def by blast
    have keep: "d \<in> w_clause ` set (s_watches ?t l)" if "d \<in> w_clause ` set (s_watches s l)" "d \<noteq> c \<or> l \<noteq> ?ls ! i" for d l
      using that unfolding W(2) by (auto simp: remove_watch_def)
    show ?thesis
    proof (cases "d = c")
      case False
      with p(4) l have "l \<in> {lits s d ! 0, lits s d ! 1}" by simp
      from keep [OF old [OF d this]] False show ?thesis by simp
    next
      case True
      define o' where "o' = (if i = 0 then 1 else 0 :: nat)"
      have o: "o' < length ?ls" "o' \<noteq> p" "o' \<noteq> i" "o' \<in> {0, 1}" using c(2) i False by (auto simp: o'_def)
      have "0 < length ?ls" using p(2) by linarith
      then have "{lits ?t d ! 0, lits ?t d ! 1} = {?ls ! p, ?ls ! o'}"
        unfolding True p(3) using i c(2) p(2) False by (cases i) (auto simp: o'_def less_Suc_eq nth_list_update)
      then have "l = ?ls ! p \<or> l = ?ls ! o'" using l by blast
      then show ?thesis
      proof
        assume "l = ?ls ! p"
        then show ?thesis using W True by simp
      next
        assume l: "l = ?ls ! o'"
        have "l \<in> {lits s d ! 0, lits s d ! 1}" using o(4) unfolding l True by auto
        moreover have "l \<noteq> ?ls ! i" using l o il c(1) by (simp add: nth_eq_iff_index_eq)
        ultimately show ?thesis using keep [OF old [OF d]] by simp
      qed
    qed
  qed
  then show ?thesis by (intro watchedI) (simp add: live)
qed

text \<open>What does not depend on the order of the literals of one clause.\<close>

lemma moves_watch:
  assumes m: "moves s t" and o: "\<forall>d. d \<noteq> c \<longrightarrow> lits t d = lits s d"
  shows "marks_ok s \<Longrightarrow> marks_ok t" and "prefixes_ok X s \<Longrightarrow> prefixes_ok (insert c X) t" and "carries s t"
proof -
  note F = moves_fields [OF m]
  show "marks_ok s \<Longrightarrow> marks_ok t" by (simp add: marks_ok_def F)
  have same: "true_below t j d = true_below s j d" for j d by (simp add: true_below_def F)
  have wf: "wfalse t p d = wfalse s p d" if "d \<noteq> c" for p d using o that by (simp add: wfalse_def F)
  show "prefixes_ok X s \<Longrightarrow> prefixes_ok (insert c X) t"
    unfolding prefixes_ok_def moves_live [OF m] same F using wf by simp
  obtain H W where t: "t = s\<lparr>s_heap := H, s_watches := W\<rparr>" "\<forall>d. permutes (s_heap s d) (H d) \<and> same_kind (s_heap s d) (H d)"
    using m unfolding moves_def by blast
  then show "carries s t" unfolding carries_def permutes_def t(1) by simp
qed

lemma find_conflict_watch:
  assumes ok: "search_ok M s" and c: "s_conflict s = Some c" and f: "find_conflict_level c s = (r, forced, t)"
    and w: "watched s" and pf: "prefixes_ok {} s" and mk: "marks_ok s"
  shows "watched t" "prefixes_ok {c} t" "marks_ok t" "carries s t"
    "\<forall>k \<in> set (lits t c). lev t k \<le> lev t (lits t c ! 0)" "\<forall>k \<in> set (lits t c). k \<noteq> lits t c ! 0 \<longrightarrow> lev t k \<le> lev t (lits t c ! 1)"
proof -
  let ?u = "move_highest c r 0 s"
  have t: "t = move_highest c r 1 ?u" using f by (auto simp: find_conflict_level_def Let_def split: prod.splits)
  note F = find_conflict_level_ok [OF ok c f]
  have u: "search_ok M ?u" "moves s ?u" using move_highest_ok [OF ok c, of 0 r] by simp_all
  note U = moves_fields [OF u(2)]
  have cu: "s_conflict ?u = Some c" using c by (simp add: U)
  have ut: "moves ?u t" using move_highest_ok [OF u(1) cu, of 1 r] by (simp add: t)
  note T = moves_fields [OF ut]
  have cl: "distinct (lits v c) \<and> 2 \<le> length (lits v c)" if "search_ok M v" "s_conflict v = Some c" for v
    using that unfolding search_ok_def conflict_ok_def graph_ok_def clauses_ok_def clause_ok_on_def by blast
  have ls: "distinct (lits s c)" "2 \<le> length (lits s c)" "distinct (lits ?u c)" "2 \<le> length (lits ?u c)" using cl [OF ok c] cl [OF u(1) cu] by blast+
  have le: "\<forall>k \<in> set (lits s c). lev s k \<le> r" "\<forall>k \<in> set (lits ?u c). lev ?u k \<le> r" using F(4) by (simp_all add: U)
  have wu: "watched ?u" by (rule move_highest_watched [OF w ls(1,2) le(1) _ u(2)]) simp
  then show "watched t" unfolding t by (rule move_highest_watched [OF _ ls(3,4) le(2) _ ut [unfolded t]]) simp
  have i: "0 < length (lits s c)" "1 < length (lits ?u c)" using ls by linarith+
  from move_highest_front [OF le(1) i(1) ls(1)] obtain p where p: "p < length (lits s c)"
    "lits ?u c = (lits s c)[p := lits s c ! 0, 0 := lits s c ! p]" "\<forall>j. 0 \<le> j \<longrightarrow> j < length (lits s c) \<longrightarrow> lev s (lits s c ! j) \<le> lev s (lits s c ! p)"
    "\<forall>d. d \<noteq> c \<longrightarrow> lits ?u d = lits s d" by (elim exE conjE) (rule that; assumption)
  from move_highest_front [OF le(2) i(2) ls(3), folded t] obtain q where q: "1 \<le> q" "q < length (lits ?u c)"
    "lits t c = (lits ?u c)[q := lits ?u c ! 1, 1 := lits ?u c ! q]"
    "\<forall>j. 1 \<le> j \<longrightarrow> j < length (lits ?u c) \<longrightarrow> lev ?u (lits ?u c ! j) \<le> lev ?u (lits ?u c ! q)"
    "\<forall>d. d \<noteq> c \<longrightarrow> lits t d = lits ?u d" by (elim exE conjE) (rule that; assumption)
  have o: "\<forall>d. d \<noteq> c \<longrightarrow> lits t d = lits s d" using p(4) q(5) by simp
  note MW = moves_watch [OF F(2) o]
  show "prefixes_ok {c} t" "marks_ok t" "carries s t" using MW(2) [OF pf] MW(1) [OF mk] MW(3) by simp_all
  have t0: "lits t c ! 0 = lits s c ! p" using q(1) i(1) ls(2) by (simp add: q(3) p(2))
  have lv: "lev t k = lev s k" "lev ?u k = lev s k" for k by (simp_all add: T U)
  have st: "set (lits t c) = set (lits s c)" "set (lits t c) = set (lits ?u c)" by (simp_all add: T U)
  show "\<forall>k \<in> set (lits t c). lev t k \<le> lev t (lits t c ! 0)"
    unfolding lv t0 st(1) using p(3) by (auto simp: in_set_conv_nth)
  have t1: "lits t c ! 1 = lits ?u c ! q" using i(2) by (simp add: q(3))
  have u0: "lits ?u c ! 0 = lits t c ! 0" using q(1) by (simp add: q(3))
  show "\<forall>k \<in> set (lits t c). k \<noteq> lits t c ! 0 \<longrightarrow> lev t k \<le> lev t (lits t c ! 1)"
  proof (intro ballI impI)
    fix k assume k: "k \<in> set (lits t c)" "k \<noteq> lits t c ! 0"
    then obtain j where j: "j < length (lits ?u c)" "lits ?u c ! j = k" unfolding st(2) by (auto simp: in_set_conv_nth)
    have "1 \<le> j" using j k(2) u0 by (cases j) auto
    with q(4) j show "lev t k \<le> lev t (lits t c ! 1)" unfolding t1 lv by auto
  qed
qed

section \<open>Going back\<close>

lemma same_graph_tame:
  assumes "same_graph s t" and "s_watches t = s_watches s" and "s_propagated t = s_propagated s" and "s_heap t = s_heap s"
  shows "tame s t"
  using assms by (simp add: same_graph_def tame_def)

lemma backtracked_carries: "backtracked n s t \<Longrightarrow> carries s t"
  by (simp add: backtracked_def carries_def)

lemma backtracked_prefixes:
  assumes g: "graph_ok M s" and b: "backtracked n s t" and n: "n \<le> s_level s" and m: "marks_ok s" and pr: "prefixes_ok X s" and w: "watched s"
  shows "watched t" "marks_ok t" "prefixes_ok X t"
proof -
  have "watched t \<and> marks_ok t \<and> prefixes_ok X t"
  proof (cases "n = s_level s")
    case False
    then have "n < s_level s" using n by simp
    from backtracked_watch [OF g b this m pr w] show ?thesis by blast
  next
    case True
    have ct: "length (s_control s) = s_level s + 1" using g by (simp add: graph_ok_def control_ok_def)
    have "filter (\<lambda>l. lev s l \<le> n) (s_trail s) = s_trail s" using level_le [OF g] True by (simp add: filter_id_conv)
    then have "tame s t" using b True ct by (simp add: backtracked_def tame_def)
    from tame_watch [OF this ct] m pr w show ?thesis by blast
  qed
  then show "watched t" "marks_ok t" "prefixes_ok X t" by blast+
qed

section \<open>The clause that drives an assignment\<close>

lemma assert_watch:
  assumes g: "graph_ok M t" and e: "lits t e ! 0 = l" "l \<in> set (lits t e)" and l: "l \<in> set (s_trail t)" "lev t l \<le> lev t (lits t e ! 1)"
  shows "prefixes_ok {e} t \<Longrightarrow> prefixes_ok {} t" and "front_ok {e} t \<Longrightarrow> front_ok {} t"
proof -
  have ct: "control_ok t" and v: "vals_ok t" using g by (simp_all add: graph_ok_def)
  have tr: "true_in t e" using e(2) l(1) unfolding true_in_def by blast
  then show "front_ok {e} t \<Longrightarrow> front_ok {} t" unfolding front_ok_def by blast
  have "l \<noteq> 0" using v l(1) by (auto simp: vals_ok_def lit_in_def)
  then have nl: "- l \<notin> set (s_trail t)" using trail_var_unique [OF v, of l "- l"] l(1) by auto
  have "true_below t j e" if j: "0 < j" "j \<le> s_level t" and w: "wfalse t (l_trail (s_control t ! j)) e" for j
  proof -
    let ?k = "lits t e ! 1"
    have "- l \<notin> set (take (l_trail (s_control t ! j)) (s_trail t))" using nl in_set_takeD by metis
    then have "- ?k \<in> set (take (l_trail (s_control t ! j)) (s_trail t))" using w e(1) by (simp add: wfalse_def)
    then obtain i where i: "i < l_trail (s_control t ! j)" "i < length (s_trail t)" "s_trail t ! i = - ?k" by (auto simp: in_set_conv_nth)
    have "lev t (s_trail t ! i) < j" using ct j i(1) unfolding control_ok_def by blast
    then have "lev t l < j" using l(2) by (simp add: i(3))
    with e(2) l(1) show ?thesis unfolding true_below_def by blast
  qed
  then show "prefixes_ok {e} t \<Longrightarrow> prefixes_ok {} t" unfolding prefixes_ok_def by blast
qed

text \<open>The clause is watched by the literal assigned and one of the highest level among the others.\<close>

definition leads :: "int \<Rightarrow> nat \<Rightarrow> solver \<Rightarrow> bool" where
  "leads l e s \<longleftrightarrow> lits s e ! 0 = l \<and> lits s e ! 1 \<in> set (lits s e) \<and> lits s e ! 1 \<noteq> l
     \<and> (\<forall>k \<in> set (lits s e). k \<noteq> l \<longrightarrow> lev s k \<le> lev s (lits s e ! 1))"

lemma drive_watch:
  assumes g: "graph_ok M s" and m: "may_assign M l (Because e) s" and ch: "chrono s" and ld: "leads l e s"
    and p: "s_propagated s \<le> length (s_trail s)" and w: "watched s" "marks_ok s" "prefixes_ok {e} s" "front_ok {e} s"
  defines "t \<equiv> search_assign l (Because e) s"
  shows "watched t" "marks_ok t" "prefixes_ok {} t" "front_ok {} t"
proof -
  have l: "lit_in s l" "s_vals s l = 0" "l \<in> set (lits s e)" "\<forall>k \<in> set (lits s e). k \<noteq> l \<longrightarrow> - k \<in> set (s_trail s)"
    using m by (simp_all add: may_assign_def)
  note A = assign_watch [OF g l(1,2) p, where why = "Because e", folded t_def]
  show "watched t" "marks_ok t" using A(1,2) w by blast+
  have gt: "graph_ok M t" unfolding t_def by (rule search_assign_graph_ok [OF g m])
  let ?k = "lits s e ! 1"
  have k: "?k \<in> set (lits s e)" "?k \<noteq> l" "\<forall>k \<in> set (lits s e). k \<noteq> l \<longrightarrow> lev s k \<le> lev s ?k" using ld by (simp_all add: leads_def)
  have "vals_ok s" using g by (simp add: graph_ok_def)
  moreover have "l \<noteq> 0" using l(1) by (simp add: lit_in_def)
  ultimately have free: "l \<notin> set (s_trail s)" "- l \<notin> set (s_trail s)" using l(2) vals_iff(3) by blast+
  have kt: "- ?k \<in> set (s_trail s)" using l(4) k by blast
  then have "?k \<noteq> l" "?k \<noteq> - l" using free by auto
  then have "vidx ?k \<noteq> vidx l" by (simp add: vidx_eq)
  then have lk: "lev t ?k = lev s ?k" by (simp add: t_def)
  have "lev t l = assignment_level l e s" using ch by (simp add: t_def lit_level_def)
  moreover have "assignment_level l e s \<le> lev s ?k"
  proof (cases "0 < assignment_level l e s")
    case True
    then show ?thesis using assignment_level_attained k(3) by metis
  qed simp
  ultimately have lv: "lev t l \<le> lev t (lits t e ! 1)" using lk by (simp add: t_def)
  have e: "lits t e ! 0 = l" "l \<in> set (lits t e)" "l \<in> set (s_trail t)" using ld l(3) by (simp_all add: t_def leads_def)
  note W = assert_watch [OF gt e lv]
  show "prefixes_ok {} t" "front_ok {} t" using A(3,4) w(3,4) W by blast+
qed

section \<open>Learning\<close>

lemma new_driving_form:
  assumes len: "2 \<le> length (s_clause s)" and nd: "new_driving_clause glue s = (jump, d, t)"
  defines "C \<equiv> sort_key (trail_rank s) (s_clause s)"
  shows "d = Some (s_next s)" and "lits t (s_next s) = C" and "\<forall>x. x \<noteq> s_next s \<longrightarrow> s_heap t x = s_heap s x" and "s_next t = s_next s + 1"
    and "s_trail t = s_trail s" and "s_vtab t = s_vtab s" and "s_level t = s_level s" and "s_control t = s_control s"
    and "s_propagated t = s_propagated s" and "s_opts t = s_opts s"
    and "\<forall>l. set (s_watches s l) \<subseteq> set (s_watches t l)" and "\<forall>l \<in> {C ! 0, C ! 1}. s_next s \<in> w_clause ` set (s_watches t l)"
proof -
  have n: "s_clause s \<noteq> []" "length (s_clause s) \<noteq> 0" "length (s_clause s) \<noteq> 1" using len by auto
  have op: "s_opts (snd (new_learned_redundant_clause glue (s\<lparr>s_clause := C\<rparr>))) = s_opts s"
    by (simp add: new_learned_redundant_clause_def new_solver_clause_def Let_def watch_clause_def watch_literal_def)
  have fst: "fst (new_learned_redundant_clause glue (s\<lparr>s_clause := C\<rparr>)) = s_next s"
    by (simp add: new_learned_redundant_clause_def new_solver_clause_def Let_def)
  let ?f = "c_used_update (\<lambda>_. 1 + (if glue \<le> o_tier2 (s_opts s) then 1 else 0))"
  have r: "d = Some (s_next s) \<and> t = upd_clause (s_next s) ?f (snd (new_learned_redundant_clause glue (s\<lparr>s_clause := C\<rparr>)))"
    using nd n op fst by (auto simp: new_driving_clause_def Let_def C_def split: prod.splits)
  then show "d = Some (s_next s)" by blast
  note t = conjunct2 [OF r]
  show "lits t (s_next s) = C" "\<forall>x. x \<noteq> s_next s \<longrightarrow> s_heap t x = s_heap s x" "s_next t = s_next s + 1"
    "s_trail t = s_trail s" "s_vtab t = s_vtab s" "s_level t = s_level s" "s_control t = s_control s" "s_propagated t = s_propagated s"
    "s_opts t = s_opts s"
    by (simp_all add: t new_learned_redundant_clause_def new_solver_clause_def Let_def watch_clause_def watch_literal_def upd_clause_def)
  show "\<forall>l. set (s_watches s l) \<subseteq> set (s_watches t l)" "\<forall>l \<in> {C ! 0, C ! 1}. s_next s \<in> w_clause ` set (s_watches t l)"
    by (auto simp: t new_learned_redundant_clause_def new_solver_clause_def Let_def watch_clause_def watch_literal_def upd_clause_def)
qed

lemma new_driving_watch:
  assumes len: "2 \<le> length (s_clause s)" and nd: "new_driving_clause glue s = (jump, d, t)" and w: "watched s" "marks_ok s" "prefixes_ok X s"
  shows "watched t" "marks_ok t" "prefixes_ok (insert (s_next s) X) t" "carries s t"
proof -
  note F = new_driving_form [OF len nd]
  have live: "live t d \<longleftrightarrow> live s d" "lits t d = lits s d" if "d \<noteq> s_next s" for d
    using F(3,4) that by (auto simp: live_def less_Suc_eq)
  show "marks_ok t" using w(2) by (simp add: marks_ok_def F)
  show "carries s t" using F(3,4) by (simp add: carries_def)
  have "d \<in> w_clause ` set (s_watches t l)" if d: "live t d" and l: "l \<in> {lits t d ! 0, lits t d ! 1}" for d l
  proof (cases "d = s_next s")
    case True
    with l have "l \<in> {sort_key (trail_rank s) (s_clause s) ! 0, sort_key (trail_rank s) (s_clause s) ! 1}" by (simp add: F(2))
    from bspec [OF F(12) this] True show ?thesis by simp
  next
    case False
    with d l live have "live s d" "l \<in> {lits s d ! 0, lits s d ! 1}" by simp_all
    then have "d \<in> w_clause ` set (s_watches s l)" using w(1) unfolding watched_def by blast
    then show ?thesis using F(11) by blast
  qed
  then show "watched t" by (rule watchedI)
  show "prefixes_ok (insert (s_next s) X) t" unfolding prefixes_ok_def
  proof (intro allI impI)
    fix j d assume j: "0 < j" "j \<le> s_level t" and d: "live t d" "d \<notin> insert (s_next s) X" "wfalse t (l_trail (s_control t ! j)) d"
    then have o: "live s d" "lits t d = lits s d" using live by simp_all
    have same: "wfalse t p d = wfalse s p d" "true_below t i d = true_below s i d" for p i
      using o(2) by (simp_all add: wfalse_def true_below_def F(5,6))
    show "true_below t j d" using w(3) j d o(1) unfolding prefixes_ok_def same F(7,8) by blast
  qed
qed

lemma quiet_watch:
  assumes "quiet s t" and "graph_ok M s"
  shows "watched s \<Longrightarrow> watched t" "marks_ok s \<Longrightarrow> marks_ok t" "prefixes_ok X s \<Longrightarrow> prefixes_ok X t" "front_ok X s \<Longrightarrow> front_ok X t"
  using tame_watch [OF quiet_tame [OF assms(1)]] assms(2) by (simp_all add: graph_ok_def control_ok_def)

lemma asserting_leads:
  assumes g: "graph_ok M s" and a: "asserting M u s" and len: "2 \<le> length (s_clause s)" and t: "lits t e = sort_key (trail_rank s) (s_clause s)"
    and lv: "\<And>k. lev t k = lev s k"
  shows "leads (- u) e t"
proof -
  have A: "- u \<in> set (s_clause s)" "distinct (s_clause s)" "\<forall>k \<in> set (s_clause s). - k \<in> set (s_trail s)" "s_max_var s \<le> 2 ^ 32"
    "\<forall>k \<in> set (s_clause s). k \<noteq> - u \<longrightarrow> lev s k < lev s (- u)" using a by (simp_all add: asserting_def)
  have v: "vals_ok s" using g by (simp add: graph_ok_def)
  note S = sorted_clause [OF A(4) v A(3) A(2) A(1) A(5) len]
  show ?thesis unfolding leads_def t lv using S by simp
qed

lemma learning_watch:
  assumes lr: "learning M s d t" and g: "graph_ok M s" and ch: "chrono s" and w: "watched s" "marks_ok s" "prefixes_ok {} s"
  shows "watched t" "marks_ok t" "prefixes_ok {} t" "front_ok {} t" "carries s t" "retains s t"
    "length (s_control t) = s_level t + 1"
proof -
  obtain u s1 s2 glue jump s3 r s4 s6 where L: "quiet s s1" "bump_all s1 s2" "graph_ok M s2" "watches_good s2" "asserting M u s2"
    "new_driving_clause glue s2 = (jump, d, s3)" "graph_ok M s3" "jump \<le> r" "r < s_level s3" "backtracked r s3 s4" "graph_ok M s4"
    "quiet (search_assign_driving (- u) d s4) s6" "t = s6\<lparr>s_clause := [], s_conflict := None\<rparr>"
    using lr unfolding learning_def by (elim exE conjE) (rule that; assumption)
  note B = bump_all_same [OF L(2)]
  have g1: "graph_ok M s1" using L(1) g same_graph_ok by (auto simp: quiet_def)
  note Q = quiet_watch [OF L(1) g]
  have len1: "length (s_control s1) = s_level s1 + 1" using g1 by (simp add: graph_ok_def control_ok_def)
  have t12: "tame s1 s2" by (rule same_graph_tame [OF B(1,2,6,3)])
  note T = tame_watch [OF t12 len1]
  have w2: "watched s2" "marks_ok s2" "prefixes_ok {} s2" using w Q T by blast+
  have c2: "carries s s2" using carries_trans tame_carries quiet_tame L(1) t12 by blast
  note dr = new_driving_ok(3) [OF L(3,4,5,6)]
  then obtain H N CS W P CL I where s3: "s3 = s2\<lparr>s_heap := H, s_next := N, s_clauses := CS, s_watches := W, s_proof := P, s_clause := CL, s_iterating := I\<rparr>"
    unfolding drives_def by blast
  have e4: "s_trail s4 = filter (\<lambda>l. lev s3 l \<le> r) (s_trail s3)" "lev s4 k = lev s3 k" "lits s4 e = lits s3 e" "s_opts s4 = s_opts s3" for k e
    using L(10) by (simp_all add: backtracked_def)
  have "r < s_level s2" using L(9) by (simp add: s3)
  note ma = driving_may_assign [OF L(7,5) dr e4(1) L(11,10,8) this]
  have p4: "s_propagated s4 \<le> length (s_trail s4)" using L(10) unfolding backtracked_def by blast
  have ch4: "chrono s4" using ch L(1) B(1) by (simp add: e4 s3 quiet_def same_graph_def)
  let ?s5 = "search_assign_driving (- u) d s4"
  have g5: "graph_ok M ?s5" unfolding search_assign_driving_def by (rule search_assign_graph_ok [OF L(11) ma])
  have main: "watched ?s5 \<and> marks_ok ?s5 \<and> prefixes_ok {} ?s5 \<and> front_ok {} ?s5 \<and> carries s2 s3"
  proof (cases "2 \<le> length (s_clause s2)")
    case True
    note D = new_driving_watch [OF True L(6) w2] and F = new_driving_form [OF True L(6)]
    note W = backtracked_watch [OF L(7,10,9) D(2,3,1)]
    have "lev s4 k = lev s2 k" for k by (simp add: e4 F)
    moreover have "lits s4 (s_next s2) = sort_key (trail_rank s2) (s_clause s2)" by (simp only: e4(3) F(2))
    ultimately have "leads (- u) (s_next s2) s4" by (intro asserting_leads [OF L(3,5) True])
    from drive_watch [OF L(11) _ ch4 this p4 W] ma F(1) D(4) show ?thesis by (simp add: search_assign_driving_def)
  next
    case False
    moreover have "s_clause s2 \<noteq> []" using L(5) by (auto simp: asserting_def)
    then have "length (s_clause s2) \<noteq> 0" by simp
    ultimately have "length (s_clause s2) = 1" by linarith
    then have "d = None" "tame s2 s3" using L(6) by (auto simp: new_driving_clause_def tame_def)
    have len2: "length (s_control s2) = s_level s2 + 1" using L(3) by (simp add: graph_ok_def control_ok_def)
    note W = backtracked_watch [OF L(7,10,9) tame_watch(2,3,1) [OF \<open>tame s2 s3\<close> len2]]
    have "lit_in s4 (- u)" "s_vals s4 (- u) = 0" using ma by (simp_all add: may_assign_def)
    note A = assign_watch [OF L(11) this p4]
    show ?thesis using A W w2 tame_carries [OF \<open>tame s2 s3\<close>] unfolding search_assign_driving_def by blast
  qed
  have t5: "tame ?s5 t" using quiet_tame [OF L(12)] by (simp add: tame_def L(13))
  have len5: "length (s_control ?s5) = s_level ?s5 + 1" using g5 by (simp add: graph_ok_def control_ok_def)
  moreover have "length (map l_trail (s_control t)) = length (map l_trail (s_control ?s5))" "s_level t = s_level ?s5" using t5 by (simp_all only: tame_def)
  ultimately show "length (s_control t) = s_level t + 1" by simp
  from tame_watch [OF t5 len5] main show "watched t" "marks_ok t" "prefixes_ok {} t" "front_ok {} t" by blast+
  have "carries s4 ?s5" by (simp add: carries_def search_assign_driving_def)
  then show "carries s t" using c2 main backtracked_carries [OF L(10)] tame_carries [OF t5] carries_trans by blast
  have "retains s2 s3" by (simp add: retains_def s3)
  moreover have "retains s4 ?s5" unfolding search_assign_driving_def
    using L(11) ma by (intro assign_retains) (simp_all add: graph_ok_def may_assign_def)
  moreover have "retains s3 s4" using backtracked_retains [OF L(10)] L(9) by simp
  moreover have "retains s s2" using retains_trans tame_retains quiet_tame L(1) t12 by blast
  ultimately show "retains s t" using tame_retains [OF t5] retains_trans by blast
qed

section \<open>Analysis\<close>

lemma conflict_prefixes:
  assumes g: "graph_ok M s" and pf: "prefixes_ok {c} s" and l: "lev s (lits s c ! 0) = s_level s" "lev s (lits s c ! 1) = s_level s"
  shows "prefixes_ok {} s"
proof -
  have ct: "control_ok s" using g by (simp add: graph_ok_def)
  have "\<not> wfalse s (l_trail (s_control s ! j)) c" if j: "0 < j" "j \<le> s_level s" for j
  proof
    assume "wfalse s (l_trail (s_control s ! j)) c"
    then obtain k where k: "- k \<in> set (take (l_trail (s_control s ! j)) (s_trail s))" "lev s k = s_level s" using l unfolding wfalse_def by metis
    then obtain i where i: "i < l_trail (s_control s ! j)" "i < length (s_trail s)" "s_trail s ! i = - k" by (auto simp: in_set_conv_nth)
    have "lev s (s_trail s ! i) < j" using ct j i(1) unfolding control_ok_def by blast
    then show False using k(2) j(2) by (simp add: i(3))
  qed
  with pf show ?thesis unfolding prefixes_ok_def by blast
qed

lemma analyzed_watch:
  assumes an: "analyzed M s t" and ok: "search_ok M s" and ch: "chrono s" and w: "watch_inv s" and p: "s_propagated s \<le> length (s_trail s)"
    and us: "\<not> s_unsat t"
  shows "watch_inv t \<and> carries s t \<and> retains s t"
proof -
  have W: "watched s" "marks_ok s" "prefixes_ok {} s" using w by (simp_all add: watch_inv_def)
  obtain c r forced s1 where c: "s_conflict s = Some c" "find_conflict_level c s = (r, forced, s1)" "search_ok M s1" "moves s s1" "r \<le> s_level s1"
    and rest: "forced \<noteq> 0 \<and> 0 < r \<and> (\<exists>u. backtracked (r - 1) s1 u \<and> graph_ok M u \<and> t = (search_assign_driving forced (Some c) u)\<lparr>s_conflict := None\<rparr>)
      \<or> forced = 0 \<and> 0 < r \<and> (\<exists>s2 d t1. backtracked r s1 s2 \<and> graph_ok M s2 \<and> learning M s2 d t1 \<and> idle t1 t)"
    using an us unfolding analyzed_def by blast
  note F = find_conflict_watch [OF ok c(1,2) W(1,3,2)] and C = find_conflict_level_ok [OF ok c(1,2)] and mv = moves_fields [OF c(4)]
  have g1: "graph_ok M s1" using c(3) by (simp add: search_ok_def)
  have c1: "s_conflict s1 = Some c" using c(1) by (simp add: mv)
  have co: "c < s_next s1" "\<forall>k \<in> set (lits s1 c). - k \<in> set (s_trail s1)" using c(3) c1 by (simp_all add: search_ok_def conflict_ok_def)
  have cok: "distinct (lits s1 c)" "2 \<le> length (lits s1 c)"
    using g1 co(1) unfolding graph_ok_def clauses_ok_def clause_ok_on_def by blast+
  have m01: "lits s1 c ! 0 \<in> set (lits s1 c)" "lits s1 c ! 1 \<in> set (lits s1 c)" "lits s1 c ! 1 \<noteq> lits s1 c ! 0"
  proof -
    have "0 < length (lits s1 c)" "1 < length (lits s1 c)" using cok(2) by linarith+
    then show "lits s1 c ! 0 \<in> set (lits s1 c)" "lits s1 c ! 1 \<in> set (lits s1 c)" "lits s1 c ! 1 \<noteq> lits s1 c ! 0"
      using cok(1) by (simp_all add: nth_eq_iff_index_eq)
  qed
  have le: "\<forall>k \<in> set (lits s1 c). lev s1 k \<le> r" using C(4) by (simp add: mv)
  from rest show ?thesis
  proof (elim disjE conjE exE)
    fix u assume f: "forced \<noteq> 0" "0 < r" and u: "backtracked (r - 1) s1 u" "graph_ok M u"
      and t: "t = (search_assign_driving forced (Some c) u)\<lparr>s_conflict := None\<rparr>"
    have fo: "forced \<in> set (lits s1 c)" "lev s1 forced = r" "\<forall>k \<in> set (lits s1 c). k \<noteq> forced \<longrightarrow> lev s1 k < r"
      using C(5) [OF f(1)] by (simp_all add: mv)
    have l0: "lits s1 c ! 0 = forced" using F(5) fo m01(1) by (metis not_le)
    note ma = forced_may_assign [OF g1 co fo(1,2) f(2) fo(3) u]
    have r1: "r - 1 < s_level s1" using c(5) f(2) by linarith
    note B = backtracked_watch [OF g1 u(1) r1 F(3,2,1)]
    have "s_propagated u \<le> length (s_trail u)" using u(1) unfolding backtracked_def by blast
    moreover have "chrono u" using u(1) ch by (simp add: backtracked_def mv)
    moreover have "leads forced c u" using u(1) l0 m01 F(6) by (simp add: leads_def backtracked_def)
    ultimately have D: "watched (search_assign forced (Because c) u)" "marks_ok (search_assign forced (Because c) u)"
      "prefixes_ok {} (search_assign forced (Because c) u)" "front_ok {} (search_assign forced (Because c) u)"
      using drive_watch [OF u(2) ma _ _ _ B] by blast+
    let ?a = "search_assign forced (Because c) u"
    have ta: "tame ?a t" by (simp add: t search_assign_driving_def tame_def)
    have "graph_ok M ?a" by (rule search_assign_graph_ok [OF u(2) ma])
    then have "length (s_control ?a) = s_level ?a + 1" by (simp add: graph_ok_def control_ok_def)
    from tame_watch [OF ta this] D have "watch_inv t" by (simp add: watch_inv_def)
    moreover have "carries u ?a" by (simp add: carries_def)
    then have "carries s t" using F(4) backtracked_carries [OF u(1)] tame_carries [OF ta] carries_trans by blast
    moreover have "retains s1 u" using backtracked_retains [OF u(1)] r1 by simp
    moreover have "retains u ?a" using u(2) ma by (intro assign_retains) (simp_all add: graph_ok_def may_assign_def)
    ultimately show ?thesis using moves_retains [OF c(4)] tame_retains [OF ta] retains_trans by blast
  next
    fix s2 d t1 assume f: "forced = 0" "0 < r" and s2: "backtracked r s1 s2" "graph_ok M s2" and l: "learning M s2 d t1" and i: "idle t1 t"
    have two: "\<forall>u. \<exists>k \<in> set (lits s1 c). k \<noteq> u \<and> lev s1 k = r" using C(6) [OF f(1)] f(2) by (simp add: mv)
    then obtain k where k: "k \<in> set (lits s1 c)" "k \<noteq> lits s1 c ! 0" "lev s1 k = r" by blast
    have lv: "lev s1 (lits s1 c ! 0) = r" "lev s1 (lits s1 c ! 1) = r"
      using F(5,6) k le m01(1,2) by (metis le_antisym)+
    note B = backtracked_prefixes [OF g1 s2(1) c(5) F(3,2,1)]
    have "lits s2 c = lits s1 c" "lev s2 k = lev s1 k" "s_level s2 = r" for k using s2(1) by (simp_all add: backtracked_def)
    then have pf: "prefixes_ok {} s2" using conflict_prefixes [OF s2(2) B(3)] lv by simp
    have "chrono s2" using s2(1) ch by (simp add: backtracked_def mv)
    note L = learning_watch [OF l s2(2) this B(1,2) pf]
    have ti: "tame t1 t" using i by (simp add: idle_def quiet_tame)
    from tame_watch [OF ti L(7)] L(1-4) have "watch_inv t" by (simp add: watch_inv_def)
    moreover have "carries s t" using F(4) backtracked_carries [OF s2(1)] L(5) tame_carries [OF ti] carries_trans by blast
    moreover have "retains s t" using moves_retains [OF c(4)] backtracked_retains [OF s2(1) c(5)] L(6) tame_retains [OF ti] retains_trans by blast
    ultimately show ?thesis by blast
  qed
qed

end
