(* ===== verification/Search_Watch_Propagate.thy ===== *)
theory Search_Watch_Propagate
  imports Search_Watch
begin

text \<open>Propagation keeps the watch invariant: when a watch list is done, the clauses it still watches are true.\<close>

section \<open>While a list is processed\<close>

definition front_at :: "nat \<Rightarrow> solver \<Rightarrow> bool" where
  "front_at p s \<longleftrightarrow> (\<forall>c. live s c \<longrightarrow> wfalse s p c \<longrightarrow> true_in s c)"

definition watched_by :: "int \<Rightarrow> swatch list \<Rightarrow> solver \<Rightarrow> bool" where
  "watched_by nl ws s \<longleftrightarrow> watched (with_list nl ws s)"

lemma watched_by_iff:
  "watched_by nl ws s \<longleftrightarrow> (\<forall>c. live s c \<longrightarrow> (\<forall>l \<in> {lits s c ! 0, lits s c ! 1}. c \<in> w_clause ` set (if l = nl then ws else s_watches s l)))"
  by (simp add: watched_by_def watched_def live_def)

text \<open>The clauses kept in the list so far are true unless there is a conflict.\<close>

definition prop_inv :: "int \<Rightarrow> nat \<Rightarrow> swatch list \<Rightarrow> swatch list \<Rightarrow> solver \<Rightarrow> bool" where
  "prop_inv nl p ks ws s \<longleftrightarrow> watched_by nl (ks @ ws) s \<and> prefixes_ok {} s \<and> front_at p s
     \<and> (s_conflict s = None \<longrightarrow> (\<forall>w \<in> set ks. live s (w_clause w) \<longrightarrow> true_in s (w_clause w)))"

lemma prefixes_same:
  assumes "prefixes_ok {} s" and "s_trail t = s_trail s" and "\<And>i. v_level (s_vtab t i) = v_level (s_vtab s i)"
    and "s_level t = s_level s" and "s_control t = s_control s" and "s_next t = s_next s"
    and "\<And>c. lits t c = lits s c \<and> c_garbage (s_heap t c) = c_garbage (s_heap s c)"
  shows "prefixes_ok {} t"
  using assms by (simp add: prefixes_ok_def live_def wfalse_def true_below_def)

lemma watched_by_list:
  assumes "watched_by nl xs s" and "\<And>c. live s c \<Longrightarrow> c \<in> w_clause ` set xs \<Longrightarrow> c \<in> w_clause ` set ys"
  shows "watched_by nl ys s"
  unfolding watched_by_iff
proof (intro allI impI ballI)
  fix c l assume c: "live s c" "l \<in> {lits s c ! 0, lits s c ! 1}"
  then have "c \<in> w_clause ` set (if l = nl then xs else s_watches s l)" using assms(1) unfolding watched_by_iff by blast
  with assms(2) [OF c(1)] show "c \<in> w_clause ` set (if l = nl then ys else s_watches s l)" by (cases "l = nl") simp_all
qed

lemma prop_inv_keep:
  assumes inv: "prop_inv nl p ks (w # ws) s" and w': "w_clause w' = w_clause w"
    and tr: "s_conflict s = None \<Longrightarrow> live s (w_clause w) \<Longrightarrow> true_in s (w_clause w)"
  shows "prop_inv nl p (ks @ [w']) ws s"
proof -
  have "watched_by nl ((ks @ [w']) @ ws) s" by (rule watched_by_list [where xs = "ks @ w # ws"]) (use assms(1,2) in \<open>auto simp: prop_inv_def\<close>)
  moreover have "\<forall>v \<in> set (ks @ [w']). live s (w_clause v) \<longrightarrow> true_in s (w_clause v)" if "s_conflict s = None"
    using inv tr w' that by (simp add: prop_inv_def)
  ultimately show ?thesis using inv by (simp add: prop_inv_def)
qed

lemma prop_inv_drop:
  assumes "prop_inv nl p ks (w # ws) s" and "\<not> live s (w_clause w)"
  shows "prop_inv nl p ks ws s"
proof -
  have "watched_by nl (ks @ ws) s" by (rule watched_by_list [where xs = "ks @ w # ws"]) (use assms in \<open>auto simp: prop_inv_def\<close>)
  with assms(1) show ?thesis by (simp add: prop_inv_def)
qed

lemma prop_inv_quiet:
  assumes inv: "prop_inv nl p ks ws s" and "s_trail t = s_trail s" "s_vtab t = s_vtab s" "s_level t = s_level s" "s_control t = s_control s"
    "s_next t = s_next s" "\<And>c. lits t c = lits s c \<and> c_garbage (s_heap t c) = c_garbage (s_heap s c)" "s_watches t = s_watches s"
    "s_conflict t = None \<Longrightarrow> s_conflict s = None"
  shows "prop_inv nl p ks ws t"
proof -
  have "prefixes_ok {} t" by (rule prefixes_same [of s]) (use assms in \<open>simp_all add: prop_inv_def\<close>)
  moreover have same: "live t c = live s c" "true_in t c = true_in s c" "wfalse t p c = wfalse s p c" for c
    using assms by (simp_all add: live_def true_in_def wfalse_def)
  moreover have "watched_by nl (ks @ ws) t = watched_by nl (ks @ ws) s" unfolding watched_by_iff same by (simp add: assms(7,8))
  ultimately show ?thesis using inv assms(9) unfolding prop_inv_def front_at_def same by simp
qed

lemma prop_inv_assign:
  assumes inv: "prop_inv nl p ks ws s" and g: "graph_ok M s" and l: "lit_in s l" "s_vals s l = 0" and pr: "s_propagated s \<le> length (s_trail s)"
    and p: "p \<le> length (s_trail s)"
  shows "prop_inv nl p ks ws (search_assign l why s)"
proof -
  let ?t = "search_assign l why s"
  have "prefixes_ok {} ?t" using assign_watch(3) [OF g l pr] inv by (simp add: prop_inv_def)
  moreover have same: "live ?t c = live s c" "wfalse ?t p c = wfalse s p c" for c using p by (simp_all add: live_def wfalse_def)
  moreover have "true_in s c \<Longrightarrow> true_in ?t c" for c by (auto simp: true_in_def)
  moreover have "watched_by nl (ks @ ws) ?t = watched_by nl (ks @ ws) s" unfolding watched_by_iff same by simp
  ultimately show ?thesis using inv unfolding prop_inv_def front_at_def same by simp
qed

text \<open>A watch moved to another literal, which is not false or false on the level of the true other watch.\<close>

lemma prop_inv_move:
  fixes s w f k and nl :: int and ks ws :: "swatch list"
  defines "c \<equiv> w_clause w"
  defines "o' \<equiv> other_lit s nl w" and "r \<equiv> lits s (w_clause w) ! k"
  assumes ok: "search_ok M (with_list nl (ks @ w # ws) s)" and nb: "\<not> watch_binary w"
    and k: "2 \<le> k" "k < length (lits s (w_clause w))"
    and f: "c_lits (f (s_heap s (w_clause w))) = (lits s (w_clause w))[0 := o', 1 := r, k := nl]"
      "same_kind (s_heap s (w_clause w)) (f (s_heap s (w_clause w)))"
    and inv: "prop_inv nl p ks (w # ws) s" and r: "- r \<in> set (s_trail s) \<Longrightarrow> o' \<in> set (s_trail s) \<and> lev s o' = lev s r"
  shows "prop_inv nl p ks ws (watch_literal r b (w_clause w) (upd_clause (w_clause w) f s))"
proof -
  let ?t = "watch_literal r b c (upd_clause c f s)"
  note F = large_facts [OF ok nb, folded c_def o'_def]
  have d: "distinct (lits s c)" using F(2) by (simp add: clause_ok_on_def)
  have kl: "k < length (lits s c)" using k(2) by (simp add: c_def)
  note P = move_permutes [OF d k(1) kl F(6) F(7), folded r_def c_def]
  have rr: "lits s c ! k = r" by (simp add: r_def c_def)
  note P = P [unfolded rr]
  have lc: "lits ?t c = (lits s c)[0 := o', 1 := r, k := nl]" using f(1) by (simp add: watch_literal_def c_def)
  have ld: "lits ?t x = lits s x" if "x \<noteq> c" for x using that by (simp add: watch_literal_def)
  have live: "live ?t x = live s x" for x using f(2) by (simp add: live_def watch_literal_def c_def)
  have st: "set (lits ?t x) = set (lits s x)" for x using P(1) lc ld by (cases "x = c") simp_all
  have tr: "s_trail ?t = s_trail s" "s_level ?t = s_level s" "s_control ?t = s_control s" "s_vtab ?t = s_vtab s" "s_conflict ?t = s_conflict s"
    by (simp_all add: watch_literal_def)
  have ti: "true_in ?t x = true_in s x" "true_below ?t j x = true_below s j x" for x j
    by (simp_all add: true_in_def true_below_def st tr)
  have g: "graph_ok M s" using ok by (simp add: search_ok_with_list)
  have wf: "wfalse ?t q x \<Longrightarrow> wfalse s q x \<or> x = c \<and> - r \<in> set (take q (s_trail s))" for q x
  proof (cases "x = c")
    case True
    assume "wfalse ?t q x"
    then have "- o' \<in> set (take q (s_trail s)) \<or> - r \<in> set (take q (s_trail s))" using True lc P(4,5) by (simp add: wfalse_def tr)
    moreover have "o' \<in> {lits s c ! 0, lits s c ! 1}" using F(6) by blast
    ultimately show ?thesis using True unfolding wfalse_def by blast
  qed (simp add: wfalse_def ld tr)
  have o: "o' \<in> set (lits s c)" by (rule F(8))
  have I: "watched_by nl (ks @ w # ws) s" "prefixes_ok {} s" "front_at p s" using inv by (simp_all add: prop_inv_def)
  have "prefixes_ok {} ?t" unfolding prefixes_ok_def tr live ti
  proof (intro allI impI)
    fix j x assume j: "0 < j" "j \<le> s_level s" and x: "live s x" "wfalse ?t (l_trail (s_control s ! j)) x"
    show "true_below s j x"
    proof (cases "wfalse s (l_trail (s_control s ! j)) x")
      case True
      with I(2) j x(1) show ?thesis by (simp add: prefixes_ok_def)
    next
      case False
      with wf [OF x(2)] have rt: "x = c" "- r \<in> set (take (l_trail (s_control s ! j)) (s_trail s))" by blast+
      then obtain i where i: "i < l_trail (s_control s ! j)" "i < length (s_trail s)" "s_trail s ! i = - r" by (auto simp: in_set_conv_nth)
      have "control_ok s" using g by (simp add: graph_ok_def)
      then have "lev s (s_trail s ! i) < j" using j i(1) unfolding control_ok_def by blast
      then have "lev s r < j" by (simp add: i(3))
      moreover have "- r \<in> set (s_trail s)" using rt(2) by (rule in_set_takeD)
      ultimately show ?thesis using r o rt(1) unfolding true_below_def by auto
    qed
  qed
  moreover have "front_at p ?t" unfolding front_at_def live ti
  proof (intro allI impI)
    fix x assume x: "live s x" "wfalse ?t p x"
    show "true_in s x"
    proof (cases "wfalse s p x")
      case True
      with I(3) x(1) show ?thesis by (simp add: front_at_def)
    next
      case False
      with wf [OF x(2)] have "x = c" "- r \<in> set (s_trail s)" using in_set_takeD by fastforce+
      with r o show ?thesis unfolding true_in_def by blast
    qed
  qed
  moreover have "watched_by nl (ks @ ws) ?t" unfolding watched_by_iff live
  proof (intro allI impI ballI)
    fix x l assume x: "live s x" and l: "l \<in> {lits ?t x ! 0, lits ?t x ! 1}"
    have old: "x \<in> w_clause ` set (if m = nl then ks @ w # ws else s_watches s m)" if "m \<in> {lits s x ! 0, lits s x ! 1}" for m
      using I(1) x that unfolding watched_by_iff by blast
    show "x \<in> w_clause ` set (if l = nl then ks @ ws else s_watches ?t l)"
    proof (cases "x = c")
      case False
      have "x \<in> w_clause ` set (if l = nl then ks @ w # ws else s_watches s l)" by (rule old) (use l ld [OF False] in simp)
      moreover have "w_clause w \<noteq> x" using False by (simp add: c_def)
      ultimately show ?thesis by (auto simp: watch_literal_def split: if_splits)
    next
      case True
      then have "l = o' \<or> l = r" using l lc P(4,5) by auto
      then show ?thesis
      proof
        assume "l = r"
        then show ?thesis using P(2) True by (simp add: watch_literal_def)
      next
        assume lo: "l = o'"
        have "o' \<in> {lits s x ! 0, lits s x ! 1}" using F(6) True by blast
        from old [OF this] F(7) P(3) lo show ?thesis by (auto simp: watch_literal_def)
      qed
    qed
  qed
  ultimately show ?thesis using inv unfolding prop_inv_def c_def [symmetric] live ti tr by blast
qed

section \<open>One watch\<close>

lemma find_level_result:
  "find_level vt l ls p = Inr q \<Longrightarrow> p \<le> q \<and> q < p + length ls \<and> v_level (vt (vidx (ls ! (q - p)))) = l"
proof (induction ls arbitrary: p)
  case (Cons x xs)
  show ?case
  proof (cases "v_level (vt (vidx x)) = l")
    case False
    with Cons.prems Cons.IH [of "p + 1"] have q: "p + 1 \<le> q" "q < p + 1 + length xs" "v_level (vt (vidx (xs ! (q - (p + 1))))) = l" by simp_all
    then have "q - p = Suc (q - (p + 1))" by simp
    with q show ?thesis by simp
  qed (use Cons.prems in auto)
qed simp

lemma rewatch_level_cases:
  assumes "rewatch_level nl o' c u = Inr (m, t)"
  shows "\<not> m \<and> t = u \<or> m \<and> (\<exists>k. 2 \<le> k \<and> k < length (lits u c) \<and> lev u (lits u c ! k) = lev u o'
    \<and> t = watch_literal (lits u c ! k) o' c (upd_clause c (c_lits_update (\<lambda>ls. ls[k := nl, 0 := o', 1 := lits u c ! k])) u))"
proof (cases "o_chrono (s_opts u) > 1 \<and> lev u o' > lev u nl")
  case True
  show ?thesis
  proof (cases "find_level (s_vtab u) (lev u o') (drop 2 (lits u c)) 2")
    case (Inl e)
    with True assms show ?thesis by (simp add: rewatch_level_def Let_def)
  next
    case (Inr k)
    note K = find_level_result [OF Inr]
    have len: "2 \<le> length (lits u c)" using K by (cases "2 \<le> length (lits u c)") simp_all
    then have "drop 2 (lits u c) ! (k - 2) = lits u c ! (2 + (k - 2))" by (rule nth_drop)
    moreover have "2 + (k - 2) = k" using conjunct1 [OF K] by arith
    ultimately have "drop 2 (lits u c) ! (k - 2) = lits u c ! k" by simp
    moreover have "2 \<le> k" "k < length (lits u c)" using conjunct1 [OF K] conjunct1 [OF conjunct2 [OF K]] len unfolding length_drop by linarith+
    ultimately show ?thesis using K Inr True assms by (auto simp: rewatch_level_def Let_def intro!: exI [of _ k])
  qed
next
  case False
  then have "rewatch_level nl o' c u = Inr (False, u)" unfolding rewatch_level_def Let_def by (rule if_not_P)
  with assms show ?thesis by simp
qed

lemma val_true: "vals_ok s \<Longrightarrow> s_vals s k > 0 \<Longrightarrow> k \<in> set (lits s c) \<Longrightarrow> k \<noteq> 0 \<Longrightarrow> true_in s c"
  using vals_iff(1) unfolding true_in_def by blast

lemma large_step:
  assumes ok: "search_ok M (with_list nl (ks @ w # ws) s)" and nl: "- nl \<in> set (s_trail s)" and nb: "\<not> watch_binary w"
    and p: "p \<le> length (s_trail s)" and pr: "s_propagated s \<le> length (s_trail s)" and inv: "prop_inv nl p ks (w # ws) s"
    and run: "propagate_large nl w s = Inr (ow, stop, t)"
  shows "prop_inv nl p (ks @ option_list ow) ws t"
proof -
  define c where "c = w_clause w"
  define o' where "o' = other_lit s nl w"
  note F = large_facts [OF ok nb, folded c_def, folded o'_def]
  have v: "vals_ok s" using ok by (simp add: search_ok_with_list graph_ok_def)
  have nz: "\<And>l. l \<in> set (lits s c) \<Longrightarrow> lit_in s l \<and> l \<noteq> 0" and d: "distinct (lits s c)"
    using F(2) by (auto simp: clause_ok_on_def lit_in_def)
  obtain k r x where rep: "replacement (s_vals s) (lits s c) (c_pos (s_heap s c)) = (k, r, x)" by (metis prod_cases3)
  note R = replacement_result [OF rep F(4,5)]
  define s1 where "s1 = upd_clause c (c_pos_update (\<lambda>_. k)) s"
  note rn = propagate_large_run [where nl = nl, OF rep [unfolded c_def], folded c_def o'_def s1_def, unfolded Let_def, folded s1_def]
  have i1: "prop_inv nl p ks (w # ws) s1" by (rule prop_inv_quiet [OF inv]) (simp_all add: s1_def)
  have ok1: "search_ok M (with_list nl (ks @ w # ws) s1)" unfolding s1_def by (rule search_ok_pos [OF ok R(1,2)])
  have f1: "lits s1 c = lits s c" "other_lit s1 nl w = o'" "s_trail s1 = s_trail s" "s_vals s1 = s_vals s" "vals_ok s1"
    using v by (simp_all add: s1_def o'_def other_lit_def c_def vals_ok_def lit_in_def)
  consider (sat) "s_vals s o' > 0" | (repl) "\<not> s_vals s o' > 0" "x > 0" | (move) "\<not> s_vals s o' > 0" "x = 0"
    | (unit) "x < 0" "s_vals s o' = 0" | (confl) "x < 0" "s_vals s o' < 0" by linarith
  then show ?thesis
  proof cases
    case sat
    then have "true_in s c" using val_true [OF v] F(8) nz by blast
    then have "prop_inv nl p (ks @ [w\<lparr>w_blit := o'\<rparr>]) ws s" by (intro prop_inv_keep [OF inv]) (simp_all add: c_def)
    with sat run show ?thesis unfolding rn by auto
  next
    case repl
    then have "r \<in> set (lits s1 c)" "s_vals s1 r > 0" using R(3) by (simp_all add: f1)
    then have "true_in s1 c" using val_true [OF f1(5)] nz f1(1) by auto
    then have "prop_inv nl p (ks @ [w\<lparr>w_blit := r\<rparr>]) ws s1" by (intro prop_inv_keep [OF i1]) (simp_all add: c_def)
    with repl run show ?thesis unfolding rn by auto
  next
    case move
    then have r: "k < length (lits s c)" "r = lits s c ! k" "s_vals s r = 0" using R(3) by auto
    then have "- r \<notin> set (s_trail s)" using vals_iff(3) [OF v, of r] nz by simp
    then have "prop_inv nl p ks ws (watch_literal (lits s1 (w_clause w) ! k) nl (w_clause w)
        (upd_clause (w_clause w) (c_lits_update (\<lambda>ls. ls[0 := o', 1 := r, k := nl])) s1))"
      by (intro prop_inv_move [OF ok1 nb R(1) _ _ _ i1]) (use r f1 in \<open>simp_all add: c_def\<close>)
    with move run r(2) f1(1) show ?thesis unfolding rn by (auto simp: c_def)
  next
    case unit
    note m = large_unit [OF ok nl nb rep [unfolded c_def] unit(1) unit(2) [unfolded o'_def], folded c_def, folded o'_def s1_def]
    define u where "u = search_assign o' (Because c) s1"
    have oku: "search_ok M (with_list nl (ks @ w # ws) u)" unfolding u_def by (rule search_ok_assign [OF ok1 m])
    have g1: "graph_ok M s1" using ok1 by (simp add: search_ok_with_list)
    have iu: "prop_inv nl p ks (w # ws) u" unfolding u_def
      by (rule prop_inv_assign [OF i1 g1]) (use m p pr in \<open>simp_all add: may_assign_def f1, simp add: s1_def\<close>)
    have fu: "lits u c = lits s c" "other_lit u nl w = o'" "o' \<in> set (s_trail u)"
      by (simp_all add: u_def s1_def o'_def other_lit_def c_def)
    obtain mv where mv: "rewatch_level nl o' c u = Inr (mv, t)" "ow = (if mv then None else Some w)"
      using run unit unfolding rn by (cases "rewatch_level nl o' c u") (auto simp: u_def)
    from rewatch_level_cases [OF mv(1)] show ?thesis
    proof (elim disjE conjE exE)
      assume "\<not> mv" "t = u"
      moreover have "true_in u c" using fu F(8) unfolding true_in_def by auto
      then have "prop_inv nl p (ks @ [w]) ws u" by (intro prop_inv_keep [OF iu]) (simp_all add: c_def)
      ultimately show ?thesis using mv(2) by simp
    next
      fix i assume i: "mv" "2 \<le> i" "i < length (lits u c)" "lev u (lits u c ! i) = lev u o'"
        "t = watch_literal (lits u c ! i) o' c (upd_clause c (c_lits_update (\<lambda>ls. ls[i := nl, 0 := o', 1 := lits u c ! i])) u)"
      let ?f = "c_lits_update (\<lambda>ls. ls[i := nl, 0 := o', 1 := lits u c ! i])"
      have "(lits u c)[i := nl, 0 := o', 1 := lits u c ! i] = (lits u c)[0 := o', 1 := lits u c ! i, i := nl]"
        using move_permutes(6) [OF d i(2) _ F(6,7)] i(3) by (simp add: fu)
      then have "prop_inv nl p ks ws (watch_literal (lits u (w_clause w) ! i) o' (w_clause w) (upd_clause (w_clause w) ?f u))"
        by (intro prop_inv_move [OF oku nb i(2) _ _ _ iu]) (use i fu in \<open>simp_all add: c_def\<close>)
      with i mv(2) show ?thesis by (simp add: c_def)
    qed
  next
    case confl
    have "prop_inv nl p ks (w # ws) (s1\<lparr>s_conflict := Some c\<rparr>)" by (rule prop_inv_quiet [OF i1]) simp_all
    then have "prop_inv nl p (ks @ [w]) ws (s1\<lparr>s_conflict := Some c\<rparr>)" by (rule prop_inv_keep) simp_all
    with confl run show ?thesis unfolding rn by auto
  qed
qed

lemma watch_step:
  assumes ok: "search_ok M (with_list nl (ks @ w # ws) s)" and nl: "- nl \<in> set (s_trail s)"
    and p: "p \<le> length (s_trail s)" and pr: "s_propagated s \<le> length (s_trail s)" and inv: "prop_inv nl p ks (w # ws) s"
    and run: "propagate_watch nl w s = Inr (ow, stop, t)"
  shows "prop_inv nl p (ks @ option_list ow) ws t"
proof -
  let ?c = "w_clause w" and ?b = "w_blit w"
  have g: "graph_ok M s" and lg: "list_good s nl (ks @ w # ws)" using ok by (simp_all add: search_ok_with_list)
  then have v: "vals_ok s" by (simp add: graph_ok_def)
  have wg: "watch_good s nl w" using lg by (simp add: list_good_def)
  then have b: "?b \<in> set (lits s ?c)" "?c < s_next s" by (simp_all add: watch_good_def Let_def)
  have bi: "lit_in s ?b" using g b unfolding graph_ok_def clauses_ok_def clause_ok_on_def by blast
  then have b0: "?b \<noteq> 0" by (simp add: lit_in_def)
  consider (blit) "s_vals s ?b > 0" | (conf) "s_vals s ?b < 0" "watch_binary w" | (unit) "s_vals s ?b = 0" "watch_binary w"
    | (old) "\<not> s_vals s ?b > 0" "\<not> watch_binary w" "s_conflict s \<noteq> None"
    | (gone) "\<not> s_vals s ?b > 0" "\<not> watch_binary w" "s_conflict s = None" "c_garbage (s_heap s ?c)"
    | (big) "\<not> s_vals s ?b > 0" "\<not> watch_binary w" "s_conflict s = None" "\<not> c_garbage (s_heap s ?c)"
    by linarith
  then show ?thesis
  proof cases
    case blit
    have "prop_inv nl p (ks @ [w]) ws s" by (rule prop_inv_keep [OF inv]) (use val_true [OF v blit b(1) b0] in simp_all)
    with blit run show ?thesis by (auto simp: propagate_watch_def)
  next
    case conf
    have "prop_inv nl p (ks @ [w]) ws (s\<lparr>s_conflict := Some ?c\<rparr>)"
      by (rule prop_inv_keep [OF prop_inv_quiet [OF inv]]) simp_all
    with conf run show ?thesis by (auto simp: propagate_watch_def Let_def)
  next
    case unit
    have "true_in (search_assign ?b (Because ?c) s) ?c" using b(1) by (auto simp: true_in_def)
    then have "prop_inv nl p (ks @ [w]) ws (search_assign ?b (Because ?c) s)"
      by (intro prop_inv_keep [OF prop_inv_assign [OF inv g bi unit(1) pr p]]) simp_all
    with unit run show ?thesis by (auto simp: propagate_watch_def Let_def)
  next
    case old
    have "prop_inv nl p (ks @ [w]) ws s" by (rule prop_inv_keep [OF inv]) (use old in simp_all)
    with old run show ?thesis by (auto simp: propagate_watch_def Let_def)
  next
    case gone
    have "prop_inv nl p ks ws s" by (rule prop_inv_drop [OF inv]) (use gone in \<open>simp add: live_def\<close>)
    with gone run show ?thesis by (auto simp: propagate_watch_def Let_def)
  next
    case big
    then have "propagate_large nl w s = Inr (ow, stop, t)" using run by (simp add: propagate_watch_def Let_def)
    from large_step [OF ok nl big(2) p pr inv this] show ?thesis .
  qed
qed

section \<open>The watch list and the trail\<close>

lemma watches_step:
  assumes "search_ok M (with_list nl (ks @ ws) s)" and "- nl \<in> set (s_trail s)" and "p \<le> length (s_trail s)"
    and "s_propagated s \<le> length (s_trail s)" and "prop_inv nl p ks ws s" and "propagate_watches nl ws s = Inr (vs, t)"
  shows "prop_inv nl p (ks @ vs) [] t"
  using assms
proof (induction ws arbitrary: ks s vs)
  case Nil
  then show ?case by simp
next
  case (Cons w ws)
  from propagate_watch_ok [OF Cons.prems(1,2)] obtain ow stop u where u:
    "propagate_watch nl w s = Inr (ow, stop, u)" "search_ok M (with_list nl (ks @ option_list ow @ ws) u)" "extends s u"
    "stop \<longrightarrow> s_conflict u \<noteq> None" by auto
  note I = watch_step [OF Cons.prems(1-5) u(1)]
  show ?case
  proof (cases stop)
    case True
    then have "vs = option_list ow @ ws" "t = u" using Cons.prems(6) u(1) by (simp_all add: option_list_def Let_def split: option.splits)
    with I u(4) True show ?thesis by (auto simp: prop_inv_def)
  next
    case False
    then obtain vs' where vs: "propagate_watches nl ws u = Inr (vs', t)" "vs = option_list ow @ vs'"
      using Cons.prems(6) u(1) by (cases "propagate_watches nl ws u") (auto simp: option_list_def Let_def split: option.splits)
    have tr: "set (s_trail s) \<subseteq> set (s_trail u)" "length (s_trail s) \<le> length (s_trail u)" "s_propagated u = s_propagated s"
      using u(3) by (auto simp: extends_def)
    have "search_ok M (with_list nl ((ks @ option_list ow) @ ws) u)" using u(2) by simp
    from Cons.IH [OF this _ _ _ I vs(1)] tr Cons.prems(2-4) vs(2) show ?thesis by auto
  qed
qed

lemma lit_step:
  assumes ok: "search_ok M s" and p: "p < length (s_trail s)" "s_propagated s = p + 1" and w: "watched s" and pf: "prefixes_ok {} s"
    and fr: "front_at p s" and run: "propagate_lit (- (s_trail s ! p)) s = Inr t"
  shows "watched t" "prefixes_ok {} t" "s_conflict t = None \<Longrightarrow> front_at (p + 1) t"
proof -
  define nl where "nl = - (s_trail s ! p)"
  have nl: "- nl \<in> set (s_trail s)" using p(1) by (simp add: nl_def)
  have ok': "search_ok M (with_list nl ([] @ s_watches s nl) s)" using ok by (simp add: with_list_same)
  from propagate_watches_ok [OF ok' nl] obtain ks u where u: "propagate_watches nl (s_watches s nl) s = Inr (ks, u)" "extends s u" by auto
  have t: "t = with_list nl ks u" using run u(1) by (simp add: propagate_lit_def nl_def [symmetric] with_list_def)
  have "prop_inv nl p [] (s_watches s nl) s" using w pf fr by (simp add: prop_inv_def watched_by_def with_list_same)
  from watches_step [OF ok' nl _ _ this u(1)] p have I: "prop_inv nl p ks [] u" by simp
  then show w': "watched t" by (simp add: prop_inv_def watched_by_def t)
  have same: "live t c = live u c" "true_in t c = true_in u c" "wfalse t q c = wfalse u q c" for q c
    by (simp_all add: t live_def true_in_def wfalse_def)
  show "prefixes_ok {} t" by (rule prefixes_same [of u]) (use I in \<open>simp_all add: prop_inv_def t\<close>)
  show "front_at (p + 1) t" if c: "s_conflict t = None"
    unfolding front_at_def same
  proof (intro allI impI)
    fix c assume l: "live u c" and f: "wfalse u (p + 1) c"
    have "take (p + 1) (s_trail u) = take p (s_trail u) @ [- nl]"
      using p(1) u(2) by (auto simp: extends_def nl_def take_Suc_conv_app_nth nth_append)
    then have "wfalse u p c \<or> lits u c ! 0 = nl \<or> lits u c ! 1 = nl" using f unfolding wfalse_def by auto
    then show "true_in u c"
    proof
      assume "wfalse u p c"
      with I l show ?thesis by (simp add: prop_inv_def front_at_def)
    next
      assume "lits u c ! 0 = nl \<or> lits u c ! 1 = nl"
      moreover have "watched_by nl ks u" using I by (simp add: prop_inv_def)
      ultimately have "c \<in> w_clause ` set ks" using l unfolding watched_by_iff by force
      with I l c show ?thesis by (auto simp: prop_inv_def t)
    qed
  qed
qed

lemma front_at_ok: "front_ok {} s = front_at (s_propagated s) s"
  by (simp add: front_ok_def front_at_def)

lemma propagated_same:
  "watched (s\<lparr>s_propagated := n\<rparr>) = watched s" "prefixes_ok X (s\<lparr>s_propagated := n\<rparr>) = prefixes_ok X s" "front_at p (s\<lparr>s_propagated := n\<rparr>) = front_at p s"
  by (simp_all add: watched_def prefixes_ok_def front_at_def live_def wfalse_def true_below_def true_in_def)

lemma loop_watch:
  assumes "search_ok M s" and "s_propagated s \<le> length (s_trail s)" and "watch_inv s" and "propagate_loop fuel s = Inr t"
  shows "watch_inv t"
  using assms
proof (induction fuel arbitrary: s)
  case 0
  then show ?case by (subst (asm) propagate_loop.simps) (auto split: if_splits)
next
  case (Suc fuel)
  show ?case
  proof (cases "s_conflict s = None \<and> s_propagated s \<noteq> length (s_trail s)")
    case False
    with Suc.prems show ?thesis by (subst (asm) propagate_loop.simps) (simp only: if_not_P, simp)
  next
    case True
    let ?p = "s_propagated s" and ?s = "s\<lparr>s_propagated := s_propagated s + 1\<rparr>"
    have lt: "?p < length (s_trail s)" using True Suc.prems(2) by simp
    then have m: "- (- (s_trail s ! ?p)) \<in> set (s_trail ?s)" by simp
    have oks: "search_ok M ?s" using Suc.prems(1) by (simp add: search_ok_propagated)
    from propagate_lit_ok [OF this m] obtain u where u: "propagate_lit (- (s_trail s ! ?p)) ?s = Inr u" "search_ok M u" "extends ?s u" by blast
    have t: "propagate_loop fuel u = Inr t"
      using Suc.prems(4) by (subst (asm) propagate_loop.simps) (simp only: if_P [OF True] nat.case vec_get_ok [OF lt] bind_res_simps u(1))
    have w: "watched ?s" "prefixes_ok {} ?s" "front_at ?p ?s" "marks_ok s"
      using Suc.prems(3) True by (simp_all add: watch_inv_def propagated_same front_at_ok)
    have "watched u" "prefixes_ok {} u" "s_conflict u = None \<Longrightarrow> front_at (?p + 1) u"
      using lit_step [OF oks _ _ w(1-3), of u] lt u(1) by simp_all
    moreover have "s_level u = s_level s" "s_control u = s_control s" "s_propagated u = ?p + 1" using u(3) by (simp_all add: extends_def)
    then have "marks_ok u" using w(4) unfolding marks_ok_def by (simp add: le_SucI)
    moreover have "s_propagated u = ?p + 1" "length (s_trail s) \<le> length (s_trail u)" using u(3) by (auto simp: extends_def)
    ultimately have "watch_inv u" "s_propagated u \<le> length (s_trail u)" using lt by (simp_all add: watch_inv_def front_at_ok)
    from Suc.IH [OF u(2) this(2,1) t] show ?thesis .
  qed
qed

lemma advances_carries: "advances s t \<Longrightarrow> carries s t"
  by (simp add: advances_def extends_def carries_def)

lemma search_propagate_watch:
  assumes ok: "search_ok M s" and p: "s_propagated s \<le> length (s_trail s)" and w: "watch_inv s" and run: "search_propagate s = Inr (b, t)"
  shows "watch_inv t" "carries s t" "retains s t"
proof -
  from propagate_loop_ok [OF ok p le_add1] obtain u where u: "propagate_loop (s_max_var s) s = Inr u" "search_ok M u" "advances s u"
    by (elim exE conjE) (rule that; simp)
  have wu: "watch_inv u" by (rule loop_watch [OF ok p w u(1)])
  have "tame u t" "s_conflict t = s_conflict u"
    using run u(1) by (auto simp: search_propagate_def tame_def split: if_splits simp: bind_res_eq_Inr)
  moreover have "graph_ok M u" using u(2) by (simp add: search_ok_def)
  ultimately show "watch_inv t" "carries s t" "retains s t"
    using tame_watch_inv wu carries_trans [OF advances_carries [OF u(3)] tame_carries] retains_trans [OF advances_retains [OF u(3)] tame_retains]
    by blast+
qed

end
