(* ===== verification/Search_Keep.thy ===== *)
theory Search_Keep
  imports Search_Watch_Analyze Search_Watch_Propagate
begin

text \<open>
  What each step of the search keeps for the answer 10: the watch invariant, the assumptions and the constraint made
  true, the irredundant clauses and the literals fixed on level zero.
\<close>

section \<open>Keeping\<close>

definition good :: "solver \<Rightarrow> bool" where
  "good s \<longleftrightarrow> watch_inv s \<and> query_ok s"

definition fixed_stay :: "solver \<Rightarrow> solver \<Rightarrow> bool" where
  "fixed_stay s t \<longleftrightarrow> (\<forall>l \<in> set (s_trail s). lev s l = 0 \<longrightarrow> l \<in> set (s_trail t) \<and> lev t l = 0)"

definition upholds :: "solver \<Rightarrow> solver \<Rightarrow> bool" where
  "upholds s t \<longleftrightarrow> same_query s t \<and> (good s \<longrightarrow> good t \<and> carries s t \<and> fixed_stay s t)"

lemma upholds_refl [simp]: "upholds s s"
  by (simp add: upholds_def fixed_stay_def)

lemma upholds_trans [trans]: "upholds s t \<Longrightarrow> upholds t u \<Longrightarrow> upholds s u"
  unfolding upholds_def fixed_stay_def using carries_trans by (elim conjE) (intro conjI impI; simp; blast)

lemma upholds_query: "upholds s t \<Longrightarrow> same_query s t"
  by (simp add: upholds_def)

lemma retains_fixed: "retains s t \<Longrightarrow> fixed_stay s t"
  by (simp add: retains_def fixed_stay_def)

lemma upholds_retains:
  assumes "retains s t" and "carries s t" and "watch_inv s \<Longrightarrow> watch_inv t"
  shows "upholds s t"
proof -
  have "same_query s t" using assms(1) by (simp add: retains_def)
  then show ?thesis using assms query_retained [OF _ assms(1)] retains_fixed [OF assms(1)] by (simp add: upholds_def good_def)
qed

lemma tame_upholds: "tame s t \<Longrightarrow> graph_ok M s \<Longrightarrow> s_conflict t = s_conflict s \<Longrightarrow> upholds s t"
  using tame_watch_inv by (intro upholds_retains tame_retains tame_carries) blast+

lemma idle_upholds: "idle s t \<Longrightarrow> cdcl_ok M s \<Longrightarrow> upholds s t"
  by (rule tame_upholds [OF quiet_tame]) (auto simp: idle_def quiet_def cdcl_ok_def search_ok_def)

lemma propagate_upholds:
  assumes ok: "cdcl_ok M s" and run: "search_propagate s = Inr (b, t)" and q: "same_query s t"
  shows "upholds s t"
proof -
  have "search_ok M s" "s_propagated s \<le> length (s_trail s)" using ok by (simp_all add: cdcl_ok_def)
  note W = search_propagate_watch [OF this _ run]
  show ?thesis unfolding upholds_def good_def using W q query_retained retains_fixed by blast
qed

lemma analyzed_upholds:
  assumes ok: "cdcl_ok M s" and an: "analyzed M s t" and q: "same_query s t"
  shows "s_unsat t \<or> upholds s t"
proof -
  have "search_ok M s" "chrono s" "s_propagated s \<le> length (s_trail s)" using ok by (simp_all add: cdcl_ok_def)
  note W = analyzed_watch [OF an this(1,2) _ this(3)]
  show ?thesis unfolding upholds_def good_def using W q query_retained retains_fixed by blast
qed

lemma backtracked_upholds:
  assumes g: "graph_ok M s" and b: "backtracked n s t" and n: "n \<le> s_level s"
  shows "upholds s t"
proof (rule upholds_retains)
  show "retains s t" by (rule backtracked_retains [OF b n])
  show "carries s t" by (rule backtracked_carries [OF b])
  assume w: "watch_inv s"
  have W: "watched s" "marks_ok s" "prefixes_ok {} s" using w by (simp_all add: watch_inv_def)
  show "watch_inv t"
  proof (cases "n < s_level s")
    case True
    from backtracked_watch [OF g b True W(2,3,1)] show ?thesis by (simp add: watch_inv_def)
  next
    case False
    then have e: "n = s_level s" using n by simp
    have ct: "length (s_control s) = s_level s + 1" using g by (simp add: graph_ok_def control_ok_def)
    have "filter (\<lambda>l. lev s l \<le> n) (s_trail s) = s_trail s" using level_le [OF g] e by (simp add: filter_id_conv)
    then have "tame s t" using b e ct by (simp add: backtracked_def tame_def)
    moreover have "s_conflict t = s_conflict s" using b by (simp add: backtracked_def)
    ultimately show ?thesis using tame_watch_inv g w by blast
  qed
qed

section \<open>Decisions\<close>

lemma query_push:
  assumes q: "query_ok s" and g: "graph_ok M s" and e: "s_level t = s_level s + 1" "same_query s t"
    and old: "\<And>l. l \<in> set (s_trail s) \<Longrightarrow> l \<in> set (s_trail t) \<and> lev t l = lev s l"
    and a: "s_level s < length (s_assumptions s) \<Longrightarrow> s_assumptions s ! s_level s \<in> set (s_trail t)"
    and c: "s_level s = length (s_assumptions s) \<Longrightarrow> s_constraint s \<noteq> [] \<Longrightarrow> \<exists>l \<in> set (s_constraint s). l \<in> set (s_trail t)"
    and le: "\<And>l. l \<in> set (s_trail t) \<Longrightarrow> lev t l \<le> s_level t"
  shows "query_ok t"
  unfolding query_ok_def e
proof (intro conjI allI impI)
  fix k assume k: "k < s_level s + 1" "k < length (s_assumptions t)"
  show "s_assumptions t ! k \<in> set (s_trail t)" "lev t (s_assumptions t ! k) \<le> k + 1"
  proof (atomize (full), cases "k < s_level s")
    case True
    then have "s_assumptions s ! k \<in> set (s_trail s)" "lev s (s_assumptions s ! k) \<le> k + 1"
      using q k(2) e(2) unfolding query_ok_def by auto
    with old show "s_assumptions t ! k \<in> set (s_trail t) \<and> lev t (s_assumptions t ! k) \<le> k + 1" by (simp add: e(2))
  next
    case False
    then have "k = s_level s" using k(1) by simp
    with a k(2) e le show "s_assumptions t ! k \<in> set (s_trail t) \<and> lev t (s_assumptions t ! k) \<le> k + 1" by fastforce
  qed
next
  assume n: "length (s_assumptions t) < s_level s + 1" "s_constraint t \<noteq> []"
  show "\<exists>l \<in> set (s_constraint t). l \<in> set (s_trail t) \<and> lev t l \<le> length (s_assumptions t) + 1"
  proof (cases "s_level s = length (s_assumptions s)")
    case True
    with c n(2) e obtain l where "l \<in> set (s_constraint s)" "l \<in> set (s_trail t)" by auto
    with le [of l] True e show ?thesis by auto
  next
    case False
    then have "length (s_assumptions s) < s_level s" using n(1) e(2) by simp
    with q n(2) e(2) obtain l where l: "l \<in> set (s_constraint s)" "l \<in> set (s_trail s)" "lev s l \<le> length (s_assumptions s) + 1"
      unfolding query_ok_def by auto
    with old [OF l(2)] e(2) show ?thesis by auto
  qed
qed

lemma pseudo_upholds:
  assumes g: "graph_ok M s" and c: "s_conflict s = None" and p: "s_propagated s = length (s_trail s)"
    and a: "s_level s < length (s_assumptions s) \<Longrightarrow> s_assumptions s ! s_level s \<in> set (s_trail s)"
    and cn: "s_level s = length (s_assumptions s) \<Longrightarrow> s_constraint s \<noteq> [] \<Longrightarrow> \<exists>l \<in> set (s_constraint s). l \<in> set (s_trail s)"
  shows "upholds s (push_level d s)"
proof -
  let ?t = "push_level d s"
  have e: "s_level ?t = s_level s + 1" "same_query s ?t" "s_trail ?t = s_trail s" "lev ?t l = lev s l" for l by (simp_all add: push_level_def)
  have le: "lev ?t l \<le> s_level ?t" if "l \<in> set (s_trail ?t)" for l using level_le [OF g, of l] that e by simp
  have "query_ok s \<Longrightarrow> query_ok ?t" by (rule query_push [OF _ g e(1,2) _ _ _ le]) (use a cn in \<open>simp_all add: e\<close>)
  moreover have "watch_inv s \<Longrightarrow> watch_inv ?t" by (rule push_level_watch [OF g c p])
  moreover have "carries s ?t" by (simp add: carries_def)
  moreover have "fixed_stay s ?t" by (simp add: fixed_stay_def e)
  ultimately show ?thesis using e(2) by (simp add: upholds_def good_def)
qed

lemma decision_upholds:
  assumes g: "graph_ok M s" and c: "s_conflict s = None" and p: "s_propagated s = length (s_trail s)"
    and l: "lit_in s lit" "s_vals s lit = 0" and d: "may_decide lit s"
    and cn: "s_level s = length (s_assumptions s) \<Longrightarrow> s_constraint s \<noteq> [] \<Longrightarrow> lit \<in> set (s_constraint s)"
  shows "upholds s (search_assume_decision lit s)"
proof -
  let ?u = "push_level lit s" and ?t = "search_assume_decision lit s"
  have t: "?t = search_assign lit DecisionReason ?u" by (simp only: push_level_eqs)
  have gu: "graph_ok M ?u" by (rule push_level_graph_ok [OF g d])
  have gt: "graph_ok M ?t" by (rule decision_graph_ok [OF g l d])
  have v: "vals_ok ?u" using gu by (simp add: graph_ok_def)
  have lu: "lit_in ?u lit" "s_vals ?u lit = 0" using l by (simp_all add: lit_in_def push_level_def)
  have pu: "s_propagated ?u \<le> length (s_trail ?u)" using p by (simp add: push_level_def)
  have e: "s_level ?t = s_level s + 1" "same_query s ?t" "s_conflict ?t = s_conflict s" "set (s_trail ?t) = insert lit (set (s_trail s))"
    by (simp_all add: t push_level_def)
  have old: "k \<in> set (s_trail ?t) \<and> lev ?t k = lev s k" if k: "k \<in> set (s_trail s)" for k
  proof -
    have "lev ?t k = lev ?u k" unfolding t by (rule assign_lev [OF v lu]) (use k in \<open>simp add: push_level_def\<close>)
    then show ?thesis using k e(4) by (simp add: push_level_def)
  qed
  have "lit \<noteq> 0" using l(1) by (simp add: lit_in_def)
  then have a: "s_assumptions s ! s_level s = lit" if "s_level s < length (s_assumptions s)" using d that by (auto simp: may_decide_def)
  have "query_ok s \<Longrightarrow> query_ok ?t"
    by (rule query_push [OF _ g e(1,2) old _ _ level_le [OF gt]]) (use a cn in \<open>auto simp: e(4)\<close>)
  moreover have "watch_inv ?t" if w: "watch_inv s"
  proof -
    have "watch_inv ?u" by (rule push_level_watch [OF g c p w])
    with assign_watch [OF gu lu pu, where why = DecisionReason] c e(3) show ?thesis unfolding t by (auto simp: watch_inv_def push_level_def)
  qed
  moreover have "carries s ?t" by (simp add: carries_def t)
  moreover have "fixed_stay s ?t" using old by (simp add: fixed_stay_def)
  ultimately show ?thesis using e(2) by (simp add: upholds_def good_def)
qed

section \<open>A full assignment\<close>

lemma all_assigned:
  assumes v: "vals_ok s" and n: "length (s_trail s) = s_max_var s" and l: "lit_in s l"
  shows "l \<in> set (s_trail s) \<or> - l \<in> set (s_trail s)"
proof -
  have d: "distinct (map vidx (s_trail s))" and r: "\<forall>k \<in> set (s_trail s). lit_in s k" using v by (simp_all add: vals_ok_def)
  have "card (vidx ` set (s_trail s)) = s_max_var s" using distinct_card [OF d] n by simp
  moreover have sub: "vidx ` set (s_trail s) \<subseteq> {1 .. s_max_var s}" using r by (auto simp: lit_in_def)
  ultimately have "vidx ` set (s_trail s) = {1 .. s_max_var s}" using card_subset_eq [OF _ sub] by simp
  moreover have "vidx l \<in> {1 .. s_max_var s}" using l by (auto simp: lit_in_def)
  ultimately obtain k where "k \<in> set (s_trail s)" "vidx k = vidx l" by (metis imageE)
  then show ?thesis by (auto simp: vidx_eq)
qed

lemma full_satisfies:
  assumes g: "graph_ok M s" and c: "s_conflict s = None" and w: "watch_inv s" and sat: "is_satisfied s" and l: "live s c'"
  shows "true_in s c'"
proof -
  have n: "length (s_trail s) = s_max_var s" "length (s_trail s) \<le> s_propagated s" using sat by (simp_all add: is_satisfied_def)
  have v: "vals_ok s" using g by (simp add: graph_ok_def)
  have cok: "clause_ok_on M s (lits s c')" using g l by (simp add: graph_ok_def clauses_ok_def live_def)
  then have "2 \<le> length (lits s c')" "\<forall>k \<in> set (lits s c'). lit_in s k" by (simp_all add: clause_ok_on_def)
  moreover from this(1) have z: "lits s c' ! 0 \<in> set (lits s c')" by (intro nth_mem) linarith
  ultimately have "lit_in s (lits s c' ! 0)" by blast
  from all_assigned [OF v n(1) this] show ?thesis
  proof
    assume "lits s c' ! 0 \<in> set (s_trail s)"
    with z show ?thesis unfolding true_in_def by blast
  next
    assume "- (lits s c' ! 0) \<in> set (s_trail s)"
    then have "wfalse s (s_propagated s) c'" using n(2) by (simp add: wfalse_def)
    with w c l show ?thesis by (simp add: watch_inv_def front_ok_def)
  qed
qed

end
