(* ===== verification/Random_Numbers.thy ===== *)
theory Random_Numbers
  imports "HOL-Library.Word"
begin

text \<open>
  CaDiCaL's random numbers (\<open>random.hpp\<close>), a linear congruence on 64 bits, and the reluctant doubling
  sequence that schedules restarts (\<open>reluctant.hpp\<close>).
\<close>

section \<open>Random numbers\<close>

definition rand_next :: "64 word \<Rightarrow> 64 word" where
  "rand_next state = state * 6364136223846793005 + 1442695040888963407"

definition rand_add :: "64 word \<Rightarrow> 64 word \<Rightarrow> 64 word" where
  "rand_add a state = rand_next (if state + a = 0 then 1 else state + a)"

definition rand_generate :: "64 word \<Rightarrow> 32 word \<times> 64 word" where
  "rand_generate state = (let state = rand_next state in (ucast (drop_bit 32 state), state))"

definition rand_bool :: "64 word \<Rightarrow> bool \<times> 64 word" where
  "rand_bool state = (case rand_generate state of (r, state) \<Rightarrow> (r < 2147483648, state))"

text \<open>One step is a permutation of the states: no two states have the same successor.\<close>

lemma rand_inverse: "(6364136223846793005 :: 64 word) * 13877824140714322085 = 1"
  by simp

lemma rand_next_inj: "rand_next s = rand_next t \<longleftrightarrow> s = t"
proof
  assume "rand_next s = rand_next t"
  then have "s * 6364136223846793005 * 13877824140714322085 = t * 6364136223846793005 * 13877824140714322085"
    by (simp add: rand_next_def)
  then show "s = t" by (simp only: mult.assoc rand_inverse mult_1_right)
qed simp

section \<open>Reluctant doubling\<close>

record reluctant =
  rl_u :: "64 word"
  rl_v :: "64 word"
  rl_limit :: "64 word"
  rl_period :: "64 word"
  rl_countdown :: "64 word"
  rl_trigger :: bool
  rl_limited :: bool

definition rl_enable :: "int \<Rightarrow> int \<Rightarrow> reluctant \<Rightarrow> reluctant" where
  "rl_enable p l r =
     (let r = r\<lparr>rl_u := 1, rl_v := 1, rl_period := of_int p, rl_countdown := of_int p, rl_trigger := False\<rparr>
      in if l \<le> 0 then r\<lparr>rl_limited := False\<rparr> else r\<lparr>rl_limited := True, rl_limit := of_int l\<rparr>)"

definition rl_disable :: "reluctant \<Rightarrow> reluctant" where
  "rl_disable r = r\<lparr>rl_period := 0, rl_trigger := False\<rparr>"

definition rl_double :: "64 word \<times> 64 word \<Rightarrow> 64 word \<times> 64 word" where
  "rl_double = (\<lambda>(u, v). if and u (- u) = v then (u + 1, 1) else (u, 2 * v))"

definition rl_tick :: "reluctant \<Rightarrow> reluctant" where
  "rl_tick r =
     (if rl_period r = 0 then r
      else if rl_trigger r then r
      else
        let r = r\<lparr>rl_countdown := rl_countdown r - 1\<rparr> in
        if rl_countdown r \<noteq> 0 then r
        else
          let (u, v) = rl_double (rl_u r, rl_v r);
              (u, v) = (if rl_limited r \<and> v \<ge> rl_limit r then (1, 1) else (u, v))
          in r\<lparr>rl_u := u, rl_v := v, rl_countdown := v * rl_period r, rl_trigger := True\<rparr>)"

definition rl_signal :: "reluctant \<Rightarrow> bool \<times> reluctant" where
  "rl_signal r = (if \<not> rl_trigger r then (False, r) else (True, r\<lparr>rl_trigger := False\<rparr>))"

section \<open>The sequence\<close>

text \<open>Luby's sequence, as it is defined: twice the sequence so far, then a doubled value.\<close>

fun luby_block :: "nat \<Rightarrow> nat list" where
  "luby_block 0 = []"
| "luby_block (Suc k) = luby_block k @ luby_block k @ [2 ^ k]"

text \<open>The values of \<open>n\<close> states in a row.\<close>

fun rl_values :: "nat \<Rightarrow> 64 word \<times> 64 word \<Rightarrow> 64 word list" where
  "rl_values 0 p = []"
| "rl_values (Suc n) p = snd p # rl_values n (rl_double p)"

lemma rl_values_append: "rl_values (m + n) p = rl_values m p @ rl_values n ((rl_double ^^ m) p)"
  by (induction m arbitrary: p) (simp_all add: funpow_swap1)

text \<open>The lowest bit of a number.\<close>

lemma low_bit_odd: "and (2 * b + 1) (- (2 * b + 1)) = (1 :: int)"
proof -
  have "- (2 * b + 1) = 2 * not b + 1" by (simp add: not_int_def)
  moreover have "and (2 * b + 1) (2 * c + 1) = 2 * and b c + 1" for c by (subst and_int_rec) simp
  ultimately show ?thesis by (simp only: bit.conj_cancel_right mult_zero_right add_0_left)
qed

lemma low_bit: "and (2 ^ j * (2 * b + 1)) (- (2 ^ j * (2 * b + 1))) = (2 ^ j :: int)"
proof -
  have "and (push_bit j (2 * b + 1)) (push_bit j (- (2 * b + 1))) = push_bit j (and (2 * b + 1) (- (2 * b + 1)))"
    by (rule push_bit_and [symmetric])
  then have "and ((2 * b + 1) * 2 ^ j) (- (2 * b + 1) * 2 ^ j) = 1 * (2 ^ j :: int)" unfolding low_bit_odd by (simp only: push_bit_eq_mult)
  then show ?thesis by (simp only: mult.commute [of "2 ^ j"] minus_mult_left mult_1_left)
qed

lemma low_bit_word:
  assumes "2 ^ Suc j dvd a"
  shows "and (of_nat (a + 2 ^ j)) (- of_nat (a + 2 ^ j)) = (2 ^ j :: 64 word)"
proof -
  obtain b where "a = 2 ^ Suc j * b" using assms by (rule dvdE)
  then have e: "int (a + 2 ^ j) = 2 ^ j * (2 * int b + 1)" by (simp add: algebra_simps)
  have "of_int (and (int (a + 2 ^ j)) (- int (a + 2 ^ j))) = (of_int (2 ^ j) :: 64 word)" unfolding e by (simp only: low_bit)
  then show ?thesis by (simp only: of_int_and_eq of_int_minus of_int_of_nat_eq of_int_power of_int_numeral)
qed

lemma high_bit_word:
  assumes "2 ^ Suc j dvd a" and "j < 64"
  shows "and (of_nat a) (- of_nat a) \<noteq> (2 ^ j :: 64 word)"
proof
  assume "and (of_nat a) (- of_nat a) = (2 ^ j :: 64 word)"
  then have "bit (and (of_nat a) (- of_nat a) :: 64 word) j" using assms(2) by (simp add: bit_exp_iff)
  then have "bit (of_nat a :: 64 word) j" by (simp add: bit_and_iff)
  then have "bit a j" by (simp add: bit_of_nat_iff)
  moreover obtain b where "a = 2 ^ Suc j * b" using assms(1) by (rule dvdE)
  then have "a = push_bit (Suc j) b" by (simp add: push_bit_eq_mult)
  ultimately show False by (simp only: bit_push_bit_iff) simp
qed

lemma luby_run:
  assumes "2 ^ k dvd a" and "k < 63"
  shows "rl_values (2 ^ Suc k - 1) (of_nat (a + 1), 1) = map of_nat (luby_block (Suc k))
    \<and> (rl_double ^^ (2 ^ Suc k - 2)) (of_nat (a + 1), 1) = (of_nat (a + 2 ^ k), 2 ^ k)"
  using assms
proof (induction k arbitrary: a)
  case 0
  then show ?case by simp
next
  case (Suc k)
  let ?n = "2 ^ Suc k - 1 :: nat" and ?p = "(of_nat (a + 1), 1) :: 64 word \<times> 64 word"
  let ?q = "(of_nat (a + 2 ^ k + 1), 1) :: 64 word \<times> 64 word" and ?r = "(of_nat (a + 2 ^ Suc k), 2 ^ Suc k) :: 64 word \<times> 64 word"
  have "1 \<le> (2 :: nat) ^ k" by simp
  then have one: "?n = Suc (2 ^ Suc k - 2)" unfolding power_Suc by linarith
  have d: "2 ^ k dvd a" "2 ^ k dvd a + 2 ^ k" using Suc.prems(1) dvd_mult_right [of 2 "2 ^ k" a] by simp_all
  have k: "k < 63" using Suc.prems(2) by simp
  note A = Suc.IH [OF d(1) k] and B = Suc.IH [OF d(2) k]
  have q: "(rl_double ^^ ?n) ?p = ?q"
    unfolding one using A low_bit_word [OF Suc.prems(1)] by (simp add: rl_double_def add_ac)
  have "2 ^ Suc k dvd a + 2 ^ Suc k" using Suc.prems(1) by simp
  from high_bit_word [OF this] k have r: "(rl_double ^^ ?n) ?q = ?r"
    unfolding one using B by (simp add: rl_double_def add_ac)
  have "rl_values (?n + (?n + 1)) ?p = map of_nat (luby_block (Suc (Suc k)))"
    unfolding rl_values_append q r using A B by simp
  moreover have "(rl_double ^^ (?n + ?n)) ?p = ?r" unfolding funpow_add comp_apply q r ..
  moreover have "?n + (?n + 1) = 2 ^ Suc (Suc k) - 1" "?n + ?n = 2 ^ Suc (Suc k) - 2" by simp_all
  ultimately show ?case by simp
qed

text \<open>C40. Restarts in stable mode follow Luby's sequence: the first \<open>2 ^ k - 1\<close> values of \<open>v\<close> of an enabled
\<open>Reluctant\<close>, on 64 bit words, are the Luby block of that length.\<close>

theorem reluctant_is_luby:
  assumes "k < 64"
  shows "rl_values (2 ^ k - 1) (rl_u (rl_enable p l r), rl_v (rl_enable p l r)) = map of_nat (luby_block k)"
proof -
  have e: "rl_u (rl_enable p l r) = 1" "rl_v (rl_enable p l r) = 1" by (simp_all add: rl_enable_def Let_def)
  show ?thesis
  proof (cases k)
    case (Suc j)
    with luby_run [of j 0] assms show ?thesis by (simp add: e)
  qed simp
qed

definition demo_reluctant :: reluctant where
  "demo_reluctant = \<lparr>rl_u = 2, rl_v = 1, rl_limit = 0, rl_period = 3, rl_countdown = 3, rl_trigger = False, rl_limited = False\<rparr>"

theorem reluctant_is_luby_witness:
  "rl_values 7 (rl_u (rl_enable 1024 0 demo_reluctant), rl_v (rl_enable 1024 0 demo_reluctant)) = [1, 1, 2, 1, 1, 2, 4]"
  using reluctant_is_luby [of 3 1024 0 demo_reluctant] by (simp add: numeral_3_eq_3)

lemma tick_wait:
  assumes "rl_period r \<noteq> 0" and "\<not> rl_trigger r"
  shows "n < unat (rl_countdown r) \<Longrightarrow> (rl_tick ^^ n) r = r\<lparr>rl_countdown := rl_countdown r - of_nat n\<rparr>"
proof (induction n)
  case (Suc n)
  have "rl_countdown r \<noteq> of_nat (Suc n)"
  proof
    assume c: "rl_countdown r = of_nat (Suc n)"
    have "unat (rl_countdown r) \<le> Suc n" unfolding c unat_of_nat by (rule mod_less_eq_dividend)
    with Suc.prems show False by simp
  qed
  then have "rl_countdown r - of_nat n - 1 \<noteq> 0" by (simp add: algebra_simps)
  with Suc assms show ?case by (simp add: rl_tick_def Let_def algebra_simps)
qed simp

text \<open>A \<open>Reluctant\<close> without a limit triggers after exactly as many ticks as its countdown says, not before; then the
next interval is the next value of the sequence times the period.\<close>

theorem reluctant_interval:
  assumes "rl_period r \<noteq> 0" and "\<not> rl_trigger r" and "\<not> rl_limited r" and "rl_countdown r \<noteq> 0"
  shows "(\<forall>n < unat (rl_countdown r). \<not> rl_trigger ((rl_tick ^^ n) r))
    \<and> (rl_tick ^^ unat (rl_countdown r)) r = (let p = rl_double (rl_u r, rl_v r) in
         r\<lparr>rl_u := fst p, rl_v := snd p, rl_countdown := snd p * rl_period r, rl_trigger := True\<rparr>)"
proof (intro conjI allI impI)
  fix n assume "n < unat (rl_countdown r)"
  from tick_wait [OF assms(1,2) this] assms(2) show "\<not> rl_trigger ((rl_tick ^^ n) r)" by simp
next
  let ?c = "unat (rl_countdown r)"
  have "0 < ?c" using assms(4) by (simp add: unat_gt_0)
  then obtain n where n: "?c = Suc n" by (cases ?c) simp_all
  have "rl_countdown r = of_nat (Suc n)" using arg_cong [OF n, of "of_nat :: nat \<Rightarrow> 64 word"] by (simp only: of_nat_unat ucast_id)
  then have "rl_countdown r - of_nat n = 1" by simp
  moreover have "(rl_tick ^^ n) r = r\<lparr>rl_countdown := rl_countdown r - of_nat n\<rparr>" by (rule tick_wait [OF assms(1,2)]) (simp add: n)
  ultimately have "(rl_tick ^^ ?c) r = rl_tick (r\<lparr>rl_countdown := 1\<rparr>)" unfolding n by simp
  with assms show "(rl_tick ^^ ?c) r = (let p = rl_double (rl_u r, rl_v r) in
         r\<lparr>rl_u := fst p, rl_v := snd p, rl_countdown := snd p * rl_period r, rl_trigger := True\<rparr>)"
    by (simp add: rl_tick_def Let_def split: prod.splits)
qed

theorem reluctant_interval_witness:
  "\<not> rl_trigger ((rl_tick ^^ 2) demo_reluctant) \<and> rl_countdown ((rl_tick ^^ 3) demo_reluctant) = 6"
proof -
  have "and 2 (- 2) = (2 :: 64 word)" using low_bit_word [of 1 0] by simp
  then have "rl_double (2, 1) = (2, 2)" by (simp add: rl_double_def)
  with reluctant_interval [of demo_reluctant] show ?thesis by (simp add: demo_reluctant_def Let_def)
qed

end
