(* ===== verification/Search_Loop.thy ===== *)
theory Search_Loop
  imports Search_Learn Random_Numbers
begin

text \<open>
  The CDCL loop (\<open>internal.cpp\<close>) with restarts (\<open>restart.cpp\<close>) and rephasing (\<open>rephase.cpp\<close>), as it runs with
  the options of inprocessing, local search (\<open>walk\<close>) and shuffling off: then \<open>reducing\<close>, \<open>probing\<close>,
  \<open>subsuming\<close>, \<open>eliminating\<close>, \<open>compacting\<close> and \<open>conditioning\<close> are false.  What an iteration reads from outside
  the model, the averages, the reluctant signal and asynchronous termination, is a record of its own.
  The products with \<open>double\<close> percentages are exact here: the stabilization interval is rounded down once,
  the restart margin is a rational number.
\<close>

record loop_options =
  lo_restart :: bool
  lo_restartreusetrail :: bool
  lo_restartint :: int
  lo_restartmargin :: nat
  lo_stabilize :: bool
  lo_stabilizeonly :: bool
  lo_stabilizefactor :: nat
  lo_stabilizemaxint :: int
  lo_rephase :: bool
  lo_rephaseint :: int
  lo_seed :: "64 word"

record limits =
  lm_restart :: int
  lm_stabilize :: int
  lm_inc_stabilize :: int
  lm_rephase :: int
  lm_rephased :: "bool \<Rightarrow> nat"
  lm_rephased_total :: nat
  lm_rephased_random :: nat
  lm_conflicts :: int
  lm_decisions :: int
  st_decisions :: int

record outside =
  out_reluctant :: bool
  out_slow :: rat
  out_fast :: rat
  out_terminated :: bool

section \<open>Restarts\<close>

text \<open>\<open>next_decision_variable\<close> on the state of the search.\<close>

definition pick_variable :: "bool \<Rightarrow> (nat \<Rightarrow> bool) \<Rightarrow> solver \<Rightarrow> (nat \<times> solver) res" where
  "pick_variable aux_build aux s =
     bind_res (next_decision_variable aux_build (s_max_var s) (\<lambda>i. s_vals s (int i) \<noteq> 0) aux
         \<lparr>d_queue = s_queue s, d_stab = s_stab s, d_scores = s_scores s, d_use_scores = use_scores s\<rparr>) (\<lambda>(idx, d).
       Inr (idx, s\<lparr>s_queue := d_queue d, s_stab := d_stab d, s_scores := d_scores d\<rparr>))"

definition stabilizing :: "loop_options \<Rightarrow> limits \<Rightarrow> solver \<Rightarrow> bool \<times> limits \<times> solver" where
  "stabilizing lo lm s =
     (if \<not> lo_stabilize lo then (False, lm, s)
      else if s_stable s \<and> lo_stabilizeonly lo then (True, lm, s)
      else if int (s_conflicts s) \<ge> lm_stabilize lm then
        (let s = s\<lparr>s_stable := \<not> s_stable s\<rparr>;
             n = lm_inc_stabilize lm * int (lo_stabilizefactor lo) div 100;
             n = (if n > lo_stabilizemaxint lo then lo_stabilizemaxint lo else n);
             l = int (s_conflicts s) + n;
             l = (if l \<le> int (s_conflicts s) then int (s_conflicts s) + 1 else l)
         in (s_stable s, lm\<lparr>lm_inc_stabilize := n, lm_stabilize := l\<rparr>, s))
      else (s_stable s, lm, s))"

definition restarting :: "loop_options \<Rightarrow> outside \<Rightarrow> limits \<Rightarrow> solver \<Rightarrow> bool \<times> limits \<times> solver" where
  "restarting lo out lm s =
     (if \<not> lo_restart lo then (False, lm, s)
      else if s_level s < length (s_assumptions s) + 2 then (False, lm, s)
      else case stabilizing lo lm s of (stab, lm, s) \<Rightarrow>
        if stab then (out_reluctant out, lm, s)
        else if int (s_conflicts s) \<le> lm_restart lm then (False, lm, s)
        else (let f = out_fast out; margin = (100 + of_nat (lo_restartmargin lo)) / 100; l = margin * out_slow out in (l \<le> f, lm, s)))"

fun reuse_while :: "(int \<Rightarrow> bool) \<Rightarrow> slevel list \<Rightarrow> nat \<Rightarrow> nat \<Rightarrow> nat res" where
  "reuse_while better control 0 res = Inr res"
| "reuse_while better control (Suc n) res =
     bind_res (vec_get control (res + 1)) (\<lambda>l. if better (l_decision l) then reuse_while better control n (res + 1) else Inr res)"

definition reuse_trail :: "loop_options \<Rightarrow> bool \<Rightarrow> (nat \<Rightarrow> bool) \<Rightarrow> solver \<Rightarrow> (nat \<times> solver) res" where
  "reuse_trail lo aux_build aux s =
     bind_res (vec_get (s_control s) (length (s_assumptions s) + 1)) (\<lambda>l.
       let trivial_decisions = length (s_assumptions s) + (if l_decision l = 0 then 1 else 0) in
       if \<not> lo_restartreusetrail lo then Inr (trivial_decisions, s)
       else bind_res (pick_variable aux_build aux s) (\<lambda>(decision, s).
         let better = (if use_scores s then (\<lambda>d. score_smaller (s_stab s) decision (vidx d))
                       else (\<lambda>d. q_btab (s_queue s) (vidx d) > q_btab (s_queue s) decision))
         in bind_res (reuse_while better (s_control s) (s_level s - trivial_decisions) trivial_decisions) (\<lambda>r. Inr (r, s))))"

definition restart :: "loop_options \<Rightarrow> bool \<Rightarrow> (nat \<Rightarrow> bool) \<Rightarrow> limits \<Rightarrow> solver \<Rightarrow> (limits \<times> solver) res" where
  "restart lo aux_build aux lm s =
     bind_res (reuse_trail lo aux_build aux s) (\<lambda>(level, s).
     bind_res (backtrack_to level s) (\<lambda>s.
       Inr (lm\<lparr>lm_restart := int (s_conflicts s) + lo_restartint lo\<rparr>, s)))"

section \<open>Rephasing\<close>

definition rephasing :: "loop_options \<Rightarrow> limits \<Rightarrow> solver \<Rightarrow> bool" where
  "rephasing lo lm s \<longleftrightarrow> lo_rephase lo \<and> \<not> opt_forcephase (s_phases s) \<and> int (s_conflicts s) > lm_rephase lm"

text \<open>Overwrite the saved phase of every variable.\<close>

definition save_phases :: "(nat \<Rightarrow> int) \<Rightarrow> solver \<Rightarrow> solver" where
  "save_phases f s =
     s\<lparr>s_phases := (s_phases s)\<lparr>ph_saved := (\<lambda>i. if 1 \<le> i \<and> i \<le> s_max_var s then f i else ph_saved (s_phases s) i)\<rparr>\<rparr>"

definition rephase_original :: "limits \<times> solver \<Rightarrow> char \<times> limits \<times> solver" where
  "rephase_original = (\<lambda>(lm, s). (CHR ''O'', lm, save_phases (\<lambda>_. if opt_phase (s_phases s) then 1 else - 1) s))"

definition rephase_inverted :: "limits \<times> solver \<Rightarrow> char \<times> limits \<times> solver" where
  "rephase_inverted = (\<lambda>(lm, s). (CHR ''I'', lm, save_phases (\<lambda>_. if opt_phase (s_phases s) then - 1 else 1) s))"

definition rephase_flipping :: "limits \<times> solver \<Rightarrow> char \<times> limits \<times> solver" where
  "rephase_flipping = (\<lambda>(lm, s). (CHR ''F'', lm, save_phases (\<lambda>i. ph_saved (s_phases s) i * - 1) s))"

definition random_phases :: "nat \<Rightarrow> 64 word \<Rightarrow> (nat \<Rightarrow> int) \<Rightarrow> nat \<Rightarrow> int" where
  "random_phases n r f = fst (fold (\<lambda>idx (f, r). case rand_bool r of (b, r) \<Rightarrow> (f(idx := if b then - 1 else 1), r)) [1 ..< n + 1] (f, r))"

definition rephase_random :: "loop_options \<Rightarrow> limits \<times> solver \<Rightarrow> char \<times> limits \<times> solver" where
  "rephase_random lo = (\<lambda>(lm, s).
     let lm = lm\<lparr>lm_rephased_random := lm_rephased_random lm + 1\<rparr>;
         r = rand_add (of_nat (lm_rephased_random lm)) (lo_seed lo)
     in (CHR ''#'', lm, save_phases (random_phases (s_max_var s) r (ph_saved (s_phases s))) s))"

definition rephase_best :: "limits \<times> solver \<Rightarrow> char \<times> limits \<times> solver" where
  "rephase_best = (\<lambda>(lm, s). (CHR ''B'', lm, save_phases (\<lambda>i. if s_best s i \<noteq> 0 then s_best s i else ph_saved (s_phases s) i) s))"

text \<open>The schedules without local search.\<close>

definition rephase_pick :: "loop_options \<Rightarrow> nat \<Rightarrow> bool \<Rightarrow> limits \<times> solver \<Rightarrow> char \<times> limits \<times> solver" where
  "rephase_pick lo num stab =
     (let single = (if lo_stabilize lo \<and> lo_stabilizeonly lo then True else \<not> lo_stabilize lo) in
      if single then
        [rephase_inverted, rephase_best, rephase_flipping, rephase_best, rephase_random lo, rephase_best, rephase_original, rephase_best]
          ! (num mod 8)
      else if stab then
        (if num = 0 then rephase_original else if num = 1 then rephase_inverted
         else [rephase_best, rephase_original, rephase_best, rephase_inverted] ! ((num - 2) mod 4))
      else
        (if num = 0 then rephase_flipping
         else [rephase_random lo, rephase_best, rephase_flipping, rephase_best] ! ((num - 1) mod 4)))"

definition rephase :: "loop_options \<Rightarrow> limits \<Rightarrow> solver \<Rightarrow> (limits \<times> solver) res" where
  "rephase lo lm s =
     bind_res (backtrack_to 0 s) (\<lambda>s.
     let lm = lm\<lparr>lm_rephased_total := lm_rephased_total lm + 1\<rparr>;
         s = s\<lparr>s_phases := (s_phases s)\<lparr>ph_target := clear_phases (s_max_var s) (ph_target (s_phases s))\<rparr>, s_target_assigned := 0\<rparr>;
         num = lm_rephased lm (s_stable s);
         lm = lm\<lparr>lm_rephased := (lm_rephased lm)(s_stable s := num + 1)\<rparr>;
         (type, lm, s) = rephase_pick lo num (s_stable s) (lm, s);
         delta = lo_rephaseint lo * (int (lm_rephased_total lm) + 1);
         lm = lm\<lparr>lm_rephase := int (s_conflicts s) + delta\<rparr>
     in Inr (lm, s\<lparr>s_rephase_conflicts := s_conflicts s, s_rephased := Some type\<rparr>))"

section \<open>The loop\<close>

definition search_limits_hit :: "limits \<Rightarrow> solver \<Rightarrow> bool" where
  "search_limits_hit lm s \<longleftrightarrow>
     (if lm_conflicts lm \<ge> 0 \<and> int (s_conflicts s) \<ge> lm_conflicts lm then True
      else if lm_decisions lm \<ge> 0 \<and> st_decisions lm \<ge> lm_decisions lm then True
      else False)"

definition count_decision :: "solver \<Rightarrow> limits \<Rightarrow> limits" where
  "count_decision s lm =
     (if s_level s < length (s_assumptions s) \<or> s_level s = length (s_assumptions s) \<and> s_constraint s \<noteq> [] then lm
      else lm\<lparr>st_decisions := st_decisions lm + 1\<rparr>)"

text \<open>One iteration: the result is 0 while the search goes on; \<open>None\<close> leaves the loop without an answer.\<close>

definition loop_body :: "bool \<Rightarrow> bool \<Rightarrow> (nat \<Rightarrow> bool) \<Rightarrow> loop_options \<Rightarrow> outside \<Rightarrow> limits \<times> solver \<Rightarrow> (int option \<times> limits \<times> solver) res" where
  "loop_body uipaux branchaux aux lo out = (\<lambda>(lm, s).
     if s_unsat s then Inr (Some 20, lm, s)
     else if s_unsat_constraint s then Inr (Some 20, lm, s)
     else bind_res (search_propagate s) (\<lambda>(no_conflict, s).
       if \<not> no_conflict then bind_res (analyze_conflict uipaux branchaux aux s) (\<lambda>s. Inr (Some 0, lm, s))
       else if s_iterating s then Inr (Some 0, lm, iterate s)
       else if is_satisfied s then Inr (Some 10, lm, s)
       else if search_limits_hit lm s then Inr (None, lm, s)
       else if out_terminated out then Inr (None, lm, s)
       else case restarting lo out lm s of (r, lm, s) \<Rightarrow>
         if r then bind_res (restart lo branchaux aux lm s) (\<lambda>(lm, s). Inr (Some 0, lm, s))
         else if rephasing lo lm s then bind_res (rephase lo lm s) (\<lambda>(lm, s). Inr (Some 0, lm, s))
         else bind_res (decide branchaux (s_max_var s) aux s) (\<lambda>(res, t). Inr (Some res, count_decision s lm, t))))"

fun cdcl_loop :: "bool \<Rightarrow> bool \<Rightarrow> (nat \<Rightarrow> bool) \<Rightarrow> loop_options \<Rightarrow> outside list \<Rightarrow> limits \<times> solver \<Rightarrow> (int option \<times> limits \<times> solver) res" where
  "cdcl_loop uipaux branchaux aux lo [] ls = Inr (Some 0, ls)"
| "cdcl_loop uipaux branchaux aux lo (out # outs) ls =
     bind_res (loop_body uipaux branchaux aux lo out ls) (\<lambda>(res, ls).
       if res = Some 0 then cdcl_loop uipaux branchaux aux lo outs ls else Inr (res, ls))"

end
