(* ===== verification/Search_Loop_Sound.thy ===== *)
theory Search_Loop_Sound
  imports Search_Keep Search_Loop
begin

text \<open>
  The CDCL loop is total and sound: every iteration keeps the invariant, the clauses of the proof follow from
  the formula, and the answer 20 is given only if no model satisfies the assumptions and the constraint.
\<close>

section \<open>Propagation keeps the invariant\<close>

lemma decider_trail:
  assumes d: "decider_ok s" and v: "vals_ok s" "vals_ok t" and sd: "same_decider s t" and tr: "set (s_trail s) \<subseteq> set (s_trail t)"
  shows "decider_ok t"
proof -
  obtain xs where xs: "queue_ok (assigned_in s) (s_queue s) xs" "mset xs = mset [1 ..< s_max_var s + 1]"
    using d by (auto simp: decider_ok_def)
  have as: "assigned_in t x" if "x \<in> {1 .. s_max_var s}" "assigned_in s x" for x
    using that vals_iff(3) [OF v(1), of "int x"] vals_iff(3) [OF v(2), of "int x"] tr by auto
  have "queue_ok (assigned_in t) (s_queue s) xs"
    using xs(1) as var_in_queue [OF xs(2)] unfolding queue_ok_def by blast
  with d xs(2) sd as show ?thesis by (auto simp: decider_ok_def scores_ok_def same_decider_def)
qed

lemma propagate_cdcl_ok:
  assumes ok: "cdcl_ok M s"
  shows "\<exists>t. search_propagate s = Inr (s_conflict t = None, t) \<and> cdcl_ok M t
    \<and> (s_conflict t = None \<longrightarrow> s_propagated t = length (s_trail t)) \<and> s_unsat t = s_unsat s \<and> upholds s t"
proof -
  have so: "search_ok M s" and p: "s_propagated s \<le> length (s_trail s)" using ok by (simp_all add: cdcl_ok_def)
  from propagate_loop_ok [OF so p le_add1] obtain u where u: "propagate_loop (s_max_var s) s = Inr u" "search_ok M u" "advances s u"
    "s_propagated u \<le> length (s_trail u)" "s_conflict u = None \<longrightarrow> s_propagated u = length (s_trail u)"
    by (elim exE conjE) (rule that; simp)
  have e: "\<exists>xs. s_trail u = s_trail s @ xs" "same_decider s u" "s_clause u = s_clause s" "s_analyzed u = s_analyzed s"
    "s_minimized u = s_minimized s" "s_unsat u = s_unsat s" "s_max_var u = s_max_var s" "s_opts u = s_opts s" "same_query s u"
    "\<forall>i. f_seen (s_flags u i) = f_seen (s_flags s i) \<and> f_keep (s_flags u i) = f_keep (s_flags s i)
          \<and> f_poison (s_flags u i) = f_poison (s_flags s i) \<and> f_removable (s_flags u i) = f_removable (s_flags s i)"
    using u(3) by (simp_all add: advances_def extends_def same_decider_def)
  have du: "decider_ok u"
    by (rule decider_trail [OF _ _ _ e(2)]) (use ok u(2) e(1) in \<open>auto simp: cdcl_ok_def search_ok_def graph_ok_def\<close>)
  have oku: "cdcl_ok M u" using ok u(2,4) du e by (simp add: cdcl_ok_def fresh_analysis_def)
  have c: "vec_get (s_control u) (s_level u) = Inr (s_control u ! s_level u)"
    using u(2) by (simp add: search_ok_def graph_ok_def control_ok_def)
  have idle: "idle u (u\<lparr>s_no_conflict_until := n\<rparr>)" "idle u (u\<lparr>s_conflicts := m, s_no_conflict_until := n\<rparr>)" for m n
    by (simp_all add: idle_def quiet_def same_graph_def)
  have same: "cdcl_ok M (u\<lparr>s_no_conflict_until := n\<rparr>)" "cdcl_ok M (u\<lparr>s_conflicts := m, s_no_conflict_until := n\<rparr>)" for m n
    using idle_cdcl_ok [OF idle(1) oku] idle_cdcl_ok [OF idle(2) oku] by blast+
  have "\<exists>t. search_propagate s = Inr (s_conflict t = None, t) \<and> cdcl_ok M t
    \<and> (s_conflict t = None \<longrightarrow> s_propagated t = length (s_trail t)) \<and> s_unsat t = s_unsat s \<and> same_query s t"
    using u(1,5) c e(6,9) oku same by (cases "s_lucky u"; cases "s_conflict u = None") (auto simp: search_propagate_def)
  then obtain t where t: "search_propagate s = Inr (s_conflict t = None, t)" "cdcl_ok M t"
    "s_conflict t = None \<longrightarrow> s_propagated t = length (s_trail t)" "s_unsat t = s_unsat s" "same_query s t"
    by (elim exE conjE) (rule that; (assumption | intro conjI)+)
  have "upholds s t" by (rule propagate_upholds [OF ok t(1,5)])
  with t(1-4) show ?thesis by (intro exI [of _ t] conjI)
qed

section \<open>Decisions\<close>

lemma bumps_cdcl_ok: "bumps s t \<Longrightarrow> decider_ok t \<Longrightarrow> cdcl_ok M s \<Longrightarrow> cdcl_ok M t"
proof -
  assume b: "bumps s t" and d: "decider_ok t" and ok: "cdcl_ok M s"
  obtain Q H S I where t: "t = s\<lparr>s_queue := Q, s_scores := H, s_stab := S, s_score_inc := I\<rparr>" using b by (auto simp: bumps_def)
  have sg: "same_graph s t" by (simp add: t same_graph_def)
  have "graph_ok M t" by (rule same_graph_ok [OF sg]) (use ok in \<open>simp add: cdcl_ok_def search_ok_def\<close>)
  moreover have "watches_good t" by (rule watches_good_cong [of s]) (use ok in \<open>simp_all add: t cdcl_ok_def search_ok_def\<close>)
  moreover have "conflict_ok t" using ok by (simp add: t cdcl_ok_def search_ok_def conflict_ok_def)
  ultimately show ?thesis using ok d by (simp add: t cdcl_ok_def search_ok_def fresh_analysis_def)
qed

lemma bumps_upholds: "bumps s t \<Longrightarrow> cdcl_ok M s \<Longrightarrow> upholds s t"
  by (rule tame_upholds [of _ _ M]) (auto simp: bumps_def tame_def cdcl_ok_def search_ok_def)

lemma pick_variable_ok:
  assumes d: "decider_ok s" and y: "y \<in> {1 .. s_max_var s}" "\<not> assigned_in s y"
  shows "\<exists>idx t. pick_variable False aux s = Inr (idx, t) \<and> idx \<in> {1 .. s_max_var s} \<and> \<not> assigned_in s idx \<and> decider_ok t \<and> bumps s t"
proof (cases "use_scores s")
  case True
  let ?h = "s_scores s"
  have sc: "score_heap (s_stab s) ?h" "set (hp_array ?h) \<subseteq> {1 .. s_max_var s}" and yh: "y \<in> set (hp_array ?h)"
    using d y by (auto simp: decider_ok_def scores_ok_def)
  have "distinct (hp_array ?h)" using sc(1) pos_distinct by (simp add: score_heap_def)
  then have "length (hp_array ?h) \<le> s_max_var s" using card_mono [OF _ sc(2)] distinct_card [of "hp_array ?h"] by simp
  from next_best_score_ok [where assigned = "assigned_in s" and y = y, OF sc(1) yh y(2) this] obtain r h where
    r: "next_best_score (s_max_var s) (assigned_in s) (s_stab s) ?h = Inr (r, h)" "r \<in> set (hp_array ?h)" "\<not> assigned_in s r"
    "score_heap (s_stab s) h" "set (hp_array h) \<subseteq> set (hp_array ?h)" "\<forall>x \<in> set (hp_array ?h). \<not> assigned_in s x \<longrightarrow> x \<in> set (hp_array h)"
    by blast
  let ?t = "s\<lparr>s_scores := h\<rparr>"
  have "decider_ok ?t" using d r(4,5,6) sc(2) by (auto simp: decider_ok_def scores_ok_def)
  moreover have "bumps s ?t" by (rule bumpsI [where Q = "s_queue s" and H = h and S = "s_stab s" and I = "s_score_inc s"]) simp
  ultimately show ?thesis using True r(1,2,3) sc(2) by (auto simp: pick_variable_def next_decision_variable_def)
next
  case False
  obtain xs where xs: "queue_ok (assigned_in s) (s_queue s) xs" "mset xs = mset [1 ..< s_max_var s + 1]"
    using d by (auto simp: decider_ok_def)
  have "length xs \<le> s_max_var s" using arg_cong [OF xs(2), of size] by simp
  moreover have "y \<in> set xs" using var_in_queue [OF xs(2)] y(1) by blast
  ultimately obtain r q where r: "next_on_queue (s_max_var s) (assigned_in s) (s_queue s) = Inr (r, q)" "r \<in> set xs" "\<not> assigned_in s r"
    "queue_ok (assigned_in s) q xs" using next_on_queue_ok [where assigned = "assigned_in s" and y = y, OF xs(1) _ y(2)] by blast
  let ?t = "s\<lparr>s_queue := q\<rparr>"
  have "decider_ok ?t" using d r(4) xs(2) by (auto simp: decider_ok_def scores_ok_def)
  moreover have "bumps s ?t" by (rule bumpsI [where Q = q and H = "s_scores s" and S = "s_stab s" and I = "s_score_inc s"]) simp
  ultimately show ?thesis using False r(1,2,3) var_in_queue [OF xs(2)]
    by (auto simp: pick_variable_def next_decision_variable_def)
qed

lemma push_level_cdcl_ok:
  assumes ok: "cdcl_ok M s" and c: "s_conflict s = None" and d: "may_decide d s"
  shows "cdcl_ok M (push_level d s)"
proof -
  let ?t = "push_level d s"
  have "graph_ok M ?t" by (rule push_level_graph_ok [OF _ d]) (use ok in \<open>simp add: cdcl_ok_def search_ok_def\<close>)
  moreover have "watches_good ?t" by (rule watches_good_cong [of s]) (use ok in \<open>simp_all add: cdcl_ok_def search_ok_def\<close>)
  moreover have "decider_ok ?t"
    by (rule decider_same_vals [of s]) (use ok in \<open>simp_all add: cdcl_ok_def same_decider_def push_level_def\<close>)
  ultimately show ?thesis using ok c by (simp add: cdcl_ok_def search_ok_def conflict_ok_def fresh_analysis_def push_level_def)
qed

lemma decision_cdcl_ok:
  assumes ok: "cdcl_ok M s" and c: "s_conflict s = None" and l: "lit_in s lit" "s_vals s lit = 0" and d: "may_decide lit s"
  shows "cdcl_ok M (search_assume_decision lit s)"
proof -
  let ?s = "push_level lit s" and ?t = "search_assume_decision lit s"
  have ok1: "cdcl_ok M ?s" by (rule push_level_cdcl_ok [OF ok c d])
  have "graph_ok M ?t" by (rule decision_graph_ok [OF _ l d]) (use ok in \<open>simp add: cdcl_ok_def search_ok_def\<close>)
  moreover have "watches_good ?t" by (rule watches_good_cong [of ?s]) (use ok1 in \<open>simp_all add: cdcl_ok_def search_ok_def push_level_eqs\<close>)
  moreover have "decider_ok ?t" unfolding push_level_eqs
    by (rule search_assign_decider) (use ok1 l(1) in \<open>simp_all add: cdcl_ok_def lit_in_def\<close>)
  ultimately show ?thesis using ok1 c by (simp add: cdcl_ok_def search_ok_def conflict_ok_def fresh_analysis_def push_level_eqs)
qed

text \<open>As long as only assumptions are decided, a model that satisfies them agrees with the trail.\<close>

lemma assumed_trail:
  assumes g: "graph_ok M s" and lv: "s_level s \<le> length (s_assumptions s)" and a: "a \<in> M" "\<forall>l \<in> set (s_assumptions s). lit_on a l"
    and l: "l \<in> set (s_trail s)"
  shows "lit_on a l"
proof -
  have "lit_on a d" if d: "d \<in> decisions s" for d
  proof -
    have t: "d \<in> set (s_trail s)" "0 < lev s d" "rsn s d = None" using d by (simp_all add: decisions_def)
    obtain i where i: "i < length (s_trail s)" "s_trail s ! i = d" using t(1) by (auto simp: in_set_conv_nth)
    have "assigned_ok M s (take i (s_trail s)) (s_trail s ! i)" using g i(1) by (simp add: graph_ok_def trail_ok_def)
    then have "assigned_ok M s (take i (s_trail s)) d" by (simp only: i(2))
    then have k: "lev s d \<le> s_level s" "l_decision (s_control s ! lev s d) = d" using t by (simp_all add: assigned_ok_def)
    have "d \<noteq> 0" using t(1) g by (auto simp: graph_ok_def vals_ok_def lit_in_def)
    moreover have "l_decision (s_control s ! lev s d) \<in> {0, s_assumptions s ! (lev s d - 1)}"
      using g t(2) k(1) lv unfolding graph_ok_def plan_ok_def by (meson le_trans)
    ultimately have "d = s_assumptions s ! (lev s d - 1)" unfolding k(2) by blast
    moreover have "lev s d - 1 < length (s_assumptions s)" using k(1) t(2) lv by simp
    ultimately have "d \<in> set (s_assumptions s)" by (metis nth_mem)
    with a(2) show ?thesis by blast
  qed
  with graph_trail_follows [OF g] a(1) l show ?thesis unfolding trail_follows_def by blast
qed

lemma scan_constraint_ok:
  "scan_constraint v ls u0 = (b, u) \<Longrightarrow> 0 \<notin> set ls \<Longrightarrow>
    (\<not> b \<and> u = 0 \<longrightarrow> u0 = 0 \<and> (\<forall>l \<in> set ls. v l < 0)) \<and> (u \<noteq> 0 \<longrightarrow> u = u0 \<or> u \<in> set ls \<and> v u = 0)
    \<and> (b \<longrightarrow> (\<exists>l \<in> set ls. v l > 0))"
proof (induction ls arbitrary: u0)
  case (Cons l ls)
  consider "v l < 0" | "v l > 0" | "v l = 0" by linarith
  then show ?case
  proof cases
    case 1
    with Cons.prems Cons.IH [of u0] show ?thesis by (simp add: Let_def) blast
  next
    case 2
    with Cons.prems show ?thesis by (simp add: Let_def)
  next
    case 3
    with Cons.prems Cons.IH [of "if u0 = 0 then l else u0"] show ?thesis by (cases "u0 = 0") (simp_all add: Let_def, blast+)
  qed
qed simp

lemma some_unassigned:
  assumes v: "vals_ok s" and n: "length (s_trail s) \<noteq> s_max_var s"
  shows "\<exists>y \<in> {1 .. s_max_var s}. \<not> assigned_in s y"
proof (rule ccontr)
  assume "\<not> ?thesis"
  then have all: "\<forall>y \<in> {1 .. s_max_var s}. assigned_in s y" by blast
  have "{1 .. s_max_var s} \<subseteq> vidx ` set (s_trail s)"
  proof
    fix y assume y: "y \<in> {1 .. s_max_var s}"
    then have "int y \<noteq> 0" "s_vals s (int y) \<noteq> 0" using all by auto
    with vals_iff(3) [OF v, of "int y"] have "int y \<in> set (s_trail s) \<or> - int y \<in> set (s_trail s)" by blast
    then show "y \<in> vidx ` set (s_trail s)" by force
  qed
  from card_mono [OF _ this] have "s_max_var s \<le> card (vidx ` set (s_trail s))" by simp
  also have "\<dots> \<le> length (s_trail s)" using card_image_le card_length le_trans by blast
  finally show False using trail_length [OF v] n by simp
qed

lemma decide_phase_var:
  assumes "bounded (ph_saved p)" and "bounded (ph_forced p)" and "bounded (ph_target p)"
  shows "vidx (decide_phase p idx target) = idx"
proof -
  have one: "x \<noteq> 0 \<Longrightarrow> \<bar>f i\<bar> \<le> 1 \<Longrightarrow> f i = x \<Longrightarrow> \<bar>x\<bar> = (1 :: int)" for f :: "nat \<Rightarrow> int" and i x by arith
  have "\<exists>x. decide_phase p idx target = x * int idx \<and> \<bar>x\<bar> = 1"
    using assms one [of _ "ph_saved p" idx] one [of _ "ph_forced p" idx] one [of _ "ph_target p" idx]
    by (auto simp: decide_phase_def Let_def bounded_def)
  then show ?thesis by (auto simp: abs_mult)
qed

lemma decide_variable_pick:
  "decide_variable aux_build (s_max_var s) aux s =
     bind_res (pick_variable aux_build aux s) (\<lambda>(idx, s).
       Inr (search_assume_decision (decide_phase (s_phases s) idx (o_target (s_opts s) > 1 \<or> (s_stable s \<and> o_target (s_opts s) \<noteq> 0))) s))"
  by (cases "next_decision_variable aux_build (s_max_var s) (assigned_in s) aux
        \<lparr>d_queue = s_queue s, d_stab = s_stab s, d_scores = s_scores s, d_use_scores = use_scores s\<rparr>")
    (auto simp: decide_variable_def pick_variable_def Let_def)

text \<open>What a decision or a failed one leaves.\<close>

definition decided :: "(nat \<Rightarrow> bool) set \<Rightarrow> solver \<Rightarrow> int \<Rightarrow> solver \<Rightarrow> bool" where
  "decided M s res t \<longleftrightarrow> cdcl_ok M t \<and> s_conflict t = None \<and> s_unsat t = s_unsat s
     \<and> (res = 0 \<or> res = 20 \<and> hopeless M s) \<and> upholds s t"

lemma decision_unsat [simp]: "s_unsat (search_assume_decision l s) = s_unsat s" "s_conflict (search_assume_decision l s) = s_conflict s"
  "s_assumptions (search_assume_decision l s) = s_assumptions s" "s_constraint (search_assume_decision l s) = s_constraint s"
  by (simp_all add: push_level_eqs push_level_def)

lemma decide_assumption_ok:
  assumes ok: "cdcl_ok M s" and c: "s_conflict s = None" and p: "s_propagated s = length (s_trail s)" and lt: "s_level s < length (s_assumptions s)"
  shows "\<exists>res t. decide aux_build fuel aux s = Inr (res, t) \<and> decided M s res t"
proof -
  let ?l = "s_assumptions s ! s_level s"
  have g: "graph_ok M s" and v: "vals_ok s" using ok by (simp_all add: cdcl_ok_def search_ok_def graph_ok_def)
  have l: "?l \<in> set (s_assumptions s)" using lt by simp
  have li: "lit_in s ?l" "?l \<noteq> 0" using g l by (auto simp: graph_ok_def plan_ok_def lit_in_def)
  have md: "may_decide ?l s" "may_decide 0 s" by (simp_all add: may_decide_def)
  consider "s_vals s ?l < 0" | "s_vals s ?l > 0" | "s_vals s ?l = 0" by linarith
  then show ?thesis
  proof cases
    case 1
    have f: "- ?l \<in> set (s_trail s)" using vals_iff(2) [OF v li(2)] 1 by simp
    have "hopeless M s" unfolding hopeless_def
    proof (intro ballI notI)
      fix a assume a: "a \<in> M" "(\<forall>l \<in> set (s_assumptions s). lit_on a l) \<and> (s_constraint s = [] \<or> cl_on a (s_constraint s))"
      have "lit_on a (- ?l)" by (rule assumed_trail [OF g _ a(1) _ f]) (use lt a(2) in auto)
      moreover have "lit_on a ?l" using a(2) l by blast
      ultimately show False using li(2) by simp
    qed
    moreover have "idle s (s\<lparr>s_marked_failed := False\<rparr>)" by (simp add: idle_def quiet_def same_graph_def)
    then have "cdcl_ok M (s\<lparr>s_marked_failed := False\<rparr>)" "upholds s (s\<lparr>s_marked_failed := False\<rparr>)"
      using ok idle_cdcl_ok idle_upholds by blast+
    ultimately show ?thesis using 1 lt c by (simp add: decide_def Let_def decided_def)
  next
    case 2
    have "cdcl_ok M (pseudo_level s)" unfolding push_level_eqs by (rule push_level_cdcl_ok [OF ok c md(2)])
    moreover have "?l \<in> set (s_trail s)" using 2 vals_iff(1) [OF v li(2)] by simp
    then have "upholds s (pseudo_level s)" unfolding push_level_eqs using lt by (intro pseudo_upholds [OF g c p]) simp_all
    ultimately show ?thesis using 2 lt c by (simp add: decide_def Let_def decided_def pseudo_level_def)
  next
    case 3
    have "upholds s (search_assume_decision ?l s)" by (rule decision_upholds [OF g c p li(1) 3 md(1)]) (use lt in simp)
    with 3 decision_cdcl_ok [OF ok c li(1) 3 md(1)] lt c show ?thesis by (simp add: decide_def Let_def decided_def)
  qed
qed

lemma decide_constraint_ok:
  assumes ok: "cdcl_ok M s" and c: "s_conflict s = None" and p: "s_propagated s = length (s_trail s)" and lv: "s_level s = length (s_assumptions s)" and ne: "s_constraint s \<noteq> []"
  shows "\<exists>res t. decide aux_build fuel aux s = Inr (res, t) \<and> decided M s res t"
proof -
  have g: "graph_ok M s" and v: "vals_ok s" using ok by (simp_all add: cdcl_ok_def search_ok_def graph_ok_def)
  have li: "\<forall>l \<in> set (s_constraint s). lit_in s l" using g by (simp add: graph_ok_def plan_ok_def)
  then have nz: "0 \<notin> set (s_constraint s)" by (auto simp: lit_in_def)
  have md: "may_decide d s" for d by (simp add: may_decide_def lv)
  obtain b u where sc: "scan_constraint (s_vals s) (s_constraint s) 0 = (b, u)" by fastforce
  note S = scan_constraint_ok [OF sc nz]
  have D: "decide aux_build fuel aux s = (case (if b then (0, pseudo_level s) else if u \<noteq> 0 then (0, search_assume_decision u s)
      else (20, s\<lparr>s_unsat_constraint := True\<rparr>)) of (res, s) \<Rightarrow> Inr (res, if res \<noteq> 0 then s\<lparr>s_marked_failed := False\<rparr> else s))"
    using lv ne sc by (simp add: decide_def decide_constraint_def)
  show ?thesis
  proof (cases b)
    case True
    have "cdcl_ok M (pseudo_level s)" unfolding push_level_eqs by (rule push_level_cdcl_ok [OF ok c md])
    moreover obtain l where "l \<in> set (s_constraint s)" "s_vals s l > 0" using S True by blast
    then have "\<exists>l \<in> set (s_constraint s). l \<in> set (s_trail s)" using nz vals_iff(1) [OF v, of l] by auto
    then have "upholds s (pseudo_level s)" unfolding push_level_eqs using lv by (intro pseudo_upholds [OF g c p]) simp_all
    ultimately show ?thesis using True D c by (simp add: decided_def pseudo_level_def)
  next
    case False
    show ?thesis
    proof (cases "u = 0")
      case uz: False
      then have u: "u \<in> set (s_constraint s)" "lit_in s u" "s_vals s u = 0" using S li by auto
      have "upholds s (search_assume_decision u s)" by (rule decision_upholds [OF g c p u(2,3) md u(1)])
      with decision_cdcl_ok [OF ok c u(2,3) md] False uz D c show ?thesis by (simp add: decided_def)
    next
      case True
      have fl: "- k \<in> set (s_trail s)" if "k \<in> set (s_constraint s)" for k
        using S False True that vals_iff(2) [OF v, of k] nz by auto
      have h: "hopeless M s" unfolding hopeless_def
      proof (intro ballI notI)
        fix a assume a: "a \<in> M" "(\<forall>l \<in> set (s_assumptions s). lit_on a l) \<and> (s_constraint s = [] \<or> cl_on a (s_constraint s))"
        then obtain k where k: "k \<in> set (s_constraint s)" "lit_on a k" using ne by (auto simp: cl_on_def list_ex_iff)
        have "lit_on a (- k)" by (rule assumed_trail [OF g _ a(1) _ fl [OF k(1)]]) (use lv a(2) in auto)
        with k nz show False by (cases "k = 0") auto
      qed
      let ?t = "s\<lparr>s_unsat_constraint := True, s_marked_failed := False\<rparr>"
      have eq: "vals_ok ?t = vals_ok s" "control_ok ?t = control_ok s" "plan_ok ?t = plan_ok s"
        by (simp_all add: vals_ok_def lit_in_def control_ok_def plan_ok_def)
      have "assigned_ok M ?t before l = assigned_ok M s before l" for before l
        by (cases "rsn s l") (simp_all add: assigned_ok_def implied_by_def)
      then have "trail_ok M ?t = trail_ok M s" by (simp add: trail_ok_def)
      moreover have "clauses_ok M ?t" using g h by (simp add: graph_ok_def clauses_ok_def clause_ok_on_def lit_in_def hopeless_def)
      ultimately have "graph_ok M ?t" using g eq by (simp add: graph_ok_def)
      moreover have "watches_good ?t" by (rule watches_good_cong [of s]) (use ok in \<open>simp_all add: cdcl_ok_def search_ok_def\<close>)
      moreover have "decider_ok ?t"
        by (rule decider_same_vals [of s]) (use ok in \<open>simp_all add: cdcl_ok_def same_decider_def\<close>)
      ultimately have "cdcl_ok M ?t" using ok by (simp add: cdcl_ok_def search_ok_def conflict_ok_def fresh_analysis_def)
      moreover have "upholds s ?t" by (rule tame_upholds [OF _ g]) (simp_all add: tame_def)
      ultimately show ?thesis using False True D c h by (simp add: decided_def)
    qed
  qed
qed

lemma decide_ok:
  assumes ok: "cdcl_ok M s" and c: "s_conflict s = None" and p: "s_propagated s = length (s_trail s)" and ns: "\<not> is_satisfied s"
  shows "\<exists>res t. decide False (s_max_var s) aux s = Inr (res, t) \<and> decided M s res t"
proof -
  consider "s_level s < length (s_assumptions s)" | "s_level s = length (s_assumptions s)" "s_constraint s \<noteq> []"
    | "s_level s > length (s_assumptions s) \<or> s_level s = length (s_assumptions s) \<and> s_constraint s = []" by linarith
  then show ?thesis
  proof cases
    case 1
    show ?thesis by (rule decide_assumption_ok [OF ok c p 1])
  next
    case 2
    show ?thesis by (rule decide_constraint_ok [OF ok c p 2])
  next
    case 3
    have v: "vals_ok s" and g: "graph_ok M s" and d: "decider_ok s" using ok by (simp_all add: cdcl_ok_def search_ok_def graph_ok_def)
    have "length (s_trail s) \<noteq> s_max_var s" using ns p 3 by (auto simp: is_satisfied_def split: if_splits)
    from some_unassigned [OF v this] obtain y where y: "y \<in> {1 .. s_max_var s}" "\<not> assigned_in s y" by blast
    from pick_variable_ok [OF d y, of aux] obtain idx t where t: "pick_variable False aux s = Inr (idx, t)" "idx \<in> {1 .. s_max_var s}"
      "\<not> assigned_in s idx" "decider_ok t" "bumps s t" by blast
    have okt: "cdcl_ok M t" by (rule bumps_cdcl_ok [OF t(5,4) ok])
    obtain Q H S I where e: "t = s\<lparr>s_queue := Q, s_scores := H, s_stab := S, s_score_inc := I\<rparr>" using t(5) by (auto simp: bumps_def)
    let ?l = "decide_phase (s_phases t) idx (o_target (s_opts t) > 1 \<or> (s_stable t \<and> o_target (s_opts t) \<noteq> 0))"
    have vl: "vidx ?l = idx" by (rule decide_phase_var) (use g in \<open>simp_all add: e graph_ok_def plan_ok_def\<close>)
    then have l: "lit_in t ?l" using t(2) by (auto simp: lit_in_def e)
    have "s_vals t ?l = 0"
    proof -
      have "?l = int idx \<or> ?l = - int idx" using vl by auto
      moreover have "int idx \<noteq> 0" using t(2) by simp
      ultimately show ?thesis using t(3) vals_iff(3) [OF v, of "int idx"] vals_iff(3) [OF v, of "- int idx"] by (auto simp: e)
    qed
    moreover have "may_decide ?l t" using 3 by (auto simp: may_decide_def e)
    moreover have "s_conflict t = None" "s_propagated t = length (s_trail t)" using c p by (simp_all add: e)
    moreover have "graph_ok M t" using okt by (simp add: cdcl_ok_def search_ok_def)
    ultimately have "cdcl_ok M (search_assume_decision ?l t)" "upholds t (search_assume_decision ?l t)"
      using decision_cdcl_ok [OF okt _ l] decision_upholds [of M t ?l] l 3 by (auto simp: e)
    then have "cdcl_ok M (search_assume_decision ?l t)" "upholds s (search_assume_decision ?l t)"
      using upholds_trans [OF bumps_upholds [OF t(5) ok]] by blast+
    moreover have "decide False (s_max_var s) aux s = Inr (0, search_assume_decision ?l t)"
      using 3 t(1) by (auto simp: decide_def decide_variable_pick)
    ultimately show ?thesis using c by (simp add: decided_def e)
  qed
qed

section \<open>Restarts\<close>

lemma backtrack_cdcl_ok:
  assumes ok: "cdcl_ok M s" and c: "s_conflict s = None" and n: "n \<le> s_level s"
  shows "\<exists>t. backtrack_to n s = Inr t \<and> cdcl_ok M t \<and> s_conflict t = None \<and> s_unsat t = s_unsat s \<and> s_level t = n \<and> upholds s t"
proof -
  have "graph_ok M s" "decider_ok s" "s_propagated s \<le> length (s_trail s)" using ok by (simp_all add: cdcl_ok_def search_ok_def)
  from backtrack_any [OF this(1,2) n this(3)] obtain t where
    t: "backtrack_to n s = Inr t" "graph_ok M t" "decider_ok t" "backtracked n s t" by blast
  have "cdcl_ok M t" by (rule backtracked_cdcl_ok [OF ok t(4,2,3)]) (simp add: c)
  moreover have "upholds s t" using ok backtracked_upholds [OF _ t(4) n, of M] by (simp add: cdcl_ok_def search_ok_def)
  ultimately show ?thesis using t(1,4) c by (simp add: backtracked_def)
qed

lemma stabilizing_idle:
  assumes "stabilizing lo lm s = (b, lm', t)"
  shows "idle s t \<and> is_satisfied t = is_satisfied s"
proof -
  have "t = s \<or> t = s\<lparr>s_stable := \<not> s_stable s\<rparr>" using assms by (auto simp: stabilizing_def Let_def split: if_splits)
  moreover have "idle s (s\<lparr>s_stable := x\<rparr>)" "is_satisfied (s\<lparr>s_stable := x\<rparr>) = is_satisfied s" for x
    by (simp_all add: idle_def quiet_def same_graph_def is_satisfied_def)
  ultimately show ?thesis by (elim disjE) (simp_all only: idle_refl simp_thms)
qed

lemma restarting_idle:
  assumes "restarting lo out lm s = (b, lm', t)"
  shows "idle s t" "is_satisfied t = is_satisfied s" "b \<Longrightarrow> s_level t \<ge> length (s_assumptions t) + 2"
proof -
  obtain b1 lm1 t1 where st: "stabilizing lo lm s = (b1, lm1, t1)" by (metis prod_cases3)
  have "t = s \<and> \<not> b \<or> t = t1 \<and> s_level s \<ge> length (s_assumptions s) + 2"
    using assms by (auto simp: restarting_def st Let_def split: if_splits)
  with stabilizing_idle [OF st] show "idle s t" "is_satisfied t = is_satisfied s" "b \<Longrightarrow> s_level t \<ge> length (s_assumptions t) + 2"
    by (auto simp: idle_def quiet_def same_graph_def)
qed

lemma reuse_while_ok:
  "res + n < length control \<Longrightarrow> \<exists>r. reuse_while better control n res = Inr r \<and> res \<le> r \<and> r \<le> res + n"
proof (induction n arbitrary: res)
  case (Suc n)
  then have "res + 1 + n < length control" by simp
  from Suc.IH [OF this] obtain r where "reuse_while better control n (res + 1) = Inr r" "res + 1 \<le> r" "r \<le> res + 1 + n" by blast
  with Suc.prems show ?case by (cases "better (l_decision (control ! (res + 1)))") auto
qed simp

lemma restart_ok:
  assumes ok: "cdcl_ok M s" and c: "s_conflict s = None" and p: "s_propagated s = length (s_trail s)" and ns: "\<not> is_satisfied s"
    and lv: "s_level s \<ge> length (s_assumptions s) + 2"
  shows "\<exists>lm' t. restart lo False aux lm s = Inr (lm', t) \<and> cdcl_ok M t \<and> s_conflict t = None \<and> s_unsat t = s_unsat s \<and> upholds s t"
proof -
  have g: "graph_ok M s" and v: "vals_ok s" and d: "decider_ok s" and len: "length (s_control s) = s_level s + 1"
    using ok by (simp_all add: cdcl_ok_def search_ok_def graph_ok_def control_ok_def)
  let ?tr = "length (s_assumptions s) + (if l_decision (s_control s ! (length (s_assumptions s) + 1)) = 0 then 1 else 0)"
  have get: "vec_get (s_control s) (length (s_assumptions s) + 1) = Inr (s_control s ! (length (s_assumptions s) + 1))" using len lv by simp
  have tr: "?tr \<le> s_level s" using lv by simp
  have "\<exists>r t. reuse_trail lo False aux s = Inr (r, t) \<and> r \<le> s_level t \<and> cdcl_ok M t \<and> s_conflict t = None \<and> s_unsat t = s_unsat s \<and> upholds s t"
  proof (cases "lo_restartreusetrail lo")
    case False
    with get tr ok c show ?thesis by (simp add: reuse_trail_def Let_def del: vec_get_ok)
  next
    case True
    have "length (s_trail s) \<noteq> s_max_var s" using ns p lv by (auto simp: is_satisfied_def split: if_splits)
    from some_unassigned [OF v this] obtain y where y: "y \<in> {1 .. s_max_var s}" "\<not> assigned_in s y" by blast
    from pick_variable_ok [OF d y, of aux] obtain idx t where t: "pick_variable False aux s = Inr (idx, t)" "decider_ok t" "bumps s t" by blast
    have okt: "cdcl_ok M t" by (rule bumps_cdcl_ok [OF t(3,2) ok])
    have e: "s_control t = s_control s" "s_level t = s_level s" "s_conflict t = s_conflict s" "s_unsat t = s_unsat s"
      using t(3) by (auto simp: bumps_def)
    define better where "better = (if use_scores t then (\<lambda>d. score_smaller (s_stab t) idx (vidx d))
        else (\<lambda>d. q_btab (s_queue t) (vidx d) > q_btab (s_queue t) idx))"
    have "?tr + (s_level s - ?tr) < length (s_control s)" using tr len by simp
    from reuse_while_ok [OF this, of better] obtain r where
      r: "reuse_while better (s_control s) (s_level s - ?tr) ?tr = Inr r" "r \<le> ?tr + (s_level s - ?tr)" by blast
    have "reuse_trail lo False aux s = Inr (r, t)"
      using True r(1) unfolding reuse_trail_def get by (simp only: bind_res_simps Let_def t(1) prod.case better_def [symmetric] e if_False not_True_eq_False)
    moreover have "r \<le> s_level t" using r(2) tr by (simp add: e)
    ultimately show ?thesis using okt e c bumps_upholds [OF t(3) ok] by auto
  qed
  then obtain r t where t: "reuse_trail lo False aux s = Inr (r, t)" "r \<le> s_level t" "cdcl_ok M t" "s_conflict t = None" "s_unsat t = s_unsat s"
    "upholds s t" by blast
  from backtrack_cdcl_ok [OF t(3,4,2)] obtain u where "backtrack_to r t = Inr u" "cdcl_ok M u" "s_conflict u = None" "s_unsat u = s_unsat t"
    "upholds t u" by blast
  with t(1,5) upholds_trans [OF t(6)] show ?thesis by (simp add: restart_def)
qed

section \<open>Rephasing\<close>

lemma phases_cdcl_ok:
  assumes ok: "cdcl_ok M s" and b: "bounded (ph_saved P)" "bounded (ph_forced P)" "bounded (ph_target P)"
  shows "cdcl_ok M (s\<lparr>s_phases := P\<rparr>)"
proof -
  let ?t = "s\<lparr>s_phases := P\<rparr>"
  have g: "graph_ok M s" using ok by (simp add: cdcl_ok_def search_ok_def)
  have eq: "vals_ok ?t = vals_ok s" "control_ok ?t = control_ok s" "clauses_ok M ?t = clauses_ok M s"
    by (simp_all add: vals_ok_def lit_in_def control_ok_def clauses_ok_def clause_ok_on_def hopeless_def)
  have "assigned_ok M ?t before l = assigned_ok M s before l" for before l
    by (cases "rsn s l") (simp_all add: assigned_ok_def implied_by_def)
  then have "trail_ok M ?t = trail_ok M s" by (simp add: trail_ok_def)
  moreover have "plan_ok ?t" using g b by (simp add: graph_ok_def plan_ok_def lit_in_def)
  ultimately have "graph_ok M ?t" using g eq by (simp add: graph_ok_def)
  moreover have "watches_good ?t" by (rule watches_good_cong [of s]) (use ok in \<open>simp_all add: cdcl_ok_def search_ok_def\<close>)
  moreover have "decider_ok ?t" by (rule decider_same_vals [of s]) (use ok in \<open>simp_all add: cdcl_ok_def same_decider_def\<close>)
  ultimately show ?thesis using ok by (simp add: cdcl_ok_def search_ok_def conflict_ok_def fresh_analysis_def)
qed

lemma random_phases_bounded:
  assumes "bounded f"
  shows "bounded (random_phases n r f)"
proof -
  have "bounded f \<Longrightarrow> bounded (fst (fold (\<lambda>idx (f, r). case rand_bool r of (b, r) \<Rightarrow> (f(idx := if b then - 1 else 1), r)) xs (f, r)))"
    for xs :: "nat list" and f :: "nat \<Rightarrow> int" and r
    by (induction xs arbitrary: f r) (auto simp: bounded_def split: prod.splits)
  from this [OF assms] show ?thesis by (simp add: random_phases_def)
qed

lemma save_phases_ok:
  assumes ok: "cdcl_ok M s" and f: "bounded f"
  shows "cdcl_ok M (save_phases f s)"
proof -
  have "plan_ok s" using ok by (simp add: cdcl_ok_def search_ok_def graph_ok_def)
  with f show ?thesis unfolding save_phases_def by (intro phases_cdcl_ok [OF ok]) (simp_all add: plan_ok_def bounded_def)
qed

definition rephases :: "(limits \<times> solver \<Rightarrow> char \<times> limits \<times> solver) \<Rightarrow> bool" where
  "rephases f \<longleftrightarrow> (\<forall>lm s. \<exists>c lm' g. f (lm, s) = (c, lm', save_phases g s) \<and> (plan_ok s \<longrightarrow> bounded g))"

lemma rephases_all: "rephases rephase_original" "rephases rephase_inverted" "rephases rephase_flipping" "rephases (rephase_random lo)"
  "rephases rephase_best"
proof -
  show "rephases rephase_original" "rephases rephase_inverted" "rephases rephase_flipping" "rephases rephase_best"
    by (auto simp: rephases_def rephase_original_def rephase_inverted_def rephase_flipping_def rephase_best_def plan_ok_def bounded_def
        intro!: exI)
  show "rephases (rephase_random lo)"
    using random_phases_bounded by (auto simp: rephases_def rephase_random_def Let_def plan_ok_def intro!: exI)
qed

lemma rephases_pick: "rephases (rephase_pick lo n stab)"
proof -
  have nth: "rephases (fs ! i)" if "\<forall>f \<in> set fs. rephases f" "i < length fs" for fs i using that nth_mem by blast
  show ?thesis unfolding rephase_pick_def Let_def by (auto simp: rephases_all intro!: nth)
qed

lemma rephase_ok:
  assumes ok: "cdcl_ok M s" and c: "s_conflict s = None"
  shows "\<exists>lm' t. rephase lo lm s = Inr (lm', t) \<and> cdcl_ok M t \<and> s_conflict t = None \<and> s_unsat t = s_unsat s \<and> upholds s t"
proof -
  from backtrack_cdcl_ok [OF ok c, of 0] obtain u where u: "backtrack_to 0 s = Inr u" "cdcl_ok M u" "s_conflict u = None" "s_unsat u = s_unsat s"
    "upholds s u" by blast
  let ?P = "(s_phases u)\<lparr>ph_target := clear_phases (s_max_var u) (ph_target (s_phases u))\<rparr>"
  define v where "v = u\<lparr>s_phases := ?P, s_target_assigned := 0\<rparr>"
  have "cdcl_ok M (u\<lparr>s_phases := ?P\<rparr>)"
    by (rule phases_cdcl_ok [OF u(2)]) (use u(2) in \<open>simp_all add: cdcl_ok_def search_ok_def graph_ok_def plan_ok_def bounded_def clear_phases_def\<close>)
  moreover have "idle (u\<lparr>s_phases := ?P\<rparr>) v" by (simp add: v_def idle_def quiet_def same_graph_def)
  ultimately have v: "cdcl_ok M v" using idle_cdcl_ok by blast
  have f: "\<exists>ch lm' g. rephase_pick lo n st (lm, v) = (ch, lm', save_phases g v) \<and> bounded g" for n st lm
    using rephases_pick [of lo n st] v unfolding rephases_def by (metis cdcl_ok_def graph_ok_def search_ok_def)
  define lm1 where "lm1 = (lm\<lparr>lm_rephased_total := lm_rephased_total lm + 1\<rparr>)"
  define lm2 where "lm2 = lm1\<lparr>lm_rephased := (lm_rephased lm1)(s_stable v := lm_rephased lm1 (s_stable v) + 1)\<rparr>"
  obtain ch lm3 g where g: "rephase_pick lo (lm_rephased lm1 (s_stable v)) (s_stable v) (lm2, v) = (ch, lm3, save_phases g v)" "bounded g"
    using f by blast
  have sv: "s_stable v = s_stable u" by (simp add: v_def)
  let ?w = "save_phases g v" and ?t = "(save_phases g v)\<lparr>s_rephase_conflicts := s_conflicts (save_phases g v), s_rephased := Some ch\<rparr>"
  have "idle ?w ?t" by (simp add: idle_def quiet_def same_graph_def)
  then have "cdcl_ok M ?t" using idle_cdcl_ok save_phases_ok [OF v g(2)] by blast
  moreover have "\<exists>lm'. rephase lo lm s = Inr (lm', ?t)"
    using g(1) sv unfolding rephase_def u(1) lm1_def lm2_def by (simp add: Let_def v_def [symmetric])
  moreover have "upholds u ?t" by (rule tame_upholds [of _ _ M]) (use u(2) in \<open>simp_all add: tame_def save_phases_def v_def cdcl_ok_def search_ok_def\<close>)
  ultimately show ?thesis using u(3,4) upholds_trans [OF u(5)] by (auto simp: save_phases_def v_def)
qed

section \<open>The loop\<close>

definition cdcl_inv :: "(nat \<Rightarrow> bool) set \<Rightarrow> solver \<Rightarrow> bool" where
  "cdcl_inv M s \<longleftrightarrow> cdcl_ok M s \<and> (s_conflict s = None \<or> s_unsat s)"

text \<open>What an iteration, or a run of the loop, may answer.\<close>

definition answer_ok :: "(nat \<Rightarrow> bool) set \<Rightarrow> int option \<Rightarrow> solver \<Rightarrow> bool" where
  "answer_ok M res t \<longleftrightarrow> res \<in> {None, Some 0, Some 10, Some 20} \<and> (res = Some 20 \<longrightarrow> hopeless M t)
     \<and> (res = Some 10 \<longrightarrow> is_satisfied t \<and> s_conflict t = None \<and> \<not> s_unsat t)"

lemma loop_body_ok:
  assumes inv: "cdcl_inv M s"
  shows "\<exists>res lm' t. loop_body False False aux lo out (lm, s) = Inr (res, lm', t) \<and> cdcl_inv M t \<and> answer_ok M res t
    \<and> (s_unsat s \<longrightarrow> s_unsat t) \<and> (s_unsat t \<or> upholds s t) \<and> same_query s t"
proof -
  have ok: "cdcl_ok M s" using inv by (simp add: cdcl_inv_def)
  have "s_unsat s \<longrightarrow> M = {}" "s_unsat_constraint s \<longrightarrow> hopeless M s"
    using ok unfolding cdcl_ok_def search_ok_def graph_ok_def clauses_ok_def by blast+
  then have unsat: "hopeless M s" if "s_unsat s \<or> s_unsat_constraint s"
    using that unfolding hopeless_def by blast
  show ?thesis
  proof (cases "s_unsat s \<or> s_unsat_constraint s")
    case True
    with unsat inv show ?thesis by (auto simp: loop_body_def answer_ok_def)
  next
    case False
    from propagate_cdcl_ok [OF ok] obtain u where u: "search_propagate s = Inr (s_conflict u = None, u)" "cdcl_ok M u"
      "s_conflict u = None \<longrightarrow> s_propagated u = length (s_trail u)" "s_unsat u = s_unsat s" "upholds s u"
      by (elim exE conjE) (rule that; (assumption | intro conjI)+)
    show ?thesis
    proof (cases "s_conflict u")
      case (Some c)
      from analyze_conflict_ok [OF u(2) Some, of False aux False] obtain t where
        t: "analyze_conflict False False aux u = Inr t" "cdcl_ok M t" "s_conflict t = None \<or> s_unsat t" "same_query u t" "analyzed M u t" by blast
      have "s_unsat t \<or> upholds s t" using analyzed_upholds [OF u(2) t(5,4)] upholds_trans [OF u(5)] by blast
      moreover have "same_query s t" using upholds_query [OF u(5)] t(4) by simp
      ultimately show ?thesis using False u(1) t(1-3) Some by (simp add: loop_body_def cdcl_inv_def answer_ok_def)
    next
      case None
      have p: "s_propagated u = length (s_trail u)" using u(3) None by simp
      obtain r lm1 t where t: "restarting lo out lm u = (r, lm1, t)" by (metis prod_cases3)
      note R = restarting_idle [OF t]
      have okt: "cdcl_ok M t" "s_conflict t = None" "s_propagated t = length (s_trail t)"
        using idle_cdcl_ok [OF R(1) u(2)] R(1) None p by (simp_all add: idle_def quiet_def same_graph_def)
      have ut: "upholds s t" by (rule upholds_trans [OF u(5) idle_upholds [OF R(1) u(2)]])
      have B: "loop_body False False aux lo out (lm, s) =
         (if s_iterating u then Inr (Some 0, lm, iterate u) else if is_satisfied u then Inr (Some 10, lm, u)
          else if search_limits_hit lm u then Inr (None, lm, u) else if out_terminated out then Inr (None, lm, u)
          else if r then bind_res (restart lo False aux lm1 t) (\<lambda>(lm, s). Inr (Some 0, lm, s))
          else if rephasing lo lm1 t then bind_res (rephase lo lm1 t) (\<lambda>(lm, s). Inr (Some 0, lm, s))
          else bind_res (decide False (s_max_var t) aux t) (\<lambda>(res, v). Inr (Some res, count_decision t lm1, v)))"
        using False u(1) None t by (simp add: loop_body_def)
      have it: "idle u (iterate u)" by (simp add: iterate_def idle_def quiet_def same_graph_def)
      show ?thesis
      proof (cases "s_iterating u \<or> is_satisfied u \<or> search_limits_hit lm u \<or> out_terminated out")
        case True
        have "upholds s (iterate u)" by (rule upholds_trans [OF u(5) idle_upholds [OF it u(2)]])
        moreover note upholds_query [OF this]
        ultimately show ?thesis using True idle_cdcl_ok [OF it u(2)] u(2,4,5) False upholds_query [OF u(5)] None unfolding B
          by (cases "s_iterating u"; cases "is_satisfied u") (auto simp: cdcl_inv_def answer_ok_def iterate_def)
      next
        case no: False
        then have ns: "\<not> is_satisfied t" using R(2) by simp
        have ns2: "\<not> s_unsat s" using False by simp
        show ?thesis
        proof (cases "r \<or> rephasing lo lm1 t")
          case True
          then have "\<exists>lm' v. loop_body False False aux lo out (lm, s) = Inr (Some 0, lm', v) \<and> cdcl_ok M v \<and> s_conflict v = None \<and> upholds t v"
            using restart_ok [OF okt(1-3) ns R(3), of lo aux lm1] rephase_ok [OF okt(1,2), of lo lm1] no unfolding B by (cases r) auto
          then obtain lm' v where v: "loop_body False False aux lo out (lm, s) = Inr (Some 0, lm', v)" "cdcl_ok M v" "s_conflict v = None" "upholds t v"
            by blast
          note uv = upholds_trans [OF ut v(4)]
          from v uv upholds_query [OF uv] False show ?thesis by (auto simp: cdcl_inv_def answer_ok_def)
        next
          case False
          from decide_ok [OF okt(1-3) ns, of aux] obtain res v where v: "decide False (s_max_var t) aux t = Inr (res, v)" "decided M t res v" by blast
          then have tv: "upholds t v" by (simp add: decided_def)
          note uv = upholds_trans [OF ut tv]
          from False no v uv upholds_query [OF uv] upholds_query [OF tv] ns2 show ?thesis
            unfolding B by (auto simp: decided_def cdcl_inv_def answer_ok_def hopeless_def)
        qed
      qed
    qed
  qed
qed

lemma cdcl_loop_ok:
  assumes "cdcl_inv M s"
  shows "\<exists>res lm' t. cdcl_loop False False aux lo outs (lm, s) = Inr (res, lm', t) \<and> cdcl_inv M t \<and> answer_ok M res t
    \<and> (s_unsat s \<longrightarrow> s_unsat t) \<and> (s_unsat t \<or> upholds s t) \<and> same_query s t"
  using assms
proof (induction outs arbitrary: lm s)
  case Nil
  then show ?case by (simp add: answer_ok_def)
next
  case (Cons out outs)
  from loop_body_ok [OF Cons.prems, of aux lo out lm] obtain res lm1 u where
    u: "loop_body False False aux lo out (lm, s) = Inr (res, lm1, u)" "cdcl_inv M u" "answer_ok M res u" "s_unsat s \<longrightarrow> s_unsat u"
    "s_unsat u \<or> upholds s u" "same_query s u" by blast
  show ?case
  proof (cases "res = Some 0")
    case True
    from Cons.IH [OF u(2), of lm1] obtain res' lm' t where t: "cdcl_loop False False aux lo outs (lm1, u) = Inr (res', lm', t)" "cdcl_inv M t"
      "answer_ok M res' t" "s_unsat u \<longrightarrow> s_unsat t" "s_unsat t \<or> upholds u t" "same_query u t" by blast
    have "s_unsat t \<or> upholds s t" using t(4,5) u(5) upholds_trans by blast
    with t u(1,4,6) True show ?thesis by simp
  next
    case False
    with u show ?thesis by simp
  qed
qed

end
