(* ===== verification/Search_Correct.thy ===== *)
theory Search_Correct
  imports Search_Loop_Sound
begin

text \<open>
  What conflict analysis and the CDCL loop promise, with an initial state of the search on which the
  promises are exercised.
\<close>

section \<open>The start of a search\<close>

text \<open>No variable is assigned; the clauses of \<open>demo_cnf\<close> are watched, all variables are in the queue and the heap.\<close>

definition demo_start :: "pheap \<Rightarrow> solver" where
  "demo_start h = demo_search\<lparr>s_vals := (\<lambda>_. 0), s_trail := [], s_control := [mk_level 0 0], s_level := 0, s_propagated := 0,
     s_propagated2 := 0, s_queue := demo_queue, s_scores := h\<rparr>"

definition demo_limits :: limits where
  "demo_limits = \<lparr>lm_restart = 2, lm_stabilize = 1000, lm_inc_stabilize = 1000, lm_rephase = 1000, lm_rephased = (\<lambda>_. 0), lm_rephased_total = 0,
     lm_rephased_random = 0, lm_conflicts = - 1, lm_decisions = - 1, st_decisions = 0\<rparr>"

definition demo_loop_options :: loop_options where
  "demo_loop_options = \<lparr>lo_restart = True, lo_restartreusetrail = True, lo_restartint = 2, lo_restartmargin = 10, lo_stabilize = True,
     lo_stabilizeonly = False, lo_stabilizefactor = 200, lo_stabilizemaxint = 2000000000, lo_rephase = True, lo_rephaseint = 1000, lo_seed = 0\<rparr>"

lemma demo_decider:
  assumes "score_heap (\<lambda>_. 0) h" and "set (hp_array h) = {1 ..< 5}"
    and "s_scores s = h" and "s_stab s = (\<lambda>_. 0)" and "s_score_inc s = 1" and "s_queue s = demo_queue" and "o_scorefactor (s_opts s) = 950"
    and "s_max_var s = 4"
  shows "decider_ok s"
proof -
  have "queue_ok (assigned_in s) demo_queue [1, 2, 3, 4]" by (rule demo_queue_ok)
  moreover have "mset [1, 2, 3, 4] = mset [1 ..< 4 + 1]" by (simp add: upt_rec numeral_eq_Suc)
  ultimately have "\<exists>xs. queue_ok (assigned_in s) (s_queue s) xs \<and> mset xs = mset [1 ..< s_max_var s + 1]" unfolding assms by blast
  moreover have "scores_ok s" using assms by (auto simp: scores_ok_def)
  ultimately show ?thesis unfolding decider_ok_def using assms by simp
qed

lemma demo_start_inv: "\<exists>h. cdcl_inv demo_models (demo_start h)"
proof -
  obtain h where h: "score_heap (\<lambda>_. 0) h" "set (hp_array h) = {1 ..< 5}" using demo_scores by blast
  let ?s = "demo_start h"
  have l: "s_trail ?s = []" "s_level ?s = 0" "s_control ?s = [mk_level 0 0]" "s_vals ?s = (\<lambda>_. 0)" "s_max_var ?s = 4"
    by (simp_all add: demo_start_def demo_search_def)
  have v: "vals_ok ?s" by (simp add: vals_ok_def l)
  have t: "trail_ok demo_models ?s" by (simp add: trail_ok_def l)
  have c: "control_ok ?s" by (simp add: control_ok_def l mk_level_def)
  have w: "watches_good ?s"
    by (auto simp: watches_good_def list_good_def watch_good_def Let_def demo_start_def demo_search_def demo_clause_def demo_cnf_def
        watch_binary_def large_def)
  have cl: "clauses_ok demo_models ?s" by (rule demo_clauses_ok) (simp_all add: demo_start_def demo_search_def)
  have p: "plan_ok ?s" by (simp add: plan_ok_def bounded_def demo_start_def demo_search_def demo_phases_def)
  have so: "search_ok demo_models ?s" using v t c w cl p
    by (simp add: search_ok_def graph_ok_def conflict_ok_def) (simp add: demo_start_def demo_search_def)
  have q: "s_scores ?s = h" "s_stab ?s = (\<lambda>_. 0)" "s_score_inc ?s = 1" "s_queue ?s = demo_queue" "o_scorefactor (s_opts ?s) = 950"
    by (simp_all add: demo_start_def demo_search_def demo_options_def)
  have d: "decider_ok ?s" by (rule demo_decider) (use h q l in simp_all)
  have "fresh_analysis ?s" by (simp add: fresh_analysis_def demo_start_def demo_search_def new_flags_def)
  moreover have "chrono ?s" "\<not> s_unsat ?s" "s_propagated ?s = 0" "s_conflict ?s = None"
    by (simp_all add: demo_start_def demo_search_def demo_options_def)
  ultimately have "cdcl_inv demo_models ?s" using so d by (simp add: cdcl_inv_def cdcl_ok_def l)
  then show ?thesis by blast
qed

text \<open>The same structures with the conflict of \<open>demo_conflict\<close>.\<close>

definition demo_analysis :: "pheap \<Rightarrow> solver" where
  "demo_analysis h = demo_conflict\<lparr>s_queue := demo_queue, s_scores := h\<rparr>"

lemma demo_analysis_ok: "\<exists>h. cdcl_ok demo_models (demo_analysis h) \<and> s_conflict (demo_analysis h) = Some 1"
proof -
  obtain h where h: "score_heap (\<lambda>_. 0) h" "set (hp_array h) = {1 ..< 5}" using demo_scores by blast
  let ?s = "demo_analysis h"
  have c: "s_conflict ?s = Some 1" "s_max_var ?s = 4" "s_propagated ?s = 3" "s_trail ?s = [-3, 4, -1, 2]" "\<not> s_unsat ?s"
    by (simp_all add: demo_analysis_def demo_conflict_def demo_search_def)
  have sg: "same_graph demo_conflict ?s" by (simp add: same_graph_def demo_analysis_def)
  have D: "graph_ok demo_models demo_conflict" "chrono demo_conflict" "fresh_analysis demo_conflict" "1 < s_next demo_conflict"
    "\<forall>k \<in> set (lits demo_conflict 1). - k \<in> set (s_trail demo_conflict)" using demo_conflict_ok by (simp_all add: at_conflict_def)
  have w: "watches_good demo_conflict"
    by (auto simp: watches_good_def list_good_def watch_good_def Let_def demo_conflict_def demo_search_def demo_clause_def demo_cnf_def
        watch_binary_def large_def)
  have "watches_good ?s" by (rule watches_good_cong [OF w]) (simp_all add: demo_analysis_def)
  moreover have "graph_ok demo_models ?s" by (rule same_graph_ok [OF sg D(1)])
  ultimately have so: "search_ok demo_models ?s"
    using D(4,5) by (simp add: search_ok_def conflict_ok_def) (simp add: demo_analysis_def demo_conflict_def demo_search_def demo_clause_def demo_cnf_def)
  have r: "s_scores ?s = h" "s_stab ?s = (\<lambda>_. 0)" "s_score_inc ?s = 1" "s_queue ?s = demo_queue" "o_scorefactor (s_opts ?s) = 950"
    by (simp_all add: demo_analysis_def demo_conflict_def demo_search_def demo_options_def)
  have d: "decider_ok ?s" by (rule demo_decider) (use h r c in simp_all)
  have "fresh_analysis ?s" "chrono ?s" using D(2,3) by (simp_all add: fresh_analysis_def demo_analysis_def)
  then have "cdcl_ok demo_models ?s" using so d c by (simp add: cdcl_ok_def)
  with c(1) show ?thesis by blast
qed

section \<open>The properties\<close>

text \<open>C3. Conflict analysis (\<open>Internal::analyze\<close>, as built by default or with \<open>UIPAUX\<close> when no decision is auxiliary,
with chronological backtracking, minimization, bumping, trail reuse and eager subsumption) is total on every conflict of
the search: no null reason, no access out of range, no loop without end.  Afterwards the state is again a state of the search,
there is no conflict any more unless the formula was found to have no model, and every clause it has put in the proof follows
from the formula.\<close>

theorem analyze_conflict_sound:
  assumes "cdcl_ok M s" and "s_conflict s = Some c" and "uipaux \<longrightarrow> no_aux_decision aux s"
  shows "\<exists>t. analyze_conflict uipaux branchaux aux s = Inr t \<and> cdcl_ok M t \<and> (s_conflict t = None \<or> s_unsat t \<and> M = {})
    \<and> (\<forall>C. Derived C \<in> set (s_proof t) \<longrightarrow> ent M C)"
proof -
  from analyze_conflict_ok [OF assms(1,2), of uipaux aux branchaux] assms(3) obtain t where
    t: "analyze_conflict uipaux branchaux aux s = Inr t" "cdcl_ok M t" "s_conflict t = None \<or> s_unsat t" by blast
  have "\<forall>C. Derived C \<in> set (s_proof t) \<longrightarrow> ent M C"
    using t(2) unfolding cdcl_ok_def search_ok_def graph_ok_def clauses_ok_def by blast
  moreover have "s_unsat t \<longrightarrow> M = {}" using t(2) by (simp add: cdcl_ok_def)
  ultimately show ?thesis using t by blast
qed

theorem analyze_conflict_sound_witness:
  "\<exists>h t. analyze_conflict False False (\<lambda>v. v = 4) (demo_analysis h) = Inr t \<and> cdcl_ok demo_models t"
proof -
  obtain h where "cdcl_ok demo_models (demo_analysis h)" "s_conflict (demo_analysis h) = Some 1" using demo_analysis_ok by blast
  from analyze_conflict_sound [OF this, of False "\<lambda>v. v = 4" False] show ?thesis by blast
qed

text \<open>C1. The CDCL loop (\<open>cdcl_loop_with_inprocessing\<close> with inprocessing off: propagation, analysis, restarts, rephasing and
decisions), however long it runs and whatever the averages, the reluctant signal and termination requests are: it never fails,
it keeps the invariant of the search, every clause it derives follows from the formula, and when it answers 20, no model of the
formula satisfies the assumptions and the constraint.\<close>

theorem cdcl_loop_sound:
  assumes "cdcl_inv M s"
  shows "\<exists>res lm' t. cdcl_loop False False aux lo outs (lm, s) = Inr (res, lm', t) \<and> cdcl_inv M t
    \<and> res \<in> {None, Some 0, Some 10, Some 20} \<and> (\<forall>C. Derived C \<in> set (s_proof t) \<longrightarrow> ent M C)
    \<and> (res = Some 20 \<longrightarrow> \<not> (\<exists>a \<in> M. (\<forall>l \<in> set (s_assumptions s). lit_on a l) \<and> (s_constraint s = [] \<or> cl_on a (s_constraint s))))"
proof -
  from cdcl_loop_ok [OF assms, of aux lo outs lm] obtain res lm' t where
    t: "cdcl_loop False False aux lo outs (lm, s) = Inr (res, lm', t)" "cdcl_inv M t" "answer_ok M res t" "same_query s t"
    by (elim exE conjE) (rule that; (assumption | intro conjI)+)
  have "\<forall>C. Derived C \<in> set (s_proof t) \<longrightarrow> ent M C"
    using t(2) unfolding cdcl_inv_def cdcl_ok_def search_ok_def graph_ok_def clauses_ok_def by blast
  with t show ?thesis unfolding answer_ok_def hopeless_def by (intro exI conjI) (assumption | blast | simp)+
qed

theorem cdcl_loop_sound_witness:
  "\<exists>h res lm' t. cdcl_loop False False (\<lambda>_. False) demo_loop_options
     (replicate 10 \<lparr>out_reluctant = False, out_slow = 1, out_fast = 1, out_terminated = False\<rparr>) (demo_limits, demo_start h) = Inr (res, lm', t)
     \<and> cdcl_inv demo_models t"
  using demo_start_inv cdcl_loop_sound by blast

text \<open>The models of a state: of its irredundant clauses and the literals fixed on level zero; the assignment its trail describes.\<close>

definition state_models :: "solver \<Rightarrow> (nat \<Rightarrow> bool) set" where
  "state_models s = {a. (\<forall>c < s_next s. \<not> c_garbage (s_heap s c) \<longrightarrow> \<not> c_redundant (s_heap s c) \<longrightarrow> cl_on a (lits s c))
     \<and> (\<forall>l \<in> set (s_trail s). lev s l = 0 \<longrightarrow> lit_on a l)}"

definition trail_model :: "solver \<Rightarrow> nat \<Rightarrow> bool" where
  "trail_model s v \<longleftrightarrow> int v \<in> set (s_trail s)"

lemma trail_model_on:
  assumes v: "vals_ok s" and l: "l \<in> set (s_trail s)"
  shows "lit_on (trail_model s) l"
proof -
  have "l \<noteq> 0" using v l by (auto simp: vals_ok_def lit_in_def)
  moreover have "- l \<notin> set (s_trail s)" using trail_var_unique [OF v, of l "- l"] l \<open>l \<noteq> 0\<close> by auto
  ultimately show ?thesis using l by (cases "0 < l") (auto simp: lit_on_def trail_model_def)
qed

lemma answer_10_model:
  assumes inv: "cdcl_inv M t" and g: "good t" and sat: "is_satisfied t" and c: "s_conflict t = None"
    and cr: "carries s t" and fs: "fixed_stay s t" and q: "same_query s t"
  shows "trail_model t \<in> state_models s \<and> (\<forall>l \<in> set (s_assumptions s). lit_on (trail_model t) l)
    \<and> (s_constraint s = [] \<or> cl_on (trail_model t) (s_constraint s))"
proof -
  have gt: "graph_ok M t" and v: "vals_ok t" using inv by (simp_all add: cdcl_inv_def cdcl_ok_def search_ok_def graph_ok_def)
  have w: "watch_inv t" "query_ok t" using g by (simp_all add: good_def)
  note on = trail_model_on [OF v]
  have "cl_on (trail_model t) (lits s d)" if d: "d < s_next s" "\<not> c_garbage (s_heap s d)" "\<not> c_redundant (s_heap s d)" for d
  proof -
    have k: "set (lits t d) = set (lits s d)" "live t d" using cr d by (simp_all add: carries_def live_def)
    from full_satisfies [OF gt c w(1) sat k(2)] obtain l where "l \<in> set (lits s d)" "l \<in> set (s_trail t)"
      unfolding true_in_def k(1) by blast
    with on show ?thesis by (auto simp: cl_on_def list_ex_iff)
  qed
  moreover have "lit_on (trail_model t) l" if "l \<in> set (s_trail s)" "lev s l = 0" for l
    using fs that on unfolding fixed_stay_def by blast
  ultimately have "trail_model t \<in> state_models s" by (simp add: state_models_def)
  moreover have "lit_on (trail_model t) l" if a: "l \<in> set (s_assumptions s)" for l
  proof -
    obtain i where i: "i < length (s_assumptions s)" "s_assumptions s ! i = l" using a by (auto simp: in_set_conv_nth)
    then have "i < s_level t" using sat q by (simp add: is_satisfied_def)
    with w(2) i q have "l \<in> set (s_trail t)" unfolding query_ok_def by auto
    then show ?thesis by (rule on)
  qed
  moreover have "s_constraint s = [] \<or> cl_on (trail_model t) (s_constraint s)"
  proof (cases "s_constraint s = []")
    case False
    then have "length (s_assumptions s) < s_level t" using sat q by (simp add: is_satisfied_def split: if_splits)
    with w(2) q False obtain l where "l \<in> set (s_constraint s)" "l \<in> set (s_trail t)" unfolding query_ok_def by auto
    with on show ?thesis by (auto simp: cl_on_def list_ex_iff)
  qed simp
  ultimately show ?thesis by blast
qed

text \<open>C2. When the CDCL loop answers 10, the trail is a model: it satisfies every irredundant clause the search started with, the
literals that were fixed, all assumptions and the constraint.  The start needs the watch invariant: both watched literals of
each clause have it in their lists, and a clause with a false watch that was propagated has a true literal, which stays when the
false one does.\<close>

theorem cdcl_loop_model:
  assumes "cdcl_inv M s" and "good s"
  shows "\<exists>res lm' t. cdcl_loop False False aux lo outs (lm, s) = Inr (res, lm', t)
    \<and> (res = Some 10 \<longrightarrow> trail_model t \<in> state_models s \<and> (\<forall>l \<in> set (s_assumptions s). lit_on (trail_model t) l)
         \<and> (s_constraint s = [] \<or> cl_on (trail_model t) (s_constraint s)))"
proof -
  from cdcl_loop_ok [OF assms(1), of aux lo outs lm] obtain res lm' t where
    t: "cdcl_loop False False aux lo outs (lm, s) = Inr (res, lm', t)" "cdcl_inv M t" "answer_ok M res t" "s_unsat t \<or> upholds s t" "same_query s t"
    by (elim exE conjE) (rule that; (assumption | intro conjI)+)
  have "trail_model t \<in> state_models s \<and> (\<forall>l \<in> set (s_assumptions s). lit_on (trail_model t) l)
      \<and> (s_constraint s = [] \<or> cl_on (trail_model t) (s_constraint s))" if r: "res = Some 10"
  proof -
    have "is_satisfied t" "s_conflict t = None" "upholds s t" using t(3,4) r by (simp_all add: answer_ok_def)
    with assms(2) answer_10_model [OF t(2) _ _ _ _ _ t(5)] show ?thesis by (simp add: upholds_def)
  qed
  with t(1) show ?thesis by blast
qed

lemma demo_start_good: "good (demo_start h)"
proof -
  have l: "s_trail (demo_start h) = []" "s_level (demo_start h) = 0" "s_propagated (demo_start h) = 0"
    by (simp_all add: demo_start_def demo_search_def)
  have "watched (demo_start h)" unfolding watched_def live_def
    by (simp add: demo_start_def demo_search_def demo_clause_def demo_cnf_def less_3)
  then have "watch_inv (demo_start h)" by (simp add: watch_inv_def marks_ok_def prefixes_ok_def front_ok_def wfalse_def l)
  moreover have "query_ok (demo_start h)" by (simp add: query_ok_def l)
  ultimately show ?thesis by (simp add: good_def)
qed

theorem cdcl_loop_model_witness:
  "\<exists>h res lm' t. cdcl_loop False False (\<lambda>_. False) demo_loop_options
     (replicate 8 \<lparr>out_reluctant = False, out_slow = 1, out_fast = 1, out_terminated = False\<rparr>) (demo_limits, demo_start h) = Inr (res, lm', t)
     \<and> (res = Some 10 \<longrightarrow> trail_model t \<in> state_models (demo_start h))"
proof -
  obtain h where "cdcl_inv demo_models (demo_start h)" using demo_start_inv by blast
  from cdcl_loop_model [OF this demo_start_good, of "\<lambda>_. False" demo_loop_options
      "replicate 8 \<lparr>out_reluctant = False, out_slow = 1, out_fast = 1, out_terminated = False\<rparr>" demo_limits]
  show ?thesis by blast
qed

end
