(* ===== verification/Spec2Isabelle.thy ===== *)
theory Spec2Isabelle
  imports Gate_Theorems Solver_Words Gate_Transform Stamp Md5 Dimacs_Reader Parser_Theorems Proof_Checker_Theorems
    Extension Search_Correct
begin

text \<open>
  Ignoring gate literals in CaDiCaL.  The program is a pipeline (\<open>src/run.sh\<close>): \<open>cnftools\<close> reads a DIMACS
  file, recognises the gates its clauses encode and prints the variables that are gate outputs; \<open>cadical\<close>
  reads the same file and that list, and treats the variables listed as auxiliary: it does not decide on
  them (\<open>BRANCHAUX\<close>) or keeps them out of learned clauses (\<open>UIPAUX\<close>).  This development models both
  programs' logic on this path and proves what makes each step correct.

  \<^bold>\<open>The theories, in the order of the pipeline.\<close>

  \<^item> \<open>Prelude\<close>: names of the machine integers, the error type \<open>err\<close> (one constructor for each way in which the
    code can leave its path: an index out of range, a null pointer, an exception, \<open>abort\<close>, or fuel used up),
    the error monad \<open>bind_res\<close> and \<open>fold_res\<close>, the checked vector accesses \<open>vec_get\<close> and \<open>vec_set\<close>, and the lemmas
    on lists that components share.
  \<^item> \<open>Solver_Words\<close> (32-bit \<open>Var\<close> and \<open>Lit\<close>, the lifted booleans) and \<open>Solver_Types\<close> (literals on \<open>nat\<close>, which
    the words refine as long as they fit): \<open>cnftools/src/util/SolverTypes.h\<close>.
  \<^item> \<open>Stream_Buffer\<close> (\<open>StreamBuffer.h\<close>), \<open>Cnf_Formula\<close> (\<open>CNFFormula.h\<close>), \<open>Dimacs_Reader\<close> (\<open>readDimacsFromFile\<close>, over
    any stream that fulfils the locale of stream operations, interpreted for the refilled buffer), \<open>Md5\<close>
    (\<open>cnftools/lib/md5\<close>) with the digest it computes in \<open>Rfc1321\<close> (defined without the code; its constants are the
    integer parts of multiples of the sine, evaluated with a proved error bound), \<open>Stamp\<close> (\<open>Stamp.h\<close>), \<open>Resource_Limits\<close> (\<open>ResourceLimits.h\<close>), \<open>Decimal\<close> (printed numbers).
  \<^item> \<open>Occurrence_List\<close>, \<open>Blocked\<close>, \<open>Gate_Formula\<close>, \<open>Gate_Patterns\<close>, \<open>Gate_Analyzer\<close>, \<open>Gate_Transform\<close>, \<open>Gate_Stats\<close>: the
    gate analysis (\<open>cnftools/src/gates\<close>, \<open>features/GateStats.h\<close>).  A clause pointer is a clause with its address; the
    IPASIR solver, the clocks and the iteration order of \<open>unordered_set\<close> are parameters.  \<open>Gate_Theorems\<close> has the
    properties of the whole analysis.
  \<^item> \<open>Dimacs_Parser\<close>, \<open>Aux_Parser\<close>, \<open>Parser_Theorems\<close>: CaDiCaL's parsers (\<open>cadical/src/parse.cpp\<close>) for formulas with cubes and
    options, for solutions, and for the list of auxiliary variables; with the round trips from what is printed.
  \<^item> \<open>Assignments\<close>: the meaning of DIMACS literals and clauses; \<open>ent M c\<close> says that \<open>c\<close> holds in all assignments of \<open>M\<close>.
  \<^item> \<open>Proof_Checker\<close> with \<open>_Sound\<close>, \<open>_Add\<close>, \<open>_Delete\<close>, \<open>_Theorems\<close>: the online DRUP checker (\<open>checker.cpp\<close>, \<open>checker.hpp\<close>) over a
    heap of clause objects with a hash table.
  \<^item> \<open>Score_Heap\<close> (\<open>heap.hpp\<close>, with the locale \<open>priority\<close> for the order it needs), \<open>Decision_Queue\<close> (\<open>queue.hpp\<close>, \<open>queue.cpp\<close>),
    \<open>Decide\<close> (\<open>score.cpp\<close>, the choice of the variable and its phase in \<open>decide.cpp\<close>).
  \<^item> \<open>Extension\<close>: the extension stack and \<open>extend\<close> (\<open>extend.cpp\<close>).
  \<^item> \<open>Search_State\<close> (the record \<open>solver\<close> for \<open>Internal\<close>; clauses, variables, levels, watches, flags, phases; the assignments of
    \<open>propagate.cpp\<close>; \<open>backtrack.cpp\<close>), \<open>Search_Propagate\<close> (\<open>propagate\<close>, \<open>decide\<close>), \<open>Search_Analyze\<close> (the first unique
    implication point, \<open>UIPAUX\<close>, bumping, \<open>minimize.cpp\<close>), \<open>Search_Learn\<close> (the rest of \<open>analyze.cpp\<close>).  A pointer to a
    clause is an address in \<open>s_heap\<close>.
  \<^item> \<open>Search_Inv\<close> (the invariant of the search, and that assignments, decisions and backtracking keep it),
    \<open>Search_Propagate_Sound\<close>, \<open>Search_Analyze_Sound\<close>, \<open>Search_Derive\<close>, \<open>Search_Minimize\<close>, and \<open>Search_Theorems\<close> with the properties
    of propagation and of the learned clause.
  \<^item> \<open>Search_Decider\<close> (queue and heap stay good while variables are assigned, unassigned and bumped), \<open>Search_Bump\<close>,
    \<open>Search_Conflict\<close> (\<open>find_conflict_level\<close>), \<open>Search_Backjump\<close> (the driving clause and the level to go back to),
    \<open>Search_Learn_Sound\<close>: all of \<open>analyze\<close> is total and keeps \<open>cdcl_ok\<close>, the invariant between conflicts.
  \<^item> \<open>Random_Numbers\<close> (\<open>random.hpp\<close>, \<open>reluctant.hpp\<close>), \<open>Search_Loop\<close> (\<open>restart.cpp\<close>, \<open>rephase.cpp\<close>, the loop of \<open>internal.cpp\<close>),
    \<open>Search_Watch\<close> with \<open>_Propagate\<close> and \<open>_Analyze\<close> (the watch invariant: a clause with a false watch that was propagated has a true
    literal, and for each level below which the false one stays, so does the true one), \<open>Search_Keep\<close> (what every step of the loop keeps
    for the answer 10), \<open>Search_Loop_Sound\<close> (restarts, rephasing, decisions and the loop keep the invariants), \<open>Search_Correct\<close> with
    the properties of analysis and of the loop.

  \<^bold>\<open>What the theorems show.\<close>  The gate analysis returns without an access out of range as long as no candidate has 64 or more
  inputs, partitions the clauses into roots, gates and remainder unless its 60 seconds run out (then the roots selected last are
  lost), and its gates are definitions of their outputs; the exceptions are stated with the inputs that
  make them.  MD5 in pieces shorter than \<open>2 ^ 32 - 64\<close> bytes is the digest of RFC 1321.  What is printed is read back.  The proof checker is sound, uses no freed clause, and keeps
  only literals that its arrays have been enlarged for.  A decision is the best
  unassigned variable, and with \<open>BRANCHAUX\<close> the search for it may not end.  Propagation is total and keeps the invariant;
  the clause that conflict analysis learns follows from the formula, is false and asserting, with \<open>UIPAUX\<close> only as
  long as no auxiliary variable is decided.  Conflict analysis and the CDCL loop never fail; when the loop answers 20,
  no model satisfies the assumptions and the constraint, and when it answers 10, the trail is such a model.
  An extended model satisfies the original formula.

  \<^bold>\<open>Loops and bounds.\<close>  Loops that are structural or have a decreasing measure are total functions.  The others have fuel, and the
  theorems show that the fuel they are called with is enough: for the gate analysis one more than the number of clauses, since
  each round that goes on removes a clause from the index; for readers the length of the file, since each
  round consumes a character; for propagation the number of variables, since each step propagates a literal of the
  trail; for the CDCL loop the list of what each iteration reads from outside, of any length; for the erasure of auxiliary literals the length of the clause and the number of variables, since each step
  passes a literal or replaces it by unseen ones; for the checker's hash chains the size of the table.  Where the code itself
  does not end, \<open>OutOfFuel\<close> is the result for every fuel, and that is a theorem.  The loop of \<open>md5_t::process\<close>, whose
  counter wraps around, is a \<open>partial_function\<close>; it is shown to return for every piece below the bound.

  \<^bold>\<open>Not modelled.\<close>  Inprocessing, \<open>shrink.cpp\<close>, local search, garbage collection and reduction, which this repository does not
  change (the loop is modelled as it runs with their options off); the moving averages and the learner; the external interface and the tools; the floating-point features of \<open>cnftools\<close> (scores of variables are rational
  numbers here); messages, profiles, and counters that are only printed; the solver Kissat, which the pipeline does not use.
\<close>

end
